(* ===== verification/C_Prelude.thy ===== *)
theory C_Prelude
  imports Main "HOL-Library.Word"
begin

text \<open>
  Prelude of the development: the C integer types as machine words, memory copies into
  a buffer, rotations as the code writes them, and the generic facts on lists and words
  that the component theories share.

  A C array is a list. A copy \<open>memcpy (&dst[off], src, n)\<close> is \<open>blit\<close>: it keeps the length of
  the destination exactly when the copied range lies inside it, so a lemma that a buffer
  keeps its length says that no copy ran past its end.
\<close>

unbundle bit_operations_syntax

named_theorems buf_simps \<open>facts about buffers, copies and block lists\<close>
named_theorems len_simps \<open>lengths of the arrays the operations return\<close>

section \<open>The C integer types\<close>

type_synonym u8 = "8 word"
type_synonym u32 = "32 word"
type_synonym u64 = "64 word"
type_synonym bytes = "8 word list"

text \<open>How a call can stop the program.\<close>

datatype c_error = AssertFailed

section \<open>Copies and element-wise updates of buffers\<close>

definition blit :: "'a list \<Rightarrow> nat \<Rightarrow> 'a list \<Rightarrow> 'a list" where
  "blit dst off src = take off dst @ src @ drop (off + length src) dst"

lemma length_blit [simp]:
  "off + length src \<le> length dst \<Longrightarrow> length (blit dst off src) = length dst"
  by (simp add: blit_def)

lemma take_blit [buf_simps]:
  "off + length src \<le> length dst \<Longrightarrow> take (off + length src) (blit dst off src) = take off dst @ src"
  by (simp add: blit_def)

lemma take_blit_eq [buf_simps]:
  "off + length src \<le> length dst \<Longrightarrow> n = off + length src
    \<Longrightarrow> take n (blit dst off src) = take off dst @ src"
  by (simp add: blit_def)

lemma blit_full [buf_simps]:
  "off + length src = length dst \<Longrightarrow> blit dst off src = take off dst @ src"
  by (simp add: blit_def)

lemma blit_0_full [simp]: "length src = length dst \<Longrightarrow> blit dst 0 src = src"
  by (simp add: blit_def)

lemma blit_Nil [simp]: "blit dst off [] = dst"
  by (simp add: blit_def)

lemma nth_blit:
  "off + length src \<le> length dst \<Longrightarrow> i < length dst \<Longrightarrow>
     blit dst off src ! i = (if off \<le> i \<and> i < off + length src then src ! (i - off) else dst ! i)"
  by (auto simp: blit_def nth_append min_def)

text \<open>\<open>for (i = 0; i < n; i++) dst[off + i] ^= src[i];\<close> over the whole of \<open>src\<close>.\<close>

definition xor_at :: "'a::len word list \<Rightarrow> nat \<Rightarrow> 'a word list \<Rightarrow> 'a word list" where
  "xor_at dst off src = blit dst off (map2 (XOR) (take (length src) (drop off dst)) src)"

lemma length_xor_at [simp]:
  "off + length src \<le> length dst \<Longrightarrow> length (xor_at dst off src) = length dst"
  by (simp add: xor_at_def)

lemma nth_xor_at:
  "off + length src \<le> length dst \<Longrightarrow> i < length dst \<Longrightarrow>
     xor_at dst off src ! i =
       (if off \<le> i \<and> i < off + length src then dst ! i XOR src ! (i - off) else dst ! i)"
  by (auto simp: xor_at_def nth_blit)

lemma xor_at_Nil [simp]: "xor_at dst off [] = dst"
  by (simp add: xor_at_def)

lemma xor_at_append:
  assumes "off + length xs + length ys \<le> length dst"
  shows "xor_at (xor_at dst off xs) (off + length xs) ys = xor_at dst off (xs @ ys)"
  using assms by (intro nth_equalityI) (auto simp: nth_xor_at nth_append)

section \<open>Rotations, as the code writes them\<close>

definition rotr32 :: "u32 \<Rightarrow> nat \<Rightarrow> u32" where
  "rotr32 w c = drop_bit c w OR push_bit (32 - c) w"

definition rotl32 :: "u32 \<Rightarrow> nat \<Rightarrow> u32" where
  "rotl32 w c = push_bit c w OR drop_bit (32 - c) w"

definition rotr64 :: "u64 \<Rightarrow> nat \<Rightarrow> u64" where
  "rotr64 w c = drop_bit c w OR push_bit (64 - c) w"

definition rotl64 :: "u64 \<Rightarrow> nat \<Rightarrow> u64" where
  "rotl64 w c = push_bit c w OR drop_bit (64 - c) w"

lemma word_rotr_shifts:
  fixes w :: "'a::len word"
  assumes "0 < c" and "c < LENGTH('a)"
  shows "drop_bit c w OR push_bit (LENGTH('a) - c) w = word_rotr c w"
proof (rule bit_word_eqI)
  fix n assume n: "n < LENGTH('a)"
  show "bit (drop_bit c w OR push_bit (LENGTH('a) - c) w) n = bit (word_rotr c w) n"
  proof (cases "n + c < LENGTH('a)")
    case True
    with n assms show ?thesis
      by (auto simp: bit_simps ac_simps)
  next
    case False
    then have "(n + c) mod LENGTH('a) = n + c - LENGTH('a)"
      using n assms by (subst le_mod_geq) auto
    moreover have "\<not> bit w (c + n)"
      using False by (auto dest: bit_imp_le_length)
    ultimately show ?thesis
      using False n assms by (auto simp: bit_simps ac_simps)
  qed
qed

lemma word_rotl_shifts:
  fixes w :: "'a::len word"
  assumes "0 < c" and "c < LENGTH('a)"
  shows "push_bit c w OR drop_bit (LENGTH('a) - c) w = word_rotl c w"
  using word_rotr_shifts [of "LENGTH('a) - c" w] assms
  by (simp add: word_rotl_eq_word_rotr or.commute)

lemma rotr32_eq: "0 < c \<Longrightarrow> c < 32 \<Longrightarrow> rotr32 w c = word_rotr c w"
  using word_rotr_shifts [of c w] by (simp add: rotr32_def)

lemma rotl32_eq: "0 < c \<Longrightarrow> c < 32 \<Longrightarrow> rotl32 w c = word_rotl c w"
  using word_rotl_shifts [of c w] by (simp add: rotl32_def)

lemma rotr64_eq: "0 < c \<Longrightarrow> c < 64 \<Longrightarrow> rotr64 w c = word_rotr c w"
  using word_rotr_shifts [of c w] by (simp add: rotr64_def)

lemma rotl64_eq: "0 < c \<Longrightarrow> c < 64 \<Longrightarrow> rotl64 w c = word_rotl c w"
  using word_rotl_shifts [of c w] by (simp add: rotl64_def)

section \<open>Counting loops\<close>

text \<open>
  \<open>for (i = a; i < b; i++) s = f(s, i);\<close> is a fold over the indices. These facts unroll it,
  split it and carry an invariant through it.
\<close>

definition for_range :: "nat \<Rightarrow> nat \<Rightarrow> ('s \<Rightarrow> nat \<Rightarrow> 's) \<Rightarrow> 's \<Rightarrow> 's" where
  "for_range a b f s = foldl f s [a..<b]"

lemma for_range_empty [simp]: "b \<le> a \<Longrightarrow> for_range a b f s = s"
  by (simp add: for_range_def)

lemma for_range_Suc: "a \<le> b \<Longrightarrow> for_range a (Suc b) f s = f (for_range a b f s) b"
  by (simp add: for_range_def)

lemma for_range_invariant:
  assumes "P a s" and "\<And>i s. a \<le> i \<Longrightarrow> i < b \<Longrightarrow> P i s \<Longrightarrow> P (Suc i) (f s i)" and "a \<le> b"
  shows "P b (for_range a b f s)"
  using assms(3,1,2) by (induction b rule: dec_induct) (auto simp: for_range_Suc)

lemma for_range_split: "a \<le> b \<Longrightarrow> for_range a (b + n) f s = for_range b (b + n) f (for_range a b f s)"
  by (simp add: for_range_def upt_add_eq_append [of a b n])

lemma for_range_shift: "for_range a (a + n) f s = for_range 0 n (\<lambda>s j. f s (a + j)) s"
  by (induction n) (simp_all add: for_range_Suc)

lemma for_range_cong [fundef_cong]:
  assumes "a = a'" and "b = b'" and "s = s'"
    and "\<And>i s. a \<le> i \<Longrightarrow> i < b \<Longrightarrow> f s i = g s i"
  shows "for_range a b f s = for_range a' b' g s'"
  unfolding for_range_def using assms by (intro foldl_cong) auto

lemma for_range_pres:
  "P s \<Longrightarrow> (\<And>i s. a \<le> i \<Longrightarrow> i < b \<Longrightarrow> P s \<Longrightarrow> P (f s i)) \<Longrightarrow> P (for_range a b f s)"
  by (cases "a \<le> b") (auto intro: for_range_invariant [where P = "\<lambda>_. P"])

text \<open>The same loop over a state related by \<open>h\<close>.\<close>

lemma for_range_sim:
  assumes "\<And>i s. a \<le> i \<Longrightarrow> i < b \<Longrightarrow> P s \<Longrightarrow> h (f s i) = g (h s) i \<and> P (f s i)" and "P s"
  shows "h (for_range a b f s) = for_range a b g (h s) \<and> P (for_range a b f s)"
proof (cases "a \<le> b")
  case True
  have "h (for_range a n f s) = for_range a n g (h s) \<and> P (for_range a n f s)"
    if "a \<le> n" and "n \<le> b" for n
    using that
  proof (induction n rule: dec_induct)
    case base
    show ?case using assms(2) by simp
  next
    case (step n)
    then have IH: "h (for_range a n f s) = for_range a n g (h s)" "P (for_range a n f s)"
      by auto
    have "h (f (for_range a n f s) n) = g (h (for_range a n f s)) n \<and> P (f (for_range a n f s) n)"
      using step.hyps step.prems IH(2) by (intro assms(1)) auto
    then show ?case
      unfolding for_range_Suc [OF step.hyps(1)] IH(1) .
  qed
  with True show ?thesis by blast
qed (simp add: assms)

section \<open>Counters that wrap\<close>

lemma mod_mult_div: "0 < a \<Longrightarrow> x mod (a * k) div a = x div a mod (k :: nat)"
  by (simp add: mod_mult2_eq)

lemma mod_mult_div_mod: "0 < a \<Longrightarrow> b dvd k \<Longrightarrow> x mod (a * k) div a mod b = x div a mod (b :: nat)"
  by (simp add: mod_mult_div mod_mod_cancel)

lemma unat_add_of_nat: "unat ((x :: 'a::len word) + of_nat n) = (unat x + n) mod 2 ^ LENGTH('a)"
  by (simp add: unat_word_ariths unat_of_nat mod_add_right_eq)

lemma unat_and_mask: "unat (x AND mask n :: 'a::len word) = unat x mod 2 ^ n"
  by (metis take_bit_eq_mask take_bit_eq_mod unsigned_take_bit_eq)

lemma unat_drop_bit: "unat (drop_bit n x :: 'a::len word) = unat x div 2 ^ n"
  by (metis drop_bit_eq_div unsigned_drop_bit_eq unsigned_take_bit_eq take_bit_word_eq_self order_refl)

lemma mod_two_digits: "x < b \<Longrightarrow> (x + b * y) mod (b * c) = x + b * (y mod (c :: nat))"
  by (subst mod_mult2_eq) simp

lemma and_31: "(n :: nat) AND 31 = n mod 32"
  using and_exp_eq_0_iff_not_bit take_bit_eq_mask [of 5 n] by (simp add: mask_eq_exp_minus_1 take_bit_eq_mod)

lemma and_63: "(n :: nat) AND 63 = n mod 64"
  using take_bit_eq_mask [of 6 n] by (simp add: mask_eq_exp_minus_1 take_bit_eq_mod)

section \<open>Sub-blocks of an array\<close>

text \<open>\<open>sub i n xs\<close> is the \<open>n\<close> elements of \<open>xs\<close> from index \<open>i\<close>, what the code reads at \<open>&xs[i]\<close>.\<close>

definition sub :: "nat \<Rightarrow> nat \<Rightarrow> 'a list \<Rightarrow> 'a list" where
  "sub i n xs = take n (drop i xs)"

lemma length_sub [simp]: "i + n \<le> length xs \<Longrightarrow> length (sub i n xs) = n"
  by (simp add: sub_def)

lemma nth_sub [simp]: "i + n \<le> length xs \<Longrightarrow> j < n \<Longrightarrow> sub i n xs ! j = xs ! (i + j)"
  by (simp add: sub_def)

lemma sub_blit: "i + length xs \<le> length V \<Longrightarrow> sub i (length xs) (blit V i xs) = xs"
  by (simp add: sub_def blit_def)

end
