(* ===== verification/Streaming.thy ===== *)
theory Streaming
  imports C_Prelude
begin

text \<open>
  The interface every incremental routine of the program offers: data comes in pieces, the
  pieces are cut into blocks, whole blocks are mixed in and the rest waits in a buffer.
  \<open>absorb\<close> is the reference: mix whole blocks, keep the rest. The locale \<open>incremental\<close> is
  what a caller relies on (how the data is cut into pieces does not matter); \<open>buffered\<close> is
  what a block buffer provides; \<open>stream_hash\<close> adds initialisation and finalisation; and
  \<open>keyed_hash\<close> is HMAC over any such hash.
\<close>

section \<open>Cutting a message into blocks\<close>

text \<open>
  \<open>absorb B k f s xs\<close> mixes the blocks of \<open>B\<close> elements of \<open>xs\<close> into \<open>s\<close> while at least
  \<open>B + k\<close> elements are left, and returns the state and the rest. With \<open>k = 0\<close> a full block is
  mixed at once; with \<open>k = 1\<close> the last block is held back until more data follows.
\<close>

function absorb :: "nat \<Rightarrow> nat \<Rightarrow> ('s \<Rightarrow> 'a list \<Rightarrow> 's) \<Rightarrow> 's \<Rightarrow> 'a list \<Rightarrow> 's \<times> 'a list" where
  "absorb B k f s xs =
     (if B = 0 \<or> length xs < B + k then (s, xs)
      else absorb B k f (f s (take B xs)) (drop B xs))"
  by pat_completeness auto
termination
  by (relation "measure (\<lambda>(B, k, f, s, xs). length xs)") auto

declare absorb.simps [simp del]

lemma absorb_short [simp]: "length xs < B + k \<Longrightarrow> absorb B k f s xs = (s, xs)"
  by (simp add: absorb.simps)

lemma absorb_step:
  "0 < B \<Longrightarrow> B + k \<le> length xs \<Longrightarrow> absorb B k f s xs = absorb B k f (f s (take B xs)) (drop B xs)"
  by (subst absorb.simps) simp

lemma absorb_block:
  "0 < B \<Longrightarrow> length b = B \<Longrightarrow> k \<le> length xs \<Longrightarrow>
     absorb B k f s (b @ xs) = absorb B k f (f s b) xs"
  by (subst absorb_step) auto

lemma absorb_append:
  assumes "0 < B"
  shows "absorb B k f s (xs @ ys) =
    absorb B k f (fst (absorb B k f s xs)) (snd (absorb B k f s xs) @ ys)"
  using assms
proof (induction B k f s xs rule: absorb.induct)
  case (1 B k f s xs)
  show ?case
  proof (cases "length xs < B + k")
    case True
    then show ?thesis by simp
  next
    case False
    have "absorb B k f s (xs @ ys) = absorb B k f (f s (take B xs)) (drop B xs @ ys)"
      using False "1.prems" by (subst absorb_step) auto
    with False 1 show ?thesis by (simp add: absorb_step)
  qed
qed

lemma absorb_rest_less:
  "0 < B \<Longrightarrow> length (snd (absorb B k f s xs)) < B + k"
proof (induction B k f s xs rule: absorb.induct)
  case (1 B k f s xs)
  then show ?case
    by (cases "length xs < B + k") (auto simp: absorb_step)
qed

lemma absorb_rest_suffix: "\<exists>n. snd (absorb B k f s xs) = drop (n * B) xs \<and> n * B \<le> length xs"
proof (induction B k f s xs rule: absorb.induct)
  case (1 B k f s xs)
  show ?case
  proof (cases "B = 0 \<or> length xs < B + k")
    case True
    then show ?thesis by (intro exI [of _ 0]) (auto simp: absorb.simps)
  next
    case False
    then obtain n where "snd (absorb B k f (f s (take B xs)) (drop B xs)) = drop (n * B) (drop B xs)"
        and "n * B \<le> length (drop B xs)"
      using 1 by blast
    with False show ?thesis
      by (intro exI [of _ "Suc n"]) (auto simp: absorb_step ac_simps)
  qed
qed

lemma absorb_rest_length:
  assumes "0 < B"
  shows "length (snd (absorb B 0 f s xs)) = length xs mod B"
proof -
  obtain n where n: "snd (absorb B 0 f s xs) = drop (n * B) xs" "n * B \<le> length xs"
    using absorb_rest_suffix [of B 0 f s xs] by blast
  have "length xs - n * B < B"
    using absorb_rest_less [OF assms, of 0 f s xs] n by simp
  moreover have "length xs mod B = (length xs - n * B) mod B"
    using n(2) by (metis add_diff_inverse_nat linorder_not_le mod_mult_self3 mult.commute)
  ultimately show ?thesis using n by simp
qed

lemma absorb_exact:
  assumes "0 < B" and "length xs = n * B"
  shows "snd (absorb B 0 f s xs) = []"
  using absorb_rest_length [OF assms(1), of f s xs] assms(2) by simp

lemma absorb_invariant:
  "P s \<Longrightarrow> (\<And>s b. P s \<Longrightarrow> length b = B \<Longrightarrow> P (f s b)) \<Longrightarrow> P (fst (absorb B k f s xs))"
proof (induction B k f s xs rule: absorb.induct)
  case (1 B k f s xs)
  show ?case
  proof (cases "B = 0 \<or> length xs < B + k")
    case True
    with 1 show ?thesis by (auto simp: absorb.simps)
  next
    case False
    with 1 have "P (f s (take B xs))" by simp
    with False 1 show ?thesis by (simp add: absorb_step)
  qed
qed

text \<open>Two block functions that agree on the states that arise mix the same way.\<close>

lemma absorb_cong:
  assumes agree: "\<And>s b. P s \<Longrightarrow> length b = B \<Longrightarrow> f s b = g s b \<and> P (g s b)"
  shows "P s \<Longrightarrow> absorb B k f s xs = absorb B k g s xs"
proof (induction xs arbitrary: s rule: length_induct)
  case (1 xs)
  show ?case
  proof (cases "B = 0 \<or> length xs < B + k")
    case True
    then show ?thesis by (auto simp: absorb.simps)
  next
    case False
    then have "f s (take B xs) = g s (take B xs) \<and> P (g s (take B xs))"
      using "1.prems" by (intro agree) auto
    moreover have "length (drop B xs) < length xs" using False by auto
    ultimately show ?thesis using 1 False by (simp add: absorb_step)
  qed
qed

section \<open>What a caller of an incremental routine relies on\<close>

locale incremental =
  fixes upd :: "'c \<Rightarrow> 'a list \<Rightarrow> 'c"
    and view :: "'c \<Rightarrow> 'v"
    and inv :: "'c \<Rightarrow> bool"
  assumes inv_upd: "inv c \<Longrightarrow> inv (upd c xs)"
    and view_append: "inv c \<Longrightarrow> view (upd (upd c xs) ys) = view (upd c (xs @ ys))"
    and view_Nil: "inv c \<Longrightarrow> view (upd c []) = view c"
begin

lemma inv_chunks: "inv c \<Longrightarrow> inv (foldl upd c xss)"
  by (induction xss arbitrary: c) (auto intro: inv_upd)

text \<open>Feeding a list of pieces is feeding their concatenation.\<close>

lemma view_chunks: "inv c \<Longrightarrow> view (foldl upd c xss) = view (upd c (concat xss))"
  by (induction xss arbitrary: c) (auto simp: view_Nil view_append inv_upd)

text \<open>Two ways of cutting the same data into pieces cannot be told apart.\<close>

lemma view_pieces_eq:
  "inv c \<Longrightarrow> concat xss = concat yss \<Longrightarrow> view (foldl upd c xss) = view (foldl upd c yss)"
  by (simp add: view_chunks)

end

section \<open>A block buffer\<close>

text \<open>
  \<open>core\<close> is the mixed state, \<open>pend\<close> the data still in the buffer. An update mixes what
  \<open>absorb\<close> mixes; the buffer never holds a block that should have been mixed.
\<close>

locale buffered =
  fixes B :: nat and k :: nat
    and f :: "'s \<Rightarrow> 'a list \<Rightarrow> 's"
    and upd :: "'c \<Rightarrow> 'a list \<Rightarrow> 'c"
    and core :: "'c \<Rightarrow> 's"
    and pend :: "'c \<Rightarrow> 'a list"
    and inv :: "'c \<Rightarrow> bool"
  assumes B_pos: "0 < B"
    and pend_less: "inv c \<Longrightarrow> length (pend c) < B + k"
    and inv_upd: "inv c \<Longrightarrow> inv (upd c xs)"
    and upd_absorb: "inv c \<Longrightarrow> (core (upd c xs), pend (upd c xs)) = absorb B k f (core c) (pend c @ xs)"
begin

lemma core_upd: "inv c \<Longrightarrow> core (upd c xs) = fst (absorb B k f (core c) (pend c @ xs))"
  by (metis fst_conv upd_absorb)

lemma pend_upd: "inv c \<Longrightarrow> pend (upd c xs) = snd (absorb B k f (core c) (pend c @ xs))"
  by (metis snd_conv upd_absorb)

lemma pend_upd_less: "inv c \<Longrightarrow> length (pend (upd c xs)) < B + k"
  by (simp add: pend_upd absorb_rest_less B_pos)

end

sublocale buffered \<subseteq> blk: incremental upd "\<lambda>c. (core c, pend c)" inv
proof unfold_locales
  fix c xs ys assume inv: "inv c"
  then show "inv (upd c xs)" by (rule inv_upd)
  show "(core (upd (upd c xs) ys), pend (upd (upd c xs) ys)) = (core (upd c (xs @ ys)), pend (upd c (xs @ ys)))"
    using inv inv_upd [OF inv] absorb_append [OF B_pos, of k f "core c" "pend c @ xs" ys]
    by (simp add: upd_absorb core_upd pend_upd)
next
  fix c assume "inv c"
  then show "(core (upd c []), pend (upd c [])) = (core c, pend c)"
    by (simp add: upd_absorb pend_less)
qed

text \<open>A block buffer that also counts what went through it (bits, bytes or blocks).\<close>

locale counted_buffer = buffered B k f upd core pend inv
  for B :: nat and k :: nat
    and f :: "'s \<Rightarrow> 'a list \<Rightarrow> 's"
    and upd :: "'c \<Rightarrow> 'a list \<Rightarrow> 'c"
    and core :: "'c \<Rightarrow> 's"
    and pend :: "'c \<Rightarrow> 'a list"
    and inv :: "'c \<Rightarrow> bool" +
  fixes cnt :: "'c \<Rightarrow> 'n"
    and add :: "'n \<Rightarrow> nat \<Rightarrow> 'n"
  assumes cnt_upd: "inv c \<Longrightarrow> cnt (upd c xs) = add (cnt c) (length xs)"
    and add_add: "add (add n i) j = add n (i + j)"
    and add_0: "add n 0 = n"

sublocale counted_buffer \<subseteq> counted: incremental upd "\<lambda>c. (core c, cnt c, pend c)" inv
proof unfold_locales
  fix c xs ys assume inv: "inv c"
  then show "inv (upd c xs)" by (rule inv_upd)
  show "(core (upd (upd c xs) ys), cnt (upd (upd c xs) ys), pend (upd (upd c xs) ys))
      = (core (upd c (xs @ ys)), cnt (upd c (xs @ ys)), pend (upd c (xs @ ys)))"
    using blk.view_append [OF inv, of xs ys] inv inv_upd [OF inv] by (simp add: cnt_upd add_add)
next
  fix c assume inv: "inv c"
  then show "(core (upd c []), cnt (upd c []), pend (upd c [])) = (core c, cnt c, pend c)"
    using blk.view_Nil [OF inv] by (simp add: cnt_upd add_0)
qed

section \<open>A hash with an incremental interface\<close>

text \<open>
  \<open>start\<close> holds of a context just initialised; \<open>fin\<close> returns the digest, which depends on the
  context only through \<open>view\<close>. So the digest of data fed in pieces is the one-shot digest \<open>H\<close>
  of their concatenation.
\<close>

locale stream_hash = incremental upd view inv
  for upd :: "'c \<Rightarrow> 'a list \<Rightarrow> 'c"
    and view :: "'c \<Rightarrow> 'v"
    and inv :: "'c \<Rightarrow> bool" +
  fixes start :: "'c \<Rightarrow> bool"
    and fin :: "'c \<Rightarrow> 'd list"
    and H :: "'a list \<Rightarrow> 'd list"
  assumes inv_start: "start c \<Longrightarrow> inv c"
    and fin_view: "inv c \<Longrightarrow> inv d \<Longrightarrow> view c = view d \<Longrightarrow> fin c = fin d"
    and fin_upd: "start c \<Longrightarrow> fin (upd c xs) = H xs"
begin

lemma digest_chunks: "start c \<Longrightarrow> fin (foldl upd c xss) = H (concat xss)"
proof -
  assume c: "start c"
  then have "fin (foldl upd c xss) = fin (upd c (concat xss))"
    by (intro fin_view view_chunks inv_chunks inv_upd inv_start)
  with c show ?thesis by (simp add: fin_upd)
qed

lemma digest_two: "start c \<Longrightarrow> fin (upd (upd c xs) ys) = H (xs @ ys)"
  using digest_chunks [of c "[xs, ys]"] by simp

lemma digest_prefix: "start c \<Longrightarrow> fin (foldl upd (upd c xs) xss) = H (xs @ concat xss)"
  using digest_chunks [of c "xs # xss"] by simp

end

section \<open>Keyed hashing\<close>

text \<open>
  HMAC over a hash \<open>H\<close> of block length \<open>B\<close> (RFC 2104). \<open>hmac_key\<close> is the key block.
\<close>

definition hmac_key :: "nat \<Rightarrow> (bytes \<Rightarrow> bytes) \<Rightarrow> bytes \<Rightarrow> bytes" where
  "hmac_key B H K = (let K' = (if B < length K then H K else K) in K' @ replicate (B - length K') 0)"

definition hmac_spec :: "nat \<Rightarrow> (bytes \<Rightarrow> bytes) \<Rightarrow> bytes \<Rightarrow> bytes \<Rightarrow> bytes" where
  "hmac_spec B H K m =
    (let k = hmac_key B H K
     in H (map (\<lambda>b. 0x5c XOR b) k @ H (map (\<lambda>b. 0x36 XOR b) k @ m)))"

text \<open>The code fills a block with the pad byte and xors the key over it.\<close>

lemma xor_pad:
  "length K \<le> B \<Longrightarrow> xor_at (replicate B x) 0 K = map (\<lambda>b. x XOR b) (K @ replicate (B - length K) 0)"
  by (rule nth_equalityI) (auto simp: nth_xor_at nth_append)

text \<open>
  A keyed hash keeps an inner and an outer context, both started and fed one key block; the
  digest of the inner one goes through the outer one.
\<close>

locale keyed_hash = stream_hash upd view inv start fin H
  for upd :: "'c \<Rightarrow> bytes \<Rightarrow> 'c"
    and view :: "'c \<Rightarrow> 'v"
    and inv :: "'c \<Rightarrow> bool"
    and start :: "'c \<Rightarrow> bool"
    and fin :: "'c \<Rightarrow> bytes"
    and H :: "bytes \<Rightarrow> bytes" +
  fixes B :: nat
  assumes H_fits: "length (H xs) \<le> B"
begin

definition keyed :: "bytes \<Rightarrow> 'c \<Rightarrow> 'c \<Rightarrow> bool" where
  "keyed K i j \<longleftrightarrow> (\<exists>c d. start c \<and> start d \<and>
     i = upd c (map (\<lambda>b. 0x36 XOR b) (hmac_key B H K)) \<and>
     j = upd d (map (\<lambda>b. 0x5c XOR b) (hmac_key B H K)))"

lemma length_hmac_key: "length (hmac_key B H K) = B"
  using H_fits [of K] by (simp add: hmac_key_def Let_def)

lemma keyedI:
  assumes "start c" and "start d" and "K' = (if B < length K then H K else K)"
    and "i = upd c (xor_at (replicate B 0x36) 0 K')" and "j = upd d (xor_at (replicate B 0x5c) 0 K')"
  shows "keyed K i j"
proof -
  have "length K' \<le> B" using H_fits [of K] assms(3) by simp
  then show ?thesis
    using assms unfolding keyed_def
    by (intro exI [of _ c] exI [of _ d]) (simp add: xor_pad hmac_key_def Let_def)
qed

lemma keyed_digest:
  assumes "keyed K i j"
  shows "fin (upd j (fin (foldl upd i xss))) = hmac_spec B H K (concat xss)"
proof -
  obtain c d where "start c" "start d"
      and "i = upd c (map (\<lambda>b. 0x36 XOR b) (hmac_key B H K))"
      and "j = upd d (map (\<lambda>b. 0x5c XOR b) (hmac_key B H K))"
    using assms by (auto simp: keyed_def)
  then show ?thesis
    by (simp add: digest_prefix digest_two hmac_spec_def Let_def)
qed

end

end
