(* ===== verification/Endian.thy ===== *)
theory Endian
  imports C_Prelude
begin

text \<open>
  Byte order: the encoders and decoders of \<open>panthera/sysendian.h\<close> and the \<open>load\<close>/\<open>store\<close>
  helpers of the BLAKE2 headers. Each is proved equal to one generic little- or big-endian
  conversion, whose round trips are proved once; the locale \<open>codec\<close> carries the round trips
  to whole vectors of words.
\<close>

section \<open>The generic conversions\<close>

primrec word_of_le :: "bytes \<Rightarrow> 'a::len word" where
  "word_of_le [] = 0"
| "word_of_le (b # bs) = ucast b OR push_bit 8 (word_of_le bs)"

primrec le_of_word :: "nat \<Rightarrow> 'a::len word \<Rightarrow> bytes" where
  "le_of_word 0 w = []"
| "le_of_word (Suc n) w = ucast w # le_of_word n (drop_bit 8 w)"

lemma length_le_of_word [simp, len_simps]: "length (le_of_word n w) = n"
  by (induction n arbitrary: w) auto

lemma bit_word_of_le:
  "bit (word_of_le bs :: 'a::len word) n \<longleftrightarrow>
     n < LENGTH('a) \<and> n div 8 < length bs \<and> bit (bs ! (n div 8)) (n mod 8)"
proof (induction bs arbitrary: n)
  case Nil
  then show ?case by simp
next
  case (Cons b bs)
  show ?case
  proof (cases "n < 8")
    case True
    then show ?thesis by (auto simp: bit_simps dest: bit_imp_le_length)
  next
    case False
    then obtain m where m: "n = m + 8" by (metis add.commute le_Suc_ex not_less)
    have "\<not> bit (ucast b :: 'a word) n"
      using False by (auto simp: bit_simps dest: bit_imp_le_length)
    then have "bit (word_of_le (b # bs) :: 'a word) n \<longleftrightarrow> n < LENGTH('a) \<and> bit (word_of_le bs :: 'a word) m"
      by (auto simp: bit_or_iff bit_push_bit_iff m)
    moreover have "(m + 8) div 8 = Suc (m div 8)" and "(m + 8) mod 8 = m mod 8"
      by simp_all
    ultimately show ?thesis by (auto simp: Cons.IH m)
  qed
qed

lemma nth_le_of_word: "i < n \<Longrightarrow> le_of_word n w ! i = ucast (drop_bit (8 * i) w)"
proof (induction n arbitrary: w i)
  case 0
  then show ?case by simp
next
  case (Suc n)
  then show ?case by (cases i) (simp_all add: drop_bit_drop_bit ac_simps)
qed

lemma word_of_le_of_word [simp]:
  fixes w :: "'a::len word"
  assumes "LENGTH('a) \<le> 8 * n"
  shows "word_of_le (le_of_word n w) = w"
proof (rule bit_word_eqI)
  fix m assume m: "m < LENGTH('a)"
  then have "m div 8 < n" using assms by (simp add: div_less_iff_less_mult)
  then show "bit (word_of_le (le_of_word n w) :: 'a word) m = bit w m"
    using m by (simp add: bit_word_of_le nth_le_of_word bit_simps)
qed

lemma le_of_word_of_le:
  assumes "8 * length bs \<le> LENGTH('a)" and "n = length bs"
  shows "le_of_word n (word_of_le bs :: 'a::len word) = bs"
proof (rule nth_equalityI)
  fix i assume i: "i < length (le_of_word n (word_of_le bs :: 'a word))"
  show "le_of_word n (word_of_le bs :: 'a word) ! i = bs ! i"
  proof (rule bit_word_eqI)
    fix m assume m: "m < LENGTH(8)"
    have "8 * i + m < LENGTH('a)" and "(8 * i + m) div 8 = i" and "(8 * i + m) mod 8 = m"
      using i m assms by auto
    then show "bit (le_of_word n (word_of_le bs :: 'a word) ! i) m = bit (bs ! i) m"
      using i m assms by (simp add: nth_le_of_word bit_word_of_le bit_simps)
  qed
qed (simp add: assms)

lemma word_of_le_take_bit:
  "word_of_le bs = (word_of_le (take n bs) OR push_bit (8 * n) (word_of_le (drop n bs)) :: 'a::len word)"
proof (induction bs arbitrary: n)
  case Nil
  then show ?case by simp
next
  case (Cons b bs)
  show ?case
  proof (cases n)
    case 0
    then show ?thesis by simp
  next
    case (Suc m)
    have "word_of_le (b # bs) = (ucast b OR push_bit 8 (word_of_le (take m bs)
        OR push_bit (8 * m) (word_of_le (drop m bs))) :: 'a word)"
      using Cons.IH [of m] by simp
    then show ?thesis by (simp add: Suc push_bit_or push_bit_push_bit or.assoc ac_simps)
  qed
qed

section \<open>The interface of a fixed-width codec\<close>

locale codec =
  fixes n :: nat
    and enc :: "'a::len word \<Rightarrow> bytes"
    and dec :: "bytes \<Rightarrow> 'a::len word"
  assumes n_pos: "0 < n"
    and length_enc: "length (enc w) = n"
    and dec_enc: "dec (enc w) = w"
    and enc_dec: "length p = n \<Longrightarrow> enc (dec p) = p"
begin

text \<open>A vector of words is laid out word after word.\<close>

lemma length_enc_vect: "length (concat (map enc ws)) = n * length ws"
  by (induction ws) (simp_all add: length_enc)

lemma sub_enc_vect: "i < length ws \<Longrightarrow> sub (n * i) n (concat (map enc ws)) = enc (ws ! i)"
proof (induction ws arbitrary: i)
  case Nil
  then show ?case by simp
next
  case (Cons w ws)
  show ?case
  proof (cases i)
    case 0
    then show ?thesis by (simp add: sub_def length_enc)
  next
    case (Suc j)
    have "sub (n * i) n (concat (map enc (w # ws))) = sub (n * j) n (concat (map enc ws))"
      by (simp add: sub_def Suc length_enc)
    with Cons Suc show ?thesis by simp
  qed
qed

lemma dec_enc_vect:
  "map (\<lambda>i. dec (sub (n * i) n (concat (map enc ws)))) [0..<length ws] = ws"
  by (rule nth_equalityI) (simp_all add: sub_enc_vect dec_enc)

lemma enc_dec_vect:
  assumes "length p = n * m"
  shows "concat (map (\<lambda>i. enc (dec (sub (n * i) n p))) [0..<m]) = p"
  using assms
proof (induction m arbitrary: p)
  case 0
  then show ?case by simp
next
  case (Suc m)
  let ?q = "take (n * m) p"
  have sub: "sub (n * i) n p = sub (n * i) n ?q" if "i < m" for i
  proof -
    have "n * i + n \<le> n * m" using that by (metis Suc_leI mult_Suc_right mult_le_mono2 add.commute)
    then show ?thesis by (simp add: sub_def take_drop min_def)
  qed
  have "concat (map (\<lambda>i. enc (dec (sub (n * i) n p))) [0..<m])
      = concat (map (\<lambda>i. enc (dec (sub (n * i) n ?q))) [0..<m])"
    by (intro arg_cong [where f = concat] map_cong) (auto simp: sub)
  also have "\<dots> = ?q"
    using Suc.prems by (intro Suc.IH) simp
  finally show ?case
    using Suc.prems by (simp add: enc_dec) (simp add: sub_def)
qed

lemma enc_inject: "enc v = enc w \<longleftrightarrow> v = w"
  by (metis dec_enc)

end

section \<open>panthera/sysendian.h\<close>

definition be32dec :: "bytes \<Rightarrow> u32" where
  "be32dec p = ucast (p ! 3) + push_bit 8 (ucast (p ! 2)) +
     push_bit 16 (ucast (p ! 1)) + push_bit 24 (ucast (p ! 0))"

definition be32enc :: "u32 \<Rightarrow> bytes" where
  "be32enc x = [ucast (drop_bit 24 x AND 0xff), ucast (drop_bit 16 x AND 0xff),
     ucast (drop_bit 8 x AND 0xff), ucast (x AND 0xff)]"

definition be64enc :: "u64 \<Rightarrow> bytes" where
  "be64enc x = [ucast (drop_bit 56 x AND 0xff), ucast (drop_bit 48 x AND 0xff),
     ucast (drop_bit 40 x AND 0xff), ucast (drop_bit 32 x AND 0xff),
     ucast (drop_bit 24 x AND 0xff), ucast (drop_bit 16 x AND 0xff),
     ucast (drop_bit 8 x AND 0xff), ucast (x AND 0xff)]"

definition le32dec :: "bytes \<Rightarrow> u32" where
  "le32dec p = ucast (p ! 0) + push_bit 8 (ucast (p ! 1)) +
     push_bit 16 (ucast (p ! 2)) + push_bit 24 (ucast (p ! 3))"

definition le32enc :: "u32 \<Rightarrow> bytes" where
  "le32enc x = [ucast (x AND 0xff), ucast (drop_bit 8 x AND 0xff),
     ucast (drop_bit 16 x AND 0xff), ucast (drop_bit 24 x AND 0xff)]"

lemma length_encoders [simp, len_simps]:
  "length (be32enc x) = 4" "length (be64enc y) = 8" "length (le32enc x) = 4"
  by (simp_all add: be32enc_def be64enc_def le32enc_def)

lemma and_0xff_eq: "(x :: 'a::len word) AND 0xff = take_bit 8 x"
  by (simp add: take_bit_eq_mask mask_eq_exp_minus_1)

lemma byte_mask [simp]: "ucast (x AND 0xff) = (ucast (x :: 'a::len word) :: u8)"
  by (rule bit_word_eqI) (auto simp: and_0xff_eq bit_simps)

lemma list_4: "length p = 4 \<Longrightarrow> p = [p ! 0, p ! 1, p ! 2, p ! 3]"
  by (rule nth_equalityI) (auto simp: less_Suc_eq numeral_eq_Suc)

lemma list_8: "length p = 8 \<Longrightarrow> p = [p ! 0, p ! 1, p ! 2, p ! 3, p ! 4, p ! 5, p ! 6, p ! 7]"
  by (rule nth_equalityI) (auto simp: less_Suc_eq numeral_eq_Suc)

text \<open>The decoder adds shifted bytes; they occupy disjoint bits, so the sum is a bitwise or.\<close>

lemma shifted_bytes_or:
  fixes a b c d :: u8
  shows "ucast a + push_bit 8 (ucast b) + push_bit 16 (ucast c) + push_bit 24 (ucast d) =
    (ucast a OR push_bit 8 (ucast b) OR push_bit 16 (ucast c) OR push_bit 24 (ucast d) :: u32)"
proof -
  have 1: "ucast a AND push_bit 8 (ucast b) = (0 :: u32)"
    by (rule bit_word_eqI) (auto simp: bit_simps dest: bit_imp_le_length)
  have 2: "(ucast a OR push_bit 8 (ucast b)) AND push_bit 16 (ucast c) = (0 :: u32)"
    by (rule bit_word_eqI) (auto simp: bit_simps dest: bit_imp_le_length)
  have 3: "(ucast a OR push_bit 8 (ucast b) OR push_bit 16 (ucast c)) AND push_bit 24 (ucast d) = (0 :: u32)"
    by (rule bit_word_eqI) (auto simp: bit_simps dest: bit_imp_le_length)
  show ?thesis
    using 1 2 3 by (simp add: disjunctive_add_eq_or or.assoc)
qed

lemma word_of_le_4:
  "word_of_le [a, b, c, d] =
     (ucast a OR push_bit 8 (ucast b) OR push_bit 16 (ucast c) OR push_bit 24 (ucast d) :: 'a::len word)"
  by (simp add: push_bit_or push_bit_push_bit)

lemma le32dec_eq: "le32dec p = word_of_le [p ! 0, p ! 1, p ! 2, p ! 3]"
  by (simp only: le32dec_def shifted_bytes_or word_of_le_4)

lemma be32dec_eq: "be32dec p = word_of_le [p ! 3, p ! 2, p ! 1, p ! 0]"
  by (simp only: be32dec_def shifted_bytes_or word_of_le_4)

lemma le32enc_eq: "le32enc w = le_of_word 4 w"
  by (simp add: le32enc_def numeral_eq_Suc drop_bit_drop_bit)

lemma be32enc_eq: "be32enc w = rev (le_of_word 4 w)"
  by (simp add: be32enc_def numeral_eq_Suc drop_bit_drop_bit)

lemma be64enc_eq: "be64enc w = rev (le_of_word 8 w)"
  by (simp add: be64enc_def numeral_eq_Suc drop_bit_drop_bit)

lemma le32dec_word: "length p = 4 \<Longrightarrow> le32dec p = word_of_le p"
  using le32dec_eq [of p] list_4 [of p, symmetric] by (simp only:)

lemma be32dec_word: "length p = 4 \<Longrightarrow> be32dec p = word_of_le (rev p)"
  by (subst (2) list_4, assumption) (simp only: be32dec_eq rev.simps append.simps)

interpretation le32: codec 4 le32enc le32dec
  by unfold_locales (simp_all add: le32dec_word le32enc_eq le_of_word_of_le)

interpretation be32: codec 4 be32enc be32dec
  by unfold_locales (simp_all add: be32dec_word be32enc_eq le_of_word_of_le)

section \<open>randomx/blake2/endian.h and blake2-impl.h\<close>

text \<open>
  The byte-by-byte branches, which fix the little-endian order; on a little-endian host the
  other branch is a \<open>memcpy\<close> of the same bytes.
\<close>

definition load32 :: "bytes \<Rightarrow> u32" where
  "load32 p =
    (let w = ucast (p ! 0);
         w = w OR push_bit 8 (ucast (p ! 1));
         w = w OR push_bit 16 (ucast (p ! 2));
         w = w OR push_bit 24 (ucast (p ! 3))
     in w)"

definition load64 :: "bytes \<Rightarrow> u64" where
  "load64 p =
    (let w = ucast (p ! 0);
         w = w OR push_bit 8 (ucast (p ! 1));
         w = w OR push_bit 16 (ucast (p ! 2));
         w = w OR push_bit 24 (ucast (p ! 3));
         w = w OR push_bit 32 (ucast (p ! 4));
         w = w OR push_bit 40 (ucast (p ! 5));
         w = w OR push_bit 48 (ucast (p ! 6));
         w = w OR push_bit 56 (ucast (p ! 7))
     in w)"

text \<open>The stores emit the low byte and shift, \<open>n\<close> times; so does \<open>store48\<close>.\<close>

definition store32 :: "u32 \<Rightarrow> bytes" where
  "store32 w =
    (let w1 = drop_bit 8 w; w2 = drop_bit 8 w1; w3 = drop_bit 8 w2
     in [ucast w, ucast w1, ucast w2, ucast w3])"

definition store64 :: "u64 \<Rightarrow> bytes" where
  "store64 w =
    (let w1 = drop_bit 8 w; w2 = drop_bit 8 w1; w3 = drop_bit 8 w2; w4 = drop_bit 8 w3;
         w5 = drop_bit 8 w4; w6 = drop_bit 8 w5; w7 = drop_bit 8 w6
     in [ucast w, ucast w1, ucast w2, ucast w3, ucast w4, ucast w5, ucast w6, ucast w7])"

definition load48 :: "bytes \<Rightarrow> u64" where
  "load48 p =
    (let w = ucast (p ! 0);
         w = w OR push_bit 8 (ucast (p ! 1));
         w = w OR push_bit 16 (ucast (p ! 2));
         w = w OR push_bit 24 (ucast (p ! 3));
         w = w OR push_bit 32 (ucast (p ! 4));
         w = w OR push_bit 40 (ucast (p ! 5))
     in w)"

definition store48 :: "u64 \<Rightarrow> bytes" where
  "store48 w =
    (let w1 = drop_bit 8 w; w2 = drop_bit 8 w1; w3 = drop_bit 8 w2; w4 = drop_bit 8 w3;
         w5 = drop_bit 8 w4
     in [ucast w, ucast w1, ucast w2, ucast w3, ucast w4, ucast w5])"

lemma store_eq:
  "store32 v = le_of_word 4 v" "store64 w = le_of_word 8 w" "store48 w = le_of_word 6 w"
  by (simp_all add: store32_def store64_def store48_def numeral_eq_Suc Let_def)

lemma length_store [simp, len_simps]:
  "length (store32 v) = 4" "length (store64 w) = 8" "length (store48 w) = 6"
  by (simp_all add: store_eq)

lemma word_of_le_8:
  "word_of_le [a, b, c, d, e, f, g, h] =
     (ucast a OR push_bit 8 (ucast b) OR push_bit 16 (ucast c) OR push_bit 24 (ucast d)
      OR push_bit 32 (ucast e) OR push_bit 40 (ucast f) OR push_bit 48 (ucast g)
      OR push_bit 56 (ucast h) :: 'a::len word)"
  by (simp add: push_bit_or push_bit_push_bit)

lemma load32_word: "length p = 4 \<Longrightarrow> load32 p = word_of_le p"
  by (subst list_4, assumption) (simp add: load32_def Let_def push_bit_or push_bit_push_bit ac_simps)

lemma load64_word:
  assumes "length p = 8"
  shows "load64 p = word_of_le p"
proof -
  have "load64 p = word_of_le [p ! 0, p ! 1, p ! 2, p ! 3, p ! 4, p ! 5, p ! 6, p ! 7]"
    by (simp only: word_of_le_8 load64_def Let_def or.assoc)
  then show ?thesis by (simp only: list_8 [OF assms, symmetric])
qed

interpretation le_load32: codec 4 store32 load32
  by unfold_locales (simp_all add: load32_word store_eq le_of_word_of_le)

interpretation le_load64: codec 8 store64 load64
  by unfold_locales (simp_all add: load64_word store_eq le_of_word_of_le)

end
