(* ===== verification/Sha256.thy ===== *)
theory Sha256
  imports Streaming Endian
begin

text \<open>
  \<open>panthera/sha256.c\<close>: the SHA-256 context and its operations. The scratch array \<open>tmp32\<close> is
  written before it is read in every call, so the message schedule \<open>W\<close> and the working
  variables \<open>S\<close> are local values here; \<open>insecure_memzero\<close> is an empty macro.
  The second half states the hash function of FIPS 180-4 (\<open>sha256_spec\<close>) and proves that the
  code computes it, however the message is cut into pieces.
\<close>

section \<open>Vectors of big-endian words\<close>

text \<open>The loops take two words at a time; \<open>len\<close> is a literal 4 or 8 at every call.\<close>

primrec be32enc_vect :: "u32 list \<Rightarrow> nat \<Rightarrow> bytes" where
  "be32enc_vect src 0 = []"
| "be32enc_vect src (Suc len) =
     be32enc (src ! 0) @ be32enc (src ! 1) @ be32enc_vect (drop 2 src) len"

primrec be32dec_vect :: "bytes \<Rightarrow> nat \<Rightarrow> u32 list" where
  "be32dec_vect src 0 = []"
| "be32dec_vect src (Suc len) =
     be32dec src # be32dec (drop 4 src) # be32dec_vect (drop 8 src) len"

section \<open>Constants and elementary functions\<close>

definition Krnd :: "u32 list" where
  "Krnd = [
    0x428A2F98, 0x71374491, 0xB5C0FBCF, 0xE9B5DBA5,
    0x3956C25B, 0x59F111F1, 0x923F82A4, 0xAB1C5ED5,
    0xD807AA98, 0x12835B01, 0x243185BE, 0x550C7DC3,
    0x72BE5D74, 0x80DEB1FE, 0x9BDC06A7, 0xC19BF174,
    0xE49B69C1, 0xEFBE4786, 0x0FC19DC6, 0x240CA1CC,
    0x2DE92C6F, 0x4A7484AA, 0x5CB0A9DC, 0x76F988DA,
    0x983E5152, 0xA831C66D, 0xB00327C8, 0xBF597FC7,
    0xC6E00BF3, 0xD5A79147, 0x06CA6351, 0x14292967,
    0x27B70A85, 0x2E1B2138, 0x4D2C6DFC, 0x53380D13,
    0x650A7354, 0x766A0ABB, 0x81C2C92E, 0x92722C85,
    0xA2BFE8A1, 0xA81A664B, 0xC24B8B70, 0xC76C51A3,
    0xD192E819, 0xD6990624, 0xF40E3585, 0x106AA070,
    0x19A4C116, 0x1E376C08, 0x2748774C, 0x34B0BCB5,
    0x391C0CB3, 0x4ED8AA4A, 0x5B9CCA4F, 0x682E6FF3,
    0x748F82EE, 0x78A5636F, 0x84C87814, 0x8CC70208,
    0x90BEFFFA, 0xA4506CEB, 0xBEF9A3F7, 0xC67178F2]"

definition Ch :: "u32 \<Rightarrow> u32 \<Rightarrow> u32 \<Rightarrow> u32" where
  "Ch x y z = (x AND (y XOR z)) XOR z"

definition Maj :: "u32 \<Rightarrow> u32 \<Rightarrow> u32 \<Rightarrow> u32" where
  "Maj x y z = (x AND (y OR z)) OR (y AND z)"

definition SHR :: "u32 \<Rightarrow> nat \<Rightarrow> u32" where
  "SHR x n = drop_bit n x"

definition ROTR :: "u32 \<Rightarrow> nat \<Rightarrow> u32" where
  "ROTR x n = drop_bit n x OR push_bit (32 - n) x"

definition S0 :: "u32 \<Rightarrow> u32" where "S0 x = ROTR x 2 XOR ROTR x 13 XOR ROTR x 22"
definition S1 :: "u32 \<Rightarrow> u32" where "S1 x = ROTR x 6 XOR ROTR x 11 XOR ROTR x 25"
definition s0 :: "u32 \<Rightarrow> u32" where "s0 x = ROTR x 7 XOR ROTR x 18 XOR SHR x 3"
definition s1 :: "u32 \<Rightarrow> u32" where "s1 x = ROTR x 17 XOR ROTR x 19 XOR SHR x 10"

section \<open>The round macros\<close>

text \<open>
  \<open>RND\<close> updates the working variables in place; the arguments \<open>a \<dots> h\<close> are positions of the
  array \<open>S\<close>. \<open>RNDr\<close> rotates the positions instead of the values.
\<close>

definition RND ::
    "u32 list \<Rightarrow> nat \<Rightarrow> nat \<Rightarrow> nat \<Rightarrow> nat \<Rightarrow> nat \<Rightarrow> nat \<Rightarrow> nat \<Rightarrow> nat \<Rightarrow> u32 \<Rightarrow> u32 list" where
  "RND S a b c d e f g h k =
    (let S = S[h := S ! h + (S1 (S ! e) + Ch (S ! e) (S ! f) (S ! g) + k)];
         S = S[d := S ! d + S ! h];
         S = S[h := S ! h + (S0 (S ! a) + Maj (S ! a) (S ! b) (S ! c))]
     in S)"

definition RNDr :: "u32 list \<Rightarrow> u32 list \<Rightarrow> nat \<Rightarrow> nat \<Rightarrow> u32 list" where
  "RNDr S W i ii =
     RND S ((64 - i) mod 8) ((65 - i) mod 8) ((66 - i) mod 8) ((67 - i) mod 8)
       ((68 - i) mod 8) ((69 - i) mod 8) ((70 - i) mod 8) ((71 - i) mod 8)
       (W ! (i + ii) + Krnd ! (i + ii))"

definition MSCH :: "u32 list \<Rightarrow> nat \<Rightarrow> nat \<Rightarrow> u32 list" where
  "MSCH W ii i =
     W[i + ii + 16 := s1 (W ! (i + ii + 14)) + W ! (i + ii + 9) + s0 (W ! (i + ii + 1)) + W ! (i + ii)]"

section \<open>The block transform\<close>

text \<open>One turn of the outer loop: sixteen rounds, then (unless it breaks) the next schedule words.\<close>

definition SHA256_mix :: "u32 list \<times> u32 list \<Rightarrow> nat \<Rightarrow> u32 list \<times> u32 list" where
  "SHA256_mix WS i =
    (case WS of (W, S) \<Rightarrow>
      let S = for_range 0 16 (\<lambda>S j. RNDr S W j i) S
      in if i = 48 then (W, S)
         else (for_range 0 16 (\<lambda>W j. MSCH W j i) W, S))"

definition SHA256_Transform :: "u32 list \<Rightarrow> bytes \<Rightarrow> u32 list" where
  "SHA256_Transform state block =
    (let W = be32dec_vect block 8 @ replicate 48 0;
         S = state;
         (W, S) = foldl SHA256_mix (W, S) [0, 16, 32, 48]
     in map2 (+) state S)"

section \<open>The context\<close>

record SHA256_CTX =
  sha_state :: "u32 list"
  sha_count :: u64
  sha_buf :: bytes

definition PAD :: bytes where
  "PAD = 0x80 # replicate 63 0"

definition initial_state :: "u32 list" where
  "initial_state = [0x6A09E667, 0xBB67AE85, 0x3C6EF372, 0xA54FF53A,
     0x510E527F, 0x9B05688C, 0x1F83D9AB, 0x5BE0CD19]"

definition SHA256_Init :: "SHA256_CTX \<Rightarrow> SHA256_CTX" where
  "SHA256_Init ctx = ctx\<lparr>sha_count := 0, sha_state := initial_state\<rparr>"

text \<open>Bytes in the buffer: \<open>(ctx->count >> 3) & 0x3f\<close>.\<close>

definition sha_r :: "u64 \<Rightarrow> nat" where
  "sha_r count = unat (drop_bit 3 count AND 0x3f)"

function SHA256_blocks :: "u32 list \<Rightarrow> bytes \<Rightarrow> u32 list \<times> bytes" where
  "SHA256_blocks state src =
     (if 64 \<le> length src then SHA256_blocks (SHA256_Transform state (take 64 src)) (drop 64 src)
      else (state, src))"
  by pat_completeness auto
termination
  by (relation "measure (\<lambda>(s, xs). length xs)") auto

declare SHA256_blocks.simps [simp del]

definition SHA256_Update :: "SHA256_CTX \<Rightarrow> bytes \<Rightarrow> SHA256_CTX" where
  "SHA256_Update ctx src =
    (if length src = 0 then ctx
     else
       let r = sha_r (sha_count ctx);
           ctx = ctx\<lparr>sha_count := sha_count ctx + push_bit 3 (of_nat (length src))\<rparr>
       in if length src < 64 - r then ctx\<lparr>sha_buf := blit (sha_buf ctx) r src\<rparr>
          else
            let ctx = ctx\<lparr>sha_buf := blit (sha_buf ctx) r (take (64 - r) src)\<rparr>;
                ctx = ctx\<lparr>sha_state := SHA256_Transform (sha_state ctx) (sha_buf ctx)\<rparr>;
                src = drop (64 - r) src;
                (state, src) = SHA256_blocks (sha_state ctx) src
            in ctx\<lparr>sha_state := state, sha_buf := blit (sha_buf ctx) 0 src\<rparr>)"

definition SHA256_Pad :: "SHA256_CTX \<Rightarrow> SHA256_CTX" where
  "SHA256_Pad ctx =
    (let r = sha_r (sha_count ctx);
         ctx = (if r < 56 then ctx\<lparr>sha_buf := blit (sha_buf ctx) r (take (56 - r) PAD)\<rparr>
           else
             let ctx = ctx\<lparr>sha_buf := blit (sha_buf ctx) r (take (64 - r) PAD)\<rparr>;
                 ctx = ctx\<lparr>sha_state := SHA256_Transform (sha_state ctx) (sha_buf ctx)\<rparr>
             in ctx\<lparr>sha_buf := blit (sha_buf ctx) 0 (replicate 56 0)\<rparr>);
         ctx = ctx\<lparr>sha_buf := blit (sha_buf ctx) 56 (be64enc (sha_count ctx))\<rparr>
     in ctx\<lparr>sha_state := SHA256_Transform (sha_state ctx) (sha_buf ctx)\<rparr>)"

text \<open>The digest and the context the call leaves behind.\<close>

definition SHA256_Final :: "SHA256_CTX \<Rightarrow> bytes \<times> SHA256_CTX" where
  "SHA256_Final ctx = (let ctx = SHA256_Pad ctx in (be32enc_vect (sha_state ctx) 4, ctx))"

text \<open>A context on the stack before initialisation; what it holds does not matter (see below).\<close>

definition uninit_sha :: SHA256_CTX where
  "uninit_sha = \<lparr>sha_state = replicate 8 0, sha_count = 0, sha_buf = replicate 64 0\<rparr>"

definition SHA256_Buf :: "bytes \<Rightarrow> bytes" where
  "SHA256_Buf src = fst (SHA256_Final (SHA256_Update (SHA256_Init uninit_sha) src))"

section \<open>The hash function of FIPS 180-4\<close>

definition fips_Ch :: "u32 \<Rightarrow> u32 \<Rightarrow> u32 \<Rightarrow> u32" where
  "fips_Ch x y z = (x AND y) XOR (NOT x AND z)"

definition fips_Maj :: "u32 \<Rightarrow> u32 \<Rightarrow> u32 \<Rightarrow> u32" where
  "fips_Maj x y z = (x AND y) XOR (x AND z) XOR (y AND z)"

definition fips_Sigma :: "nat \<Rightarrow> nat \<Rightarrow> nat \<Rightarrow> u32 \<Rightarrow> u32" where
  "fips_Sigma i j k x = word_rotr i x XOR word_rotr j x XOR word_rotr k x"

definition fips_sigma :: "nat \<Rightarrow> nat \<Rightarrow> nat \<Rightarrow> u32 \<Rightarrow> u32" where
  "fips_sigma i j k x = word_rotr i x XOR word_rotr j x XOR drop_bit k x"

text \<open>The message schedule \<open>W\<^sub>t\<close> of a block of sixteen words.\<close>

fun fips_W :: "u32 list \<Rightarrow> nat \<Rightarrow> u32" where
  "fips_W blk t =
     (if t < 16 then blk ! t
      else fips_sigma 17 19 10 (fips_W blk (t - 2)) + fips_W blk (t - 7)
        + fips_sigma 7 18 3 (fips_W blk (t - 15)) + fips_W blk (t - 16))"

declare fips_W.simps [simp del]

text \<open>One round on the working variables \<open>a \<dots> h\<close>, with \<open>kw = K\<^sub>t + W\<^sub>t\<close>.\<close>

fun fips_round :: "u32 list \<Rightarrow> u32 \<Rightarrow> u32 list" where
  "fips_round [a, b, c, d, e, f, g, h] kw =
     (let T1 = h + fips_Sigma 6 11 25 e + fips_Ch e f g + kw;
          T2 = fips_Sigma 2 13 22 a + fips_Maj a b c
      in [T1 + T2, a, b, c, d + T1, e, f, g])"
| "fips_round _ kw = []"

definition fips_compress :: "u32 list \<Rightarrow> bytes \<Rightarrow> u32 list" where
  "fips_compress H M =
    (let blk = map (\<lambda>i. word_of_le (rev (sub (4 * i) 4 M))) [0..<16]
     in map2 (+) H (for_range 0 64 (\<lambda>s t. fips_round s (Krnd ! t + fips_W blk t)) H))"

text \<open>Padding: a one bit, zeros up to 56 mod 64, the length in bits as 64 big-endian bits.\<close>

definition fips_pad :: "nat \<Rightarrow> bytes" where
  "fips_pad n = 0x80 # replicate ((119 - n mod 64) mod 64) 0 @ rev (le_of_word 8 (of_nat (8 * n) :: u64))"

definition sha256_spec :: "bytes \<Rightarrow> bytes" where
  "sha256_spec m =
     concat (map (\<lambda>w. rev (le_of_word 4 w))
       (fst (absorb 64 0 fips_compress initial_state (m @ fips_pad (length m)))))"

section \<open>The round macros compute the rounds of the standard\<close>

lemma Ch_eq: "Ch x y z = fips_Ch x y z"
  by (rule bit_word_eqI) (auto simp: Ch_def fips_Ch_def bit_simps)

lemma Maj_eq: "Maj x y z = fips_Maj x y z"
  by (rule bit_word_eqI) (auto simp: Maj_def fips_Maj_def bit_simps)

lemma ROTR_eq: "0 < n \<Longrightarrow> n < 32 \<Longrightarrow> ROTR x n = word_rotr n x"
  using rotr32_eq [of n x] by (simp add: ROTR_def rotr32_def)

lemma sigmas_eq:
  "S0 x = fips_Sigma 2 13 22 x" "S1 x = fips_Sigma 6 11 25 x"
  "s0 x = fips_sigma 7 18 3 x" "s1 x = fips_sigma 17 19 10 x"
  by (simp_all add: S0_def S1_def s0_def s1_def SHR_def ROTR_eq fips_Sigma_def fips_sigma_def)

lemmas sha_macros = Ch_eq Maj_eq sigmas_eq

text \<open>The working variables in the order \<open>a \<dots> h\<close> before round \<open>i\<close> of a turn.\<close>

definition rot_view :: "nat \<Rightarrow> u32 list \<Rightarrow> u32 list" where
  "rot_view i S = map (\<lambda>k. S ! ((64 + k - i) mod 8)) [0..<8]"

lemma upt_8: "[0..<8] = [0, 1, 2, 3, 4, 5, 6, 7]"
  by (simp add: upt_rec numeral_eq_Suc)

lemma length_RNDr [simp, len_simps]: "length (RNDr S W i ii) = length S"
  by (simp add: RNDr_def RND_def Let_def)

lemma rot_view_0: "length S = 8 \<Longrightarrow> rot_view 0 S = S"
  using list_8 [of S] by (simp add: rot_view_def upt_8)

lemma rot_view_16: "length S = 8 \<Longrightarrow> rot_view 16 S = S"
  using list_8 [of S] by (simp add: rot_view_def upt_8)

lemma RNDr_round:
  assumes "length S = 8" and "i < 16"
  shows "rot_view (Suc i) (RNDr S W i ii) = fips_round (rot_view i S) (Krnd ! (ii + i) + W ! (ii + i))"
proof -
  obtain a b c d e f g h where S: "S = [a, b, c, d, e, f, g, h]"
    using list_8 [OF assms(1)] by blast
  have "i \<in> {15, 14, 13, 12, 11, 10, 9, 8, 7, 6, 5, 4, 3, 2, 1, 0}"
    using assms(2) by (auto simp: numeral_eq_Suc less_Suc_eq)
  then show ?thesis
    by (elim insertE emptyE) (simp_all add: S rot_view_def upt_8 RNDr_def RND_def Let_def sha_macros ac_simps)
qed

lemma rounds_16:
  assumes "length S = 8"
  shows "for_range 0 16 (\<lambda>S j. RNDr S W j ii) S
    = for_range 0 16 (\<lambda>s j. fips_round s (Krnd ! (ii + j) + W ! (ii + j))) S"
proof -
  let ?P = "\<lambda>i s. length s = 8 \<and>
    rot_view i s = for_range 0 i (\<lambda>s j. fips_round s (Krnd ! (ii + j) + W ! (ii + j))) S"
  have "?P 16 (for_range 0 16 (\<lambda>S j. RNDr S W j ii) S)"
    by (rule for_range_invariant [where P = ?P])
      (simp_all add: assms rot_view_0 RNDr_round for_range_Suc)
  then have l: "length (for_range 0 16 (\<lambda>S j. RNDr S W j ii) S) = 8"
    and r: "rot_view 16 (for_range 0 16 (\<lambda>S j. RNDr S W j ii) S)
      = for_range 0 16 (\<lambda>s j. fips_round s (Krnd ! (ii + j) + W ! (ii + j))) S"
    by (rule conjunct1, rule conjunct2)
  show ?thesis by (rule trans [OF rot_view_16 [OF l, symmetric] r])
qed

text \<open>The schedule words a turn adds are those of the standard.\<close>

lemma MSCH_step:
  assumes "length W = 64" and "j < 16" and "ii + j + 16 < 64"
    and "\<And>t. t < ii + 16 + j \<Longrightarrow> W ! t = fips_W blk t"
    and "t < ii + 16 + Suc j"
  shows "MSCH W j ii ! t = fips_W blk t"
proof (cases "t = ii + 16 + j")
  case True
  have "fips_W blk (ii + 16 + j) = s1 (fips_W blk (ii + j + 14)) + fips_W blk (ii + j + 9)
      + s0 (fips_W blk (ii + j + 1)) + fips_W blk (ii + j)"
    by (subst fips_W.simps) (simp add: sigmas_eq ac_simps)
  with assms True show ?thesis by (simp add: MSCH_def ac_simps)
next
  case False
  with assms show ?thesis by (simp add: MSCH_def)
qed

lemma MSCH_16:
  assumes "length W = 64" and "ii + 32 \<le> 64" and "\<forall>t < ii + 16. W ! t = fips_W blk t"
  shows "length (for_range 0 16 (\<lambda>W j. MSCH W j ii) W) = 64 \<and>
    (\<forall>t < ii + 32. for_range 0 16 (\<lambda>W j. MSCH W j ii) W ! t = fips_W blk t)"
proof -
  let ?P = "\<lambda>j V. length V = 64 \<and> (\<forall>t < ii + 16 + j. V ! t = fips_W blk t)"
  have "?P 16 (for_range 0 16 (\<lambda>W j. MSCH W j ii) W)"
  proof (rule for_range_invariant [where P = ?P])
    fix j V assume "j < 16" and "?P j V"
    then show "?P (Suc j) (MSCH V j ii)"
      using assms(2) by (simp add: MSCH_step) (simp add: MSCH_def)
  qed (use assms in simp_all)
  then show ?thesis by (simp add: ac_simps)
qed

text \<open>What holds before the turn at \<open>i\<close>.\<close>

lemma length_RNDr_loop [simp, len_simps]:
  "length (for_range a b (\<lambda>S j. RNDr S W j ii) S) = length S"
  by (rule for_range_pres) simp_all

definition mix_inv :: "u32 list \<Rightarrow> u32 list \<Rightarrow> nat \<Rightarrow> u32 list \<times> u32 list \<Rightarrow> bool" where
  "mix_inv blk st i WS \<longleftrightarrow>
     length (fst WS) = 64 \<and> (\<forall>t < i + 16. t < 64 \<longrightarrow> fst WS ! t = fips_W blk t) \<and>
     length (snd WS) = 8 \<and>
     snd WS = for_range 0 i (\<lambda>s t. fips_round s (Krnd ! t + fips_W blk t)) st"

lemma SHA256_mix_inv:
  assumes "mix_inv blk st i WS" and "i \<in> {0, 16, 32, 48}"
  shows "mix_inv blk st (i + 16) (SHA256_mix WS i)"
proof -
  obtain W S where WS: "WS = (W, S)" by fastforce
  let ?r = "\<lambda>s t. fips_round s (Krnd ! t + fips_W blk t)"
  let ?S = "for_range 0 16 (\<lambda>S j. RNDr S W j i) S"
  have inv: "length W = 64" "\<And>t. t < i + 16 \<Longrightarrow> W ! t = fips_W blk t" "length S = 8"
      "S = for_range 0 i ?r st"
    using assms by (auto simp: mix_inv_def WS)
  have "?S = for_range 0 16 (\<lambda>s j. fips_round s (Krnd ! (i + j) + W ! (i + j))) S"
    using inv(3) by (rule rounds_16)
  also have "\<dots> = for_range 0 16 (\<lambda>s j. ?r s (i + j)) S"
    by (rule for_range_cong) (simp_all add: inv(2))
  also have "\<dots> = for_range i (i + 16) ?r S"
    by (rule for_range_shift [symmetric])
  also have "\<dots> = for_range 0 (i + 16) ?r st"
    unfolding inv(4) by (rule for_range_split [symmetric]) simp
  finally have S: "?S = for_range 0 (i + 16) ?r st" .
  have "length ?S = 8" using inv(3) by simp
  then have len: "length (for_range 0 (i + 16) ?r st) = 8" by (simp only: S)
  show ?thesis
  proof (cases "i = 48")
    case True
    with inv S len show ?thesis by (simp add: mix_inv_def SHA256_mix_def WS)
  next
    case False
    then have "i + 32 \<le> 64" using assms(2) by auto
    with MSCH_16 [of W i blk] inv S len False show ?thesis
      by (simp add: mix_inv_def SHA256_mix_def WS ac_simps)
  qed
qed

lemma be32dec_take: "4 \<le> length p \<Longrightarrow> be32dec p = word_of_le (rev (take 4 p))"
proof -
  assume "4 \<le> length p"
  then have "be32dec (take 4 p) = word_of_le (rev (take 4 p))"
    by (intro be32dec_word) simp
  then show ?thesis by (simp add: be32dec_def)
qed

lemma be32dec_vect_eq:
  "8 * len \<le> length p \<Longrightarrow>
     be32dec_vect p len = map (\<lambda>i. word_of_le (rev (sub (4 * i) 4 p))) [0..<2 * len]"
proof (induction len arbitrary: p)
  case 0
  then show ?case by simp
next
  case (Suc len)
  have "[0..<2 * Suc len] = 0 # 1 # [2..<2 * len + 2]"
    by (simp add: upt_conv_Cons del: upt_Suc) (simp add: numeral_2_eq_2)
  also have "[2..<2 * len + 2] = map (\<lambda>i. i + 2) [0..<2 * len]"
    by (rule map_add_upt [symmetric])
  finally have "[0..<2 * Suc len] = 0 # 1 # map (\<lambda>i. i + 2) [0..<2 * len]" .
  with Suc show ?case
    by (simp add: be32dec_take sub_def ac_simps del: upt_Suc)
qed

theorem SHA256_Transform_correct:
  assumes "length state = 8" and "length block = 64"
  shows "SHA256_Transform state block = fips_compress state block"
proof -
  let ?blk = "map (\<lambda>i. word_of_le (rev (sub (4 * i) 4 block)) :: u32) [0..<16]"
  let ?W = "be32dec_vect block 8 @ replicate 48 0"
  have W: "be32dec_vect block 8 = ?blk"
    using assms(2) by (simp add: be32dec_vect_eq)
  then have "mix_inv ?blk state 0 (?W, state)"
    using assms(1) by (auto simp: mix_inv_def nth_append fips_W.simps)
  then have "mix_inv ?blk state 64 (foldl SHA256_mix (?W, state) [0, 16, 32, 48])"
    by (auto dest!: SHA256_mix_inv [where i = 0] SHA256_mix_inv [where i = 16]
        SHA256_mix_inv [where i = 32] SHA256_mix_inv [where i = 48])
  then show ?thesis
    by (simp add: SHA256_Transform_def fips_compress_def mix_inv_def case_prod_beta Let_def)
qed

section \<open>The buffer\<close>

lemma sha_r_eq: "sha_r c = unat c div 8 mod 64"
proof -
  have m: "(0x3f :: u64) = mask 6" by (simp add: mask_eq_exp_minus_1)
  show ?thesis by (simp only: sha_r_def m unat_and_mask unat_drop_bit) simp
qed

lemma sha_r_less: "sha_r c < 64"
  by (simp add: sha_r_eq)

text \<open>The bit count wraps at \<open>2 ^ 64\<close>; the position in the block is not affected.\<close>

lemma sha_r_add: "sha_r (c + push_bit 3 (of_nat n)) = (sha_r c + n) mod 64"
proof -
  have "push_bit 3 (of_nat n) = (of_nat (8 * n) :: u64)"
    by (simp add: push_bit_eq_mult)
  then have "unat (c + push_bit 3 (of_nat n)) = (unat c + 8 * n) mod (8 * 2 ^ 61)"
    by (simp only: unat_add_of_nat) simp
  then have "sha_r (c + push_bit 3 (of_nat n)) = (unat c + 8 * n) mod (8 * 2 ^ 61) div 8 mod 64"
    by (simp only: sha_r_eq)
  also have "\<dots> = (unat c + 8 * n) div 8 mod 64"
    by (rule mod_mult_div_mod) (simp_all add: dvd_def)
  finally show ?thesis
    by (simp add: sha_r_eq mod_add_right_eq add.commute)
qed

definition sha_pend :: "SHA256_CTX \<Rightarrow> bytes" where
  "sha_pend c = take (sha_r (sha_count c)) (sha_buf c)"

definition sha_inv :: "SHA256_CTX \<Rightarrow> bool" where
  "sha_inv c \<longleftrightarrow> length (sha_state c) = 8 \<and> length (sha_buf c) = 64"

lemma length_SHA256_Transform [simp, len_simps]:
  "length st = 8 \<Longrightarrow> length (SHA256_Transform st b) = 8"
proof -
  assume st: "length st = 8"
  have "length (snd (SHA256_mix WS i)) = length (snd WS)" for WS i
    by (simp add: SHA256_mix_def case_prod_beta Let_def)
  then show ?thesis
    using st by (simp add: SHA256_Transform_def case_prod_beta Let_def)
qed

lemma SHA256_blocks_absorb: "SHA256_blocks st xs = absorb 64 0 SHA256_Transform st xs"
proof (induction st xs rule: SHA256_blocks.induct)
  case (1 st xs)
  then show ?case
    by (cases "64 \<le> length xs") (simp_all add: SHA256_blocks.simps absorb_step)
qed

lemma length_sha_pend: "sha_inv c \<Longrightarrow> length (sha_pend c) = sha_r (sha_count c)"
  using sha_r_less [of "sha_count c"] by (simp add: sha_inv_def sha_pend_def)

lemma SHA256_Update_inv: "sha_inv c \<Longrightarrow> sha_inv (SHA256_Update c xs)"
  using sha_r_less [of "sha_count c"]
    absorb_rest_less [of 64 0 SHA256_Transform]
    absorb_invariant [of "\<lambda>s. length s = 8" _ 64 SHA256_Transform 0]
  by (simp add: sha_inv_def SHA256_Update_def SHA256_blocks_absorb Let_def case_prod_beta
      min_def less_imp_le)

lemma SHA256_Update_count:
  "sha_count (SHA256_Update c xs) = sha_count c + push_bit 3 (of_nat (length xs))"
  by (simp add: SHA256_Update_def Let_def case_prod_beta)

lemma SHA256_Update_absorb:
  assumes "sha_inv c"
  shows "(sha_state (SHA256_Update c xs), sha_pend (SHA256_Update c xs))
    = absorb 64 0 SHA256_Transform (sha_state c) (sha_pend c @ xs)"
proof -
  let ?r = "sha_r (sha_count c)"
  have buf: "length (sha_buf c) = 64" and r: "?r < 64" and pend: "length (sha_pend c) = ?r"
    using assms by (simp_all add: sha_inv_def length_sha_pend sha_r_less)
  consider "xs = []" | "xs \<noteq> []" "length xs < 64 - ?r" | "64 - ?r \<le> length xs"
    by force
  then show ?thesis
  proof cases
    case 1
    then show ?thesis using pend r by (simp add: SHA256_Update_def)
  next
    case 2
    then have "sha_r (sha_count (SHA256_Update c xs)) = ?r + length xs"
      by (simp add: SHA256_Update_count sha_r_add)
    with 2 show ?thesis
      using pend buf by (simp add: SHA256_Update_def sha_pend_def Let_def buf_simps)
  next
    case 3
    let ?b = "sha_pend c @ take (64 - ?r) xs"
    have blit: "blit (sha_buf c) ?r (take (64 - ?r) xs) = ?b"
      using 3 buf r by (simp add: blit_def sha_pend_def)
    have b: "length ?b = 64" using 3 pend r by simp
    have "sha_pend c @ xs = ?b @ drop (64 - ?r) xs" by simp
    then have ab: "absorb 64 0 SHA256_Transform (sha_state c) (sha_pend c @ xs)
        = absorb 64 0 SHA256_Transform (SHA256_Transform (sha_state c) ?b) (drop (64 - ?r) xs)"
      using b by (simp only: absorb_block)
    let ?a = "absorb 64 0 SHA256_Transform (SHA256_Transform (sha_state c) ?b) (drop (64 - ?r) xs)"
    have "?r + length xs = 64 + (length xs - (64 - ?r))"
      using 3 r by simp
    then have "sha_r (sha_count (SHA256_Update c xs)) = (length xs - (64 - ?r)) mod 64"
      by (simp only: SHA256_Update_count sha_r_add mod_add_self1)
    moreover have "length (snd ?a) = (length xs - (64 - ?r)) mod 64"
      by (simp add: absorb_rest_length)
    ultimately have len: "length (snd ?a) = sha_r (sha_count (SHA256_Update c xs))" by simp
    have "length xs \<noteq> 0" and "\<not> length xs < 64 - ?r" using 3 r by auto
    then have "SHA256_Update c xs = c\<lparr>sha_count := sha_count c + push_bit 3 (of_nat (length xs)),
        sha_buf := blit ?b 0 (snd ?a), sha_state := fst ?a\<rparr>"
      by (simp add: SHA256_Update_def Let_def case_prod_beta SHA256_blocks_absorb blit)
    with len b show ?thesis
      unfolding ab by (simp add: sha_pend_def blit_def)
  qed
qed

interpretation sha: counted_buffer 64 0 SHA256_Transform SHA256_Update sha_state sha_pend sha_inv
    sha_count "\<lambda>c n. c + push_bit 3 (of_nat n)"
proof unfold_locales
  fix n :: u64 and i j
  show "n + push_bit 3 (of_nat i) + push_bit 3 (of_nat j) = n + push_bit 3 (of_nat (i + j))"
    by (simp add: push_bit_eq_mult algebra_simps)
qed (simp_all add: length_sha_pend sha_r_less SHA256_Update_inv SHA256_Update_absorb SHA256_Update_count)

section \<open>Padding and the digest\<close>

definition sha_padding :: "nat \<Rightarrow> u64 \<Rightarrow> bytes" where
  "sha_padding r count = 0x80 # replicate ((119 - r) mod 64) 0 @ be64enc count"

lemma take_PAD: "0 < n \<Longrightarrow> n \<le> 64 \<Longrightarrow> take n PAD = 0x80 # replicate (n - 1) 0"
  by (cases n) (simp_all add: PAD_def)

lemma SHA256_Pad_state:
  assumes "sha_inv c"
  shows "sha_state (SHA256_Pad c) = fst (absorb 64 0 SHA256_Transform (sha_state c)
    (sha_pend c @ sha_padding (sha_r (sha_count c)) (sha_count c)))"
proof -
  let ?r = "sha_r (sha_count c)" and ?n = "be64enc (sha_count c)"
  have buf: "length (sha_buf c) = 64" and r: "?r < 64" and pend: "length (sha_pend c) = ?r"
    using assms sha_r_less by (simp_all add: sha_inv_def length_sha_pend)
  show ?thesis
  proof (cases "?r < 56")
    case True
    let ?b = "sha_pend c @ 0x80 # replicate (55 - ?r) 0 @ ?n"
    have "blit (blit (sha_buf c) ?r (take (56 - ?r) PAD)) 56 ?n = ?b"
      using True buf Suc_diff_Suc [of ?r 55, symmetric] Suc_diff_le [of ?r 55] by (simp add: blit_def take_PAD sha_pend_def)
    moreover have "(119 - ?r) mod 64 = 55 - ?r" using True by (simp add: mod_if)
    moreover have "length ?b = 64" using True pend by simp
    ultimately show ?thesis
      using True absorb_block [of 64 ?b 0 "[]" SHA256_Transform "sha_state c"]
      by (simp add: SHA256_Pad_def sha_padding_def Let_def)
  next
    case False
    let ?b1 = "sha_pend c @ 0x80 # replicate (63 - ?r) 0" and ?b2 = "replicate 56 0 @ ?n"
    have b1: "blit (sha_buf c) ?r (take (64 - ?r) PAD) = ?b1" and l1: "length ?b1 = 64"
      using False r buf pend by (simp_all add: blit_def take_PAD sha_pend_def)
    have b2: "blit (blit ?b1 0 (replicate 56 0)) 56 ?n = ?b2" and l2: "length ?b2 = 64"
      using l1 by (simp_all add: blit_def)
    have "(119 - ?r) mod 64 = (63 - ?r) + 56" using False r by simp
    then have "sha_pend c @ sha_padding ?r (sha_count c) = ?b1 @ ?b2 @ []"
      by (simp only: sha_padding_def replicate_add append.simps append_assoc append_Nil2)
    then have "absorb 64 0 SHA256_Transform (sha_state c) (sha_pend c @ sha_padding ?r (sha_count c))
        = (SHA256_Transform (SHA256_Transform (sha_state c) ?b1) ?b2, [])"
      using l1 l2 by (simp only: absorb_block) simp
    then show ?thesis
      using False b1 b2 by (simp add: SHA256_Pad_def Let_def)
  qed
qed

lemma be32enc_vect_eq: "length ws = 2 * n \<Longrightarrow> be32enc_vect ws n = concat (map be32enc ws)"
proof (induction n arbitrary: ws)
  case 0
  then show ?case by simp
next
  case (Suc n)
  then obtain a b vs where "ws = a # b # vs" by (auto simp: length_Suc_conv)
  with Suc show ?case by (simp add: numeral_2_eq_2)
qed

lemma SHA256_Final_view:
  assumes "sha_inv c" and "sha_inv d"
    and "(sha_state c, sha_count c, sha_pend c) = (sha_state d, sha_count d, sha_pend d)"
  shows "fst (SHA256_Final c) = fst (SHA256_Final d)"
  using assms SHA256_Pad_state [of c] SHA256_Pad_state [of d]
  by (simp add: SHA256_Final_def Let_def)

lemma SHA256_Init_inv: "length (sha_buf c) = 64 \<Longrightarrow> sha_inv (SHA256_Init c)"
  by (simp add: sha_inv_def SHA256_Init_def initial_state_def)

lemma SHA256_Init_pend: "sha_pend (SHA256_Init c) = []"
  by (simp add: sha_pend_def SHA256_Init_def sha_r_eq)

lemma absorb_fips:
  "length st = 8 \<Longrightarrow> absorb 64 0 SHA256_Transform st xs = absorb 64 0 fips_compress st xs"
  by (rule absorb_cong [where P = "\<lambda>s. length s = 8"])
    (simp_all add: SHA256_Transform_correct [symmetric])

lemma sha_padding_fips: "sha_padding (n mod 64) (push_bit 3 (of_nat n)) = fips_pad n"
  by (simp add: sha_padding_def fips_pad_def be64enc_eq push_bit_eq_mult mult.commute)

lemma sha_state_inv: "length st = 8 \<Longrightarrow> length (fst (absorb 64 k SHA256_Transform st xs)) = 8"
  by (rule absorb_invariant [where P = "\<lambda>s. length s = 8"]) simp_all

lemma SHA256_digest:
  assumes "length (sha_buf c) = 64"
  shows "fst (SHA256_Final (SHA256_Update (SHA256_Init c) m)) = sha256_spec m"
proof -
  let ?c = "SHA256_Init c" and ?d = "SHA256_Update (SHA256_Init c) m"
  have inv: "sha_inv ?c" using assms by (rule SHA256_Init_inv)
  then have invd: "sha_inv ?d" by (rule SHA256_Update_inv)
  have init: "sha_state ?c = initial_state" "sha_count ?c = 0"
    by (simp_all add: SHA256_Init_def)
  have cnt: "sha_count ?d = push_bit 3 (of_nat (length m))"
    by (simp add: SHA256_Update_count init)
  have r: "sha_r (sha_count ?d) = length m mod 64"
    using sha_r_add [of 0] by (simp add: cnt) (simp add: sha_r_eq)
  have st: "(sha_state ?d, sha_pend ?d) = absorb 64 0 SHA256_Transform initial_state m"
    using SHA256_Update_absorb [OF inv, of m] by (simp add: init SHA256_Init_pend)
  have len: "length initial_state = 8" by (simp add: initial_state_def)
  have "sha_state (SHA256_Pad ?d) = fst (absorb 64 0 SHA256_Transform initial_state (m @ fips_pad (length m)))"
    unfolding SHA256_Pad_state [OF invd] r unfolding cnt sha_padding_fips
    using absorb_append [of 64 0 SHA256_Transform initial_state m] by (simp add: st [symmetric])
  moreover have "length (sha_state (SHA256_Pad ?d)) = 8"
    unfolding calculation using len by (rule sha_state_inv)
  ultimately show ?thesis
    by (simp add: SHA256_Final_def Let_def be32enc_vect_eq sha256_spec_def absorb_fips [OF len]
        be32enc_eq [abs_def] cong: map_cong)
qed

definition sha_start :: "SHA256_CTX \<Rightarrow> bool" where
  "sha_start c \<longleftrightarrow> sha_inv c \<and> SHA256_Init c = c"

lemma SHA256_Init_start: "length (sha_buf c) = 64 \<Longrightarrow> sha_start (SHA256_Init c)"
  by (simp add: sha_start_def SHA256_Init_inv) (simp add: SHA256_Init_def)

interpretation sha_hash: stream_hash SHA256_Update "\<lambda>c. (sha_state c, sha_count c, sha_pend c)" sha_inv
    sha_start "\<lambda>c. fst (SHA256_Final c)" sha256_spec
proof unfold_locales
  fix c xs assume "sha_start c"
  then have "SHA256_Init c = c" and "length (sha_buf c) = 64"
    by (simp_all add: sha_start_def sha_inv_def)
  then show "fst (SHA256_Final (SHA256_Update c xs)) = sha256_spec xs"
    using SHA256_digest [of c xs] by simp
qed (auto simp: sha_start_def intro: SHA256_Final_view)

lemma length_sha256_spec [simp, len_simps]: "length (sha256_spec m) = 32"
proof -
  have "length (fst (absorb 64 0 SHA256_Transform initial_state xs)) = 8" for xs
    by (rule sha_state_inv) (simp add: initial_state_def)
  then have "length (fst (absorb 64 0 fips_compress initial_state xs)) = 8" for xs
    by (simp add: absorb_fips [symmetric] initial_state_def)
  then show ?thesis
    by (simp add: sha256_spec_def length_concat comp_def sum_list_triv)
qed

lemma SHA256_Buf_correct: "SHA256_Buf m = sha256_spec m"
  by (simp add: SHA256_Buf_def SHA256_digest uninit_sha_def)

lemma SHA256_Pad_inv: "sha_inv c \<Longrightarrow> sha_inv (SHA256_Pad c)"
  using sha_r_less [of "sha_count c"]
  by (auto simp: sha_inv_def SHA256_Pad_def Let_def PAD_def)

lemma SHA256_Final_inv: "sha_inv c \<Longrightarrow> sha_inv (snd (SHA256_Final c))"
  by (simp add: SHA256_Final_def Let_def SHA256_Pad_inv)

lemma length_SHA256_Final: "sha_inv c \<Longrightarrow> length (fst (SHA256_Final c)) = 32"
  using SHA256_Pad_inv [of c]
  by (simp add: SHA256_Final_def Let_def be32enc_vect_eq sha_inv_def length_concat comp_def sum_list_triv)

lemma be32dec_vect_map:
  assumes "length p = 8 * len"
  shows "be32dec_vect p len = map (\<lambda>i. be32dec (sub (4 * i) 4 p)) [0..<2 * len]"
proof -
  have "4 * i + 4 \<le> length p" if "i < 2 * len" for i
    using that assms by simp
  then show ?thesis
    using assms by (simp add: be32dec_vect_eq be32dec_word)
qed

section \<open>Where the constants come from\<close>

text \<open>
  \<open>w\<close> holds the first 32 bits of the fractional part of the \<open>k\<close>-th root of \<open>p\<close>: with \<open>n\<close> the
  integer part, \<open>n + w / 2 ^ 32\<close> is the root of \<open>p\<close> rounded down to 32 binary places.
\<close>

definition root_bits :: "nat \<Rightarrow> nat \<Rightarrow> u32 \<Rightarrow> bool" where
  "root_bits k p w \<longleftrightarrow>
    (let x = length [m \<leftarrow> [1, 2, 3, 4, 5, 6]. m ^ k \<le> p] * 2 ^ 32 + unat w
     in x ^ k \<le> p * 2 ^ (32 * k) \<and> p * 2 ^ (32 * k) < (x + 1) ^ k)"

definition first_primes :: "nat list" where
  "first_primes = [2, 3, 5, 7, 11, 13, 17, 19, 23, 29, 31, 37, 41, 43, 47, 53, 59, 61, 67, 71, 73, 79,
     83, 89, 97, 101, 103, 107, 109, 113, 127, 131, 137, 139, 149, 151, 157, 163, 167, 173, 179, 181,
     191, 193, 197, 199, 211, 223, 227, 229, 233, 239, 241, 251, 257, 263, 269, 271, 277, 281, 283,
     293, 307, 311]"

section \<open>Properties\<close>

text \<open>C26: The block transform of the code, with its in-place rounds over rotating array positions and
  its three lazy extensions of the message schedule, is the compression function of FIPS 180-4.\<close>

theorem SHA256_Transform_refines:
  assumes "length state = 8" and "length block = 64"
  shows "SHA256_Transform state block = fips_compress state block"
  using assms by (rule SHA256_Transform_correct)

theorem SHA256_Transform_refines_witness:
  "SHA256_Transform initial_state PAD = fips_compress initial_state PAD"
  by (rule SHA256_Transform_refines) (simp_all add: initial_state_def PAD_def)

text \<open>C9: However a message is cut into pieces (empty ones included) and whatever the context held
  before, initialising, feeding the pieces in order and finalising returns the FIPS 180-4 digest of
  the whole message.\<close>

theorem SHA256_any_pieces:
  assumes "length (sha_buf c) = 64"
  shows "fst (SHA256_Final (foldl SHA256_Update (SHA256_Init c) pieces)) = sha256_spec (concat pieces)"
  by (rule sha_hash.digest_chunks) (rule SHA256_Init_start [OF assms])

theorem SHA256_any_pieces_witness:
  "fst (SHA256_Final (foldl SHA256_Update (SHA256_Init uninit_sha) [replicate 60 1, [], [2, 3, 4, 5, 6]]))
    = sha256_spec (replicate 60 1 @ [2, 3, 4, 5, 6])"
  using SHA256_any_pieces [of uninit_sha "[replicate 60 1, [], [2, 3, 4, 5, 6]]"]
  by (simp add: uninit_sha_def)

text \<open>No operation writes outside its buffer: an update of any length, the padding and the
  finalisation keep the eight state words and the 64-byte buffer, and the digest has 32 bytes.\<close>

theorem SHA256_operations_safe:
  assumes "sha_inv c"
  shows "sha_inv (SHA256_Init c) \<and> sha_inv (SHA256_Update c src) \<and> sha_inv (SHA256_Pad c)
    \<and> sha_inv (snd (SHA256_Final c)) \<and> length (fst (SHA256_Final c)) = 32"
  using assms SHA256_Init_inv [of c] SHA256_Update_inv [of c src]
    SHA256_Pad_inv [of c] SHA256_Final_inv [of c] length_SHA256_Final [of c]
  by (simp add: sha_inv_def)

theorem SHA256_operations_safe_witness:
  "sha_inv uninit_sha \<and> sha_inv (SHA256_Update uninit_sha (replicate 200 7))"
  using SHA256_operations_safe [of uninit_sha "replicate 200 7"]
  by (simp add: sha_inv_def uninit_sha_def)

text \<open>The round constants are the first 32 bits of the fractional parts of the cube roots of the
  first 64 primes, and the initial state those of the square roots of the first eight.\<close>

theorem SHA256_constants:
  "list_all2 (root_bits 3) first_primes Krnd \<and> list_all2 (root_bits 2) (take 8 first_primes) initial_state"
proof
  show "list_all2 (root_bits 3) first_primes Krnd"
    by (simp add: root_bits_def first_primes_def Krnd_def Let_def)
  show "list_all2 (root_bits 2) (take 8 first_primes) initial_state"
    by (simp add: root_bits_def first_primes_def initial_state_def Let_def)
qed

text \<open>The word vectors of the code round trip: decoding the encoding of an even number of words
  gives the words, and encoding the decoding of whole pairs of words gives the bytes.\<close>

theorem be32_vect_roundtrip:
  assumes "length ws = 2 * len" and "length p = 8 * len"
  shows "be32dec_vect (be32enc_vect ws len) len = ws \<and> be32enc_vect (be32dec_vect p len) len = p"
proof
  have "length (be32enc_vect ws len) = 8 * len"
    using assms(1) by (simp add: be32enc_vect_eq be32.length_enc_vect)
  then have "be32dec_vect (be32enc_vect ws len) len
      = map (\<lambda>i. be32dec (sub (4 * i) 4 (be32enc_vect ws len))) [0..<2 * len]"
    by (simp add: be32dec_vect_map)
  with assms(1) be32.dec_enc_vect [of ws] show "be32dec_vect (be32enc_vect ws len) len = ws"
    by (simp add: be32enc_vect_eq)
  show "be32enc_vect (be32dec_vect p len) len = p"
    using assms(2) be32.enc_dec_vect [of p "2 * len"]
    by (simp add: be32dec_vect_map be32enc_vect_eq comp_def)
qed

theorem be32_vect_roundtrip_witness:
  "be32dec_vect (be32enc_vect [1, 2, 3, 0x80000001] 2) 2 = [1, 2, 3, 0x80000001] \<and>
   be32enc_vect (be32dec_vect (replicate 8 200 @ replicate 8 3) 2) 2 = replicate 8 200 @ replicate 8 3"
  by (rule be32_vect_roundtrip) simp_all

end
