(* ===== verification/Pbkdf2.thy ===== *)
theory Pbkdf2
  imports Sha256
begin

text \<open>
  \<open>panthera/sha256.c\<close>, second half: HMAC-SHA256 and PBKDF2-HMAC-SHA256. \<open>PBKDF2_SHA256\<close> has a
  fast path for one iteration that builds the two padded blocks once and overwrites the
  counter bytes in them; it is proved to write what the generic path writes, and both the key
  of RFC 8018. The generic path's inner loop counts a \<open>uint64_t\<close> up to \<open>c\<close> inclusive, so it is
  modelled as a partial function.
\<close>

section \<open>HMAC-SHA256\<close>

record HMAC_SHA256_CTX =
  ictx :: SHA256_CTX
  octx :: SHA256_CTX

definition HMAC_SHA256_Init :: "HMAC_SHA256_CTX \<Rightarrow> bytes \<Rightarrow> HMAC_SHA256_CTX" where
  "HMAC_SHA256_Init ctx K =
    (let (ctx, K) =
       (if 64 < length K then
          let ctx = ctx\<lparr>ictx := SHA256_Init (ictx ctx)\<rparr>;
              ctx = ctx\<lparr>ictx := SHA256_Update (ictx ctx) K\<rparr>;
              (khash, i) = SHA256_Final (ictx ctx)
          in (ctx\<lparr>ictx := i\<rparr>, khash)
        else (ctx, K));
       ctx = ctx\<lparr>ictx := SHA256_Init (ictx ctx)\<rparr>;
       pad = xor_at (replicate 64 0x36) 0 K;
       ctx = ctx\<lparr>ictx := SHA256_Update (ictx ctx) pad\<rparr>;
       ctx = ctx\<lparr>octx := SHA256_Init (octx ctx)\<rparr>;
       pad = xor_at (replicate 64 0x5c) 0 K
     in ctx\<lparr>octx := SHA256_Update (octx ctx) pad\<rparr>)"

definition HMAC_SHA256_Update :: "HMAC_SHA256_CTX \<Rightarrow> bytes \<Rightarrow> HMAC_SHA256_CTX" where
  "HMAC_SHA256_Update ctx src = ctx\<lparr>ictx := SHA256_Update (ictx ctx) src\<rparr>"

definition HMAC_SHA256_Final :: "HMAC_SHA256_CTX \<Rightarrow> bytes \<times> HMAC_SHA256_CTX" where
  "HMAC_SHA256_Final ctx =
    (let (ihash, i) = SHA256_Final (ictx ctx);
         ctx = ctx\<lparr>ictx := i\<rparr>;
         ctx = ctx\<lparr>octx := SHA256_Update (octx ctx) ihash\<rparr>;
         (digest, j) = SHA256_Final (octx ctx)
     in (digest, ctx\<lparr>octx := j\<rparr>))"

definition uninit_hmac :: HMAC_SHA256_CTX where
  "uninit_hmac = \<lparr>ictx = uninit_sha, octx = uninit_sha\<rparr>"

definition HMAC_SHA256_Buf :: "bytes \<Rightarrow> bytes \<Rightarrow> bytes" where
  "HMAC_SHA256_Buf K src =
     fst (HMAC_SHA256_Final (HMAC_SHA256_Update (HMAC_SHA256_Init uninit_hmac K) src))"

section \<open>Padding without the transform\<close>

text \<open>Returns the code's result (0 or -1), the context and the length bytes \<open>len\<close>.\<close>

definition SHA256_Pad_Almost :: "SHA256_CTX \<Rightarrow> int \<times> SHA256_CTX" where
  "SHA256_Pad_Almost ctx =
    (let r = sha_r (sha_count ctx)
     in if 56 \<le> r then (-1, ctx)
        else
          let len = be64enc (sha_count ctx);
              ctx = SHA256_Update ctx (take (56 - r) PAD);
              ctx = ctx\<lparr>sha_buf := (sha_buf ctx)[63 := len ! 7]\<rparr>;
              ctx = SHA256_Update ctx (take 7 len)
          in (0, ctx))"

section \<open>PBKDF2, the generic path\<close>

text \<open>\<open>for (j = 2; j <= c; j++)\<close>: \<open>None\<close> when the loop never ends (\<open>c\<close> is the largest \<open>uint64_t\<close>).\<close>

partial_function (option) pbkdf2_inner ::
    "HMAC_SHA256_CTX \<Rightarrow> u64 \<Rightarrow> u64 \<Rightarrow> bytes \<Rightarrow> bytes \<Rightarrow> bytes option" where
  "pbkdf2_inner Phctx c j U T =
     (if j \<le> c then
        let U = fst (HMAC_SHA256_Final (HMAC_SHA256_Update Phctx U))
        in pbkdf2_inner Phctx c (j + 1) U (xor_at T 0 U)
      else Some T)"

declare pbkdf2_inner.simps [code]

text \<open>\<open>T_i\<close>: the first application and, when \<open>c > 1\<close>, the iterations.\<close>

definition pbkdf2_block ::
    "HMAC_SHA256_CTX \<Rightarrow> HMAC_SHA256_CTX \<Rightarrow> u64 \<Rightarrow> nat \<Rightarrow> bytes option" where
  "pbkdf2_block Phctx PShctx c i =
    (let ivec = be32enc (of_nat (i + 1));
         hctx = HMAC_SHA256_Update PShctx ivec;
         T = fst (HMAC_SHA256_Final hctx)
     in if 1 < c then pbkdf2_inner Phctx c 2 T T else Some T)"

function pbkdf2_generic_loop ::
    "HMAC_SHA256_CTX \<Rightarrow> HMAC_SHA256_CTX \<Rightarrow> u64 \<Rightarrow> nat \<Rightarrow> nat \<Rightarrow> bytes \<Rightarrow> bytes option" where
  "pbkdf2_generic_loop Phctx PShctx c dkLen i buf =
     (if i * 32 < dkLen then
        (case pbkdf2_block Phctx PShctx c i of
           None \<Rightarrow> None
         | Some T \<Rightarrow>
             let clen = dkLen - i * 32;
                 clen = (if 32 < clen then 32 else clen)
             in pbkdf2_generic_loop Phctx PShctx c dkLen (i + 1) (blit buf (i * 32) (take clen T)))
      else Some buf)"
  by pat_completeness auto
termination
  by (relation "measure (\<lambda>(P, S, c, dkLen, i, buf). dkLen - i * 32)") auto

declare pbkdf2_generic_loop.simps [simp del]

definition pbkdf2_generic :: "bytes \<Rightarrow> bytes \<Rightarrow> u64 \<Rightarrow> bytes \<Rightarrow> nat \<Rightarrow> bytes option" where
  "pbkdf2_generic passwd salt c buf dkLen =
    (let Phctx = HMAC_SHA256_Init uninit_hmac passwd;
         PShctx = HMAC_SHA256_Update Phctx salt
     in pbkdf2_generic_loop Phctx PShctx c dkLen 0 buf)"

section \<open>PBKDF2, the fast path\<close>

definition pbkdf2_fast_block :: "HMAC_SHA256_CTX \<Rightarrow> nat \<Rightarrow> nat \<Rightarrow> HMAC_SHA256_CTX \<times> bytes" where
  "pbkdf2_fast_block hctx ivecp i =
    (let hctx = hctx\<lparr>ictx := (ictx hctx)\<lparr>sha_buf := blit (sha_buf (ictx hctx)) ivecp (be32enc (of_nat (i + 1)))\<rparr>\<rparr>;
         state = SHA256_Transform (sha_state (ictx hctx)) (sha_buf (ictx hctx));
         hctx = hctx\<lparr>octx := (octx hctx)\<lparr>sha_buf := blit (sha_buf (octx hctx)) 0 (be32enc_vect state 4)\<rparr>\<rparr>;
         state = SHA256_Transform (sha_state (octx hctx)) (sha_buf (octx hctx))
     in (hctx, be32enc_vect state 4))"

function pbkdf2_fast_loop :: "HMAC_SHA256_CTX \<Rightarrow> nat \<Rightarrow> nat \<Rightarrow> nat \<Rightarrow> bytes \<Rightarrow> bytes" where
  "pbkdf2_fast_loop hctx ivecp dkLen i buf =
     (if i * 32 < dkLen then
        let (hctx, T) = pbkdf2_fast_block hctx ivecp i
        in pbkdf2_fast_loop hctx ivecp dkLen (i + 1) (blit buf (i * 32) T)
      else buf)"
  by pat_completeness auto
termination
  by (relation "measure (\<lambda>(h, p, dkLen, i, buf). dkLen - i * 32)") auto

declare pbkdf2_fast_loop.simps [simp del]

text \<open>
  \<open>Inl\<close>: the path gives up and jumps to \<open>generic\<close>. The counter test compares the low bits of the
  bit count before and after the four zero bytes.
\<close>

definition pbkdf2_fast :: "bytes \<Rightarrow> bytes \<Rightarrow> bytes \<Rightarrow> nat \<Rightarrow> unit + bytes" where
  "pbkdf2_fast passwd salt buf dkLen =
    (let hctx = HMAC_SHA256_Init uninit_hmac passwd;
         hctx = HMAC_SHA256_Update hctx salt;
         oldcount = (ucast (sha_count (ictx hctx) AND (push_bit 3 0x3f)) :: u32);
         hctx = HMAC_SHA256_Update hctx [0, 0, 0, 0]
     in if sha_count (ictx hctx) AND (push_bit 3 0x3f) < ucast oldcount then Inl ()
        else
          let (e, i) = SHA256_Pad_Almost (ictx hctx);
              hctx = hctx\<lparr>ictx := i\<rparr>
          in if e \<noteq> 0 then Inl ()
             else
               let ivecp = unat (drop_bit 3 oldcount);
                   hctx = hctx\<lparr>octx := (octx hctx)\<lparr>sha_count := sha_count (octx hctx) + push_bit 3 32\<rparr>\<rparr>;
                   hctx = hctx\<lparr>octx := snd (SHA256_Pad_Almost (octx hctx))\<rparr>
               in Inr (pbkdf2_fast_loop hctx ivecp dkLen 0 buf))"

section \<open>The exported function\<close>

text \<open>
  \<open>buf\<close> is the output array on entry. The result is the array on exit, \<open>None\<close> if the call does
  not return, and an error if the assertion on \<open>dkLen\<close> stops the program.
\<close>

definition PBKDF2_SHA256 ::
    "bytes \<Rightarrow> bytes \<Rightarrow> u64 \<Rightarrow> bytes \<Rightarrow> nat \<Rightarrow> (c_error + bytes) option" where
  "PBKDF2_SHA256 passwd salt c buf dkLen =
    (if \<not> dkLen \<le> 32 * (2 ^ 32 - 1) then Some (Inl AssertFailed)
     else if c = 1 \<and> dkLen AND 31 = 0 \<and> length salt AND 63 \<le> 51 then
       (case pbkdf2_fast passwd salt buf dkLen of
          Inr buf \<Rightarrow> Some (Inr buf)
        | Inl _ \<Rightarrow> map_option Inr (pbkdf2_generic passwd salt c buf dkLen))
     else map_option Inr (pbkdf2_generic passwd salt c buf dkLen))"

section \<open>HMAC is HMAC\<close>

interpretation sha_hmac: keyed_hash SHA256_Update "\<lambda>c. (sha_state c, sha_count c, sha_pend c)" sha_inv
    sha_start "\<lambda>c. fst (SHA256_Final c)" sha256_spec 64
  by unfold_locales simp

definition hmac_inv :: "HMAC_SHA256_CTX \<Rightarrow> bool" where
  "hmac_inv h \<longleftrightarrow> sha_inv (ictx h) \<and> sha_inv (octx h)"

text \<open>The key has been fed to both contexts.\<close>

definition hmac_keyed :: "bytes \<Rightarrow> HMAC_SHA256_CTX \<Rightarrow> bool" where
  "hmac_keyed K h \<longleftrightarrow> sha_hmac.keyed K (ictx h) (octx h)"

lemma SHA256_Final_digest: "sha_start c \<Longrightarrow> fst (SHA256_Final (SHA256_Update c m)) = sha256_spec m"
  by (rule sha_hash.fin_upd)

lemma SHA256_Init_starts: "sha_inv c \<Longrightarrow> sha_start (SHA256_Init c)"
  by (rule SHA256_Init_start) (simp add: sha_inv_def)

lemma HMAC_SHA256_Init_keyed:
  assumes "hmac_inv h"
  shows "hmac_keyed K (HMAC_SHA256_Init h K)"
proof -
  let ?k = "SHA256_Final (SHA256_Update (SHA256_Init (ictx h)) K)"
  let ?i = "if 64 < length K then snd ?k else ictx h" and ?K = "if 64 < length K then fst ?k else K"
  have i: "sha_start (SHA256_Init (ictx h))" and o: "sha_start (SHA256_Init (octx h))"
    using assms by (auto simp: hmac_inv_def SHA256_Init_starts)
  then have "sha_inv (SHA256_Update (SHA256_Init (ictx h)) K)"
    by (auto simp: sha_start_def intro: SHA256_Update_inv)
  then have i': "sha_start (SHA256_Init ?i)"
    using i by (simp add: SHA256_Init_starts SHA256_Final_inv)
  have K: "?K = (if 64 < length K then sha256_spec K else K)"
    by (simp add: SHA256_Final_digest i)
  have "ictx (HMAC_SHA256_Init h K) = SHA256_Update (SHA256_Init ?i) (xor_at (replicate 64 0x36) 0 ?K)"
    and "octx (HMAC_SHA256_Init h K) = SHA256_Update (SHA256_Init (octx h)) (xor_at (replicate 64 0x5c) 0 ?K)"
    by (simp_all add: HMAC_SHA256_Init_def Let_def case_prod_beta)
  then show ?thesis
    unfolding hmac_keyed_def by (rule sha_hmac.keyedI [OF i' o K])
qed

lemma HMAC_SHA256_Update_fold:
  "foldl HMAC_SHA256_Update h xss = h\<lparr>ictx := foldl SHA256_Update (ictx h) xss\<rparr>"
  by (induction xss arbitrary: h) (simp_all add: HMAC_SHA256_Update_def)

lemma HMAC_SHA256_digest:
  "hmac_keyed K h \<Longrightarrow> fst (HMAC_SHA256_Final (foldl HMAC_SHA256_Update h xss))
    = hmac_spec 64 sha256_spec K (concat xss)"
  by (simp add: hmac_keyed_def HMAC_SHA256_Update_fold HMAC_SHA256_Final_def Let_def case_prod_beta
      sha_hmac.keyed_digest)

lemma uninit_hmac_inv: "hmac_inv uninit_hmac"
  by (simp add: hmac_inv_def uninit_hmac_def sha_inv_def uninit_sha_def)

lemma HMAC_SHA256_Buf_correct: "HMAC_SHA256_Buf K m = hmac_spec 64 sha256_spec K m"
  using HMAC_SHA256_digest [OF HMAC_SHA256_Init_keyed [OF uninit_hmac_inv], of K "[m]"]
  by (simp add: HMAC_SHA256_Buf_def)

section \<open>PBKDF2 of RFC 8018\<close>

text \<open>\<open>U\<^sub>1 = PRF (P, S || INT (i))\<close>, \<open>U\<^sub>j\<^sub>+\<^sub>1 = PRF (P, U\<^sub>j)\<close>; \<open>rfc_U\<close> counts from 0.\<close>

primrec rfc_U :: "(bytes \<Rightarrow> bytes) \<Rightarrow> bytes \<Rightarrow> nat \<Rightarrow> nat \<Rightarrow> bytes" where
  "rfc_U mac S i 0 = mac (S @ rev (le_of_word 4 (of_nat i :: u32)))"
| "rfc_U mac S i (Suc j) = mac (rfc_U mac S i j)"

definition rfc_F :: "(bytes \<Rightarrow> bytes) \<Rightarrow> bytes \<Rightarrow> nat \<Rightarrow> nat \<Rightarrow> bytes" where
  "rfc_F mac S c i = foldl (map2 (XOR)) (rfc_U mac S i 0) (map (rfc_U mac S i) [1..<c])"

definition pbkdf2_spec :: "bytes \<Rightarrow> bytes \<Rightarrow> nat \<Rightarrow> nat \<Rightarrow> bytes" where
  "pbkdf2_spec P S c dkLen =
     take dkLen (concat (map (\<lambda>i. rfc_F (hmac_spec 64 sha256_spec P) S c (i + 1))
       [0..<(dkLen + 31) div 32]))"

lemma length_hmac_sha [simp, len_simps]: "length (hmac_spec 64 sha256_spec K m) = 32"
  by (simp add: hmac_spec_def Let_def)

lemma length_rfc_U: "(\<And>m. length (mac m) = n) \<Longrightarrow> length (rfc_U mac S i j) = n"
  by (cases j) simp_all

lemma length_rfc_F: "(\<And>m. length (mac m) = n) \<Longrightarrow> length (rfc_F mac S c i) = n"
proof -
  assume mac: "\<And>m. length (mac m) = n"
  have "length T = n \<Longrightarrow> length (foldl (map2 (XOR)) T (map (rfc_U mac S i) js)) = n" for T js
    by (induction js arbitrary: T) (simp_all add: length_rfc_U [OF mac])
  then show ?thesis by (simp add: rfc_F_def length_rfc_U [OF mac] del: rfc_U.simps)
qed

lemma xor_at_0: "length T = length U \<Longrightarrow> xor_at T 0 U = map2 (XOR) T U"
  by (simp add: xor_at_def blit_def)

section \<open>The generic path\<close>

abbreviation sha_mac :: "bytes \<Rightarrow> bytes \<Rightarrow> bytes" where
  "sha_mac K \<equiv> hmac_spec 64 sha256_spec K"

lemma HMAC_step: "hmac_keyed K h \<Longrightarrow> fst (HMAC_SHA256_Final (HMAC_SHA256_Update h m)) = sha_mac K m"
  using HMAC_SHA256_digest [of K h "[m]"] by simp

lemma HMAC_two_steps:
  "hmac_keyed K h \<Longrightarrow>
    fst (HMAC_SHA256_Final (HMAC_SHA256_Update (HMAC_SHA256_Update h x) y)) = sha_mac K (x @ y)"
  using HMAC_SHA256_digest [of K h "[x, y]"] by simp

lemma pbkdf2_inner_iterates:
  assumes "hmac_keyed P Ph" and "unat c + 1 < 2 ^ 64"
  shows "length T = 32 \<Longrightarrow> unat j + n = unat c + 1 \<Longrightarrow>
    pbkdf2_inner Ph c j (rfc_U (sha_mac P) S i k) T
      = Some (foldl (map2 (XOR)) T (map (rfc_U (sha_mac P) S i) [k + 1..<k + 1 + n]))"
proof (induction n arbitrary: j T k)
  case 0
  then have "\<not> j \<le> c" by (simp add: word_le_nat_alt)
  then show ?case by (simp add: pbkdf2_inner.simps)
next
  case (Suc n)
  let ?U = "rfc_U (sha_mac P) S i"
  have "j \<le> c" using Suc.prems by (simp add: word_le_nat_alt)
  moreover have "unat (j + 1) = unat j + 1"
    using Suc.prems assms(2) unat_add_of_nat [of j 1] by simp
  moreover have "length (?U (k + 1)) = 32" by (rule length_rfc_U) simp
  moreover have "[k + 1..<k + 1 + Suc n] = (k + 1) # [k + 1 + 1..<k + 1 + 1 + n]"
    by (simp add: upt_conv_Cons del: upt_Suc)
  ultimately show ?case
    using Suc.IH [of "map2 (XOR) T (?U (k + 1))" "j + 1" "k + 1"] Suc.prems
    by (subst pbkdf2_inner.simps)
      (simp add: HMAC_step [OF assms(1)] xor_at_0 del: upt_Suc)
qed

lemma pbkdf2_inner_diverges: "pbkdf2_inner Ph (- 1) j U T = None"
proof -
  have "c \<noteq> - 1" if "pbkdf2_inner Ph c j U T = Some y" for c y
  proof (rule pbkdf2_inner.raw_induct [where P = "\<lambda>Ph c j U T y. c \<noteq> - 1", OF _ that])
    fix f :: "HMAC_SHA256_CTX \<Rightarrow> u64 \<Rightarrow> u64 \<Rightarrow> bytes \<Rightarrow> bytes \<Rightarrow> bytes option" and Ph c j U T y
    assume "\<And>Ph c j U T y. f Ph c j U T = Some y \<Longrightarrow> c \<noteq> - 1"
      and "(if j \<le> c then let U = fst (HMAC_SHA256_Final (HMAC_SHA256_Update Ph U))
          in f Ph c (j + 1) U (xor_at T 0 U) else Some T) = Some y"
    then show "c \<noteq> - 1" by (auto simp: Let_def word_order.extremum split: if_splits)
  qed
  then show ?thesis by (cases "pbkdf2_inner Ph (- 1) j U T") auto
qed

lemma pbkdf2_block_F:
  assumes "hmac_keyed P Ph" and "c \<noteq> - 1"
  shows "pbkdf2_block Ph (HMAC_SHA256_Update Ph S) c i = Some (rfc_F (sha_mac P) S (unat c) (i + 1))"
proof -
  let ?U = "rfc_U (sha_mac P) S (i + 1)"
  have U0: "fst (HMAC_SHA256_Final (HMAC_SHA256_Update (HMAC_SHA256_Update Ph S)
      (be32enc (of_nat (i + 1))))) = ?U 0"
    by (simp add: HMAC_two_steps [OF assms(1)] be32enc_eq)
  have "unat c \<noteq> unat (- 1 :: u64)" using assms(2) by (simp only: word_unat_eq_iff simp_thms)
  then have c: "unat c + 1 < 2 ^ 64"
    using unsigned_less [of c, where ?'a = nat] by (simp add: unsigned_minus_1_eq_mask mask_eq_exp_minus_1)
  have blk: "pbkdf2_block Ph (HMAC_SHA256_Update Ph S) c i
      = (if 1 < c then pbkdf2_inner Ph c 2 (?U 0) (?U 0) else Some (?U 0))"
    by (simp only: pbkdf2_block_def Let_def U0)
  show ?thesis
  proof (cases "1 < c")
    case True
    then have "1 < unat c" by (simp add: word_less_nat_alt)
    then show ?thesis
      using True pbkdf2_inner_iterates [OF assms(1) c, of "?U 0" 2 "unat c - 1" S "i + 1" 0]
        length_rfc_U [of "sha_mac P" 32 S "i + 1" 0]
      by (simp add: blk rfc_F_def del: rfc_U.simps)
  next
    case False
    then have "unat c = 0 \<or> unat c = 1" by (auto simp: word_less_nat_alt)
    then show ?thesis using False by (auto simp: blk rfc_F_def simp del: rfc_U.simps)
  qed
qed

text \<open>Writing block after block fills the output with the concatenation, cut to its length.\<close>

lemma fill_step:
  assumes "i * 32 < n" and "length buf = n" and "length T = 32"
    and "buf' = blit buf (i * 32) (take (n - i * 32) T)"
  shows "length buf' = n"
    and "take ((i + 1) * 32) buf' @ take (n - (i + 1) * 32) R = take (i * 32) buf @ take (n - i * 32) (T @ R)"
proof -
  show "length buf' = n" unfolding assms(4) using assms(1-3) by (subst length_blit) auto
  show "take ((i + 1) * 32) buf' @ take (n - (i + 1) * 32) R = take (i * 32) buf @ take (n - i * 32) (T @ R)"
  proof (cases "32 \<le> n - i * 32")
    case True
    with assms show ?thesis by (simp add: blit_def add.commute)
  next
    case False
    with assms show ?thesis by (simp add: blit_def)
  qed
qed

lemma blocks_Cons:
  "i * 32 < n \<Longrightarrow> [i..<(n + 31) div 32] = i # [i + 1..<(n + 31) div 32]"
  by (simp add: upt_conv_Cons)

lemma pbkdf2_generic_loop_fills:
  assumes block: "\<And>i. pbkdf2_block Ph PSh c i = Some (F i)" and F: "\<And>i. length (F i) = 32"
  shows "length buf = n \<Longrightarrow> pbkdf2_generic_loop Ph PSh c n i buf
    = Some (take (i * 32) buf @ take (n - i * 32) (concat (map F [i..<(n + 31) div 32])))"
proof (induction "n - i * 32" arbitrary: i buf rule: less_induct)
  case less
  show ?case
  proof (cases "i * 32 < n")
    case False
    with less.prems show ?thesis by (simp add: pbkdf2_generic_loop.simps)
  next
    case True
    let ?b = "blit buf (i * 32) (take (n - i * 32) (F i))"
    have "(if 32 < n - i * 32 then 32 else n - i * 32) = min 32 (n - i * 32)" by simp
    then have "take (if 32 < n - i * 32 then 32 else n - i * 32) (F i) = take (n - i * 32) (F i)"
      using F [of i] by (simp add: min_def)
    then have "pbkdf2_generic_loop Ph PSh c n i buf = pbkdf2_generic_loop Ph PSh c n (i + 1) ?b"
      using True by (simp add: pbkdf2_generic_loop.simps [of Ph PSh c n i] block Let_def)
    also have "\<dots> = Some (take ((i + 1) * 32) ?b @
        take (n - (i + 1) * 32) (concat (map F [i + 1..<(n + 31) div 32])))"
    proof (rule less.hyps)
      show "n - (i + 1) * 32 < n - i * 32" using True by simp
      show "length ?b = n" by (rule fill_step(1) [OF True less.prems F refl])
    qed
    finally show ?thesis
      using fill_step(2) [OF True less.prems F refl] by (simp add: blocks_Cons [OF True])
  qed
qed

lemma pbkdf2_generic_correct:
  assumes "length buf = n" and "c \<noteq> - 1"
  shows "pbkdf2_generic P S c buf n = Some (pbkdf2_spec P S (unat c) n)"
proof -
  let ?Ph = "HMAC_SHA256_Init uninit_hmac P" and ?F = "\<lambda>i. rfc_F (sha_mac P) S (unat c) (i + 1)"
  have key: "hmac_keyed P ?Ph"
    by (rule HMAC_SHA256_Init_keyed) (rule uninit_hmac_inv)
  have "pbkdf2_generic_loop ?Ph (HMAC_SHA256_Update ?Ph S) c n 0 buf
      = Some (take (0 * 32) buf @ take (n - 0 * 32) (concat (map ?F [0..<(n + 31) div 32])))"
    by (rule pbkdf2_generic_loop_fills) (auto simp: pbkdf2_block_F [OF key assms(2)] length_rfc_F assms(1))
  then show ?thesis by (simp add: pbkdf2_generic_def pbkdf2_spec_def Let_def)
qed

section \<open>The fast path\<close>

text \<open>An update that fills no block only appends to the buffer.\<close>

lemma SHA256_Update_short:
  assumes "sha_inv c" and "sha_r (sha_count c) + length xs < 64"
  shows "sha_state (SHA256_Update c xs) = sha_state c" and "sha_pend (SHA256_Update c xs) = sha_pend c @ xs"
  using SHA256_Update_absorb [OF assms(1), of xs] assms by (simp_all add: length_sha_pend)

lemma SHA256_Update_short_eq:
  "sha_r (sha_count c) + length xs < 64 \<Longrightarrow> SHA256_Update c xs =
     c\<lparr>sha_count := sha_count c + push_bit 3 (of_nat (length xs)),
       sha_buf := blit (sha_buf c) (sha_r (sha_count c)) xs\<rparr>"
  by (simp add: SHA256_Update_def Let_def less_diff_conv2)

lemma SHA256_Update_short_r:
  "sha_r (sha_count c) + length xs < 64 \<Longrightarrow>
     sha_r (sha_count (SHA256_Update c xs)) = sha_r (sha_count c) + length xs"
  by (simp add: SHA256_Update_count sha_r_add)

lemma pad_room: "r < 56 \<Longrightarrow> (119 - r) mod 64 = 55 - (r :: nat)"
  by (simp add: mod_if)

lemma length_bytes_last:
  assumes "length p = 56" and "length x = 8" and "length n = 8"
  shows "blit ((p @ x)[63 := n ! 7]) 56 (take 7 n) = p @ n"
proof -
  have "take 7 n @ [n ! 7] = n"
    using assms(3) take_Suc_conv_app_nth [of 7 n] by simp
  moreover have "drop 7 (x[7 := n ! 7]) = [n ! 7]"
    using assms(2) by (intro nth_equalityI) auto
  ultimately show ?thesis
    using assms by (simp add: list_update_append blit_def)
qed

lemma SHA256_Pad_Almost_less:
  assumes "sha_inv c" and "sha_r (sha_count c) < 56"
  obtains d where "SHA256_Pad_Almost c = (0, d)" and "sha_state d = sha_state c"
    and "sha_buf d = sha_pend c @ sha_padding (sha_r (sha_count c)) (sha_count c)"
proof -
  let ?r = "sha_r (sha_count c)" and ?n = "be64enc (sha_count c)"
  let ?b = "blit (sha_buf c) ?r (take (56 - ?r) PAD)"
  let ?c1 = "SHA256_Update c (take (56 - ?r) PAD)"
  let ?c2 = "?c1\<lparr>sha_buf := (sha_buf ?c1)[63 := ?n ! 7]\<rparr>"
  have buf: "length (sha_buf c) = 64" using assms(1) by (simp add: sha_inv_def)
  have PAD: "take (56 - ?r) PAD = 0x80 # replicate (55 - ?r) 0"
    using assms(2) by (simp add: take_PAD)
  have "?r + length (take (56 - ?r) PAD) < 64" using assms(2) by (simp add: PAD)
  then have c1: "sha_buf ?c1 = ?b" "sha_state ?c1 = sha_state c"
    by (simp_all only: SHA256_Update_short_eq) simp_all
  have r: "sha_r (sha_count ?c2) = 56"
    using assms(2) by (simp add: SHA256_Update_short_r PAD)
  have b: "?b = sha_pend c @ 0x80 # replicate (55 - ?r) 0 @ drop 56 (sha_buf c)"
    using assms(2) buf by (simp add: blit_def PAD sha_pend_def)
  have l: "length (sha_pend c @ 0x80 # replicate (55 - ?r) 0) = 56"
    using assms by (simp add: length_sha_pend)
  have "SHA256_Pad_Almost c = (0, SHA256_Update ?c2 (take 7 ?n))"
    using assms(2) by (simp add: SHA256_Pad_Almost_def Let_def)
  moreover have "sha_r (sha_count ?c2) + length (take 7 ?n) < 64" unfolding r by simp
  then have c3: "SHA256_Update ?c2 (take 7 ?n) = ?c2\<lparr>sha_count := sha_count ?c2 + push_bit 3 (of_nat (length (take 7 ?n))),
      sha_buf := blit (sha_buf ?c2) 56 (take 7 ?n)\<rparr>"
    by (simp only: SHA256_Update_short_eq r)
  have "sha_state (SHA256_Update ?c2 (take 7 ?n)) = sha_state c"
    unfolding c3 by (simp add: c1)
  moreover have "sha_buf (SHA256_Update ?c2 (take 7 ?n)) = blit (?b[63 := ?n ! 7]) 56 (take 7 ?n)"
    unfolding c3 by (simp add: c1)
  moreover have "blit (?b[63 := ?n ! 7]) 56 (take 7 ?n) = (sha_pend c @ 0x80 # replicate (55 - ?r) 0) @ ?n"
  proof -
    have "?b = (sha_pend c @ 0x80 # replicate (55 - ?r) 0) @ drop 56 (sha_buf c)" using b by simp
    then show ?thesis using l buf by (simp only: length_bytes_last length_drop length_encoders)
  qed
  ultimately show ?thesis
    using pad_room [OF assms(2)] by (intro that) (auto simp: sha_padding_def)
qed

text \<open>When the padding fits, the digest is one transform away.\<close>

lemma SHA256_Final_single:
  assumes "sha_inv c" and "sha_r (sha_count c) < 56"
  shows "fst (SHA256_Final c) = be32enc_vect (SHA256_Transform (sha_state c)
    (sha_pend c @ sha_padding (sha_r (sha_count c)) (sha_count c))) 4"
proof -
  let ?b = "sha_pend c @ sha_padding (sha_r (sha_count c)) (sha_count c)"
  have "length ?b = 64" using assms by (simp add: sha_padding_def length_sha_pend pad_room)
  then show ?thesis
    using SHA256_Pad_state [OF assms(1)] absorb_block [of 64 ?b 0 "[]" SHA256_Transform "sha_state c"]
    by (simp add: SHA256_Final_def Let_def)
qed

text \<open>
  The two prepared blocks: the padded block that ends the salt and the counter, and the padded
  block of the inner digest. Only the counter and the digest change from one output block to
  the next.
\<close>

definition prepared :: "SHA256_CTX \<Rightarrow> nat \<Rightarrow> SHA256_CTX \<Rightarrow> bool" where
  "prepared c n d \<longleftrightarrow> sha_state d = sha_state c \<and>
     (\<exists>v. length v = n \<and> sha_buf d = sha_pend c @ v
        @ sha_padding (sha_r (sha_count c) + n) (sha_count c + push_bit 3 (of_nat n)))"

text \<open>Overwriting the variable bytes and transforming is what update and finalisation compute.\<close>

lemma prepared_digest:
  assumes "sha_inv c" and "sha_r (sha_count c) + n < 56" and "prepared c n d" and "length v = n"
    and "b = blit (sha_buf d) (sha_r (sha_count c)) v"
  shows "be32enc_vect (SHA256_Transform (sha_state d) b) 4 = fst (SHA256_Final (SHA256_Update c v))"
    and "prepared c n (d\<lparr>sha_buf := b\<rparr>)"
proof -
  let ?pad = "sha_padding (sha_r (sha_count c) + n) (sha_count c + push_bit 3 (of_nat n))"
  obtain w where d: "sha_buf d = sha_pend c @ w @ ?pad" "length w = n" "sha_state d = sha_state c"
    using assms(3) by (auto simp: prepared_def)
  have b: "b = sha_pend c @ v @ ?pad"
    using assms(1,4,5) d by (simp add: blit_def length_sha_pend)
  with assms(4) d show "prepared c n (d\<lparr>sha_buf := b\<rparr>)"
    by (auto simp: prepared_def)
  have "sha_r (sha_count c) + length v < 64" using assms(2,4) by simp
  note short = SHA256_Update_short [OF assms(1) this] SHA256_Update_short_r [OF this]
  then show "be32enc_vect (SHA256_Transform (sha_state d) b) 4 = fst (SHA256_Final (SHA256_Update c v))"
    using assms(2,4) SHA256_Final_single [OF SHA256_Update_inv [OF assms(1)], of v]
    by (simp add: b d(3) SHA256_Update_count)
qed

lemma pbkdf2_fast_block_digest:
  assumes h: "sha_inv (ictx h)" "sha_inv (octx h)"
    and r: "sha_r (sha_count (ictx h)) \<le> 51" "sha_r (sha_count (octx h)) = 0"
    and prep: "prepared (ictx h) 4 (ictx g)" "prepared (octx h) 32 (octx g)"
  obtains g' where
    "pbkdf2_fast_block g (sha_r (sha_count (ictx h))) i
      = (g', fst (HMAC_SHA256_Final (HMAC_SHA256_Update h (be32enc (of_nat (i + 1))))))"
    and "prepared (ictx h) 4 (ictx g')" and "prepared (octx h) 32 (octx g')"
proof -
  let ?n = "be32enc (of_nat (i + 1))"
  let ?b = "blit (sha_buf (ictx g)) (sha_r (sha_count (ictx h))) ?n"
  let ?d = "fst (SHA256_Final (SHA256_Update (ictx h) ?n))"
  let ?c = "blit (sha_buf (octx g)) 0 ?d"
  have "length ?n = 4" by simp
  note i = prepared_digest [OF h(1) _ prep(1) this refl]
  have d: "length ?d = 32"
    using h(1) SHA256_Pad_inv [OF SHA256_Update_inv [OF h(1)], of ?n]
    by (simp add: SHA256_Final_def Let_def be32enc_vect_eq sha_inv_def length_concat comp_def
        sum_list_triv)
  note o = prepared_digest [OF h(2) _ prep(2) d refl]
  show ?thesis
  proof (rule that)
    show "pbkdf2_fast_block g (sha_r (sha_count (ictx h))) i
      = (g\<lparr>ictx := (ictx g)\<lparr>sha_buf := ?b\<rparr>, octx := (octx g)\<lparr>sha_buf := ?c\<rparr>\<rparr>,
         fst (HMAC_SHA256_Final (HMAC_SHA256_Update h ?n)))"
      using i(1) o(1) r by (simp add: pbkdf2_fast_block_def Let_def HMAC_SHA256_Update_def
          HMAC_SHA256_Final_def case_prod_beta)
  qed (use i(2) o(2) r in simp_all)
qed

lemma pbkdf2_fast_loop_fills:
  assumes h: "sha_inv (ictx h)" "sha_inv (octx h)"
    and r: "sha_r (sha_count (ictx h)) \<le> 51" "sha_r (sha_count (octx h)) = 0"
    and F: "\<And>i. F i = fst (HMAC_SHA256_Final (HMAC_SHA256_Update h (be32enc (of_nat (i + 1)))))"
      "\<And>i. length (F i) = 32"
    and n: "n mod 32 = 0"
  shows "length buf = n \<Longrightarrow> prepared (ictx h) 4 (ictx g) \<Longrightarrow> prepared (octx h) 32 (octx g) \<Longrightarrow>
    pbkdf2_fast_loop g (sha_r (sha_count (ictx h))) n i buf
    = take (i * 32) buf @ take (n - i * 32) (concat (map F [i..<(n + 31) div 32]))"
proof (induction "n - i * 32" arbitrary: i buf g rule: less_induct)
  case less
  show ?case
  proof (cases "i * 32 < n")
    case False
    with less.prems show ?thesis by (simp add: pbkdf2_fast_loop.simps)
  next
    case True
    let ?b = "blit buf (i * 32) (take (n - i * 32) (F i))" and ?r = "sha_r (sha_count (ictx h))"
    from pbkdf2_fast_block_digest [OF h r less.prems(2,3), of i] obtain g' where
      g': "pbkdf2_fast_block g ?r i = (g', F i)" "prepared (ictx h) 4 (ictx g')" "prepared (octx h) 32 (octx g')"
      by (auto simp: F(1))
    have "32 \<le> n - i * 32"
    proof -
      obtain k where "n = 32 * k" using n by auto
      with True show ?thesis by (cases "k \<le> i") auto
    qed
    then have "take (n - i * 32) (F i) = F i" using F(2) by simp
    then have "pbkdf2_fast_loop g ?r n i buf = pbkdf2_fast_loop g' ?r n (i + 1) ?b"
      using True by (simp add: pbkdf2_fast_loop.simps [of g _ n i] g'(1) Let_def)
    also have "\<dots> = take ((i + 1) * 32) ?b @ take (n - (i + 1) * 32) (concat (map F [i + 1..<(n + 31) div 32]))"
    proof (rule less.hyps)
      show "n - (i + 1) * 32 < n - i * 32" using True by simp
      show "length ?b = n" by (rule fill_step(1) [OF True less.prems(1) F(2) refl])
    qed (fact g'(2,3))+
    finally show ?thesis
      using fill_step(2) [OF True less.prems(1) F(2) refl] by (simp add: blocks_Cons [OF True])
  qed
qed

text \<open>After the key block both buffers are empty.\<close>

lemma hmac_keyed_inv:
  assumes "hmac_keyed K h"
  shows "sha_inv (ictx h)" "sha_inv (octx h)" "sha_r (sha_count (ictx h)) = 0" "sha_r (sha_count (octx h)) = 0"
proof -
  obtain c d where start: "sha_start c" "sha_start d"
      and h: "ictx h = SHA256_Update c (map (\<lambda>b. 0x36 XOR b) (hmac_key 64 sha256_spec K))"
        "octx h = SHA256_Update d (map (\<lambda>b. 0x5c XOR b) (hmac_key 64 sha256_spec K))"
    using assms by (auto simp: hmac_keyed_def sha_hmac.keyed_def)
  have "sha_r (sha_count c) = 0" and "sha_r (sha_count d) = 0"
    using start SHA256_Init_def [of c] SHA256_Init_def [of d] by (auto simp: sha_start_def sha_r_eq dest!: arg_cong [where f = sha_count])
  then show "sha_inv (ictx h)" "sha_inv (octx h)" "sha_r (sha_count (ictx h)) = 0" "sha_r (sha_count (octx h)) = 0"
    using start sha_r_add [of "sha_count c" 64] sha_r_add [of "sha_count d" 64]
    by (simp_all add: h sha_start_def SHA256_Update_inv SHA256_Update_count sha_hmac.length_hmac_key)
qed

text \<open>The low bits of the count that the path saves and compares.\<close>

lemma low_count: "unat (c AND push_bit 3 0x3f :: u64) = 8 * sha_r c"
proof -
  have "c AND push_bit 3 0x3f = push_bit 3 (drop_bit 3 c AND 0x3f)"
  proof -
    have "(0x3f :: u64) = mask 6" by (simp add: mask_eq_exp_minus_1)
    then show ?thesis
      by (simp only:) (rule bit_word_eqI, simp only: bit_and_iff bit_push_bit_iff bit_drop_bit_eq comp_def
          bit_mask_iff, auto)
  qed
  moreover have "8 * unat (drop_bit 3 c AND 0x3f) < 2 ^ 64"
    using sha_r_less [of c] by (simp add: sha_r_def)
  ultimately show ?thesis
    by (simp add: sha_r_def push_bit_eq_mult unat_word_ariths)
qed

lemma unat_oldcount: "unat (ucast (c AND push_bit 3 0x3f :: u64) :: u32) = 8 * sha_r c"
proof -
  have "unat (ucast (c AND push_bit 3 0x3f :: u64) :: u32) = unat (c AND push_bit 3 0x3f :: u64) mod 2 ^ 32"
    by (simp add: unsigned_ucast_eq take_bit_eq_mod)
  then show ?thesis
    using sha_r_less [of c] unfolding low_count by simp
qed

lemma unat_widen: "unat (ucast (w :: u32) :: u64) = unat w"
  using unsigned_less [of w, where ?'a = nat] by (simp add: unsigned_ucast_eq take_bit_nat_eq_self)

lemma prepared_Pad_Almost:
  assumes "sha_inv c" and "sha_r (sha_count c) + n < 56"
    and d: "sha_inv d" "sha_state d = sha_state c" "sha_count d = sha_count c + push_bit 3 (of_nat n)"
      "length v = n" "sha_pend d = sha_pend c @ v"
  shows "fst (SHA256_Pad_Almost d) = 0" and "prepared c n (snd (SHA256_Pad_Almost d))"
proof -
  have r: "sha_r (sha_count d) = sha_r (sha_count c) + n"
    using assms(2) by (simp add: d(3) sha_r_add)
  obtain e where "SHA256_Pad_Almost d = (0, e)" "sha_state e = sha_state d"
      "sha_buf e = sha_pend d @ sha_padding (sha_r (sha_count d)) (sha_count d)"
    using SHA256_Pad_Almost_less [OF d(1)] assms(2) r by auto
  then show "fst (SHA256_Pad_Almost d) = 0" and "prepared c n (snd (SHA256_Pad_Almost d))"
    using r d by (auto simp: prepared_def)
qed

lemma pbkdf2_fast_correct:
  assumes n: "n mod 32 = 0" "length buf = n" and salt: "length S mod 64 \<le> 51"
  shows "pbkdf2_fast P S buf n = Inr (pbkdf2_spec P S 1 n)"
proof -
  let ?k = "HMAC_SHA256_Init uninit_hmac P"
  let ?h = "HMAC_SHA256_Update ?k S"
  let ?c = "ictx ?h" and ?o = "octx ?h"
  have key: "hmac_keyed P ?k"
    by (rule HMAC_SHA256_Init_keyed) (rule uninit_hmac_inv)
  have inv: "sha_inv ?c" "sha_inv ?o" and r: "sha_r (sha_count ?c) \<le> 51" "sha_r (sha_count ?o) = 0"
    using hmac_keyed_inv [OF key] salt
    by (simp_all add: HMAC_SHA256_Update_def SHA256_Update_inv SHA256_Update_count sha_r_add)
  let ?h1 = "HMAC_SHA256_Update ?h [0, 0, 0, 0]"
  let ?h2 = "?h1\<lparr>ictx := snd (SHA256_Pad_Almost (ictx ?h1))\<rparr>"
  let ?h3 = "?h2\<lparr>octx := (octx ?h2)\<lparr>sha_count := sha_count (octx ?h2) + push_bit 3 32\<rparr>\<rparr>"
  let ?g = "?h3\<lparr>octx := snd (SHA256_Pad_Almost (octx ?h3))\<rparr>"
  have r4: "sha_r (sha_count ?c) + length [0, 0, 0, 0 :: u8] < 64" using r(1) by simp
  have ipad: "fst (SHA256_Pad_Almost (ictx ?h1)) = 0" "prepared ?c 4 (snd (SHA256_Pad_Almost (ictx ?h1)))"
    using prepared_Pad_Almost [OF inv(1), of 4 "ictx ?h1" "[0, 0, 0, 0]"] r(1)
      SHA256_Update_short [OF inv(1) r4] SHA256_Update_inv [OF inv(1)]
    by (simp_all add: HMAC_SHA256_Update_def SHA256_Update_count)
  have "octx ?h3 = ?o\<lparr>sha_count := sha_count ?o + push_bit 3 (of_nat 32)\<rparr>"
    by (simp add: HMAC_SHA256_Update_def)
  then have opad: "prepared ?o 32 (octx ?g)"
    using prepared_Pad_Almost [OF inv(2), of 32 "octx ?h3" "take 32 (sha_buf ?o)"] r(2) inv(2) sha_r_add [of "sha_count ?o" 32]
    by (simp add: sha_inv_def sha_pend_def)
  have F: "fst (HMAC_SHA256_Final (HMAC_SHA256_Update ?h (be32enc (of_nat (i + 1))))) = rfc_F (sha_mac P) S 1 (i + 1)" for i
    by (simp only: HMAC_two_steps [OF key] rfc_F_def be32enc_eq) simp
  have loop: "pbkdf2_fast_loop ?g (sha_r (sha_count ?c)) n 0 buf = pbkdf2_spec P S 1 n"
    using pbkdf2_fast_loop_fills [OF inv r F [symmetric] _ n(1,2), of ?g 0] ipad(2) opad
    by (simp add: pbkdf2_spec_def length_rfc_F)
  have "sha_count (ictx ?h1) = sha_count ?c + push_bit 3 (of_nat 4)"
    by (simp add: HMAC_SHA256_Update_def SHA256_Update_count)
  then have "sha_r (sha_count (ictx ?h1)) = sha_r (sha_count ?c) + 4"
    using r(1) by (simp only: sha_r_add) simp
  then have "\<not> sha_count (ictx ?h1) AND push_bit 3 0x3f
      < ucast (ucast (sha_count ?c AND push_bit 3 0x3f) :: u32)"
    unfolding word_less_nat_alt low_count unat_widen unat_oldcount by simp
  moreover have "unat (drop_bit 3 (ucast (sha_count ?c AND push_bit 3 0x3f) :: u32)) = sha_r (sha_count ?c)"
    unfolding unat_drop_bit unat_oldcount by simp
  ultimately show ?thesis
    using ipad(1) loop by (simp only: pbkdf2_fast_def Let_def case_prod_beta if_False simp_thms)
qed

section \<open>The exported function\<close>

lemma PBKDF2_SHA256_generic_or_fast:
  assumes "length buf = n" and "n \<le> 32 * (2 ^ 32 - 1)" and "c \<noteq> - 1"
  shows "PBKDF2_SHA256 P S c buf n = Some (Inr (pbkdf2_spec P S (unat c) n))"
  using assms pbkdf2_fast_correct [of n buf S P] pbkdf2_generic_correct [of buf n c P S]
  by (auto simp: PBKDF2_SHA256_def and_31 and_63 split: sum.splits)

lemma pbkdf2_generic_diverges:
  assumes "0 < n"
  shows "pbkdf2_generic P S (- 1) buf n = None"
proof -
  have "pbkdf2_block Ph PSh (- 1) 0 = None" for Ph PSh
    by (simp add: pbkdf2_block_def Let_def pbkdf2_inner_diverges word_less_nat_alt
        unsigned_minus_1_eq_mask mask_eq_exp_minus_1)
  then show ?thesis
    using assms by (simp add: pbkdf2_generic_def Let_def pbkdf2_generic_loop.simps)
qed

section \<open>Properties\<close>

text \<open>HMAC-SHA256 over any pieces, with a key of any length (keys over 64 bytes are hashed
  first), is HMAC of RFC 2104 over the FIPS 180-4 hash.\<close>

theorem HMAC_SHA256_any_pieces:
  assumes "hmac_inv h"
  shows "fst (HMAC_SHA256_Final (foldl HMAC_SHA256_Update (HMAC_SHA256_Init h K) pieces))
    = hmac_spec 64 sha256_spec K (concat pieces)"
  by (rule HMAC_SHA256_digest) (rule HMAC_SHA256_Init_keyed [OF assms])

theorem HMAC_SHA256_any_pieces_witness:
  "fst (HMAC_SHA256_Final (foldl HMAC_SHA256_Update (HMAC_SHA256_Init uninit_hmac (replicate 100 9)) [[1], [2, 3]]))
    = hmac_spec 64 sha256_spec (replicate 100 9) [1, 2, 3]"
  using HMAC_SHA256_any_pieces [OF uninit_hmac_inv, of "replicate 100 9" "[[1], [2, 3]]"]
  by (simp only: concat.simps append.simps append_Nil2)

text \<open>C10: PBKDF2-HMAC-SHA256 fills the output, of any length up to the asserted bound, with the key
  of RFC 8018 for every iteration count but the largest \<open>uint64_t\<close>; both paths are covered, and a
  count of 0 acts as 1.\<close>

theorem PBKDF2_SHA256_correct:
  assumes "length buf = dkLen" and "dkLen \<le> 32 * (2 ^ 32 - 1)" and "c \<noteq> - 1"
  shows "PBKDF2_SHA256 passwd salt c buf dkLen = Some (Inr (pbkdf2_spec passwd salt (unat c) dkLen))"
  using assms by (rule PBKDF2_SHA256_generic_or_fast)

theorem PBKDF2_SHA256_correct_witness:
  "PBKDF2_SHA256 [1, 2] [3] 1 (replicate 64 0) 64 = Some (Inr (pbkdf2_spec [1, 2] [3] (unat (1 :: u64)) 64))
   \<and> PBKDF2_SHA256 [] [3] 2 (replicate 40 0) 40 = Some (Inr (pbkdf2_spec [] [3] (unat (2 :: u64)) 40))"
  by (intro conjI PBKDF2_SHA256_correct) simp_all

text \<open>C24: The fast path for one iteration never takes its jump to the generic path, and writes what
  the generic path would write, whatever the password, the salt (of an admitted length) and the
  buffer hold.\<close>

theorem PBKDF2_fast_path_equiv:
  assumes "length buf = dkLen" and "dkLen AND 31 = 0" and "length salt AND 63 \<le> 51"
  shows "\<exists>out. pbkdf2_fast passwd salt buf dkLen = Inr out \<and> pbkdf2_generic passwd salt 1 buf dkLen = Some out"
  using assms pbkdf2_fast_correct [of dkLen buf salt passwd] pbkdf2_generic_correct [of buf dkLen 1 passwd salt]
  by (simp add: and_31 and_63)

theorem PBKDF2_fast_path_equiv_witness:
  "\<exists>out. pbkdf2_fast [7] (replicate 115 1) (replicate 96 0) 96 = Inr out \<and>
     pbkdf2_generic [7] (replicate 115 1) 1 (replicate 96 0) 96 = Some out"
  by (rule PBKDF2_fast_path_equiv) simp_all

text \<open>C27: Exactly when the function fails to return: the inner loop counts a \<open>uint64_t\<close> up to \<open>c\<close>
  inclusive, so with \<open>c\<close> the largest value and any output asked for it runs for ever; in every other
  case the function returns or the assertion stops the program.\<close>

theorem PBKDF2_SHA256_termination:
  assumes "length buf = dkLen"
  shows "PBKDF2_SHA256 passwd salt c buf dkLen = None \<longleftrightarrow>
    c = - 1 \<and> 0 < dkLen \<and> dkLen \<le> 32 * (2 ^ 32 - 1)"
proof (cases "dkLen \<le> 32 * (2 ^ 32 - 1)")
  case True
  show ?thesis
  proof (cases "c = - 1")
    case c: True
    then show ?thesis
      using True pbkdf2_generic_diverges [of dkLen passwd salt buf]
      by (cases "dkLen = 0")
        (auto simp: PBKDF2_SHA256_def pbkdf2_generic_def Let_def pbkdf2_generic_loop.simps)
  next
    case False
    then show ?thesis
      using PBKDF2_SHA256_generic_or_fast [OF assms True False, of passwd salt] by simp
  qed
qed (simp add: PBKDF2_SHA256_def)

theorem PBKDF2_SHA256_termination_witness:
  "PBKDF2_SHA256 [1] [2] (- 1) [0, 0] 2 = None \<and> PBKDF2_SHA256 [1] [2] 5 [0, 0] 2 \<noteq> None"
  using PBKDF2_SHA256_termination [of "[0, 0]" 2] by simp

end
