(* ===== verification/Blake2b.thy ===== *)
theory Blake2b
  imports Streaming Endian
begin

text \<open>
  \<open>randomx/blake2/blake2b.c\<close>: BLAKE2b with its error returns, and Argon2's variable-length hash.
  A pointer argument that the code compares with \<open>NULL\<close> is an \<open>option\<close>; every function returns the
  C result (0 or -1) with the objects it changed. The second half states RFC 7693 (and \<open>H'\<close> of
  RFC 9106) and proves that the code computes them.
\<close>

section \<open>Constants and the state\<close>

definition blake2b_IV :: "u64 list" where
  "blake2b_IV = [
    0x6A09E667F3BCC908, 0xBB67AE8584CAA73B, 0x3C6EF372FE94F82B, 0xA54FF53A5F1D36F1,
    0x510E527FADE682D1, 0x9B05688C2B3E6C1F, 0x1F83D9ABFB41BD6B, 0x5BE0CD19137E2179]"

definition blake2b_sigma :: "nat list list" where
  "blake2b_sigma = [
    [0, 1, 2, 3, 4, 5, 6, 7, 8, 9, 10, 11, 12, 13, 14, 15],
    [14, 10, 4, 8, 9, 15, 13, 6, 1, 12, 0, 2, 11, 7, 5, 3],
    [11, 8, 12, 0, 5, 2, 15, 13, 10, 14, 3, 6, 7, 1, 9, 4],
    [7, 9, 3, 1, 13, 12, 11, 14, 2, 6, 5, 10, 4, 0, 15, 8],
    [9, 0, 5, 7, 2, 4, 10, 15, 14, 1, 11, 12, 6, 8, 3, 13],
    [2, 12, 6, 10, 0, 11, 8, 3, 4, 13, 7, 5, 15, 14, 1, 9],
    [12, 5, 1, 15, 14, 13, 4, 10, 0, 7, 6, 3, 9, 2, 8, 11],
    [13, 11, 7, 14, 12, 1, 3, 9, 5, 0, 15, 4, 8, 6, 2, 10],
    [6, 15, 14, 9, 11, 3, 0, 8, 12, 2, 13, 7, 1, 4, 10, 5],
    [10, 2, 8, 4, 7, 6, 1, 5, 15, 11, 9, 14, 3, 12, 13, 0],
    [0, 1, 2, 3, 4, 5, 6, 7, 8, 9, 10, 11, 12, 13, 14, 15],
    [14, 10, 4, 8, 9, 15, 13, 6, 1, 12, 0, 2, 11, 7, 5, 3]]"

record blake2b_param =
  P_digest_length :: u8
  P_key_length :: u8
  P_fanout :: u8
  P_depth :: u8
  P_leaf_length :: u32
  P_node_offset :: u64
  P_node_depth :: u8
  P_inner_length :: u8
  P_reserved :: bytes
  P_salt :: bytes
  P_personal :: bytes

record blake2b_state =
  b2_h :: "u64 list"
  b2_t :: "u64 list"
  b2_f :: "u64 list"
  b2_buf :: bytes
  b2_buflen :: u32
  b2_outlen :: u32
  b2_last_node :: u8

text \<open>The packed parameter block as the bytes the code reads from it (little-endian fields).\<close>

definition blake2b_param_bytes :: "blake2b_param \<Rightarrow> bytes" where
  "blake2b_param_bytes P =
     [P_digest_length P, P_key_length P, P_fanout P, P_depth P] @ store32 (P_leaf_length P) @
     store64 (P_node_offset P) @ [P_node_depth P, P_inner_length P] @ P_reserved P @ P_salt P @ P_personal P"

section \<open>Small operations\<close>

definition blake2b_set_lastnode :: "blake2b_state \<Rightarrow> blake2b_state" where
  "blake2b_set_lastnode S = S\<lparr>b2_f := (b2_f S)[1 := - 1]\<rparr>"

definition blake2b_set_lastblock :: "blake2b_state \<Rightarrow> blake2b_state" where
  "blake2b_set_lastblock S =
    (let S = (if b2_last_node S \<noteq> 0 then blake2b_set_lastnode S else S)
     in S\<lparr>b2_f := (b2_f S)[0 := - 1]\<rparr>)"

definition blake2b_increment_counter :: "blake2b_state \<Rightarrow> u64 \<Rightarrow> blake2b_state" where
  "blake2b_increment_counter S inc =
    (let S = S\<lparr>b2_t := (b2_t S)[0 := b2_t S ! 0 + inc]\<rparr>
     in S\<lparr>b2_t := (b2_t S)[1 := b2_t S ! 1 + (if b2_t S ! 0 < inc then 1 else 0)]\<rparr>)"

definition blake2b_invalidate_state :: "blake2b_state \<Rightarrow> blake2b_state" where
  "blake2b_invalidate_state S = blake2b_set_lastblock S"

definition blake2b_init0 :: "blake2b_state \<Rightarrow> blake2b_state" where
  "blake2b_init0 S =
     \<lparr>b2_h = blake2b_IV, b2_t = [0, 0], b2_f = [0, 0], b2_buf = replicate 128 0,
      b2_buflen = 0, b2_outlen = 0, b2_last_node = 0\<rparr>"

section \<open>The compression function\<close>

definition blake2b_G ::
    "u64 list \<Rightarrow> nat \<Rightarrow> nat \<Rightarrow> nat \<Rightarrow> nat \<Rightarrow> nat \<Rightarrow> nat \<Rightarrow> u64 list \<Rightarrow> u64 list" where
  "blake2b_G m r i a b c d v =
    (let v = v[a := v ! a + v ! b + m ! (blake2b_sigma ! r ! (2 * i + 0))];
         v = v[d := rotr64 (v ! d XOR v ! a) 32];
         v = v[c := v ! c + v ! d];
         v = v[b := rotr64 (v ! b XOR v ! c) 24];
         v = v[a := v ! a + v ! b + m ! (blake2b_sigma ! r ! (2 * i + 1))];
         v = v[d := rotr64 (v ! d XOR v ! a) 16];
         v = v[c := v ! c + v ! d]
     in v[b := rotr64 (v ! b XOR v ! c) 63])"

definition blake2b_ROUND :: "u64 list \<Rightarrow> u64 list \<Rightarrow> nat \<Rightarrow> u64 list" where
  "blake2b_ROUND m v r =
    (let v = blake2b_G m r 0 0 4 8 12 v;
         v = blake2b_G m r 1 1 5 9 13 v;
         v = blake2b_G m r 2 2 6 10 14 v;
         v = blake2b_G m r 3 3 7 11 15 v;
         v = blake2b_G m r 4 0 5 10 15 v;
         v = blake2b_G m r 5 1 6 11 12 v;
         v = blake2b_G m r 6 2 7 8 13 v
     in blake2b_G m r 7 3 4 9 14 v)"

definition rx_blake2b_compress_integer :: "blake2b_state \<Rightarrow> bytes \<Rightarrow> blake2b_state" where
  "rx_blake2b_compress_integer S block =
    (let m = map (\<lambda>i. load64 (sub (i * 8) 8 block)) [0..<16];
         v = b2_h S @
           [blake2b_IV ! 0, blake2b_IV ! 1, blake2b_IV ! 2, blake2b_IV ! 3,
            blake2b_IV ! 4 XOR b2_t S ! 0, blake2b_IV ! 5 XOR b2_t S ! 1,
            blake2b_IV ! 6 XOR b2_f S ! 0, blake2b_IV ! 7 XOR b2_f S ! 1];
         v = for_range 0 12 (blake2b_ROUND m) v
     in S\<lparr>b2_h := map (\<lambda>i. b2_h S ! i XOR v ! i XOR v ! (i + 8)) [0..<8]\<rparr>)"

section \<open>Initialisation\<close>

definition rx_blake2b_init_param ::
    "blake2b_state option \<Rightarrow> blake2b_param option \<Rightarrow> int \<times> blake2b_state option" where
  "rx_blake2b_init_param S P =
    (case (P, S) of
       (Some P, Some S) \<Rightarrow>
         let p = blake2b_param_bytes P;
             S = blake2b_init0 S;
             S = S\<lparr>b2_h := map (\<lambda>i. b2_h S ! i XOR load64 (sub (i * 8) 8 p)) [0..<8]\<rparr>;
             S = S\<lparr>b2_outlen := ucast (P_digest_length P)\<rparr>
         in (0, Some S)
     | _ \<Rightarrow> (- 1, S))"

definition blake2b_param_for :: "nat \<Rightarrow> nat \<Rightarrow> blake2b_param" where
  "blake2b_param_for outlen keylen =
     \<lparr>P_digest_length = of_nat outlen, P_key_length = of_nat keylen, P_fanout = 1, P_depth = 1, P_leaf_length = 0,
      P_node_offset = 0, P_node_depth = 0, P_inner_length = 0, P_reserved = replicate 14 0,
      P_salt = replicate 16 0, P_personal = replicate 16 0\<rparr>"

definition rx_blake2b_init :: "blake2b_state option \<Rightarrow> nat \<Rightarrow> int \<times> blake2b_state option" where
  "rx_blake2b_init S outlen =
    (case S of
       None \<Rightarrow> (- 1, None)
     | Some s \<Rightarrow>
         if outlen = 0 \<or> outlen > 64 then (- 1, Some (blake2b_invalidate_state s))
         else rx_blake2b_init_param (Some s) (Some (blake2b_param_for outlen 0)))"

section \<open>Update and finalisation\<close>

text \<open>\<open>while (inlen > BLAKE2B_BLOCKBYTES)\<close>: the input left when it ends is kept in the buffer.\<close>

function blake2b_update_blocks :: "blake2b_state \<Rightarrow> bytes \<Rightarrow> blake2b_state \<times> bytes" where
  "blake2b_update_blocks S pin =
     (if length pin > 128 then
        let S = blake2b_increment_counter S 128;
            S = rx_blake2b_compress_integer S (take 128 pin)
        in blake2b_update_blocks S (drop 128 pin)
      else (S, pin))"
  by pat_completeness auto
termination
  by (relation "measure (\<lambda>(S, pin). length pin)") auto

declare blake2b_update_blocks.simps [simp del]

text \<open>The branch that completes the buffered block, when the data goes past it.\<close>

definition blake2b_fill :: "blake2b_state \<Rightarrow> bytes \<Rightarrow> blake2b_state \<times> bytes" where
  "blake2b_fill S pin =
     (if unat (b2_buflen S) + length pin > 128 then
        let left = unat (b2_buflen S);
            fill = 128 - left;
            S = S\<lparr>b2_buf := blit (b2_buf S) left (take fill pin)\<rparr>;
            S = blake2b_increment_counter S 128;
            S = rx_blake2b_compress_integer S (b2_buf S);
            S = S\<lparr>b2_buflen := 0\<rparr>
        in blake2b_update_blocks S (drop fill pin)
      else (S, pin))"

definition rx_blake2b_update ::
    "blake2b_state option \<Rightarrow> bytes option \<Rightarrow> nat \<Rightarrow> int \<times> blake2b_state option" where
  "rx_blake2b_update S inp inlen =
    (if inlen = 0 then (0, S)
     else case (S, inp) of
       (Some s, Some pin) \<Rightarrow>
         if b2_f s ! 0 \<noteq> 0 then (- 1, Some s)
         else
           let (s, pin) = blake2b_fill s (take inlen pin);
               s = s\<lparr>b2_buf := blit (b2_buf s) (unat (b2_buflen s)) pin\<rparr>
           in (0, Some (s\<lparr>b2_buflen := b2_buflen s + of_nat (length pin)\<rparr>))
     | _ \<Rightarrow> (- 1, S))"

definition rx_blake2b_init_key ::
    "blake2b_state option \<Rightarrow> nat \<Rightarrow> bytes option \<Rightarrow> nat \<Rightarrow> int \<times> blake2b_state option" where
  "rx_blake2b_init_key S outlen key keylen =
    (case S of
       None \<Rightarrow> (- 1, None)
     | Some s \<Rightarrow>
         if outlen = 0 \<or> outlen > 64 then (- 1, Some (blake2b_invalidate_state s))
         else case key of
           None \<Rightarrow> (- 1, Some (blake2b_invalidate_state s))
         | Some k \<Rightarrow>
             if keylen = 0 \<or> keylen > 64 then (- 1, Some (blake2b_invalidate_state s))
             else
               let (e, S) = rx_blake2b_init_param (Some s) (Some (blake2b_param_for outlen keylen))
               in if e < 0 then (- 1, map_option blake2b_invalidate_state S)
                  else
                    let block = blit (replicate 128 0) 0 (take keylen k)
                    in (0, snd (rx_blake2b_update S (Some block) 128)))"

text \<open>The result, the output object and the state.\<close>

definition rx_blake2b_final ::
    "blake2b_state option \<Rightarrow> bytes option \<Rightarrow> nat \<Rightarrow> int \<times> bytes option \<times> blake2b_state option" where
  "rx_blake2b_final S out outlen =
    (case (S, out) of
       (Some s, Some dst) \<Rightarrow>
         if outlen < unat (b2_outlen s) then (- 1, out, S)
         else if b2_f s ! 0 \<noteq> 0 then (- 1, out, S)
         else
           let s = blake2b_increment_counter s (ucast (b2_buflen s));
               s = blake2b_set_lastblock s;
               n = unat (b2_buflen s);
               s = s\<lparr>b2_buf := blit (b2_buf s) n (replicate (128 - n) 0)\<rparr>;
               s = rx_blake2b_compress_integer s (b2_buf s);
               buffer = concat (map (\<lambda>i. store64 (b2_h s ! i)) [0..<8])
           in (0, Some (blit dst 0 (take (unat (b2_outlen s)) buffer)), Some s)
     | _ \<Rightarrow> (- 1, out, S))"

section \<open>The one-shot functions\<close>

text \<open>A state on the stack before initialisation.\<close>

definition uninit_blake2b :: blake2b_state where
  "uninit_blake2b = \<lparr>b2_h = replicate 8 0, b2_t = [0, 0], b2_f = [0, 0], b2_buf = replicate 128 0,
     b2_buflen = 0, b2_outlen = 0, b2_last_node = 0\<rparr>"

definition rx_blake2b :: "bytes option \<Rightarrow> nat \<Rightarrow> bytes option \<Rightarrow> nat \<Rightarrow> int \<times> bytes option" where
  "rx_blake2b out outlen inp inlen =
    (if inp = None \<and> inlen > 0 then (- 1, out)
     else if out = None \<or> outlen = 0 \<or> outlen > 64 then (- 1, out)
     else
       let (e, S) = rx_blake2b_init (Some uninit_blake2b) outlen
       in if e < 0 then (- 1, out)
          else
            let (e, S) = rx_blake2b_update S inp inlen
            in if e < 0 then (- 1, out)
               else let (e, out, S) = rx_blake2b_final S out outlen in (e, out))"

text \<open>The loop of \<open>rxa2_blake2b_long\<close>: \<open>pos\<close> is \<open>out\<close> as an offset, \<open>n\<close> is \<open>toproduce\<close>.\<close>

function blake2b_long_loop :: "bytes \<Rightarrow> nat \<Rightarrow> bytes \<Rightarrow> nat \<Rightarrow> int \<times> bytes" where
  "blake2b_long_loop out_buffer pos out n =
     (if n > 64 then
        let (e, ob) = rx_blake2b (Some out_buffer) 64 (Some out_buffer) 64
        in if e < 0 then (e, out)
           else blake2b_long_loop (the ob) (pos + 32) (blit out pos (take 32 (the ob))) (n - 32)
      else
        let (e, ob) = rx_blake2b (Some out_buffer) n (Some out_buffer) 64
        in if e < 0 then (e, out) else (e, blit out pos (take n (the ob))))"
  by pat_completeness auto
termination
  by (relation "measure (\<lambda>(b, p, out, n). n)") auto

declare blake2b_long_loop.simps [simp del]

definition rxa2_blake2b_long :: "bytes \<Rightarrow> nat \<Rightarrow> bytes option \<Rightarrow> nat \<Rightarrow> int \<times> bytes" where
  "rxa2_blake2b_long out outlen inp inlen =
    (if outlen > 2 ^ 32 - 1 then (- 1, out)
     else
       let outlen_bytes = store32 (of_nat outlen);
           n = (if outlen \<le> 64 then outlen else 64);
           (e, S) = rx_blake2b_init (Some uninit_blake2b) n
       in if e < 0 then (e, out)
          else let (e, S) = rx_blake2b_update S (Some outlen_bytes) 4
          in if e < 0 then (e, out)
          else let (e, S) = rx_blake2b_update S inp inlen
          in if e < 0 then (e, out)
          else if outlen \<le> 64 then
            let (e, ob, S) = rx_blake2b_final S (Some out) outlen in (e, the ob)
          else
            let (e, ob, S) = rx_blake2b_final S (Some (replicate 64 0)) 64
            in if e < 0 then (e, out)
               else blake2b_long_loop (the ob) 32 (blit out 0 (take 32 (the ob))) (outlen - 32))"

section \<open>BLAKE2b of RFC 7693\<close>

text \<open>The mixing function \<open>G\<close> on the local work vector.\<close>

definition spec_G :: "nat \<Rightarrow> nat \<Rightarrow> nat \<Rightarrow> nat \<Rightarrow> u64 \<Rightarrow> u64 \<Rightarrow> u64 list \<Rightarrow> u64 list" where
  "spec_G a b c d x y v =
    (let v = v[a := v ! a + v ! b + x];
         v = v[d := word_rotr 32 (v ! d XOR v ! a)];
         v = v[c := v ! c + v ! d];
         v = v[b := word_rotr 24 (v ! b XOR v ! c)];
         v = v[a := v ! a + v ! b + y];
         v = v[d := word_rotr 16 (v ! d XOR v ! a)];
         v = v[c := v ! c + v ! d]
     in v[b := word_rotr 63 (v ! b XOR v ! c)])"

text \<open>A round: \<open>G\<close> on the four columns and the four diagonals, with message schedule \<open>r mod 10\<close>.\<close>

definition spec_positions :: "(nat \<times> nat \<times> nat \<times> nat) list" where
  "spec_positions = [(0, 4, 8, 12), (1, 5, 9, 13), (2, 6, 10, 14), (3, 7, 11, 15),
     (0, 5, 10, 15), (1, 6, 11, 12), (2, 7, 8, 13), (3, 4, 9, 14)]"

definition spec_round :: "u64 list \<Rightarrow> u64 list \<Rightarrow> nat \<Rightarrow> u64 list" where
  "spec_round m v r =
    (let s = blake2b_sigma ! (r mod 10)
     in foldl (\<lambda>v (i, (a, b, c, d)). spec_G a b c d (m ! (s ! (2 * i))) (m ! (s ! (2 * i + 1))) v)
          v (zip [0..<8] spec_positions))"

text \<open>The compression function: state, block, 128-bit offset counter, final flag.\<close>

definition spec_F :: "u64 list \<Rightarrow> bytes \<Rightarrow> nat \<Rightarrow> bool \<Rightarrow> u64 list" where
  "spec_F h block t f =
    (let m = map (\<lambda>i. word_of_le (sub (8 * i) 8 block)) [0..<16];
         v = h @ blake2b_IV;
         v = v[12 := v ! 12 XOR of_nat t];
         v = v[13 := v ! 13 XOR of_nat (t div 2 ^ 64)];
         v = (if f then v[14 := NOT (v ! 14)] else v);
         v = for_range 0 12 (spec_round m) v
     in map (\<lambda>i. h ! i XOR v ! i XOR v ! (i + 8)) [0..<8])"

text \<open>All blocks but the last are compressed with the bytes so far; the last is padded with zeros.\<close>

function spec_blocks :: "u64 list \<Rightarrow> nat \<Rightarrow> bytes \<Rightarrow> u64 list" where
  "spec_blocks h t d =
     (if length d \<le> 128 then spec_F h (d @ replicate (128 - length d) 0) (t + length d) True
      else spec_blocks (spec_F h (take 128 d) (t + 128) False) (t + 128) (drop 128 d))"
  by pat_completeness auto
termination
  by (relation "measure (\<lambda>(h, t, d). length d)") auto

declare spec_blocks.simps [simp del]

text \<open>A key (up to 64 bytes) is padded to a block of its own in front of the data.\<close>

definition blake2b_spec :: "nat \<Rightarrow> bytes \<Rightarrow> bytes \<Rightarrow> bytes" where
  "blake2b_spec nn key d =
    (let h = blake2b_IV[0 := blake2b_IV ! 0 XOR 0x01010000 XOR push_bit 8 (of_nat (length key)) XOR of_nat nn];
         d = (if key = [] then d else key @ replicate (128 - length key) 0 @ d)
     in take nn (concat (map (le_of_word 8) (spec_blocks h 0 d))))"

section \<open>The compression function\<close>

lemma length_blake2b_G [simp]: "length (blake2b_G m r i a b c d v) = length v"
  by (simp add: blake2b_G_def Let_def)

lemma length_blake2b_ROUND [simp]: "length (blake2b_ROUND m v r) = length v"
  by (simp add: blake2b_ROUND_def Let_def)

lemma blake2b_rotations:
  "rotr64 w 32 = word_rotr 32 w" "rotr64 w 24 = word_rotr 24 w"
  "rotr64 w 16 = word_rotr 16 w" "rotr64 w 63 = word_rotr 63 w"
  by (simp_all add: rotr64_eq)

lemma blake2b_G_spec:
  assumes "r < 12"
  shows "blake2b_G m r i a b c d v
    = spec_G a b c d (m ! (blake2b_sigma ! (r mod 10) ! (2 * i))) (m ! (blake2b_sigma ! (r mod 10) ! (2 * i + 1))) v"
proof -
  have "blake2b_sigma ! r = blake2b_sigma ! (r mod 10)"
  proof (cases "r < 10")
    case False
    then have "r = 10 \<or> r = 11" using assms by auto
    then show ?thesis by (auto simp: blake2b_sigma_def)
  qed simp
  then show ?thesis by (simp only: blake2b_G_def spec_G_def blake2b_rotations add_0_right)
qed

lemma upt_8_list: "[0..<8] = [0, 1, 2, 3, 4, 5, 6, 7]"
  by (simp add: upt_rec numeral_eq_Suc)

lemma blake2b_ROUND_spec: "r < 12 \<Longrightarrow> blake2b_ROUND m v r = spec_round m v r"
  by (simp only: blake2b_ROUND_def spec_round_def blake2b_G_spec Let_def upt_8_list spec_positions_def
      zip_Cons_Cons zip_Nil foldl.simps prod.case)

text \<open>The two counter words as one number.\<close>

definition b2_count :: "u64 list \<Rightarrow> nat" where
  "b2_count t = unat (t ! 0) + 2 ^ 64 * unat (t ! 1)"

text \<open>The carry of the code makes the two words a 128-bit counter.\<close>

lemma increment_counter_count:
  assumes "length (b2_t S) = 2"
  shows "b2_count (b2_t (blake2b_increment_counter S inc)) = (b2_count (b2_t S) + unat inc) mod 2 ^ 128"
proof -
  obtain a b where t: "b2_t S = [a, b]"
    using assms by (auto simp: numeral_2_eq_2 length_Suc_conv)
  have lt: "unat a < 2 ^ 64" "unat b < 2 ^ 64" "unat inc < 2 ^ 64"
    using unsigned_less [of a, where ?'a = nat] unsigned_less [of b, where ?'a = nat]
      unsigned_less [of inc, where ?'a = nat] by simp_all
  let ?c = "if a + inc < inc then 1 else 0 :: nat"
  have c: "unat (a + inc) + 2 ^ 64 * ?c = unat a + unat inc"
  proof (cases "unat a + unat inc < 2 ^ 64")
    case True
    then show ?thesis using lt by (simp add: word_less_nat_alt unat_word_ariths)
  next
    case False
    then have "(unat a + unat inc) mod 2 ^ 64 = unat a + unat inc - 2 ^ 64"
      using lt by (subst le_mod_geq) auto
    with False lt show ?thesis by (simp add: word_less_nat_alt unat_word_ariths)
  qed
  have "b2_count (b2_t (blake2b_increment_counter S inc))
      = unat (a + inc) + 2 ^ 64 * ((unat b + ?c) mod 2 ^ 64)"
    by (simp add: blake2b_increment_counter_def b2_count_def t unat_word_ariths)
  also have "\<dots> = (unat (a + inc) + 2 ^ 64 * (unat b + ?c)) mod (2 ^ 64 * 2 ^ 64)"
    by (rule mod_two_digits [symmetric]) (use unsigned_less [of "a + inc", where ?'a = nat] in simp)
  also have "unat (a + inc) + 2 ^ 64 * (unat b + ?c) = unat a + 2 ^ 64 * unat b + unat inc"
    using c by (simp add: algebra_simps)
  finally show ?thesis by (simp add: b2_count_def t)
qed

lemma counter_words:
  assumes "b2_count t = n mod 2 ^ 128"
  shows "of_nat n = t ! 0" and "of_nat (n div 2 ^ 64) = t ! 1"
proof -
  have lt: "unat (t ! 0) < 2 ^ 64" "unat (t ! 1) < 2 ^ 64"
    using unsigned_less [of "t ! 0", where ?'a = nat] unsigned_less [of "t ! 1", where ?'a = nat] by simp_all
  have n: "n mod (2 ^ 64 * 2 ^ 64) = unat (t ! 0) + 2 ^ 64 * unat (t ! 1)"
    using assms by (simp add: b2_count_def)
  have "n mod 2 ^ 64 = n mod (2 ^ 64 * 2 ^ 64) mod 2 ^ 64"
    by (simp only: mod_mult_right_eq mod_mod_cancel dvd_triv_left)
  also have "\<dots> = unat (t ! 0)" unfolding n using lt(1) by simp
  finally show "of_nat n = t ! 0"
    by (simp add: word_unat_eq_iff unat_of_nat)
  have "n div 2 ^ 64 mod 2 ^ 64 = n mod (2 ^ 64 * 2 ^ 64) div 2 ^ 64"
    by (rule mod_mult_div [symmetric]) simp
  also have "\<dots> = unat (t ! 1)" unfolding n using lt(1) by simp
  finally show "of_nat (n div 2 ^ 64) = t ! 1"
    by (simp add: word_unat_eq_iff unat_of_nat)
qed

definition b2_flags :: "bool \<Rightarrow> u64 list" where
  "b2_flags fin = [if fin then - 1 else 0, 0]"

lemma compress_spec:
  assumes "length (b2_h S) = 8" and "b2_count (b2_t S) = n mod 2 ^ 128" and "b2_f S = b2_flags fin"
    and "length block = 128"
  shows "rx_blake2b_compress_integer S block = S\<lparr>b2_h := spec_F (b2_h S) block n fin\<rparr>"
proof -
  let ?m = "map (\<lambda>i. load64 (sub (i * 8) 8 block)) [0..<16]"
  have m: "?m = map (\<lambda>i. word_of_le (sub (8 * i) 8 block)) [0..<16]"
    using assms(4) by (auto simp: load64_word mult.commute)
  have rounds: "for_range 0 12 (blake2b_ROUND M) v = for_range 0 12 (spec_round M) v" for M v
    by (rule for_range_cong) (simp_all add: blake2b_ROUND_spec)
  obtain a b c d e f g h where H: "b2_h S = [a, b, c, d, e, f, g, h]"
    using list_8 [OF assms(1)] by blast
  have v: "b2_h S @ [blake2b_IV ! 0, blake2b_IV ! 1, blake2b_IV ! 2, blake2b_IV ! 3,
      blake2b_IV ! 4 XOR b2_t S ! 0, blake2b_IV ! 5 XOR b2_t S ! 1,
      blake2b_IV ! 6 XOR b2_f S ! 0, blake2b_IV ! 7 XOR b2_f S ! 1]
    = (let v = b2_h S @ blake2b_IV; v = v[12 := v ! 12 XOR of_nat n];
         v = v[13 := v ! 13 XOR of_nat (n div 2 ^ 64)]
       in if fin then v[14 := NOT (v ! 14)] else v)"
    using counter_words [OF assms(2)]
    by (simp add: H assms(3) b2_flags_def blake2b_IV_def Let_def)
  show ?thesis
    by (simp only: rx_blake2b_compress_integer_def spec_F_def Let_def v rounds m)
qed


section \<open>The buffer\<close>

text \<open>The state words, the two counter words and the pending data.\<close>

definition b2_core :: "blake2b_state \<Rightarrow> u64 list \<times> u64 list" where
  "b2_core S = (b2_h S, b2_t S)"

definition b2_pend :: "blake2b_state \<Rightarrow> bytes" where
  "b2_pend S = take (unat (b2_buflen S)) (b2_buf S)"

definition b2_inv :: "blake2b_state \<Rightarrow> bool" where
  "b2_inv S \<longleftrightarrow> length (b2_h S) = 8 \<and> length (b2_t S) = 2 \<and> b2_f S = [0, 0] \<and>
     length (b2_buf S) = 128 \<and> unat (b2_buflen S) \<le> 128 \<and> unat (b2_outlen S) \<le> 64 \<and> b2_last_node S = 0"

text \<open>Count a block and compress it, on the core alone.\<close>

definition b2_mix :: "u64 list \<times> u64 list \<Rightarrow> bytes \<Rightarrow> u64 list \<times> u64 list" where
  "b2_mix k block = b2_core (rx_blake2b_compress_integer
     (blake2b_increment_counter (uninit_blake2b\<lparr>b2_h := fst k, b2_t := snd k\<rparr>) 128) block)"

text \<open>The update of a live state, as a total function.\<close>

definition b2_upd :: "blake2b_state \<Rightarrow> bytes \<Rightarrow> blake2b_state" where
  "b2_upd S xs = the (snd (rx_blake2b_update (Some S) (Some xs) (length xs)))"

lemma increment_counter_frame:
  "blake2b_increment_counter S n = S\<lparr>b2_t := b2_t (blake2b_increment_counter S n)\<rparr>"
  by (simp add: blake2b_increment_counter_def Let_def)

lemma length_increment_counter [simp]: "length (b2_t (blake2b_increment_counter S n)) = length (b2_t S)"
  by (simp add: blake2b_increment_counter_def Let_def)

lemma compress_frame:
  "rx_blake2b_compress_integer S b = S\<lparr>b2_h := b2_h (rx_blake2b_compress_integer S b)\<rparr>"
  by (simp add: rx_blake2b_compress_integer_def Let_def)

lemma length_compress [simp]: "length (b2_h (rx_blake2b_compress_integer S b)) = 8"
  by (simp add: rx_blake2b_compress_integer_def Let_def)

lemma mix_frame:
  assumes "b2_f S = [0, 0]"
  shows "rx_blake2b_compress_integer (blake2b_increment_counter S 128) b
    = S\<lparr>b2_h := fst (b2_mix (b2_core S) b), b2_t := snd (b2_mix (b2_core S) b)\<rparr>"
  using assms by (simp add: b2_mix_def b2_core_def rx_blake2b_compress_integer_def
      blake2b_increment_counter_def uninit_blake2b_def Let_def)

lemma length_b2_mix [simp]:
  "length (fst (b2_mix k b)) = 8" "length (snd (b2_mix k b)) = length (snd k)"
  by (simp_all add: b2_mix_def b2_core_def) (subst compress_frame, simp)

lemma update_blocks_absorb:
  "b2_f S = [0, 0] \<Longrightarrow> blake2b_update_blocks S xs
    = (let (k, rest) = absorb 128 1 b2_mix (b2_core S) xs in (S\<lparr>b2_h := fst k, b2_t := snd k\<rparr>, rest))"
proof (induction S xs rule: blake2b_update_blocks.induct)
  case (1 S xs)
  show ?case
  proof (cases "128 < length xs")
    case True
    then show ?thesis
      using 1 by (simp add: blake2b_update_blocks.simps [of S] absorb_step mix_frame b2_core_def Let_def
          case_prod_beta)
  next
    case False
    then show ?thesis by (simp add: blake2b_update_blocks.simps b2_core_def)
  qed
qed

lemma length_b2_pend: "b2_inv S \<Longrightarrow> length (b2_pend S) = unat (b2_buflen S)"
  by (simp add: b2_inv_def b2_pend_def)

lemma b2_upd_fill:
  assumes "b2_inv S"
  shows "b2_upd S xs = (let (s, pin) = blake2b_fill S xs
    in s\<lparr>b2_buf := blit (b2_buf s) (unat (b2_buflen s)) pin, b2_buflen := b2_buflen s + of_nat (length pin)\<rparr>)"
proof (cases "xs = []")
  case True
  then show ?thesis
    using assms by (simp add: b2_upd_def rx_blake2b_update_def blake2b_fill_def b2_inv_def)
next
  case False
  then show ?thesis
    using assms by (simp add: b2_upd_def rx_blake2b_update_def b2_inv_def case_prod_beta Let_def)
qed

lemma b2_upd_short:
  assumes "b2_inv S" and "length (b2_pend S) + length xs \<le> 128"
  shows "b2_upd S xs = S\<lparr>b2_buf := blit (b2_buf S) (unat (b2_buflen S)) xs,
      b2_buflen := b2_buflen S + of_nat (length xs)\<rparr>"
  using assms by (simp add: b2_upd_fill blake2b_fill_def length_b2_pend)

lemma blake2b_fill_absorb:
  assumes "b2_inv S" and "128 < length (b2_pend S) + length xs"
    and "absorb 128 1 b2_mix (b2_core S) (b2_pend S @ xs) = (k, rest)"
  obtains b where "length b = 128" and
    "blake2b_fill S xs = (S\<lparr>b2_buf := b, b2_h := fst k, b2_t := snd k, b2_buflen := 0\<rparr>, rest)"
proof -
  let ?n = "unat (b2_buflen S)"
  let ?b = "b2_pend S @ take (128 - ?n) xs"
  have S: "b2_f S = [0, 0]" "length (b2_buf S) = 128" "?n \<le> 128" "length (b2_pend S) = ?n"
    using assms(1) by (simp_all add: b2_inv_def length_b2_pend)
  have blit: "blit (b2_buf S) ?n (take (128 - ?n) xs) = ?b"
    using S assms(2) by (simp add: blit_def b2_pend_def)
  have b: "length ?b = 128" using S assms(2) by simp
  have mix: "rx_blake2b_compress_integer (blake2b_increment_counter (S\<lparr>b2_buf := ?b\<rparr>) 128) ?b
    = S\<lparr>b2_buf := ?b, b2_h := fst (b2_mix (b2_core S) ?b), b2_t := snd (b2_mix (b2_core S) ?b)\<rparr>"
    using mix_frame [of "S\<lparr>b2_buf := ?b\<rparr>" ?b] S(1) by (simp add: b2_core_def)
  have buf: "b2_buf (blake2b_increment_counter (S\<lparr>b2_buf := ?b\<rparr>) 128) = ?b"
    by (subst increment_counter_frame) simp
  let ?S1 = "S\<lparr>b2_buf := ?b, b2_h := fst (b2_mix (b2_core S) ?b), b2_t := snd (b2_mix (b2_core S) ?b), b2_buflen := 0\<rparr>"
  have fill: "blake2b_fill S xs = blake2b_update_blocks ?S1 (drop (128 - ?n) xs)"
    using S assms(2) by (simp add: blake2b_fill_def Let_def blit buf mix)
  have "b2_pend S @ xs = ?b @ drop (128 - ?n) xs" by simp
  then have "absorb 128 1 b2_mix (b2_core S) (b2_pend S @ xs)
      = absorb 128 1 b2_mix (b2_mix (b2_core S) ?b) (drop (128 - ?n) xs)"
    using b S assms(2) by (simp only:) (rule absorb_block, simp_all)
  then have "absorb 128 1 b2_mix (b2_core ?S1) (drop (128 - ?n) xs) = (k, rest)"
    using assms(3) by (simp add: b2_core_def)
  then show ?thesis
    using b S(1) by (intro that [of ?b]) (simp_all add: fill update_blocks_absorb)
qed

lemma b2_upd_long:
  assumes "b2_inv S" and "128 < length (b2_pend S) + length xs"
    and "absorb 128 1 b2_mix (b2_core S) (b2_pend S @ xs) = (k, rest)"
  obtains b where "length b = 128" and "take (length rest) b = rest" and "length rest \<le> 128" and
    "b2_upd S xs = S\<lparr>b2_buf := b, b2_h := fst k, b2_t := snd k, b2_buflen := of_nat (length rest)\<rparr>"
proof -
  have rest: "length rest \<le> 128"
    using absorb_rest_less [of 128 1 b2_mix "b2_core S" "b2_pend S @ xs"] assms(3) by simp
  obtain b where "length b = 128"
      "blake2b_fill S xs = (S\<lparr>b2_buf := b, b2_h := fst k, b2_t := snd k, b2_buflen := 0\<rparr>, rest)"
    using blake2b_fill_absorb [OF assms] .
  then show ?thesis
    using rest by (intro that [of "blit b 0 rest"]) (simp_all add: b2_upd_fill [OF assms(1)] buf_simps)
qed

lemma unat_u32: "n < 2 ^ 32 \<Longrightarrow> unat (of_nat n :: u32) = n"
  by (simp add: unat_of_nat)

lemma b2_upd_absorb:
  assumes "b2_inv S"
  shows "(b2_core (b2_upd S xs), b2_pend (b2_upd S xs)) = absorb 128 1 b2_mix (b2_core S) (b2_pend S @ xs)
    \<and> b2_inv (b2_upd S xs)"
proof (cases "length (b2_pend S) + length xs \<le> 128")
  case True
  have "unat (b2_buflen S + of_nat (length xs)) = length (b2_pend S) + length xs"
    using True assms by (simp add: unat_add_of_nat length_b2_pend)
  with True assms show ?thesis
    by (simp add: b2_upd_short b2_core_def b2_inv_def)
      (simp add: b2_pend_def buf_simps b2_inv_def)
next
  case False
  obtain k rest where a: "absorb 128 1 b2_mix (b2_core S) (b2_pend S @ xs) = (k, rest)"
    by (cases "absorb 128 1 b2_mix (b2_core S) (b2_pend S @ xs)")
  have "length (fst k) = 8 \<and> length (snd k) = 2"
    using absorb_invariant [of "\<lambda>k. length (fst k) = 8 \<and> length (snd k) = 2" "b2_core S" 128 b2_mix 1 "b2_pend S @ xs"]
      assms a by (simp add: b2_core_def b2_inv_def)
  moreover obtain b where "length b = 128" "take (length rest) b = rest" "length rest \<le> 128"
      "b2_upd S xs = S\<lparr>b2_buf := b, b2_h := fst k, b2_t := snd k, b2_buflen := of_nat (length rest)\<rparr>"
    using b2_upd_long [OF assms _ a] False by (auto simp: not_le)
  ultimately show ?thesis
    using assms a by (simp add: b2_core_def b2_pend_def b2_inv_def unat_u32)
qed

lemma b2_upd_outlen: "b2_inv S \<Longrightarrow> b2_outlen (b2_upd S xs) = b2_outlen S"
  by (cases "length (b2_pend S) + length xs \<le> 128")
    (auto simp: b2_upd_short not_le elim: b2_upd_long [OF _ _ prod.collapse [symmetric]])

lemma b2_pend_less: "b2_inv S \<Longrightarrow> length (b2_pend S) < 128 + 1"
  by (simp add: length_b2_pend) (simp add: b2_inv_def)

interpretation b2: counted_buffer 128 1 b2_mix b2_upd b2_core b2_pend b2_inv b2_outlen "\<lambda>n _. n"
  by unfold_locales (simp_all add: b2_upd_absorb b2_upd_outlen b2_pend_less [simplified])

text \<open>The update with its checks: a live state accepts any data.\<close>

lemma update_live:
  assumes "b2_inv S" and "length xs = n"
  shows "rx_blake2b_update (Some S) (Some xs) n = (0, Some (b2_upd S xs))"
  using assms by (auto simp: b2_upd_def rx_blake2b_update_def b2_inv_def Let_def case_prod_beta)

section \<open>Finalisation\<close>

definition b2_digest :: "blake2b_state \<Rightarrow> bytes" where
  "b2_digest S = take (unat (b2_outlen S))
     (the (fst (snd (rx_blake2b_final (Some S) (Some (replicate 64 0)) 64))))"

lemma length_spec_F [simp]: "length (spec_F h b t f) = 8"
  by (simp add: spec_F_def Let_def)

lemma concat_store: "length h = 8 \<Longrightarrow> concat (map (\<lambda>i. store64 (h ! i)) [0..<8]) = concat (map (le_of_word 8) h)"
  by (rule arg_cong [where f = concat]) (auto simp: store_eq intro: nth_equalityI)

lemma length_le_words: "length (concat (map (le_of_word 8) h)) = 8 * length h"
  by (simp add: length_concat comp_def sum_list_triv)

text \<open>Finalising a live state: count the pending bytes, pad, compress with the final flag set.\<close>

lemma final_live:
  assumes "b2_inv S" and "unat (b2_outlen S) \<le> n"
    and "b2_count (b2_t S) = c mod 2 ^ 128"
    and "h = spec_F (b2_h S) (b2_pend S @ replicate (128 - length (b2_pend S)) 0) (c + length (b2_pend S)) True"
  obtains S' where "rx_blake2b_final (Some S) (Some dst) n
      = (0, Some (blit dst 0 (take (unat (b2_outlen S)) (concat (map (le_of_word 8) h)))), Some S')"
    and "b2_f S' ! 0 \<noteq> 0"
proof -
  let ?n = "unat (b2_buflen S)"
  have S: "length (b2_h S) = 8" "length (b2_t S) = 2" "b2_f S = [0, 0]" "length (b2_buf S) = 128"
      "?n \<le> 128" "b2_last_node S = 0" "length (b2_pend S) = ?n"
    using assms(1) by (simp_all add: b2_inv_def length_b2_pend)
  let ?b = "b2_pend S @ replicate (128 - ?n) 0"
  have b: "blit (b2_buf S) ?n (replicate (128 - ?n) 0) = ?b" "length ?b = 128"
    using S by (simp_all add: blit_def b2_pend_def)
  have "unat (ucast (b2_buflen S) :: u64) = ?n"
    using S(5) by (simp add: unsigned_ucast_eq take_bit_nat_eq_self)
  then obtain t where frame: "blake2b_increment_counter S (ucast (b2_buflen S)) = S\<lparr>b2_t := t\<rparr>"
      and t: "b2_count t = (c + ?n) mod 2 ^ 128"
    using increment_counter_frame [of S "ucast (b2_buflen S)"]
      increment_counter_count [OF S(2), of "ucast (b2_buflen S)"] assms(3) by (auto simp: mod_simps)
  let ?S = "S\<lparr>b2_t := t, b2_f := [- 1, 0], b2_buf := ?b\<rparr>"
  have cmp: "rx_blake2b_compress_integer ?S ?b = ?S\<lparr>b2_h := h\<rparr>"
    using compress_spec [of ?S "c + ?n" True ?b] S b t by (simp add: b2_flags_def assms(4))
  have h: "length h = 8" by (simp add: assms(4))
  have "blake2b_set_lastblock (S\<lparr>b2_t := t\<rparr>) = S\<lparr>b2_t := t, b2_f := [- 1, 0]\<rparr>"
    using S by (simp add: blake2b_set_lastblock_def)
  then have "rx_blake2b_final (Some S) (Some dst) n =
      (0, Some (blit dst 0 (take (unat (b2_outlen S)) (concat (map (\<lambda>i. store64 (h ! i)) [0..<8])))),
       Some (?S\<lparr>b2_h := h\<rparr>))"
    using assms(2) S(3) by (simp add: rx_blake2b_final_def frame b(1) cmp Let_def)
  then show ?thesis
    unfolding concat_store [OF h] by (rule that) simp
qed

lemma b2_digest_spec:
  assumes "b2_inv S" and "b2_count (b2_t S) = c mod 2 ^ 128"
  shows "b2_digest S = take (unat (b2_outlen S)) (concat (map (le_of_word 8)
    (spec_F (b2_h S) (b2_pend S @ replicate (128 - length (b2_pend S)) 0) (c + length (b2_pend S)) True)))"
proof -
  have n: "unat (b2_outlen S) \<le> 64" using assms(1) by (simp add: b2_inv_def)
  let ?h = "spec_F (b2_h S) (b2_pend S @ replicate (128 - length (b2_pend S)) 0) (c + length (b2_pend S)) True"
  obtain S' where "rx_blake2b_final (Some S) (Some (replicate 64 0)) 64
      = (0, Some (blit (replicate 64 0) 0 (take (unat (b2_outlen S)) (concat (map (le_of_word 8) ?h)))), Some S')"
    using final_live [OF assms(1) n assms(2) refl, of "replicate 64 0"] by auto
  then show ?thesis
    using n by (simp add: b2_digest_def blit_def length_le_words)
qed

section \<open>The digest is that of RFC 7693\<close>

lemma b2_mix_spec:
  assumes "length h = 8" and "length t = 2" and "b2_count t = n mod 2 ^ 128" and "length b = 128"
  shows "fst (b2_mix (h, t) b) = spec_F h b (n + 128) False"
    and "b2_count (snd (b2_mix (h, t) b)) = (n + 128) mod 2 ^ 128"
proof -
  let ?S = "uninit_blake2b\<lparr>b2_h := h, b2_t := t\<rparr>"
  obtain t' where frame: "blake2b_increment_counter ?S 128 = ?S\<lparr>b2_t := t'\<rparr>"
      and t': "b2_count t' = (n + 128) mod 2 ^ 128"
    using increment_counter_frame [of ?S 128] increment_counter_count [of ?S 128] assms
    by (auto simp: mod_simps)
  have "rx_blake2b_compress_integer (?S\<lparr>b2_t := t'\<rparr>) b = ?S\<lparr>b2_t := t', b2_h := spec_F h b (n + 128) False\<rparr>"
    using compress_spec [of "?S\<lparr>b2_t := t'\<rparr>" "n + 128" False b] t' assms
    by (simp add: b2_flags_def uninit_blake2b_def)
  then show "fst (b2_mix (h, t) b) = spec_F h b (n + 128) False"
    and "b2_count (snd (b2_mix (h, t) b)) = (n + 128) mod 2 ^ 128"
    using t' by (simp_all add: b2_mix_def b2_core_def frame)
qed

lemma spec_blocks_absorb:
  assumes "absorb 128 1 b2_mix (h, t) d = ((h', t'), rest)"
    and "length h = 8" and "length t = 2" and "b2_count t = n mod 2 ^ 128"
  obtains m where "b2_count t' = m mod 2 ^ 128" and
    "spec_blocks h n d = spec_F h' (rest @ replicate (128 - length rest) 0) (m + length rest) True"
  using assms
proof (induction "length d" arbitrary: d h t n thesis rule: less_induct)
  case less
  show ?case
  proof (cases "length d \<le> 128")
    case True
    with less.prems show ?thesis by (intro less.prems(1) [of n]) (auto simp: spec_blocks.simps)
  next
    case False
    let ?k = "b2_mix (h, t) (take 128 d)"
    have l: "length (take 128 d) = 128" and d: "length (drop 128 d) < length d" using False by auto
    have k: "fst ?k = spec_F h (take 128 d) (n + 128) False" "b2_count (snd ?k) = (n + 128) mod 2 ^ 128"
      using b2_mix_spec [OF less.prems(3,4,5) l] .
    have "absorb 128 1 b2_mix (fst ?k, snd ?k) (drop 128 d) = ((h', t'), rest)"
      using less.prems(2) False by (simp add: absorb_step)
    from less.hyps [OF d _ this _ _ k(2)] obtain m where
      "b2_count t' = m mod 2 ^ 128"
      "spec_blocks (fst ?k) (n + 128) (drop 128 d) = spec_F h' (rest @ replicate (128 - length rest) 0) (m + length rest) True"
      using less.prems(4) by auto
    then show ?thesis
      using False k(1) by (intro less.prems(1) [of m]) (simp_all add: spec_blocks.simps [of h])
  qed
qed

definition blake2b_h0 :: "nat \<Rightarrow> nat \<Rightarrow> u64 list" where
  "blake2b_h0 nn kk =
     blake2b_IV[0 := blake2b_IV ! 0 XOR 0x01010000 XOR push_bit 8 (of_nat kk) XOR of_nat nn]"

text \<open>A state just initialised for a digest of \<open>nn\<close> bytes, its key block already fed.\<close>

definition b2_start :: "nat \<Rightarrow> bytes \<Rightarrow> blake2b_state \<Rightarrow> bool" where
  "b2_start nn key S \<longleftrightarrow> b2_inv S \<and> b2_core S = (blake2b_h0 nn (length key), [0, 0]) \<and>
     unat (b2_outlen S) = nn \<and>
     b2_pend S = (if key = [] then [] else key @ replicate (128 - length key) 0)"

lemma b2_start_digest:
  assumes "b2_start nn key S"
  shows "b2_digest (b2_upd S d) = blake2b_spec nn key d"
proof -
  let ?U = "b2_upd S d" and ?p = "if key = [] then [] else key @ replicate (128 - length key) 0"
  have S: "b2_inv S" "b2_core S = (blake2b_h0 nn (length key), [0, 0])" "unat (b2_outlen S) = nn" "b2_pend S = ?p"
    using assms by (simp_all add: b2_start_def)
  have inv: "b2_inv ?U" using S(1) by (rule b2.inv_upd)
  have "absorb 128 1 b2_mix (blake2b_h0 nn (length key), [0, 0]) (?p @ d)
      = ((b2_h ?U, b2_t ?U), b2_pend ?U)"
    using b2.upd_absorb [OF S(1), of d] S by (simp add: b2_core_def)
  from spec_blocks_absorb [OF this, of 0] obtain m where
    "b2_count (b2_t ?U) = m mod 2 ^ 128"
    "spec_blocks (blake2b_h0 nn (length key)) 0 (?p @ d)
      = spec_F (b2_h ?U) (b2_pend ?U @ replicate (128 - length (b2_pend ?U)) 0) (m + length (b2_pend ?U)) True"
    by (auto simp: b2_count_def blake2b_h0_def blake2b_IV_def)
  then show ?thesis
    using b2_digest_spec [OF inv] S(1,3)
    by (simp add: blake2b_spec_def Let_def blake2b_h0_def b2_upd_outlen split: if_splits)
qed

lemma b2_digest_view:
  assumes "b2_inv c" and "b2_inv d" and "(b2_core c, b2_outlen c, b2_pend c) = (b2_core d, b2_outlen d, b2_pend d)"
  shows "b2_digest c = b2_digest d"
proof -
  have "b2_count (b2_t d) < 2 ^ 128"
    using unsigned_less [of "b2_t d ! 0", where ?'a = nat] unsigned_less [of "b2_t d ! 1", where ?'a = nat]
    by (simp add: b2_count_def)
  then show ?thesis
    using assms b2_digest_spec [of c "b2_count (b2_t d)"] b2_digest_spec [of d "b2_count (b2_t d)"]
    by (simp add: b2_core_def)
qed

interpretation b2_hash: stream_hash b2_upd "\<lambda>c. (b2_core c, b2_outlen c, b2_pend c)" b2_inv
    "b2_start nn key" b2_digest "blake2b_spec nn key" for nn key
  by unfold_locales (auto simp: b2_start_digest b2_start_def intro: b2_digest_view)

section \<open>Initialisation\<close>

lemma param_word:
  "(ucast (x :: u8) OR push_bit 8 (ucast (y :: u8)) OR push_bit 16 1 OR push_bit 24 1 :: u64)
    = 0x01010000 XOR push_bit 8 (ucast y) XOR ucast x"
proof -
  have "(0x01010000 :: u64) = push_bit 16 1 OR push_bit 24 1" by simp
  moreover have "(ucast x OR push_bit 8 (ucast y) OR push_bit 16 1 OR push_bit 24 1 :: u64)
      = (push_bit 16 1 OR push_bit 24 1) XOR push_bit 8 (ucast y) XOR ucast x"
    by (rule bit_word_eqI)
      (auto simp: bit_simps bit_1_iff dest: bit_imp_le_length simp del: push_bit_of_1)
  ultimately show ?thesis by (simp only:)
qed

lemma ucast_byte: "n < 256 \<Longrightarrow> ucast (of_nat n :: u8) = (of_nat n :: u64)"
  by (simp add: word_unat_eq_iff unsigned_ucast_eq unat_of_nat take_bit_nat_eq_self)

lemma param_words:
  assumes "nn \<le> 64" and "kk \<le> 64" and "i < 8"
  shows "load64 (sub (i * 8) 8 (blake2b_param_bytes (blake2b_param_for nn kk)))
    = (if i = 0 then 0x01010000 XOR push_bit 8 (of_nat kk) XOR of_nat nn else 0)"
proof -
  have p: "blake2b_param_bytes (blake2b_param_for nn kk) = [of_nat nn, of_nat kk, 1, 1, 0, 0, 0, 0] @ replicate 56 0"
    by (simp add: blake2b_param_bytes_def blake2b_param_for_def store_eq numeral_eq_Suc)
  show ?thesis
  proof (cases "i = 0")
    case True
    have "load64 (sub (i * 8) 8 (blake2b_param_bytes (blake2b_param_for nn kk)))
        = ucast (of_nat nn :: u8) OR push_bit 8 (ucast (of_nat kk :: u8)) OR push_bit 16 1 OR push_bit 24 1"
      by (simp add: p True sub_def load64_def Let_def or.assoc)
    also have "\<dots> = 0x01010000 XOR push_bit 8 (of_nat kk) XOR of_nat nn"
      using param_word [of "of_nat nn" "of_nat kk"] assms by (simp add: ucast_byte)
    finally show ?thesis by (simp add: True)
  next
    case False
    have "sub (i * 8) 8 (blake2b_param_bytes (blake2b_param_for nn kk)) = replicate 8 0"
      using False assms(3) unfolding p by (intro nth_equalityI) (auto simp: nth_append)
    with False show ?thesis by (simp add: load64_def)
  qed
qed

lemma init_param_start:
  assumes "nn \<le> 64" and "kk \<le> 64"
  obtains S' where "rx_blake2b_init_param (Some S) (Some (blake2b_param_for nn kk)) = (0, Some S')"
    and "b2_inv S'" and "b2_core S' = (blake2b_h0 nn kk, [0, 0])" and "unat (b2_outlen S') = nn" and "b2_pend S' = []"
proof -
  let ?p = "blake2b_param_bytes (blake2b_param_for nn kk)"
  have h: "map (\<lambda>i. blake2b_IV ! i XOR load64 (sub (i * 8) 8 ?p)) [0..<8] = blake2b_h0 nn kk"
    using param_words [OF assms]
    by (intro nth_equalityI) (auto simp: blake2b_h0_def blake2b_IV_def nth_Cons' xor.assoc)
  have out: "unat (ucast (of_nat nn :: u8) :: u32) = nn"
    using assms by (simp add: unsigned_ucast_eq unat_of_nat take_bit_nat_eq_self)
  let ?S = "(blake2b_init0 S)\<lparr>b2_h := blake2b_h0 nn kk, b2_outlen := ucast (of_nat nn :: u8)\<rparr>"
  show ?thesis
  proof (rule that [of ?S])
    have "b2_h (blake2b_init0 S) = blake2b_IV" by (simp add: blake2b_init0_def)
    then show "rx_blake2b_init_param (Some S) (Some (blake2b_param_for nn kk)) = (0, Some ?S)"
      by (simp add: rx_blake2b_init_param_def h Let_def) (simp add: blake2b_param_for_def)
  qed (use assms out in \<open>simp_all add: b2_inv_def b2_core_def b2_pend_def blake2b_init0_def blake2b_h0_def blake2b_IV_def\<close>)
qed

lemma init_start:
  assumes "0 < nn" and "nn \<le> 64"
  obtains S' where "rx_blake2b_init (Some S) nn = (0, Some S')" and "b2_start nn [] S'"
  using init_param_start [of nn 0 S] assms by (auto simp: rx_blake2b_init_def b2_start_def)

lemma init_key_start:
  assumes "0 < nn" and "nn \<le> 64" and "0 < length key" and "length key \<le> 64"
  obtains S' where "rx_blake2b_init_key (Some S) nn (Some key) (length key) = (0, Some S')"
    and "b2_start nn key S'"
proof -
  let ?b = "key @ replicate (128 - length key) 0"
  obtain T where T: "rx_blake2b_init_param (Some S) (Some (blake2b_param_for nn (length key))) = (0, Some T)"
      "b2_inv T" "b2_core T = (blake2b_h0 nn (length key), [0, 0])" "unat (b2_outlen T) = nn" "b2_pend T = []"
    using init_param_start [OF assms(2,4)] .
  have "blit (replicate 128 0) 0 key = ?b" and l: "length ?b = 128"
    using assms(4) by (simp_all add: blit_def)
  then have "rx_blake2b_init_key (Some S) nn (Some key) (length key) = (0, Some (b2_upd T ?b))"
    using assms by (simp add: rx_blake2b_init_key_def T(1) update_live [OF T(2)])
  moreover have "b2_start nn key (b2_upd T ?b)"
    using b2.upd_absorb [OF T(2), of ?b] b2.inv_upd [OF T(2)] T l assms(3)
    by (auto simp: b2_start_def b2_upd_outlen)
  ultimately show ?thesis by (rule that)
qed

section \<open>The one-shot hash\<close>

lemma length_blake2b_spec: "n \<le> 64 \<Longrightarrow> length (blake2b_spec n key d) = n"
proof -
  have "length (spec_blocks h t d) = 8" for h t d
    by (induction h t d rule: spec_blocks.induct) (simp add: spec_blocks.simps)
  then show "n \<le> 64 \<Longrightarrow> length (blake2b_spec n key d) = n"
    by (simp add: blake2b_spec_def Let_def length_le_words)
qed

text \<open>Finalising after an update returns the digest at the front of the output object.\<close>

lemma final_digest:
  assumes "b2_inv S" and "unat (b2_outlen S) \<le> n"
  obtains S' where "rx_blake2b_final (Some S) (Some dst) n = (0, Some (blit dst 0 (b2_digest S)), Some S')"
    and "b2_f S' ! 0 \<noteq> 0"
proof -
  have "b2_count (b2_t S) < 2 ^ 128"
    using unsigned_less [of "b2_t S ! 0", where ?'a = nat] unsigned_less [of "b2_t S ! 1", where ?'a = nat]
    by (simp add: b2_count_def)
  then have c: "b2_count (b2_t S) = b2_count (b2_t S) mod 2 ^ 128" by simp
  show ?thesis
    using final_live [OF assms c refl, of dst] b2_digest_spec [OF assms(1) c] that by metis
qed

lemma update_opt:
  assumes "b2_inv S" and "case inp of None \<Rightarrow> n = 0 | Some d \<Rightarrow> length d = n"
  shows "rx_blake2b_update (Some S) inp n = (0, Some (b2_upd S (case inp of None \<Rightarrow> [] | Some d \<Rightarrow> d)))"
proof (cases inp)
  case None
  then show ?thesis
    using assms by (simp add: rx_blake2b_update_def b2_upd_def)
next
  case (Some d)
  then show ?thesis using assms update_live [of S d n] by simp
qed

abbreviation opt_bytes :: "bytes option \<Rightarrow> bytes" where
  "opt_bytes inp \<equiv> (case inp of None \<Rightarrow> [] | Some d \<Rightarrow> d)"

text \<open>An input object and its length agree; a null pointer goes with length 0.\<close>

definition opt_len :: "bytes option \<Rightarrow> nat \<Rightarrow> bool" where
  "opt_len inp n \<longleftrightarrow> (case inp of None \<Rightarrow> n = 0 | Some d \<Rightarrow> length d = n)"

lemma rx_blake2b_ok:
  assumes "0 < outlen" and "outlen \<le> 64" and "opt_len inp n"
  shows "rx_blake2b (Some dst) outlen inp n = (0, Some (blit dst 0 (blake2b_spec outlen [] (opt_bytes inp))))"
proof -
  obtain S where S: "rx_blake2b_init (Some uninit_blake2b) outlen = (0, Some S)" "b2_start outlen [] S"
    using init_start [OF assms(1,2)] .
  then have inv: "b2_inv S" by (simp add: b2_start_def)
  let ?U = "b2_upd S (opt_bytes inp)"
  have u: "rx_blake2b_update (Some S) inp n = (0, Some ?U)"
    using update_opt [OF inv] assms(3) by (simp add: opt_len_def)
  have U: "b2_inv ?U" "unat (b2_outlen ?U) \<le> outlen"
    using b2.inv_upd [OF inv] S(2) inv by (simp_all add: b2_upd_outlen b2_start_def)
  obtain S' where "rx_blake2b_final (Some ?U) (Some dst) outlen = (0, Some (blit dst 0 (b2_digest ?U)), Some S')"
    using final_digest [OF U] .
  moreover have "\<not> (inp = None \<and> 0 < n)" using assms(3) by (auto simp: opt_len_def split: option.splits)
  ultimately show ?thesis
    using assms(1,2) b2_start_digest [OF S(2)] by (simp add: rx_blake2b_def S(1) u)
qed

section \<open>The variable-length hash of Argon2\<close>

text \<open>
  \<open>H'\<close> of RFC 9106: with \<open>r = ceil (T / 32) - 2\<close>, the first halves of \<open>V\<^sub>1 \<dots> V\<^sub>r\<close>, each the hash of
  the one before, and a last hash of the remaining length.
\<close>

definition blake2b_V :: "bytes \<Rightarrow> nat \<Rightarrow> bytes" where
  "blake2b_V d j = ((blake2b_spec 64 []) ^^ j) d"

definition blake2b_long_spec :: "nat \<Rightarrow> bytes \<Rightarrow> bytes" where
  "blake2b_long_spec T A =
    (let d = le_of_word 4 (of_nat T :: u32) @ A
     in if T \<le> 64 then blake2b_spec T [] d
        else let r = (T + 31) div 32 - 2
             in concat (map (\<lambda>j. take 32 (blake2b_V d j)) [1..<r + 1]) @ blake2b_spec (T - 32 * r) [] (blake2b_V d r))"

lemma blake2b_V_shift: "blake2b_V (blake2b_spec 64 [] d) j = blake2b_V d (Suc j)"
  by (simp add: blake2b_V_def funpow_swap1)

lemma opt_len_Some: "opt_len (Some d) (length d)"
  by (simp add: opt_len_def)

lemma long_loop_spec:
  assumes "32 < n" and "length V = 64" and "pos + n = length out" and "q = (n + 31) div 32 - 2"
  shows "blake2b_long_loop V pos out n = (0, take pos out @
    concat (map (\<lambda>j. take 32 (blake2b_V V j)) [1..<q + 1]) @ blake2b_spec (n - 32 * q) [] (blake2b_V V q))"
  using assms
proof (induction n arbitrary: V pos out q rule: less_induct)
  case (less n)
  have one: "rx_blake2b (Some V) k (Some V) 64 = (0, Some (blit V 0 (blake2b_spec k [] V)))"
    if "0 < k" and "k \<le> 64" for k
    using rx_blake2b_ok [OF that, of "Some V" 64 V] less.prems(2) by (simp add: opt_len_def)
  show ?case
  proof (cases "64 < n")
    case False
    then have "(n + 31) div 32 = 2" using less.prems(1) by (auto simp: div_nat_eqI)
    then have "q = 0" using less.prems(4) by simp
    then show ?thesis
      using False less.prems(1-3) one [of n]
      by (simp add: blake2b_long_loop.simps blake2b_V_def length_blake2b_spec blit_def)
  next
    case True
    let ?V = "blake2b_spec 64 [] V" and ?out = "blit out pos (take 32 (blake2b_spec 64 [] V))"
    define p where "p = (n - 32 + 31) div 32 - 2"
    have V: "length ?V = 64" by (simp add: length_blake2b_spec)
    have q: "q = Suc p" using True less.prems(4) by (simp add: p_def)
    have step: "blake2b_long_loop V pos out n = blake2b_long_loop ?V (pos + 32) ?out (n - 32)"
      using True one [of 64] less.prems(2) V by (simp add: blake2b_long_loop.simps [of V])
    have out: "take (pos + 32) ?out = take pos out @ take 32 ?V" "pos + 32 + (n - 32) = length ?out"
      using True less.prems(3) V by (simp_all add: buf_simps)
    have n: "n - 32 - 32 * p = n - 32 * Suc p" by simp
    have upt: "[1..<Suc p + 1] = 1 # map Suc [1..<p + 1]"
      by (simp add: upt_conv_Cons map_Suc_upt del: upt_Suc)
    have V1: "blake2b_V V (Suc 0) = ?V" by (simp add: blake2b_V_def)
    have "blake2b_long_loop ?V (pos + 32) ?out (n - 32) = (0, take (pos + 32) ?out @
        concat (map (\<lambda>j. take 32 (blake2b_V ?V j)) [1..<p + 1]) @ blake2b_spec (n - 32 - 32 * p) [] (blake2b_V ?V p))"
      using True by (intro less.IH) (auto simp: V out(2) p_def)
    then show ?thesis
      unfolding q step upt out(1) n by (simp add: blake2b_V_shift V1 comp_def del: upt_Suc)
  qed
qed

lemma long_state:
  assumes "0 < nn" and "nn \<le> 64" and "opt_len inp n"
  obtains S T where "rx_blake2b_init (Some uninit_blake2b) nn = (0, Some S)"
    and "rx_blake2b_update (Some S) (Some (store32 w)) 4 = (0, Some (b2_upd S (store32 w)))"
    and "rx_blake2b_update (Some (b2_upd S (store32 w))) inp n = (0, Some T)"
    and "b2_inv T" and "unat (b2_outlen T) = nn" and "b2_digest T = blake2b_spec nn [] (store32 w @ opt_bytes inp)"
proof -
  obtain S where S: "rx_blake2b_init (Some uninit_blake2b) nn = (0, Some S)" "b2_start nn [] S"
    using init_start [OF assms(1,2)] .
  then have inv: "b2_inv S" by (simp add: b2_start_def)
  then have inv1: "b2_inv (b2_upd S (store32 w))" by (rule b2.inv_upd)
  show ?thesis
  proof (rule that [OF S(1)])
    show "rx_blake2b_update (Some S) (Some (store32 w)) 4 = (0, Some (b2_upd S (store32 w)))"
      by (rule update_live [OF inv]) simp
    show "rx_blake2b_update (Some (b2_upd S (store32 w))) inp n
        = (0, Some (b2_upd (b2_upd S (store32 w)) (opt_bytes inp)))"
      using update_opt [OF inv1] assms(3) by (simp add: opt_len_def)
    show "b2_inv (b2_upd (b2_upd S (store32 w)) (opt_bytes inp))"
      using inv1 by (rule b2.inv_upd)
    show "unat (b2_outlen (b2_upd (b2_upd S (store32 w)) (opt_bytes inp))) = nn"
      using S(2) inv inv1 by (simp add: b2_upd_outlen b2_start_def)
    show "b2_digest (b2_upd (b2_upd S (store32 w)) (opt_bytes inp)) = blake2b_spec nn [] (store32 w @ opt_bytes inp)"
      using S(2) by (rule b2_hash.digest_two)
  qed
qed

lemma rxa2_blake2b_long_ok:
  assumes "0 < outlen" and "outlen \<le> 2 ^ 32 - 1" and "length out = outlen" and "opt_len inp n"
  shows "rxa2_blake2b_long out outlen inp n = (0, blake2b_long_spec outlen (opt_bytes inp))"
proof -
  let ?d = "store32 (of_nat outlen) @ opt_bytes inp"
  show ?thesis
  proof (cases "outlen \<le> 64")
    case True
    obtain S T where ST: "rx_blake2b_init (Some uninit_blake2b) outlen = (0, Some S)"
        "rx_blake2b_update (Some S) (Some (store32 (of_nat outlen))) 4 = (0, Some (b2_upd S (store32 (of_nat outlen))))"
        "rx_blake2b_update (Some (b2_upd S (store32 (of_nat outlen)))) inp n = (0, Some T)"
        "b2_inv T" "unat (b2_outlen T) = outlen" "b2_digest T = blake2b_spec outlen [] ?d"
      using long_state [OF assms(1) True assms(4)] .
    obtain T' where "rx_blake2b_final (Some T) (Some out) outlen = (0, Some (blit out 0 (b2_digest T)), Some T')"
      using final_digest [OF ST(4), of outlen out] ST(5) by auto
    then have "rxa2_blake2b_long out outlen inp n = (0, blake2b_spec outlen [] ?d)"
      using True assms(2,3) by (simp add: rxa2_blake2b_long_def ST length_blake2b_spec)
    then show ?thesis
      using True by (simp add: blake2b_long_spec_def store_eq)
  next
    case False
    obtain S T where ST: "rx_blake2b_init (Some uninit_blake2b) 64 = (0, Some S)"
        "rx_blake2b_update (Some S) (Some (store32 (of_nat outlen))) 4 = (0, Some (b2_upd S (store32 (of_nat outlen))))"
        "rx_blake2b_update (Some (b2_upd S (store32 (of_nat outlen)))) inp n = (0, Some T)"
        "b2_inv T" "unat (b2_outlen T) = 64" "b2_digest T = blake2b_spec 64 [] ?d"
      using long_state [OF _ _ assms(4), of 64] by auto
    let ?V = "blake2b_spec 64 [] ?d"
    define q where "q = (outlen - 32 + 31) div 32 - 2"
    have V: "length ?V = 64" by (simp add: length_blake2b_spec)
    obtain T' where "rx_blake2b_final (Some T) (Some (replicate 64 0)) 64 = (0, Some (blit (replicate 64 0) 0 ?V), Some T')"
      using final_digest [OF ST(4), of 64 "replicate 64 0"] ST(5,6) by auto
    then have "rxa2_blake2b_long out outlen inp n = blake2b_long_loop ?V 32 (blit out 0 (take 32 ?V)) (outlen - 32)"
      using False assms(2) V by (simp add: rxa2_blake2b_long_def ST)
    also have "\<dots> = (0, take 32 (blit out 0 (take 32 ?V)) @ concat (map (\<lambda>j. take 32 (blake2b_V ?V j)) [1..<q + 1])
        @ blake2b_spec (outlen - 32 - 32 * q) [] (blake2b_V ?V q))"
      using False assms(3) V by (intro long_loop_spec) (auto simp: q_def)
    also have "take 32 (blit out 0 (take 32 ?V)) = take 32 ?V"
      using False assms(3) V by (simp add: buf_simps)
    finally have loop: "rxa2_blake2b_long out outlen inp n = (0, take 32 ?V @
        concat (map (\<lambda>j. take 32 (blake2b_V ?d (Suc j))) [1..<q + 1]) @
        blake2b_spec (outlen - 32 - 32 * q) [] (blake2b_V ?d (Suc q)))"
      by (simp add: blake2b_V_shift)
    have q: "(outlen + 31) div 32 - 2 = Suc q" using False by (simp add: q_def)
    have upt: "[1..<Suc q + 1] = 1 # map Suc [1..<q + 1]"
      by (simp add: upt_conv_Cons map_Suc_upt del: upt_Suc)
    have V1: "blake2b_V ?d (Suc 0) = ?V" by (simp add: blake2b_V_def)
    have n: "outlen - 32 * Suc q = outlen - 32 - 32 * q" by simp
    have d: "le_of_word 4 (of_nat outlen :: u32) @ opt_bytes inp = ?d" by (simp add: store_eq)
    show ?thesis
      unfolding loop blake2b_long_spec_def Let_def d q upt n
      using False by (simp add: V1 comp_def del: upt_Suc)
  qed
qed

section \<open>Properties\<close>

text \<open>The compression of the code (twelve rows of message schedule, two of them repeated; rounds
  unrolled over array positions; two counter words) is the function \<open>F\<close> of RFC 7693 at the 128-bit
  offset the counter words hold.\<close>

theorem BLAKE2b_compress_refines:
  assumes "length (b2_h S) = 8" and "b2_t S = [of_nat n, of_nat (n div 2 ^ 64)]"
    and "b2_f S = b2_flags fin" and "length block = 128"
  shows "rx_blake2b_compress_integer S block = S\<lparr>b2_h := spec_F (b2_h S) block n fin\<rparr>"
proof -
  have "b2_count (b2_t S) = n mod 2 ^ 64 + 2 ^ 64 * (n div 2 ^ 64 mod 2 ^ 64)"
    using assms(2) by (simp add: b2_count_def unat_of_nat)
  also have "\<dots> = n mod (2 ^ 64 * 2 ^ 64)"
    by (subst mod_mult2_eq) simp
  finally have "b2_count (b2_t S) = n mod 2 ^ 128" by simp
  then show ?thesis using assms(1,3,4) by (intro compress_spec)
qed

theorem BLAKE2b_compress_refines_witness:
  "rx_blake2b_compress_integer (uninit_blake2b\<lparr>b2_t := [5, 1]\<rparr>) (replicate 128 1)
    = (uninit_blake2b\<lparr>b2_t := [5, 1]\<rparr>)\<lparr>b2_h := spec_F (replicate 8 0) (replicate 128 1) (2 ^ 64 + 5) False\<rparr>"
  using BLAKE2b_compress_refines [of "uninit_blake2b\<lparr>b2_t := [5, 1]\<rparr>" "2 ^ 64 + 5" False "replicate 128 1"]
  by (simp add: uninit_blake2b_def b2_flags_def)

text \<open>The byte counter is one 128-bit number: the carry test after the wrapping addition moves
  exactly the overflow of the low word into the high word.\<close>

theorem BLAKE2b_counter_128_bits:
  assumes "length (b2_t S) = 2"
  shows "b2_count (b2_t (blake2b_increment_counter S inc)) = (b2_count (b2_t S) + unat inc) mod 2 ^ 128"
  using assms by (rule increment_counter_count)

theorem BLAKE2b_counter_128_bits_witness:
  "b2_count (b2_t (blake2b_increment_counter (uninit_blake2b\<lparr>b2_t := [- 1, 7]\<rparr>) 128)) = 8 * 2 ^ 64 + 127"
  using BLAKE2b_counter_128_bits [of "uninit_blake2b\<lparr>b2_t := [- 1, 7]\<rparr>" 128]
  by (simp add: b2_count_def unsigned_minus_1_eq_mask mask_eq_exp_minus_1)

text \<open>C25: For every digest length from 1 to 64, every key up to 64 bytes and every way of cutting the
  data into pieces, initialisation, the updates and finalisation all succeed and the output is the
  keyed BLAKE2b digest of RFC 7693.\<close>

theorem BLAKE2b_any_pieces:
  assumes "0 < nn" and "nn \<le> 64" and "length key \<le> 64"
  shows "\<exists>S1 S2 S3.
    (if key = [] then rx_blake2b_init (Some S) nn
     else rx_blake2b_init_key (Some S) nn (Some key) (length key)) = (0, Some S1) \<and>
    foldl (\<lambda>(e, S) p. rx_blake2b_update S (Some p) (length p)) (0, Some S1) pieces = (0, Some S2) \<and>
    rx_blake2b_final (Some S2) (Some (replicate nn 0)) nn = (0, Some (blake2b_spec nn key (concat pieces)), Some S3)"
proof -
  let ?init = "if key = [] then rx_blake2b_init (Some S) nn
    else rx_blake2b_init_key (Some S) nn (Some key) (length key)"
  let ?upd = "\<lambda>(e, S) p. rx_blake2b_update S (Some p) (length p)"
  obtain S1 where S1: "?init = (0, Some S1)" "b2_start nn key S1"
  proof (cases "key = []")
    case True
    with init_start [OF assms(1,2), of S] that show ?thesis by auto
  next
    case False
    with init_key_start [OF assms(1,2) _ assms(3), of S] that show ?thesis by auto
  qed
  have "b2_inv T \<Longrightarrow> foldl ?upd (0, Some T) pieces
      = (0, Some (foldl b2_upd T pieces)) \<and> b2_inv (foldl b2_upd T pieces)
        \<and> b2_outlen (foldl b2_upd T pieces) = b2_outlen T" for T
    by (induction pieces arbitrary: T) (simp_all add: update_live b2_upd_absorb b2_upd_outlen)
  then have S2: "foldl ?upd (0, Some S1) pieces = (0, Some (foldl b2_upd S1 pieces))" "b2_inv (foldl b2_upd S1 pieces)"
      "unat (b2_outlen (foldl b2_upd S1 pieces)) = nn"
    using S1(2) by (simp_all add: b2_start_def)
  have "length (blake2b_spec nn key (concat pieces)) = nn"
    using assms(2) by (rule length_blake2b_spec)
  moreover obtain S3 where "rx_blake2b_final (Some (foldl b2_upd S1 pieces)) (Some (replicate nn 0)) nn
      = (0, Some (blit (replicate nn 0) 0 (b2_digest (foldl b2_upd S1 pieces))), Some S3)"
    using final_digest [OF S2(2), of nn "replicate nn 0"] S2(3) by auto
  ultimately show ?thesis
    using S2(1) b2_hash.digest_chunks [OF S1(2), of pieces]
    by (intro exI [of _ S1] exI [of _ "foldl b2_upd S1 pieces"] exI [of _ S3] conjI S1(1)) simp_all
qed

theorem BLAKE2b_any_pieces_witness:
  "\<exists>S1 S2 S3. rx_blake2b_init_key (Some uninit_blake2b) 32 (Some [1, 2]) (length [1, 2 :: u8]) = (0, Some S1) \<and>
    foldl (\<lambda>(e, S) p. rx_blake2b_update S (Some p) (length p)) (0, Some S1) [replicate 128 3, [], [4]] = (0, Some S2) \<and>
    rx_blake2b_final (Some S2) (Some (replicate 32 0)) 32
      = (0, Some (blake2b_spec 32 [1, 2] (concat [replicate 128 3, [], [4]])), Some S3)"
  using BLAKE2b_any_pieces [of 32 "[1, 2]" uninit_blake2b "[replicate 128 3, [], [4]]"]
  by (simp only: list.distinct if_False) simp

text \<open>The one-shot hash: it fails exactly on a null input with a length, a null output or a digest
  length outside 1 to 64, leaving the output alone, and otherwise writes the RFC 7693 digest at the
  front of the output and nothing else.\<close>

theorem rx_blake2b_correct:
  assumes "case inp of None \<Rightarrow> True | Some d \<Rightarrow> length d = n"
  shows "rx_blake2b out outlen inp n =
    (if inp = None \<and> 0 < n \<or> out = None \<or> outlen = 0 \<or> 64 < outlen then (- 1, out)
     else (0, Some (blit (the out) 0 (blake2b_spec outlen [] (case inp of None \<Rightarrow> [] | Some d \<Rightarrow> d)))))"
proof (cases "inp = None \<and> 0 < n \<or> out = None \<or> outlen = 0 \<or> 64 < outlen")
  case True
  then show ?thesis by (auto simp: rx_blake2b_def)
next
  case False
  then have "opt_len inp n" using assms by (auto simp: opt_len_def split: option.splits)
  with False rx_blake2b_ok [of outlen inp n "the out"] show ?thesis by auto
qed

theorem rx_blake2b_correct_witness:
  "rx_blake2b (Some [0, 0, 0]) 2 (Some [5]) 1 = (0, Some (blit [0, 0, 0] 0 (blake2b_spec 2 [] [5])))
   \<and> rx_blake2b (Some [0]) 65 (Some [5]) 1 = (- 1, Some [0])"
  using rx_blake2b_correct [where inp = "Some [5]" and n = 1 and out = "Some [0, 0, 0]" and outlen = 2]
    rx_blake2b_correct [where inp = "Some [5]" and n = 1 and out = "Some [0]" and outlen = 65]
  by simp

text \<open>C28: Argon2's variable-length hash writes \<open>H'\<close> of RFC 9106 for every output length a
  \<open>uint32_t\<close> can hold (it fails on 0 and above), chaining 64-byte hashes and keeping their halves.\<close>

theorem rxa2_blake2b_long_correct:
  assumes "length out = outlen" and "case inp of None \<Rightarrow> n = 0 | Some d \<Rightarrow> length d = n"
  shows "rxa2_blake2b_long out outlen inp n =
    (if outlen = 0 \<or> 2 ^ 32 - 1 < outlen then (- 1, out)
     else (0, blake2b_long_spec outlen (case inp of None \<Rightarrow> [] | Some d \<Rightarrow> d)))"
proof (cases "outlen = 0 \<or> 2 ^ 32 - 1 < outlen")
  case True
  then show ?thesis by (auto simp: rxa2_blake2b_long_def rx_blake2b_init_def)
next
  case False
  then show ?thesis
    using rxa2_blake2b_long_ok [of outlen out inp n] assms by (simp add: opt_len_def)
qed

theorem rxa2_blake2b_long_correct_witness:
  "rxa2_blake2b_long (replicate 100 0) 100 (Some [1, 2]) 2 = (0, blake2b_long_spec 100 [1, 2])"
  using rxa2_blake2b_long_correct [where out = "replicate 100 0" and outlen = 100 and inp = "Some [1, 2]" and n = 2] by simp

text \<open>A state is single-use: once finalised, or once initialisation was refused, every further
  update with data and every further finalisation fails and changes neither the state nor the
  output.\<close>

theorem BLAKE2b_single_use:
  assumes "b2_inv S" and "unat (b2_outlen S) \<le> n" and "0 < k"
    and dead: "T = snd (snd (rx_blake2b_final (Some S) (Some dst) n)) \<or>
      64 < m \<and> T = snd (rx_blake2b_init (Some S) m)"
  shows "rx_blake2b_update T inp k = (- 1, T) \<and> rx_blake2b_final T out l = (- 1, out, T)"
proof -
  have "\<exists>S'. T = Some S' \<and> b2_f S' ! 0 \<noteq> 0"
    using dead
  proof
    assume "T = snd (snd (rx_blake2b_final (Some S) (Some dst) n))"
    then show ?thesis using final_digest [OF assms(1,2), of dst] by (metis snd_conv)
  next
    assume "64 < m \<and> T = snd (rx_blake2b_init (Some S) m)"
    then show ?thesis
      using assms(1) by (simp add: rx_blake2b_init_def blake2b_invalidate_state_def
          blake2b_set_lastblock_def b2_inv_def)
  qed
  then show ?thesis
    using assms(3) by (auto simp: rx_blake2b_update_def rx_blake2b_final_def split: option.splits)
qed

theorem BLAKE2b_single_use_witness:
  "rx_blake2b_update (snd (rx_blake2b_init (Some uninit_blake2b) 65)) (Some [1]) 1
    = (- 1, snd (rx_blake2b_init (Some uninit_blake2b) 65))"
proof -
  have inv: "b2_inv uninit_blake2b" "unat (b2_outlen uninit_blake2b) \<le> 0"
    by (simp_all add: b2_inv_def uninit_blake2b_def)
  show ?thesis
    by (rule BLAKE2b_single_use [where m = 65, OF inv zero_less_one disjI2 [OF conjI [OF _ refl]], THEN conjunct1])
      simp
qed

end
