(* ===== verification/Blake256.thy ===== *)
theory Blake256
  imports Streaming Endian
begin

text \<open>
  \<open>cn/c_blake256.c\<close>: BLAKE-256, BLAKE-224 and HMAC over them. Lengths of updates are in bits; the
  code handles whole bytes only. The second half states the SHA-3 proposal's BLAKE-256 and shows
  what the code computes: the digest when each piece fits the buffer (in particular for one-shot
  hashing and HMAC), and which pieces make the update lose or displace the bytes it had buffered.
\<close>

section \<open>Constants\<close>

definition U8TO32 :: "bytes \<Rightarrow> u32" where
  "U8TO32 p = push_bit 24 (ucast (p ! 0)) OR push_bit 16 (ucast (p ! 1)) OR
     push_bit 8 (ucast (p ! 2)) OR ucast (p ! 3)"

definition U32TO8 :: "u32 \<Rightarrow> bytes" where
  "U32TO8 v = [ucast (drop_bit 24 v), ucast (drop_bit 16 v), ucast (drop_bit 8 v), ucast v]"

definition blake256_sigma :: "nat list list" where
  "blake256_sigma = [
    [0, 1, 2, 3, 4, 5, 6, 7, 8, 9, 10, 11, 12, 13, 14, 15],
    [14, 10, 4, 8, 9, 15, 13, 6, 1, 12, 0, 2, 11, 7, 5, 3],
    [11, 8, 12, 0, 5, 2, 15, 13, 10, 14, 3, 6, 7, 1, 9, 4],
    [7, 9, 3, 1, 13, 12, 11, 14, 2, 6, 5, 10, 4, 0, 15, 8],
    [9, 0, 5, 7, 2, 4, 10, 15, 14, 1, 11, 12, 6, 8, 3, 13],
    [2, 12, 6, 10, 0, 11, 8, 3, 4, 13, 7, 5, 15, 14, 1, 9],
    [12, 5, 1, 15, 14, 13, 4, 10, 0, 7, 6, 3, 9, 2, 8, 11],
    [13, 11, 7, 14, 12, 1, 3, 9, 5, 0, 15, 4, 8, 6, 2, 10],
    [6, 15, 14, 9, 11, 3, 0, 8, 12, 2, 13, 7, 1, 4, 10, 5],
    [10, 2, 8, 4, 7, 6, 1, 5, 15, 11, 9, 14, 3, 12, 13, 0],
    [0, 1, 2, 3, 4, 5, 6, 7, 8, 9, 10, 11, 12, 13, 14, 15],
    [14, 10, 4, 8, 9, 15, 13, 6, 1, 12, 0, 2, 11, 7, 5, 3],
    [11, 8, 12, 0, 5, 2, 15, 13, 10, 14, 3, 6, 7, 1, 9, 4],
    [7, 9, 3, 1, 13, 12, 11, 14, 2, 6, 5, 10, 4, 0, 15, 8]]"

definition cst :: "u32 list" where
  "cst = [
    0x243F6A88, 0x85A308D3, 0x13198A2E, 0x03707344,
    0xA4093822, 0x299F31D0, 0x082EFA98, 0xEC4E6C89,
    0x452821E6, 0x38D01377, 0xBE5466CF, 0x34E90C6C,
    0xC0AC29B7, 0xC97C50DD, 0x3F84D5B5, 0xB5470917]"

definition padding :: bytes where
  "padding = 0x80 # replicate 63 0"

section \<open>The state and the compression function\<close>

text \<open>\<open>buflen\<close> counts bits; it is a C \<open>int\<close> that stays between 0 and 512.\<close>

record b256_state =
  b_h :: "u32 list"
  b_s :: "u32 list"
  b_t :: "u32 list"
  b_buflen :: nat
  b_nullt :: nat
  b_buf :: bytes

definition blake256_ROT :: "u32 \<Rightarrow> nat \<Rightarrow> u32" where
  "blake256_ROT x n = push_bit (32 - n) x OR drop_bit n x"

definition blake256_G ::
    "u32 list \<Rightarrow> nat list \<Rightarrow> nat \<Rightarrow> nat \<Rightarrow> nat \<Rightarrow> nat \<Rightarrow> nat \<Rightarrow> u32 list \<Rightarrow> u32 list" where
  "blake256_G m sig a b c d e v =
    (let v = v[a := v ! a + ((m ! (sig ! e) XOR cst ! (sig ! (e + 1))) + v ! b)];
         v = v[d := blake256_ROT (v ! d XOR v ! a) 16];
         v = v[c := v ! c + v ! d];
         v = v[b := blake256_ROT (v ! b XOR v ! c) 12];
         v = v[a := v ! a + ((m ! (sig ! (e + 1)) XOR cst ! (sig ! e)) + v ! b)];
         v = v[d := blake256_ROT (v ! d XOR v ! a) 8];
         v = v[c := v ! c + v ! d]
     in v[b := blake256_ROT (v ! b XOR v ! c) 7])"

definition blake256_round :: "u32 list \<Rightarrow> u32 list \<Rightarrow> nat \<Rightarrow> u32 list" where
  "blake256_round m v i =
    (let sig = blake256_sigma ! i;
         v = blake256_G m sig 0 4 8 12 0 v;
         v = blake256_G m sig 1 5 9 13 2 v;
         v = blake256_G m sig 2 6 10 14 4 v;
         v = blake256_G m sig 3 7 11 15 6 v;
         v = blake256_G m sig 3 4 9 14 14 v;
         v = blake256_G m sig 2 7 8 13 12 v;
         v = blake256_G m sig 0 5 10 15 8 v
     in blake256_G m sig 1 6 11 12 10 v)"

definition blake256_compress :: "b256_state \<Rightarrow> bytes \<Rightarrow> b256_state" where
  "blake256_compress S block =
    (let m = map (\<lambda>i. U8TO32 (sub (i * 4) 4 block)) [0..<16];
         v = b_h S @ [b_s S ! 0 XOR 0x243F6A88, b_s S ! 1 XOR 0x85A308D3,
           b_s S ! 2 XOR 0x13198A2E, b_s S ! 3 XOR 0x03707344,
           0xA4093822, 0x299F31D0, 0x082EFA98, 0xEC4E6C89];
         v = (if b_nullt S = 0 then
                v[12 := v ! 12 XOR b_t S ! 0, 13 := v ! 13 XOR b_t S ! 0,
                  14 := v ! 14 XOR b_t S ! 1, 15 := v ! 15 XOR b_t S ! 1]
              else v);
         v = for_range 0 14 (blake256_round m) v;
         h = for_range 0 16 (\<lambda>h i. h[i mod 8 := h ! (i mod 8) XOR v ! i]) (b_h S);
         h = for_range 0 8 (\<lambda>h i. h[i := h ! i XOR b_s S ! (i mod 4)]) h
     in S\<lparr>b_h := h\<rparr>)"

section \<open>Operations\<close>

definition blake256_init :: "b256_state \<Rightarrow> b256_state" where
  "blake256_init S = S\<lparr>b_h := [0x6A09E667, 0xBB67AE85, 0x3C6EF372, 0xA54FF53A,
       0x510E527F, 0x9B05688C, 0x1F83D9AB, 0x5BE0CD19],
     b_t := [0, 0], b_buflen := 0, b_nullt := 0, b_s := [0, 0, 0, 0]\<rparr>"

definition blake224_init :: "b256_state \<Rightarrow> b256_state" where
  "blake224_init S = S\<lparr>b_h := [0xC1059ED8, 0x367CD507, 0x3070DD17, 0xF70E5939,
       0xFFC00B31, 0x68581511, 0x64F98FA7, 0xBEFA4FA4],
     b_t := [0, 0], b_buflen := 0, b_nullt := 0, b_s := [0, 0, 0, 0]\<rparr>"

text \<open>\<open>S->t[0] += 512; if (S->t[0] == 0) S->t[1]++;\<close>\<close>

definition blake256_count_block :: "b256_state \<Rightarrow> b256_state" where
  "blake256_count_block S =
    (let S = S\<lparr>b_t := (b_t S)[0 := b_t S ! 0 + 512]\<rparr>
     in if b_t S ! 0 = 0 then S\<lparr>b_t := (b_t S)[1 := b_t S ! 1 + 1]\<rparr> else S)"

function blake256_blocks :: "b256_state \<Rightarrow> bytes \<Rightarrow> nat \<Rightarrow> b256_state \<times> bytes \<times> nat" where
  "blake256_blocks S data datalen =
     (if 512 \<le> datalen then
        let S = blake256_count_block S;
            S = blake256_compress S (take 64 data)
        in blake256_blocks S (drop 64 data) (datalen - 512)
      else (S, data, datalen))"
  by pat_completeness auto
termination
  by (relation "measure (\<lambda>(S, data, n). n)") auto

declare blake256_blocks.simps [simp del]

text \<open>The branch that completes the buffered block; the last component is \<open>left\<close> afterwards.\<close>

definition blake256_fill :: "b256_state \<Rightarrow> bytes \<Rightarrow> nat \<Rightarrow> b256_state \<times> bytes \<times> nat \<times> nat" where
  "blake256_fill S data datalen =
    (let left = drop_bit 3 (b_buflen S);
         fill = 64 - left
     in if left \<noteq> 0 \<and> fill \<le> drop_bit 3 datalen AND 0x3F then
          let S = S\<lparr>b_buf := blit (b_buf S) left (take fill data)\<rparr>;
              S = blake256_count_block S;
              S = blake256_compress S (b_buf S)
          in (S, drop fill data, datalen - push_bit 3 fill, 0)
        else (S, data, datalen, left))"

definition blake256_update :: "b256_state \<Rightarrow> bytes \<Rightarrow> nat \<Rightarrow> b256_state" where
  "blake256_update S data datalen =
    (let (S, data, datalen, left) = blake256_fill S data datalen;
         (S, data, datalen) = blake256_blocks S data datalen
     in if 0 < datalen then
          S\<lparr>b_buf := blit (b_buf S) left (take (drop_bit 3 datalen) data),
            b_buflen := push_bit 3 left + datalen\<rparr>
        else S\<lparr>b_buflen := 0\<rparr>)"

definition blake224_update :: "b256_state \<Rightarrow> bytes \<Rightarrow> nat \<Rightarrow> b256_state" where
  "blake224_update S data datalen = blake256_update S data datalen"

text \<open>\<open>S->t[0] -= n\<close>.\<close>

definition blake256_uncount :: "b256_state \<Rightarrow> nat \<Rightarrow> b256_state" where
  "blake256_uncount S n = S\<lparr>b_t := (b_t S)[0 := b_t S ! 0 - of_nat n]\<rparr>"

definition blake256_final_h :: "b256_state \<Rightarrow> u8 \<Rightarrow> u8 \<Rightarrow> bytes \<times> b256_state" where
  "blake256_final_h S pa pb =
    (let lo = b_t S ! 0 + of_nat (b_buflen S);
         hi = b_t S ! 1;
         hi = (if lo < of_nat (b_buflen S) then hi + 1 else hi);
         msglen = U32TO8 hi @ U32TO8 lo;
         S = (if b_buflen S = 440 then
                blake256_update (blake256_uncount S 8) [pa] 8
              else
                let S = (if b_buflen S < 440 then
                       let S = (if b_buflen S = 0 then S\<lparr>b_nullt := 1\<rparr> else S);
                           S = blake256_uncount S (440 - b_buflen S)
                       in blake256_update S padding (440 - b_buflen S)
                     else
                       let S = blake256_uncount S (512 - b_buflen S);
                           S = blake256_update S padding (512 - b_buflen S);
                           S = blake256_uncount S 440;
                           S = blake256_update S (drop 1 padding) 440
                       in S\<lparr>b_nullt := 1\<rparr>);
                    S = blake256_update S [pb] 8
                in blake256_uncount S 8);
         S = blake256_uncount S 64;
         S = blake256_update S msglen 64
     in (concat (map (\<lambda>i. U32TO8 (b_h S ! i)) [0..<8]), S))"

definition blake256_final :: "b256_state \<Rightarrow> bytes \<times> b256_state" where
  "blake256_final S = blake256_final_h S 0x81 0x01"

definition blake224_final :: "b256_state \<Rightarrow> bytes \<times> b256_state" where
  "blake224_final S = blake256_final_h S 0x80 0x00"

text \<open>A state on the stack before initialisation.\<close>

definition uninit_b256 :: b256_state where
  "uninit_b256 = \<lparr>b_h = replicate 8 0, b_s = replicate 4 0, b_t = [0, 0], b_buflen = 0, b_nullt = 0,
     b_buf = replicate 64 0\<rparr>"

definition blake256_hash :: "bytes \<Rightarrow> nat \<Rightarrow> bytes" where
  "blake256_hash inp inlen =
     fst (blake256_final (blake256_update (blake256_init uninit_b256) inp (inlen * 8)))"

definition blake224_hash :: "bytes \<Rightarrow> nat \<Rightarrow> bytes" where
  "blake224_hash inp inlen =
     fst (blake224_final (blake224_update (blake224_init uninit_b256) inp (inlen * 8)))"

section \<open>HMAC\<close>

record hmac_state =
  inner :: b256_state
  outer :: b256_state

definition hmac_blake256_init :: "hmac_state \<Rightarrow> bytes \<Rightarrow> nat \<Rightarrow> hmac_state" where
  "hmac_blake256_init S key keylen =
    (let (key, keylen) = (if 64 < keylen then (blake256_hash key keylen, 32) else (key, keylen));
         S = S\<lparr>inner := blake256_init (inner S)\<rparr>;
         pad = xor_at (replicate 64 0x36) 0 (take keylen key);
         S = S\<lparr>inner := blake256_update (inner S) pad 512\<rparr>;
         S = S\<lparr>outer := blake256_init (outer S)\<rparr>;
         pad = xor_at (replicate 64 0x5c) 0 (take keylen key)
     in S\<lparr>outer := blake256_update (outer S) pad 512\<rparr>)"

definition hmac_blake224_init :: "hmac_state \<Rightarrow> bytes \<Rightarrow> nat \<Rightarrow> hmac_state" where
  "hmac_blake224_init S key keylen =
    (let (key, keylen) = (if 64 < keylen then (blake256_hash key keylen, 28) else (key, keylen));
         S = S\<lparr>inner := blake224_init (inner S)\<rparr>;
         pad = xor_at (replicate 64 0x36) 0 (take keylen key);
         S = S\<lparr>inner := blake224_update (inner S) pad 512\<rparr>;
         S = S\<lparr>outer := blake224_init (outer S)\<rparr>;
         pad = xor_at (replicate 64 0x5c) 0 (take keylen key)
     in S\<lparr>outer := blake224_update (outer S) pad 512\<rparr>)"

definition hmac_blake256_update :: "hmac_state \<Rightarrow> bytes \<Rightarrow> nat \<Rightarrow> hmac_state" where
  "hmac_blake256_update S data datalen = S\<lparr>inner := blake256_update (inner S) data datalen\<rparr>"

definition hmac_blake224_update :: "hmac_state \<Rightarrow> bytes \<Rightarrow> nat \<Rightarrow> hmac_state" where
  "hmac_blake224_update S data datalen = S\<lparr>inner := blake224_update (inner S) data datalen\<rparr>"

definition hmac_blake256_final :: "hmac_state \<Rightarrow> bytes \<times> hmac_state" where
  "hmac_blake256_final S =
    (let (ihash, i) = blake256_final (inner S);
         j = blake256_update (outer S) ihash 256;
         (digest, j) = blake256_final j
     in (digest, \<lparr>inner = i, outer = j\<rparr>))"

definition hmac_blake224_final :: "hmac_state \<Rightarrow> bytes \<times> hmac_state" where
  "hmac_blake224_final S =
    (let (ihash, i) = blake224_final (inner S);
         j = blake224_update (outer S) ihash 224;
         (digest, j) = blake224_final j
     in (digest, \<lparr>inner = i, outer = j\<rparr>))"

definition uninit_hmac256 :: hmac_state where
  "uninit_hmac256 = \<lparr>inner = uninit_b256, outer = uninit_b256\<rparr>"

definition hmac_blake256_hash :: "bytes \<Rightarrow> nat \<Rightarrow> bytes \<Rightarrow> nat \<Rightarrow> bytes" where
  "hmac_blake256_hash key keylen inp inlen =
     fst (hmac_blake256_final (hmac_blake256_update (hmac_blake256_init uninit_hmac256 key keylen) inp (inlen * 8)))"

definition hmac_blake224_hash :: "bytes \<Rightarrow> nat \<Rightarrow> bytes \<Rightarrow> nat \<Rightarrow> bytes" where
  "hmac_blake224_hash key keylen inp inlen =
     fst (hmac_blake224_final (hmac_blake224_update (hmac_blake224_init uninit_hmac256 key keylen) inp (inlen * 8)))"

section \<open>BLAKE-256 of the SHA-3 proposal\<close>

definition b256_G :: "nat \<Rightarrow> nat \<Rightarrow> nat \<Rightarrow> nat \<Rightarrow> u32 \<Rightarrow> u32 \<Rightarrow> u32 list \<Rightarrow> u32 list" where
  "b256_G a b c d x y v =
    (let v = v[a := v ! a + v ! b + x];
         v = v[d := word_rotr 16 (v ! d XOR v ! a)];
         v = v[c := v ! c + v ! d];
         v = v[b := word_rotr 12 (v ! b XOR v ! c)];
         v = v[a := v ! a + v ! b + y];
         v = v[d := word_rotr 8 (v ! d XOR v ! a)];
         v = v[c := v ! c + v ! d]
     in v[b := word_rotr 7 (v ! b XOR v ! c)])"

text \<open>\<open>G\<^sub>0 \<dots> G\<^sub>3\<close> on the columns and then \<open>G\<^sub>4 \<dots> G\<^sub>7\<close> on the diagonals.\<close>

definition b256_Gi :: "u32 list \<Rightarrow> nat \<Rightarrow> u32 list \<Rightarrow> nat \<times> nat \<times> nat \<times> nat \<times> nat \<Rightarrow> u32 list" where
  "b256_Gi m r v g =
    (case g of (i, a, b, c, d) \<Rightarrow>
      let s = blake256_sigma ! (r mod 10)
      in b256_G a b c d (m ! (s ! (2 * i)) XOR cst ! (s ! (2 * i + 1))) (m ! (s ! (2 * i + 1)) XOR cst ! (s ! (2 * i))) v)"

definition b256_spec_round :: "u32 list \<Rightarrow> u32 list \<Rightarrow> nat \<Rightarrow> u32 list" where
  "b256_spec_round m v r = foldl (b256_Gi m r) v
    [(0, 0, 4, 8, 12), (1, 1, 5, 9, 13), (2, 2, 6, 10, 14), (3, 3, 7, 11, 15),
     (4, 0, 5, 10, 15), (5, 1, 6, 11, 12), (6, 2, 7, 8, 13), (7, 3, 4, 9, 14)]"

text \<open>Chain value, salt, counter of message bits, block.\<close>

definition b256_F :: "u32 list \<Rightarrow> u32 list \<Rightarrow> nat \<Rightarrow> bytes \<Rightarrow> u32 list" where
  "b256_F h s t block =
    (let m = map (\<lambda>i. word_of_le (rev (sub (4 * i) 4 block))) [0..<16];
         t0 = of_nat t; t1 = of_nat (t div 2 ^ 32);
         v = h @ map2 (XOR) s (take 4 cst) @ map2 (XOR) [t0, t0, t1, t1] (take 4 (drop 4 cst));
         v = for_range 0 14 (b256_spec_round m) v
     in map (\<lambda>i. h ! i XOR s ! (i mod 4) XOR v ! i XOR v ! (i + 8)) [0..<8])"

text \<open>
  Padding to 447 mod 512 with a one and zeros, a last bit (1 for BLAKE-256, 0 for BLAKE-224), the
  length in bits. The counter of a block is the number of message bits up to its end, and 0 for a
  block of padding only. In bytes, \<open>n\<close> message bytes; \<open>last\<close> is the last padding byte.
\<close>

definition b256_pad :: "u8 \<Rightarrow> nat \<Rightarrow> bytes" where
  "b256_pad final_bit n =
    (let k = (119 - n mod 64) mod 64;
         z = (if k = 0 then [0x80 OR final_bit] else 0x80 # replicate (k - 1) 0 @ [final_bit])
     in z @ rev (le_of_word 8 (of_nat (8 * n) :: u64)))"

definition b256_counter :: "nat \<Rightarrow> nat \<Rightarrow> nat" where
  "b256_counter n i = (if 64 * i < n then min (512 * (i + 1)) (8 * n) else 0)"

definition b256_spec :: "u32 list \<Rightarrow> u8 \<Rightarrow> bytes \<Rightarrow> bytes" where
  "b256_spec h0 final_bit msg =
    (let f = (\<lambda>(h, i) b. (b256_F h [0, 0, 0, 0] (b256_counter (length msg) i) b, i + 1))
     in concat (map (\<lambda>w. rev (le_of_word 4 w))
          (fst (fst (absorb 64 0 f (h0, 0) (msg @ b256_pad final_bit (length msg)))))))"

section \<open>The compression function\<close>

lemma blake256_ROT_eq: "0 < n \<Longrightarrow> n < 32 \<Longrightarrow> blake256_ROT x n = word_rotr n x"
  using rotr32_eq [of n x] by (simp add: blake256_ROT_def rotr32_def or.commute)

lemma blake256_rotations:
  "blake256_ROT x 16 = word_rotr 16 x" "blake256_ROT x 12 = word_rotr 12 x"
  "blake256_ROT x 8 = word_rotr 8 x" "blake256_ROT x 7 = word_rotr 7 x"
  by (simp_all add: blake256_ROT_eq)

lemma add_swap: "x + (k + y) = x + y + (k :: u32)"
  by simp

lemma blake256_G_spec:
  assumes "r < 14" and "e = 2 * i"
  shows "blake256_G m (blake256_sigma ! r) a b c d e v = b256_Gi m r v (i, a, b, c, d)"
proof -
  have "blake256_sigma ! r = blake256_sigma ! (r mod 10)"
  proof (cases "r < 10")
    case False
    then have "r = 10 \<or> r = 11 \<or> r = 12 \<or> r = 13" using assms(1) by auto
    then show ?thesis by (auto simp: blake256_sigma_def)
  qed simp
  then show ?thesis
    by (simp only: blake256_G_def b256_G_def b256_Gi_def blake256_rotations assms(2) add_swap prod.case Let_def)
qed

text \<open>\<open>G\<close> reads and writes four positions; on disjoint positions the order does not matter.\<close>

definition b256_g :: "u32 \<Rightarrow> u32 \<Rightarrow> u32 \<Rightarrow> u32 \<Rightarrow> u32 \<Rightarrow> u32 \<Rightarrow> u32 \<times> u32 \<times> u32 \<times> u32" where
  "b256_g x y p q r s =
    (let p = p + q + x; s = word_rotr 16 (s XOR p); r = r + s; q = word_rotr 12 (q XOR r);
         p = p + q + y; s = word_rotr 8 (s XOR p); r = r + s
     in (p, word_rotr 7 (q XOR r), r, s))"

definition put4 :: "nat \<Rightarrow> nat \<Rightarrow> nat \<Rightarrow> nat \<Rightarrow> u32 \<times> u32 \<times> u32 \<times> u32 \<Rightarrow> u32 list \<Rightarrow> u32 list" where
  "put4 a b c d t v = (case t of (p, q, r, s) \<Rightarrow> v[a := p, b := q, c := r, d := s])"

lemma length_put4 [simp]: "length (put4 a b c d t v) = length v"
  by (simp add: put4_def split: prod.split)

lemma nth_put4: "i \<noteq> a \<Longrightarrow> i \<noteq> b \<Longrightarrow> i \<noteq> c \<Longrightarrow> i \<noteq> d \<Longrightarrow> put4 a b c d t v ! i = v ! i"
  by (simp add: put4_def split: prod.split)

lemma b256_G_put:
  assumes d: "distinct [a, b, c, d]" and l: "a < length v" "b < length v" "c < length v" "d < length v"
  shows "b256_G a b c d x y v = put4 a b c d (b256_g x y (v ! a) (v ! b) (v ! c) (v ! d)) v"
proof -
  define p s where "p = v ! a + v ! b + x" and "s = word_rotr 16 (v ! d XOR p)"
  define r where "r = v ! c + s"
  define q where "q = word_rotr 12 (v ! b XOR r)"
  define p' where "p' = p + q + y"
  define s' where "s' = word_rotr 8 (s XOR p')"
  define r' where "r' = r + s'"
  define q' where "q' = word_rotr 7 (q XOR r')"
  note defs = p_def s_def r_def q_def p'_def s'_def r'_def q'_def
  have "b256_G a b c d x y v = v[a := p, d := s, c := r, b := q, a := p', d := s', c := r', b := q']"
    unfolding b256_G_def
    using d l by (simp add: Let_def defs [symmetric])
  also have "\<dots> = v[a := p', b := q', c := r', d := s']"
    using d l by (intro nth_equalityI) (auto simp: nth_list_update)
  also have "\<dots> = put4 a b c d (b256_g x y (v ! a) (v ! b) (v ! c) (v ! d)) v"
    by (simp add: put4_def b256_g_def Let_def defs [symmetric])
  finally show ?thesis .
qed

lemma b256_G_comm:
  assumes d: "distinct [a, b, c, d, a', b', c', d']" and l: "\<forall>i \<in> {a, b, c, d, a', b', c', d'}. i < length v"
  shows "b256_G a b c d x y (b256_G a' b' c' d' x' y' v) = b256_G a' b' c' d' x' y' (b256_G a b c d x y v)"
proof -
  obtain p q r s where 1: "b256_g x y (v ! a) (v ! b) (v ! c) (v ! d) = (p, q, r, s)"
    by (metis prod_cases4)
  obtain p' q' r' s' where 2: "b256_g x' y' (v ! a') (v ! b') (v ! c') (v ! d') = (p', q', r', s')"
    by (metis prod_cases4)
  have "b256_G a b c d x y (b256_G a' b' c' d' x' y' v) = put4 a b c d (p, q, r, s) (put4 a' b' c' d' (p', q', r', s') v)"
    using d l 1 2 by (simp add: b256_G_put nth_put4)
  moreover have "distinct [a', b', c', d', a, b, c, d]" using d by auto
  then have "b256_G a' b' c' d' x' y' (b256_G a b c d x y v) = put4 a' b' c' d' (p', q', r', s') (put4 a b c d (p, q, r, s) v)"
    using l 1 2 by (simp add: b256_G_put nth_put4)
  moreover have "put4 a b c d (p, q, r, s) (put4 a' b' c' d' (p', q', r', s') v)
      = put4 a' b' c' d' (p', q', r', s') (put4 a b c d (p, q, r, s) v)"
    using d l by (intro nth_equalityI) (auto simp: put4_def nth_list_update)
  ultimately show ?thesis by simp
qed

lemma length_b256_G [simp]: "length (b256_G a b c d x y v) = length v"
  by (simp add: b256_G_def Let_def)

lemma length_b256_Gi [simp]: "length (b256_Gi m r v g) = length v"
  by (simp add: b256_Gi_def Let_def split: prod.split)

lemma b256_Gi_comm:
  assumes "length v = 16" and "distinct [a, b, c, d, a', b', c', d']" and "\<forall>i \<in> {a, b, c, d, a', b', c', d'}. i < 16"
  shows "b256_Gi m r (b256_Gi m r v (j, a', b', c', d')) (i, a, b, c, d)
    = b256_Gi m r (b256_Gi m r v (i, a, b, c, d)) (j, a', b', c', d')"
  unfolding b256_Gi_def prod.case Let_def by (rule b256_G_comm) (use assms in simp_all)

lemma blake256_round_spec:
  assumes "r < 14" and "length v = 16"
  shows "blake256_round m v r = b256_spec_round m v r"
proof -
  let ?G = "b256_Gi m r"
  let ?v = "?G (?G (?G (?G v (0, 0, 4, 8, 12)) (1, 1, 5, 9, 13)) (2, 2, 6, 10, 14)) (3, 3, 7, 11, 15)"
  let ?p4 = "(4, 0, 5, 10, 15)" and ?p5 = "(5, 1, 6, 11, 12)" and ?p6 = "(6, 2, 7, 8, 13)" and ?p7 = "(7, 3, 4, 9, 14)"
  have "blake256_round m v r = ?G (?G (?G (?G ?v ?p7) ?p6) ?p4) ?p5"
    by (simp only: blake256_round_def Let_def)
      (simp add: blake256_G_spec [OF assms(1), of _ 0] blake256_G_spec [OF assms(1), of _ 1]
        blake256_G_spec [OF assms(1), of _ 2] blake256_G_spec [OF assms(1), of _ 3]
        blake256_G_spec [OF assms(1), of _ 4] blake256_G_spec [OF assms(1), of _ 5]
        blake256_G_spec [OF assms(1), of _ 6] blake256_G_spec [OF assms(1), of _ 7])
  also have "?G (?G ?v ?p7) ?p6 = ?G (?G ?v ?p6) ?p7"
    by (rule b256_Gi_comm) (simp_all add: assms)
  also have "?G (?G (?G ?v ?p6) ?p7) ?p4 = ?G (?G (?G ?v ?p6) ?p4) ?p7"
    by (rule b256_Gi_comm) (simp_all add: assms)
  also have "?G (?G ?v ?p6) ?p4 = ?G (?G ?v ?p4) ?p6"
    by (rule b256_Gi_comm) (simp_all add: assms)
  also have "?G (?G (?G (?G ?v ?p4) ?p6) ?p7) ?p5 = ?G (?G (?G (?G ?v ?p4) ?p6) ?p5) ?p7"
    by (rule b256_Gi_comm) (simp_all add: assms)
  also have "?G (?G (?G ?v ?p4) ?p6) ?p5 = ?G (?G (?G ?v ?p4) ?p5) ?p6"
    by (rule b256_Gi_comm) (simp_all add: assms)
  finally show ?thesis by (simp add: b256_spec_round_def)
qed

lemma U8TO32_eq: "length p = 4 \<Longrightarrow> U8TO32 p = word_of_le (rev p)"
  by (subst (2) list_4, assumption)
    (simp add: U8TO32_def push_bit_or push_bit_push_bit ac_simps)

lemma U32TO8_eq: "U32TO8 v = rev (le_of_word 4 v)"
  by (simp add: U32TO8_def numeral_eq_Suc drop_bit_drop_bit)

lemma length_U32TO8 [simp, len_simps]: "length (U32TO8 v) = 4"
  by (simp add: U32TO8_def)

definition b256_t :: "nat \<Rightarrow> u32 list" where
  "b256_t n = [of_nat n, of_nat (n div 2 ^ 32)]"

lemma for_range_xor:
  fixes h :: "u32 list"
  assumes "length h = 8"
  shows "for_range 0 8 (\<lambda>h i. h[i := h ! i XOR g i]) h = map (\<lambda>i. h ! i XOR g i) [0..<8]"
proof -
  let ?P = "\<lambda>n s. length s = 8 \<and> (\<forall>j < 8. s ! j = (if j < n then h ! j XOR g j else h ! j))"
  have "?P 8 (for_range 0 8 (\<lambda>h i. h[i := h ! i XOR g i]) h)"
    by (rule for_range_invariant [where P = ?P]) (auto simp: assms nth_list_update less_Suc_eq)
  then show ?thesis by (intro nth_equalityI) auto
qed

lemma for_range_16: "for_range 0 16 f s = for_range 0 8 (\<lambda>s i. f s (i + 8)) (for_range 0 8 f s)"
  using for_range_split [of 0 8 8 f s] for_range_shift [of 8 8 f "for_range 0 8 f s"]
  by (simp add: add.commute)

lemma blake256_compress_spec:
  assumes "length (b_h S) = 8" and "b_s S = [0, 0, 0, 0]" and "length block = 64"
    and "(if b_nullt S = 0 then b_t S = b256_t n else n = 0)"
  shows "blake256_compress S block = S\<lparr>b_h := b256_F (b_h S) [0, 0, 0, 0] n block\<rparr>"
proof -
  let ?m = "map (\<lambda>i. U8TO32 (sub (i * 4) 4 block)) [0..<16]"
  have m: "?m = map (\<lambda>i. word_of_le (rev (sub (4 * i) 4 block))) [0..<16]"
    using assms(3) by (auto simp: U8TO32_eq mult.commute)
  have rounds: "for_range 0 14 (blake256_round M) v = for_range 0 14 (b256_spec_round M) v
      \<and> length (for_range 0 14 (blake256_round M) v) = 16" if "length v = 16" for M v
    by (rule for_range_sim [where h = id and P = "\<lambda>v. length v = 16" and s = v, unfolded id_apply])
      (simp_all add: that blake256_round_spec b256_spec_round_def)
  obtain a b c d e f g h where H: "b_h S = [a, b, c, d, e, f, g, h]"
    using list_8 [OF assms(1)] by blast
  let ?v = "b_h S @ map2 (XOR) [0, 0, 0, 0] (take 4 cst) @
    map2 (XOR) [of_nat n, of_nat n, of_nat (n div 2 ^ 32), of_nat (n div 2 ^ 32)] (take 4 (drop 4 cst))"
  have v: "(let v = b_h S @ [b_s S ! 0 XOR 0x243F6A88, b_s S ! 1 XOR 0x85A308D3,
           b_s S ! 2 XOR 0x13198A2E, b_s S ! 3 XOR 0x03707344,
           0xA4093822, 0x299F31D0, 0x082EFA98, 0xEC4E6C89]
      in if b_nullt S = 0 then
           v[12 := v ! 12 XOR b_t S ! 0, 13 := v ! 13 XOR b_t S ! 0,
             14 := v ! 14 XOR b_t S ! 1, 15 := v ! 15 XOR b_t S ! 1]
         else v) = ?v"
    using assms(4) by (auto simp: H assms(2) cst_def b256_t_def ac_simps split: if_splits)
  have len: "length ?v = 16" by (simp add: H cst_def)
  obtain w where w: "for_range 0 14 (b256_spec_round ?m) ?v = w" "length w = 16"
    using rounds [OF len, of ?m] by auto
  have fin: "for_range 0 8 (\<lambda>h i. h[i := h ! i XOR [0, 0, 0, 0 :: u32] ! (i mod 4)])
      (for_range 0 16 (\<lambda>h i. h[i mod 8 := h ! (i mod 8) XOR w ! i]) (b_h S))
    = map (\<lambda>i. b_h S ! i XOR [0, 0, 0, 0] ! (i mod 4) XOR w ! i XOR w ! (i + 8)) [0..<8]"
  proof -
    have l: "length (b_h S) = 8" by (simp add: H)
    have "for_range 0 16 (\<lambda>h i. h[i mod 8 := h ! (i mod 8) XOR w ! i]) (b_h S)
        = for_range 0 8 (\<lambda>h i. h[i := h ! i XOR w ! (i + 8)]) (for_range 0 8 (\<lambda>h i. h[i := h ! i XOR w ! i]) (b_h S))"
      unfolding for_range_16 by (intro for_range_cong) simp_all
    also have "\<dots> = map (\<lambda>i. b_h S ! i XOR w ! i XOR w ! (i + 8)) [0..<8]"
      by (simp add: for_range_xor l ac_simps cong: map_cong)
    finally show ?thesis
      by (simp add: for_range_xor l ac_simps cong: map_cong)
  qed
  show ?thesis
    using v rounds [OF len, of ?m] w fin
    by (simp only: blake256_compress_def b256_F_def Let_def m assms(2) simp_thms)
qed

section \<open>The buffer\<close>

definition b256_pend :: "b256_state \<Rightarrow> bytes" where
  "b256_pend S = take (b_buflen S div 8) (b_buf S)"

definition b256_inv :: "b256_state \<Rightarrow> bool" where
  "b256_inv S \<longleftrightarrow> length (b_h S) = 8 \<and> b_s S = [0, 0, 0, 0] \<and> length (b_t S) = 2 \<and> b_nullt S \<le> 1 \<and>
     length (b_buf S) = 64 \<and> b_buflen S < 512 \<and> 8 dvd b_buflen S"

definition b256_core :: "b256_state \<Rightarrow> u32 list \<times> u32 list" where
  "b256_core S = (b_h S, b_t S)"

definition b256_mix :: "u32 list \<times> u32 list \<Rightarrow> bytes \<Rightarrow> u32 list \<times> u32 list" where
  "b256_mix k b = b256_core (blake256_compress (blake256_count_block
     (uninit_b256\<lparr>b_h := fst k, b_t := snd k\<rparr>)) b)"

lemma b256_mix_frame:
  assumes "b_s S = [0, 0, 0, 0]" and "b_nullt S = 0"
  shows "blake256_compress (blake256_count_block S) b
    = S\<lparr>b_h := fst (b256_mix (b256_core S) b), b_t := snd (b256_mix (b256_core S) b)\<rparr>"
proof -
  have "(replicate 4 0 :: u32 list) = [0, 0, 0, 0]" by (simp add: numeral_eq_Suc)
  then show ?thesis
    using assms by (simp add: b256_mix_def b256_core_def blake256_compress_def blake256_count_block_def
        uninit_b256_def Let_def)
qed

lemma length_b256_pend: "b256_inv S \<Longrightarrow> 8 * length (b256_pend S) = b_buflen S \<and> length (b256_pend S) < 64"
  by (auto simp: b256_inv_def b256_pend_def)

lemma b256_pend_take: "b256_pend S = take (length (b256_pend S)) (b_buf S)"
  unfolding b256_pend_def by (metis append_eq_conv_conj append_take_drop_id)

lemma drop_bit_3: "drop_bit 3 (n :: nat) = n div 8" and push_bit_3: "push_bit 3 (n :: nat) = 8 * n"
  by (simp_all add: drop_bit_eq_div push_bit_eq_mult)

lemma blake256_blocks_absorb:
  assumes "b_s S = [0, 0, 0, 0]" and "b_nullt S = 0" and "n = 8 * length xs"
  shows "blake256_blocks S xs n = (let (k, rest) = absorb 64 0 b256_mix (b256_core S) xs
    in (S\<lparr>b_h := fst k, b_t := snd k\<rparr>, rest, 8 * length rest))"
  using assms
proof (induction S xs n rule: blake256_blocks.induct)
  case (1 S xs n)
  show ?case
  proof (cases "512 \<le> n")
    case True
    then show ?thesis
      using 1 by (simp add: blake256_blocks.simps [of S] absorb_step b256_mix_frame b256_core_def Let_def
          case_prod_beta diff_mult_distrib2)
  next
    case False
    then show ?thesis using 1 by (simp add: blake256_blocks.simps b256_core_def)
  qed
qed


text \<open>When the code's test decides as it should: nothing is buffered, the piece is a non-empty one
  that fits, or the part of it past whole blocks fills the buffered block.\<close>

definition b256_fits :: "nat \<Rightarrow> nat \<Rightarrow> bool" where
  "b256_fits left n \<longleftrightarrow> left = 0 \<or> 0 < n \<and> n < 64 \<or> 64 - left \<le> n mod 64"

text \<open>An update with whole bytes.\<close>

definition b256_upd :: "b256_state \<Rightarrow> bytes \<Rightarrow> b256_state" where
  "b256_upd S xs = blake256_update S xs (8 * length xs)"

text \<open>What follows the fill: whole blocks, then the rest goes into the buffer at \<open>left\<close>.\<close>

definition b256_finish :: "b256_state \<Rightarrow> nat \<Rightarrow> bytes \<Rightarrow> b256_state" where
  "b256_finish S left xs =
    (let (k, rest) = absorb 64 0 b256_mix (b256_core S) xs;
         T = S\<lparr>b_h := fst k, b_t := snd k\<rparr>
     in if rest = [] then T\<lparr>b_buflen := 0\<rparr>
        else T\<lparr>b_buf := blit (b_buf S) left rest, b_buflen := 8 * (left + length rest)\<rparr>)"

lemma b256_upd_fill:
  assumes "blake256_fill S xs (8 * length xs) = (T, ys, 8 * length ys, left)"
    and "b_s T = [0, 0, 0, 0]" and "b_nullt T = 0"
  shows "b256_upd S xs = b256_finish T left ys"
  using blake256_blocks_absorb [OF assms(2,3) refl, of ys]
  by (simp add: b256_upd_def blake256_update_def assms(1) b256_finish_def Let_def case_prod_beta
      drop_bit_3 push_bit_3)

lemma b256_upd_cases:
  assumes "b256_inv S" and "b_nullt S = 0"
  shows "64 - length (b256_pend S) \<le> length xs mod 64 \<Longrightarrow> b256_pend S \<noteq> [] \<Longrightarrow>
      b = b256_pend S @ take (64 - length (b256_pend S)) xs \<Longrightarrow>
      b256_upd S xs = b256_finish (S\<lparr>b_buf := b, b_h := fst (b256_mix (b256_core S) b), b_t := snd (b256_mix (b256_core S) b)\<rparr>)
        0 (drop (64 - length (b256_pend S)) xs)"
    and "b256_pend S = [] \<or> length xs mod 64 < 64 - length (b256_pend S) \<Longrightarrow>
      b256_upd S xs = b256_finish S (length (b256_pend S)) xs"
proof -
  let ?l = "length (b256_pend S)"
  have S: "b_s S = [0, 0, 0, 0]" "length (b_buf S) = 64" "b_buflen S div 8 = ?l" "?l < 64"
      "b256_pend S = take ?l (b_buf S)"
    using assms(1) length_b256_pend [OF assms(1)] by (auto simp: b256_inv_def b256_pend_def)
  have m: "drop_bit 3 (8 * length xs) AND 0x3F = length xs mod 64"
    by (simp add: drop_bit_3 and_63)
  have left: "drop_bit 3 (b_buflen S) = ?l" by (simp add: drop_bit_3 S(3))
  {
    assume c: "64 - ?l \<le> length xs mod 64" "b256_pend S \<noteq> []" and b: "b = b256_pend S @ take (64 - ?l) xs"
    then have le: "64 - ?l \<le> length xs" by (meson le_trans mod_less_eq_dividend)
    have blit: "blit (b_buf S) ?l (take (64 - ?l) xs) = b"
      using S le by (simp add: blit_def b)
    have buf: "b_buf (blake256_count_block (S\<lparr>b_buf := b\<rparr>)) = b"
      by (simp add: blake256_count_block_def Let_def)
    have "blake256_compress (blake256_count_block (S\<lparr>b_buf := b\<rparr>)) b
      = S\<lparr>b_buf := b, b_h := fst (b256_mix (b256_core S) b), b_t := snd (b256_mix (b256_core S) b)\<rparr>"
      using b256_mix_frame [of "S\<lparr>b_buf := b\<rparr>" b] S(1) assms(2) by (simp add: b256_core_def)
    then have "blake256_fill S xs (8 * length xs)
      = (S\<lparr>b_buf := b, b_h := fst (b256_mix (b256_core S) b), b_t := snd (b256_mix (b256_core S) b)\<rparr>,
         drop (64 - ?l) xs, 8 * length (drop (64 - ?l) xs), 0)"
      using c by (simp add: blake256_fill_def left m blit buf push_bit_3 diff_mult_distrib2 Let_def)
    then show "b256_upd S xs = b256_finish (S\<lparr>b_buf := b, b_h := fst (b256_mix (b256_core S) b),
        b_t := snd (b256_mix (b256_core S) b)\<rparr>) 0 (drop (64 - ?l) xs)"
      by (rule b256_upd_fill) (simp_all add: S(1) assms(2))
  }
  assume "b256_pend S = [] \<or> length xs mod 64 < 64 - ?l"
  then have "blake256_fill S xs (8 * length xs) = (S, xs, 8 * length xs, ?l)"
    by (auto simp: blake256_fill_def left m)
  then show "b256_upd S xs = b256_finish S ?l xs"
    by (rule b256_upd_fill) (simp_all add: S(1) assms(2))
qed

lemma length_b256_mix: "length (fst k) = 8 \<Longrightarrow> length (snd k) = 2 \<Longrightarrow>
  length (fst (b256_mix k b)) = 8 \<and> length (snd (b256_mix k b)) = 2"
proof -
  assume k: "length (fst k) = 8" "length (snd k) = 2"
  have l: "length (for_range m n (\<lambda>h i. h[f i := g h i]) h) = length h" for m n h f and g :: "u32 list \<Rightarrow> nat \<Rightarrow> u32"
    by (rule for_range_pres [where P = "\<lambda>x. length x = length h"]) simp_all
  show ?thesis
    using k by (simp add: b256_mix_def b256_core_def blake256_compress_def blake256_count_block_def Let_def
        uninit_b256_def l)
qed

lemma b256_absorb_lengths:
  assumes "length (fst k) = 8" and "length (snd k) = 2"
  shows "length (fst (fst (absorb 64 j b256_mix k xs))) = 8 \<and> length (snd (fst (absorb 64 j b256_mix k xs))) = 2"
  by (rule absorb_invariant [where P = "\<lambda>k. length (fst k) = 8 \<and> length (snd k) = 2"])
    (use assms length_b256_mix in auto)

lemma b256_finish_put:
  assumes "b256_inv S" and "b_nullt S = 0" and a: "absorb 64 0 b256_mix (b256_core S) xs = (k, rest)"
    and "l + length rest < 64" and p: "p = take l (b_buf S)"
  shows "b256_core (b256_finish S l xs) = k" and "b256_pend (b256_finish S l xs) = (if rest = [] then [] else p @ rest)"
    and "b256_inv (b256_finish S l xs)" and "b_nullt (b256_finish S l xs) = 0"
proof -
  have k: "length (fst k) = 8" "length (snd k) = 2"
    using b256_absorb_lengths [of "b256_core S" 0 xs] a assms(1) by (auto simp: b256_core_def b256_inv_def)
  have F: "b256_finish S l xs = (if rest = [] then S\<lparr>b_h := fst k, b_t := snd k, b_buflen := 0\<rparr>
         else S\<lparr>b_h := fst k, b_t := snd k, b_buf := blit (b_buf S) l rest, b_buflen := 8 * (l + length rest)\<rparr>)"
    by (simp add: b256_finish_def a Let_def)
  show "b256_core (b256_finish S l xs) = k" and "b256_pend (b256_finish S l xs) = (if rest = [] then [] else p @ rest)"
    and "b256_inv (b256_finish S l xs)" and "b_nullt (b256_finish S l xs) = 0"
    using assms(1,2,4) k by (auto simp: F p b256_core_def b256_pend_def b256_inv_def buf_simps)
qed

text \<open>A piece that fits is absorbed.\<close>

lemma b256_upd_absorb:
  assumes "b256_inv S" and "b_nullt S = 0" and "b256_fits (length (b256_pend S)) (length xs)"
  shows "(b256_core (b256_upd S xs), b256_pend (b256_upd S xs)) = absorb 64 0 b256_mix (b256_core S) (b256_pend S @ xs)
    \<and> b256_inv (b256_upd S xs) \<and> b_nullt (b256_upd S xs) = 0"
proof -
  define l where l1: "l = length (b256_pend S)"
  have l2: "b256_pend S = take l (b_buf S)" unfolding l1 by (rule b256_pend_take)
  have l3: "l < 64" unfolding l1 by (rule length_b256_pend [OF assms(1), THEN conjunct2])
  note l = l1 l2 l3
  consider "l = 0" | "l \<noteq> 0" "64 - l \<le> length xs mod 64"
    | "l \<noteq> 0" "\<not> 64 - l \<le> length xs mod 64" "0 < length xs" "length xs < 64"
    using assms(3) unfolding b256_fits_def l(1) [symmetric] by blast
  then show ?thesis
  proof cases
    case 1
    obtain k rest where a: "absorb 64 0 b256_mix (b256_core S) xs = (k, rest)"
      by (cases "absorb 64 0 b256_mix (b256_core S) xs")
    have "0 + length rest < 64"
      using absorb_rest_less [of 64 0 b256_mix "b256_core S" xs] a by simp
    moreover have "b256_upd S xs = b256_finish S 0 xs"
      using 1 l1 b256_upd_cases(2) [OF assms(1,2), of xs] by simp
    ultimately show ?thesis
      using 1 l(2) a b256_finish_put [OF assms(1,2) a _ refl, of 0] by (auto split: if_splits)
  next
    case 2
    then have le: "64 - l \<le> length xs" by (meson le_trans mod_less_eq_dividend)
    let ?b = "b256_pend S @ take (64 - l) xs" and ?ys = "drop (64 - l) xs"
    let ?T = "S\<lparr>b_buf := ?b, b_h := fst (b256_mix (b256_core S) ?b), b_t := snd (b256_mix (b256_core S) ?b)\<rparr>"
    have b: "length ?b = 64" using le l1 l3 by simp
    have T: "b256_inv ?T" "b_nullt ?T = 0" "b256_core ?T = b256_mix (b256_core S) ?b"
      using assms(1,2) b length_b256_mix [of "b256_core S" ?b] by (simp_all add: b256_inv_def b256_core_def)
    obtain k rest where a: "absorb 64 0 b256_mix (b256_core ?T) ?ys = (k, rest)"
      by (cases "absorb 64 0 b256_mix (b256_core ?T) ?ys")
    have "0 + length rest < 64"
      using absorb_rest_less [of 64 0 b256_mix "b256_core ?T" ?ys] a by simp
    note F = b256_finish_put [OF T(1,2) a this refl]
    have "absorb 64 0 b256_mix (b256_core S) (b256_pend S @ xs)
        = absorb 64 0 b256_mix (b256_core S) (?b @ ?ys)" by simp
    also have "\<dots> = absorb 64 0 b256_mix (b256_core ?T) ?ys"
      unfolding T(3) using b by (intro absorb_block) simp_all
    also have "\<dots> = (k, rest)" by (rule a)
    finally have ab: "absorb 64 0 b256_mix (b256_core S) (b256_pend S @ xs) = (k, rest)" .
    have U: "b256_upd S xs = b256_finish ?T 0 ?ys"
      unfolding l(1) by (rule b256_upd_cases(1) [OF assms(1,2)]) (use 2 l(1) in auto)
    show ?thesis unfolding ab U using F by auto
  next
    case 3
    then have a: "absorb 64 0 b256_mix (b256_core S) xs = (b256_core S, xs)" and le: "l + length xs < 64" by auto
    have "b256_upd S xs = b256_finish S l xs"
      unfolding l(1) using 3 l(1) by (intro b256_upd_cases(2) [OF assms(1,2)]) auto
    then show ?thesis
      using b256_finish_put [OF assms(1,2) a le l(2)] 3 le l(1) by auto
  qed
qed

text \<open>
  A piece that does not fit: the whole blocks of the piece are compressed as if nothing were
  buffered, and the rest is appended to the old buffer, or the buffer is emptied when there is no
  rest.
\<close>

lemma b256_upd_misfit:
  assumes "b256_inv S" and "b_nullt S = 0" and "\<not> b256_fits (length (b256_pend S)) (length xs)"
    and a: "absorb 64 0 b256_mix (b256_core S) xs = (k, rest)"
  shows "b256_core (b256_upd S xs) = k" and "b256_pend (b256_upd S xs) = (if rest = [] then [] else b256_pend S @ rest)"
    and "b256_inv (b256_upd S xs)" and "b_nullt (b256_upd S xs) = 0"
proof -
  define l where l1: "l = length (b256_pend S)"
  have l2: "b256_pend S = take l (b_buf S)" unfolding l1 by (rule b256_pend_take)
  have l3: "l < 64" unfolding l1 by (rule length_b256_pend [OF assms(1), THEN conjunct2])
  note l = l1 l2 l3
  have U: "b256_upd S xs = b256_finish S l xs"
    unfolding l(1) using assms(3) by (intro b256_upd_cases(2) [OF assms(1,2)]) (auto simp: b256_fits_def)
  have "length rest = length xs mod 64"
    using absorb_rest_length [of 64 b256_mix "b256_core S" xs] a by simp
  then have "l + length rest < 64" using assms(3) l(1) by (auto simp: b256_fits_def)
  from b256_finish_put [OF assms(1,2) a this l(2)]
  show "b256_core (b256_upd S xs) = k" and "b256_pend (b256_upd S xs) = (if rest = [] then [] else b256_pend S @ rest)"
    and "b256_inv (b256_upd S xs)" and "b_nullt (b256_upd S xs) = 0"
    by (simp_all add: U)
qed

section \<open>Finalisation\<close>

text \<open>An update reads only the bytes its length covers.\<close>

lemma blake256_blocks_take:
  "n \<le> length data \<Longrightarrow> blake256_blocks S data (8 * n) = (T, d, m) \<Longrightarrow>
     blake256_blocks S (take n data) (8 * n) = (T, take (m div 8) d, m)"
proof (induction S data "8 * n" arbitrary: n rule: blake256_blocks.induct)
  case (1 S data)
  show ?case
  proof (cases "512 \<le> 8 * n")
    case True
    then have n: "8 * n - 512 = 8 * (n - 64)" "64 \<le> n" by simp_all
    show ?thesis
      using 1(1) [OF True refl refl n(1)] 1(2,3) True n
      by (simp add: blake256_blocks.simps [of S] Let_def min_def take_drop)
  next
    case False
    then show ?thesis using 1(2,3) by (auto simp: blake256_blocks.simps)
  qed
qed

lemma blake256_update_take:
  assumes "n \<le> length data"
  shows "blake256_update S data (8 * n) = b256_upd S (take n data)"
proof -
  obtain S' d m l where f: "blake256_fill S data (8 * n) = (S', d, 8 * m, l)"
      "blake256_fill S (take n data) (8 * n) = (S', take m d, 8 * m, l)" "m \<le> length d"
  proof (cases "b_buflen S div 8 \<noteq> 0 \<and> 64 - b_buflen S div 8 \<le> n mod 64")
    case True
    then have "64 - b_buflen S div 8 \<le> n" by (meson le_trans mod_less_eq_dividend)
    then show ?thesis
      using True assms
      by (intro that [of _ "drop (64 - b_buflen S div 8) data" "n - (64 - b_buflen S div 8)"])
        (simp_all add: blake256_fill_def drop_bit_3 and_63 push_bit_3 Let_def min_def take_drop diff_mult_distrib2)
  next
    case False
    then show ?thesis
      using assms by (intro that [of S data n]) (auto simp: blake256_fill_def drop_bit_3 and_63 Let_def)
  qed
  obtain T e k where b: "blake256_blocks S' d (8 * m) = (T, e, k)"
    by (metis prod_cases3)
  note b' = blake256_blocks_take [OF f(3) b]
  show ?thesis
    using assms by (simp add: b256_upd_def blake256_update_def min_def f b b' drop_bit_3)
qed

lemma b256_left: "b256_inv S \<Longrightarrow> b_buflen S div 8 = length (b256_pend S)"
  using length_b256_pend [of S] by presburger

lemma b256_upd_short:
  assumes "b256_inv S" and "xs \<noteq> []" and "length (b256_pend S) + length xs < 64"
  shows "b256_upd S xs = S\<lparr>b_buf := blit (b_buf S) (length (b256_pend S)) xs,
    b_buflen := 8 * (length (b256_pend S) + length xs)\<rparr>"
proof -
  have "b_buflen S div 8 = length (b256_pend S)" by (rule b256_left [OF assms(1)])
  then have "blake256_fill S xs (8 * length xs) = (S, xs, 8 * length xs, length (b256_pend S))"
    using assms(3) by (auto simp: blake256_fill_def drop_bit_3 and_63 Let_def)
  then show ?thesis
    using assms(2,3) by (simp add: b256_upd_def blake256_update_def blake256_blocks.simps drop_bit_3 push_bit_3)
qed

lemma b256_upd_full:
  assumes "b256_inv S" and "b256_pend S \<noteq> []" and "length (b256_pend S) + length xs = 64"
    and b: "b = b256_pend S @ xs"
  shows "b256_upd S xs = (blake256_compress (blake256_count_block (S\<lparr>b_buf := b\<rparr>)) b)\<lparr>b_buflen := 0\<rparr>"
proof -
  let ?l = "length (b256_pend S)"
  have l: "b_buflen S div 8 = ?l" "?l < 64"
    using length_b256_pend [OF assms(1)] b256_left [OF assms(1)] by auto
  have xs: "64 - ?l = length xs" "length xs < 64" using assms(2,3) by (cases "b256_pend S"; auto)+
  have "length (b_buf S) = 64" using assms(1) by (simp add: b256_inv_def)
  then have blit: "blit (b_buf S) ?l xs = b"
    using assms(3) b256_pend_take [of S] by (simp add: blit_def b)
  have buf: "b_buf (blake256_count_block (S\<lparr>b_buf := b\<rparr>)) = b"
    by (simp add: blake256_count_block_def Let_def)
  have "blake256_fill S xs (8 * length xs)
      = (blake256_compress (blake256_count_block (S\<lparr>b_buf := b\<rparr>)) b, [], 0, 0)"
    using assms(2) xs l by (simp add: blake256_fill_def drop_bit_3 push_bit_3 and_63 Let_def blit buf)
  then show ?thesis
    by (simp add: b256_upd_def blake256_update_def blake256_blocks.simps)
qed

text \<open>The state as finalisation sees it: chain value, counter words, \<open>nullt\<close>, pending bytes.\<close>

definition b256_at :: "b256_state \<Rightarrow> u32 list \<Rightarrow> u32 \<Rightarrow> u32 \<Rightarrow> nat \<Rightarrow> bytes \<Rightarrow> bool" where
  "b256_at S h a b z p \<longleftrightarrow> b256_inv S \<and> b_h S = h \<and> b_t S = [a, b] \<and> b_nullt S = z \<and> b256_pend S = p"

lemma at_short:
  assumes "b256_at S h a b z p" and "xs \<noteq> []" and "length p + length xs < 64"
  shows "b256_at (b256_upd S xs) h a b z (p @ xs)"
  using assms b256_upd_short [of S xs] b256_pend_take [of S]
  by (auto simp: b256_at_def b256_inv_def) (auto simp: b256_pend_def buf_simps)

lemma at_uncount: "b256_at S h a b z p \<Longrightarrow> b256_at (blake256_uncount S n) h (a - of_nat n) b z p"
  by (auto simp: b256_at_def b256_inv_def blake256_uncount_def b256_pend_def)

lemma at_nullt: "b256_at S h a b z p \<Longrightarrow> b256_at (S\<lparr>b_nullt := 1\<rparr>) h a b 1 p"
  by (auto simp: b256_at_def b256_inv_def b256_pend_def)

lemma at_full:
  assumes S: "b256_at S h a b z p" and "p \<noteq> []" and "length p + length xs = 64"
    and t: "if z = 0 then [a + 512, if a + 512 = 0 then b + 1 else b] = b256_t n else n = 0"
  shows "b256_at (b256_upd S xs) (b256_F h [0, 0, 0, 0] n (p @ xs)) (a + 512) (if a + 512 = 0 then b + 1 else b) z []"
proof -
  have l: "length (p @ xs) = 64" using assms(3) by simp
  have f: "b256_inv S" "length (b_h S) = 8" "b_s S = [0, 0, 0, 0]" "b_h S = h" "b_t S = [a, b]" "b_nullt S = z" "b256_pend S = p"
    using S by (auto simp: b256_at_def b256_inv_def)
  let ?b = "if a + 512 = 0 then b + 1 else b"
  let ?S = "S\<lparr>b_buf := p @ xs, b_t := [a + 512, ?b]\<rparr>"
  have c: "blake256_count_block (S\<lparr>b_buf := p @ xs\<rparr>) = ?S"
    by (simp add: blake256_count_block_def f(5))
  have "blake256_compress ?S (p @ xs) = ?S\<lparr>b_h := b256_F h [0, 0, 0, 0] n (p @ xs)\<rparr>"
    using blake256_compress_spec [of ?S "p @ xs" n] f(2-4,6) l t by simp
  then have U: "b256_upd S xs = ?S\<lparr>b_h := b256_F h [0, 0, 0, 0] n (p @ xs), b_buflen := 0\<rparr>"
    using b256_upd_full [OF f(1) _ _ refl, of xs] assms(2,3) f(7) c by simp
  have "length (b256_F h [0, 0, 0, 0] n (p @ xs)) = 8" by (simp add: b256_F_def Let_def)
  then show ?thesis
    unfolding U b256_at_def using f l by (auto simp: b256_inv_def b256_pend_def)
qed

lemma uncount_buflen [simp]: "b_buflen (blake256_uncount S n) = b_buflen S"
  by (simp add: blake256_uncount_def)

definition b256_step :: "nat \<Rightarrow> u32 list \<times> nat \<Rightarrow> bytes \<Rightarrow> u32 list \<times> nat" where
  "b256_step L = (\<lambda>(h, i) b. (b256_F h [0, 0, 0, 0] (b256_counter L i) b, i + 1))"

lemma word_halves:
  "U32TO8 (of_nat (n div 2 ^ 32)) @ U32TO8 (of_nat n) = rev (le_of_word 8 (of_nat n :: u64))"
proof -
  have "le_of_word 8 (of_nat n :: u64) = le_of_word 4 (of_nat n :: u32) @ le_of_word 4 (of_nat (n div 2 ^ 32) :: u32)"
  proof (rule nth_equalityI)
    fix i assume "i < length (le_of_word 8 (of_nat n :: u64))"
    then have i: "i < 8" by simp
    show "le_of_word 8 (of_nat n :: u64) ! i
        = (le_of_word 4 (of_nat n :: u32) @ le_of_word 4 (of_nat (n div 2 ^ 32) :: u32)) ! i"
    proof (rule bit_word_eqI)
      fix k assume "k < LENGTH(8)"
      then show "bit (le_of_word 8 (of_nat n :: u64) ! i) k
          = bit ((le_of_word 4 (of_nat n :: u32) @ le_of_word 4 (of_nat (n div 2 ^ 32) :: u32)) ! i) k"
        using i unfolding drop_bit_eq_div [symmetric]
        by (cases "i < 4") (auto simp: nth_append nth_le_of_word bit_simps algebra_simps)
    qed
  qed simp
  then show ?thesis by (simp add: U32TO8_eq)
qed

text \<open>The counter words around the last block of data.\<close>

lemma counter_facts:
  assumes "r < (64 :: nat)"
  shows "of_nat (512 * q) + of_nat (8 * r) = (of_nat (8 * (64 * q + r)) :: u32)"
    and "\<not> (of_nat (512 * q) + of_nat (8 * r) :: u32) < of_nat (8 * r)"
    and "512 * q div 2 ^ 32 = 8 * (64 * q + r) div 2 ^ 32"
    and "0 < r \<Longrightarrow> (of_nat (8 * (64 * q + r)) :: u32) \<noteq> 0"
proof -
  have "(512 * q + 8 * r) mod (512 * 2 ^ 23) = 512 * (q mod 2 ^ 23) + 8 * r"
    using assms by (subst mod_mult2_eq) simp
  then have m: "8 * (64 * q + r) mod 2 ^ 32 = 512 * (q mod 2 ^ 23) + 8 * r" by (simp add: algebra_simps)
  have "(512 * q + 8 * r) div (512 * 2 ^ 23) = 512 * q div (512 * 2 ^ 23)"
    using assms by (simp only: div_mult2_eq) simp
  then show "512 * q div 2 ^ 32 = 8 * (64 * q + r) div 2 ^ 32" by (simp add: algebra_simps)
  show s: "of_nat (512 * q) + of_nat (8 * r) = (of_nat (8 * (64 * q + r)) :: u32)"
    by (simp add: algebra_simps)
  have u: "unat (of_nat (8 * (64 * q + r)) :: u32) = 512 * (q mod 2 ^ 23) + 8 * r"
    using m by (simp only: unat_of_nat len_of_numeral_defs) simp
  have "unat (of_nat (8 * r) :: u32) = 8 * r"
    using assms by (simp only: unat_of_nat) simp
  then show "\<not> (of_nat (512 * q) + of_nat (8 * r) :: u32) < of_nat (8 * r)"
    unfolding s word_less_nat_alt u by simp
  show "0 < r \<Longrightarrow> (of_nat (8 * (64 * q + r)) :: u32) \<noteq> 0"
    using u by (metis add_is_0 mult_is_0 neq0_conv unat_0 zero_neq_numeral)
qed

lemma take_padding: "0 < n \<Longrightarrow> n \<le> 64 \<Longrightarrow> take n padding = 0x80 # replicate (n - 1) 0"
  by (cases n) (simp_all add: padding_def)

lemma b256_final_h_spec:
  assumes S: "b256_at S H (of_nat (512 * q)) (of_nat (512 * q div 2 ^ 32)) 0 rest"
    and r: "length rest < 64" and L: "L = 64 * q + length rest" and pa: "pa = 0x80 OR pb"
  shows "fst (blake256_final_h S pa pb) = concat (map (\<lambda>i. U32TO8
    (fst (fst (absorb 64 0 (b256_step L) (H, q) (rest @ b256_pad pb L))) ! i)) [0..<8])"
proof -
  let ?r = "length rest"
  let ?a = "of_nat (512 * q) :: u32" and ?b = "of_nat (512 * q div 2 ^ 32) :: u32"
  let ?len = "rev (le_of_word 8 (of_nat (8 * L) :: u64))"
  have bl: "b_buflen S = 8 * ?r" and tt: "b_t S = [?a, ?b]"
    using S length_b256_pend [of S] by (auto simp: b256_at_def)
  note c = counter_facts [OF r, of q, folded L]
  have msg: "U32TO8 (if b_t S ! 0 + of_nat (b_buflen S) < of_nat (b_buflen S) then b_t S ! 1 + 1 else b_t S ! 1)
      @ U32TO8 (b_t S ! 0 + of_nat (b_buflen S)) = ?len"
    unfolding bl tt nth_Cons_0 One_nat_def nth_Cons_Suc using c(2) by (simp only: if_False c(1,3) word_halves)
  have Lm: "L mod 64 = ?r" using r by (simp add: L)
  have ctr: "b256_counter L q = (if ?r = 0 then 0 else 8 * L)" "b256_counter L (q + 1) = 0"
    using r by (auto simp: b256_counter_def L)
  have t8: "0 < ?r \<Longrightarrow> [of_nat (8 * L), if of_nat (8 * L) = (0 :: u32) then ?b + 1 else ?b] = b256_t (8 * L)"
    using c(3,4) by (simp add: b256_t_def)
  consider "?r < 55" | "?r = 55" | "55 < ?r" by linarith
  then show ?thesis
  proof cases
    case 1
    let ?z = "if ?r = 0 then 1 else 0 :: nat"
    let ?S1 = "if b_buflen S = 0 then S\<lparr>b_nullt := 1\<rparr> else S"
    let ?S2 = "blake256_uncount ?S1 (440 - b_buflen S)"
    let ?S3 = "blake256_update ?S2 padding (440 - b_buflen S)"
    let ?S4 = "blake256_uncount (blake256_update ?S3 [pb] 8) 8"
    let ?S5 = "blake256_update (blake256_uncount ?S4 64) ?len 64"
    let ?a2 = "?a - of_nat (440 - 8 * ?r)"
    have s1: "b256_at ?S1 H ?a ?b ?z rest"
      using S at_nullt [OF S] bl by (cases "?r = 0") auto
    have s2: "b256_at ?S2 H ?a2 ?b ?z rest"
      unfolding bl using at_uncount [OF s1] by (simp add: bl)
    have p: "take (55 - ?r) padding = 0x80 # replicate (54 - ?r) 0"
      using 1 by (simp add: take_padding)
    have "440 - b_buflen S = 8 * (55 - ?r)" by (simp add: bl)
    then have "?S3 = b256_upd ?S2 (take (55 - ?r) padding)"
      by (simp only:) (rule blake256_update_take, simp add: padding_def)
    then have s3: "b256_at ?S3 H ?a2 ?b ?z (rest @ 0x80 # replicate (54 - ?r) 0)"
      using at_short [OF s2, of "take (55 - ?r) padding"] 1 by (simp add: p)
    have "blake256_update ?S3 [pb] 8 = b256_upd ?S3 [pb]" by (simp add: b256_upd_def)
    then have s4: "b256_at (blake256_update ?S3 [pb] 8) H ?a2 ?b ?z ((rest @ 0x80 # replicate (54 - ?r) 0) @ [pb])"
      using at_short [OF s3, of "[pb]"] 1 by simp
    note s5 = at_uncount [OF at_uncount [OF s4, of 8], of 64]
    have a2: "?a2 - of_nat 8 - of_nat 64 + 512 = of_nat (8 * L)"
      using 1 c(1) by (simp add: of_nat_diff)
    have upd: "?S5 = b256_upd (blake256_uncount ?S4 64) ?len" by (simp add: b256_upd_def)
    let ?n = "if ?r = 0 then 0 else 8 * L"
    have "b256_at ?S5 (b256_F H [0, 0, 0, 0] ?n (((rest @ 0x80 # replicate (54 - ?r) 0) @ [pb]) @ ?len))
       (of_nat (8 * L)) (if of_nat (8 * L) = (0 :: u32) then ?b + 1 else ?b) ?z []"
      unfolding upd a2 [symmetric]
    proof (rule at_full [OF s5])
      show "if ?z = 0 then [?a2 - of_nat 8 - of_nat 64 + 512,
          if ?a2 - of_nat 8 - of_nat 64 + 512 = 0 then ?b + 1 else ?b] = b256_t ?n else ?n = 0"
        unfolding a2 using t8 by (cases "?r = 0") simp_all
    qed (use 1 in simp_all)
    then have h: "b_h ?S5 = b256_F H [0, 0, 0, 0] ?n (((rest @ 0x80 # replicate (54 - ?r) 0) @ [pb]) @ ?len)"
      by (simp add: b256_at_def)
    have k: "(119 - ?r) mod 64 = 55 - ?r" using 1 by (simp add: mod_if)
    have pad: "rest @ b256_pad pb L = (rest @ 0x80 # replicate (54 - ?r) 0) @ [pb] @ ?len"
      using 1 by (simp add: b256_pad_def Lm k Let_def)
    have "absorb 64 0 (b256_step L) (H, q) (rest @ b256_pad pb L)
        = ((b256_F H [0, 0, 0, 0] ?n (rest @ b256_pad pb L), q + 1), [])"
      using 1 absorb_block [of 64 "rest @ b256_pad pb L" 0 "[]" "b256_step L" "(H, q)"]
      by (simp add: pad) (simp add: b256_step_def ctr)
    moreover have "blake256_final_h S pa pb = (concat (map (\<lambda>i. U32TO8 (b_h ?S5 ! i)) [0..<8]), ?S5)"
      using 1 by (simp only: blake256_final_h_def Let_def msg) (simp add: bl)
    ultimately show ?thesis by (simp only: h pad fst_conv append_assoc)
  next
    case 2
    let ?S1 = "blake256_uncount S 8"
    let ?S2 = "blake256_uncount (blake256_update ?S1 [pa] 8) 64"
    let ?S3 = "blake256_update ?S2 ?len 64"
    have "blake256_update ?S1 [pa] 8 = b256_upd ?S1 [pa]" by (simp add: b256_upd_def)
    then have s1: "b256_at (blake256_update ?S1 [pa] 8) H (?a - of_nat 8) ?b 0 (rest @ [pa])"
      using at_short [OF at_uncount [OF S, of 8], of "[pa]"] 2 by simp
    have a: "?a - of_nat 8 - of_nat 64 + 512 = of_nat (8 * L)"
      using 2 c(1) by (simp add: algebra_simps)
    have upd: "?S3 = b256_upd ?S2 ?len" by (simp add: b256_upd_def)
    have "b256_at ?S3 (b256_F H [0, 0, 0, 0] (8 * L) ((rest @ [pa]) @ ?len))
       (of_nat (8 * L)) (if of_nat (8 * L) = (0 :: u32) then ?b + 1 else ?b) 0 []"
      unfolding upd a [symmetric]
    proof (rule at_full [OF at_uncount [OF s1, of 64]])
      show "if (0 :: nat) = 0 then [?a - of_nat 8 - of_nat 64 + 512,
          if ?a - of_nat 8 - of_nat 64 + 512 = 0 then ?b + 1 else ?b] = b256_t (8 * L) else 8 * L = 0"
        unfolding a t8 [unfolded 2, OF zero_less_numeral] by simp
    qed (use 2 in simp_all)
    then have h: "b_h ?S3 = b256_F H [0, 0, 0, 0] (8 * L) ((rest @ [pa]) @ ?len)"
      by (simp add: b256_at_def)
    have pad: "rest @ b256_pad pb L = (rest @ [pa]) @ ?len"
      using 2 by (simp add: b256_pad_def Lm Let_def pa)
    have "absorb 64 0 (b256_step L) (H, q) (rest @ b256_pad pb L)
        = ((b256_F H [0, 0, 0, 0] (8 * L) (rest @ b256_pad pb L), q + 1), [])"
      using 2 absorb_block [of 64 "rest @ b256_pad pb L" 0 "[]" "b256_step L" "(H, q)"]
      by (simp add: pad) (simp add: b256_step_def ctr)
    moreover have "blake256_final_h S pa pb = (concat (map (\<lambda>i. U32TO8 (b_h ?S3 ! i)) [0..<8]), ?S3)"
      using 2 by (simp only: blake256_final_h_def Let_def msg) (simp add: bl)
    ultimately show ?thesis by (simp only: h pad fst_conv append_assoc)
  next
    case 3
    let ?S1 = "blake256_uncount S (512 - b_buflen S)"
    let ?S2 = "blake256_update ?S1 padding (512 - b_buflen S)"
    let ?S4 = "blake256_update (blake256_uncount ?S2 440) (drop 1 padding) 440"
    let ?S5 = "?S4\<lparr>b_nullt := 1\<rparr>"
    let ?S6 = "blake256_uncount (blake256_update ?S5 [pb] 8) 8"
    let ?S7 = "blake256_update (blake256_uncount ?S6 64) ?len 64"
    let ?a1 = "?a - of_nat (512 - 8 * ?r)" and ?b' = "if of_nat (8 * L) = (0 :: u32) then ?b + 1 else ?b"
    let ?p = "0x80 # replicate (63 - ?r) 0" and ?z = "replicate 55 (0 :: u8)"
    let ?H = "b256_F H [0, 0, 0, 0] (8 * L) (rest @ ?p)"
    have s1: "b256_at ?S1 H ?a1 ?b 0 rest"
      unfolding bl using at_uncount [OF S] by simp
    have p: "take (64 - ?r) padding = ?p"
      using r by (simp add: take_padding)
    have "512 - b_buflen S = 8 * (64 - ?r)" by (simp add: bl)
    then have S2: "?S2 = b256_upd ?S1 ?p"
      unfolding p [symmetric] by (simp only:) (rule blake256_update_take, simp add: padding_def)
    have a1: "?a1 + 512 = of_nat (8 * L)"
      using r c(1) by (simp add: of_nat_diff)
    have s2: "b256_at ?S2 ?H (of_nat (8 * L)) ?b' 0 []"
      unfolding S2 a1 [symmetric]
    proof (rule at_full [OF s1])
      show "if (0 :: nat) = 0 then [?a1 + 512, if ?a1 + 512 = 0 then ?b + 1 else ?b] = b256_t (8 * L)
          else 8 * L = 0"
        unfolding a1 t8 [OF less_trans [OF zero_less_numeral 3]] by simp
    qed (use 3 r in auto)
    have z: "take 55 (drop 1 padding) = ?z" by (simp add: padding_def)
    have "?S4 = b256_upd (blake256_uncount ?S2 440) ?z"
      unfolding z [symmetric] using blake256_update_take [of 55 "drop 1 padding"] by (simp add: padding_def)
    then have s4: "b256_at ?S4 ?H (of_nat (8 * L) - of_nat 440) ?b' 0 ?z"
      using at_short [OF at_uncount [OF s2, of 440], of ?z] by (simp del: replicate.simps)
    have "blake256_update ?S5 [pb] 8 = b256_upd ?S5 [pb]" by (simp add: b256_upd_def)
    then have s6: "b256_at (blake256_update ?S5 [pb] 8) ?H (of_nat (8 * L) - of_nat 440) ?b' 1 (?z @ [pb])"
      using at_short [OF at_nullt [OF s4], of "[pb]"] by (simp del: replicate.simps)
    have upd: "?S7 = b256_upd (blake256_uncount ?S6 64) ?len" by (simp add: b256_upd_def)
    note full = at_full [OF at_uncount [OF at_uncount [OF s6, of 8], of 64], of ?len 0]
    have "\<exists>a b. b256_at ?S7 (b256_F ?H [0, 0, 0, 0] 0 ((?z @ [pb]) @ ?len)) a b 1 []"
      unfolding upd by (intro exI, rule full) (simp_all del: replicate.simps)
    then have h: "b_h ?S7 = b256_F ?H [0, 0, 0, 0] 0 ((?z @ [pb]) @ ?len)"
      by (auto simp only: b256_at_def)
    have k: "(119 - ?r) mod 64 = (63 - ?r) + 56" using 3 r by simp
    have k1: "63 - ?r + 56 - 1 = (63 - ?r) + 55" and k0: "63 - ?r + 56 \<noteq> 0" by simp_all
    have pad: "rest @ b256_pad pb L = (rest @ ?p) @ ((?z @ [pb]) @ ?len)"
      by (simp only: b256_pad_def Lm k Let_def k0 if_False k1 replicate_add append.simps append_assoc)
    have l1: "length (rest @ ?p) = 64" and l2: "length ((?z @ [pb]) @ ?len) = 64"
      using r by simp_all
    have "absorb 64 0 (b256_step L) (H, q) (rest @ b256_pad pb L)
        = absorb 64 0 (b256_step L) (b256_step L (H, q) (rest @ ?p)) (((?z @ [pb]) @ ?len) @ [])"
      unfolding pad using l1 by (subst absorb_block) simp_all
    also have "\<dots> = (b256_step L (b256_step L (H, q) (rest @ ?p)) ((?z @ [pb]) @ ?len), [])"
      using l2 by (subst absorb_block) simp_all
    finally have "fst (fst (absorb 64 0 (b256_step L) (H, q) (rest @ b256_pad pb L)))
        = b256_F ?H [0, 0, 0, 0] 0 ((?z @ [pb]) @ ?len)"
      using 3 ctr by (auto simp: b256_step_def simp del: replicate.simps)
    moreover have "blake256_final_h S pa pb = (concat (map (\<lambda>i. U32TO8 (b_h ?S7 ! i)) [0..<8]), ?S7)"
      using 3 by (simp only: blake256_final_h_def Let_def msg) (simp add: bl)
    ultimately show ?thesis by (simp only: h fst_conv)
  qed
qed

section \<open>The digest\<close>

lemma count_block_t:
  "[of_nat (512 * i) + 512, if of_nat (512 * i) + 512 = (0 :: u32) then of_nat (512 * i div 2 ^ 32) + 1
     else of_nat (512 * i div 2 ^ 32)] = b256_t (512 * (i + 1))"
proof -
  have a: "of_nat (512 * i) + 512 = (of_nat (512 * (i + 1)) :: u32)" by simp
  have "(of_nat (512 * (i + 1)) :: u32) = 0 \<longleftrightarrow> 2 ^ 32 dvd 512 * (i + 1)"
    by (simp only: word_of_nat_eq_0_iff) simp
  also have "\<dots> \<longleftrightarrow> 512 * 2 ^ 23 dvd 512 * (i + 1)" by simp
  also have "\<dots> \<longleftrightarrow> 2 ^ 23 dvd i + 1" by (rule nat_mult_dvd_cancel1) simp
  finally have z: "(of_nat (512 * (i + 1)) :: u32) = 0 \<longleftrightarrow> 2 ^ 23 dvd i + 1" .
  have d: "512 * n div 2 ^ 32 = n div 2 ^ 23" for n :: nat
  proof -
    have "512 * n div (512 * 2 ^ 23) = n div 2 ^ 23" by (rule div_mult_mult1) simp
    then show ?thesis by simp
  qed
  have "(i + 1) div 2 ^ 23 = (if 2 ^ 23 dvd i + 1 then i div 2 ^ 23 + 1 else i div 2 ^ 23)"
    by (simp add: div_Suc dvd_eq_mod_eq_0)
  then show ?thesis
    unfolding a b256_t_def z d by simp
qed

lemma b256_mix_step:
  assumes "length h = 8" and "length b = 64"
  shows "b256_mix (h, b256_t (512 * i)) b = (b256_F h [0, 0, 0, 0] (512 * (i + 1)) b, b256_t (512 * (i + 1)))"
proof -
  let ?S = "uninit_b256\<lparr>b_h := h, b_t := b256_t (512 * i)\<rparr>"
  have z: "(replicate 4 0 :: u32 list) = [0, 0, 0, 0]" by (simp add: numeral_eq_Suc)
  have "blake256_count_block ?S = uninit_b256\<lparr>b_h := h, b_t := b256_t (512 * (i + 1))\<rparr>"
    unfolding count_block_t [symmetric] by (simp add: blake256_count_block_def b256_t_def)
  then show ?thesis
    using assms by (simp add: b256_mix_def blake256_compress_spec [where n = "512 * (i + 1)"] uninit_b256_def z b256_core_def)
qed

lemma absorb_mix_step:
  assumes "absorb 64 0 (b256_step L) (h, i) xs = ((H, j), rest)" and "length h = 8" and "64 * i + length xs \<le> L"
  shows "absorb 64 0 b256_mix (h, b256_t (512 * i)) xs = ((H, b256_t (512 * j)), rest)
    \<and> length xs = 64 * (j - i) + length rest \<and> i \<le> j \<and> length rest < 64"
  using assms
proof (induction "length xs" arbitrary: xs h i rule: less_induct)
  case less
  show ?case
  proof (cases "length xs < 64")
    case True
    with less.prems show ?thesis by simp
  next
    case False
    have l: "length (take 64 xs) = 64" and lt: "length (drop 64 xs) < length xs" using False by auto
    have c: "b256_counter L i = 512 * (i + 1)"
      using False less.prems(3) by (simp add: b256_counter_def)
    let ?h = "b256_F h [0, 0, 0, 0] (512 * (i + 1)) (take 64 xs)"
    have "absorb 64 0 (b256_step L) (?h, i + 1) (drop 64 xs) = ((H, j), rest)"
      using less.prems(1) False by (simp add: absorb_step b256_step_def c)
    from less.hyps [OF lt this] False less.prems(3)
    have IH: "absorb 64 0 b256_mix (?h, b256_t (512 * (i + 1))) (drop 64 xs) = ((H, b256_t (512 * j)), rest)"
        "length (drop 64 xs) = 64 * (j - (i + 1)) + length rest" "i + 1 \<le> j" "length rest < 64"
      by (simp_all add: b256_F_def Let_def)
    have "absorb 64 0 b256_mix (h, b256_t (512 * i)) xs = ((H, b256_t (512 * j)), rest)"
      using False IH(1) b256_mix_step [OF less.prems(2) l, of i] by (simp add: absorb_step)
    with IH(2-4) False show ?thesis by auto
  qed
qed

text \<open>A state just initialised with chain value \<open>h0\<close>.\<close>

definition b256_start :: "u32 list \<Rightarrow> b256_state \<Rightarrow> bool" where
  "b256_start h0 S \<longleftrightarrow> b256_inv S \<and> b256_core S = (h0, [0, 0]) \<and> b_nullt S = 0 \<and> b256_pend S = []"

text \<open>Data whose pieces all fit has been fed.\<close>

definition b256_fed :: "u32 list \<Rightarrow> b256_state \<Rightarrow> bytes \<Rightarrow> bool" where
  "b256_fed h0 S m \<longleftrightarrow> b256_inv S \<and> b_nullt S = 0 \<and> length h0 = 8 \<and>
     (b256_core S, b256_pend S) = absorb 64 0 b256_mix (h0, [0, 0]) m"

lemma b256_start_fed: "b256_start h0 S \<Longrightarrow> b256_fed h0 S []"
  by (auto simp: b256_start_def b256_fed_def b256_inv_def b256_core_def)

lemma b256_fed_upd:
  assumes "b256_fed h0 S m" and "b256_fits (length m mod 64) (length xs)"
  shows "b256_fed h0 (b256_upd S xs) (m @ xs)"
proof -
  have "length (b256_pend S) = length m mod 64"
    using assms(1) absorb_rest_length [of 64 b256_mix "(h0, [0, 0])" m] unfolding b256_fed_def by (metis snd_conv zero_less_numeral)
  then show ?thesis
    using assms b256_upd_absorb [of S xs] absorb_append [of 64 0 b256_mix "(h0, [0, 0])" m xs]
    by (simp add: b256_fed_def) (metis fst_conv snd_conv)
qed

lemma b256_fed_final:
  assumes "b256_fed h0 S m" and "pa = 0x80 OR pb"
  shows "fst (blake256_final_h S pa pb) = b256_spec h0 pb m"
proof -
  obtain H j rest where a: "absorb 64 0 (b256_step (length m)) (h0, 0) m = ((H, j), rest)"
    by (metis prod.collapse)
  have h0: "length h0 = 8" using assms(1) by (simp add: b256_fed_def)
  have t0: "b256_t (512 * 0) = [0, 0]" by (simp add: b256_t_def)
  from absorb_mix_step [OF a h0] have S:
      "absorb 64 0 b256_mix (h0, [0, 0]) m = ((H, b256_t (512 * j)), rest)"
      "length m = 64 * j + length rest" "length rest < 64"
    unfolding t0 by simp_all
  have "b256_at S H (of_nat (512 * j)) (of_nat (512 * j div 2 ^ 32)) 0 rest"
    using assms(1) S(1) by (auto simp: b256_at_def b256_fed_def b256_core_def b256_t_def)
  from b256_final_h_spec [OF this S(3,2) assms(2)]
  have f: "fst (blake256_final_h S pa pb) = concat (map (\<lambda>i. U32TO8 (fst (fst
      (absorb 64 0 (b256_step (length m)) (H, j) (rest @ b256_pad pb (length m)))) ! i)) [0..<8])" .
  have ab: "absorb 64 0 (b256_step (length m)) (h0, 0) (m @ b256_pad pb (length m))
      = absorb 64 0 (b256_step (length m)) (H, j) (rest @ b256_pad pb (length m))"
    using absorb_append [of 64 0 "b256_step (length m)" "(h0, 0)" m] by (simp add: a)
  let ?w = "fst (fst (absorb 64 0 (b256_step (length m)) (h0, 0) (m @ b256_pad pb (length m))))"
  have "length ?w = 8"
    using absorb_invariant [of "\<lambda>s. length (fst s) = 8" "(h0, 0)" 64 "b256_step (length m)"] h0
    by (auto simp: b256_step_def b256_F_def Let_def split: prod.splits)
  then have "concat (map (\<lambda>i. U32TO8 (?w ! i)) [0..<8]) = concat (map (\<lambda>w. rev (le_of_word 4 w)) ?w)"
    by (intro arg_cong [where f = concat]) (auto simp: U32TO8_eq intro: nth_equalityI)
  then show ?thesis
    unfolding f ab [symmetric] by (simp add: b256_spec_def b256_step_def)
qed

definition iv256 :: "u32 list" where
  "iv256 = [0x6A09E667, 0xBB67AE85, 0x3C6EF372, 0xA54FF53A,
     0x510E527F, 0x9B05688C, 0x1F83D9AB, 0x5BE0CD19]"

definition iv224 :: "u32 list" where
  "iv224 = [0xC1059ED8, 0x367CD507, 0x3070DD17, 0xF70E5939,
     0xFFC00B31, 0x68581511, 0x64F98FA7, 0xBEFA4FA4]"

lemma b256_init_start:
  assumes "length (b_buf S) = 64"
  shows "b256_start iv256 (blake256_init S)" and "b256_start iv224 (blake224_init S)"
  using assms by (simp_all add: b256_start_def b256_inv_def b256_core_def b256_pend_def iv256_def iv224_def
      blake256_init_def blake224_init_def)

lemma final_fed:
  "b256_fed h0 S m \<Longrightarrow> fst (blake256_final S) = b256_spec h0 1 m"
  "b256_fed h0 S m \<Longrightarrow> fst (blake224_final S) = b256_spec h0 0 m"
  by (simp_all add: blake256_final_def blake224_final_def b256_fed_final)

text \<open>A first piece always fits; so does a piece after whole blocks.\<close>

lemma fed_first: "b256_start h0 S \<Longrightarrow> b256_fed h0 (b256_upd S xs) xs"
  using b256_fed_upd [OF b256_start_fed, of h0 S xs] by (simp add: b256_fits_def)

lemma fed_aligned: "b256_fed h0 S m \<Longrightarrow> length m mod 64 = 0 \<Longrightarrow> b256_fed h0 (b256_upd S xs) (m @ xs)"
  by (rule b256_fed_upd) (simp_all add: b256_fits_def)

lemma uninit_start:
  "b256_start iv256 (blake256_init uninit_b256)" "b256_start iv224 (blake224_init uninit_b256)"
  by (rule b256_init_start; simp add: uninit_b256_def)+

lemma hash_spec:
  assumes "n \<le> length inp"
  shows "blake256_hash inp n = b256_spec iv256 1 (take n inp)"
    and "blake224_hash inp n = b256_spec iv224 0 (take n inp)"
  using blake256_update_take [OF assms] fed_first [OF uninit_start(1), of "take n inp"]
    fed_first [OF uninit_start(2), of "take n inp"]
  by (simp_all add: blake256_hash_def blake224_hash_def blake224_update_def final_fed mult.commute)

lemma length_b256_spec: "length h0 = 8 \<Longrightarrow> length (b256_spec h0 pb m) = 32"
proof -
  assume h0: "length h0 = 8"
  have "length (fst (fst (absorb 64 0 (b256_step L) (h0, 0) xs))) = 8" for L xs
    using absorb_invariant [of "\<lambda>s. length (fst s) = 8" "(h0, 0)" 64 "b256_step L" 0 xs] h0
    by (auto simp: b256_step_def b256_F_def Let_def split: prod.splits)
  then show ?thesis
    by (simp only: b256_spec_def b256_step_def [symmetric] Let_def) (simp add: length_concat comp_def sum_list_triv)
qed

lemma length_ivs [simp]: "length iv256 = 8" "length iv224 = 8"
  by (simp_all add: iv256_def iv224_def)

text \<open>HMAC: the key block goes to both states, then the data, then the inner digest.\<close>

lemma update_bytes: "length xs = n \<Longrightarrow> m = 8 * n \<Longrightarrow> blake256_update S xs m = b256_upd S xs"
  by (simp add: b256_upd_def)

lemma hmac_key_block:
  assumes "length (H K) \<le> 64" and "K' = (if 64 < length K then H K else K)"
  shows "xor_at (replicate 64 x) 0 K' = map (\<lambda>b. x XOR b) (hmac_key 64 H K)"
  using assms xor_pad [of K' 64 x] by (simp add: hmac_key_def Let_def)

lemma hmac256_spec:
  assumes "n \<le> length inp"
  shows "hmac_blake256_hash key (length key) inp n = hmac_spec 64 (b256_spec iv256 1) key (take n inp)"
proof -
  let ?H = "b256_spec iv256 1"
  let ?K = "if 64 < length key then ?H key else key"
  let ?i = "map (\<lambda>b. 0x36 XOR b) (hmac_key 64 ?H key)" and ?o = "map (\<lambda>b. 0x5c XOR b) (hmac_key 64 ?H key)"
  let ?S = "hmac_blake256_init uninit_hmac256 key (length key)"
  have lH: "length (?H m) = 32" for m by (rule length_b256_spec) simp
  have pad: "xor_at (replicate 64 x) 0 ?K = map (\<lambda>b. x XOR b) (hmac_key 64 ?H key)" for x
    by (rule hmac_key_block) (simp_all add: lH)
  have len: "length ?i = 64" "length ?o = 64"
    using lH by (simp_all add: hmac_key_def Let_def)
  have K: "(if 64 < length key then (blake256_hash key (length key), 32) else (key, length key)) = (?K, length ?K)"
    using lH by (simp add: hash_spec)
  have S: "inner ?S = b256_upd (blake256_init uninit_b256) ?i" "outer ?S = b256_upd (blake256_init uninit_b256) ?o"
    using len by (simp_all only: hmac_blake256_init_def K Let_def prod.case take_all order_refl pad)
      (simp_all add: uninit_hmac256_def update_bytes)
  have "b256_fed iv256 (b256_upd (inner ?S) (take n inp)) (?i @ take n inp)"
    unfolding S by (rule fed_aligned [OF fed_first [OF uninit_start(1)]]) (simp only: len, simp)
  then have ih: "fst (blake256_final (b256_upd (inner ?S) (take n inp))) = ?H (?i @ take n inp)"
    by (rule final_fed)
  have "b256_fed iv256 (b256_upd (outer ?S) (?H (?i @ take n inp))) (?o @ ?H (?i @ take n inp))"
    unfolding S by (rule fed_aligned [OF fed_first [OF uninit_start(1)]]) (simp only: len, simp)
  then have "fst (blake256_final (b256_upd (outer ?S) (?H (?i @ take n inp)))) = ?H (?o @ ?H (?i @ take n inp))"
    by (rule final_fed)
  then show ?thesis
    using blake256_update_take [OF assms, of "inner ?S"] ih lH
    by (simp add: hmac_blake256_hash_def hmac_blake256_update_def hmac_blake256_final_def case_prod_beta Let_def
        mult.commute update_bytes hmac_spec_def)
qed

lemma hmac224_spec:
  assumes "n \<le> length inp" and "H = (\<lambda>m. take 28 (b256_spec iv224 0 m))"
    and K: "K = (if 64 < length key then take 28 (b256_spec iv256 1 key) else key)"
  shows "take 28 (hmac_blake224_hash key (length key) inp n) = hmac_spec 64 H K (take n inp)"
proof -
  let ?H = "b256_spec iv224 0"
  let ?i = "map (\<lambda>b. 0x36 XOR b) (hmac_key 64 H K)" and ?o = "map (\<lambda>b. 0x5c XOR b) (hmac_key 64 H K)"
  let ?S = "hmac_blake224_init uninit_hmac256 key (length key)"
  have lH: "length (b256_spec iv256 1 m) = 32" "length (?H m) = 32" for m
    by (rule length_b256_spec, simp)+
  have lK: "length K \<le> 64" "length (H m) = 28" for m using lH by (auto simp: K assms(2))
  have pad: "xor_at (replicate 64 x) 0 K = map (\<lambda>b. x XOR b) (hmac_key 64 H K)" for x
    by (rule hmac_key_block) (use lK in simp_all)
  have len: "length ?i = 64" "length ?o = 64"
    using lK by (simp_all add: hmac_key_def Let_def)
  have S: "inner ?S = b256_upd (blake224_init uninit_b256) ?i" "outer ?S = b256_upd (blake224_init uninit_b256) ?o"
  proof -
    have t: "take (snd p) (fst p) = K" if "p = (if 64 < length key then (blake256_hash key (length key), 28) else (key, length key))" for p
      using that by (simp add: K hash_spec)
    show "inner ?S = b256_upd (blake224_init uninit_b256) ?i" "outer ?S = b256_upd (blake224_init uninit_b256) ?o"
      using len by (simp_all only: hmac_blake224_init_def case_prod_beta Let_def t pad)
        (simp_all add: uninit_hmac256_def update_bytes blake224_update_def)
  qed
  have "b256_fed iv224 (b256_upd (inner ?S) (take n inp)) (?i @ take n inp)"
    unfolding S by (rule fed_aligned [OF fed_first [OF uninit_start(2)]]) (simp only: len, simp)
  then have ih: "fst (blake224_final (b256_upd (inner ?S) (take n inp))) = ?H (?i @ take n inp)"
    by (rule final_fed)
  have "b256_fed iv224 (b256_upd (outer ?S) (H (?i @ take n inp))) (?o @ H (?i @ take n inp))"
    unfolding S by (rule fed_aligned [OF fed_first [OF uninit_start(2)]]) (simp only: len, simp)
  then have oh: "fst (blake224_final (b256_upd (outer ?S) (H (?i @ take n inp)))) = ?H (?o @ H (?i @ take n inp))"
    by (rule final_fed)
  have "blake256_update (outer ?S) (?H (?i @ take n inp)) (8 * 28) = b256_upd (outer ?S) (H (?i @ take n inp))"
    using blake256_update_take [of 28 "?H (?i @ take n inp)"] lH by (simp add: assms(2))
  then show ?thesis
    using blake256_update_take [OF assms(1), of "inner ?S"] ih oh
    by (simp add: hmac_blake224_hash_def hmac_blake224_update_def hmac_blake224_final_def case_prod_beta Let_def
        mult.commute hmac_spec_def blake224_update_def) (simp add: assms(2))
qed

text \<open>A piece that does not fit and is a whole number of blocks erases what was buffered.\<close>

lemma b256_erased:
  assumes "b256_start h0 S" and "0 < length pre" and "length pre < 64" and "length xs mod 64 = 0"
  shows "b256_fed h0 (b256_upd (b256_upd S pre) xs) xs"
proof -
  let ?U = "b256_upd S pre"
  have fed: "b256_fed h0 ?U pre" using assms(1) by (rule fed_first)
  have a: "absorb 64 0 b256_mix (h0, [0, 0]) pre = ((h0, [0, 0]), pre)" using assms(3) by simp
  have U: "b256_inv ?U" "b_nullt ?U = 0" "b256_core ?U = (h0, [0, 0])" "b256_pend ?U = pre" "length h0 = 8"
    using fed a by (auto simp: b256_fed_def)
  obtain k rest where ab: "absorb 64 0 b256_mix (h0, [0, 0]) xs = (k, rest)"
    by (cases "absorb 64 0 b256_mix (h0, [0, 0]) xs")
  have rest: "rest = []"
    using absorb_rest_length [of 64 b256_mix "(h0, [0, 0])" xs] ab assms(4) by simp
  have "\<not> b256_fits (length (b256_pend ?U)) (length xs)"
    using assms(2-4) U(4) by (auto simp: b256_fits_def)
  from b256_upd_misfit [OF U(1,2) this, of k rest] ab U(3)
  show ?thesis by (simp add: b256_fed_def U(5) ab rest)
qed

section \<open>Properties\<close>

text \<open>C29: One-shot BLAKE-256 and BLAKE-224: the code's padding tricks (counting back the padding bits,
  the flag that drops the counter in a block without data, the 55-byte case with its single padding
  byte) give the digest of the SHA-3 proposal for every message; for BLAKE-224 the eight words of
  the chain value are all written.\<close>

theorem blake256_hash_correct:
  assumes "length inp = inlen"
  shows "blake256_hash inp inlen = b256_spec iv256 0x01 inp \<and> blake224_hash inp inlen = b256_spec iv224 0x00 inp"
  using hash_spec [of inlen inp] assms by simp

theorem blake256_hash_correct_witness:
  "blake256_hash (replicate 120 1) 120 = b256_spec iv256 1 (replicate 120 1)
   \<and> blake224_hash (replicate 120 1) 120 = b256_spec iv224 0 (replicate 120 1)"
  using blake256_hash_correct [of "replicate 120 1" 120] by simp

text \<open>Incremental BLAKE-256: if every piece fits what is buffered when it arrives (the buffer is
  empty, or the piece is non-empty and shorter than a block, or its part beyond whole blocks fills
  the buffered block), the digest is that of the whole message.\<close>

theorem blake256_fitting_pieces:
  assumes "length (b_buf S) = 64"
    and "\<forall>i < length pieces. b256_fits (length (concat (take i pieces)) mod 64) (length (pieces ! i))"
  shows "fst (blake256_final (foldl (\<lambda>S p. blake256_update S p (8 * length p)) (blake256_init S) pieces))
    = b256_spec iv256 0x01 (concat pieces)"
proof -
  have "b256_fed iv256 (foldl (\<lambda>S p. blake256_update S p (8 * length p)) (blake256_init S) (take n pieces))
      (concat (take n pieces))" if "n \<le> length pieces" for n
    using that
  proof (induction n)
    case 0
    then show ?case using b256_start_fed [OF b256_init_start(1) [OF assms(1)]] by simp
  next
    case (Suc n)
    then show ?case
      using b256_fed_upd [OF Suc.IH, of "pieces ! n"] assms(2)
      by (simp add: take_Suc_conv_app_nth b256_upd_def)
  qed
  from final_fed(1) [OF this [OF order_refl]] show ?thesis by simp
qed

theorem blake256_fitting_pieces_witness:
  "fst (blake256_final (foldl (\<lambda>S p. blake256_update S p (8 * length p)) (blake256_init uninit_b256)
     [[1, 2], [3], replicate 125 4])) = b256_spec iv256 1 (concat [[1, 2], [3], replicate 125 4])"
  by (rule blake256_fitting_pieces)
    (auto simp: uninit_b256_def b256_fits_def less_Suc_eq)

text \<open>C30: What the fill test gets wrong: with bytes buffered, a piece of whole blocks (or an empty one)
  is compressed past the buffer and the buffer is then emptied, so the digest is that of the piece
  alone and does not depend on the bytes fed before it.\<close>

theorem blake256_update_loses_bytes:
  assumes "length (b_buf S) = 64" and "0 < length pre" and "length pre < 64" and "length piece mod 64 = 0"
  shows "fst (blake256_final (blake256_update (blake256_update (blake256_init S) pre (8 * length pre))
    piece (8 * length piece))) = b256_spec iv256 0x01 piece"
  using final_fed(1) [OF b256_erased [OF b256_init_start(1) [OF assms(1)] assms(2-4)]] by (simp add: b256_upd_def)

theorem blake256_update_loses_bytes_witness:
  "fst (blake256_final (blake256_update (blake256_update (blake256_init uninit_b256) [42] 8) [] 0))
    = b256_spec iv256 1 []"
  using blake256_update_loses_bytes [of uninit_b256 "[42]" "[]"] by (simp add: uninit_b256_def)

text \<open>One-shot HMAC-BLAKE-256 is HMAC of RFC 2104 over BLAKE-256, for keys of any length. In
  HMAC-BLAKE-224 a key over 64 bytes is not hashed with BLAKE-224: the first 28 bytes of its
  BLAKE-256 digest take its place.\<close>

theorem hmac_blake_correct:
  assumes "length inp = inlen"
  shows "hmac_blake256_hash key (length key) inp inlen = hmac_spec 64 (b256_spec iv256 0x01) key inp \<and>
    take 28 (hmac_blake224_hash key (length key) inp inlen) =
      hmac_spec 64 (\<lambda>m. take 28 (b256_spec iv224 0x00 m))
        (if 64 < length key then take 28 (b256_spec iv256 0x01 key) else key) inp"
  using hmac256_spec [of inlen inp key] hmac224_spec [of inlen inp, OF _ refl refl, of key] assms by simp

theorem hmac_blake_correct_witness:
  "hmac_blake256_hash [1] (length [1 :: u8]) [2, 3] 2 = hmac_spec 64 (b256_spec iv256 1) [1] [2, 3] \<and>
   take 28 (hmac_blake224_hash [1] (length [1 :: u8]) [2, 3] 2)
     = hmac_spec 64 (\<lambda>m. take 28 (b256_spec iv224 0 m)) [1] [2, 3]"
  using hmac_blake_correct [of "[2, 3]" 2 "[1]"] by simp

end
