(* ===== verification/Reciprocal.thy ===== *)
theory Reciprocal
  imports C_Prelude
begin

text \<open>
  \<open>randomx/reciprocal.c\<close>: the reciprocal that RandomX multiplies by instead of dividing, computed
  by long division in 64-bit words. The loop that finds the highest bit shifts a word to zero; the
  other doubles a remainder without ever forming a product of more than 64 bits.
\<close>

section \<open>The function\<close>

text \<open>\<open>for (bit = divisor; bit > 0; bit >>= 1) bsr++;\<close>\<close>

function reciprocal_bsr :: "u64 \<Rightarrow> nat \<Rightarrow> nat" where
  "reciprocal_bsr w bsr = (if 0 < w then reciprocal_bsr (drop_bit 1 w) (bsr + 1) else bsr)"
  by pat_completeness auto
termination
  by (relation "measure (\<lambda>(w, bsr). unat w)")
    (auto simp: unat_drop_bit word_less_nat_alt)

declare reciprocal_bsr.simps [simp del]

definition reciprocal_step :: "u64 \<Rightarrow> u64 \<times> u64 \<Rightarrow> nat \<Rightarrow> u64 \<times> u64" where
  "reciprocal_step divisor qr shift =
    (case qr of (quot, rem) \<Rightarrow>
      if divisor - rem \<le> rem then (quot * 2 + 1, rem * 2 - divisor)
      else (quot * 2, rem * 2))"

definition randomx_reciprocal :: "u64 \<Rightarrow> c_error + u64" where
  "randomx_reciprocal divisor =
    (if divisor = 0 then Inl AssertFailed
     else
       let p2exp63 = push_bit 63 1;
           quot = p2exp63 div divisor;
           rem = p2exp63 mod divisor;
           bsr = reciprocal_bsr divisor 0
       in Inr (fst (for_range 0 bsr (reciprocal_step divisor) (quot, rem))))"

definition randomx_reciprocal_fast :: "u64 \<Rightarrow> c_error + u64" where
  "randomx_reciprocal_fast divisor = randomx_reciprocal divisor"

section \<open>The highest bit\<close>

text \<open>The number of binary digits of \<open>n\<close>.\<close>

fun bit_length :: "nat \<Rightarrow> nat" where
  "bit_length n = (if n = 0 then 0 else bit_length (n div 2) + 1)"

declare bit_length.simps [simp del]

lemma bit_length_0 [simp]: "bit_length 0 = 0"
  by (simp add: bit_length.simps)

lemma bit_length_bounds: "0 < n \<Longrightarrow> 2 ^ (bit_length n - 1) \<le> n \<and> n < 2 ^ bit_length n"
proof (induction n rule: bit_length.induct)
  case (1 n)
  show ?case
  proof (cases "n = 1")
    case True
    then show ?thesis by (simp add: bit_length.simps)
  next
    case False
    then have IH: "2 ^ (bit_length (n div 2) - 1) \<le> n div 2 \<and> n div 2 < 2 ^ bit_length (n div 2)"
      using 1 by auto
    obtain k where k: "bit_length (n div 2) = Suc k"
      using IH 1(2) False by (cases "bit_length (n div 2)") auto
    have "bit_length n = Suc (Suc k)" using 1(2) k by (simp add: bit_length.simps [of n])
    with IH k show ?thesis by auto
  qed
qed

lemma reciprocal_bsr_length: "reciprocal_bsr b n = n + bit_length (unat b)"
proof (induction b n rule: reciprocal_bsr.induct)
  case (1 b n)
  show ?case
  proof (cases "0 < b")
    case True
    then have "0 < unat b" by (simp add: word_less_nat_alt)
    with True 1 show ?thesis
      by (simp add: reciprocal_bsr.simps [of b] bit_length.simps [of "unat b"] unat_drop_bit)
  next
    case False
    then have "unat b = 0" by (simp add: word_less_nat_alt)
    with False show ?thesis by (simp add: reciprocal_bsr.simps bit_length.simps)
  qed
qed

section \<open>Long division\<close>

text \<open>One more binary digit of the quotient.\<close>

lemma div_mod_unique: "n = d * k + s \<Longrightarrow> s < d \<Longrightarrow> n div d = k \<and> n mod d = (s :: nat)"
  by simp

lemma double_div_mod:
  fixes a d :: nat
  assumes "0 < d"
  shows "2 * a div d = (if d - a mod d \<le> a mod d then 2 * (a div d) + 1 else 2 * (a div d))"
    and "2 * a mod d = (if d - a mod d \<le> a mod d then 2 * (a mod d) - d else 2 * (a mod d))"
proof -
  define q r where "q = a div d" and "r = a mod d"
  have "a = d * q + r" by (simp add: q_def r_def)
  then have a: "2 * a = d * (2 * q) + 2 * r" by simp
  have r: "r < d" using assms by (simp add: r_def)
  show "2 * a div d = (if d - a mod d \<le> a mod d then 2 * (a div d) + 1 else 2 * (a div d))"
    and "2 * a mod d = (if d - a mod d \<le> a mod d then 2 * (a mod d) - d else 2 * (a mod d))"
    unfolding q_def [symmetric] r_def [symmetric]
  proof -
    have "2 * a div d = (if d - r \<le> r then 2 * q + 1 else 2 * q) \<and>
        2 * a mod d = (if d - r \<le> r then 2 * r - d else 2 * r)"
    proof (cases "d - r \<le> r")
      case True
      have "2 * a = d * (2 * q + 1) + (2 * r - d)" using True a r by (simp add: algebra_simps)
      moreover have "2 * r - d < d" using r assms by auto
      ultimately show ?thesis unfolding if_P [OF True] by (rule div_mod_unique)
    next
      case False
      then have "2 * r < d" by auto
      then show ?thesis unfolding if_not_P [OF False] using a by (intro div_mod_unique)
    qed
    then show "2 * a div d = (if d - r \<le> r then 2 * q + 1 else 2 * q)"
      and "2 * a mod d = (if d - r \<le> r then 2 * r - d else 2 * r)" by blast+
  qed
qed

lemma of_nat_unat_id: "of_nat (unat x) = (x :: 'a::len word)"
  by simp

lemma reciprocal_step_exact:
  assumes "0 < unat d" and "unat r = a mod unat d" and "q = of_nat (a div unat d)"
  shows "reciprocal_step d (q, r) i = (of_nat (2 * a div unat d), of_nat (2 * a mod unat d))"
proof -
  have r: "unat r < unat d" using assms by simp
  then have sub: "unat (d - r) = unat d - unat r" by (simp add: unat_sub word_le_nat_alt less_imp_le)
  have rw: "r = of_nat (a mod unat d)" and dw: "d = of_nat (unat d)"
    using of_nat_unat_id [of r] assms(2) by simp_all
  show ?thesis
  proof (cases "unat d - a mod unat d \<le> a mod unat d")
    case True
    then have "unat d \<le> 2 * (a mod unat d)" by simp
    then have "of_nat (2 * (a mod unat d) - unat d) = (of_nat (2 * (a mod unat d)) - of_nat (unat d) :: u64)"
      by (rule of_nat_diff)
    then have "r * 2 - d = of_nat (2 * a mod unat d)"
      using True double_div_mod(2) [OF assms(1), of a] rw dw by (simp add: mult.commute)
    moreover have "q * 2 + 1 = of_nat (2 * a div unat d)"
      using True double_div_mod(1) [OF assms(1), of a] assms(3) by (simp add: mult.commute add.commute)
    ultimately show ?thesis
      using True assms(2) sub by (simp add: reciprocal_step_def word_le_nat_alt)
  next
    case False
    then have "r * 2 = of_nat (2 * a mod unat d)" and "q * 2 = of_nat (2 * a div unat d)"
      using double_div_mod [OF assms(1), of a] rw assms(3) by (simp_all add: mult.commute)
    then show ?thesis
      using False assms(2) sub by (simp add: reciprocal_step_def word_le_nat_alt)
  qed
qed

lemma unat_mod_word: "unat (of_nat (a mod unat (d :: u64)) :: u64) = a mod unat d" if "0 < unat d"
proof -
  have "a mod unat d < 2 ^ 64"
    using that unsigned_less [of d, where ?'a = nat] by (simp add: order.strict_trans [OF mod_less_divisor])
  then show ?thesis by (simp add: unat_of_nat)
qed

lemma reciprocal_loop:
  assumes "0 < unat d"
  shows "for_range 0 n (reciprocal_step d) (of_nat (a div unat d), of_nat (a mod unat d))
    = (of_nat (2 ^ n * a div unat d), of_nat (2 ^ n * a mod unat d))"
proof (induction n)
  case (Suc n)
  then show ?case
    using reciprocal_step_exact [OF assms unat_mod_word [OF assms] refl, of "2 ^ n * a" n]
    by (simp add: for_range_Suc mult.assoc)
qed simp

lemma randomx_reciprocal_value:
  assumes "d \<noteq> 0"
  shows "randomx_reciprocal d = Inr (of_nat (2 ^ (63 + bit_length (unat d)) div unat d))"
proof -
  have D: "0 < unat d" using assms by (simp add: unat_gt_0)
  have "unat (push_bit 63 1 :: u64) = 2 ^ 63" by (simp add: push_bit_eq_mult)
  then have "push_bit 63 1 div d = of_nat (2 ^ 63 div unat d)" "push_bit 63 1 mod d = of_nat (2 ^ 63 mod unat d)"
    by (metis unat_div_distrib of_nat_unat_id, metis unat_mod_distrib of_nat_unat_id)
  then show ?thesis
    using assms reciprocal_loop [OF D, of "bit_length (unat d)" "2 ^ 63"]
    by (simp add: randomx_reciprocal_def reciprocal_bsr_length power_add mult.commute)
qed

section \<open>Properties\<close>

text \<open>C31: For every non-zero divisor the long division returns the low 64 bits of
  \<open>2 ^ (63 + n) div divisor\<close> with \<open>n\<close> the bit length of the divisor; when the divisor is not a power of
  two this quotient fits a word, and \<open>63 + n\<close> is the highest exponent for which it does, as the
  comment of the function promises.\<close>

theorem randomx_reciprocal_correct:
  assumes "divisor \<noteq> 0" and "n = bit_length (unat divisor)"
  shows "\<exists>q. randomx_reciprocal divisor = Inr q \<and> unat q = 2 ^ (63 + n) div unat divisor mod 2 ^ 64 \<and>
    (unat divisor = 2 ^ (n - 1) \<or>
      2 ^ (63 + n) div unat divisor < 2 ^ 64 \<and> 2 ^ 64 \<le> 2 ^ (63 + n + 1) div unat divisor)"
proof -
  let ?D = "unat divisor"
  have D: "0 < ?D" using assms(1) by (simp add: unat_gt_0)
  note b = bit_length_bounds [OF D, folded assms(2)]
  have n: "n \<noteq> 0" using b D by (cases n) auto
  have "2 ^ (63 + n) div ?D < 2 ^ 64 \<and> 2 ^ 64 \<le> 2 ^ (63 + n + 1) div ?D" if "?D \<noteq> 2 ^ (n - 1)"
  proof
    have "2 ^ (63 + n) = 2 ^ 64 * (2 ^ (n - 1) :: nat)"
      using n by (cases n) (simp_all add: power_add)
    also have "\<dots> < 2 ^ 64 * ?D"
      using b that by simp
    finally show "2 ^ (63 + n) div ?D < 2 ^ 64"
      by (simp only: div_less_iff_less_mult D)
    have "2 ^ 64 * ?D \<le> 2 ^ (63 + n + 1)"
      using b by (simp add: power_add)
    then show "2 ^ 64 \<le> 2 ^ (63 + n + 1) div ?D"
      by (simp only: less_eq_div_iff_mult_less_eq D)
  qed
  then show ?thesis
    using randomx_reciprocal_value [OF assms(1)] by (auto simp: assms(2) unat_of_nat)
qed

theorem randomx_reciprocal_correct_witness:
  "\<exists>q. randomx_reciprocal 3 = Inr q \<and> unat q = 2 ^ 65 div 3 mod 2 ^ 64 \<and> 2 ^ 65 div 3 < (2 ^ 64 :: nat)"
proof -
  have "2 = bit_length (unat (3 :: u64))"
    by (simp add: bit_length.simps [of 3] bit_length.simps [of "Suc 0"])
  from randomx_reciprocal_correct [OF _ this] show ?thesis by auto
qed

end
