(* ===== verification/Salsa20.thy ===== *)
theory Salsa20
  imports Streaming Endian
begin

text \<open>
  \<open>astrobwt/salsa20_ref/salsa20.c\<close>: key and nonce setup and the encryption loop, with its 64-bit
  block counter in two words and its detour over a stack buffer for a last partial block. The
  second half states the Salsa20 of Bernstein's specification (matrices, quarter-rounds) and proves
  that the code xors its stream, that decryption undoes encryption and that messages may be
  encrypted in pieces of whole blocks.
\<close>

section \<open>Words and bytes\<close>

definition U8TO32_LITTLE :: "bytes \<Rightarrow> u32" where
  "U8TO32_LITTLE p = ucast (p ! 0) OR push_bit 8 (ucast (p ! 1)) OR
     push_bit 16 (ucast (p ! 2)) OR push_bit 24 (ucast (p ! 3))"

definition U32TO8_LITTLE :: "u32 \<Rightarrow> bytes" where
  "U32TO8_LITTLE v = [ucast v, ucast (drop_bit 8 v), ucast (drop_bit 16 v), ucast (drop_bit 24 v)]"

definition ROTL32 :: "u32 \<Rightarrow> nat \<Rightarrow> u32" where
  "ROTL32 v n = push_bit n v OR drop_bit (32 - n) v"

section \<open>The context\<close>

record ECRYPT_ctx =
  salsa_input :: "u32 list"

text \<open>The characters of \<open>expand 32-byte k\<close> and \<open>expand 16-byte k\<close>.\<close>

definition salsa_sigma :: bytes where
  "salsa_sigma = [101, 120, 112, 97, 110, 100, 32, 51, 50, 45, 98, 121, 116, 101, 32, 107]"

definition salsa_tau :: bytes where
  "salsa_tau = [101, 120, 112, 97, 110, 100, 32, 49, 54, 45, 98, 121, 116, 101, 32, 107]"

definition ECRYPT_keysetup :: "ECRYPT_ctx \<Rightarrow> bytes \<Rightarrow> nat \<Rightarrow> nat \<Rightarrow> ECRYPT_ctx" where
  "ECRYPT_keysetup x k kbits ivbits =
    (let inp = (salsa_input x)
           [1 := U8TO32_LITTLE (sub 0 4 k), 2 := U8TO32_LITTLE (sub 4 4 k),
            3 := U8TO32_LITTLE (sub 8 4 k), 4 := U8TO32_LITTLE (sub 12 4 k)];
         (k, constants) = (if kbits = 256 then (drop 16 k, salsa_sigma) else (k, salsa_tau));
         inp = inp[11 := U8TO32_LITTLE (sub 0 4 k), 12 := U8TO32_LITTLE (sub 4 4 k),
            13 := U8TO32_LITTLE (sub 8 4 k), 14 := U8TO32_LITTLE (sub 12 4 k),
            0 := U8TO32_LITTLE (sub 0 4 constants), 5 := U8TO32_LITTLE (sub 4 4 constants),
            10 := U8TO32_LITTLE (sub 8 4 constants), 15 := U8TO32_LITTLE (sub 12 4 constants)]
     in x\<lparr>salsa_input := inp\<rparr>)"

definition ECRYPT_ivsetup :: "ECRYPT_ctx \<Rightarrow> bytes \<Rightarrow> ECRYPT_ctx" where
  "ECRYPT_ivsetup x iv = x\<lparr>salsa_input := (salsa_input x)
     [6 := U8TO32_LITTLE (sub 0 4 iv), 7 := U8TO32_LITTLE (sub 4 4 iv), 8 := 0, 9 := 0]\<rparr>"

section \<open>The block function\<close>

text \<open>\<open>xd = XOR(xd, ROTATE(PLUS(xa, xb), n))\<close>; the local variables \<open>x0 \<dots> x15\<close> are a list.\<close>

definition salsa_op :: "u32 list \<Rightarrow> nat \<times> nat \<times> nat \<times> nat \<Rightarrow> u32 list" where
  "salsa_op x op = (case op of (d, a, b, n) \<Rightarrow> x[d := x ! d XOR ROTL32 (x ! a + x ! b) n])"

definition salsa_loop_body :: "u32 list \<Rightarrow> u32 list" where
  "salsa_loop_body x = foldl salsa_op x [
     (4, 0, 12, 7), (8, 4, 0, 9), (12, 8, 4, 13), (0, 12, 8, 18),
     (9, 5, 1, 7), (13, 9, 5, 9), (1, 13, 9, 13), (5, 1, 13, 18),
     (14, 10, 6, 7), (2, 14, 10, 9), (6, 2, 14, 13), (10, 6, 2, 18),
     (3, 15, 11, 7), (7, 3, 15, 9), (11, 7, 3, 13), (15, 11, 7, 18),
     (1, 0, 3, 7), (2, 1, 0, 9), (3, 2, 1, 13), (0, 3, 2, 18),
     (6, 5, 4, 7), (7, 6, 5, 9), (4, 7, 6, 13), (5, 4, 7, 18),
     (11, 10, 9, 7), (8, 11, 10, 9), (9, 8, 11, 13), (10, 9, 8, 18),
     (12, 15, 14, 7), (13, 12, 15, 9), (14, 13, 12, 13), (15, 14, 13, 18)]"

text \<open>\<open>for (i = 20; i > 0; i -= 2)\<close>: ten turns.\<close>

definition salsa_block :: "u32 list \<Rightarrow> u32 list" where
  "salsa_block j = map2 (+) (for_range 0 10 (\<lambda>x i. salsa_loop_body x) j) j"

section \<open>Encryption\<close>

text \<open>
  One turn of the outer loop: \<open>m\<close> is the input that is left, \<open>c\<close> the output written so far, \<open>tmp\<close>
  the stack array, whatever it holds. The words \<open>j\<close> carry the counter in \<open>j8\<close> and \<open>j9\<close>.
\<close>

function ECRYPT_loop :: "bytes \<Rightarrow> u32 list \<Rightarrow> bytes \<Rightarrow> bytes \<Rightarrow> nat \<Rightarrow> bytes \<times> u32 list" where
  "ECRYPT_loop tmp j m c n =
    (let blk = (if n < 64 then blit tmp 0 (take n m) else take 64 m);
         x = salsa_block j;
         x = map (\<lambda>i. x ! i XOR U8TO32_LITTLE (sub (4 * i) 4 blk)) [0..<16];
         j = j[8 := j ! 8 + 1];
         j = (if j ! 8 = 0 then j[9 := j ! 9 + 1] else j);
         out = concat (map U32TO8_LITTLE x)
     in if n \<le> 64 then (c @ take n out, j)
        else ECRYPT_loop tmp j (drop 64 m) (c @ out) (n - 64))"
  by pat_completeness auto
termination
  by (relation "measure (\<lambda>(tmp, j, m, c, n). n)") auto

declare ECRYPT_loop.simps [simp del]

definition ECRYPT_encrypt_bytes :: "bytes \<Rightarrow> ECRYPT_ctx \<Rightarrow> bytes \<Rightarrow> nat \<Rightarrow> bytes \<times> ECRYPT_ctx" where
  "ECRYPT_encrypt_bytes tmp x m n =
    (if n = 0 then ([], x)
     else
       let (c, j) = ECRYPT_loop tmp (salsa_input x) m [] n
       in (c, x\<lparr>salsa_input := (salsa_input x)[8 := j ! 8, 9 := j ! 9]\<rparr>))"

definition ECRYPT_decrypt_bytes :: "bytes \<Rightarrow> ECRYPT_ctx \<Rightarrow> bytes \<Rightarrow> nat \<Rightarrow> bytes \<times> ECRYPT_ctx" where
  "ECRYPT_decrypt_bytes tmp x c n = ECRYPT_encrypt_bytes tmp x c n"

definition ECRYPT_keystream_bytes :: "bytes \<Rightarrow> ECRYPT_ctx \<Rightarrow> nat \<Rightarrow> bytes \<times> ECRYPT_ctx" where
  "ECRYPT_keystream_bytes tmp x n = ECRYPT_encrypt_bytes tmp x (replicate n 0) n"

section \<open>Salsa20 as specified\<close>

fun spec_quarterround :: "u32 \<times> u32 \<times> u32 \<times> u32 \<Rightarrow> u32 \<times> u32 \<times> u32 \<times> u32" where
  "spec_quarterround (y0, y1, y2, y3) =
    (let z1 = y1 XOR word_rotl 7 (y0 + y3);
         z2 = y2 XOR word_rotl 9 (z1 + y0);
         z3 = y3 XOR word_rotl 13 (z2 + z1);
         z0 = y0 XOR word_rotl 18 (z3 + z2)
     in (z0, z1, z2, z3))"

fun spec_rowround :: "u32 list \<Rightarrow> u32 list" where
  "spec_rowround [y0, y1, y2, y3, y4, y5, y6, y7, y8, y9, y10, y11, y12, y13, y14, y15] =
    (case (spec_quarterround (y0, y1, y2, y3), spec_quarterround (y5, y6, y7, y4),
       spec_quarterround (y10, y11, y8, y9), spec_quarterround (y15, y12, y13, y14)) of
     ((z0, z1, z2, z3), (z5, z6, z7, z4), (z10, z11, z8, z9), (z15, z12, z13, z14)) \<Rightarrow>
       [z0, z1, z2, z3, z4, z5, z6, z7, z8, z9, z10, z11, z12, z13, z14, z15])"
| "spec_rowround y = y"

definition transpose4 :: "u32 list \<Rightarrow> u32 list" where
  "transpose4 y = map (\<lambda>i. y ! (4 * (i mod 4) + i div 4)) [0..<16]"

text \<open>A column round is a row round of the transposed matrix.\<close>

definition spec_columnround :: "u32 list \<Rightarrow> u32 list" where
  "spec_columnround y = transpose4 (spec_rowround (transpose4 y))"

definition spec_salsa20 :: "u32 list \<Rightarrow> bytes" where
  "spec_salsa20 x =
     concat (map (le_of_word 4) (map2 (+) x (((\<lambda>y. spec_rowround (spec_columnround y)) ^^ 10) x)))"

text \<open>Words of a byte string; the 64-byte input of a block with key, nonce and 64-bit block number.\<close>

definition le_words :: "nat \<Rightarrow> bytes \<Rightarrow> u32 list" where
  "le_words n p = map (\<lambda>i. word_of_le (sub (4 * i) 4 p)) [0..<n]"

definition spec_expand :: "bytes \<Rightarrow> bytes \<Rightarrow> u64 \<Rightarrow> bytes" where
  "spec_expand k v i =
    (let (k0, k1, s) = (if length k = 32 then (take 16 k, drop 16 k, salsa_sigma) else (k, k, salsa_tau))
     in take 4 s @ k0 @ take 4 (drop 4 s) @ v @ le_of_word 8 i @ take 4 (drop 8 s) @ k1 @ take 4 (drop 12 s))"

text \<open>\<open>n\<close> bytes of the stream from block \<open>i\<close> on.\<close>

definition spec_stream :: "bytes \<Rightarrow> bytes \<Rightarrow> nat \<Rightarrow> nat \<Rightarrow> bytes" where
  "spec_stream k v i n =
     take n (concat (map (\<lambda>b. spec_salsa20 (le_words 16 (spec_expand k v (of_nat b)))) [i..<i + (n + 63) div 64]))"

section \<open>The block function is the specified one\<close>

lemma salsa_rotations:
  "ROTL32 w 7 = word_rotl 7 w" "ROTL32 w 9 = word_rotl 9 w"
  "ROTL32 w 13 = word_rotl 13 w" "ROTL32 w 18 = word_rotl 18 w"
  using rotl32_eq [of 7 w] rotl32_eq [of 9 w] rotl32_eq [of 13 w] rotl32_eq [of 18 w]
  by (simp_all add: ROTL32_def rotl32_def)

lemma upt_16: "[0..<16] = [0, 1, 2, 3, 4, 5, 6, 7, 8, 9, 10, 11, 12, 13, 14, 15]"
  by (simp add: upt_conv_Cons)

lemma list_16:
  assumes "length p = 16"
  obtains a0 a1 a2 a3 a4 a5 a6 a7 a8 a9 a10 a11 a12 a13 a14 a15
  where "p = [a0, a1, a2, a3, a4, a5, a6, a7, a8, a9, a10, a11, a12, a13, a14, a15]"
proof -
  have "p = map ((!) p) [0..<16]" using assms by (metis map_nth)
  then show ?thesis unfolding upt_16 list.map by (rule that)
qed

lemma transpose4_list:
  "transpose4 [a0, a1, a2, a3, a4, a5, a6, a7, a8, a9, a10, a11, a12, a13, a14, a15]
    = [a0, a4, a8, a12, a1, a5, a9, a13, a2, a6, a10, a14, a3, a7, a11, a15]"
  by (simp add: transpose4_def upt_16)

lemma salsa_columns:
  "foldl salsa_op [a0, a1, a2, a3, a4, a5, a6, a7, a8, a9, a10, a11, a12, a13, a14, a15] [
     (4, 0, 12, 7), (8, 4, 0, 9), (12, 8, 4, 13), (0, 12, 8, 18),
     (9, 5, 1, 7), (13, 9, 5, 9), (1, 13, 9, 13), (5, 1, 13, 18),
     (14, 10, 6, 7), (2, 14, 10, 9), (6, 2, 14, 13), (10, 6, 2, 18),
     (3, 15, 11, 7), (7, 3, 15, 9), (11, 7, 3, 13), (15, 11, 7, 18)]
   = spec_columnround [a0, a1, a2, a3, a4, a5, a6, a7, a8, a9, a10, a11, a12, a13, a14, a15]"
  by (simp add: salsa_op_def spec_columnround_def transpose4_list salsa_rotations Let_def)

lemma salsa_rows:
  "foldl salsa_op [a0, a1, a2, a3, a4, a5, a6, a7, a8, a9, a10, a11, a12, a13, a14, a15] [
     (1, 0, 3, 7), (2, 1, 0, 9), (3, 2, 1, 13), (0, 3, 2, 18),
     (6, 5, 4, 7), (7, 6, 5, 9), (4, 7, 6, 13), (5, 4, 7, 18),
     (11, 10, 9, 7), (8, 11, 10, 9), (9, 8, 11, 13), (10, 9, 8, 18),
     (12, 15, 14, 7), (13, 12, 15, 9), (14, 13, 12, 13), (15, 14, 13, 18)]
   = spec_rowround [a0, a1, a2, a3, a4, a5, a6, a7, a8, a9, a10, a11, a12, a13, a14, a15]"
  by (simp add: salsa_op_def salsa_rotations Let_def)

lemma length_salsa_op [simp]: "length (salsa_op x p) = length x"
  by (simp add: salsa_op_def split: prod.split)

lemma length_foldl_salsa [simp]: "length (foldl salsa_op x ps) = length x"
  by (induction ps arbitrary: x) simp_all

lemma salsa_loop_body_spec:
  assumes "length x = 16"
  shows "salsa_loop_body x = spec_rowround (spec_columnround x)"
proof -
  let ?cols = "[(4, 0, 12, 7), (8, 4, 0, 9), (12, 8, 4, 13), (0, 12, 8, 18),
     (9, 5, 1, 7), (13, 9, 5, 9), (1, 13, 9, 13), (5, 1, 13, 18),
     (14, 10, 6, 7), (2, 14, 10, 9), (6, 2, 14, 13), (10, 6, 2, 18),
     (3, 15, 11, 7), (7, 3, 15, 9), (11, 7, 3, 13), (15, 11, 7, 18)] :: (nat \<times> nat \<times> nat \<times> nat) list"
  let ?rows = "[(1, 0, 3, 7), (2, 1, 0, 9), (3, 2, 1, 13), (0, 3, 2, 18),
     (6, 5, 4, 7), (7, 6, 5, 9), (4, 7, 6, 13), (5, 4, 7, 18),
     (11, 10, 9, 7), (8, 11, 10, 9), (9, 8, 11, 13), (10, 9, 8, 18),
     (12, 15, 14, 7), (13, 12, 15, 9), (14, 13, 12, 13), (15, 14, 13, 18)] :: (nat \<times> nat \<times> nat \<times> nat) list"
  have "salsa_loop_body x = foldl salsa_op (foldl salsa_op x ?cols) ?rows"
    by (simp only: salsa_loop_body_def foldl.simps)
  also have "foldl salsa_op x ?cols = spec_columnround x"
    by (rule list_16 [OF assms]) (simp only: salsa_columns)
  also have "foldl salsa_op (spec_columnround x) ?rows = spec_rowround (spec_columnround x)"
  proof -
    have "length (spec_columnround x) = 16" by (simp add: spec_columnround_def transpose4_def)
    then show ?thesis by (rule list_16) (simp only: salsa_rows)
  qed
  finally show ?thesis .
qed

lemma length_spec_rowround [simp]: "length (spec_rowround y) = length y"
  by (cases y rule: spec_rowround.cases) (simp_all split: prod.splits)

lemma length_spec_columnround [simp]: "length (spec_columnround y) = 16"
  by (simp add: spec_columnround_def transpose4_def)

lemma salsa_block_spec:
  assumes "length j = 16"
  shows "salsa_block j = map2 (+) j (((\<lambda>y. spec_rowround (spec_columnround y)) ^^ 10) j)"
    and "length (salsa_block j) = 16"
proof -
  let ?f = "\<lambda>y. spec_rowround (spec_columnround y)"
  have "for_range 0 n (\<lambda>x i. salsa_loop_body x) j = (?f ^^ n) j \<and> length ((?f ^^ n) j) = 16" for n
    by (induction n) (simp_all add: assms for_range_Suc salsa_loop_body_spec)
  then have r: "for_range 0 10 (\<lambda>x i. salsa_loop_body x) j = (?f ^^ 10) j" "length ((?f ^^ 10) j) = 16" by blast+
  show "salsa_block j = map2 (+) j ((?f ^^ 10) j)"
    using assms r(2) unfolding salsa_block_def r(1) by (intro nth_equalityI) (simp_all add: add.commute)
  show "length (salsa_block j) = 16"
    using assms r by (simp add: salsa_block_def)
qed

section \<open>The words of a block\<close>

lemma U8TO32_LITTLE_word: "length p = 4 \<Longrightarrow> U8TO32_LITTLE p = word_of_le p"
  by (subst (2) list_4, assumption) (simp add: U8TO32_LITTLE_def push_bit_or push_bit_push_bit ac_simps)

lemma U32TO8_LITTLE_eq: "U32TO8_LITTLE w = le_of_word 4 w"
  by (simp add: U32TO8_LITTLE_def numeral_eq_Suc drop_bit_drop_bit)

interpretation salsa_le: codec 4 U32TO8_LITTLE U8TO32_LITTLE
  by unfold_locales (simp_all add: U8TO32_LITTLE_word U32TO8_LITTLE_eq le_of_word_of_le)

lemma length_salsa_le_words [simp]: "length (le_words n p) = n"
  by (simp add: le_words_def)

lemma le_words_append:
  assumes "length xs = 4 * m"
  shows "le_words (m + n) (xs @ ys) = le_words m xs @ le_words n ys"
proof (rule nth_equalityI)
  fix i assume "i < length (le_words (m + n) (xs @ ys))"
  then have i: "i < m + n" by simp
  show "le_words (m + n) (xs @ ys) ! i = (le_words m xs @ le_words n ys) ! i"
  proof (cases "i < m")
    case True
    then have "sub (4 * i) 4 (xs @ ys) = sub (4 * i) 4 xs" using assms by (simp add: sub_def)
    with True show ?thesis by (simp add: le_words_def nth_append)
  next
    case False
    then have "sub (4 * i) 4 (xs @ ys) = sub (4 * (i - m)) 4 ys"
      using assms by (simp add: sub_def right_diff_distrib')
    with False i show ?thesis by (simp add: le_words_def nth_append)
  qed
qed simp

lemma le_words_small:
  "le_words (Suc 0) p = [word_of_le (sub 0 4 p)]"
  "le_words 2 p = [word_of_le (sub 0 4 p), word_of_le (sub 4 4 p)]"
  "le_words 4 p = [word_of_le (sub 0 4 p), word_of_le (sub 4 4 p), word_of_le (sub 8 4 p), word_of_le (sub 12 4 p)]"
  by (simp_all add: le_words_def upt_conv_Cons)

text \<open>Key, nonce and block number of the specified input, and the words the code keeps.\<close>

definition salsa_words :: "bytes \<Rightarrow> bytes \<Rightarrow> nat \<Rightarrow> u32 list" where
  "salsa_words k v b = le_words 16 (spec_expand k v (of_nat b))"

lemma bit_div_2_32: "bit ((b :: nat) div 4294967296) n = bit b (n + 32)"
  using bit_drop_bit_eq [of 32 b] by (simp add: drop_bit_eq_div fun_eq_iff add.commute)

lemma salsa_counter_words: "le_words 2 (le_of_word 8 (of_nat b :: u64)) = [of_nat b, of_nat (b div 2 ^ 32)]"
proof -
  have "word_of_le (sub 0 4 (le_of_word 8 (of_nat b :: u64))) = (of_nat b :: u32)"
    by (rule bit_word_eqI)
      (auto simp: bit_word_of_le nth_le_of_word bit_simps bit_nat_def div_exp_eq)
  moreover have "word_of_le (sub 4 4 (le_of_word 8 (of_nat b :: u64))) = (of_nat (b div 2 ^ 32) :: u32)"
    by (rule bit_word_eqI)
      (auto simp: bit_word_of_le nth_le_of_word bit_simps bit_div_2_32)
  ultimately show ?thesis by (simp add: le_words_small)
qed

lemma salsa_words_eq:
  assumes "length k = 16 \<or> length k = 32" and "length v = 8"
    and "k1 = (if length k = 32 then drop 16 k else k)"
    and "s = (if length k = 32 then salsa_sigma else salsa_tau)"
  shows "salsa_words k v b =
    [word_of_le (sub 0 4 s), word_of_le (sub 0 4 k), word_of_le (sub 4 4 k), word_of_le (sub 8 4 k),
     word_of_le (sub 12 4 k), word_of_le (sub 4 4 s), word_of_le (sub 0 4 v), word_of_le (sub 4 4 v),
     of_nat b, of_nat (b div 2 ^ 32), word_of_le (sub 8 4 s),
     word_of_le (sub 0 4 k1), word_of_le (sub 4 4 k1), word_of_le (sub 8 4 k1), word_of_le (sub 12 4 k1),
     word_of_le (sub 12 4 s)]"
proof -
  have s: "length s = 16" by (simp add: assms(4) salsa_sigma_def salsa_tau_def)
  have k: "length (take 16 k) = 16" "length k1 = 16" using assms(1,3) by auto
  have 16: "le_words 16 (a @ p @ c @ v @ e @ f @ q @ g) =
      le_words 1 a @ le_words 4 p @ le_words 1 c @ le_words 2 v @ le_words 2 e @ le_words 1 f @ le_words 4 q @ le_words 1 g"
    if "length a = 4" "length p = 16" "length c = 4" "length e = 8" "length f = 4" "length q = 16" for a p c e f q g
    using that assms(2) le_words_append [of a 1 15] le_words_append [of p 4 11] le_words_append [of c 1 10]
      le_words_append [of v 2 8] le_words_append [of e 2 6] le_words_append [of f 1 5] le_words_append [of q 4 1]
    by simp
  have "spec_expand k v (of_nat b) =
      take 4 s @ take 16 k @ take 4 (drop 4 s) @ v @ le_of_word 8 (of_nat b :: u64) @ take 4 (drop 8 s) @ k1 @ take 4 (drop 12 s)"
    using assms by (auto simp: spec_expand_def)
  then have "salsa_words k v b = le_words 1 (take 4 s) @ le_words 4 (take 16 k) @ le_words 1 (take 4 (drop 4 s)) @
      le_words 2 v @ le_words 2 (le_of_word 8 (of_nat b :: u64)) @ le_words 1 (take 4 (drop 8 s)) @ le_words 4 k1 @
      le_words 1 (take 4 (drop 12 s))"
    using s k by (simp add: salsa_words_def 16)
  then show ?thesis
    by (simp only: salsa_counter_words) (simp add: le_words_small sub_def take_drop)
qed

lemma length_salsa_words [simp]: "length (salsa_words k v b) = 16"
  by (simp add: salsa_words_def)

lemma salsa_words_counter:
  assumes "length k = 16 \<or> length k = 32" and "length v = 8"
  obtains pre post where "length pre = 8"
    and "\<And>b. salsa_words k v b = pre @ of_nat b # of_nat (b div 2 ^ 32) # post"
proof -
  let ?w = "salsa_words k v 0"
  have "salsa_words k v b = take 8 ?w @ of_nat b # of_nat (b div 2 ^ 32) # drop 10 ?w" for b
    using assms by (simp add: salsa_words_eq [OF assms refl refl])
  moreover have "length (take 8 ?w) = 8" by simp
  ultimately show ?thesis by (rule that [rotated])
qed

lemma salsa_words_next:
  assumes "length k = 16 \<or> length k = 32" and "length v = 8"
    and "j = (salsa_words k v b)[8 := salsa_words k v b ! 8 + 1]"
  shows "(if j ! 8 = 0 then j[9 := j ! 9 + 1] else j) = salsa_words k v (Suc b)"
proof -
  obtain pre post where pre: "length pre = 8"
      and w: "\<And>b. salsa_words k v b = pre @ of_nat b # of_nat (b div 2 ^ 32) # post"
    by (rule salsa_words_counter [OF assms(1,2)]) blast
  have Suc: "(of_nat (Suc b) :: u32) = of_nat b + 1" by (simp add: add.commute)
  have "of_nat (Suc b) = (0 :: u32) \<longleftrightarrow> 2 ^ LENGTH(32) dvd Suc b"
    by (rule word_of_nat_eq_0_iff)
  then have "of_nat b + 1 = (0 :: u32) \<longleftrightarrow> Suc b mod 2 ^ 32 = 0"
    by (simp only: Suc dvd_eq_mod_eq_0) simp
  moreover have "(of_nat (Suc b div 2 ^ 32) :: u32) =
      (if Suc b mod 2 ^ 32 = 0 then of_nat (b div 2 ^ 32) + 1 else of_nat (b div 2 ^ 32))"
    by (subst div_Suc) (simp add: add.commute)
  moreover note Suc
  moreover have "j = pre @ (of_nat b + 1) # of_nat (b div 2 ^ 32) # post"
    using pre by (simp only: assms(3) w) (simp add: nth_append list_update_append)
  ultimately show ?thesis
    using pre by (simp only: w) (simp add: nth_append list_update_append del: of_nat_Suc)
qed

section \<open>The encryption loop\<close>

lemma le_of_word_xor: "le_of_word n (v XOR w) = map2 (XOR) (le_of_word n v) (le_of_word n w)"
  by (induction n arbitrary: v w) (simp_all add: unsigned_xor_eq drop_bit_xor)

lemma map2_xor_append:
  "length a = length c \<Longrightarrow> map2 (XOR) (a @ b) (c @ d) = map2 (XOR) a c @ map2 (XOR) b d"
  by (simp add: zip_append)

text \<open>Xoring the words of a block with the words of the input is xoring the bytes.\<close>

lemma xor_words:
  "length p = 4 * length ws \<Longrightarrow>
    concat (map U32TO8_LITTLE (map (\<lambda>i. ws ! i XOR U8TO32_LITTLE (sub (4 * i) 4 p)) [0..<length ws]))
      = map2 (XOR) p (concat (map (le_of_word 4) ws))"
proof (induction ws arbitrary: p)
  case Nil
  then show ?case by simp
next
  case (Cons w ws)
  have drop: "sub (4 * Suc i) 4 p = sub (4 * i) 4 (drop 4 p)" for i
    by (simp add: sub_def add.commute)
  have "U32TO8_LITTLE (w XOR U8TO32_LITTLE (sub 0 4 p)) = map2 (XOR) (take 4 p) (le_of_word 4 w)"
    using Cons.prems
    by (simp add: U32TO8_LITTLE_eq U8TO32_LITTLE_word sub_def xor.commute [of w] le_of_word_xor le_of_word_of_le)
  moreover have "concat (map U32TO8_LITTLE (map (\<lambda>i. ws ! i XOR U8TO32_LITTLE (sub (4 * i) 4 (drop 4 p))) [0..<length ws]))
      = map2 (XOR) (drop 4 p) (concat (map (le_of_word 4) ws))"
    using Cons.prems by (intro Cons.IH) simp
  moreover have "map2 (XOR) (take 4 p) (le_of_word 4 w) @ map2 (XOR) (drop 4 p) (concat (map (le_of_word 4) ws))
      = map2 (XOR) p (le_of_word 4 w @ concat (map (le_of_word 4) ws))"
    using Cons.prems map2_xor_append [of "take 4 p" "le_of_word 4 w" "drop 4 p"] by simp
  ultimately show ?case
    by (simp add: upt_conv_Cons map_Suc_upt [symmetric] o_def drop del: upt_Suc mult_Suc_right)
qed

lemma spec_block:
  assumes "length k = 16 \<or> length k = 32" and "length v = 8" and "length blk = 64"
  shows "concat (map U32TO8_LITTLE
      (map (\<lambda>i. salsa_block (salsa_words k v b) ! i XOR U8TO32_LITTLE (sub (4 * i) 4 blk)) [0..<16]))
    = map2 (XOR) blk (spec_salsa20 (salsa_words k v b))"
  using xor_words [of blk "salsa_block (salsa_words k v b)"] assms(3) salsa_block_spec [of "salsa_words k v b"]
  by (simp add: spec_salsa20_def)

lemma length_concat_le: "length (concat (map (le_of_word n) ws)) = n * length ws"
  by (induction ws) simp_all

lemma length_spec_salsa20:
  assumes "length x = 16"
  shows "length (spec_salsa20 x) = 64"
  using salsa_block_spec [OF assms] by (simp add: spec_salsa20_def length_concat_le flip: salsa_block_spec(1) [OF assms])

lemma spec_stream_short:
  "0 < n \<Longrightarrow> n \<le> 64 \<Longrightarrow> spec_stream k v i n = take n (spec_salsa20 (salsa_words k v i))"
proof -
  assume "0 < n" and "n \<le> 64"
  then have "(n + 63) div 64 = 1" by simp
  then show ?thesis by (simp add: spec_stream_def salsa_words_def)
qed

lemma spec_stream_step:
  "64 \<le> n \<Longrightarrow> spec_stream k v i n = spec_salsa20 (salsa_words k v i) @ spec_stream k v (Suc i) (n - 64)"
proof -
  assume n: "64 \<le> n"
  then have "(n + 63) div 64 = Suc ((n - 64 + 63) div 64)" by simp
  moreover have "length (spec_salsa20 (salsa_words k v i)) = 64" by (simp add: length_spec_salsa20)
  ultimately show ?thesis
    using n by (simp add: spec_stream_def upt_conv_Cons salsa_words_def)
qed

lemma ECRYPT_loop_correct:
  assumes k: "length k = 16 \<or> length k = 32" and v: "length v = 8" and tmp: "length tmp = 64"
  shows "0 < n \<Longrightarrow> n \<le> length m \<Longrightarrow> ECRYPT_loop tmp (salsa_words k v i) m c n =
    (c @ map2 (XOR) (take n m) (spec_stream k v i n), salsa_words k v (i + (n + 63) div 64))"
proof (induction n arbitrary: i m c rule: less_induct)
  case (less n)
  define blk where "blk = (if n < 64 then blit tmp 0 (take n m) else take 64 m)"
  define j where "j = (salsa_words k v i)[8 := salsa_words k v i ! 8 + 1]"
  have blk: "length blk = 64" using less.prems tmp by (auto simp: blk_def)
  have step: "ECRYPT_loop tmp (salsa_words k v i) m c n =
      (if n \<le> 64 then (c @ take n (map2 (XOR) blk (spec_salsa20 (salsa_words k v i))), salsa_words k v (Suc i))
       else ECRYPT_loop tmp (salsa_words k v (Suc i)) (drop 64 m)
         (c @ map2 (XOR) blk (spec_salsa20 (salsa_words k v i))) (n - 64))"
    by (subst ECRYPT_loop.simps)
      (simp only: Let_def blk_def [symmetric] j_def [symmetric] salsa_words_next [OF k v j_def] spec_block [OF k v blk])
  show ?case
  proof (cases "n \<le> 64")
    case True
    then have "take n blk = take n m" using less.prems tmp by (auto simp: blk_def blit_def)
    moreover have "(n + 63) div 64 = 1" using True less.prems by simp
    ultimately show ?thesis
      using True less.prems by (simp add: step take_zip take_map spec_stream_short)
  next
    case False
    have n: "i + (n + 63) div 64 = Suc i + (n - 64 + 63) div 64" using False by simp
    have "take n m = take 64 m @ take (n - 64) (drop 64 m)"
      using False by (metis add_diff_inverse_nat less_imp_le not_le take_add)
    moreover have "length (take 64 m) = length (spec_salsa20 (salsa_words k v i))"
      using False less.prems by (simp add: length_spec_salsa20)
    ultimately have "map2 (XOR) (take n m) (spec_stream k v i n) =
        map2 (XOR) blk (spec_salsa20 (salsa_words k v i)) @
        map2 (XOR) (take (n - 64) (drop 64 m)) (spec_stream k v (Suc i) (n - 64))"
      using False by (simp add: spec_stream_step blk_def map2_xor_append)
    then show ?thesis
      using False less.prems less.IH [of "n - 64" "drop 64 m"] by (simp add: step n)
  qed
qed

section \<open>Setup and the calls\<close>

text \<open>The context keyed with \<open>k\<close> and \<open>v\<close> whose next block is \<open>i\<close>.\<close>

definition salsa_at :: "bytes \<Rightarrow> bytes \<Rightarrow> nat \<Rightarrow> ECRYPT_ctx \<Rightarrow> bool" where
  "salsa_at k v i x \<longleftrightarrow> (length k = 16 \<or> length k = 32) \<and> length v = 8 \<and> salsa_input x = salsa_words k v i"

lemma salsa_setup:
  assumes "length (salsa_input x) = 16" and "length v = 8"
    and "(kbits = 256 \<and> length k = 32) \<or> (kbits = 128 \<and> length k = 16)"
  shows "salsa_at k v 0 (ECRYPT_ivsetup (ECRYPT_keysetup x k kbits ivbits) v)"
proof -
  have k: "length k = 16 \<or> length k = 32" using assms(3) by auto
  have c: "length salsa_sigma = 16" "length salsa_tau = 16"
    by (simp_all add: salsa_sigma_def salsa_tau_def)
  have sub: "sub i 4 (drop 16 k) = sub (16 + i) 4 k" for i by (simp add: sub_def add.commute)
  obtain a0 a1 a2 a3 a4 a5 a6 a7 a8 a9 a10 a11 a12 a13 a14 a15
    where "salsa_input x = [a0, a1, a2, a3, a4, a5, a6, a7, a8, a9, a10, a11, a12, a13, a14, a15]"
    by (rule list_16 [OF assms(1)])
  then show ?thesis
    using assms(2,3) k c
    by (auto simp: salsa_at_def salsa_words_eq [OF k assms(2) refl refl] ECRYPT_ivsetup_def ECRYPT_keysetup_def
      U8TO32_LITTLE_word sub)
qed

lemma encrypt_at:
  assumes "salsa_at k v i x" and "length tmp = 64" and "length m = n"
  shows "fst (ECRYPT_encrypt_bytes tmp x m n) = map2 (XOR) m (spec_stream k v i n)"
    and "snd (ECRYPT_encrypt_bytes tmp x m n) = x\<lparr>salsa_input := salsa_words k v (i + (n + 63) div 64)\<rparr>"
proof -
  have k: "length k = 16 \<or> length k = 32" "length v = 8" "salsa_input x = salsa_words k v i"
    using assms(1) by (auto simp: salsa_at_def)
  obtain pre post where pre: "length pre = 8"
      and w: "\<And>b. salsa_words k v b = pre @ of_nat b # of_nat (b div 2 ^ 32) # post"
    by (rule salsa_words_counter [OF k(1,2)]) blast
  have put: "(salsa_words k v i)[8 := salsa_words k v b ! 8, 9 := salsa_words k v b ! 9] = salsa_words k v b" for b
    using pre by (simp only: w) (simp add: nth_append list_update_append)
  have "ECRYPT_encrypt_bytes tmp x m n = (map2 (XOR) m (spec_stream k v i n),
      x\<lparr>salsa_input := salsa_words k v (i + (n + 63) div 64)\<rparr>)"
  proof (cases "n = 0")
    case True
    then show ?thesis using assms(3) k(3) by (simp add: ECRYPT_encrypt_bytes_def)
  next
    case False
    then show ?thesis
      using ECRYPT_loop_correct [OF k(1,2) assms(2), of n m i "[]"] assms(3)
      by (simp add: ECRYPT_encrypt_bytes_def k(3) put)
  qed
  then show "fst (ECRYPT_encrypt_bytes tmp x m n) = map2 (XOR) m (spec_stream k v i n)"
    and "snd (ECRYPT_encrypt_bytes tmp x m n) = x\<lparr>salsa_input := salsa_words k v (i + (n + 63) div 64)\<rparr>"
    by simp_all
qed

lemma length_spec_stream [simp]: "length (spec_stream k v i n) = n"
proof (induction n arbitrary: i rule: less_induct)
  case (less n)
  show ?case
  proof (cases "64 \<le> n")
    case True
    then show ?thesis using less.IH [of "n - 64"] by (simp add: spec_stream_step length_spec_salsa20)
  next
    case False
    show ?thesis
    proof (cases "n = 0")
      case True
      then show ?thesis by (simp add: spec_stream_def)
    next
      case pos: False
      then have "spec_stream k v i n = take n (spec_salsa20 (salsa_words k v i))"
        using False by (intro spec_stream_short) auto
      then show ?thesis using False by (simp add: length_spec_salsa20)
    qed
  qed
qed

lemma spec_stream_append:
  "spec_stream k v i (64 * q + n) = spec_stream k v i (64 * q) @ spec_stream k v (i + q) n"
proof (induction q arbitrary: i)
  case 0
  then show ?case by (simp add: spec_stream_def)
next
  case (Suc q)
  then show ?case by (simp add: spec_stream_step)
qed

lemma xor_twice:
  fixes xs :: bytes
  shows "length xs = length ys \<Longrightarrow> map2 (XOR) (map2 (XOR) xs ys) ys = xs"
  by (rule nth_equalityI) (simp_all add: xor.assoc)

section \<open>Properties\<close>

text \<open>C32: Encryption after key and nonce setup xors the message with the stream of the Salsa20
  specification for that key, nonce and block numbers 0, 1, 2, \<open>\<dots>\<close>, whatever the context and
  the stack buffer held before, for messages of any length and both key sizes.\<close>

theorem ECRYPT_encrypt_correct:
  assumes "length (salsa_input x) = 16" and "length v = 8" and "length tmp = 64"
    and "(kbits = 256 \<and> length k = 32) \<or> (kbits = 128 \<and> length k = 16)"
  shows "fst (ECRYPT_encrypt_bytes tmp (ECRYPT_ivsetup (ECRYPT_keysetup x k kbits ivbits) v) m (length m))
    = map2 (XOR) m (spec_stream k v 0 (length m))"
  using encrypt_at(1) [OF salsa_setup [OF assms(1,2,4)] assms(3)] by simp

theorem ECRYPT_encrypt_correct_witness:
  "fst (ECRYPT_encrypt_bytes (replicate 64 9) (ECRYPT_ivsetup (ECRYPT_keysetup
      \<lparr>salsa_input = replicate 16 7\<rparr> (replicate 32 1) 256 64) (replicate 8 2)) (replicate 100 3) 100)
    = map2 (XOR) (replicate 100 3) (spec_stream (replicate 32 1) (replicate 8 2) 0 100)"
  using ECRYPT_encrypt_correct [of "\<lparr>salsa_input = replicate 16 7\<rparr>" "replicate 8 2" "replicate 64 9"
      256 "replicate 32 1" 64 "replicate 100 3"] by simp

text \<open>A message may be encrypted in pieces as long as every piece but the last is whole blocks: the
  second call continues the stream, across the carry of the block counter into its second word.\<close>

theorem ECRYPT_encrypt_pieces:
  assumes "salsa_at k v i x" and "length tmp = 64" and "length tmp' = 64" and "length m = 64 * q"
    and "ECRYPT_encrypt_bytes tmp x m (length m) = (c, y)"
    and "ECRYPT_encrypt_bytes tmp' y m' (length m') = (c', z)"
  shows "ECRYPT_encrypt_bytes tmp x (m @ m') (length m + length m') = (c @ c', z)"
proof -
  have div: "(64 * q + a + 63) div 64 = q + (a + 63) div 64" for a by simp
  have y: "y = x\<lparr>salsa_input := salsa_words k v (i + q)\<rparr>" and c: "c = map2 (XOR) m (spec_stream k v i (64 * q))"
    using encrypt_at [OF assms(1,2), of m] assms(4,5) by simp_all
  then have "salsa_at k v (i + q) y" using assms(1) by (simp add: salsa_at_def)
  from encrypt_at [OF this assms(3) refl, of m'] assms(6)
  have "c' = map2 (XOR) m' (spec_stream k v (i + q) (length m'))"
      and "z = x\<lparr>salsa_input := salsa_words k v (i + q + (length m' + 63) div 64)\<rparr>"
    by (simp_all add: y)
  with encrypt_at [OF assms(1,2), of "m @ m'"] show ?thesis
    by (intro prod_eqI) (simp_all add: assms(4) c div spec_stream_append map2_xor_append add.assoc)
qed

theorem ECRYPT_encrypt_pieces_witness:
  "\<exists>x c y c' z. ECRYPT_encrypt_bytes (replicate 64 0) x (replicate 64 5) 64 = (c, y) \<and>
     ECRYPT_encrypt_bytes (replicate 64 0) y [6] 1 = (c', z) \<and>
     ECRYPT_encrypt_bytes (replicate 64 0) x (replicate 64 5 @ [6]) 65 = (c @ c', z)"
proof -
  let ?tmp = "replicate 64 (0 :: u8)"
  let ?x = "\<lparr>salsa_input = salsa_words (replicate 16 1) (replicate 8 2) 3\<rparr>"
  have at: "salsa_at (replicate 16 1) (replicate 8 2) 3 ?x" by (simp add: salsa_at_def)
  obtain c y where 1: "ECRYPT_encrypt_bytes ?tmp ?x (replicate 64 5) 64 = (c, y)" by fastforce
  obtain c' z where 2: "ECRYPT_encrypt_bytes ?tmp y [6] 1 = (c', z)" by fastforce
  show ?thesis
    using ECRYPT_encrypt_pieces [OF at, of ?tmp ?tmp "replicate 64 5" 1 c y "[6]" c' z] 1 2 by fastforce
qed

text \<open>Decryption with the same key, nonce and block number gives the message back and leaves the
  counter where encryption left it; the key stream is the encryption of zeros.\<close>

theorem ECRYPT_decrypt_encrypt:
  assumes "salsa_at k v i x" and "length tmp = 64" and "length tmp' = 64"
  shows "ECRYPT_decrypt_bytes tmp' x (fst (ECRYPT_encrypt_bytes tmp x m (length m))) (length m)
      = (m, snd (ECRYPT_encrypt_bytes tmp x m (length m))) \<and>
    fst (ECRYPT_keystream_bytes tmp x n) = spec_stream k v i n"
proof
  let ?c = "fst (ECRYPT_encrypt_bytes tmp x m (length m))"
  have "?c = map2 (XOR) m (spec_stream k v i (length m))" using encrypt_at(1) [OF assms(1,2)] by simp
  then show "ECRYPT_decrypt_bytes tmp' x ?c (length m) = (m, snd (ECRYPT_encrypt_bytes tmp x m (length m)))"
    using encrypt_at [OF assms(1,3), of ?c "length m"] encrypt_at(2) [OF assms(1,2), of m]
    by (intro prod_eqI) (simp_all add: ECRYPT_decrypt_bytes_def xor_twice)
  show "fst (ECRYPT_keystream_bytes tmp x n) = spec_stream k v i n"
    using encrypt_at(1) [OF assms(1,2), of "replicate n 0"]
    by (simp add: ECRYPT_keystream_bytes_def zip_replicate1 o_def)
qed

theorem ECRYPT_decrypt_encrypt_witness:
  "\<exists>x. ECRYPT_decrypt_bytes (replicate 64 0) x (fst (ECRYPT_encrypt_bytes (replicate 64 1) x [4, 5] 2)) 2
      = ([4, 5], snd (ECRYPT_encrypt_bytes (replicate 64 1) x [4, 5] 2))"
proof -
  have "salsa_at (replicate 16 1) (replicate 8 2) 3 \<lparr>salsa_input = salsa_words (replicate 16 1) (replicate 8 2) 3\<rparr>"
    by (simp add: salsa_at_def)
  from ECRYPT_decrypt_encrypt [OF this, of "replicate 64 1" "replicate 64 0" "[4, 5]" 0] show ?thesis
    by (simp add: numeral_2_eq_2) blast
qed

end
