(* ===== verification/RxConfig.thy ===== *)
theory RxConfig
  imports Endian
begin

text \<open>
  The RandomX configurations (\<open>randomx/randomx.h\<close>, \<open>randomx/randomx.cpp\<close>): the parameters of the
  base configuration and of the coins derived from it, the masks \<open>Apply\<close> computes from them and
  the table in which it spreads the instructions over the 256 opcodes for the just-in-time
  compiler. Proved: what every configuration satisfies and the rest of RandomX relies on.
\<close>

section \<open>Instruction types\<close>

datatype InstructionType =
    IADD_RS | IADD_M | ISUB_R | ISUB_M | IMUL_R | IMUL_M | IMULH_R | IMULH_M | ISMULH_R | ISMULH_M
  | IMUL_RCP | INEG_R | IXOR_R | IXOR_M | IROR_R | IROL_R | ISWAP_R | FSWAP_R | FADD_R | FADD_M
  | FSUB_R | FSUB_M | FSCAL_R | FMUL_R | FDIV_M | FSQRT_R | CBRANCH | CFROUND | ISTORE | NOP

section \<open>Constants of all variants\<close>

definition SuperscalarLatency :: nat where "SuperscalarLatency = 170"
definition DatasetExtraSize :: nat where "DatasetExtraSize = 33554368"
definition JumpBits :: nat where "JumpBits = 8"
definition JumpOffset :: nat where "JumpOffset = 8"
definition RANDOMX_DATASET_ITEM_SIZE :: nat where "RANDOMX_DATASET_ITEM_SIZE = 64"
definition DatasetExtraItems_Calculated :: nat where
  "DatasetExtraItems_Calculated = DatasetExtraSize div RANDOMX_DATASET_ITEM_SIZE"
definition ConditionMask_Calculated :: u64 where
  "ConditionMask_Calculated = push_bit JumpOffset (push_bit JumpBits 1 - 1)"

definition RegistersCount :: nat where "RegistersCount = 8"
definition RegisterCountFlt :: nat where "RegisterCountFlt = RegistersCount div 2"
definition RegisterNeedsDisplacement :: nat where "RegisterNeedsDisplacement = 5"
definition StoreL3Condition :: nat where "StoreL3Condition = 14"
definition RANDOMX_PROGRAM_MAX_SIZE :: nat where "RANDOMX_PROGRAM_MAX_SIZE = 256"
definition CacheLineSize :: nat where "CacheLineSize = RANDOMX_DATASET_ITEM_SIZE"

definition isZeroOrPowerOf2 :: "u64 \<Rightarrow> bool" where
  "isZeroOrPowerOf2 x \<longleftrightarrow> x AND (x - 1) = 0"

section \<open>The configuration\<close>

text \<open>
  The thirty fields \<open>RANDOMX_FREQ_*\<close> are one field indexed by the instruction type. A 128-bit
  integer vector is the list of its four 32-bit lanes, lowest first.
\<close>

type_synonym vec_i128 = "u32 list"

definition rx_set_int_vec_i128 :: "u32 \<Rightarrow> u32 \<Rightarrow> u32 \<Rightarrow> u32 \<Rightarrow> vec_i128" where
  "rx_set_int_vec_i128 I3 I2 I1 I0 = [I0, I1, I2, I3]"

record RandomX_Configuration =
  ArgonMemory :: u32
  CacheAccesses :: nat
  DatasetBaseSize :: u32
  ArgonIterations :: nat
  ArgonLanes :: nat
  ArgonSalt :: bytes
  ScratchpadL1_Size :: u32
  ScratchpadL2_Size :: u32
  ScratchpadL3_Size :: u32
  ProgramSize :: nat
  ProgramIterations :: nat
  ProgramCount :: nat
  RANDOMX_FREQ :: "InstructionType \<Rightarrow> nat"
  fillAes4Rx4_Key :: "vec_i128 list"
  CacheLineAlignMask_Calculated :: u32
  AddressMask_Calculated :: "u32 list"
  ScratchpadL3Mask_Calculated :: u32
  ScratchpadL3Mask64_Calculated :: u32

fun base_freq :: "InstructionType \<Rightarrow> nat" where
  "base_freq IADD_RS = 16"
| "base_freq IADD_M = 7"
| "base_freq ISUB_R = 16"
| "base_freq ISUB_M = 7"
| "base_freq IMUL_R = 16"
| "base_freq IMUL_M = 4"
| "base_freq IMULH_R = 4"
| "base_freq IMULH_M = 1"
| "base_freq ISMULH_R = 4"
| "base_freq ISMULH_M = 1"
| "base_freq IMUL_RCP = 8"
| "base_freq INEG_R = 2"
| "base_freq IXOR_R = 15"
| "base_freq IXOR_M = 5"
| "base_freq IROR_R = 8"
| "base_freq IROL_R = 2"
| "base_freq ISWAP_R = 4"
| "base_freq FSWAP_R = 4"
| "base_freq FADD_R = 16"
| "base_freq FADD_M = 5"
| "base_freq FSUB_R = 16"
| "base_freq FSUB_M = 5"
| "base_freq FSCAL_R = 6"
| "base_freq FMUL_R = 32"
| "base_freq FDIV_M = 4"
| "base_freq FSQRT_R = 6"
| "base_freq CBRANCH = 25"
| "base_freq CFROUND = 1"
| "base_freq ISTORE = 16"
| "base_freq NOP = 0"

definition RandomX_ConfigurationBase :: RandomX_Configuration where
  "RandomX_ConfigurationBase = \<lparr>
     ArgonMemory = 262144, CacheAccesses = 8, DatasetBaseSize = 2147483648,
     ArgonIterations = 3, ArgonLanes = 1, ArgonSalt = [82, 97, 110, 100, 111, 109, 88, 3],
     ScratchpadL1_Size = 16384, ScratchpadL2_Size = 262144, ScratchpadL3_Size = 2097152,
     ProgramSize = 256, ProgramIterations = 2048, ProgramCount = 8,
     RANDOMX_FREQ = base_freq,
     fillAes4Rx4_Key = [
       rx_set_int_vec_i128 0x99E5D23F 0x2F546D2B 0xD1833DDB 0x6421AADD,
       rx_set_int_vec_i128 0xA5DFCDE5 0x06F79D53 0xB6913F55 0xB20E3450,
       rx_set_int_vec_i128 0x171C02BF 0x0AA4679F 0x515E7BAF 0x5C3ED904,
       rx_set_int_vec_i128 0xD8DED291 0xCD673785 0xE78F5D08 0x85623763,
       rx_set_int_vec_i128 0x229EFFB4 0x3D518B6D 0xE3D6A7A6 0xB5826F73,
       rx_set_int_vec_i128 0xB272B7D2 0xE9024D4E 0x9C10B3D9 0xC7566BF3,
       rx_set_int_vec_i128 0xF63BEFA7 0x2BA9660A 0xF765A38B 0xF273C9E7,
       rx_set_int_vec_i128 0xC0B0762D 0x0C06D1FD 0x915839DE 0x7A7CD609],
     CacheLineAlignMask_Calculated = 0, AddressMask_Calculated = [0, 0, 0, 0],
     ScratchpadL3Mask_Calculated = 0, ScratchpadL3Mask64_Calculated = 0\<rparr>"

definition RandomX_ConfigurationMonero :: RandomX_Configuration where
  "RandomX_ConfigurationMonero = RandomX_ConfigurationBase"

definition RandomX_ConfigurationWownero :: RandomX_Configuration where
  "RandomX_ConfigurationWownero =
    (let k0 = rx_set_int_vec_i128 0xCF359E95 0x141F82B7 0x7FFBE4A6 0xF890465D;
         k1 = rx_set_int_vec_i128 0x6741FFDC 0xBD5C5AC3 0xFEE8278A 0x6A55C450;
         k2 = rx_set_int_vec_i128 0x3D324AAC 0xA7279AD2 0xD524FDE4 0x114C47A4;
         k3 = rx_set_int_vec_i128 0x76F6DB08 0x42D3DBD9 0x99A9AEFF 0x810C3A2A
     in RandomX_ConfigurationBase\<lparr>
          ArgonSalt := [82, 97, 110, 100, 111, 109, 87, 79, 87, 1],
          ProgramIterations := 1024, ProgramCount := 16,
          ScratchpadL2_Size := 131072, ScratchpadL3_Size := 1048576,
          RANDOMX_FREQ := base_freq(IADD_RS := 25, IROR_R := 10, IROL_R := 0, FSWAP_R := 8,
            FADD_R := 20, FSUB_R := 20, FMUL_R := 20, CBRANCH := 16),
          fillAes4Rx4_Key := [k0, k1, k2, k3, k0, k1, k2, k3]\<rparr>)"

definition RandomX_ConfigurationArqma :: RandomX_Configuration where
  "RandomX_ConfigurationArqma = RandomX_ConfigurationBase\<lparr>
     ArgonIterations := 1, ArgonSalt := [82, 97, 110, 100, 111, 109, 65, 82, 81, 1],
     ProgramIterations := 1024, ProgramCount := 4,
     ScratchpadL2_Size := 131072, ScratchpadL3_Size := 262144\<rparr>"

definition RandomX_ConfigurationSafex :: RandomX_Configuration where
  "RandomX_ConfigurationSafex = RandomX_ConfigurationBase\<lparr>
     ArgonSalt := [82, 97, 110, 100, 111, 109, 83, 70, 88, 1]\<rparr>"

definition RandomX_ConfigurationKeva :: RandomX_Configuration where
  "RandomX_ConfigurationKeva = RandomX_ConfigurationBase\<lparr>
     ArgonSalt := [82, 97, 110, 100, 111, 109, 75, 86, 1],
     ScratchpadL2_Size := 131072, ScratchpadL3_Size := 1048576\<rparr>"

definition RandomX_ConfigurationScala :: RandomX_Configuration where
  "RandomX_ConfigurationScala = RandomX_ConfigurationBase\<lparr>
     ArgonMemory := 131072, ArgonIterations := 2,
     ArgonSalt := [68, 101, 102, 121, 88, 83, 99, 97, 108, 97, 19],
     CacheAccesses := 2, DatasetBaseSize := 33554432,
     ScratchpadL1_Size := 65536, ScratchpadL2_Size := 131072, ScratchpadL3_Size := 262144,
     ProgramSize := 64, ProgramIterations := 1024, ProgramCount := 4,
     RANDOMX_FREQ := base_freq(IADD_RS := 25, CBRANCH := 16)\<rparr>"

section \<open>Apply\<close>

text \<open>\<open>sizeof\<close> is a 64-bit unsigned number, so the masks are computed in 64 bits and cut to 32.\<close>

definition Apply_masks :: "RandomX_Configuration \<Rightarrow> RandomX_Configuration" where
  "Apply_masks cfg =
    (let ScratchpadL1Mask_Calculated = ucast ((ucast (ScratchpadL1_Size cfg) div 8 - 1 :: u64) * 8);
         ScratchpadL2Mask_Calculated = ucast ((ucast (ScratchpadL2_Size cfg) div 8 - 1 :: u64) * 8)
     in cfg\<lparr>
       AddressMask_Calculated := [ScratchpadL2Mask_Calculated, ScratchpadL1Mask_Calculated,
         ScratchpadL1Mask_Calculated, ScratchpadL1Mask_Calculated],
       ScratchpadL3Mask_Calculated := ucast ((ucast (ScratchpadL3_Size cfg) div 8 - 1 :: u64) * 8),
       ScratchpadL3Mask64_Calculated := ucast ((ucast (ScratchpadL3_Size cfg) div 8 div 8 - 1 :: u64) * 64),
       CacheLineAlignMask_Calculated := (DatasetBaseSize cfg - 1) AND NOT (of_nat RANDOMX_DATASET_ITEM_SIZE - 1)\<rparr>)"

text \<open>
  \<open>INST_HANDLE\<close>: the entries from \<open>k\<close> up to the new sum of frequencies get the handler of \<open>x\<close>. The
  processor-specific variants of a handler (\<open>IMULH_R_BMI2\<close>, \<open>CBRANCH<true>\<close>, \<open>\<dots>\<close>) stand for the
  same instruction.
\<close>

definition INST_HANDLE :: "RandomX_Configuration \<Rightarrow> nat \<times> nat \<times> InstructionType list \<Rightarrow> InstructionType
    \<Rightarrow> nat \<times> nat \<times> InstructionType list" where
  "INST_HANDLE cfg st x =
    (case st of (k, freq_sum, engine) \<Rightarrow>
      let freq_sum = freq_sum + RANDOMX_FREQ cfg x
      in (max k freq_sum, freq_sum, for_range k freq_sum (\<lambda>e k. e[k := x]) engine))"

definition handle_order :: "InstructionType list" where
  "handle_order = [IADD_RS, IADD_M, ISUB_R, ISUB_M, IMUL_R, IMUL_M, IMULH_R, IMULH_M, ISMULH_R, ISMULH_M,
     IMUL_RCP, INEG_R, IXOR_R, IXOR_M, IROR_R, IROL_R, ISWAP_R, FSWAP_R, FADD_R, FADD_M, FSUB_R, FSUB_M,
     FSCAL_R, FMUL_R, FDIV_M, FSQRT_R, CBRANCH, CFROUND, ISTORE, NOP]"

definition Apply_engine :: "RandomX_Configuration \<Rightarrow> InstructionType list \<Rightarrow> nat \<times> nat \<times> InstructionType list" where
  "Apply_engine cfg engine = foldl (INST_HANDLE cfg) (0, 0, engine) handle_order"

text \<open>\<open>randomx_apply_config\<close>: the new current configuration and the table of the compiler.\<close>

definition randomx_apply_config :: "InstructionType list \<Rightarrow> RandomX_Configuration \<Rightarrow> RandomX_Configuration \<times> InstructionType list" where
  "randomx_apply_config engine cfg = (Apply_masks cfg, snd (snd (Apply_engine (Apply_masks cfg) engine)))"

section \<open>What every configuration satisfies\<close>

definition rx_configurations :: "RandomX_Configuration list" where
  "rx_configurations = [RandomX_ConfigurationMonero, RandomX_ConfigurationWownero, RandomX_ConfigurationArqma,
     RandomX_ConfigurationSafex, RandomX_ConfigurationKeva, RandomX_ConfigurationScala]"

lemmas configuration_defs =
  RandomX_ConfigurationBase_def RandomX_ConfigurationMonero_def RandomX_ConfigurationWownero_def
  RandomX_ConfigurationArqma_def RandomX_ConfigurationSafex_def RandomX_ConfigurationKeva_def
  RandomX_ConfigurationScala_def Let_def

text \<open>
  The facts about an applied configuration that the machine relies on: a scratchpad access under
  any of the masks stays inside the scratchpad, programs fit their buffer, and the frequencies
  cover the 256 opcodes exactly.
\<close>

definition config_ok :: "RandomX_Configuration \<Rightarrow> bool" where
  "config_ok cfg \<longleftrightarrow>
     length (AddressMask_Calculated cfg) = 4 \<and>
     (\<forall>m \<in> set (AddressMask_Calculated cfg). unat m + 8 \<le> unat (ScratchpadL3_Size cfg)) \<and>
     unat (ScratchpadL3Mask_Calculated cfg) + 8 \<le> unat (ScratchpadL3_Size cfg) \<and>
     unat (ScratchpadL3Mask64_Calculated cfg) + 64 \<le> unat (ScratchpadL3_Size cfg) \<and>
     unat (CacheLineAlignMask_Calculated cfg) + 64 \<le> unat (DatasetBaseSize cfg) \<and>
     ProgramSize cfg \<le> RANDOMX_PROGRAM_MAX_SIZE \<and>
     sum_list (map (RANDOMX_FREQ cfg) handle_order) = 256"

lemma configurations_ok: "cfg \<in> set rx_configurations \<Longrightarrow> config_ok (Apply_masks cfg)"
  unfolding rx_configurations_def list.set
  by (elim insertE emptyE)
    (simp_all add: config_ok_def Apply_masks_def configuration_defs handle_order_def
      RANDOMX_PROGRAM_MAX_SIZE_def RANDOMX_DATASET_ITEM_SIZE_def)

section \<open>Decoding an opcode\<close>

text \<open>
  The interpreter finds the instruction of an opcode by a chain of comparisons
  (\<open>if (opcode < FREQ) \<dots> opcode -= FREQ;\<close>); \<open>decode\<close> is that chain over a list of types, and \<open>compile_order\<close>
  the order in which \<open>compileInstruction\<close> compares, which is written down in the source a second time.
\<close>

definition compile_order :: "InstructionType list" where
  "compile_order =
    [IADD_RS, IADD_M, ISUB_R, ISUB_M,
     IMUL_R, IMUL_M, IMULH_R, IMULH_M, ISMULH_R, ISMULH_M, IMUL_RCP,
     INEG_R, IXOR_R, IXOR_M, IROR_R, IROL_R, ISWAP_R,
     FSWAP_R, FADD_R, FADD_M, FSUB_R, FSUB_M, FSCAL_R, FMUL_R, FDIV_M, FSQRT_R,
     CBRANCH, CFROUND, ISTORE, NOP]"

lemma orders_agree: "compile_order = handle_order"
  by (simp add: compile_order_def handle_order_def)

fun decode :: "RandomX_Configuration \<Rightarrow> InstructionType list \<Rightarrow> nat \<Rightarrow> InstructionType option" where
  "decode cfg [] opcode = None"
| "decode cfg (x # xs) opcode =
    (if opcode < RANDOMX_FREQ cfg x then Some x else decode cfg xs (opcode - RANDOMX_FREQ cfg x))"

lemma decode_total:
  "opcode < sum_list (map (RANDOMX_FREQ cfg) xs) \<Longrightarrow> \<exists>x. decode cfg xs opcode = Some x \<and> x \<in> set xs"
proof (induction xs arbitrary: opcode)
  case Nil
  then show ?case by simp
next
  case (Cons x xs)
  show ?case
  proof (cases "opcode < RANDOMX_FREQ cfg x")
    case False
    then have "opcode - RANDOMX_FREQ cfg x < sum_list (map (RANDOMX_FREQ cfg) xs)"
      using Cons.prems by simp
    from Cons.IH [OF this] False show ?thesis by auto
  qed simp
qed

lemma length_for_range_put [simp]:
  "length (for_range a b (\<lambda>e k. e[k := x]) e) = length e"
  by (rule for_range_pres) auto

lemma nth_for_range_put:
  assumes "i < length e"
  shows "for_range a b (\<lambda>e k. e[k := x]) e ! i = (if a \<le> i \<and> i < b then x else e ! i)"
proof (cases "a \<le> b")
  case True
  then show ?thesis
  proof (induction b rule: dec_induct)
    case base
    then show ?case by auto
  next
    case (step n)
    then show ?case
      using assms by (cases "i = n") (auto simp: for_range_Suc)
  qed
qed auto

lemma engine_decodes:
  assumes "st = foldl (INST_HANDLE cfg) (k, k, engine) xs" and "n = k + sum_list (map (RANDOMX_FREQ cfg) xs)"
  shows "fst st = n \<and> fst (snd st) = n \<and> length (snd (snd st)) = length engine \<and>
    (\<forall>i < length engine. snd (snd st) ! i =
      (if k \<le> i \<and> i < n then the (decode cfg xs (i - k)) else engine ! i))"
  using assms
proof (induction xs arbitrary: k engine)
  case Nil
  then show ?case by auto
next
  case (Cons x xs)
  let ?k = "k + RANDOMX_FREQ cfg x"
  let ?e = "for_range k ?k (\<lambda>e k. e[k := x]) engine"
  have "INST_HANDLE cfg (k, k, engine) x = (?k, ?k, ?e)" by (simp add: INST_HANDLE_def Let_def)
  then have "st = foldl (INST_HANDLE cfg) (?k, ?k, ?e) xs"
    using Cons.prems(1) by simp
  from Cons.IH [OF this, of] Cons.prems(2)
  have *: "fst st = n" "fst (snd st) = n" "length (snd (snd st)) = length engine"
      "\<And>i. i < length engine \<Longrightarrow>
        snd (snd st) ! i = (if ?k \<le> i \<and> i < n then the (decode cfg xs (i - ?k)) else ?e ! i)"
    by (simp_all add: add.assoc)
  have "?k \<le> n" using Cons.prems(2) by simp
  then have "snd (snd st) ! i = (if k \<le> i \<and> i < n then the (decode cfg (x # xs) (i - k)) else engine ! i)"
    if "i < length engine" for i
    using *(4) [OF that] that by (auto simp: nth_for_range_put)
  with * show ?case by simp
qed

section \<open>Properties\<close>

text \<open>C33: In every shipped configuration the instruction frequencies add up to 256, so the compiler's
  table gets exactly its 256 entries (no write past the end, none left over), and every scratchpad mask keeps an
  access inside the scratchpad. The order of the instructions, which the source has once in the table of \<open>Apply\<close> and
  once in the comparisons of the interpreter, is the same in both: each entry is the instruction to which the interpreter
  decodes the opcode.\<close>

theorem randomx_apply_config_decodes:
  assumes "cfg \<in> set rx_configurations" and "length engine = 256"
    and "randomx_apply_config engine cfg = (cfg', engine')"
  shows "config_ok cfg' \<and> fst (Apply_engine cfg' engine) = 256 \<and> length engine' = 256 \<and>
    (\<forall>opcode < 256. decode cfg' compile_order opcode = Some (engine' ! opcode))"
proof -
  have cfg': "cfg' = Apply_masks cfg" and e: "engine' = snd (snd (Apply_engine cfg' engine))"
    using assms(3) by (auto simp: randomx_apply_config_def)
  have ok: "config_ok cfg'" using configurations_ok [OF assms(1)] cfg' by simp
  then have sum: "256 = 0 + sum_list (map (RANDOMX_FREQ cfg') handle_order)" by (simp add: config_ok_def)
  from engine_decodes [OF Apply_engine_def sum, of engine]
  have "fst (Apply_engine cfg' engine) = 256 \<and> length engine' = 256 \<and>
      (\<forall>i < 256. engine' ! i = the (decode cfg' handle_order i))"
    using assms(2) by (simp add: e)
  moreover have "\<exists>x. decode cfg' handle_order i = Some x" if "i < 256" for i
    using decode_total [of i cfg' handle_order] that sum by auto
  ultimately show ?thesis unfolding orders_agree using ok by fastforce
qed

theorem randomx_apply_config_decodes_witness:
  "fst (Apply_engine (Apply_masks RandomX_ConfigurationScala) (replicate 256 NOP)) = 256 \<and>
    decode (Apply_masks RandomX_ConfigurationScala) compile_order 255 =
      Some (snd (randomx_apply_config (replicate 256 NOP) RandomX_ConfigurationScala) ! 255)"
  using randomx_apply_config_decodes [of RandomX_ConfigurationScala "replicate 256 NOP"]
  by (simp add: rx_configurations_def randomx_apply_config_def)

end
