(* ===== verification/RxArith.thy ===== *)
theory RxArith
  imports Endian
begin

text \<open>
  The integer helpers of \<open>randomx/instructions_portable.cpp\<close> and \<open>intrin_portable.h\<close>: high halves of
  64-bit products, rotations and sign extension. The versions for compilers without 128-bit
  integers are proved equal to the direct ones.
\<close>

section \<open>The helpers\<close>

definition signExtend2sCompl :: "u32 \<Rightarrow> u64" where
  "signExtend2sCompl x = (if 0x7FFFFFFF < x then ucast x OR 0xFFFFFFFF00000000 else ucast x)"

text \<open>The variants of a compiler with 128-bit integers.\<close>

definition mulh :: "u64 \<Rightarrow> u64 \<Rightarrow> u64" where
  "mulh a b = ucast (drop_bit 64 (ucast a * ucast b :: 128 word))"

definition smulh :: "u64 \<Rightarrow> u64 \<Rightarrow> u64" where
  "smulh a b = ucast (drop_bit 64 (scast a * scast b :: 128 word))"

text \<open>The portable ones, over 32-bit halves.\<close>

definition lo32 :: "u64 \<Rightarrow> u64" where "lo32 x = x AND 0xFFFFFFFF"
definition hi32 :: "u64 \<Rightarrow> u64" where "hi32 x = drop_bit 32 x"

definition mulh_portable :: "u64 \<Rightarrow> u64 \<Rightarrow> u64" where
  "mulh_portable a b =
    (let ah = hi32 a; al = lo32 a;
         bh = hi32 b; bl = lo32 b;
         x00 = al * bl;
         x01 = al * bh;
         x10 = ah * bl;
         x11 = ah * bh;
         m1 = lo32 x10 + lo32 x01 + hi32 x00;
         m2 = hi32 x10 + hi32 x01 + lo32 x11 + hi32 m1;
         m3 = hi32 x11 + hi32 m2
     in push_bit 32 m3 + lo32 m2)"

definition smulh_portable :: "u64 \<Rightarrow> u64 \<Rightarrow> u64" where
  "smulh_portable a b =
    (let hi = mulh_portable a b;
         hi = (if a <s 0 then hi - b else hi)
     in if b <s 0 then hi - a else hi)"

definition rx_rotr64 :: "u64 \<Rightarrow> u32 \<Rightarrow> u64" where
  "rx_rotr64 a b = drop_bit (unat b) a OR push_bit (unat (- b AND 63)) a"

definition rx_rotl64 :: "u64 \<Rightarrow> u32 \<Rightarrow> u64" where
  "rx_rotl64 a b = push_bit (unat b) a OR drop_bit (unat (- b AND 63)) a"

section \<open>Products of 64-bit words\<close>

lemma unat_add_small: "unat a + unat b < 2 ^ LENGTH('a) \<Longrightarrow> unat (a + b :: 'a::len word) = unat a + unat b"
  by (simp add: unat_word_ariths)

lemma unat_mult_small: "unat a * unat b < 2 ^ LENGTH('a) \<Longrightarrow> unat (a * b :: 'a::len word) = unat a * unat b"
  by (simp add: unat_word_ariths)

lemma unat_mulh: "unat (mulh a b) = unat a * unat b div 2 ^ 64"
proof -
  have a: "unat a < 2 ^ 64" and b: "unat b < 2 ^ 64"
    using unsigned_less [of a, where ?'a = nat] unsigned_less [of b, where ?'a = nat] by simp_all
  then have p: "unat a * unat b < 2 ^ 64 * 2 ^ 64" by (intro mult_strict_mono) auto
  have "unat (ucast a :: 128 word) = unat a" "unat (ucast b :: 128 word) = unat b"
    using a b by (simp_all add: unsigned_ucast_eq take_bit_eq_mod)
  then have "unat (ucast a * ucast b :: 128 word) = unat a * unat b"
    using p by (subst unat_mult_small) simp_all
  moreover have "unat a * unat b div 2 ^ 64 < 2 ^ 64"
    using p by (simp add: less_mult_imp_div_less)
  ultimately show ?thesis
    by (simp add: mulh_def unsigned_ucast_eq unat_drop_bit take_bit_eq_mod)
qed

lemma unat_lo32: "unat (lo32 x) = unat x mod 2 ^ 32"
proof -
  have "lo32 x = x AND mask 32" by (simp add: lo32_def mask_eq_exp_minus_1)
  then show ?thesis by (simp only: unat_and_mask)
qed

lemma unat_hi32: "unat (hi32 x) = unat x div 2 ^ 32"
  by (simp only: hi32_def unat_drop_bit)

text \<open>Schoolbook multiplication over the base \<open>B\<close>.\<close>

lemma limb_product:
  fixes B :: nat
  assumes "0 < B"
    and "m1 = ah * bl mod B + al * bh mod B + al * bl div B"
    and "m2 = ah * bl div B + al * bh div B + ah * bh mod B + m1 div B"
  shows "(ah * B + al) * (bh * B + bl) div (B * B) = (ah * bh div B + m2 div B) * B + m2 mod B"
proof -
  have "(ah * B + al) * (bh * B + bl) = (ah * bh * B + (ah * bl + al * bh)) * B + al * bl"
    by (simp add: algebra_simps)
  then have "(ah * B + al) * (bh * B + bl) div B = ah * bh * B + (ah * bl + al * bh) + al * bl div B"
    using assms(1) by simp
  then have "(ah * B + al) * (bh * B + bl) div (B * B)
      = (ah * bh * B + (ah * bl + al * bh) + al * bl div B) div B"
    by (simp add: div_mult2_eq)
  also have "ah * bh * B + (ah * bl + al * bh) + al * bl div B
      = (ah * bh + ah * bl div B + al * bh div B) * B + m1"
    unfolding assms(2) by (simp add: algebra_simps)
  also have "\<dots> div B = ah * bh + ah * bl div B + al * bh div B + m1 div B"
    using assms(1) by simp
  also have "\<dots> = ah * bh div B * B + m2"
    unfolding assms(3) by (simp add: algebra_simps)
  also have "\<dots> = (ah * bh div B + m2 div B) * B + m2 mod B"
    by (simp add: algebra_simps)
  finally show ?thesis .
qed

lemma mulh_portable_eq: "mulh_portable a b = mulh a b"
proof -
  let ?B = "2 ^ 32 :: nat"
  define ah al bh bl where "ah = unat (hi32 a)" and "al = unat (lo32 a)" and "bh = unat (hi32 b)" and "bl = unat (lo32 b)"
  have less: "ah < ?B" "al < ?B" "bh < ?B" "bl < ?B"
    using unsigned_less [of a, where ?'a = nat] unsigned_less [of b, where ?'a = nat]
    by (simp_all add: ah_def al_def bh_def bl_def unat_hi32 unat_lo32)
  have prod: "x * y \<le> (?B - 1) * (?B - 1)" if "x < ?B" "y < ?B" for x y
    using that by (intro mult_mono) auto
  have ab: "unat a = ah * ?B + al" "unat b = bh * ?B + bl"
    by (simp_all add: ah_def al_def bh_def bl_def unat_hi32 unat_lo32)
  have mul: "unat (x * y) = unat x * unat y" if "unat x < ?B" "unat y < ?B" for x y :: u64
    using prod [OF that] by (intro unat_mult_small) simp
  define m1 where "m1 = lo32 (hi32 a * lo32 b) + lo32 (lo32 a * hi32 b) + hi32 (lo32 a * lo32 b)"
  define m2 where "m2 = hi32 (hi32 a * lo32 b) + hi32 (lo32 a * hi32 b) + lo32 (hi32 a * hi32 b) + hi32 m1"
  define m3 where "m3 = hi32 (hi32 a * hi32 b) + hi32 m2"
  have x: "unat (hi32 a * lo32 b) = ah * bl" "unat (lo32 a * hi32 b) = al * bh"
      "unat (lo32 a * lo32 b) = al * bl" "unat (hi32 a * hi32 b) = ah * bh"
    using less by (simp_all add: mul ah_def al_def bh_def bl_def)
  have d: "x * y div ?B < ?B" if "x < ?B" "y < ?B" for x y
    using prod [OF that] by (simp add: less_mult_imp_div_less)
  note ds = d [OF less(1,4)] d [OF less(2,3)] d [OF less(2,4)] d [OF less(1,3)]
  have m1: "unat m1 = ah * bl mod ?B + al * bh mod ?B + al * bl div ?B"
    unfolding m1_def using ds by (simp add: unat_add_small unat_lo32 unat_hi32 x)
  then have "unat m1 < 3 * ?B"
    using ds mod_less_divisor [of ?B "ah * bl"] mod_less_divisor [of ?B "al * bh"] by linarith
  then have "unat m1 div ?B < 3" by (simp add: less_mult_imp_div_less)
  then have m2: "unat m2 = ah * bl div ?B + al * bh div ?B + ah * bh mod ?B + unat m1 div ?B"
    unfolding m2_def using ds by (simp add: unat_add_small unat_lo32 unat_hi32 x)
  have eq: "unat a * unat b div (?B * ?B) = (ah * bh div ?B + unat m2 div ?B) * ?B + unat m2 mod ?B"
    unfolding ab by (rule limb_product [OF _ m1 m2]) simp
  have top: "unat a * unat b div (?B * ?B) < ?B * ?B"
    using unsigned_less [of "mulh a b", where ?'a = nat] unat_mulh [of a b] by simp
  have m3: "unat m3 = ah * bh div ?B + unat m2 div ?B"
    unfolding m3_def using ds top eq by (simp add: unat_add_small unat_hi32 x)
  have "unat (push_bit 32 m3 + lo32 m2) = unat m3 * ?B + unat m2 mod ?B"
    using top eq m3
    by (simp add: push_bit_eq_mult unat_word_ariths unat_lo32 mult.commute)
  then have "unat (mulh_portable a b) = unat (mulh a b)"
    using eq m3 by (simp add: unat_mulh mulh_portable_def Let_def m1_def m2_def m3_def)
  then show ?thesis by (simp only: word_unat_eq_iff)
qed

lemma smulh_int: "smulh a b = word_of_int (sint a * sint b div 2 ^ 64)"
proof -
  define p where "p = (scast a * scast b :: 128 word)"
  have "p = word_of_int (sint a * sint b)"
    by (simp add: p_def)
  then have p: "uint p = sint a * sint b mod 2 ^ 128"
    by (simp only: uint_word_of_int) simp
  have "uint (smulh a b) = uint p div 2 ^ 64 mod 2 ^ 64"
    by (simp add: smulh_def p_def [symmetric] unsigned_ucast_eq unsigned_drop_bit_eq take_bit_eq_mod drop_bit_eq_div uint_div)
  also have "\<dots> = sint a * sint b div 2 ^ 64 mod 2 ^ 64"
    using mod_mult2_eq' [of "sint a * sint b" "2 ^ 64" "2 ^ 64"] by (simp add: p)
  finally show ?thesis by (simp add: word_uint_eq_iff uint_word_of_int)
qed

lemma mulh_int: "mulh a b = word_of_int (uint a * uint b div 2 ^ 64)"
proof -
  have "uint (mulh a b) = uint a * uint b div 2 ^ 64"
    using arg_cong [OF unat_mulh, of int a b] by (simp add: zdiv_int)
  then show ?thesis by (metis word_of_int_uint)
qed

lemma smulh_portable_eq: "smulh_portable a b = smulh a b"
proof -
  let ?W = "2 ^ 64 :: int"
  define s where "s = (\<lambda>x :: u64. if x <s 0 then 1 else 0 :: int)"
  have u: "uint x = sint x + ?W * s x" for x :: u64
  proof (cases "sint x < 0")
    case True
    have "sint x mod ?W = (sint x + ?W) mod ?W" by simp
    also have "\<dots> = sint x + ?W"
      using sint_ge [of x] True by (intro mod_pos_pos_trivial) auto
    finally show ?thesis
      using True uint_sint [of x] by (simp add: s_def word_sless_alt take_bit_eq_mod)
  next
    case False
    then show ?thesis
      using sint_lt [of x] uint_sint [of x] by (simp add: s_def word_sless_alt take_bit_eq_mod)
  qed
  have id: "word_of_int (sint x) = x" for x :: u64 by simp
  have "uint a * uint b = sint a * sint b + ?W * (s a * sint b + s b * sint a + ?W * (s a * s b))"
    by (simp add: u algebra_simps)
  then have "uint a * uint b div ?W = sint a * sint b div ?W + (s a * sint b + s b * sint a + ?W * (s a * s b))"
    by (simp only:) simp
  then have "mulh a b = smulh a b + word_of_int (s a * sint b + s b * sint a + ?W * (s a * s b))"
    by (simp add: mulh_int smulh_int)
  moreover have "(word_of_int (s x * sint y) :: u64) = (if x <s 0 then y else 0)" for x y
    by (simp add: s_def)
  moreover have "(word_of_int (?W * (s a * s b)) :: u64) = 0"
    by (simp add: s_def)
  ultimately have "mulh a b = smulh a b + (if a <s 0 then b else 0) + (if b <s 0 then a else 0)"
    by (simp only: of_int_add add.assoc add_0_right)
  then show ?thesis by (simp add: smulh_portable_def mulh_portable_eq)
qed

section \<open>Rotations\<close>

lemma minus_and_63: "unat b < 64 \<Longrightarrow> unat (- b AND 63 :: u32) = (64 - unat b) mod 64"
proof -
  assume b: "unat b < 64"
  have "- b AND 63 = - b AND mask 6" by (simp add: mask_eq_exp_minus_1)
  then have m: "unat (- b AND 63) = unat (- b) mod 64" by (simp only: unat_and_mask) simp
  have "(unat (- b) + unat b) mod 2 ^ 32 = 0"
    using unat_word_ariths(1) [of "- b" b] by simp
  then have "(unat (- b) + unat b) mod 2 ^ 32 mod 64 = 0" by simp
  then have "(unat (- b) mod 64 + unat b) mod 64 = 0" by (simp add: mod_mod_cancel mod_simps)
  then obtain k where k: "unat (- b) mod 64 + unat b = 64 * k" by (auto simp: mod_eq_0_iff_dvd)
  moreover have "unat (- b) mod 64 < 64" by simp
  ultimately have "k = (if unat b = 0 then 0 else 1)" using b by auto
  then show ?thesis using k b m by (cases "unat b = 0") auto
qed

lemma rx_rotations:
  assumes "unat b < 64"
  shows "rx_rotr64 a b = word_rotr (unat b) a" and "rx_rotl64 a b = word_rotl (unat b) a"
proof -
  have "rx_rotr64 a b = word_rotr (unat b) a \<and> rx_rotl64 a b = word_rotl (unat b) a"
  proof (cases "unat b = 0")
    case True
    moreover have "word_rotr 0 a = a" by (rule bit_word_eqI) (simp add: bit_simps)
    moreover have "word_rotl 0 a = a" by (rule bit_word_eqI) (simp add: bit_simps)
    ultimately show ?thesis by (simp add: rx_rotr64_def rx_rotl64_def minus_and_63 [OF assms])
  next
    case False
    then have m: "unat (- b AND 63) = 64 - unat b" using assms by (simp add: minus_and_63 [OF assms])
    have "LENGTH(64) - unat b = 64 - unat b" by simp
    with False assms word_rotr_shifts [of "unat b" a] word_rotl_shifts [of "unat b" a]
    show ?thesis by (simp only: rx_rotr64_def rx_rotl64_def m)
  qed
  then show "rx_rotr64 a b = word_rotr (unat b) a" and "rx_rotl64 a b = word_rotl (unat b) a"
    by blast+
qed

section \<open>Properties\<close>

text \<open>The portable multiplications over 32-bit halves return the high 64 bits of the 128-bit product
  for all operands, unsigned and signed, as the versions with 128-bit integers do.\<close>

theorem mulh_portable_correct:
  "mulh_portable a b = mulh a b \<and> uint (mulh a b) = uint a * uint b div 2 ^ 64 \<and>
   smulh_portable a b = smulh a b \<and> sint (smulh a b) = sint a * sint b div 2 ^ 64"
proof -
  have bound: "\<bar>sint x\<bar> \<le> 2 ^ 63" for x :: u64
    using sint_ge [of x] sint_lt [of x] by simp
  have "\<bar>sint a * sint b\<bar> \<le> 2 ^ 63 * 2 ^ 63"
    unfolding abs_mult by (intro mult_mono bound) auto
  then have "- (2 ^ 63) \<le> sint a * sint b div 2 ^ 64" and "sint a * sint b div 2 ^ 64 < 2 ^ 63"
    by simp_all
  then have "sint (smulh a b) = sint a * sint b div 2 ^ 64"
    by (simp add: smulh_int signed_of_int signed_take_bit_int_eq_self)
  moreover have "uint (mulh a b) = uint a * uint b div 2 ^ 64"
    using arg_cong [OF unat_mulh, of int a b] by (simp add: zdiv_int)
  ultimately show ?thesis by (simp add: mulh_portable_eq smulh_portable_eq)
qed

end
