(* ===== verification/RxMachine.thy ===== *)
theory RxMachine
  imports RxConfig RxArith Reciprocal "HOL-Library.Monad_Syntax"
begin

text \<open>
  The RandomX bytecode machine: \<open>randomx/instruction.hpp\<close>, \<open>randomx/bytecode_machine.{hpp,cpp}\<close> and
  the portable vectors of \<open>intrin_portable.h\<close>.
  A random program is compiled instruction by instruction to bytecode (decoded operands, memory
  masks, jump targets) and the bytecode is run over eight integer registers, twelve pairs of
  doubles and the scratchpad.

  A \<open>double\<close> is its 64 bits. The IEEE operations that depend on the rounding mode belong to the
  processor and are the parameters collected in \<open>fpu\<close>; nothing is assumed of them.

  Pointers into the register file are values of \<open>reg_ptr\<close>. Reading through a pointer of the wrong
  kind, reaching \<open>UNREACHABLE\<close> or touching memory outside the scratchpad is \<open>None\<close>, so that a
  result \<open>Some\<close> says that none of it happened.
\<close>

section \<open>Vectors of two doubles\<close>

type_synonym vec_f128 = "u64 \<times> u64"

record fpu =
  fp_add :: "nat \<Rightarrow> u64 \<Rightarrow> u64 \<Rightarrow> u64"
  fp_sub :: "nat \<Rightarrow> u64 \<Rightarrow> u64 \<Rightarrow> u64"
  fp_mul :: "nat \<Rightarrow> u64 \<Rightarrow> u64 \<Rightarrow> u64"
  fp_div :: "nat \<Rightarrow> u64 \<Rightarrow> u64 \<Rightarrow> u64"
  fp_sqrt :: "nat \<Rightarrow> u64 \<Rightarrow> u64"
  fp_of_int32 :: "u32 \<Rightarrow> u64"

definition vec_map2 :: "(u64 \<Rightarrow> u64 \<Rightarrow> u64) \<Rightarrow> vec_f128 \<Rightarrow> vec_f128 \<Rightarrow> vec_f128" where
  "vec_map2 f a b = (f (fst a) (fst b), f (snd a) (snd b))"

definition rx_swap_vec_f128 :: "vec_f128 \<Rightarrow> vec_f128" where
  "rx_swap_vec_f128 a = (snd a, fst a)"
definition rx_add_vec_f128 :: "fpu \<Rightarrow> nat \<Rightarrow> vec_f128 \<Rightarrow> vec_f128 \<Rightarrow> vec_f128" where
  "rx_add_vec_f128 F rm = vec_map2 (fp_add F rm)"
definition rx_sub_vec_f128 :: "fpu \<Rightarrow> nat \<Rightarrow> vec_f128 \<Rightarrow> vec_f128 \<Rightarrow> vec_f128" where
  "rx_sub_vec_f128 F rm = vec_map2 (fp_sub F rm)"
definition rx_mul_vec_f128 :: "fpu \<Rightarrow> nat \<Rightarrow> vec_f128 \<Rightarrow> vec_f128 \<Rightarrow> vec_f128" where
  "rx_mul_vec_f128 F rm = vec_map2 (fp_mul F rm)"
definition rx_div_vec_f128 :: "fpu \<Rightarrow> nat \<Rightarrow> vec_f128 \<Rightarrow> vec_f128 \<Rightarrow> vec_f128" where
  "rx_div_vec_f128 F rm = vec_map2 (fp_div F rm)"
definition rx_sqrt_vec_f128 :: "fpu \<Rightarrow> nat \<Rightarrow> vec_f128 \<Rightarrow> vec_f128" where
  "rx_sqrt_vec_f128 F rm a = (fp_sqrt F rm (fst a), fp_sqrt F rm (snd a))"
definition rx_set_vec_f128 :: "u64 \<Rightarrow> u64 \<Rightarrow> vec_f128" where
  "rx_set_vec_f128 x1 x0 = (x0, x1)"
definition rx_set1_vec_f128 :: "u64 \<Rightarrow> vec_f128" where
  "rx_set1_vec_f128 x = (x, x)"
definition rx_xor_vec_f128 :: "vec_f128 \<Rightarrow> vec_f128 \<Rightarrow> vec_f128" where
  "rx_xor_vec_f128 = vec_map2 (XOR)"
definition rx_and_vec_f128 :: "vec_f128 \<Rightarrow> vec_f128 \<Rightarrow> vec_f128" where
  "rx_and_vec_f128 = vec_map2 (AND)"
definition rx_or_vec_f128 :: "vec_f128 \<Rightarrow> vec_f128 \<Rightarrow> vec_f128" where
  "rx_or_vec_f128 = vec_map2 (OR)"

text \<open>The vector at the start of \<open>p\<close>, and the conversion of two packed 32-bit integers.\<close>

definition rx_load_vec_f128 :: "bytes \<Rightarrow> vec_f128" where
  "rx_load_vec_f128 p = (load64 (sub 0 8 p), load64 (sub 8 8 p))"
definition rx_store_vec_f128 :: "vec_f128 \<Rightarrow> bytes" where
  "rx_store_vec_f128 a = store64 (fst a) @ store64 (snd a)"
definition rx_cvt_packed_int_vec_f128 :: "fpu \<Rightarrow> bytes \<Rightarrow> vec_f128" where
  "rx_cvt_packed_int_vec_f128 F p = (fp_of_int32 F (load32 (sub 0 4 p)), fp_of_int32 F (load32 (sub 4 4 p)))"

section \<open>Instructions and bytecode\<close>

record Instruction =
  i_opcode :: u8
  i_dst :: u8
  i_src :: u8
  i_mod :: u8
  i_imm32 :: u32

definition getImm32 :: "Instruction \<Rightarrow> u32" where
  "getImm32 instr = i_imm32 instr"
definition getModMem :: "Instruction \<Rightarrow> nat" where
  "getModMem instr = unat (i_mod instr AND 3)"
definition getModShift :: "Instruction \<Rightarrow> nat" where
  "getModShift instr = unat (drop_bit 2 (i_mod instr) AND 3)"
definition getModCond :: "Instruction \<Rightarrow> nat" where
  "getModCond instr = unat (drop_bit 4 (i_mod instr))"

text \<open>Register indices of an instruction, over all registers and over the four of a float group.\<close>

definition dst8 :: "Instruction \<Rightarrow> nat" where "dst8 instr = unat (i_dst instr) mod RegistersCount"
definition src8 :: "Instruction \<Rightarrow> nat" where "src8 instr = unat (i_src instr) mod RegistersCount"
definition dst4 :: "Instruction \<Rightarrow> nat" where "dst4 instr = unat (i_dst instr) mod RegisterCountFlt"
definition src4 :: "Instruction \<Rightarrow> nat" where "src4 instr = unat (i_src instr) mod RegisterCountFlt"

text \<open>
  Where \<open>idst\<close>, \<open>isrc\<close>, \<open>fdst\<close> and \<open>fsrc\<close> point: into the register file, at the immediate of the same
  bytecode, at the constant \<open>zero\<close>, or nowhere yet.
\<close>

datatype reg_ptr = PtrR nat | PtrF nat | PtrE nat | PtrA nat | PtrImm | PtrZero | PtrNull

text \<open>\<open>target\<close> and \<open>shift\<close> are one 16-bit union.\<close>

record InstructionByteCode =
  ibc_dst :: reg_ptr
  ibc_src :: reg_ptr
  ibc_imm :: u64
  ibc_type :: InstructionType
  ibc_target :: "16 word"
  ibc_memMask :: u32

section \<open>Compilation\<close>

text \<open>
  A generator fills the bytecode of instruction number \<open>i\<close> (over what the slot held before) and
  records in \<open>registerUsage\<close> the registers that the instruction changes. The state is the pair of
  the two.
\<close>

type_synonym gen_state = "InstructionByteCode \<times> int list"

definition use_register :: "nat \<Rightarrow> nat \<Rightarrow> int list \<Rightarrow> int list" where
  "use_register r i usage = usage[r := int i]"

text \<open>The operand of an arithmetic instruction: a register, or the immediate if it would be \<open>dst\<close> itself.\<close>

definition src_or_imm :: "Instruction \<Rightarrow> u64 \<Rightarrow> InstructionByteCode \<Rightarrow> InstructionByteCode" where
  "src_or_imm instr imm ibc =
    (if src8 instr \<noteq> dst8 instr then ibc\<lparr>ibc_src := PtrR (src8 instr)\<rparr>
     else ibc\<lparr>ibc_imm := imm, ibc_src := PtrImm\<rparr>)"

text \<open>The address operand: register plus immediate under the mask of \<open>mod\<close>, or the immediate alone in L3.\<close>

definition src_mem :: "RandomX_Configuration \<Rightarrow> Instruction \<Rightarrow> InstructionByteCode \<Rightarrow> InstructionByteCode" where
  "src_mem cfg instr ibc =
    (let ibc = ibc\<lparr>ibc_imm := signExtend2sCompl (getImm32 instr)\<rparr>
     in if src8 instr \<noteq> dst8 instr then
          ibc\<lparr>ibc_src := PtrR (src8 instr), ibc_memMask := AddressMask_Calculated cfg ! getModMem instr\<rparr>
        else ibc\<lparr>ibc_src := PtrZero, ibc_memMask := ScratchpadL3Mask_Calculated cfg\<rparr>)"

text \<open>The address operand of a float instruction is always a register.\<close>

definition fsrc_mem :: "RandomX_Configuration \<Rightarrow> Instruction \<Rightarrow> InstructionByteCode \<Rightarrow> InstructionByteCode" where
  "fsrc_mem cfg instr ibc = ibc\<lparr>ibc_src := PtrR (src8 instr),
     ibc_memMask := AddressMask_Calculated cfg ! getModMem instr,
     ibc_imm := signExtend2sCompl (getImm32 instr)\<rparr>"

definition gen_IADD_RS :: "Instruction \<Rightarrow> nat \<Rightarrow> gen_state \<Rightarrow> gen_state" where
  "gen_IADD_RS instr i st =
    (let ibc = (fst st)\<lparr>ibc_type := IADD_RS, ibc_dst := PtrR (dst8 instr)\<rparr>;
         ibc = (if dst8 instr \<noteq> RegisterNeedsDisplacement then
             ibc\<lparr>ibc_src := PtrR (src8 instr), ibc_target := of_nat (getModShift instr), ibc_imm := 0\<rparr>
           else
             ibc\<lparr>ibc_src := PtrR (src8 instr), ibc_target := of_nat (getModShift instr),
               ibc_imm := signExtend2sCompl (getImm32 instr)\<rparr>)
     in (ibc, use_register (dst8 instr) i (snd st)))"

definition gen_IADD_M :: "RandomX_Configuration \<Rightarrow> Instruction \<Rightarrow> nat \<Rightarrow> gen_state \<Rightarrow> gen_state" where
  "gen_IADD_M cfg instr i st =
    (src_mem cfg instr ((fst st)\<lparr>ibc_type := IADD_M, ibc_dst := PtrR (dst8 instr)\<rparr>), use_register (dst8 instr) i (snd st))"

definition gen_ISUB_R :: "Instruction \<Rightarrow> nat \<Rightarrow> gen_state \<Rightarrow> gen_state" where
  "gen_ISUB_R instr i st =
    (src_or_imm instr (signExtend2sCompl (getImm32 instr)) ((fst st)\<lparr>ibc_type := ISUB_R, ibc_dst := PtrR (dst8 instr)\<rparr>), use_register (dst8 instr) i (snd st))"

definition gen_ISUB_M :: "RandomX_Configuration \<Rightarrow> Instruction \<Rightarrow> nat \<Rightarrow> gen_state \<Rightarrow> gen_state" where
  "gen_ISUB_M cfg instr i st =
    (src_mem cfg instr ((fst st)\<lparr>ibc_type := ISUB_M, ibc_dst := PtrR (dst8 instr)\<rparr>), use_register (dst8 instr) i (snd st))"

definition gen_IMUL_R :: "Instruction \<Rightarrow> nat \<Rightarrow> gen_state \<Rightarrow> gen_state" where
  "gen_IMUL_R instr i st =
    (src_or_imm instr (signExtend2sCompl (getImm32 instr)) ((fst st)\<lparr>ibc_type := IMUL_R, ibc_dst := PtrR (dst8 instr)\<rparr>), use_register (dst8 instr) i (snd st))"

definition gen_IMUL_M :: "RandomX_Configuration \<Rightarrow> Instruction \<Rightarrow> nat \<Rightarrow> gen_state \<Rightarrow> gen_state" where
  "gen_IMUL_M cfg instr i st =
    (src_mem cfg instr ((fst st)\<lparr>ibc_type := IMUL_M, ibc_dst := PtrR (dst8 instr)\<rparr>), use_register (dst8 instr) i (snd st))"

definition gen_IMULH_R :: "Instruction \<Rightarrow> nat \<Rightarrow> gen_state \<Rightarrow> gen_state" where
  "gen_IMULH_R instr i st =
    ((fst st)\<lparr>ibc_type := IMULH_R, ibc_dst := PtrR (dst8 instr), ibc_src := PtrR (src8 instr)\<rparr>, use_register (dst8 instr) i (snd st))"

definition gen_IMULH_M :: "RandomX_Configuration \<Rightarrow> Instruction \<Rightarrow> nat \<Rightarrow> gen_state \<Rightarrow> gen_state" where
  "gen_IMULH_M cfg instr i st =
    (src_mem cfg instr ((fst st)\<lparr>ibc_type := IMULH_M, ibc_dst := PtrR (dst8 instr)\<rparr>), use_register (dst8 instr) i (snd st))"

definition gen_ISMULH_R :: "Instruction \<Rightarrow> nat \<Rightarrow> gen_state \<Rightarrow> gen_state" where
  "gen_ISMULH_R instr i st =
    ((fst st)\<lparr>ibc_type := ISMULH_R, ibc_dst := PtrR (dst8 instr), ibc_src := PtrR (src8 instr)\<rparr>, use_register (dst8 instr) i (snd st))"

definition gen_ISMULH_M :: "RandomX_Configuration \<Rightarrow> Instruction \<Rightarrow> nat \<Rightarrow> gen_state \<Rightarrow> gen_state" where
  "gen_ISMULH_M cfg instr i st =
    (src_mem cfg instr ((fst st)\<lparr>ibc_type := ISMULH_M, ibc_dst := PtrR (dst8 instr)\<rparr>), use_register (dst8 instr) i (snd st))"

text \<open>A multiplication by a reciprocal; the assertion of \<open>randomx_reciprocal\<close> cannot fail here.\<close>

definition gen_IMUL_RCP :: "Instruction \<Rightarrow> nat \<Rightarrow> gen_state \<Rightarrow> gen_state" where
  "gen_IMUL_RCP instr i st =
    (let divisor = ucast (getImm32 instr) :: u64
     in if \<not> isZeroOrPowerOf2 divisor then
          ((fst st)\<lparr>ibc_type := IMUL_R, ibc_dst := PtrR (dst8 instr),
              ibc_imm := (case randomx_reciprocal divisor of Inr q \<Rightarrow> q | Inl e \<Rightarrow> 0), ibc_src := PtrImm\<rparr>,
            use_register (dst8 instr) i (snd st))
        else ((fst st)\<lparr>ibc_type := NOP\<rparr>, snd st))"

definition gen_INEG_R :: "Instruction \<Rightarrow> nat \<Rightarrow> gen_state \<Rightarrow> gen_state" where
  "gen_INEG_R instr i st =
    ((fst st)\<lparr>ibc_type := INEG_R, ibc_dst := PtrR (dst8 instr)\<rparr>, use_register (dst8 instr) i (snd st))"

definition gen_IXOR_R :: "Instruction \<Rightarrow> nat \<Rightarrow> gen_state \<Rightarrow> gen_state" where
  "gen_IXOR_R instr i st =
    (src_or_imm instr (signExtend2sCompl (getImm32 instr)) ((fst st)\<lparr>ibc_type := IXOR_R, ibc_dst := PtrR (dst8 instr)\<rparr>), use_register (dst8 instr) i (snd st))"

definition gen_IXOR_M :: "RandomX_Configuration \<Rightarrow> Instruction \<Rightarrow> nat \<Rightarrow> gen_state \<Rightarrow> gen_state" where
  "gen_IXOR_M cfg instr i st =
    (src_mem cfg instr ((fst st)\<lparr>ibc_type := IXOR_M, ibc_dst := PtrR (dst8 instr)\<rparr>), use_register (dst8 instr) i (snd st))"

definition gen_IROR_R :: "Instruction \<Rightarrow> nat \<Rightarrow> gen_state \<Rightarrow> gen_state" where
  "gen_IROR_R instr i st =
    (src_or_imm instr (ucast (getImm32 instr)) ((fst st)\<lparr>ibc_type := IROR_R, ibc_dst := PtrR (dst8 instr)\<rparr>), use_register (dst8 instr) i (snd st))"

definition gen_IROL_R :: "Instruction \<Rightarrow> nat \<Rightarrow> gen_state \<Rightarrow> gen_state" where
  "gen_IROL_R instr i st =
    (src_or_imm instr (ucast (getImm32 instr)) ((fst st)\<lparr>ibc_type := IROL_R, ibc_dst := PtrR (dst8 instr)\<rparr>), use_register (dst8 instr) i (snd st))"

definition gen_ISWAP_R :: "Instruction \<Rightarrow> nat \<Rightarrow> gen_state \<Rightarrow> gen_state" where
  "gen_ISWAP_R instr i st =
    (if src8 instr \<noteq> dst8 instr then
       ((fst st)\<lparr>ibc_dst := PtrR (dst8 instr), ibc_src := PtrR (src8 instr), ibc_type := ISWAP_R\<rparr>,
         use_register (src8 instr) i (use_register (dst8 instr) i (snd st)))
     else ((fst st)\<lparr>ibc_type := NOP\<rparr>, snd st))"

definition gen_FSWAP_R :: "Instruction \<Rightarrow> nat \<Rightarrow> gen_state \<Rightarrow> gen_state" where
  "gen_FSWAP_R instr i st =
    ((fst st)\<lparr>ibc_type := FSWAP_R,
        ibc_dst := (if dst8 instr < RegisterCountFlt then PtrF (dst8 instr) else PtrE (dst8 instr - RegisterCountFlt))\<rparr>,
      snd st)"

definition gen_FADD_R :: "Instruction \<Rightarrow> nat \<Rightarrow> gen_state \<Rightarrow> gen_state" where
  "gen_FADD_R instr i st =
    ((fst st)\<lparr>ibc_type := FADD_R, ibc_dst := PtrF (dst4 instr), ibc_src := PtrA (src4 instr)\<rparr>, snd st)"

definition gen_FADD_M :: "RandomX_Configuration \<Rightarrow> Instruction \<Rightarrow> nat \<Rightarrow> gen_state \<Rightarrow> gen_state" where
  "gen_FADD_M cfg instr i st =
    (fsrc_mem cfg instr ((fst st)\<lparr>ibc_type := FADD_M, ibc_dst := PtrF (dst4 instr)\<rparr>), snd st)"

definition gen_FSUB_R :: "Instruction \<Rightarrow> nat \<Rightarrow> gen_state \<Rightarrow> gen_state" where
  "gen_FSUB_R instr i st =
    ((fst st)\<lparr>ibc_type := FSUB_R, ibc_dst := PtrF (dst4 instr), ibc_src := PtrA (src4 instr)\<rparr>, snd st)"

definition gen_FSUB_M :: "RandomX_Configuration \<Rightarrow> Instruction \<Rightarrow> nat \<Rightarrow> gen_state \<Rightarrow> gen_state" where
  "gen_FSUB_M cfg instr i st =
    (fsrc_mem cfg instr ((fst st)\<lparr>ibc_type := FSUB_M, ibc_dst := PtrF (dst4 instr)\<rparr>), snd st)"

definition gen_FSCAL_R :: "Instruction \<Rightarrow> nat \<Rightarrow> gen_state \<Rightarrow> gen_state" where
  "gen_FSCAL_R instr i st =
    ((fst st)\<lparr>ibc_dst := PtrF (dst4 instr), ibc_type := FSCAL_R\<rparr>, snd st)"

definition gen_FMUL_R :: "Instruction \<Rightarrow> nat \<Rightarrow> gen_state \<Rightarrow> gen_state" where
  "gen_FMUL_R instr i st =
    ((fst st)\<lparr>ibc_type := FMUL_R, ibc_dst := PtrE (dst4 instr), ibc_src := PtrA (src4 instr)\<rparr>, snd st)"

definition gen_FDIV_M :: "RandomX_Configuration \<Rightarrow> Instruction \<Rightarrow> nat \<Rightarrow> gen_state \<Rightarrow> gen_state" where
  "gen_FDIV_M cfg instr i st =
    (fsrc_mem cfg instr ((fst st)\<lparr>ibc_type := FDIV_M, ibc_dst := PtrE (dst4 instr)\<rparr>), snd st)"

definition gen_FSQRT_R :: "Instruction \<Rightarrow> nat \<Rightarrow> gen_state \<Rightarrow> gen_state" where
  "gen_FSQRT_R instr i st =
    ((fst st)\<lparr>ibc_type := FSQRT_R, ibc_dst := PtrE (dst4 instr)\<rparr>, snd st)"

text \<open>
  The branch goes back to the last instruction that changed its register. The immediate has the
  lowest bit of the condition set and the bit below it clear.
\<close>

definition gen_CBRANCH :: "Instruction \<Rightarrow> nat \<Rightarrow> gen_state \<Rightarrow> gen_state" where
  "gen_CBRANCH instr i st =
    (let creg = dst8 instr;
         shift = getModCond instr;
         imm = signExtend2sCompl (getImm32 instr) OR push_bit shift (push_bit JumpOffset 1);
         imm = imm AND NOT (push_bit shift (push_bit (JumpOffset - 1) 1))
     in ((fst st)\<lparr>ibc_type := CBRANCH, ibc_dst := PtrR creg, ibc_target := word_of_int (snd st ! creg),
           ibc_imm := imm, ibc_memMask := ucast (push_bit shift ConditionMask_Calculated)\<rparr>,
         for_range 0 RegistersCount (\<lambda>u j. u[j := int i]) (snd st)))"

definition gen_CFROUND :: "Instruction \<Rightarrow> nat \<Rightarrow> gen_state \<Rightarrow> gen_state" where
  "gen_CFROUND instr i st =
    ((fst st)\<lparr>ibc_src := PtrR (src8 instr), ibc_type := CFROUND, ibc_imm := ucast (getImm32 instr AND 63)\<rparr>, snd st)"

definition gen_ISTORE :: "RandomX_Configuration \<Rightarrow> Instruction \<Rightarrow> nat \<Rightarrow> gen_state \<Rightarrow> gen_state" where
  "gen_ISTORE cfg instr i st =
    ((fst st)\<lparr>ibc_type := ISTORE, ibc_dst := PtrR (dst8 instr), ibc_src := PtrR (src8 instr),
        ibc_imm := signExtend2sCompl (getImm32 instr),
        ibc_memMask := (if getModCond instr < StoreL3Condition then AddressMask_Calculated cfg ! getModMem instr
          else ScratchpadL3Mask_Calculated cfg)\<rparr>, snd st)"

definition gen_NOP :: "Instruction \<Rightarrow> nat \<Rightarrow> gen_state \<Rightarrow> gen_state" where
  "gen_NOP instr i st =
    ((fst st)\<lparr>ibc_type := NOP\<rparr>, snd st)"

fun gen_instr :: "RandomX_Configuration \<Rightarrow> InstructionType \<Rightarrow> Instruction \<Rightarrow> nat \<Rightarrow> gen_state \<Rightarrow> gen_state" where
  "gen_instr cfg IADD_RS = gen_IADD_RS"
| "gen_instr cfg IADD_M = gen_IADD_M cfg"
| "gen_instr cfg ISUB_R = gen_ISUB_R"
| "gen_instr cfg ISUB_M = gen_ISUB_M cfg"
| "gen_instr cfg IMUL_R = gen_IMUL_R"
| "gen_instr cfg IMUL_M = gen_IMUL_M cfg"
| "gen_instr cfg IMULH_R = gen_IMULH_R"
| "gen_instr cfg IMULH_M = gen_IMULH_M cfg"
| "gen_instr cfg ISMULH_R = gen_ISMULH_R"
| "gen_instr cfg ISMULH_M = gen_ISMULH_M cfg"
| "gen_instr cfg IMUL_RCP = gen_IMUL_RCP"
| "gen_instr cfg INEG_R = gen_INEG_R"
| "gen_instr cfg IXOR_R = gen_IXOR_R"
| "gen_instr cfg IXOR_M = gen_IXOR_M cfg"
| "gen_instr cfg IROR_R = gen_IROR_R"
| "gen_instr cfg IROL_R = gen_IROL_R"
| "gen_instr cfg ISWAP_R = gen_ISWAP_R"
| "gen_instr cfg FSWAP_R = gen_FSWAP_R"
| "gen_instr cfg FADD_R = gen_FADD_R"
| "gen_instr cfg FADD_M = gen_FADD_M cfg"
| "gen_instr cfg FSUB_R = gen_FSUB_R"
| "gen_instr cfg FSUB_M = gen_FSUB_M cfg"
| "gen_instr cfg FSCAL_R = gen_FSCAL_R"
| "gen_instr cfg FMUL_R = gen_FMUL_R"
| "gen_instr cfg FDIV_M = gen_FDIV_M cfg"
| "gen_instr cfg FSQRT_R = gen_FSQRT_R"
| "gen_instr cfg CBRANCH = gen_CBRANCH"
| "gen_instr cfg CFROUND = gen_CFROUND"
| "gen_instr cfg ISTORE = gen_ISTORE cfg"
| "gen_instr cfg NOP = gen_NOP"

definition compileInstruction :: "RandomX_Configuration \<Rightarrow> Instruction \<Rightarrow> nat \<Rightarrow> gen_state \<Rightarrow> gen_state option" where
  "compileInstruction cfg instr i st =
    map_option (\<lambda>t. gen_instr cfg t instr i st) (decode cfg compile_order (unat (i_opcode instr)))"

text \<open>\<open>beginCompilation\<close> and \<open>compileProgram\<close>, over the bytecode array of the machine.\<close>

definition beginCompilation :: "int list" where
  "beginCompilation = replicate RegistersCount (- 1)"

fun compile_loop :: "RandomX_Configuration \<Rightarrow> Instruction list \<Rightarrow> nat \<Rightarrow> InstructionByteCode list \<Rightarrow> int list
    \<Rightarrow> (InstructionByteCode list \<times> int list) option" where
  "compile_loop cfg program 0 bytecode usage = Some (bytecode, usage)"
| "compile_loop cfg program (Suc i) bytecode usage = do {
     (bytecode, usage) \<leftarrow> compile_loop cfg program i bytecode usage;
     (ibc, usage) \<leftarrow> compileInstruction cfg (program ! i) i (bytecode ! i, usage);
     Some (bytecode[i := ibc], usage)
   }"

definition compileProgram :: "RandomX_Configuration \<Rightarrow> Instruction list \<Rightarrow> InstructionByteCode list
    \<Rightarrow> InstructionByteCode list option" where
  "compileProgram cfg program bytecode =
    map_option fst (compile_loop cfg program (ProgramSize cfg) bytecode beginCompilation)"

section \<open>The machine state\<close>

record NativeRegisterFile =
  nr_r :: "u64 list"
  nr_f :: "vec_f128 list"
  nr_e :: "vec_f128 list"
  nr_a :: "vec_f128 list"

record ProgramConfiguration =
  eMask :: "u64 list"
  readReg0 :: nat
  readReg1 :: nat
  readReg2 :: nat
  readReg3 :: nat

text \<open>The registers, the scratchpad and the rounding mode of the processor.\<close>

record rx_state =
  nreg :: NativeRegisterFile
  scratchpad :: bytes
  rounding :: nat

definition get_int :: "InstructionByteCode \<Rightarrow> rx_state \<Rightarrow> reg_ptr \<Rightarrow> u64 option" where
  "get_int ibc S p = (case p of
     PtrR n \<Rightarrow> if n < length (nr_r (nreg S)) then Some (nr_r (nreg S) ! n) else None
   | PtrImm \<Rightarrow> Some (ibc_imm ibc)
   | PtrZero \<Rightarrow> Some 0
   | _ \<Rightarrow> None)"

definition put_int :: "rx_state \<Rightarrow> reg_ptr \<Rightarrow> u64 \<Rightarrow> rx_state option" where
  "put_int S p v = (case p of
     PtrR n \<Rightarrow> if n < length (nr_r (nreg S)) then Some (S\<lparr>nreg := (nreg S)\<lparr>nr_r := (nr_r (nreg S))[n := v]\<rparr>\<rparr>) else None
   | _ \<Rightarrow> None)"

definition get_flt :: "rx_state \<Rightarrow> reg_ptr \<Rightarrow> vec_f128 option" where
  "get_flt S p = (case p of
     PtrF n \<Rightarrow> if n < length (nr_f (nreg S)) then Some (nr_f (nreg S) ! n) else None
   | PtrE n \<Rightarrow> if n < length (nr_e (nreg S)) then Some (nr_e (nreg S) ! n) else None
   | PtrA n \<Rightarrow> if n < length (nr_a (nreg S)) then Some (nr_a (nreg S) ! n) else None
   | _ \<Rightarrow> None)"

definition put_flt :: "rx_state \<Rightarrow> reg_ptr \<Rightarrow> vec_f128 \<Rightarrow> rx_state option" where
  "put_flt S p v = (case p of
     PtrF n \<Rightarrow> if n < length (nr_f (nreg S)) then Some (S\<lparr>nreg := (nreg S)\<lparr>nr_f := (nr_f (nreg S))[n := v]\<rparr>\<rparr>) else None
   | PtrE n \<Rightarrow> if n < length (nr_e (nreg S)) then Some (S\<lparr>nreg := (nreg S)\<lparr>nr_e := (nr_e (nreg S))[n := v]\<rparr>\<rparr>) else None
   | _ \<Rightarrow> None)"

text \<open>The eight bytes of the scratchpad at an address.\<close>

definition read8 :: "rx_state \<Rightarrow> u32 \<Rightarrow> bytes option" where
  "read8 S addr = (if unat addr + 8 \<le> length (scratchpad S) then Some (sub (unat addr) 8 (scratchpad S)) else None)"

definition write8 :: "rx_state \<Rightarrow> u32 \<Rightarrow> u64 \<Rightarrow> rx_state option" where
  "write8 S addr v =
    (if unat addr + 8 \<le> length (scratchpad S) then Some (S\<lparr>scratchpad := blit (scratchpad S) (unat addr) (store64 v)\<rparr>)
     else None)"

definition getScratchpadAddress :: "InstructionByteCode \<Rightarrow> rx_state \<Rightarrow> u32 option" where
  "getScratchpadAddress ibc S =
    map_option (\<lambda>s. ucast ((s + ibc_imm ibc) AND ucast (ibc_memMask ibc))) (get_int ibc S (ibc_src ibc))"

definition load_mem :: "InstructionByteCode \<Rightarrow> rx_state \<Rightarrow> bytes option" where
  "load_mem ibc S = do { addr \<leftarrow> getScratchpadAddress ibc S; read8 S addr }"

section \<open>Execution\<close>

text \<open>The shapes of the instructions: a new integer from \<open>*idst\<close> and the operand, or from \<open>*fdst\<close>.\<close>

definition upd_int :: "InstructionByteCode \<Rightarrow> rx_state \<Rightarrow> u64 option \<Rightarrow> (u64 \<Rightarrow> u64 \<Rightarrow> u64) \<Rightarrow> rx_state option" where
  "upd_int ibc S operand f = do {
     d \<leftarrow> get_int ibc S (ibc_dst ibc);
     s \<leftarrow> operand;
     put_int S (ibc_dst ibc) (f d s)
   }"

definition upd_flt :: "InstructionByteCode \<Rightarrow> rx_state \<Rightarrow> 'x option \<Rightarrow> (vec_f128 \<Rightarrow> 'x \<Rightarrow> vec_f128) \<Rightarrow> rx_state option" where
  "upd_flt ibc S operand f = do {
     d \<leftarrow> get_flt S (ibc_dst ibc);
     s \<leftarrow> operand;
     put_flt S (ibc_dst ibc) (f d s)
   }"

abbreviation isrc :: "InstructionByteCode \<Rightarrow> rx_state \<Rightarrow> u64 option" where
  "isrc ibc S \<equiv> get_int ibc S (ibc_src ibc)"

abbreviation fsrc :: "InstructionByteCode \<Rightarrow> rx_state \<Rightarrow> vec_f128 option" where
  "fsrc ibc S \<equiv> get_flt S (ibc_src ibc)"

abbreviation msrc :: "InstructionByteCode \<Rightarrow> rx_state \<Rightarrow> u64 option" where
  "msrc ibc S \<equiv> map_option load64 (load_mem ibc S)"

abbreviation msrc_flt :: "fpu \<Rightarrow> InstructionByteCode \<Rightarrow> rx_state \<Rightarrow> vec_f128 option" where
  "msrc_flt F ibc S \<equiv> map_option (rx_cvt_packed_int_vec_f128 F) (load_mem ibc S)"

definition exe_IADD_RS :: "InstructionByteCode \<Rightarrow> rx_state \<Rightarrow> rx_state option" where
  "exe_IADD_RS ibc S = upd_int ibc S (isrc ibc S) (\<lambda>d s. d + (push_bit (unat (ibc_target ibc)) s + ibc_imm ibc))"

definition exe_IADD_M :: "InstructionByteCode \<Rightarrow> rx_state \<Rightarrow> rx_state option" where
  "exe_IADD_M ibc S = upd_int ibc S (msrc ibc S) (+)"

definition exe_ISUB_R :: "InstructionByteCode \<Rightarrow> rx_state \<Rightarrow> rx_state option" where
  "exe_ISUB_R ibc S = upd_int ibc S (isrc ibc S) (-)"

definition exe_ISUB_M :: "InstructionByteCode \<Rightarrow> rx_state \<Rightarrow> rx_state option" where
  "exe_ISUB_M ibc S = upd_int ibc S (msrc ibc S) (-)"

definition exe_IMUL_R :: "InstructionByteCode \<Rightarrow> rx_state \<Rightarrow> rx_state option" where
  "exe_IMUL_R ibc S = upd_int ibc S (isrc ibc S) (*)"

definition exe_IMUL_M :: "InstructionByteCode \<Rightarrow> rx_state \<Rightarrow> rx_state option" where
  "exe_IMUL_M ibc S = upd_int ibc S (msrc ibc S) (*)"

definition exe_IMULH_R :: "InstructionByteCode \<Rightarrow> rx_state \<Rightarrow> rx_state option" where
  "exe_IMULH_R ibc S = upd_int ibc S (isrc ibc S) (mulh)"

definition exe_IMULH_M :: "InstructionByteCode \<Rightarrow> rx_state \<Rightarrow> rx_state option" where
  "exe_IMULH_M ibc S = upd_int ibc S (msrc ibc S) (mulh)"

definition exe_ISMULH_R :: "InstructionByteCode \<Rightarrow> rx_state \<Rightarrow> rx_state option" where
  "exe_ISMULH_R ibc S = upd_int ibc S (isrc ibc S) (smulh)"

definition exe_ISMULH_M :: "InstructionByteCode \<Rightarrow> rx_state \<Rightarrow> rx_state option" where
  "exe_ISMULH_M ibc S = upd_int ibc S (msrc ibc S) (smulh)"

definition exe_INEG_R :: "InstructionByteCode \<Rightarrow> rx_state \<Rightarrow> rx_state option" where
  "exe_INEG_R ibc S = upd_int ibc S (Some 0) (\<lambda>d _. NOT d + 1)"

definition exe_IXOR_R :: "InstructionByteCode \<Rightarrow> rx_state \<Rightarrow> rx_state option" where
  "exe_IXOR_R ibc S = upd_int ibc S (isrc ibc S) (XOR)"

definition exe_IXOR_M :: "InstructionByteCode \<Rightarrow> rx_state \<Rightarrow> rx_state option" where
  "exe_IXOR_M ibc S = upd_int ibc S (msrc ibc S) (XOR)"

definition exe_IROR_R :: "InstructionByteCode \<Rightarrow> rx_state \<Rightarrow> rx_state option" where
  "exe_IROR_R ibc S = upd_int ibc S (isrc ibc S) (\<lambda>d s. rx_rotr64 d (ucast (s AND 63)))"

definition exe_IROL_R :: "InstructionByteCode \<Rightarrow> rx_state \<Rightarrow> rx_state option" where
  "exe_IROL_R ibc S = upd_int ibc S (isrc ibc S) (\<lambda>d s. rx_rotl64 d (ucast (s AND 63)))"

definition exe_ISWAP_R :: "InstructionByteCode \<Rightarrow> rx_state \<Rightarrow> rx_state option" where
  "exe_ISWAP_R ibc S = do {
     temp \<leftarrow> isrc ibc S;
     d \<leftarrow> get_int ibc S (ibc_dst ibc);
     S \<leftarrow> put_int S (ibc_src ibc) d;
     put_int S (ibc_dst ibc) temp
   }"

definition exe_FSWAP_R :: "InstructionByteCode \<Rightarrow> rx_state \<Rightarrow> rx_state option" where
  "exe_FSWAP_R ibc S = upd_flt ibc S (Some ()) (\<lambda>d _. rx_swap_vec_f128 d)"

definition exe_FADD_R :: "fpu \<Rightarrow> InstructionByteCode \<Rightarrow> rx_state \<Rightarrow> rx_state option" where
  "exe_FADD_R F ibc S = upd_flt ibc S (fsrc ibc S) (rx_add_vec_f128 F (rounding S))"

definition exe_FADD_M :: "fpu \<Rightarrow> InstructionByteCode \<Rightarrow> rx_state \<Rightarrow> rx_state option" where
  "exe_FADD_M F ibc S = upd_flt ibc S (msrc_flt F ibc S) (rx_add_vec_f128 F (rounding S))"

definition exe_FSUB_R :: "fpu \<Rightarrow> InstructionByteCode \<Rightarrow> rx_state \<Rightarrow> rx_state option" where
  "exe_FSUB_R F ibc S = upd_flt ibc S (fsrc ibc S) (rx_sub_vec_f128 F (rounding S))"

definition exe_FSUB_M :: "fpu \<Rightarrow> InstructionByteCode \<Rightarrow> rx_state \<Rightarrow> rx_state option" where
  "exe_FSUB_M F ibc S = upd_flt ibc S (msrc_flt F ibc S) (rx_sub_vec_f128 F (rounding S))"

definition exe_FSCAL_R :: "InstructionByteCode \<Rightarrow> rx_state \<Rightarrow> rx_state option" where
  "exe_FSCAL_R ibc S = upd_flt ibc S (Some ()) (\<lambda>d _. rx_xor_vec_f128 d (rx_set1_vec_f128 0x80F0000000000000))"

definition exe_FMUL_R :: "fpu \<Rightarrow> InstructionByteCode \<Rightarrow> rx_state \<Rightarrow> rx_state option" where
  "exe_FMUL_R F ibc S = upd_flt ibc S (fsrc ibc S) (rx_mul_vec_f128 F (rounding S))"

definition dynamicMantissaMask :: u64 where
  "dynamicMantissaMask = push_bit (52 + 4) 1 - 1"

definition maskRegisterExponentMantissa :: "ProgramConfiguration \<Rightarrow> vec_f128 \<Rightarrow> vec_f128" where
  "maskRegisterExponentMantissa config x =
    (let xmantissaMask = rx_set_vec_f128 dynamicMantissaMask dynamicMantissaMask;
         xexponentMask = (eMask config ! 0, eMask config ! 1);
         x = rx_and_vec_f128 x xmantissaMask
     in rx_or_vec_f128 x xexponentMask)"

definition exe_FDIV_M :: "fpu \<Rightarrow> ProgramConfiguration \<Rightarrow> InstructionByteCode \<Rightarrow> rx_state \<Rightarrow> rx_state option" where
  "exe_FDIV_M F config ibc S =
     upd_flt ibc S (map_option (maskRegisterExponentMantissa config) (msrc_flt F ibc S)) (rx_div_vec_f128 F (rounding S))"

definition exe_FSQRT_R :: "fpu \<Rightarrow> InstructionByteCode \<Rightarrow> rx_state \<Rightarrow> rx_state option" where
  "exe_FSQRT_R F ibc S = upd_flt ibc S (Some ()) (\<lambda>d _. rx_sqrt_vec_f128 F (rounding S) d)"

definition exe_CBRANCH :: "InstructionByteCode \<Rightarrow> int \<Rightarrow> rx_state \<Rightarrow> (int \<times> rx_state) option" where
  "exe_CBRANCH ibc pc S = do {
     S \<leftarrow> upd_int ibc S (Some (ibc_imm ibc)) (+);
     d \<leftarrow> get_int ibc S (ibc_dst ibc);
     Some (if d AND ucast (ibc_memMask ibc) = 0 then sint (ibc_target ibc) else pc, S)
   }"

definition rx_set_rounding_mode :: "u64 \<Rightarrow> rx_state \<Rightarrow> rx_state" where
  "rx_set_rounding_mode mode S = S\<lparr>rounding := unat (mode AND 3)\<rparr>"

definition exe_CFROUND :: "InstructionByteCode \<Rightarrow> rx_state \<Rightarrow> rx_state option" where
  "exe_CFROUND ibc S = map_option (\<lambda>s. rx_set_rounding_mode (rx_rotr64 s (ucast (ibc_imm ibc)) mod 4) S) (isrc ibc S)"

definition exe_ISTORE :: "InstructionByteCode \<Rightarrow> rx_state \<Rightarrow> rx_state option" where
  "exe_ISTORE ibc S = do {
     d \<leftarrow> get_int ibc S (ibc_dst ibc);
     s \<leftarrow> isrc ibc S;
     write8 S (ucast ((d + ibc_imm ibc) AND ucast (ibc_memMask ibc))) s
   }"

text \<open>Every instruction but the branch leaves the program counter alone.\<close>

fun exe_plain :: "fpu \<Rightarrow> ProgramConfiguration \<Rightarrow> InstructionType \<Rightarrow> InstructionByteCode \<Rightarrow> rx_state \<Rightarrow> rx_state option" where
  "exe_plain F config IADD_RS = exe_IADD_RS"
| "exe_plain F config IADD_M = exe_IADD_M"
| "exe_plain F config ISUB_R = exe_ISUB_R"
| "exe_plain F config ISUB_M = exe_ISUB_M"
| "exe_plain F config IMUL_R = exe_IMUL_R"
| "exe_plain F config IMUL_M = exe_IMUL_M"
| "exe_plain F config IMULH_R = exe_IMULH_R"
| "exe_plain F config IMULH_M = exe_IMULH_M"
| "exe_plain F config ISMULH_R = exe_ISMULH_R"
| "exe_plain F config ISMULH_M = exe_ISMULH_M"
| "exe_plain F config IMUL_RCP = (\<lambda>ibc S. None)"
| "exe_plain F config INEG_R = exe_INEG_R"
| "exe_plain F config IXOR_R = exe_IXOR_R"
| "exe_plain F config IXOR_M = exe_IXOR_M"
| "exe_plain F config IROR_R = exe_IROR_R"
| "exe_plain F config IROL_R = exe_IROL_R"
| "exe_plain F config ISWAP_R = exe_ISWAP_R"
| "exe_plain F config FSWAP_R = exe_FSWAP_R"
| "exe_plain F config FADD_R = exe_FADD_R F"
| "exe_plain F config FADD_M = exe_FADD_M F"
| "exe_plain F config FSUB_R = exe_FSUB_R F"
| "exe_plain F config FSUB_M = exe_FSUB_M F"
| "exe_plain F config FSCAL_R = exe_FSCAL_R"
| "exe_plain F config FMUL_R = exe_FMUL_R F"
| "exe_plain F config FDIV_M = exe_FDIV_M F config"
| "exe_plain F config FSQRT_R = exe_FSQRT_R F"
| "exe_plain F config CBRANCH = (\<lambda>ibc S. None)"
| "exe_plain F config CFROUND = exe_CFROUND"
| "exe_plain F config ISTORE = exe_ISTORE"
| "exe_plain F config NOP = (\<lambda>ibc S. Some S)"

definition executeInstruction :: "fpu \<Rightarrow> ProgramConfiguration \<Rightarrow> InstructionByteCode \<Rightarrow> int \<Rightarrow> rx_state
    \<Rightarrow> (int \<times> rx_state) option" where
  "executeInstruction F config ibc pc S =
    (if ibc_type ibc = CBRANCH then exe_CBRANCH ibc pc S
     else map_option (\<lambda>S. (pc, S)) (exe_plain F config (ibc_type ibc) ibc S))"

text \<open>
  \<open>for (int pc = 0; pc < ProgramSize; ++pc)\<close>. A program that loops forever has no result.
\<close>

partial_function (option) executeFrom :: "fpu \<Rightarrow> RandomX_Configuration \<Rightarrow> ProgramConfiguration
    \<Rightarrow> InstructionByteCode list \<Rightarrow> int \<Rightarrow> rx_state \<Rightarrow> rx_state option" where
  "executeFrom F cfg config bytecode pc S =
    (if pc < int (ProgramSize cfg) then
       do {
         (pc, S) \<leftarrow> executeInstruction F config (bytecode ! nat pc) pc S;
         executeFrom F cfg config bytecode (pc + 1) S
       }
     else Some S)"

definition executeBytecode :: "fpu \<Rightarrow> RandomX_Configuration \<Rightarrow> ProgramConfiguration
    \<Rightarrow> InstructionByteCode list \<Rightarrow> rx_state \<Rightarrow> rx_state option" where
  "executeBytecode F cfg config bytecode S = executeFrom F cfg config bytecode 0 S"

end
