(* ===== verification/RxBytecode.thy ===== *)
theory RxBytecode
  imports RxMachine
begin

text \<open>
  What RandomX relies on to run random code safely, proved of the compiler and the interpreter of
  \<open>randomx/bytecode_machine.{hpp,cpp}\<close>: whatever the program, its bytecode has pointers of the right
  kind, its memory accesses stay inside the scratchpad, its branches go back only over code that
  leaves their register alone, and the immediate of a branch makes it fail after two jumps, so that
  a program of \<open>n\<close> instructions ends after at most \<open>3 n\<close> steps.
\<close>

section \<open>Well-formed bytecode\<close>

text \<open>
  What a compiled instruction looks like: its pointers have the kind and the range its execution
  needs, and its memory mask keeps an access of eight bytes inside the scratchpad.
\<close>

fun ptr_r :: "reg_ptr \<Rightarrow> bool" where
  "ptr_r (PtrR n) = (n < 8)" | "ptr_r _ = False"
fun ptr_fe :: "reg_ptr \<Rightarrow> bool" where
  "ptr_fe (PtrF n) = (n < 4)" | "ptr_fe (PtrE n) = (n < 4)" | "ptr_fe _ = False"
fun ptr_a :: "reg_ptr \<Rightarrow> bool" where
  "ptr_a (PtrA n) = (n < 4)" | "ptr_a _ = False"

definition ptr_src :: "reg_ptr \<Rightarrow> bool" where
  "ptr_src p \<longleftrightarrow> ptr_r p \<or> p = PtrImm \<or> p = PtrZero"

definition mask_ok :: "RandomX_Configuration \<Rightarrow> u32 \<Rightarrow> bool" where
  "mask_ok cfg m \<longleftrightarrow> unat m + 8 \<le> unat (ScratchpadL3_Size cfg)"

definition int_ops :: "InstructionType set" where
  "int_ops = {IADD_RS, ISUB_R, IMUL_R, IMULH_R, ISMULH_R, INEG_R, IXOR_R, IROR_R, IROL_R, CBRANCH}"

definition int_mem_ops :: "InstructionType set" where
  "int_mem_ops = {IADD_M, ISUB_M, IMUL_M, IMULH_M, ISMULH_M, IXOR_M}"

definition flt_ops :: "InstructionType set" where
  "flt_ops = {FADD_R, FSUB_R, FMUL_R}"

definition flt_mem_ops :: "InstructionType set" where
  "flt_mem_ops = {FADD_M, FSUB_M, FDIV_M}"

definition wf_ibc :: "RandomX_Configuration \<Rightarrow> InstructionByteCode \<Rightarrow> bool" where
  "wf_ibc cfg ibc \<longleftrightarrow> (let t = ibc_type ibc; d = ibc_dst ibc; s = ibc_src ibc in
     (t \<in> int_ops \<longrightarrow> ptr_r d \<and> (t \<noteq> INEG_R \<and> t \<noteq> CBRANCH \<longrightarrow> ptr_src s)) \<and>
     (t \<in> int_mem_ops \<longrightarrow> ptr_r d \<and> ptr_src s \<and> mask_ok cfg (ibc_memMask ibc)) \<and>
     (t = ISWAP_R \<longrightarrow> ptr_r d \<and> ptr_r s) \<and>
     (t \<in> flt_ops \<longrightarrow> ptr_fe d \<and> ptr_a s) \<and>
     (t \<in> flt_mem_ops \<longrightarrow> ptr_fe d \<and> ptr_src s \<and> mask_ok cfg (ibc_memMask ibc)) \<and>
     (t \<in> {FSWAP_R, FSCAL_R, FSQRT_R} \<longrightarrow> ptr_fe d) \<and>
     (t = CFROUND \<longrightarrow> ptr_src s) \<and>
     (t = ISTORE \<longrightarrow> ptr_r d \<and> ptr_src s \<and> mask_ok cfg (ibc_memMask ibc)) \<and>
     t \<noteq> IMUL_RCP)"

text \<open>The integer registers an instruction changes.\<close>

definition modifies :: "InstructionByteCode \<Rightarrow> nat \<Rightarrow> bool" where
  "modifies ibc r \<longleftrightarrow>
     (ibc_type ibc \<in> int_ops \<union> int_mem_ops \<union> {ISWAP_R} \<and> ibc_dst ibc = PtrR r) \<or>
     (ibc_type ibc = ISWAP_R \<and> ibc_src ibc = PtrR r)"

text \<open>The immediate and the mask of a branch: eight condition bits from bit \<open>b\<close> on.\<close>

definition branch_imm :: "nat \<Rightarrow> InstructionByteCode \<Rightarrow> bool" where
  "branch_imm b ibc \<longleftrightarrow> 1 \<le> b \<and> b + 8 \<le> 32 \<and> ibc_memMask ibc = push_bit b 0xFF \<and>
     bit (ibc_imm ibc) b \<and> \<not> bit (ibc_imm ibc) (b - 1)"

text \<open>What the compiler counts as a use of a register: a change, and every branch.\<close>

definition uses :: "InstructionByteCode \<Rightarrow> nat \<Rightarrow> bool" where
  "uses ibc r \<longleftrightarrow> modifies ibc r \<or> ibc_type ibc = CBRANCH"

text \<open>
  A branch at \<open>i\<close> goes on at \<open>k\<close>: \<open>k - 1\<close> is exactly the last use of its register before \<open>i\<close>, or \<open>k\<close> is the
  start of the program because there is none.
\<close>

definition branch_ok :: "InstructionByteCode list \<Rightarrow> nat \<Rightarrow> bool" where
  "branch_ok bc i \<longleftrightarrow> (\<exists>c b k. c < 8 \<and> ibc_dst (bc ! i) = PtrR c \<and> branch_imm b (bc ! i) \<and>
     k \<le> i \<and> sint (ibc_target (bc ! i)) = int k - 1 \<and>
     (k = 0 \<or> uses (bc ! (k - 1)) c) \<and> (\<forall>j. k \<le> j \<and> j < i \<longrightarrow> \<not> uses (bc ! j) c))"

definition bytecode_ok :: "RandomX_Configuration \<Rightarrow> InstructionByteCode list \<Rightarrow> nat \<Rightarrow> bool" where
  "bytecode_ok cfg bc n \<longleftrightarrow> n \<le> length bc \<and>
     (\<forall>i < n. wf_ibc cfg (bc ! i) \<and> (ibc_type (bc ! i) = CBRANCH \<longrightarrow> branch_ok bc i))"

section \<open>What one generator does\<close>

lemmas gen_defs =
  gen_IADD_RS_def gen_IADD_M_def gen_ISUB_R_def gen_ISUB_M_def gen_IMUL_R_def gen_IMUL_M_def gen_IMULH_R_def
  gen_IMULH_M_def gen_ISMULH_R_def gen_ISMULH_M_def gen_IMUL_RCP_def gen_INEG_R_def gen_IXOR_R_def gen_IXOR_M_def
  gen_IROR_R_def gen_IROL_R_def gen_ISWAP_R_def gen_FSWAP_R_def gen_FADD_R_def gen_FADD_M_def gen_FSUB_R_def
  gen_FSUB_M_def gen_FSCAL_R_def gen_FMUL_R_def gen_FDIV_M_def gen_FSQRT_R_def gen_CFROUND_def gen_ISTORE_def
  gen_NOP_def

lemmas op_sets = int_ops_def int_mem_ops_def flt_ops_def flt_mem_ops_def

lemma dst8_less [simp]: "dst8 instr < 8" "src8 instr < 8" "dst4 instr < 4" "src4 instr < 4"
  by (simp_all add: dst8_def src8_def dst4_def src4_def RegistersCount_def RegisterCountFlt_def)

lemma dst8_minus [simp]: "dst8 instr - 4 < 4"
  using dst8_less(1) [of instr] by linarith

lemma getModMem_less: "getModMem instr < 4"
proof -
  have "getModMem instr = unat (i_mod instr AND mask 2)" by (simp add: getModMem_def mask_eq_exp_minus_1)
  then show ?thesis by (simp only: unat_and_mask) simp
qed

lemma config_masks:
  assumes "config_ok cfg"
  shows "mask_ok cfg (AddressMask_Calculated cfg ! getModMem instr)" and "mask_ok cfg (ScratchpadL3Mask_Calculated cfg)"
  using assms getModMem_less [of instr] by (auto simp: config_ok_def mask_ok_def)

text \<open>
  For every instruction but the branch: the bytecode is well formed, usage entries keep their value
  or become \<open>i\<close>, and they become \<open>i\<close> for every register the instruction changes.
\<close>

lemma gen_plain_wf:
  assumes "config_ok cfg" and "t \<noteq> CBRANCH"
  shows "wf_ibc cfg (fst (gen_instr cfg t instr i st)) \<and> ibc_type (fst (gen_instr cfg t instr i st)) \<noteq> CBRANCH"
  using assms(2) config_masks [OF assms(1)]
  by (cases t) (simp_all add: gen_defs src_or_imm_def src_mem_def fsrc_mem_def wf_ibc_def op_sets
        ptr_src_def Let_def RegisterCountFlt_def RegistersCount_def RegisterNeedsDisplacement_def)

lemma use_register_usage [simp]:
  "length (use_register d i usage) = length usage"
  "use_register d i usage ! r = (if r = d \<and> d < length usage then int i else usage ! r)"
  by (cases "d < length usage") (auto simp: use_register_def nth_list_update list_update_beyond)

lemma gen_plain_usage:
  assumes "length (snd st) = 8" and "t \<noteq> CBRANCH" and "st' = gen_instr cfg t instr i st"
  shows "length (snd st') = 8 \<and> (\<forall>r. snd st' ! r = (if modifies (fst st') r then int i else snd st ! r))"
proof (cases "t = ISWAP_R")
  case True
  then show ?thesis
    using assms(1) dst8_less [of instr] by (auto simp: assms(3) gen_ISWAP_R_def modifies_def op_sets)
next
  case False
  then show ?thesis
    using assms(2) unfolding assms(3)
    by (cases t)
      (simp_all add: gen_defs src_or_imm_def src_mem_def fsrc_mem_def modifies_def op_sets Let_def assms(1))
qed

lemma condition_mask: "s < 16 \<Longrightarrow> (ucast (push_bit s (0xFF00 :: u64)) :: u32) = push_bit (s + 8) 0xFF"
proof -
  assume s: "s < 16"
  have m: "(0xFF00 :: u64) = push_bit 8 (mask 8)" "(0xFF :: u32) = mask 8" by (simp_all add: mask_eq_exp_minus_1)
  show ?thesis
    unfolding m by (rule bit_word_eqI) (use s in \<open>auto simp: bit_simps\<close>)
qed

lemma gen_branch:
  assumes "length usage = 8" and "gen_CBRANCH instr i (ibc, usage) = (ibc', usage')"
  shows "usage' = replicate 8 (int i) \<and> ibc_type ibc' = CBRANCH \<and> ibc_dst ibc' = PtrR (dst8 instr) \<and>
    ibc_target ibc' = word_of_int (usage ! dst8 instr) \<and> branch_imm (getModCond instr + 8) ibc'"
proof -
  have "getModCond instr < 16"
    using unsigned_less [of "i_mod instr", where ?'a = nat] by (simp add: getModCond_def unat_drop_bit)
  moreover have "for_range 0 8 (\<lambda>u j. u[j := int i]) usage = replicate 8 (int i)"
    using assms(1) by (intro nth_equalityI) (auto simp: nth_for_range_put)
  ultimately show ?thesis
    using assms(2)
    by (auto simp: gen_CBRANCH_def Let_def branch_imm_def RegistersCount_def ConditionMask_Calculated_def
      JumpBits_def JumpOffset_def condition_mask bit_simps)
qed

section \<open>Compiling a program\<close>

text \<open>Before instruction \<open>i\<close>: every entry is the last use of its register, or there was none.\<close>

definition usage_ok :: "InstructionByteCode list \<Rightarrow> int list \<Rightarrow> nat \<Rightarrow> bool" where
  "usage_ok bc usage i \<longleftrightarrow> length usage = 8 \<and> (\<forall>r < 8. -1 \<le> usage ! r \<and> usage ! r < int i) \<and>
     (\<forall>r < 8. \<forall>j < i. usage ! r = int j \<longrightarrow> uses (bc ! j) r) \<and>
     (\<forall>j < i. \<forall>r < 8. uses (bc ! j) r \<longrightarrow> int j \<le> usage ! r)"

lemma bytecode_ok_put:
  assumes "bytecode_ok cfg bc i" and "i < length bc" and "wf_ibc cfg ibc"
    and "ibc_type ibc = CBRANCH \<Longrightarrow> branch_ok (bc[i := ibc]) i"
  shows "bytecode_ok cfg (bc[i := ibc]) (Suc i)"
proof -
  have "branch_ok (bc[i := ibc]) j \<longleftrightarrow> branch_ok bc j" if "j < i" for j
    using that unfolding branch_ok_def by (intro iff_exI conj_cong refl all_cong) auto
  then show ?thesis
    using assms unfolding bytecode_ok_def by (auto simp: less_Suc_eq)
qed

lemma compile_step:
  assumes cfg: "config_ok cfg" and bc: "bytecode_ok cfg bc i" and u: "usage_ok bc usage i"
    and i: "i < length bc" "i < 256" and st: "gen_instr cfg t instr i (bc ! i, usage) = (ibc, usage')"
  shows "bytecode_ok cfg (bc[i := ibc]) (Suc i) \<and> usage_ok (bc[i := ibc]) usage' (Suc i)"
proof (cases "t = CBRANCH")
  case False
  have len: "length usage = 8" using u by (simp add: usage_ok_def)
  have g: "wf_ibc cfg ibc" "ibc_type ibc \<noteq> CBRANCH"
    using gen_plain_wf [OF cfg False, of instr i "(bc ! i, usage)"] st by simp_all
  have us: "length usage' = 8" "\<And>r. usage' ! r = (if uses ibc r then int i else usage ! r)"
    using gen_plain_usage [of "(bc ! i, usage)" t, OF _ False st [symmetric]] len g(2) by (simp_all add: uses_def)
  have old: "- 1 \<le> usage ! r" "usage ! r < int i" if "r < 8" for r
    using u that by (simp_all add: usage_ok_def)
  have "usage_ok (bc[i := ibc]) usage' (Suc i)"
    unfolding usage_ok_def
  proof (intro conjI allI impI)
    show "length usage' = 8" by (rule us)
    fix r :: nat assume r: "r < 8"
    show "- 1 \<le> usage' ! r" and "usage' ! r < int (Suc i)"
      using us(2) [of r] old [OF r] by auto
    fix j assume j: "j < Suc i"
    show "uses (bc[i := ibc] ! j) r" if "usage' ! r = int j"
    proof (cases "j = i")
      case True
      then show ?thesis using that us(2) [of r] old(2) [OF r] i by (simp split: if_splits)
    next
      case ne: False
      then have "usage ! r = int j" using that us(2) [of r] by (simp split: if_splits)
      then show ?thesis using u j ne r by (simp add: usage_ok_def)
    qed
    assume m: "uses (bc[i := ibc] ! j) r"
    show "int j \<le> usage' ! r"
    proof (cases "j = i")
      case True
      then show ?thesis using m us(2) i by simp
    next
      case ne: False
      then have "int j \<le> usage ! r" using u j m r by (simp add: usage_ok_def)
      then show ?thesis using us(2) [of r] j by simp
    qed
  qed
  moreover have "bytecode_ok cfg (bc[i := ibc]) (Suc i)"
    using bytecode_ok_put [OF bc i(1) g(1)] g(2) by blast
  ultimately show ?thesis by blast
next
  case True
  have len: "length usage = 8" using u by (simp add: usage_ok_def)
  let ?c = "dst8 instr"
  have g: "usage' = replicate 8 (int i)" "ibc_type ibc = CBRANCH" "ibc_dst ibc = PtrR ?c"
      "ibc_target ibc = word_of_int (usage ! ?c)" "branch_imm (getModCond instr + 8) ibc"
    using gen_branch [OF len, of instr i "bc ! i" ibc usage'] st True by simp_all
  have "usage_ok (bc[i := ibc]) usage' (Suc i)"
    using i(1) by (simp add: usage_ok_def uses_def g(1,2))
  moreover have "wf_ibc cfg ibc" by (simp add: wf_ibc_def g Let_def op_sets)
  moreover have "branch_ok (bc[i := ibc]) i"
  proof -
    have old: "- 1 \<le> usage ! ?c" "usage ! ?c < int i"
      using u by (simp_all add: usage_ok_def)
    define k where "k = nat (usage ! ?c + 1)"
    have k: "k \<le> i" "usage ! ?c = int k - 1" using old by (auto simp: k_def)
    have "sint (ibc_target ibc) = usage ! ?c"
      using old i(2) by (simp add: g(4) signed_of_int signed_take_bit_int_eq_self)
    moreover have "\<not> uses (bc ! j) ?c" if "k \<le> j" "j < i" for j
    proof
      assume "uses (bc ! j) ?c"
      then have "int j \<le> usage ! ?c" using u that by (simp add: usage_ok_def)
      then show False using k that by simp
    qed
    moreover have "k = 0 \<or> uses (bc[i := ibc] ! (k - 1)) ?c"
    proof (cases "k = 0")
      case False
      then have "usage ! ?c = int (k - 1)" "k - 1 < i" "k - 1 \<noteq> i" using k by simp_all
      then show ?thesis using u by (simp add: usage_ok_def)
    qed simp
    ultimately show ?thesis
      using g(3,5) i k unfolding branch_ok_def
      by (rule_tac exI [of _ ?c], rule_tac exI [of _ "getModCond instr + 8"], rule_tac exI [of _ k]) auto
  qed
  ultimately show ?thesis
    using bytecode_ok_put [OF bc i(1)] by blast
qed

lemma opcode_decodes: "config_ok cfg \<Longrightarrow> \<exists>t. decode cfg compile_order (unat (op :: u8)) = Some t"
  using decode_total [of "unat op" cfg compile_order] unsigned_less [of op, where ?'a = nat]
  by (auto simp: config_ok_def orders_agree)

lemma compile_loop_ok:
  assumes "config_ok cfg" and "n \<le> 256" and "n \<le> length bc"
  shows "\<exists>bc' usage. compile_loop cfg program n bc beginCompilation = Some (bc', usage) \<and> length bc' = length bc \<and>
    bytecode_ok cfg bc' n \<and> usage_ok bc' usage n"
  using assms(2,3)
proof (induction n)
  case 0
  show ?case by (simp add: bytecode_ok_def usage_ok_def beginCompilation_def RegistersCount_def)
next
  case (Suc i)
  then obtain bc' usage where IH: "compile_loop cfg program i bc beginCompilation = Some (bc', usage)"
      "length bc' = length bc" "bytecode_ok cfg bc' i" "usage_ok bc' usage i"
    by auto
  obtain t where t: "decode cfg compile_order (unat (i_opcode (program ! i))) = Some t"
    using opcode_decodes [OF assms(1)] by blast
  obtain ibc usage' where st: "gen_instr cfg t (program ! i) i (bc' ! i, usage) = (ibc, usage')"
    by fastforce
  show ?case
    using compile_step [OF assms(1) IH(3,4) _ _ st] Suc.prems IH(1,2)
    by (simp add: compileInstruction_def t st)
qed

lemma compileProgram_ok:
  assumes "config_ok cfg" and "length bc = RANDOMX_PROGRAM_MAX_SIZE"
  shows "\<exists>bc'. compileProgram cfg program bc = Some bc' \<and> bytecode_ok cfg bc' (ProgramSize cfg) \<and> length bc' = length bc"
proof -
  have n: "ProgramSize cfg \<le> 256" using assms(1) by (simp add: config_ok_def RANDOMX_PROGRAM_MAX_SIZE_def)
  then have "ProgramSize cfg \<le> length bc" using assms(2) by (simp add: RANDOMX_PROGRAM_MAX_SIZE_def)
  from compile_loop_ok [OF assms(1) n this] show ?thesis
    by (force simp: compileProgram_def)
qed

section \<open>Executing one instruction\<close>

definition state_ok :: "RandomX_Configuration \<Rightarrow> rx_state \<Rightarrow> bool" where
  "state_ok cfg S \<longleftrightarrow> length (nr_r (nreg S)) = 8 \<and> length (nr_f (nreg S)) = 4 \<and> length (nr_e (nreg S)) = 4 \<and>
     length (nr_a (nreg S)) = 4 \<and> length (scratchpad S) = unat (ScratchpadL3_Size cfg)"

text \<open>The integer registers after a step, up to those that it may change.\<close>

definition keeps :: "InstructionByteCode \<Rightarrow> rx_state \<Rightarrow> rx_state \<Rightarrow> bool" where
  "keeps ibc S S' \<longleftrightarrow> (\<forall>r. \<not> modifies ibc r \<longrightarrow> nr_r (nreg S') ! r = nr_r (nreg S) ! r)"

lemma get_int_ok: "state_ok cfg S \<Longrightarrow> ptr_src p \<Longrightarrow> \<exists>v. get_int ibc S p = Some v"
  by (cases p) (auto simp: ptr_src_def get_int_def state_ok_def)

lemma ptr_r_cases: "ptr_r p \<Longrightarrow> \<exists>n < 8. p = PtrR n"
  by (cases p) auto

lemma ptr_r_src: "ptr_r p \<Longrightarrow> ptr_src p"
  by (simp add: ptr_src_def)

lemma put_int_ok:
  assumes "state_ok cfg S" and "ptr_r p"
  shows "\<exists>S'. put_int S p v = Some S' \<and> state_ok cfg S' \<and>
    (\<forall>r. p \<noteq> PtrR r \<longrightarrow> nr_r (nreg S') ! r = nr_r (nreg S) ! r)"
  using ptr_r_cases [OF assms(2)] assms(1) by (auto simp: put_int_def state_ok_def)

lemma get_flt_ok: "state_ok cfg S \<Longrightarrow> ptr_fe p \<or> ptr_a p \<Longrightarrow> \<exists>v. get_flt S p = Some v"
  by (cases p) (auto simp: get_flt_def state_ok_def)

lemma put_flt_ok:
  "state_ok cfg S \<Longrightarrow> ptr_fe p \<Longrightarrow>
    \<exists>S'. put_flt S p v = Some S' \<and> state_ok cfg S' \<and> nr_r (nreg S') = nr_r (nreg S)"
  by (cases p) (auto simp: put_flt_def state_ok_def)

lemma masked_address: "unat (ucast (x AND ucast m :: u64) :: u32) \<le> unat (m :: u32)"
proof -
  have "unat (ucast (x AND ucast m :: u64) :: u32) \<le> unat (x AND ucast m)"
    by (simp add: unsigned_ucast_eq take_bit_eq_mod)
  also have "\<dots> \<le> unat (ucast m :: u64)"
    using word_and_le1 [of x "ucast m"] by (simp add: word_le_nat_alt)
  also have "\<dots> = unat m"
    using unsigned_less [of m, where ?'a = nat] by (simp add: unsigned_ucast_eq take_bit_eq_mod)
  finally show ?thesis .
qed

lemma load_mem_ok:
  assumes "state_ok cfg S" and "ptr_src (ibc_src ibc)" and "mask_ok cfg (ibc_memMask ibc)"
  shows "\<exists>p. load_mem ibc S = Some p \<and> length p = 8"
proof -
  obtain s where s: "get_int ibc S (ibc_src ibc) = Some s" using get_int_ok [OF assms(1,2)] by blast
  have "unat (ucast ((s + ibc_imm ibc) AND ucast (ibc_memMask ibc)) :: u32) + 8 \<le> length (scratchpad S)"
    using masked_address [of "s + ibc_imm ibc" "ibc_memMask ibc"] assms(1,3)
    by (simp add: mask_ok_def state_ok_def)
  then show ?thesis
    by (auto simp: load_mem_def getScratchpadAddress_def s read8_def)
qed

lemma upd_int_ok:
  assumes "state_ok cfg S" and "ptr_r (ibc_dst ibc)" and "\<exists>v. operand = Some v"
  shows "\<exists>S'. upd_int ibc S operand f = Some S' \<and> state_ok cfg S' \<and>
    (\<forall>r. ibc_dst ibc \<noteq> PtrR r \<longrightarrow> nr_r (nreg S') ! r = nr_r (nreg S) ! r)"
  using get_int_ok [OF assms(1) ptr_r_src [OF assms(2)], of ibc] assms(3)
    put_int_ok [OF assms(1,2)] by (fastforce simp: upd_int_def)

lemma upd_flt_ok:
  assumes "state_ok cfg S" and "ptr_fe (ibc_dst ibc)" and "\<exists>v. operand = Some v"
  shows "\<exists>S'. upd_flt ibc S operand f = Some S' \<and> state_ok cfg S' \<and> nr_r (nreg S') = nr_r (nreg S)"
  using get_flt_ok [OF assms(1) disjI1 [OF assms(2)]] assms(3)
    put_flt_ok [OF assms(1,2)] by (fastforce simp: upd_flt_def)

lemmas exe_int_defs =
  exe_IADD_RS_def exe_ISUB_R_def exe_IMUL_R_def exe_IMULH_R_def exe_ISMULH_R_def exe_INEG_R_def exe_IXOR_R_def
  exe_IROR_R_def exe_IROL_R_def

lemmas exe_mem_defs =
  exe_IADD_M_def exe_ISUB_M_def exe_IMUL_M_def exe_IMULH_M_def exe_ISMULH_M_def exe_IXOR_M_def

lemmas exe_flt_defs =
  exe_FADD_R_def exe_FSUB_R_def exe_FMUL_R_def exe_FADD_M_def exe_FSUB_M_def exe_FDIV_M_def
  exe_FSWAP_R_def exe_FSCAL_R_def exe_FSQRT_R_def

lemma upd_int_plain:
  assumes "state_ok cfg S" and "exe_plain F config t ibc S = upd_int ibc S operand f" and "ibc_type ibc = t"
    and "t \<in> int_ops \<union> int_mem_ops" and "ptr_r (ibc_dst ibc)" and "\<exists>v. operand = Some v"
  shows "\<exists>S'. exe_plain F config t ibc S = Some S' \<and> state_ok cfg S' \<and> keeps ibc S S'"
  using upd_int_ok [OF assms(1,5,6), of f] assms(2-4) by (fastforce simp: keeps_def modifies_def)

lemma upd_flt_plain:
  assumes "state_ok cfg S" and "exe_plain F config t ibc S = upd_flt ibc S operand f"
    and "ptr_fe (ibc_dst ibc)" and "\<exists>v. operand = Some v"
  shows "\<exists>S'. exe_plain F config t ibc S = Some S' \<and> state_ok cfg S' \<and> keeps ibc S S'"
  using upd_flt_ok [OF assms(1,3,4), of f] assms(2) by (fastforce simp: keeps_def)

lemma ISWAP_ok:
  assumes "state_ok cfg S" and "wf_ibc cfg ibc" and "ibc_type ibc = ISWAP_R"
  shows "\<exists>S'. exe_ISWAP_R ibc S = Some S' \<and> state_ok cfg S' \<and> keeps ibc S S'"
proof -
  have p: "ptr_r (ibc_dst ibc)" "ptr_r (ibc_src ibc)" using assms(2,3) by (auto simp: wf_ibc_def Let_def)
  obtain s d where "get_int ibc S (ibc_src ibc) = Some s" "get_int ibc S (ibc_dst ibc) = Some d"
    using get_int_ok [OF assms(1) ptr_r_src] p by blast
  moreover obtain S1 where "put_int S (ibc_src ibc) d = Some S1" and 1: "state_ok cfg S1"
      and k1: "\<And>r. ibc_src ibc \<noteq> PtrR r \<Longrightarrow> nr_r (nreg S1) ! r = nr_r (nreg S) ! r"
    using put_int_ok [OF assms(1) p(2)] by blast
  moreover obtain S2 where "put_int S1 (ibc_dst ibc) s = Some S2" and "state_ok cfg S2"
      and "\<And>r. ibc_dst ibc \<noteq> PtrR r \<Longrightarrow> nr_r (nreg S2) ! r = nr_r (nreg S1) ! r"
    using put_int_ok [OF 1 p(1)] by blast
  ultimately show ?thesis using assms(3) by (auto simp: exe_ISWAP_R_def keeps_def modifies_def)
qed

lemma ISTORE_ok:
  assumes "state_ok cfg S" and "wf_ibc cfg ibc" and "ibc_type ibc = ISTORE"
  shows "\<exists>S'. exe_ISTORE ibc S = Some S' \<and> state_ok cfg S' \<and> keeps ibc S S'"
proof -
  have p: "ptr_r (ibc_dst ibc)" "ptr_src (ibc_src ibc)" "mask_ok cfg (ibc_memMask ibc)"
    using assms(2,3) by (auto simp: wf_ibc_def Let_def)
  obtain s d where "get_int ibc S (ibc_src ibc) = Some s" "get_int ibc S (ibc_dst ibc) = Some d"
    using get_int_ok [OF assms(1)] p ptr_r_src by blast
  moreover have "unat (ucast ((d + ibc_imm ibc) AND ucast (ibc_memMask ibc)) :: u32) + 8 \<le> length (scratchpad S)"
    using masked_address [of "d + ibc_imm ibc" "ibc_memMask ibc"] assms(1) p(3)
    by (simp add: mask_ok_def state_ok_def)
  ultimately show ?thesis
    using assms(1) by (auto simp: exe_ISTORE_def write8_def keeps_def state_ok_def)
qed

lemma exe_plain_ok:
  assumes S: "state_ok cfg S" and wf: "wf_ibc cfg ibc" and t: "ibc_type ibc = t" "t \<noteq> CBRANCH"
  shows "\<exists>S'. exe_plain F config t ibc S = Some S' \<and> state_ok cfg S' \<and> keeps ibc S S'"
proof -
  have src: "\<exists>v. get_int ibc S (ibc_src ibc) = Some v" if "ptr_src (ibc_src ibc)"
    using get_int_ok [OF S that] by blast
  have mem: "\<exists>v. map_option f (load_mem ibc S) = Some v"
    if "ptr_src (ibc_src ibc)" "mask_ok cfg (ibc_memMask ibc)" for f :: "bytes \<Rightarrow> 'x"
    using load_mem_ok [OF S that] by auto
  have flt: "\<exists>v. get_flt S (ibc_src ibc) = Some v" if "ptr_a (ibc_src ibc)"
    using get_flt_ok [OF S] that by blast
  consider "t \<in> int_ops" | "t \<in> int_mem_ops" | "t \<in> flt_ops" | "t \<in> flt_mem_ops" | "t \<in> {FSWAP_R, FSCAL_R, FSQRT_R}"
    | "t = ISWAP_R" | "t = ISTORE" | "t = CFROUND" | "t = NOP"
    using wf t by (cases t) (auto simp: op_sets wf_ibc_def Let_def)
  then show ?thesis
  proof cases
    case 1
    then have p: "ptr_r (ibc_dst ibc)" "t \<noteq> INEG_R \<Longrightarrow> ptr_src (ibc_src ibc)"
      using wf t by (auto simp: wf_ibc_def Let_def)
    obtain op f where "exe_plain F config t ibc S = upd_int ibc S op f" "\<exists>v. op = Some v"
      using 1 t(2) src [OF p(2)] unfolding int_ops_def by (elim insertE emptyE) (auto simp: exe_int_defs)
    then show ?thesis using upd_int_plain [OF S _ t(1)] 1 p(1) by blast
  next
    case 2
    then have p: "ptr_r (ibc_dst ibc)" "ptr_src (ibc_src ibc)" "mask_ok cfg (ibc_memMask ibc)"
      using wf t by (auto simp: wf_ibc_def Let_def)
    obtain f where "exe_plain F config t ibc S = upd_int ibc S (map_option load64 (load_mem ibc S)) f"
      using 2 unfolding int_mem_ops_def by (elim insertE emptyE) (auto simp: exe_mem_defs)
    then show ?thesis using upd_int_plain [OF S _ t(1) _ p(1) mem [OF p(2,3)]] 2 by blast
  next
    case 3
    then have p: "ptr_fe (ibc_dst ibc)" "ptr_a (ibc_src ibc)" using wf t by (auto simp: wf_ibc_def Let_def)
    obtain f where "exe_plain F config t ibc S = upd_flt ibc S (get_flt S (ibc_src ibc)) f"
      using 3 unfolding flt_ops_def by (elim insertE emptyE) (auto simp: exe_flt_defs)
    then show ?thesis using upd_flt_plain [OF S _ p(1) flt [OF p(2)]] by blast
  next
    case 4
    then have p: "ptr_fe (ibc_dst ibc)" "ptr_src (ibc_src ibc)" "mask_ok cfg (ibc_memMask ibc)"
      using wf t by (auto simp: wf_ibc_def Let_def)
    obtain f :: "vec_f128 \<Rightarrow> vec_f128 \<Rightarrow> vec_f128" and g where
      "exe_plain F config t ibc S = upd_flt ibc S (map_option g (load_mem ibc S)) f"
      using 4 unfolding flt_mem_ops_def
      by (elim insertE emptyE) (auto simp: exe_flt_defs option.map_comp)
    then show ?thesis using upd_flt_plain [OF S _ p(1) mem [OF p(2,3)]] by blast
  next
    case 5
    then have p: "ptr_fe (ibc_dst ibc)" using wf t by (auto simp: wf_ibc_def Let_def)
    obtain f :: "vec_f128 \<Rightarrow> unit \<Rightarrow> vec_f128" where "exe_plain F config t ibc S = upd_flt ibc S (Some ()) f"
      using 5 by (elim insertE emptyE) (auto simp: exe_flt_defs)
    then show ?thesis using upd_flt_plain [OF S _ p] by blast
  next
    case 6
    then show ?thesis using ISWAP_ok [OF S wf] t by simp
  next
    case 7
    then show ?thesis using ISTORE_ok [OF S wf] t by simp
  next
    case 8
    then show ?thesis
      using src wf t S by (fastforce simp: wf_ibc_def Let_def exe_CFROUND_def rx_set_rounding_mode_def state_ok_def keeps_def)
  next
    case 9
    then show ?thesis using S by (simp add: keeps_def)
  qed
qed

section \<open>The condition of a branch\<close>

text \<open>
  Adding \<open>I\<close> three times to a number that stays below \<open>N\<close> modulo \<open>256 N\<close> is impossible when the
  digit of \<open>I\<close> at \<open>N\<close> is odd and the part below has its highest bit clear.
\<close>

lemma three_adds:
  fixes N :: nat
  assumes "I < 256 * N" and "odd (I div N)" and "2 * (I mod N) < N" and "a < N" and "b < N" and "c < N"
    and "(a + I) mod (256 * N) = b" and "(b + I) mod (256 * N) = c"
  shows False
proof -
  have N: "0 < N" using assms(4) by simp
  have "I = N * (I div N) + I mod N" by simp
  moreover have "1 \<le> I div N" using assms(2) by (metis One_nat_def Suc_leI even_zero gr0I)
  ultimately have I: "N \<le> I" by (metis le_add1 le_trans mult.right_neutral mult_le_mono2)
  have wrap: "x + I = y + 256 * N" if "(x + I) mod (256 * N) = y" "x < N" "y < N" for x y
  proof (cases "x + I < 256 * N")
    case True
    then have "x + I = y" using that(1) by simp
    then show ?thesis using I that(3) by simp
  next
    case False
    then have "(x + I) mod (256 * N) = x + I - 256 * N"
      using that(2) assms(1) by (simp add: le_mod_geq)
    then show ?thesis using False that(1) by simp
  qed
  note ab = wrap [OF assms(7,4,5)] and bc = wrap [OF assms(8,5,6)]
  have low: "I mod N = N + y - x \<and> y < x" if "x + I = y + 256 * N" "x < N" "y < N" for x y
  proof -
    have less: "y < x" using that(1) assms(1) by simp
    then have "I = (N + y - x) + N * 255" and "N + y - x < N" using that by simp_all
    then show ?thesis using less by (metis mod_less mod_mult_self2)
  qed
  show False using low [OF ab assms(4,5)] low [OF bc assms(5,6)] assms(3-6) by arith
qed

text \<open>The condition bits of a word in terms of its value modulo the bits above them.\<close>

lemma condition_bits:
  assumes "b + 8 \<le> 32" and "m = push_bit b (0xFF :: u32)"
  shows "(x :: u64) AND ucast m = 0 \<longleftrightarrow> unat x mod (256 * 2 ^ b) < 2 ^ b"
proof -
  have FF: "(0xFF :: u32) = mask 8" by (simp add: mask_eq_exp_minus_1)
  have "bit (ucast m :: u64) n \<longleftrightarrow> b \<le> n \<and> n < b + 8" for n
    using assms(1) unfolding assms(2) FF by (auto simp: bit_simps)
  then have "x AND ucast m = 0 \<longleftrightarrow> (\<forall>n < 64. \<not> (bit x n \<and> b \<le> n \<and> n < b + 8))"
    by (simp add: bit_eq_iff bit_and_iff)
  moreover have "n < 64" if "n < b + 8" for n using that assms(1) by simp
  ultimately have "x AND ucast m = 0 \<longleftrightarrow> (\<forall>n. b \<le> n \<and> n < b + 8 \<longrightarrow> \<not> bit x n)"
    by blast
  also have "\<dots> \<longleftrightarrow> take_bit (b + 8) (unat x) = take_bit b (unat x)"
    unfolding bit_eq_iff by (simp add: bit_take_bit_iff bit_unsigned_iff) (intro iff_allI, auto)
  also have "\<dots> \<longleftrightarrow> take_bit (b + 8) (unat x) < 2 ^ b"
  proof
    assume "take_bit (b + 8) (unat x) < 2 ^ b"
    then have "take_bit b (take_bit (b + 8) (unat x)) = take_bit (b + 8) (unat x)"
      by (rule take_bit_nat_eq_self)
    then show "take_bit (b + 8) (unat x) = take_bit b (unat x)" by simp
  qed simp
  also have "take_bit (b + 8) (unat x) = unat x mod (256 * 2 ^ b)"
    by (simp add: take_bit_eq_mod power_add mult.commute)
  finally show ?thesis .
qed

lemma odd_digit: "odd (unat (w :: u64) mod (256 * 2 ^ b) div 2 ^ b) \<longleftrightarrow> bit w b"
proof -
  have "unat w mod (2 ^ b * 256) div 2 ^ b mod 2 = unat w div 2 ^ b mod 2"
    by (rule mod_mult_div_mod) auto
  moreover have "bit w b \<longleftrightarrow> odd (unat w div 2 ^ b)"
    by (simp add: bit_unsigned_iff flip: bit_iff_odd)
  ultimately show ?thesis by (simp add: odd_iff_mod_2_eq_one mult.commute)
qed

text \<open>So a branch is taken at most twice in a row while only its own addition changes the register.\<close>

lemma branch_thrice:
  assumes "branch_imm b ibc" and "m = (ucast (ibc_memMask ibc) :: u64)"
  shows "\<not> ((x + ibc_imm ibc) AND m = 0 \<and> (x + ibc_imm ibc + ibc_imm ibc) AND m = 0 \<and>
    (x + ibc_imm ibc + ibc_imm ibc + ibc_imm ibc) AND m = 0)"
proof -
  define I where "I = ibc_imm ibc"
  let ?N = "2 ^ b :: nat"
  let ?M = "256 * ?N"
  have b: "1 \<le> b" "b + 8 \<le> 32" "ibc_memMask ibc = push_bit b 0xFF" "bit I b" "\<not> bit I (b - 1)"
    using assms(1) by (auto simp: branch_imm_def I_def)
  have cond: "w AND m = 0 \<longleftrightarrow> unat w mod ?M < ?N" for w
    unfolding assms(2) by (rule condition_bits [OF b(2,3)])
  have dvd: "?M dvd 2 ^ 64"
  proof -
    have "?M = 2 ^ (b + 8)" by (simp add: power_add)
    then show ?thesis using b(2) by (simp only: le_imp_power_dvd)
  qed
  have add: "unat (w + I) mod ?M = (unat w mod ?M + unat I mod ?M) mod ?M" for w
    using dvd by (simp add: unat_word_ariths mod_mod_cancel mod_add_eq)
  have odd: "odd (unat I mod ?M div ?N)" using b(4) by (simp add: odd_digit)
  have "unat I mod ?M mod ?N = unat I mod ?N" by (simp add: mod_mod_cancel)
  also have "2 * \<dots> < ?N"
  proof -
    obtain c where c: "b = Suc c" using b(1) by (cases b) auto
    have "\<not> odd (unat I div 2 ^ c)" using b(5) c by (simp add: bit_unsigned_iff flip: bit_iff_odd)
    then have "unat I mod ?N = unat I mod 2 ^ c"
      by (simp add: c mod_mult2_eq mult.commute [of 2] even_iff_mod_2_eq_zero)
    then show ?thesis by (simp add: c)
  qed
  finally have low: "2 * (unat I mod ?M mod ?N) < ?N" .
  have less: "unat I mod ?M < ?M" by simp
  have "False" if "unat (x + I) mod ?M < ?N" "unat (x + I + I) mod ?M < ?N" "unat (x + I + I + I) mod ?M < ?N"
    by (rule three_adds [OF less odd low that add [of "x + I", symmetric] add [of "x + I + I", symmetric]])
  then show ?thesis unfolding I_def [symmetric] cond by blast
qed

section \<open>Steps\<close>

text \<open>
  The interpreter as a step relation that counts its instructions: from a program counter and a
  state, \<open>n\<close> turns of the loop lead to another.
\<close>

inductive rx_steps :: "fpu \<Rightarrow> RandomX_Configuration \<Rightarrow> ProgramConfiguration \<Rightarrow> InstructionByteCode list
    \<Rightarrow> int \<times> rx_state \<Rightarrow> nat \<Rightarrow> int \<times> rx_state \<Rightarrow> bool"
  for F cfg config bc where
  steps_refl: "rx_steps F cfg config bc c 0 c"
| steps_step: "pc < int (ProgramSize cfg) \<Longrightarrow>
     executeInstruction F config (bc ! nat pc) pc S = Some (pc', S') \<Longrightarrow>
     rx_steps F cfg config bc (pc' + 1, S') n c \<Longrightarrow> rx_steps F cfg config bc (pc, S) (Suc n) c"

inductive_cases steps_fromE: "rx_steps F cfg config bc (pc, S) n c"

lemma steps_trans:
  "rx_steps F cfg config bc c n d \<Longrightarrow> rx_steps F cfg config bc d m e \<Longrightarrow> rx_steps F cfg config bc c (n + m) e"
  by (induction rule: rx_steps.induct) (auto intro: rx_steps.intros)

lemma steps_one:
  "pc < int (ProgramSize cfg) \<Longrightarrow> executeInstruction F config (bc ! nat pc) pc S = Some (pc', S') \<Longrightarrow>
    rx_steps F cfg config bc (pc, S) 1 (pc' + 1, S')"
  using steps_step [OF _ _ steps_refl] by fastforce

lemma steps_execute:
  "rx_steps F cfg config bc c n d \<Longrightarrow>
    executeFrom F cfg config bc (fst c) (snd c) = executeFrom F cfg config bc (fst d) (snd d)"
proof (induction rule: rx_steps.induct)
  case (steps_step pc S pc' S' n c)
  then show ?case by (subst executeFrom.simps) simp
qed simp

lemma steps_end:
  "rx_steps F cfg config bc (0, S) n (int (ProgramSize cfg), S') \<Longrightarrow> executeBytecode F cfg config bc S = Some S'"
  using steps_execute by (fastforce simp: executeBytecode_def executeFrom.simps)

section \<open>Runs\<close>

lemma straight_line:
  assumes bc: "bytecode_ok cfg bc (ProgramSize cfg)" and S: "state_ok cfg S"
  shows "k \<le> i \<Longrightarrow> i \<le> ProgramSize cfg \<Longrightarrow> \<forall>j. k \<le> j \<and> j < i \<longrightarrow> ibc_type (bc ! j) \<noteq> CBRANCH \<Longrightarrow>
    \<exists>S'. rx_steps F cfg config bc (int k, S) (i - k) (int i, S') \<and> state_ok cfg S' \<and>
      (\<forall>r. (\<forall>j. k \<le> j \<and> j < i \<longrightarrow> \<not> modifies (bc ! j) r) \<longrightarrow> nr_r (nreg S') ! r = nr_r (nreg S) ! r)"
proof (induction i rule: dec_induct)
  case base
  then show ?case using S by (auto intro: steps_refl)
next
  case (step i)
  then obtain S1 where S1: "rx_steps F cfg config bc (int k, S) (i - k) (int i, S1)" "state_ok cfg S1"
      "\<And>r. (\<forall>j. k \<le> j \<and> j < i \<longrightarrow> \<not> modifies (bc ! j) r) \<Longrightarrow> nr_r (nreg S1) ! r = nr_r (nreg S) ! r"
    by (metis Suc_leD less_Suc_eq)
  have wf: "wf_ibc cfg (bc ! i)" and t: "ibc_type (bc ! i) \<noteq> CBRANCH"
    using bc step.prems step.hyps by (auto simp: bytecode_ok_def)
  obtain S2 where S2: "exe_plain F config (ibc_type (bc ! i)) (bc ! i) S1 = Some S2" "state_ok cfg S2" "keeps (bc ! i) S1 S2"
    using exe_plain_ok [OF S1(2) wf refl t] by blast
  have "rx_steps F cfg config bc (int i, S1) 1 (int (Suc i), S2)"
    using steps_one [of "int i" cfg F config bc S1 "int i" S2] step.prems t S2(1)
    by (simp add: executeInstruction_def add.commute)
  from steps_trans [OF S1(1) this] step.hyps
  have "rx_steps F cfg config bc (int k, S) (Suc i - k) (int (Suc i), S2)" by (simp add: Suc_diff_le)
  moreover have "nr_r (nreg S2) ! r = nr_r (nreg S) ! r" if "\<forall>j. k \<le> j \<and> j < Suc i \<longrightarrow> \<not> modifies (bc ! j) r" for r
    using that S1(3) [of r] S2(3) step.hyps by (auto simp: keeps_def)
  ultimately show ?case using S2(2) by blast
qed

lemma branch_step:
  assumes "state_ok cfg S" and "ibc_dst (bc ! i) = PtrR c" and "c < 8" and "ibc_type (bc ! i) = CBRANCH"
    and "i < ProgramSize cfg" and "sint (ibc_target (bc ! i)) = int k - 1"
    and "x = nr_r (nreg S) ! c + ibc_imm (bc ! i)"
  shows "\<exists>S'. rx_steps F cfg config bc (int i, S) 1
      (if x AND ucast (ibc_memMask (bc ! i)) = 0 then int k else int (Suc i), S') \<and>
    state_ok cfg S' \<and> nr_r (nreg S') ! c = x"
proof -
  define S' where "S' = S\<lparr>nreg := (nreg S)\<lparr>nr_r := (nr_r (nreg S))[c := x]\<rparr>\<rparr>"
  have len: "c < length (nr_r (nreg S))" using assms(1,3) by (simp add: state_ok_def)
  have S': "state_ok cfg S'" "nr_r (nreg S') ! c = x"
    using assms(1) len by (simp_all add: S'_def state_ok_def)
  have "executeInstruction F config (bc ! i) (int i) S =
      Some (if x AND ucast (ibc_memMask (bc ! i)) = 0 then int k - 1 else int i, S')"
    using len assms(2,4,6,7) S'(2)
    by (simp add: executeInstruction_def exe_CBRANCH_def upd_int_def get_int_def put_int_def S'_def)
  then have "rx_steps F cfg config bc (int i, S) 1
      (if x AND ucast (ibc_memMask (bc ! i)) = 0 then int k else int (Suc i), S')"
    using steps_one [of "int i" cfg F config bc S "int k - 1" S'] steps_one [of "int i" cfg F config bc S "int i" S'] assms(5)
    by (cases "x AND ucast (ibc_memMask (bc ! i)) = 0") (simp_all add: add.commute)
  then show ?thesis using S' by blast
qed

text \<open>From a branch the run gets past it, after at most two more turns of the code it jumps over.\<close>

lemma branch_passes:
  assumes bc: "bytecode_ok cfg bc (ProgramSize cfg)" and S: "state_ok cfg S"
    and i: "i < ProgramSize cfg" "ibc_type (bc ! i) = CBRANCH"
  shows "\<exists>n S' k. k \<le> i \<and> (\<forall>j. k \<le> j \<and> j < i \<longrightarrow> ibc_type (bc ! j) \<noteq> CBRANCH) \<and>
    rx_steps F cfg config bc (int i, S) n (int (Suc i), S') \<and> state_ok cfg S' \<and> n \<le> 3 + 2 * (i - k)"
proof -
  have "branch_ok bc i" using bc i by (simp add: bytecode_ok_def)
  then obtain c b k where c: "c < 8" "ibc_dst (bc ! i) = PtrR c" "branch_imm b (bc ! i)" "k \<le> i"
      "sint (ibc_target (bc ! i)) = int k - 1"
      and body: "\<forall>j. k \<le> j \<and> j < i \<longrightarrow> \<not> modifies (bc ! j) c"
        "\<forall>j. k \<le> j \<and> j < i \<longrightarrow> ibc_type (bc ! j) \<noteq> CBRANCH"
    by (auto simp: branch_ok_def uses_def)
  define imm where "imm = ibc_imm (bc ! i)"
  define cond where "cond = (\<lambda>x :: u64. x AND ucast (ibc_memMask (bc ! i)) = 0)"
  let ?steps = "rx_steps F cfg config bc"
  have pass: "\<exists>S'. ?steps (int i, S) 1 (int (Suc i), S') \<and> state_ok cfg S'"
    if "state_ok cfg S" "\<not> cond (nr_r (nreg S) ! c + imm)" for S
    using branch_step [OF that(1) c(2,1) i(2,1) c(5) refl, of F config] that(2)
    unfolding cond_def imm_def by auto
  have jump: "\<exists>S'. ?steps (int i, S) (1 + (i - k)) (int i, S') \<and> state_ok cfg S' \<and>
      nr_r (nreg S') ! c = nr_r (nreg S) ! c + imm"
    if ok: "state_ok cfg S" "cond (nr_r (nreg S) ! c + imm)" for S
  proof -
    obtain S1 where S1: "?steps (int i, S) 1 (int k, S1)" "state_ok cfg S1" "nr_r (nreg S1) ! c = nr_r (nreg S) ! c + imm"
      using branch_step [OF ok(1) c(2,1) i(2,1) c(5) refl, of F config] ok(2)
      unfolding cond_def imm_def by auto
    obtain S2 where "?steps (int k, S1) (i - k) (int i, S2)" "state_ok cfg S2" "nr_r (nreg S2) ! c = nr_r (nreg S1) ! c"
      using straight_line [OF bc S1(2) c(4) _ body(2), of F config] i(1) body(1) by auto
    then show ?thesis using steps_trans [OF S1(1)] S1(3) by metis
  qed
  define x where "x = nr_r (nreg S) ! c"
  have thrice: "\<not> (cond (x + imm) \<and> cond (x + imm + imm) \<and> cond (x + imm + imm + imm))"
    using branch_thrice [OF c(3) refl] unfolding cond_def imm_def .
  have "\<exists>n S'. ?steps (int i, S) n (int (Suc i), S') \<and> state_ok cfg S' \<and> n \<le> 3 + 2 * (i - k)"
  proof (cases "cond (x + imm)")
    case False
    then show ?thesis using pass [OF S] unfolding x_def by fastforce
  next
    case True
    then obtain S1 where S1: "?steps (int i, S) (1 + (i - k)) (int i, S1)" "state_ok cfg S1" "nr_r (nreg S1) ! c = x + imm"
      using jump [OF S] unfolding x_def by blast
    show ?thesis
    proof (cases "cond (x + imm + imm)")
      case False
      then obtain S2 where "?steps (int i, S1) 1 (int (Suc i), S2)" "state_ok cfg S2"
        using pass [OF S1(2)] S1(3) by auto
      from steps_trans [OF S1(1) this(1)] this(2) show ?thesis
        by (intro exI [of _ "1 + (i - k) + 1"] exI [of _ S2]) auto
    next
      case snd: True
      then obtain S2 where S2: "?steps (int i, S1) (1 + (i - k)) (int i, S2)" "state_ok cfg S2"
          "nr_r (nreg S2) ! c = x + imm + imm"
        using jump [OF S1(2)] S1(3) by auto
      then obtain S3 where S3: "?steps (int i, S2) 1 (int (Suc i), S3)" "state_ok cfg S3"
        using pass [OF S2(2)] thrice True snd by auto
      from steps_trans [OF steps_trans [OF S1(1) S2(1)] S3(1)] S3(2) show ?thesis
        by (intro exI [of _ "1 + (i - k) + (1 + (i - k)) + 1"] exI [of _ S3]) auto
    qed
  qed
  then show ?thesis using c(4) body(2) by blast
qed

text \<open>One past the last branch before \<open>i\<close>.\<close>

primrec after_branch :: "InstructionByteCode list \<Rightarrow> nat \<Rightarrow> nat" where
  "after_branch bc 0 = 0"
| "after_branch bc (Suc i) = (if ibc_type (bc ! i) = CBRANCH then Suc i else after_branch bc i)"

lemma after_branch_bound: "after_branch bc i \<le> i"
  by (induction i) auto

lemma after_branch_le:
  "k \<le> i \<Longrightarrow> \<forall>j. k \<le> j \<and> j < i \<longrightarrow> ibc_type (bc ! j) \<noteq> CBRANCH \<Longrightarrow> after_branch bc i \<le> k"
proof (induction i)
  case 0
  then show ?case by simp
next
  case (Suc i)
  then show ?case
    by (cases "k = Suc i") (auto intro: Suc.IH le_SucI simp: after_branch_bound)
qed

lemma run_reaches:
  assumes bc: "bytecode_ok cfg bc (ProgramSize cfg)" and S: "state_ok cfg S"
  shows "i \<le> ProgramSize cfg \<Longrightarrow> \<exists>n S'. rx_steps F cfg config bc (0, S) n (int i, S') \<and> state_ok cfg S' \<and>
    n \<le> i + 2 * after_branch bc i"
proof (induction i)
  case 0
  show ?case using S by (auto intro: steps_refl)
next
  case (Suc i)
  then obtain n S1 where S1: "rx_steps F cfg config bc (0, S) n (int i, S1)" "state_ok cfg S1" "n \<le> i + 2 * after_branch bc i"
    by auto
  have i: "i < ProgramSize cfg" using Suc.prems by simp
  show ?case
  proof (cases "ibc_type (bc ! i) = CBRANCH")
    case True
    obtain m S2 k where k: "k \<le> i" "\<forall>j. k \<le> j \<and> j < i \<longrightarrow> ibc_type (bc ! j) \<noteq> CBRANCH"
        "rx_steps F cfg config bc (int i, S1) m (int (Suc i), S2)" "state_ok cfg S2" "m \<le> 3 + 2 * (i - k)"
      using branch_passes [OF bc S1(2) i True] by blast
    have "n + m \<le> Suc i + 2 * after_branch bc (Suc i)"
      using S1(3) k(1,5) after_branch_le [OF k(1,2)] True by simp
    then show ?thesis using steps_trans [OF S1(1) k(3)] k(4) by blast
  next
    case False
    obtain S2 where S2: "rx_steps F cfg config bc (int i, S1) (Suc i - i) (int (Suc i), S2)" "state_ok cfg S2"
      using straight_line [OF bc S1(2), of i "Suc i" F config] i False by (metis Suc_leI le_SucI le_antisym less_Suc_eq_le order_refl)
    have "n + (Suc i - i) \<le> Suc i + 2 * after_branch bc (Suc i)"
      using S1(3) False by simp
    then show ?thesis using steps_trans [OF S1(1) S2(1)] S2(2) by blast
  qed
qed

section \<open>Properties\<close>

text \<open>C1: Any program of random instructions compiles to bytecode that runs to its end: under every
  shipped configuration, for all registers, scratchpad contents, rounding modes and whatever the
  floating-point unit computes, the interpreter returns after at most three times \<open>ProgramSize\<close>
  instructions (each branch jumps at most twice before it falls through), and no instruction on
  the way reads or writes outside the register file or the scratchpad.\<close>

theorem executeBytecode_terminates:
  assumes "cfg \<in> set rx_configurations" and "cfg' = Apply_masks cfg"
    and "length bytecode = RANDOMX_PROGRAM_MAX_SIZE" and "state_ok cfg' S"
  shows "\<exists>bc n S'. compileProgram cfg' program bytecode = Some bc \<and>
    rx_steps F cfg' config bc (0, S) n (int (ProgramSize cfg'), S') \<and> n \<le> 3 * ProgramSize cfg' \<and>
    executeBytecode F cfg' config bc S = Some S' \<and> state_ok cfg' S'"
proof -
  have ok: "config_ok cfg'" using configurations_ok [OF assms(1)] assms(2) by simp
  obtain bc where bc: "compileProgram cfg' program bytecode = Some bc" "bytecode_ok cfg' bc (ProgramSize cfg')"
    using compileProgram_ok [OF ok assms(3)] by blast
  obtain n S' where run: "rx_steps F cfg' config bc (0, S) n (int (ProgramSize cfg'), S')" "state_ok cfg' S'"
      "n \<le> ProgramSize cfg' + 2 * after_branch bc (ProgramSize cfg')"
    using run_reaches [OF bc(2) assms(4) order_refl] by blast
  have "n \<le> 3 * ProgramSize cfg'" using run(3) after_branch_bound [of bc "ProgramSize cfg'"] by simp
  with bc(1) run(1,2) steps_end [OF run(1)] show ?thesis by blast
qed

text \<open>Instances for the witnesses.\<close>

definition zero_fpu :: fpu where
  "zero_fpu = \<lparr>fp_add = (\<lambda>_ _ _. 0), fp_sub = (\<lambda>_ _ _. 0), fp_mul = (\<lambda>_ _ _. 0), fp_div = (\<lambda>_ _ _. 0),
     fp_sqrt = (\<lambda>_ _. 0), fp_of_int32 = (\<lambda>_. 0)\<rparr>"

definition zero_config :: ProgramConfiguration where
  "zero_config = \<lparr>eMask = [0, 0], readReg0 = 0, readReg1 = 2, readReg2 = 4, readReg3 = 6\<rparr>"

definition blank_bytecode :: "InstructionByteCode list" where
  "blank_bytecode = replicate RANDOMX_PROGRAM_MAX_SIZE
     \<lparr>ibc_dst = PtrNull, ibc_src = PtrNull, ibc_imm = 0, ibc_type = NOP, ibc_target = 0, ibc_memMask = 0\<rparr>"

definition zero_state :: "nat \<Rightarrow> rx_state" where
  "zero_state n = \<lparr>nreg = \<lparr>nr_r = replicate 8 0, nr_f = replicate 4 (0, 0), nr_e = replicate 4 (0, 0),
     nr_a = replicate 4 (0, 0)\<rparr>, scratchpad = replicate n 0, rounding = 0\<rparr>"

definition branch_program :: "nat \<Rightarrow> Instruction list" where
  "branch_program n = replicate n \<lparr>i_opcode = 220, i_dst = 1, i_src = 2, i_mod = 0x30, i_imm32 = 0xFFFFFFFF\<rparr>"

lemma length_blank_bytecode: "length blank_bytecode = RANDOMX_PROGRAM_MAX_SIZE"
  by (simp add: blank_bytecode_def)

lemma zero_state_ok: "n = unat (ScratchpadL3_Size cfg) \<Longrightarrow> state_ok cfg (zero_state n)"
  by (simp add: state_ok_def zero_state_def)

theorem executeBytecode_terminates_witness:
  "\<exists>bc S'. compileProgram (Apply_masks RandomX_ConfigurationMonero) (branch_program 256) blank_bytecode = Some bc \<and>
    executeBytecode zero_fpu (Apply_masks RandomX_ConfigurationMonero) zero_config bc (zero_state 2097152) = Some S'"
proof -
  have "state_ok (Apply_masks RandomX_ConfigurationMonero) (zero_state 2097152)"
    by (rule zero_state_ok) (simp add: Apply_masks_def configuration_defs)
  from executeBytecode_terminates [OF _ refl length_blank_bytecode this, of "branch_program 256" zero_fpu zero_config]
  show ?thesis by (auto simp: rx_configurations_def)
qed

text \<open>C2: What the compiler emits: every pointer has the kind its instruction needs, every memory mask
  keeps an eight-byte access inside the scratchpad, and a branch goes back to just after the last instruction before
  it that changed its register or was a branch, or to the start when there is none.\<close>

theorem compileProgram_safe:
  assumes "cfg \<in> set rx_configurations" and "cfg' = Apply_masks cfg"
    and "length bytecode = RANDOMX_PROGRAM_MAX_SIZE"
  shows "\<exists>bc. compileProgram cfg' program bytecode = Some bc \<and>
    (\<forall>i < ProgramSize cfg'. wf_ibc cfg' (bc ! i) \<and> (ibc_type (bc ! i) = CBRANCH \<longrightarrow> branch_ok bc i))"
  using compileProgram_ok [OF configurations_ok [OF assms(1)] assms(3)] assms(2)
  by (auto simp: bytecode_ok_def)

theorem compileProgram_safe_witness:
  "\<exists>bc. compileProgram (Apply_masks RandomX_ConfigurationScala) (branch_program 64) blank_bytecode = Some bc"
  using compileProgram_safe [OF _ refl length_blank_bytecode, of RandomX_ConfigurationScala "branch_program 64"]
  by (auto simp: rx_configurations_def)

end
