(* ===== verification/RxAes.thy ===== *)
theory RxAes
  imports RxConfig
begin

text \<open>
  The software AES of RandomX (\<open>randomx/soft_aes.{h,cpp}\<close>) and the generators and the hash built on
  single AES rounds (\<open>randomx/aes_hash.cpp\<close>). The hardware round of \<open>softAes = 0\<close> is the processor's;
  the functions of \<open>aes_hash.cpp\<close> take the pair of round functions they are instantiated with.
\<close>

section \<open>Tables\<close>

text \<open>The loop of \<open>mul_gf2\<close>: \<open>for (i = b, j = c, k = 1; (k < 0x100) && j; k <<= 1)\<close>.\<close>

function mul_gf2_loop :: "u32 \<Rightarrow> u32 \<Rightarrow> u32 \<Rightarrow> u32 \<Rightarrow> u32" where
  "mul_gf2_loop s i j k =
    (if k < 0x100 \<and> j \<noteq> 0 \<and> k \<noteq> 0 then
       let (s, j) = (if j AND k \<noteq> 0 then (s XOR i, j XOR k) else (s, j));
           i = push_bit 1 i;
           i = (if i AND 0x100 \<noteq> 0 then i XOR 0x11B else i)
       in mul_gf2_loop s i j (push_bit 1 k)
     else s)"
  by pat_completeness auto
termination
proof (relation "measure (\<lambda>(s, i, j, k). 256 - unat k)")
  fix s i j k s' j' i' :: u32 and x y
  assume "k < 0x100 \<and> j \<noteq> 0 \<and> k \<noteq> 0"
  then have "unat k < 256" and "0 < unat k" by (simp_all add: word_less_nat_alt unat_gt_0)
  moreover from this have "unat (push_bit 1 k) = 2 * unat k"
    by (simp add: push_bit_eq_mult unat_word_ariths)
  ultimately show "((s', i', j', push_bit 1 k), (s, i, j, k)) \<in> measure (\<lambda>(s, i, j, k). 256 - unat k)"
    by simp
qed auto

declare mul_gf2_loop.simps [simp del]

definition mul_gf2 :: "u32 \<Rightarrow> u32 \<Rightarrow> u32" where
  "mul_gf2 b c = mul_gf2_loop 0 b c 1"

definition ROTL8 :: "u8 \<Rightarrow> nat \<Rightarrow> u8" where
  "ROTL8 x shift = push_bit shift x OR drop_bit (8 - shift) x"

text \<open>One turn of the loop that fills the S-box: \<open>p\<close> times 3, \<open>q\<close> divided by 3.\<close>

definition sbox_p :: "u8 \<Rightarrow> u8" where
  "sbox_p p = p XOR push_bit 1 p XOR (if p AND 0x80 \<noteq> 0 then 0x1B else 0)"

definition sbox_q :: "u8 \<Rightarrow> u8" where
  "sbox_q q =
    (let q = q XOR push_bit 1 q;
         q = q XOR push_bit 2 q;
         q = q XOR push_bit 4 q
     in q XOR (if q AND 0x80 \<noteq> 0 then 0x09 else 0))"

definition sbox_value :: "u8 \<Rightarrow> u8" where
  "sbox_value q = q XOR ROTL8 q 1 XOR ROTL8 q 2 XOR ROTL8 q 3 XOR ROTL8 q 4 XOR 0x63"

text \<open>\<open>do \<dots> while (p != 1)\<close>: a loop that does not end has no tables.\<close>

partial_function (option) sbox_loop :: "u8 \<Rightarrow> u8 \<Rightarrow> bytes \<Rightarrow> bytes \<Rightarrow> (bytes \<times> bytes) option" where
  "sbox_loop p q sbox sbox_reverse =
    (let p = sbox_p p;
         q = sbox_q q;
         sbox' = sbox[unat p := sbox_value q];
         sbox_reverse' = sbox_reverse[unat (sbox_value q) := p]
     in if p \<noteq> 1 then sbox_loop p q sbox' sbox_reverse' else Some (sbox', sbox_reverse'))"

definition saes_sboxes :: "(bytes \<times> bytes) option" where
  "saes_sboxes = map_option (\<lambda>(sbox, sbox_reverse). (sbox[0 := 0x63], sbox_reverse[0x63 := 0]))
     (sbox_loop 1 1 (replicate 256 0) (replicate 256 0))"

text \<open>The eight tables: rotations of the column of products (the union is little-endian).\<close>

definition lut_rot :: "u32 \<Rightarrow> u32" where
  "lut_rot w = push_bit 8 w OR drop_bit 24 w"

definition enc_entry :: "bytes \<Rightarrow> nat \<Rightarrow> u32" where
  "enc_entry sbox i =
    (let s = ucast (sbox ! i) :: u32
     in word_of_le [ucast (mul_gf2 s 2), ucast s, ucast s, ucast (mul_gf2 s 3)])"

definition dec_entry :: "bytes \<Rightarrow> nat \<Rightarrow> u32" where
  "dec_entry sbox_reverse i =
    (let s = ucast (sbox_reverse ! i) :: u32
     in word_of_le [ucast (mul_gf2 s 0xE), ucast (mul_gf2 s 0x9), ucast (mul_gf2 s 0xD), ucast (mul_gf2 s 0xB)])"

record saes_tables =
  lutEnc :: "u32 list list"
  lutDec :: "u32 list list"

definition SAESInitializer :: "saes_tables option" where
  "SAESInitializer = map_option (\<lambda>(sbox, sbox_reverse).
     \<lparr>lutEnc = map (\<lambda>r. map (\<lambda>i. (lut_rot ^^ r) (enc_entry sbox i)) [0..<256]) [0..<4],
      lutDec = map (\<lambda>r. map (\<lambda>i. (lut_rot ^^ r) (dec_entry sbox_reverse i)) [0..<256]) [0..<4]\<rparr>) saes_sboxes"

section \<open>Rounds\<close>

text \<open>A vector in memory: its sixteen bytes, lane after lane.\<close>

definition vec_bytes :: "vec_i128 \<Rightarrow> bytes" where
  "vec_bytes v = concat (map store32 v)"

definition rx_xor_vec_i128 :: "vec_i128 \<Rightarrow> vec_i128 \<Rightarrow> vec_i128" where
  "rx_xor_vec_i128 A B = [A ! 0 XOR B ! 0, A ! 1 XOR B ! 1, A ! 2 XOR B ! 2, A ! 3 XOR B ! 3]"

definition lut :: "u32 list list \<Rightarrow> nat \<Rightarrow> u8 \<Rightarrow> u32" where
  "lut t n x = t ! n ! unat x"

text \<open>\<open>softAes = 1\<close>: byte by byte.\<close>

definition aesenc_1 :: "saes_tables \<Rightarrow> vec_i128 \<Rightarrow> vec_i128 \<Rightarrow> vec_i128" where
  "aesenc_1 T inp key =
    (let s = vec_bytes inp;
         s0 = lut (lutEnc T) 0 (s ! 0);
         s1 = lut (lutEnc T) 0 (s ! 4);
         s2 = lut (lutEnc T) 0 (s ! 8);
         s3 = lut (lutEnc T) 0 (s ! 12);
         s0 = s0 XOR lut (lutEnc T) 1 (s ! 5);
         s1 = s1 XOR lut (lutEnc T) 1 (s ! 9);
         s2 = s2 XOR lut (lutEnc T) 1 (s ! 13);
         s3 = s3 XOR lut (lutEnc T) 1 (s ! 1);
         s0 = s0 XOR lut (lutEnc T) 2 (s ! 10);
         s1 = s1 XOR lut (lutEnc T) 2 (s ! 14);
         s2 = s2 XOR lut (lutEnc T) 2 (s ! 2);
         s3 = s3 XOR lut (lutEnc T) 2 (s ! 6);
         s0 = s0 XOR lut (lutEnc T) 3 (s ! 15);
         s1 = s1 XOR lut (lutEnc T) 3 (s ! 3);
         s2 = s2 XOR lut (lutEnc T) 3 (s ! 7);
         s3 = s3 XOR lut (lutEnc T) 3 (s ! 11)
     in rx_xor_vec_i128 (rx_set_int_vec_i128 s3 s2 s1 s0) key)"

definition aesdec_1 :: "saes_tables \<Rightarrow> vec_i128 \<Rightarrow> vec_i128 \<Rightarrow> vec_i128" where
  "aesdec_1 T inp key =
    (let s = vec_bytes inp;
         s0 = lut (lutDec T) 0 (s ! 0);
         s1 = lut (lutDec T) 0 (s ! 4);
         s2 = lut (lutDec T) 0 (s ! 8);
         s3 = lut (lutDec T) 0 (s ! 12);
         s0 = s0 XOR lut (lutDec T) 1 (s ! 13);
         s1 = s1 XOR lut (lutDec T) 1 (s ! 1);
         s2 = s2 XOR lut (lutDec T) 1 (s ! 5);
         s3 = s3 XOR lut (lutDec T) 1 (s ! 9);
         s0 = s0 XOR lut (lutDec T) 2 (s ! 10);
         s1 = s1 XOR lut (lutDec T) 2 (s ! 14);
         s2 = s2 XOR lut (lutDec T) 2 (s ! 2);
         s3 = s3 XOR lut (lutDec T) 2 (s ! 6);
         s0 = s0 XOR lut (lutDec T) 3 (s ! 7);
         s1 = s1 XOR lut (lutDec T) 3 (s ! 11);
         s2 = s2 XOR lut (lutDec T) 3 (s ! 15);
         s3 = s3 XOR lut (lutDec T) 3 (s ! 3)
     in rx_xor_vec_i128 (rx_set_int_vec_i128 s3 s2 s1 s0) key)"

text \<open>\<open>softAes = 2\<close>: from the lanes, by shifts and masks.\<close>

definition lut32 :: "u32 list list \<Rightarrow> nat \<Rightarrow> u32 \<Rightarrow> u32" where
  "lut32 t n x = t ! n ! unat x"

definition aesenc_2 :: "saes_tables \<Rightarrow> vec_i128 \<Rightarrow> vec_i128 \<Rightarrow> vec_i128" where
  "aesenc_2 T inp key =
    (let s0 = inp ! 3; s1 = inp ! 2; s2 = inp ! 1; s3 = inp ! 0;
         E = lut32 (lutEnc T);
         out = rx_set_int_vec_i128
           (E 0 (s0 AND 0xFF) XOR E 1 (drop_bit 8 s3 AND 0xFF) XOR E 2 (drop_bit 16 s2 AND 0xFF) XOR E 3 (drop_bit 24 s1))
           (E 0 (s1 AND 0xFF) XOR E 1 (drop_bit 8 s0 AND 0xFF) XOR E 2 (drop_bit 16 s3 AND 0xFF) XOR E 3 (drop_bit 24 s2))
           (E 0 (s2 AND 0xFF) XOR E 1 (drop_bit 8 s1 AND 0xFF) XOR E 2 (drop_bit 16 s0 AND 0xFF) XOR E 3 (drop_bit 24 s3))
           (E 0 (s3 AND 0xFF) XOR E 1 (drop_bit 8 s2 AND 0xFF) XOR E 2 (drop_bit 16 s1 AND 0xFF) XOR E 3 (drop_bit 24 s0))
     in rx_xor_vec_i128 out key)"

definition aesdec_2 :: "saes_tables \<Rightarrow> vec_i128 \<Rightarrow> vec_i128 \<Rightarrow> vec_i128" where
  "aesdec_2 T inp key =
    (let s0 = inp ! 3; s1 = inp ! 2; s2 = inp ! 1; s3 = inp ! 0;
         D = lut32 (lutDec T);
         out = rx_set_int_vec_i128
           (D 0 (s0 AND 0xFF) XOR D 1 (drop_bit 8 s1 AND 0xFF) XOR D 2 (drop_bit 16 s2 AND 0xFF) XOR D 3 (drop_bit 24 s3))
           (D 0 (s1 AND 0xFF) XOR D 1 (drop_bit 8 s2 AND 0xFF) XOR D 2 (drop_bit 16 s3 AND 0xFF) XOR D 3 (drop_bit 24 s0))
           (D 0 (s2 AND 0xFF) XOR D 1 (drop_bit 8 s3 AND 0xFF) XOR D 2 (drop_bit 16 s0 AND 0xFF) XOR D 3 (drop_bit 24 s1))
           (D 0 (s3 AND 0xFF) XOR D 1 (drop_bit 8 s0 AND 0xFF) XOR D 2 (drop_bit 16 s1 AND 0xFF) XOR D 3 (drop_bit 24 s2))
     in rx_xor_vec_i128 out key)"

section \<open>aes_hash.cpp\<close>

text \<open>The rounds a template is instantiated with, and the four lanes of 16 bytes of a 64-byte block.\<close>

record aes_rounds =
  aesenc :: "vec_i128 \<Rightarrow> vec_i128 \<Rightarrow> vec_i128"
  aesdec :: "vec_i128 \<Rightarrow> vec_i128 \<Rightarrow> vec_i128"

type_synonym lanes = "vec_i128 \<times> vec_i128 \<times> vec_i128 \<times> vec_i128"

definition rx_load_vec_i128 :: "bytes \<Rightarrow> vec_i128" where
  "rx_load_vec_i128 p = [load32 (sub 0 4 p), load32 (sub 4 4 p), load32 (sub 8 4 p), load32 (sub 12 4 p)]"

definition rx_store_vec_i128 :: "vec_i128 \<Rightarrow> bytes" where
  "rx_store_vec_i128 v = store32 (v ! 0) @ store32 (v ! 1) @ store32 (v ! 2) @ store32 (v ! 3)"

definition load_lanes :: "bytes \<Rightarrow> lanes" where
  "load_lanes p = (rx_load_vec_i128 (sub 0 16 p), rx_load_vec_i128 (sub 16 16 p),
     rx_load_vec_i128 (sub 32 16 p), rx_load_vec_i128 (sub 48 16 p))"

definition store_lanes :: "lanes \<Rightarrow> bytes" where
  "store_lanes st = (case st of (s0, s1, s2, s3) \<Rightarrow>
     rx_store_vec_i128 s0 @ rx_store_vec_i128 s1 @ rx_store_vec_i128 s2 @ rx_store_vec_i128 s3)"

definition AES_HASH_1R_STATE :: lanes where
  "AES_HASH_1R_STATE =
    (rx_set_int_vec_i128 0xD7983AAD 0xCC82DB47 0x9FA856DE 0x92B52C0D,
     rx_set_int_vec_i128 0xACE78057 0xF59E125A 0x15C7B798 0x338D996E,
     rx_set_int_vec_i128 0xE8A07CE4 0x5079506B 0xAE62C7D0 0x6A770017,
     rx_set_int_vec_i128 0x7E994948 0x79A10005 0x07AD828D 0x630A240C)"

definition AES_HASH_1R_XKEY0 :: vec_i128 where
  "AES_HASH_1R_XKEY0 = rx_set_int_vec_i128 0x06890201 0x90DC56BF 0x8B24949F 0xF6FA8389"

definition AES_HASH_1R_XKEY1 :: vec_i128 where
  "AES_HASH_1R_XKEY1 = rx_set_int_vec_i128 0xED18F99B 0xEE1043C6 0x51F4E03C 0x61B263D1"

text \<open>Lanes 0 and 2 encrypt, lanes 1 and 3 decrypt.\<close>

definition hash_round :: "aes_rounds \<Rightarrow> lanes \<Rightarrow> lanes \<Rightarrow> lanes" where
  "hash_round A st k = (case (st, k) of ((s0, s1, s2, s3), (in0, in1, in2, in3)) \<Rightarrow>
     (aesenc A s0 in0, aesdec A s1 in1, aesenc A s2 in2, aesdec A s3 in3))"

definition hash_xkeys :: "aes_rounds \<Rightarrow> lanes \<Rightarrow> lanes" where
  "hash_xkeys A st =
    (let x0 = AES_HASH_1R_XKEY0; x1 = AES_HASH_1R_XKEY1;
         st = hash_round A st (x0, x0, x0, x0)
     in hash_round A st (x1, x1, x1, x1))"

text \<open>\<open>while (inptr < inputEnd)\<close>, over the bytes that are left.\<close>

function hash_loop :: "aes_rounds \<Rightarrow> lanes \<Rightarrow> bytes \<Rightarrow> lanes" where
  "hash_loop A st inp =
    (if inp \<noteq> [] then hash_loop A (hash_round A st (load_lanes (take 64 inp))) (drop 64 inp) else st)"
  by pat_completeness auto
termination
  by (relation "measure (\<lambda>(A, st, inp). length inp)") auto

declare hash_loop.simps [simp del]

definition hashAes1Rx4 :: "aes_rounds \<Rightarrow> bytes \<Rightarrow> bytes" where
  "hashAes1Rx4 A inp = store_lanes (hash_xkeys A (hash_loop A AES_HASH_1R_STATE inp))"

definition AES_GEN_1R_KEY :: lanes where
  "AES_GEN_1R_KEY =
    (rx_set_int_vec_i128 0xB4F44917 0xDBB5552B 0x62716609 0x6DACA553,
     rx_set_int_vec_i128 0x0DA1DC4E 0x1725D378 0x846A710D 0x6D7CAF07,
     rx_set_int_vec_i128 0x3E20E345 0xF4C0794F 0x9F947EC6 0x3F1262F1,
     rx_set_int_vec_i128 0x49169154 0x16314C88 0xB1BA317C 0x6AEF8135)"

text \<open>In the generators lanes 0 and 2 decrypt, lanes 1 and 3 encrypt.\<close>

definition fill_round :: "aes_rounds \<Rightarrow> lanes \<Rightarrow> lanes \<Rightarrow> lanes" where
  "fill_round A st k = (case (st, k) of ((s0, s1, s2, s3), (key0, key1, key2, key3)) \<Rightarrow>
     (aesdec A s0 key0, aesenc A s1 key1, aesdec A s2 key2, aesenc A s3 key3))"

text \<open>\<open>n\<close> turns of \<open>while (outptr < outputEnd)\<close>: the final state and the output.\<close>

primrec fill_loop :: "(lanes \<Rightarrow> lanes) \<Rightarrow> nat \<Rightarrow> lanes \<Rightarrow> lanes \<times> bytes" where
  "fill_loop f 0 st = (st, [])"
| "fill_loop f (Suc n) st = (let st = f st; (st', out) = fill_loop f n st in (st', store_lanes st @ out))"

text \<open>The state written back, and the buffer.\<close>

definition fillAes1Rx4 :: "aes_rounds \<Rightarrow> bytes \<Rightarrow> nat \<Rightarrow> bytes \<times> bytes" where
  "fillAes1Rx4 A state outputSize =
    (let (st, out) = fill_loop (\<lambda>st. fill_round A st AES_GEN_1R_KEY) ((outputSize + 63) div 64) (load_lanes state)
     in (store_lanes st, out))"

definition fill4_round :: "aes_rounds \<Rightarrow> vec_i128 list \<Rightarrow> lanes \<Rightarrow> lanes" where
  "fill4_round A key st =
    (let st = fill_round A st (key ! 0, key ! 0, key ! 4, key ! 4);
         st = fill_round A st (key ! 1, key ! 1, key ! 5, key ! 5);
         st = fill_round A st (key ! 2, key ! 2, key ! 6, key ! 6)
     in fill_round A st (key ! 3, key ! 3, key ! 7, key ! 7))"

definition fillAes4Rx4 :: "RandomX_Configuration \<Rightarrow> aes_rounds \<Rightarrow> bytes \<Rightarrow> nat \<Rightarrow> bytes" where
  "fillAes4Rx4 cfg A state outputSize =
     snd (fill_loop (fill4_round A (fillAes4Rx4_Key cfg)) ((outputSize + 63) div 64) (load_lanes state))"

subsection \<open>Hashing and filling in one pass\<close>

text \<open>
  The state of the loop: the scratchpad, the byte offset of \<open>scratchpadPtr\<close> and the two sets of
  lanes. \<open>HASH_STATE(k)\<close> and \<open>FILL_STATE(k)\<close> work on the block \<open>k\<close> after the pointer.
\<close>

record hashfill =
  hf_pad :: bytes
  hf_ptr :: nat
  hf_hash :: lanes
  hf_fill :: lanes

definition HASH_STATE :: "aes_rounds \<Rightarrow> nat \<Rightarrow> hashfill \<Rightarrow> hashfill" where
  "HASH_STATE A k s = s\<lparr>hf_hash := hash_round A (hf_hash s) (load_lanes (sub (hf_ptr s + 64 * k) 64 (hf_pad s)))\<rparr>"

definition FILL_STATE :: "aes_rounds \<Rightarrow> nat \<Rightarrow> hashfill \<Rightarrow> hashfill" where
  "FILL_STATE A k s =
    (let st = fill_round A (hf_fill s) AES_GEN_1R_KEY
     in s\<lparr>hf_fill := st, hf_pad := blit (hf_pad s) (hf_ptr s + 64 * k) (store_lanes st)\<rparr>)"

text \<open>One turn of the loop, as the parameters \<open>softAes\<close> and \<open>unroll\<close> select it.\<close>

definition hf_turn :: "nat \<Rightarrow> nat \<Rightarrow> aes_rounds \<Rightarrow> hashfill \<Rightarrow> hashfill" where
  "hf_turn softAes unroll A s =
    (if softAes = 0 then
       let s = HASH_STATE A 0 s; s = HASH_STATE A 1 s;
           s = FILL_STATE A 0 s; s = FILL_STATE A 1 s
       in s\<lparr>hf_ptr := hf_ptr s + 128\<rparr>
     else if unroll = 4 then
       let s = HASH_STATE A 0 s; s = FILL_STATE A 0 s;
           s = HASH_STATE A 1 s; s = FILL_STATE A 1 s;
           s = HASH_STATE A 2 s; s = FILL_STATE A 2 s;
           s = HASH_STATE A 3 s; s = FILL_STATE A 3 s
       in s\<lparr>hf_ptr := hf_ptr s + 64 * 4\<rparr>
     else if unroll = 2 then
       let s = HASH_STATE A 0 s; s = FILL_STATE A 0 s;
           s = HASH_STATE A 1 s; s = FILL_STATE A 1 s
       in s\<lparr>hf_ptr := hf_ptr s + 64 * 2\<rparr>
     else
       let s = HASH_STATE A 0 s; s = FILL_STATE A 0 s
       in s\<lparr>hf_ptr := hf_ptr s + 64\<rparr>)"

lemma hf_turn_ptr: "hf_ptr s < hf_ptr (hf_turn softAes unroll A s)"
  by (simp add: hf_turn_def HASH_STATE_def FILL_STATE_def Let_def)

text \<open>\<open>while (scratchpadPtr < scratchpadEnd)\<close>; the end may lie before the pointer.\<close>

function hf_loop :: "nat \<Rightarrow> nat \<Rightarrow> aes_rounds \<Rightarrow> int \<Rightarrow> hashfill \<Rightarrow> hashfill" where
  "hf_loop softAes unroll A stop s =
    (if int (hf_ptr s) < stop then hf_loop softAes unroll A stop (hf_turn softAes unroll A s) else s)"
  by pat_completeness auto
termination
  by (relation "measure (\<lambda>(softAes, unroll, A, stop, s). nat (stop - int (hf_ptr s)))")
    (auto simp: hf_turn_ptr)

declare hf_loop.simps [simp del]

definition PREFETCH_DISTANCE :: nat where
  "PREFETCH_DISTANCE = 7168"

text \<open>The new scratchpad, the digest and the fill state written back. The loop runs twice: up to the
  prefetch distance before the end, and to the end.\<close>

definition hashAndFillAes1Rx4 :: "nat \<Rightarrow> nat \<Rightarrow> aes_rounds \<Rightarrow> bytes \<Rightarrow> bytes \<Rightarrow> bytes \<times> bytes \<times> bytes" where
  "hashAndFillAes1Rx4 softAes unroll A scratchpad fill_state =
    (let s = \<lparr>hf_pad = scratchpad, hf_ptr = 0, hf_hash = AES_HASH_1R_STATE, hf_fill = load_lanes fill_state\<rparr>;
         scratchpadEnd = int (length scratchpad) - int PREFETCH_DISTANCE;
         s = hf_loop softAes unroll A scratchpadEnd s;
         scratchpadEnd = scratchpadEnd + int PREFETCH_DISTANCE;
         s = hf_loop softAes unroll A scratchpadEnd s
     in (hf_pad s, store_lanes (hash_xkeys A (hf_hash s)), store_lanes (hf_fill s)))"

section \<open>The one-pass routine is the two passes\<close>

lemma length_rx_store [simp]: "length (rx_store_vec_i128 v) = 16"
  by (simp add: rx_store_vec_i128_def)

lemma length_store_lanes [simp]: "length (store_lanes st) = 64"
  by (cases st) (simp add: store_lanes_def)

lemma fill_loop_snoc:
  "fill_loop f (Suc n) st =
    (f (fst (fill_loop f n st)), snd (fill_loop f n st) @ store_lanes (f (fst (fill_loop f n st))))"
proof (induction n arbitrary: st)
  case (Suc n)
  show ?case
    using Suc.IH [of "f st"] by (simp add: Let_def split_def)
qed (simp add: Let_def)

lemma length_fill_loop [simp]: "length (snd (fill_loop f n st)) = 64 * n"
  by (induction n) (simp_all add: fill_loop_snoc del: fill_loop.simps(2))

lemma hash_loop_Nil [simp]: "hash_loop A st [] = st"
  by (simp add: hash_loop.simps)

lemma hash_loop_block:
  "length b = 64 \<Longrightarrow> hash_loop A st (b @ xs) = hash_loop A (hash_round A st (load_lanes b)) xs"
  by (subst hash_loop.simps) auto

lemma hash_loop_append:
  "length xs = 64 * n \<Longrightarrow> hash_loop A st (xs @ ys) = hash_loop A (hash_loop A st xs) ys"
proof (induction n arbitrary: st xs)
  case (Suc n)
  define b xs' where "b = take 64 xs" and "xs' = drop 64 xs"
  then have xs: "xs = b @ xs'" and len: "length b = 64" "length xs' = 64 * n"
    using Suc.prems by auto
  show ?case
    unfolding xs by (simp add: hash_loop_block [OF len(1)] Suc.IH [OF len(2)])
qed simp

text \<open>The state after \<open>n\<close> blocks of a scratchpad.\<close>

definition hf_at :: "aes_rounds \<Rightarrow> bytes \<Rightarrow> lanes \<Rightarrow> nat \<Rightarrow> hashfill" where
  "hf_at A pad st n =
    (let (st', out) = fill_loop (\<lambda>st. fill_round A st AES_GEN_1R_KEY) n st
     in \<lparr>hf_pad = out @ drop (64 * n) pad, hf_ptr = 64 * n,
         hf_hash = hash_loop A AES_HASH_1R_STATE (take (64 * n) pad), hf_fill = st'\<rparr>)"

lemma sub_blit_after [buf_simps]:
  "off + length src \<le> length dst \<Longrightarrow> off + length src \<le> i \<Longrightarrow> sub i n (blit dst off src) = sub i n dst"
  by (simp add: sub_def blit_def)

lemma hf_step_at:
  assumes "64 * Suc n \<le> length pad"
  shows "FILL_STATE A 0 (HASH_STATE A 0 (hf_at A pad st n))\<lparr>hf_ptr := 64 * Suc n\<rparr> = hf_at A pad st (Suc n)"
proof -
  let ?f = "\<lambda>st. fill_round A st AES_GEN_1R_KEY"
  have "take (64 * Suc n) pad = take (64 * n) pad @ sub (64 * n) 64 pad"
    by (simp add: sub_def take_add [symmetric] add.commute)
  moreover have "hash_loop A AES_HASH_1R_STATE (take (64 * n) pad @ sub (64 * n) 64 pad) =
      hash_round A (hash_loop A AES_HASH_1R_STATE (take (64 * n) pad)) (load_lanes (sub (64 * n) 64 pad))"
    using hash_loop_append [of "take (64 * n) pad" n A AES_HASH_1R_STATE "sub (64 * n) 64 pad"]
      hash_loop_block [of "sub (64 * n) 64 pad" A "hash_loop A AES_HASH_1R_STATE (take (64 * n) pad)" "[]"] assms
    by simp
  ultimately show ?thesis
    using assms unfolding hf_at_def fill_loop_snoc
    by (simp add: HASH_STATE_def FILL_STATE_def Let_def split_def blit_def sub_def)
qed

text \<open>Working on the block \<open>k\<close> after the pointer is working at the pointer moved by \<open>k\<close> blocks.\<close>

lemma HASH_FILL_shift:
  "HASH_STATE A k s = HASH_STATE A 0 (s\<lparr>hf_ptr := hf_ptr s + 64 * k\<rparr>)\<lparr>hf_ptr := hf_ptr s\<rparr>"
  "FILL_STATE A k s = FILL_STATE A 0 (s\<lparr>hf_ptr := hf_ptr s + 64 * k\<rparr>)\<lparr>hf_ptr := hf_ptr s\<rparr>"
  by (simp_all add: HASH_STATE_def FILL_STATE_def Let_def)

lemma hf_block_at:
  assumes "64 * Suc (n + k) \<le> length pad"
  shows "FILL_STATE A k (HASH_STATE A k (hf_at A pad st (n + k)\<lparr>hf_ptr := 64 * n\<rparr>)) =
    hf_at A pad st (Suc (n + k))\<lparr>hf_ptr := 64 * n\<rparr>"
proof -
  have eq: "FILL_STATE A k (HASH_STATE A k (s\<lparr>hf_ptr := 64 * n\<rparr>)) =
      (FILL_STATE A 0 (HASH_STATE A 0 s)\<lparr>hf_ptr := 64 * Suc (n + k)\<rparr>)\<lparr>hf_ptr := 64 * n\<rparr>"
    if "hf_ptr s = 64 * (n + k)" for s
    using that by (simp add: HASH_STATE_def FILL_STATE_def Let_def algebra_simps)
  have "hf_ptr (hf_at A pad st (n + k)) = 64 * (n + k)"
    by (simp add: hf_at_def split_def Let_def)
  from eq [OF this] show ?thesis
    unfolding hf_step_at [OF assms] .
qed

text \<open>Hashing the second block before filling the first changes nothing: the blocks are disjoint.\<close>

lemma hf_swap:
  assumes "hf_ptr s + 128 \<le> length (hf_pad s)"
  shows "FILL_STATE A 0 (HASH_STATE A 1 s) = HASH_STATE A 1 (FILL_STATE A 0 s)"
  using assms by (simp add: HASH_STATE_def FILL_STATE_def Let_def buf_simps)

definition hf_blocks :: "nat \<Rightarrow> nat \<Rightarrow> nat" where
  "hf_blocks softAes unroll = (if softAes = 0 then 2 else if unroll = 4 then 4 else if unroll = 2 then 2 else 1)"

lemma hf_at_sel [simp]:
  "hf_ptr (hf_at A pad st n) = 64 * n"
  "64 * n \<le> length pad \<Longrightarrow> length (hf_pad (hf_at A pad st n)) = length pad"
  by (simp_all add: hf_at_def split_def Let_def)

lemma hf_at_ptr_id: "hf_at A pad st n = hf_at A pad st n\<lparr>hf_ptr := 64 * n\<rparr>"
  by (simp add: hf_at_def split_def Let_def)

lemma hf_ptr_STATE [simp]:
  "hf_ptr (HASH_STATE A k s) = hf_ptr s" "hf_ptr (FILL_STATE A k s) = hf_ptr s"
  by (simp_all add: HASH_STATE_def FILL_STATE_def Let_def)

lemma length_pad_STATE [simp]:
  "length (hf_pad (HASH_STATE A k s)) = length (hf_pad s)"
  by (simp add: HASH_STATE_def)

lemma hf_turn_at:
  assumes "64 * (n + hf_blocks softAes unroll) \<le> length pad"
  shows "hf_turn softAes unroll A (hf_at A pad st n) = hf_at A pad st (n + hf_blocks softAes unroll)"
proof -
  let ?s = "\<lambda>m. hf_at A pad st m\<lparr>hf_ptr := 64 * n\<rparr>"
  have b: "FILL_STATE A k (HASH_STATE A k (?s (n + k))) = ?s (n + j)"
    if "k < hf_blocks softAes unroll" and "j = k + 1" for k j
    using hf_block_at [of n k pad A st] that assms by (simp add: algebra_simps)
  have fin: "hf_at A pad st m\<lparr>hf_ptr := 64 * m\<rparr> = hf_at A pad st m" for m
    by (simp flip: hf_at_ptr_id)
  have r1: "FILL_STATE A 0 (HASH_STATE A 0 (hf_at A pad st n)) = ?s (n + 1)"
    using b [of 0 1] fin [of n] by (simp add: hf_blocks_def)
  have r2: "FILL_STATE A 1 (HASH_STATE A 1 (?s (n + 1))) = ?s (n + 2)" if "2 \<le> hf_blocks softAes unroll"
    using that by (intro b) simp_all
  have r3: "FILL_STATE A 2 (HASH_STATE A 2 (?s (n + 2))) = ?s (n + 3)" if "4 \<le> hf_blocks softAes unroll"
    using that by (intro b) simp_all
  have r4: "FILL_STATE A 3 (HASH_STATE A 3 (?s (n + 3))) = ?s (n + 4)" if "4 \<le> hf_blocks softAes unroll"
    using that by (intro b) simp_all
  have upd: "?s m\<lparr>hf_ptr := hf_ptr (?s m) + 64 * (m - n)\<rparr> = hf_at A pad st m" if "n \<le> m" for m
    using that fin [of m] by (simp add: algebra_simps)
  show ?thesis
  proof (cases "softAes = 0")
    case True
    then have c: "hf_blocks softAes unroll = 2" by (simp add: hf_blocks_def)
    have "hf_ptr (HASH_STATE A 0 (hf_at A pad st n)) + 128 \<le> length (hf_pad (HASH_STATE A 0 (hf_at A pad st n)))"
      using assms c by simp
    note sw = hf_swap [OF this, of A]
    have "hf_turn softAes unroll A (hf_at A pad st n) = ?s (n + 2)\<lparr>hf_ptr := hf_ptr (?s (n + 2)) + 128\<rparr>"
      unfolding hf_turn_def Let_def sw r1 r2 [unfolded c, OF order_refl] if_P [OF True] ..
    with c upd [of "n + 2"] show ?thesis by simp
  next
    case False
    consider "unroll = 4" | "unroll \<noteq> 4" "unroll = 2" | "unroll \<noteq> 4" "unroll \<noteq> 2" by blast
    then show ?thesis
    proof cases
      case 1
      then have c: "hf_blocks softAes unroll = 4" using False by (simp add: hf_blocks_def)
      have "2 \<le> (4 :: nat)" by simp
      note r2' = r2 [unfolded c, OF this]
      have "hf_turn softAes unroll A (hf_at A pad st n) = ?s (n + 4)\<lparr>hf_ptr := hf_ptr (?s (n + 4)) + 64 * 4\<rparr>"
        unfolding hf_turn_def Let_def r1 r2' r3 [unfolded c, OF order_refl]
          r4 [unfolded c, OF order_refl] if_not_P [OF False] if_P [OF 1] ..
      with c upd [of "n + 4"] show ?thesis by simp
    next
      case 2
      then have c: "hf_blocks softAes unroll = 2" using False by (simp add: hf_blocks_def)
      have "hf_turn softAes unroll A (hf_at A pad st n) = ?s (n + 2)\<lparr>hf_ptr := hf_ptr (?s (n + 2)) + 64 * 2\<rparr>"
        unfolding hf_turn_def Let_def r1 r2 [unfolded c, OF order_refl] if_not_P [OF False] if_not_P [OF 2(1)] if_P [OF 2(2)] ..
      with c upd [of "n + 2"] show ?thesis by simp
    next
      case 3
      then have c: "hf_blocks softAes unroll = 1" using False by (simp add: hf_blocks_def)
      have "hf_turn softAes unroll A (hf_at A pad st n) = ?s (n + 1)\<lparr>hf_ptr := hf_ptr (?s (n + 1)) + 64\<rparr>"
        unfolding hf_turn_def Let_def r1 if_not_P [OF False] if_not_P [OF 3(1)] if_not_P [OF 3(2)] ..
      with c upd [of "n + 1"] show ?thesis by simp
    qed
  qed
qed

lemma hf_loop_at:
  assumes "64 * hf_blocks softAes unroll * k = length pad" and "stop \<le> int (length pad)"
    and "m \<le> k"
  obtains m' where "m \<le> m'" "m' \<le> k" "stop \<le> int (64 * (hf_blocks softAes unroll * m'))"
    "hf_loop softAes unroll A stop (hf_at A pad st (hf_blocks softAes unroll * m)) =
      hf_at A pad st (hf_blocks softAes unroll * m')"
  using assms(3)
proof (induction "k - m" arbitrary: m thesis rule: less_induct)
  case less
  let ?b = "hf_blocks softAes unroll"
  show ?case
  proof (cases "int (64 * (?b * m)) < stop")
    case True
    have "int (64 * (?b * k)) = int (length pad)"
      unfolding assms(1) [symmetric] by (simp add: mult.assoc)
    with True have "m < k"
      using assms(2) less.prems(2) by (cases "m = k") auto
    then have "?b * (m + 1) \<le> ?b * k" by (intro mult_le_mono2) simp
    then have "64 * (?b * m + ?b) \<le> length pad"
      using assms(1) by (simp add: algebra_simps)
    note t = hf_turn_at [OF this, of A st]
    from \<open>m < k\<close> obtain m' where m': "Suc m \<le> m'" "m' \<le> k" "stop \<le> int (64 * (?b * m'))"
      "hf_loop softAes unroll A stop (hf_at A pad st (?b * Suc m)) = hf_at A pad st (?b * m')"
      using less.hyps [of "Suc m"] by (auto simp: diff_less_mono2)
    then show ?thesis
      using less.prems(1) [of m'] True t hf_loop.simps [of softAes unroll A stop "hf_at A pad st (?b * m)"]
      by (simp add: add.commute)
  next
    case False
    then show ?thesis
      using less.prems(1) [of m] less.prems(2)
        hf_loop.simps [of softAes unroll A stop "hf_at A pad st (?b * m)"] by simp
  qed
qed

lemma hashAndFill_passes:
  assumes "64 * hf_blocks softAes unroll dvd length scratchpad"
  shows "hashAndFillAes1Rx4 softAes unroll A scratchpad state =
    (snd (fillAes1Rx4 A state (length scratchpad)), hashAes1Rx4 A scratchpad,
     fst (fillAes1Rx4 A state (length scratchpad)))"
proof -
  let ?b = "hf_blocks softAes unroll" and ?at = "hf_at A scratchpad (load_lanes state)"
  have b: "0 < ?b" by (simp add: hf_blocks_def)
  obtain k where k: "64 * ?b * k = length scratchpad"
    using assms unfolding dvd_def by metis
  have start: "\<lparr>hf_pad = scratchpad, hf_ptr = 0, hf_hash = AES_HASH_1R_STATE, hf_fill = load_lanes state\<rparr> = ?at (?b * 0)"
    by (simp add: hf_at_def)
  obtain m where m: "m \<le> k"
    "hf_loop softAes unroll A (int (length scratchpad) - int PREFETCH_DISTANCE) (?at (?b * 0)) = ?at (?b * m)"
    by (rule hf_loop_at [OF k, of "int (length scratchpad) - int PREFETCH_DISTANCE" 0 A "load_lanes state"]) auto
  obtain m' where m': "m' \<le> k" "int (length scratchpad) \<le> int (64 * (?b * m'))"
    "hf_loop softAes unroll A (int (length scratchpad)) (?at (?b * m)) = ?at (?b * m')"
    by (rule hf_loop_at [OF k, of "int (length scratchpad)" m A "load_lanes state"]) (use m(1) in auto)
  then have "64 * (?b * k) \<le> 64 * (?b * m')"
    using k by (simp only: of_nat_le_iff mult.assoc)
  with b m'(1) have "m' = k" by simp
  moreover have "64 * (?b * k) = length scratchpad"
    using k by (simp add: mult.assoc)
  moreover from this have "(length scratchpad + 63) div 64 = ?b * k" by simp
  ultimately show ?thesis
    using m(2) m'(3) unfolding hashAndFillAes1Rx4_def start
    by (simp add: Let_def hashAes1Rx4_def fillAes1Rx4_def split_def) (simp add: hf_at_def split_def Let_def)
qed

text \<open>
  C34: For a scratchpad that is a whole number of turns, \<open>hashAndFillAes1Rx4\<close> returns in one pass what
  the two passes do: the digest \<open>hashAes1Rx4\<close> of the old scratchpad, and the scratchpad and the state
  \<open>fillAes1Rx4\<close> generates, for every choice of \<open>softAes\<close> and \<open>unroll\<close>, whatever the rounds.
\<close>

theorem hashAndFill_correct:
  assumes "64 * hf_blocks softAes unroll dvd length scratchpad"
  shows "hashAndFillAes1Rx4 softAes unroll A scratchpad state =
    (snd (fillAes1Rx4 A state (length scratchpad)), hashAes1Rx4 A scratchpad,
     fst (fillAes1Rx4 A state (length scratchpad)))"
  by (rule hashAndFill_passes [OF assms])

theorem hashAndFill_correct_witness:
  "64 * hf_blocks 2 4 dvd length (replicate 256 (7 :: u8)) \<and>
   hashAndFillAes1Rx4 2 4 \<lparr>aesenc = rx_xor_vec_i128, aesdec = rx_xor_vec_i128\<rparr> (replicate 256 7) [] =
    (snd (fillAes1Rx4 \<lparr>aesenc = rx_xor_vec_i128, aesdec = rx_xor_vec_i128\<rparr> [] (length (replicate 256 (7 :: u8)))),
     hashAes1Rx4 \<lparr>aesenc = rx_xor_vec_i128, aesdec = rx_xor_vec_i128\<rparr> (replicate 256 7),
     fst (fillAes1Rx4 \<lparr>aesenc = rx_xor_vec_i128, aesdec = rx_xor_vec_i128\<rparr> [] (length (replicate 256 (7 :: u8)))))"
proof (rule conjI)
  show *: "64 * hf_blocks 2 4 dvd length (replicate 256 (7 :: u8))"
    by (simp add: hf_blocks_def)
  show "hashAndFillAes1Rx4 2 4 \<lparr>aesenc = rx_xor_vec_i128, aesdec = rx_xor_vec_i128\<rparr> (replicate 256 7) [] =
    (snd (fillAes1Rx4 \<lparr>aesenc = rx_xor_vec_i128, aesdec = rx_xor_vec_i128\<rparr> [] (length (replicate 256 (7 :: u8)))),
     hashAes1Rx4 \<lparr>aesenc = rx_xor_vec_i128, aesdec = rx_xor_vec_i128\<rparr> (replicate 256 7),
     fst (fillAes1Rx4 \<lparr>aesenc = rx_xor_vec_i128, aesdec = rx_xor_vec_i128\<rparr> [] (length (replicate 256 (7 :: u8)))))"
    by (rule hashAndFill_correct [OF *])
qed

end
