(* ===== verification/RxAesTables.thy ===== *)
theory RxAesTables
  imports RxAes
begin

text \<open>
  The tables of the software AES against FIPS 197: the loop that fills the S-boxes ends and leaves the
  S-box and its inverse, \<open>mul_gf2\<close> multiplies in the field, and a round by table lookups is the
  composition of the four transformations of the standard.
\<close>

section \<open>The S-boxes\<close>

text \<open>The S-box of FIPS 197 and its inverse, row by row.\<close>

definition aes_sbox_rows :: "bytes list" where
  "aes_sbox_rows =
   [[0x63, 0x7C, 0x77, 0x7B, 0xF2, 0x6B, 0x6F, 0xC5, 0x30, 0x01, 0x67, 0x2B, 0xFE, 0xD7, 0xAB, 0x76],
    [0xCA, 0x82, 0xC9, 0x7D, 0xFA, 0x59, 0x47, 0xF0, 0xAD, 0xD4, 0xA2, 0xAF, 0x9C, 0xA4, 0x72, 0xC0],
    [0xB7, 0xFD, 0x93, 0x26, 0x36, 0x3F, 0xF7, 0xCC, 0x34, 0xA5, 0xE5, 0xF1, 0x71, 0xD8, 0x31, 0x15],
    [0x04, 0xC7, 0x23, 0xC3, 0x18, 0x96, 0x05, 0x9A, 0x07, 0x12, 0x80, 0xE2, 0xEB, 0x27, 0xB2, 0x75],
    [0x09, 0x83, 0x2C, 0x1A, 0x1B, 0x6E, 0x5A, 0xA0, 0x52, 0x3B, 0xD6, 0xB3, 0x29, 0xE3, 0x2F, 0x84],
    [0x53, 0xD1, 0x00, 0xED, 0x20, 0xFC, 0xB1, 0x5B, 0x6A, 0xCB, 0xBE, 0x39, 0x4A, 0x4C, 0x58, 0xCF],
    [0xD0, 0xEF, 0xAA, 0xFB, 0x43, 0x4D, 0x33, 0x85, 0x45, 0xF9, 0x02, 0x7F, 0x50, 0x3C, 0x9F, 0xA8],
    [0x51, 0xA3, 0x40, 0x8F, 0x92, 0x9D, 0x38, 0xF5, 0xBC, 0xB6, 0xDA, 0x21, 0x10, 0xFF, 0xF3, 0xD2],
    [0xCD, 0x0C, 0x13, 0xEC, 0x5F, 0x97, 0x44, 0x17, 0xC4, 0xA7, 0x7E, 0x3D, 0x64, 0x5D, 0x19, 0x73],
    [0x60, 0x81, 0x4F, 0xDC, 0x22, 0x2A, 0x90, 0x88, 0x46, 0xEE, 0xB8, 0x14, 0xDE, 0x5E, 0x0B, 0xDB],
    [0xE0, 0x32, 0x3A, 0x0A, 0x49, 0x06, 0x24, 0x5C, 0xC2, 0xD3, 0xAC, 0x62, 0x91, 0x95, 0xE4, 0x79],
    [0xE7, 0xC8, 0x37, 0x6D, 0x8D, 0xD5, 0x4E, 0xA9, 0x6C, 0x56, 0xF4, 0xEA, 0x65, 0x7A, 0xAE, 0x08],
    [0xBA, 0x78, 0x25, 0x2E, 0x1C, 0xA6, 0xB4, 0xC6, 0xE8, 0xDD, 0x74, 0x1F, 0x4B, 0xBD, 0x8B, 0x8A],
    [0x70, 0x3E, 0xB5, 0x66, 0x48, 0x03, 0xF6, 0x0E, 0x61, 0x35, 0x57, 0xB9, 0x86, 0xC1, 0x1D, 0x9E],
    [0xE1, 0xF8, 0x98, 0x11, 0x69, 0xD9, 0x8E, 0x94, 0x9B, 0x1E, 0x87, 0xE9, 0xCE, 0x55, 0x28, 0xDF],
    [0x8C, 0xA1, 0x89, 0x0D, 0xBF, 0xE6, 0x42, 0x68, 0x41, 0x99, 0x2D, 0x0F, 0xB0, 0x54, 0xBB, 0x16]]"

definition aes_inv_sbox_rows :: "bytes list" where
  "aes_inv_sbox_rows =
   [[0x52, 0x09, 0x6A, 0xD5, 0x30, 0x36, 0xA5, 0x38, 0xBF, 0x40, 0xA3, 0x9E, 0x81, 0xF3, 0xD7, 0xFB],
    [0x7C, 0xE3, 0x39, 0x82, 0x9B, 0x2F, 0xFF, 0x87, 0x34, 0x8E, 0x43, 0x44, 0xC4, 0xDE, 0xE9, 0xCB],
    [0x54, 0x7B, 0x94, 0x32, 0xA6, 0xC2, 0x23, 0x3D, 0xEE, 0x4C, 0x95, 0x0B, 0x42, 0xFA, 0xC3, 0x4E],
    [0x08, 0x2E, 0xA1, 0x66, 0x28, 0xD9, 0x24, 0xB2, 0x76, 0x5B, 0xA2, 0x49, 0x6D, 0x8B, 0xD1, 0x25],
    [0x72, 0xF8, 0xF6, 0x64, 0x86, 0x68, 0x98, 0x16, 0xD4, 0xA4, 0x5C, 0xCC, 0x5D, 0x65, 0xB6, 0x92],
    [0x6C, 0x70, 0x48, 0x50, 0xFD, 0xED, 0xB9, 0xDA, 0x5E, 0x15, 0x46, 0x57, 0xA7, 0x8D, 0x9D, 0x84],
    [0x90, 0xD8, 0xAB, 0x00, 0x8C, 0xBC, 0xD3, 0x0A, 0xF7, 0xE4, 0x58, 0x05, 0xB8, 0xB3, 0x45, 0x06],
    [0xD0, 0x2C, 0x1E, 0x8F, 0xCA, 0x3F, 0x0F, 0x02, 0xC1, 0xAF, 0xBD, 0x03, 0x01, 0x13, 0x8A, 0x6B],
    [0x3A, 0x91, 0x11, 0x41, 0x4F, 0x67, 0xDC, 0xEA, 0x97, 0xF2, 0xCF, 0xCE, 0xF0, 0xB4, 0xE6, 0x73],
    [0x96, 0xAC, 0x74, 0x22, 0xE7, 0xAD, 0x35, 0x85, 0xE2, 0xF9, 0x37, 0xE8, 0x1C, 0x75, 0xDF, 0x6E],
    [0x47, 0xF1, 0x1A, 0x71, 0x1D, 0x29, 0xC5, 0x89, 0x6F, 0xB7, 0x62, 0x0E, 0xAA, 0x18, 0xBE, 0x1B],
    [0xFC, 0x56, 0x3E, 0x4B, 0xC6, 0xD2, 0x79, 0x20, 0x9A, 0xDB, 0xC0, 0xFE, 0x78, 0xCD, 0x5A, 0xF4],
    [0x1F, 0xDD, 0xA8, 0x33, 0x88, 0x07, 0xC7, 0x31, 0xB1, 0x12, 0x10, 0x59, 0x27, 0x80, 0xEC, 0x5F],
    [0x60, 0x51, 0x7F, 0xA9, 0x19, 0xB5, 0x4A, 0x0D, 0x2D, 0xE5, 0x7A, 0x9F, 0x93, 0xC9, 0x9C, 0xEF],
    [0xA0, 0xE0, 0x3B, 0x4D, 0xAE, 0x2A, 0xF5, 0xB0, 0xC8, 0xEB, 0xBB, 0x3C, 0x83, 0x53, 0x99, 0x61],
    [0x17, 0x2B, 0x04, 0x7E, 0xBA, 0x77, 0xD6, 0x26, 0xE1, 0x69, 0x14, 0x63, 0x55, 0x21, 0x0C, 0x7D]]"

definition aes_sbox :: "u8 \<Rightarrow> u8" where
  "aes_sbox x = aes_sbox_rows ! unat (drop_bit 4 x) ! unat (x AND 0x0F)"

definition aes_inv_sbox :: "u8 \<Rightarrow> u8" where
  "aes_inv_sbox x = aes_inv_sbox_rows ! unat (drop_bit 4 x) ! unat (x AND 0x0F)"

lemma aes_rows:
  "aes_sbox_rows ! 0 = [0x63, 0x7C, 0x77, 0x7B, 0xF2, 0x6B, 0x6F, 0xC5, 0x30, 0x01, 0x67, 0x2B, 0xFE, 0xD7, 0xAB, 0x76]"
  "aes_sbox_rows ! (Suc 0) = [0xCA, 0x82, 0xC9, 0x7D, 0xFA, 0x59, 0x47, 0xF0, 0xAD, 0xD4, 0xA2, 0xAF, 0x9C, 0xA4, 0x72, 0xC0]"
  "aes_sbox_rows ! 2 = [0xB7, 0xFD, 0x93, 0x26, 0x36, 0x3F, 0xF7, 0xCC, 0x34, 0xA5, 0xE5, 0xF1, 0x71, 0xD8, 0x31, 0x15]"
  "aes_sbox_rows ! 3 = [0x04, 0xC7, 0x23, 0xC3, 0x18, 0x96, 0x05, 0x9A, 0x07, 0x12, 0x80, 0xE2, 0xEB, 0x27, 0xB2, 0x75]"
  "aes_sbox_rows ! 4 = [0x09, 0x83, 0x2C, 0x1A, 0x1B, 0x6E, 0x5A, 0xA0, 0x52, 0x3B, 0xD6, 0xB3, 0x29, 0xE3, 0x2F, 0x84]"
  "aes_sbox_rows ! 5 = [0x53, 0xD1, 0x00, 0xED, 0x20, 0xFC, 0xB1, 0x5B, 0x6A, 0xCB, 0xBE, 0x39, 0x4A, 0x4C, 0x58, 0xCF]"
  "aes_sbox_rows ! 6 = [0xD0, 0xEF, 0xAA, 0xFB, 0x43, 0x4D, 0x33, 0x85, 0x45, 0xF9, 0x02, 0x7F, 0x50, 0x3C, 0x9F, 0xA8]"
  "aes_sbox_rows ! 7 = [0x51, 0xA3, 0x40, 0x8F, 0x92, 0x9D, 0x38, 0xF5, 0xBC, 0xB6, 0xDA, 0x21, 0x10, 0xFF, 0xF3, 0xD2]"
  "aes_sbox_rows ! 8 = [0xCD, 0x0C, 0x13, 0xEC, 0x5F, 0x97, 0x44, 0x17, 0xC4, 0xA7, 0x7E, 0x3D, 0x64, 0x5D, 0x19, 0x73]"
  "aes_sbox_rows ! 9 = [0x60, 0x81, 0x4F, 0xDC, 0x22, 0x2A, 0x90, 0x88, 0x46, 0xEE, 0xB8, 0x14, 0xDE, 0x5E, 0x0B, 0xDB]"
  "aes_sbox_rows ! 10 = [0xE0, 0x32, 0x3A, 0x0A, 0x49, 0x06, 0x24, 0x5C, 0xC2, 0xD3, 0xAC, 0x62, 0x91, 0x95, 0xE4, 0x79]"
  "aes_sbox_rows ! 11 = [0xE7, 0xC8, 0x37, 0x6D, 0x8D, 0xD5, 0x4E, 0xA9, 0x6C, 0x56, 0xF4, 0xEA, 0x65, 0x7A, 0xAE, 0x08]"
  "aes_sbox_rows ! 12 = [0xBA, 0x78, 0x25, 0x2E, 0x1C, 0xA6, 0xB4, 0xC6, 0xE8, 0xDD, 0x74, 0x1F, 0x4B, 0xBD, 0x8B, 0x8A]"
  "aes_sbox_rows ! 13 = [0x70, 0x3E, 0xB5, 0x66, 0x48, 0x03, 0xF6, 0x0E, 0x61, 0x35, 0x57, 0xB9, 0x86, 0xC1, 0x1D, 0x9E]"
  "aes_sbox_rows ! 14 = [0xE1, 0xF8, 0x98, 0x11, 0x69, 0xD9, 0x8E, 0x94, 0x9B, 0x1E, 0x87, 0xE9, 0xCE, 0x55, 0x28, 0xDF]"
  "aes_sbox_rows ! 15 = [0x8C, 0xA1, 0x89, 0x0D, 0xBF, 0xE6, 0x42, 0x68, 0x41, 0x99, 0x2D, 0x0F, 0xB0, 0x54, 0xBB, 0x16]"
  "aes_inv_sbox_rows ! 0 = [0x52, 0x09, 0x6A, 0xD5, 0x30, 0x36, 0xA5, 0x38, 0xBF, 0x40, 0xA3, 0x9E, 0x81, 0xF3, 0xD7, 0xFB]"
  "aes_inv_sbox_rows ! (Suc 0) = [0x7C, 0xE3, 0x39, 0x82, 0x9B, 0x2F, 0xFF, 0x87, 0x34, 0x8E, 0x43, 0x44, 0xC4, 0xDE, 0xE9, 0xCB]"
  "aes_inv_sbox_rows ! 2 = [0x54, 0x7B, 0x94, 0x32, 0xA6, 0xC2, 0x23, 0x3D, 0xEE, 0x4C, 0x95, 0x0B, 0x42, 0xFA, 0xC3, 0x4E]"
  "aes_inv_sbox_rows ! 3 = [0x08, 0x2E, 0xA1, 0x66, 0x28, 0xD9, 0x24, 0xB2, 0x76, 0x5B, 0xA2, 0x49, 0x6D, 0x8B, 0xD1, 0x25]"
  "aes_inv_sbox_rows ! 4 = [0x72, 0xF8, 0xF6, 0x64, 0x86, 0x68, 0x98, 0x16, 0xD4, 0xA4, 0x5C, 0xCC, 0x5D, 0x65, 0xB6, 0x92]"
  "aes_inv_sbox_rows ! 5 = [0x6C, 0x70, 0x48, 0x50, 0xFD, 0xED, 0xB9, 0xDA, 0x5E, 0x15, 0x46, 0x57, 0xA7, 0x8D, 0x9D, 0x84]"
  "aes_inv_sbox_rows ! 6 = [0x90, 0xD8, 0xAB, 0x00, 0x8C, 0xBC, 0xD3, 0x0A, 0xF7, 0xE4, 0x58, 0x05, 0xB8, 0xB3, 0x45, 0x06]"
  "aes_inv_sbox_rows ! 7 = [0xD0, 0x2C, 0x1E, 0x8F, 0xCA, 0x3F, 0x0F, 0x02, 0xC1, 0xAF, 0xBD, 0x03, 0x01, 0x13, 0x8A, 0x6B]"
  "aes_inv_sbox_rows ! 8 = [0x3A, 0x91, 0x11, 0x41, 0x4F, 0x67, 0xDC, 0xEA, 0x97, 0xF2, 0xCF, 0xCE, 0xF0, 0xB4, 0xE6, 0x73]"
  "aes_inv_sbox_rows ! 9 = [0x96, 0xAC, 0x74, 0x22, 0xE7, 0xAD, 0x35, 0x85, 0xE2, 0xF9, 0x37, 0xE8, 0x1C, 0x75, 0xDF, 0x6E]"
  "aes_inv_sbox_rows ! 10 = [0x47, 0xF1, 0x1A, 0x71, 0x1D, 0x29, 0xC5, 0x89, 0x6F, 0xB7, 0x62, 0x0E, 0xAA, 0x18, 0xBE, 0x1B]"
  "aes_inv_sbox_rows ! 11 = [0xFC, 0x56, 0x3E, 0x4B, 0xC6, 0xD2, 0x79, 0x20, 0x9A, 0xDB, 0xC0, 0xFE, 0x78, 0xCD, 0x5A, 0xF4]"
  "aes_inv_sbox_rows ! 12 = [0x1F, 0xDD, 0xA8, 0x33, 0x88, 0x07, 0xC7, 0x31, 0xB1, 0x12, 0x10, 0x59, 0x27, 0x80, 0xEC, 0x5F]"
  "aes_inv_sbox_rows ! 13 = [0x60, 0x51, 0x7F, 0xA9, 0x19, 0xB5, 0x4A, 0x0D, 0x2D, 0xE5, 0x7A, 0x9F, 0x93, 0xC9, 0x9C, 0xEF]"
  "aes_inv_sbox_rows ! 14 = [0xA0, 0xE0, 0x3B, 0x4D, 0xAE, 0x2A, 0xF5, 0xB0, 0xC8, 0xEB, 0xBB, 0x3C, 0x83, 0x53, 0x99, 0x61]"
  "aes_inv_sbox_rows ! 15 = [0x17, 0x2B, 0x04, 0x7E, 0xBA, 0x77, 0xD6, 0x26, 0xE1, 0x69, 0x14, 0x63, 0x55, 0x21, 0x0C, 0x7D]"
  unfolding aes_sbox_rows_def aes_inv_sbox_rows_def by simp_all

primrec sbox_check :: "nat \<Rightarrow> u8 \<Rightarrow> u8 \<Rightarrow> bool" where
  "sbox_check 0 p q \<longleftrightarrow> p = 1"
| "sbox_check (Suc n) p q \<longleftrightarrow>
    (let p = sbox_p p; q = sbox_q q; v = sbox_value q
     in (n = 0 \<or> p \<noteq> 1) \<and> aes_sbox p = v \<and> aes_inv_sbox v = p \<and> sbox_check n p q)"

lemma push_bit_in_range:
  "push_bit 1 x = push_bit 1 (x AND 0x7F)" "push_bit 2 x = push_bit 2 (x AND 0x3F)"
  "push_bit 3 x = push_bit 3 (x AND 0x1F)" "push_bit 4 x = push_bit 4 (x AND 0x0F)" for x :: u8
  using push_bit_take_bit [of 1 7 x] push_bit_take_bit [of 2 6 x] push_bit_take_bit [of 3 5 x] push_bit_take_bit [of 4 4 x]
    take_bit_word_eq_self [of 8 "push_bit 1 x"] take_bit_word_eq_self [of 8 "push_bit 2 x"]
    take_bit_word_eq_self [of 8 "push_bit 3 x"] take_bit_word_eq_self [of 8 "push_bit 4 x"]
  by (simp_all add: take_bit_eq_mask mask_eq_exp_minus_1)

lemma sbox_eval:
  "sbox_p x = x XOR push_bit 1 (x AND 0x7F) XOR (if x AND 0x80 \<noteq> 0 then 0x1B else 0)"
  "sbox_q x = (let x = x XOR push_bit 1 (x AND 0x7F); x = x XOR push_bit 2 (x AND 0x3F); x = x XOR push_bit 4 (x AND 0x0F)
     in x XOR (if x AND 0x80 \<noteq> 0 then 0x09 else 0))"
  "sbox_value x = x XOR (push_bit 1 (x AND 0x7F) OR drop_bit 7 x) XOR (push_bit 2 (x AND 0x3F) OR drop_bit 6 x)
     XOR (push_bit 3 (x AND 0x1F) OR drop_bit 5 x) XOR (push_bit 4 (x AND 0x0F) OR drop_bit 4 x) XOR 0x63"
  unfolding sbox_p_def sbox_q_def sbox_value_def ROTL8_def
  by (simp_all only: push_bit_in_range [symmetric]) simp_all

text \<open>Evaluation by stages, each on a numeral.\<close>

definition sbox_stage :: "nat \<Rightarrow> u8 \<Rightarrow> u8" where
  "sbox_stage k x = (if k = 3 then x XOR (if x AND 0x80 \<noteq> 0 then 0x09 else 0) else x XOR push_bit (2 ^ k) (x AND mask (8 - 2 ^ k)))"

definition sbox_turn_ok :: "nat \<Rightarrow> u8 \<Rightarrow> u8 \<Rightarrow> u8 \<Rightarrow> bool" where
  "sbox_turn_ok n p q v \<longleftrightarrow>
     (n = 0 \<or> p \<noteq> 1) \<and> aes_sbox p = v \<and> aes_inv_sbox v = p \<and> sbox_check n p q"

lemma sbox_stage_eval:
  "sbox_stage 0 x = x XOR push_bit 1 (x AND 0x7F)" "sbox_stage 1 x = x XOR push_bit 2 (x AND 0x3F)"
  "sbox_stage 2 x = x XOR push_bit 4 (x AND 0x0F)" "sbox_stage 3 x = x XOR (if x AND 0x80 \<noteq> 0 then 0x09 else 0)"
  by (simp_all add: sbox_stage_def mask_eq_exp_minus_1)

lemma sbox_q_stages: "sbox_q x = sbox_stage 3 (sbox_stage 2 (sbox_stage 1 (sbox_stage 0 x)))"
  unfolding sbox_stage_eval sbox_eval Let_def ..

lemma sbox_check_numeral:
  "sbox_check (numeral k) p q \<longleftrightarrow> sbox_turn_ok (pred_numeral k) (sbox_p p) (sbox_q q) (sbox_value (sbox_q q))"
  "sbox_check (Suc 0) p q \<longleftrightarrow> sbox_turn_ok 0 (sbox_p p) (sbox_q q) (sbox_value (sbox_q q))"
  by (simp_all add: numeral_eq_Suc Let_def sbox_turn_ok_def)

lemma sbox_check_255: "sbox_check 255 1 1"
  by (simp add: sbox_check_numeral sbox_turn_ok_def sbox_eval(1,3) sbox_q_stages sbox_stage_eval [simplified] aes_sbox_def aes_inv_sbox_def aes_rows)

text \<open>The values \<open>p\<close> takes in \<open>n\<close> turns.\<close>

definition sbox_orbit :: "nat \<Rightarrow> u8 \<Rightarrow> u8 set" where
  "sbox_orbit n p = (\<lambda>k. (sbox_p ^^ k) p) ` {1..n}"

lemma sbox_orbit_simps:
  "sbox_orbit 0 p = {}"
  "sbox_orbit (Suc n) p = insert (sbox_p p) (sbox_orbit n (sbox_p p))"
proof -
  have "{1..Suc n} = insert 1 (Suc ` {1..n})"
    by (auto simp: image_Suc_atLeastAtMost)
  then show "sbox_orbit (Suc n) p = insert (sbox_p p) (sbox_orbit n (sbox_p p))"
    unfolding sbox_orbit_def by (simp only: image_insert image_image) (simp add: funpow_swap1)
qed (simp add: sbox_orbit_def)

lemma sbox_check_run:
  assumes "sbox_check n p q" and "0 < n" and "length a = 256" and "length b = 256"
  shows "\<exists>a' b'. sbox_loop p q a b = Some (a', b') \<and> length a' = 256 \<and> length b' = 256 \<and>
    (\<forall>x. a' ! unat x = (if x \<in> sbox_orbit n p then aes_sbox x else a ! unat x)) \<and>
    (\<forall>y. b' ! unat y = (if y \<in> aes_sbox ` sbox_orbit n p then aes_inv_sbox y else b ! unat y))"
  using assms
proof (induction n arbitrary: p q a b)
  case (Suc n)
  let ?p = "sbox_p p" and ?q = "sbox_q q"
  let ?v = "sbox_value ?q"
  let ?a = "a[unat ?p := ?v]" and ?b = "b[unat ?v := ?p]"
  from Suc.prems(1) have c: "n = 0 \<or> ?p \<noteq> 1" "aes_sbox ?p = ?v" "aes_inv_sbox ?v = ?p" "sbox_check n ?p ?q"
    by (simp_all add: Let_def)
  have len: "length ?a = 256" "length ?b = 256" using Suc.prems by simp_all
  have lt: "unat x < 256" for x :: u8 using unsigned_less [of x, where ?'a = nat] by simp
  have ne: "unat x = unat y \<longleftrightarrow> x = y" for x y :: u8 by (simp add: word_unat_eq_iff)
  have upd: "?a ! unat x = (if x = ?p then aes_sbox x else a ! unat x)"
    "?b ! unat x = (if x = ?v then aes_inv_sbox x else b ! unat x)" for x
    using Suc.prems(3,4) lt [of x] c(2,3) by (auto simp: nth_list_update ne)
  show ?case
  proof (cases "n = 0")
    case True
    then have "?p = 1" using c(4) by simp
    then have "sbox_loop p q a b = Some (?a, ?b)"
      by (subst sbox_loop.simps) (simp add: Let_def)
    then show ?thesis
      using len True upd c(2) by (auto simp: sbox_orbit_simps)
  next
    case False
    then have "?p \<noteq> 1" and "0 < n" using c(1) by auto
    then have "sbox_loop p q a b = sbox_loop ?p ?q ?a ?b"
      by (subst sbox_loop.simps) (simp add: Let_def)
    moreover obtain a' b' where "sbox_loop ?p ?q ?a ?b = Some (a', b')" "length a' = 256" "length b' = 256"
      "\<forall>x. a' ! unat x = (if x \<in> sbox_orbit n ?p then aes_sbox x else ?a ! unat x)"
      "\<forall>y. b' ! unat y = (if y \<in> aes_sbox ` sbox_orbit n ?p then aes_inv_sbox y else ?b ! unat y)"
      using Suc.IH [OF c(4) \<open>0 < n\<close> len] by blast
    ultimately show ?thesis
      using upd c(2) by (auto simp: sbox_orbit_simps)
  qed
qed simp

lemma sbox_check_inverse: "sbox_check n p q \<Longrightarrow> x \<in> sbox_orbit n p \<Longrightarrow> aes_inv_sbox (aes_sbox x) = x"
  by (induction n arbitrary: p q) (auto simp: sbox_orbit_simps Let_def)

lemma sbox_check_period:
  "sbox_check n p q \<Longrightarrow> (sbox_p ^^ n) p = 1 \<and> (\<forall>k. 0 < k \<and> k < n \<longrightarrow> (sbox_p ^^ k) p \<noteq> 1)"
proof (induction n arbitrary: p q)
  case (Suc n)
  then have c: "n = 0 \<or> sbox_p p \<noteq> 1" "(sbox_p ^^ n) (sbox_p p) = 1"
    and IH: "\<And>k. 0 < k \<Longrightarrow> k < n \<Longrightarrow> (sbox_p ^^ k) (sbox_p p) \<noteq> 1"
    by (auto simp: Let_def)
  have "(sbox_p ^^ k) p \<noteq> 1" if "0 < k" "k < Suc n" for k
    using that c(1) IH [of "k - 1"] by (cases k) (auto simp: funpow_swap1, metis bot_nat_0.not_eq_extremum funpow_0)
  with c(2) show ?case by (simp add: funpow_swap1)
qed simp

lemma sbox_orbit_255: "sbox_orbit 255 1 = - {0}"
proof -
  let ?f = "\<lambda>k. (sbox_p ^^ k) (1 :: u8)"
  have per: "?f 255 = 1" "\<And>k. 0 < k \<Longrightarrow> k < 255 \<Longrightarrow> ?f k \<noteq> 1"
    using sbox_check_period [OF sbox_check_255] by auto
  have add: "?f (i + j) = (sbox_p ^^ i) (?f j)" for i j
    by (simp add: funpow_add)
  have "False" if "?f i = ?f j" "1 \<le> i" "i < j" "j \<le> 255" for i j
  proof -
    have "?f (255 - j + i) = ?f (255 - j + j)"
      using that(1) by (simp only: add)
    moreover have "0 < 255 - j + i" "255 - j + i < 255" "255 - j + j = 255"
      using that by arith+
    ultimately show False
      using per(1) per(2) [of "255 - j + i"] by simp
  qed
  then have "inj_on ?f {1..255}"
    by (intro linorder_inj_onI') auto
  then have card: "card (sbox_orbit 255 1) = 255"
    by (simp add: sbox_orbit_def card_image)
  have zero: "(sbox_p ^^ i) 0 = 0" for i
    by (induction i) (simp_all add: sbox_p_def)
  have "?f k \<noteq> 0" if "k \<le> 255" for k
    using add [of "255 - k" k] per(1) that zero by auto
  then have sub: "sbox_orbit 255 1 \<subseteq> - {0}"
    by (auto simp: sbox_orbit_def)
  have "card (- {0 :: u8}) = 255"
    by (simp add: Compl_eq_Diff_UNIV card_Diff_singleton card_word)
  then show ?thesis
    using card sub by (intro card_subset_eq) simp_all
qed

lemma aes_sbox_0: "aes_sbox 0 = 0x63" "aes_inv_sbox 0x63 = 0"
  by (simp_all add: aes_sbox_def aes_inv_sbox_def aes_rows)

lemma aes_inv_sbox: "aes_inv_sbox (aes_sbox x) = x"
  using sbox_check_inverse [OF sbox_check_255, of x] aes_sbox_0 by (cases "x = 0") (auto simp: sbox_orbit_255)

lemma aes_sbox_range: "y \<in> aes_sbox ` sbox_orbit 255 1 \<longleftrightarrow> y \<noteq> 0x63"
proof -
  have inj: "inj aes_sbox" by (rule inj_on_inverseI) (rule aes_inv_sbox)
  then have "surj aes_sbox" by (rule finite_UNIV_inj_surj [OF finite])
  have "aes_sbox ` (- {0}) = - {0x63}"
    using image_set_diff [OF inj, of UNIV "{0}"] \<open>surj aes_sbox\<close> by (simp add: Compl_eq_Diff_UNIV aes_sbox_0)
  then show ?thesis by (simp add: sbox_orbit_255)
qed

lemma saes_sboxes_tables:
  obtains S R where "saes_sboxes = Some (S, R)" "length S = 256" "length R = 256"
    "\<And>x. S ! unat x = aes_sbox x" "\<And>x. R ! unat x = aes_inv_sbox x"
proof -
  obtain a b where ab: "sbox_loop 1 1 (replicate 256 0) (replicate 256 0) = Some (a, b)" "length a = 256" "length b = 256"
    "\<And>x. x \<noteq> 0 \<Longrightarrow> a ! unat x = aes_sbox x" "\<And>y. y \<noteq> 0x63 \<Longrightarrow> b ! unat y = aes_inv_sbox y"
    using sbox_check_run [OF sbox_check_255, of "replicate 256 0" "replicate 256 0"]
    unfolding aes_sbox_range unfolding sbox_orbit_255 by auto
  have "(a[0 := 0x63]) ! unat x = aes_sbox x" for x
    using ab(2,4) aes_sbox_0 by (cases "x = 0") (auto simp: nth_list_update unat_eq_0)
  moreover have "(b[0x63 := 0]) ! unat y = aes_inv_sbox y" for y
    using ab(3,5) aes_sbox_0 word_unat_eq_iff [of y "0x63"] by (cases "y = 0x63") auto
  ultimately show thesis
    using that [of "a[0 := 0x63]" "b[0x63 := 0]"] ab(1-3) by (simp add: saes_sboxes_def)
qed

section \<open>The field\<close>

text \<open>Multiplication by \<open>x\<close> in \<open>GF(2^8)\<close>, and by a constant as the sum over its bits.\<close>

definition xtime :: "u8 \<Rightarrow> u8" where
  "xtime x = push_bit 1 x XOR (if x AND 0x80 \<noteq> 0 then 0x1B else 0)"

definition gf_times :: "u8 \<Rightarrow> u8 \<Rightarrow> u8" where
  "gf_times c x = foldr (\<lambda>k r. if bit c k then (xtime ^^ k) x XOR r else r) [0..<8] 0"

lemma ucast_up_down [simp]: "ucast (ucast x :: u32) = (x :: u8)"
  by (rule bit_word_eqI) (simp add: bit_simps)

lemma and_exp_eq_0_iff: "(w :: 'a::len word) AND 2 ^ n = 0 \<longleftrightarrow> \<not> bit w n"
  by (auto simp: and_exp_eq_0_iff_not_bit)

lemma xtime_top: "x AND 0x80 = 0 \<longleftrightarrow> \<not> bit x 7" for x :: u8
  using and_exp_eq_0_iff [of x 7] by simp

lemma shift_top: "push_bit 1 (ucast x) AND 0x100 = (0 :: u32) \<longleftrightarrow> \<not> bit x 7" for x :: u8
proof -
  have "(0x100 :: u32) = 2 ^ 8" by simp
  then have "push_bit 1 (ucast x) AND 0x100 = (0 :: u32) \<longleftrightarrow> \<not> bit (push_bit 1 (ucast x) :: u32) 8"
    by (simp only: and_exp_eq_0_iff)
  then show ?thesis
    by (simp only: bit_push_bit_iff bit_unsigned_iff) simp
qed

lemma shift_ucast:
  "push_bit 1 (ucast x :: u32) = ucast (push_bit 1 x) XOR (if bit x 7 then 2 ^ 8 else 0)" for x :: u8
proof (rule bit_word_eqI)
  fix n assume "n < LENGTH(32)"
  then show "bit (push_bit 1 (ucast x :: u32)) n = bit (ucast (push_bit 1 x) XOR (if bit x 7 then 2 ^ 8 else 0) :: u32) n"
    using bit_imp_le_length [of x "n - 1"]
    by (cases "n < 8"; cases "n = 8")
      (auto simp only: bit_push_bit_iff bit_unsigned_iff bit_xor_iff bit_exp_iff bit_0_eq if_distrib if_distribR, auto)
qed

lemma mul_gf2_shift:
  "(if push_bit 1 (ucast x) AND 0x100 \<noteq> (0 :: u32) then push_bit 1 (ucast x) XOR 0x11B else push_bit 1 (ucast x)) =
     (ucast (xtime x) :: u32)"
  unfolding shift_top xtime_def xtime_top
  unfolding shift_ucast by (simp add: unsigned_xor_eq xor.assoc)

lemma unat_pow2: "n < 32 \<Longrightarrow> unat (2 ^ n :: u32) = 2 ^ n"
proof -
  assume "n < 32"
  have "(2 ^ n :: u32) = of_nat (2 ^ n)" by simp
  then have "unat (2 ^ n :: u32) = 2 ^ n mod 2 ^ 32"
    by (simp only: unat_of_nat) simp
  moreover have "(2 :: nat) ^ n < 2 ^ 32"
    using \<open>n < 32\<close> by (intro power_strict_increasing) simp_all
  ultimately show ?thesis by (simp only: mod_less)
qed

lemma mul_gf2_turn:
  assumes "k < 0x100" and "k \<noteq> 0" and "j \<noteq> 0"
  shows "mul_gf2_loop s i j k = mul_gf2_loop (if j AND k = 0 then s else s XOR i)
    (if push_bit 1 i AND 0x100 \<noteq> 0 then push_bit 1 i XOR 0x11B else push_bit 1 i)
    (if j AND k = 0 then j else j XOR k) (push_bit 1 k)"
  using assms by (subst mul_gf2_loop.simps) (simp add: Let_def)

text \<open>The loop, from bit \<open>n\<close> on.\<close>

lemma mul_gf2_loop_bits:
  fixes b c s :: u8
  assumes "n \<le> 8"
  shows "mul_gf2_loop (ucast s) (ucast ((xtime ^^ n) b)) (ucast (c AND NOT (mask n))) (2 ^ n) =
    ucast (s XOR foldr (\<lambda>k r. if bit c k then (xtime ^^ k) b XOR r else r) [n..<8] 0)"
  using assms
proof (induction n arbitrary: s rule: inc_induct)
  case base
  then show ?case by (simp add: mul_gf2_loop.simps)
next
  case (step n)
  let ?j = "c AND NOT (mask n)" and ?f = "\<lambda>k r. if bit c k then (xtime ^^ k) b XOR r else r"
  show ?case
  proof (cases "?j = 0")
    case True
    have "bit ?j k \<longleftrightarrow> bit c k" if "n \<le> k" for k
      using that bit_imp_le_length [of c k] by (auto simp only: bit_and_iff bit_not_iff bit_mask_iff) simp
    with True have "\<not> bit c k" if "n \<le> k" for k
      using that by auto
    then have "foldr ?f [n..<8] 0 = foldr (\<lambda>k r. r) [n..<8] 0"
      by (intro foldr_cong) auto
    moreover have "foldr (\<lambda>k r. r) ks (0 :: u8) = 0" for ks :: "nat list"
      by (induction ks) simp_all
    ultimately show ?thesis
      using True by (simp add: mul_gf2_loop.simps)
  next
    case False
    have k: "(2 ^ n :: u32) < 0x100" "(2 ^ n :: u32) \<noteq> 0" "push_bit 1 (2 ^ n :: u32) = 2 ^ Suc n"
      using step.hyps power_strict_increasing [of n 8 "2 :: nat"]
      by (auto simp: word_less_nat_alt push_bit_eq_mult unat_pow2)
    have bit: "ucast ?j AND (2 ^ n :: u32) = 0 \<longleftrightarrow> \<not> bit c n"
      using step.hyps by (simp add: and_exp_eq_0_iff bit_simps)
    have j: "(if bit c n then ucast ?j XOR (2 ^ n :: u32) else ucast ?j) = ucast (c AND NOT (mask (Suc n)))"
      by (rule bit_word_eqI) (auto simp: bit_simps less_Suc_eq dest: bit_imp_le_length)
    have nz: "(ucast ?j :: u32) \<noteq> 0"
      using False by (metis ucast_up_down unsigned_0)
    have s: "(if \<not> bit c n then ucast s else ucast s XOR ucast ((xtime ^^ n) b)) =
        (ucast (if bit c n then s XOR (xtime ^^ n) b else s) :: u32)"
      by (simp add: unsigned_xor_eq)
    have j': "(if \<not> bit c n then ucast ?j else ucast ?j XOR (2 ^ n :: u32)) = ucast (c AND NOT (mask (Suc n)))"
      unfolding j [symmetric] by simp
    have "mul_gf2_loop (ucast s) (ucast ((xtime ^^ n) b)) (ucast ?j) (2 ^ n) =
        mul_gf2_loop (ucast (if bit c n then s XOR (xtime ^^ n) b else s)) (ucast ((xtime ^^ Suc n) b))
          (ucast (c AND NOT (mask (Suc n)))) (2 ^ Suc n)"
      unfolding mul_gf2_turn [OF k(1,2) nz] k(3) bit mul_gf2_shift s j' by simp
    also have "\<dots> = ucast (s XOR foldr ?f [n..<8] 0)"
      using step.hyps by (subst step.IH) (simp add: upt_conv_Cons xor.assoc)
    finally show ?thesis .
  qed
qed

lemma mul_gf2_times: "mul_gf2 (ucast b) (ucast c) = ucast (gf_times c b)"
  using mul_gf2_loop_bits [of 0 0 b c] by (simp add: mul_gf2_def gf_times_def)

section \<open>Rounds\<close>

text \<open>The transformations of FIPS 197 on the sixteen bytes of a state, column after column.\<close>

definition SubBytes :: "(u8 \<Rightarrow> u8) \<Rightarrow> bytes \<Rightarrow> bytes" where
  "SubBytes box st = map box st"

text \<open>Row \<open>r\<close> rotates left by \<open>d * r\<close> columns.\<close>

definition ShiftRows :: "nat \<Rightarrow> bytes \<Rightarrow> bytes" where
  "ShiftRows d st = map (\<lambda>i. st ! ((i + 4 * d * (i mod 4)) mod 16)) [0..<16]"

text \<open>Each column is multiplied by the circulant matrix whose first row is given.\<close>

definition mix_byte :: "u8 list \<Rightarrow> bytes \<Rightarrow> nat \<Rightarrow> u8" where
  "mix_byte m st i =
    (let c = 4 * (i div 4); r = i mod 4
     in gf_times (m ! 0) (st ! (c + r)) XOR gf_times (m ! 1) (st ! (c + (r + 1) mod 4))
        XOR gf_times (m ! 2) (st ! (c + (r + 2) mod 4)) XOR gf_times (m ! 3) (st ! (c + (r + 3) mod 4)))"

definition MixColumns :: "u8 list \<Rightarrow> bytes \<Rightarrow> bytes" where
  "MixColumns m st = map (mix_byte m st) [0..<16]"

definition AddRoundKey :: "bytes \<Rightarrow> bytes \<Rightarrow> bytes" where
  "AddRoundKey key st = map2 (XOR) st key"

text \<open>Bytes of words.\<close>

lemma store32_word_of_le [simp]: "store32 (word_of_le [a, b, c, d]) = [a, b, c, d]"
  by (simp add: store_eq le_of_word_of_le del: word_of_le.simps)

lemma store32_xor: "store32 (v XOR w) = map2 (XOR) (store32 v) (store32 w)"
  by (simp add: store32_def Let_def unsigned_xor_eq drop_bit_xor)

lemma store32_inject: "store32 v = store32 w \<longleftrightarrow> v = w"
  by (rule le_load32.enc_inject)

lemma word_of_le_xor:
  "word_of_le [a, b, c, d] XOR word_of_le [a', b', c', d'] =
    (word_of_le [a XOR a', b XOR b', c XOR c', d XOR d'] :: u32)"
  by (subst store32_inject [symmetric]) (simp add: store32_xor del: word_of_le.simps)

lemma lut_rot_word_of_le: "lut_rot (word_of_le [a, b, c, d]) = word_of_le [d, a, b, c]"
proof (rule bit_word_eqI)
  fix n assume n: "n < LENGTH(32)"
  show "bit (lut_rot (word_of_le [a, b, c, d])) n = bit (word_of_le [d, a, b, c] :: u32) n"
  proof (cases "n < 8")
    case True
    then have "(n + 24) div 8 = 3" "(n + 24) mod 8 = n" by presburger+
    with True show ?thesis
      by (simp add: lut_rot_def bit_or_iff bit_push_bit_iff bit_drop_bit_eq bit_word_of_le add.commute
          del: word_of_le.simps)
  next
    case False
    then obtain m where m: "n = m + 8" by (metis add.commute le_Suc_ex not_less)
    then have "m < 24" "(m + 8) div 8 = Suc (m div 8)" "(m + 8) mod 8 = m mod 8" "m div 8 < 3"
      using n by auto
    moreover from this have "m div 8 \<in> {0, 1, 2}" by auto
    ultimately show ?thesis
      using n by (auto simp: m lut_rot_def bit_or_iff bit_push_bit_iff bit_drop_bit_eq bit_word_of_le
          simp del: word_of_le.simps)
  qed
qed

lemma gf_times_1 [simp]: "gf_times 1 x = x"
  by (simp add: gf_times_def upt_conv_Cons bit_1_iff)

text \<open>A table entry, and its rotations.\<close>

lemma enc_entry_bytes:
  "enc_entry S i = word_of_le [gf_times 2 (S ! i), S ! i, S ! i, gf_times 3 (S ! i)]"
  using mul_gf2_times [of "S ! i" 2] mul_gf2_times [of "S ! i" 3]
  by (simp add: enc_entry_def Let_def del: word_of_le.simps)

lemma dec_entry_bytes:
  "dec_entry R i = word_of_le [gf_times 0xE (R ! i), gf_times 0x9 (R ! i), gf_times 0xD (R ! i), gf_times 0xB (R ! i)]"
  using mul_gf2_times [of "R ! i" "0xE"] mul_gf2_times [of "R ! i" "0x9"] mul_gf2_times [of "R ! i" "0xD"]
    mul_gf2_times [of "R ! i" "0xB"]
  by (simp add: dec_entry_def Let_def del: word_of_le.simps)

lemma lut_tables:
  assumes "SAESInitializer = Some T" and "saes_sboxes = Some (S, R)"
  shows "r < 4 \<Longrightarrow> lut (lutEnc T) r x = (lut_rot ^^ r) (enc_entry S (unat x))"
    and "r < 4 \<Longrightarrow> lut (lutDec T) r x = (lut_rot ^^ r) (dec_entry R (unat x))"
  using assms(1) unsigned_less [of x, where ?'a = nat]
  unfolding SAESInitializer_def assms(2) by (auto simp: lut_def)

text \<open>One column of a round by tables.\<close>

lemma lut_rot_2: "(lut_rot ^^ 2) w = lut_rot (lut_rot w)" "(lut_rot ^^ 3) w = lut_rot (lut_rot (lut_rot w))"
  by (simp_all add: numeral_2_eq_2 numeral_3_eq_3)

lemma enc_column:
  assumes "SAESInitializer = Some T" and "saes_sboxes = Some (S, R)" and "\<And>x. S ! unat x = box x"
  shows "lut (lutEnc T) 0 a XOR lut (lutEnc T) 1 b XOR lut (lutEnc T) 2 c XOR lut (lutEnc T) 3 d =
    word_of_le
     [gf_times 2 (box a) XOR gf_times 3 (box b) XOR box c XOR box d,
      gf_times 2 (box b) XOR gf_times 3 (box c) XOR box d XOR box a,
      gf_times 2 (box c) XOR gf_times 3 (box d) XOR box a XOR box b,
      gf_times 2 (box d) XOR gf_times 3 (box a) XOR box b XOR box c]"
  by (simp add: lut_tables [OF assms(1,2)] lut_rot_2 enc_entry_bytes assms(3) lut_rot_word_of_le word_of_le_xor ac_simps
      del: word_of_le.simps)

lemma dec_column:
  assumes "SAESInitializer = Some T" and "saes_sboxes = Some (S, R)" and "\<And>x. R ! unat x = box x"
  shows "lut (lutDec T) 0 a XOR lut (lutDec T) 1 b XOR lut (lutDec T) 2 c XOR lut (lutDec T) 3 d =
    word_of_le
     [gf_times 0xE (box a) XOR gf_times 0xB (box b) XOR gf_times 0xD (box c) XOR gf_times 0x9 (box d),
      gf_times 0xE (box b) XOR gf_times 0xB (box c) XOR gf_times 0xD (box d) XOR gf_times 0x9 (box a),
      gf_times 0xE (box c) XOR gf_times 0xB (box d) XOR gf_times 0xD (box a) XOR gf_times 0x9 (box b),
      gf_times 0xE (box d) XOR gf_times 0xB (box a) XOR gf_times 0xD (box b) XOR gf_times 0x9 (box c)]"
  by (simp add: lut_tables [OF assms(1,2)] lut_rot_2 dec_entry_bytes assms(3) lut_rot_word_of_le word_of_le_xor ac_simps
      del: word_of_le.simps)

lemma length_vec_bytes [simp]: "length v = 4 \<Longrightarrow> length (vec_bytes v) = 16"
  by (auto simp: vec_bytes_def length_Suc_conv eval_nat_numeral store32_def Let_def)

lemma vec_bytes_xor_key:
  assumes "length key = 4"
  shows "vec_bytes (rx_xor_vec_i128 (rx_set_int_vec_i128 s3 s2 s1 s0) key) =
    map2 (XOR) (store32 s0 @ store32 s1 @ store32 s2 @ store32 s3) (vec_bytes key)"
proof -
  have "key = [key ! 0, key ! 1, key ! 2, key ! 3]" using assms by (rule list_4)
  then obtain a b c d where "key = [a, b, c, d]" by blast
  then show ?thesis
    by (simp add: rx_xor_vec_i128_def rx_set_int_vec_i128_def vec_bytes_def store32_xor)
qed

lemma upt_0_16: "[0..<16] = [0, 1, 2, 3, 4, 5, 6, 7, 8, 9, 10, 11, 12, 13, 14, 15]"
  by (simp add: upt_conv_Cons)

lemma aesenc_1_round:
  assumes "SAESInitializer = Some T" and "saes_sboxes = Some (S, R)" and "\<And>x. S ! unat x = box x"
    and "length inp = 4" and "length key = 4"
  shows "vec_bytes (aesenc_1 T inp key) =
    AddRoundKey (vec_bytes key) (MixColumns [2, 3, 1, 1] (ShiftRows 1 (SubBytes box (vec_bytes inp))))"
  using assms(4) unfolding aesenc_1_def Let_def xor.assoc vec_bytes_xor_key [OF assms(5)] enc_column [OF assms(1-3)]
  by (simp add: AddRoundKey_def MixColumns_def mix_byte_def Let_def ShiftRows_def SubBytes_def upt_0_16
      del: word_of_le.simps)

lemma aesdec_1_round:
  assumes "SAESInitializer = Some T" and "saes_sboxes = Some (S, R)" and "\<And>x. R ! unat x = box x"
    and "length inp = 4" and "length key = 4"
  shows "vec_bytes (aesdec_1 T inp key) =
    AddRoundKey (vec_bytes key) (MixColumns [0xE, 0xB, 0xD, 0x9] (ShiftRows 3 (SubBytes box (vec_bytes inp))))"
  using assms(4) unfolding aesdec_1_def Let_def xor.assoc vec_bytes_xor_key [OF assms(5)] dec_column [OF assms(1-3)]
  by (simp add: AddRoundKey_def MixColumns_def mix_byte_def Let_def ShiftRows_def SubBytes_def upt_0_16
      del: word_of_le.simps)

text \<open>The two softwares agree: the word lookups read the same bytes.\<close>

lemma vec_bytes_nth:
  assumes "length v = 4" and "k < 4"
  shows "vec_bytes v ! (4 * k) = ucast (v ! k)" "vec_bytes v ! (4 * k + 1) = ucast (drop_bit 8 (v ! k))"
    "vec_bytes v ! (4 * k + 2) = ucast (drop_bit 16 (v ! k))" "vec_bytes v ! (4 * k + 3) = ucast (drop_bit 24 (v ! k))"
proof -
  have "v = [v ! 0, v ! 1, v ! 2, v ! 3]" using assms(1) by (rule list_4)
  then obtain a b c d where v: "v = [a, b, c, d]" by blast
  from assms(2) have "k = 0 \<or> k = 1 \<or> k = 2 \<or> k = 3" by auto
  then show "vec_bytes v ! (4 * k) = ucast (v ! k)" "vec_bytes v ! (4 * k + 1) = ucast (drop_bit 8 (v ! k))"
    "vec_bytes v ! (4 * k + 2) = ucast (drop_bit 16 (v ! k))" "vec_bytes v ! (4 * k + 3) = ucast (drop_bit 24 (v ! k))"
    by (auto simp: v vec_bytes_def store32_def Let_def drop_bit_drop_bit)
qed

lemma lut_lut32: "lut t n (ucast w) = lut32 t n (w AND 0xFF)" for w :: u32
proof -
  have "unat (ucast w :: u8) = unat (w AND mask 8)"
    by (simp add: unat_and_mask unsigned_ucast_eq take_bit_nat_def flip: take_bit_eq_mod)
  then show ?thesis by (simp add: lut_def lut32_def mask_eq_exp_minus_1)
qed

lemma drop_24_and: "drop_bit 24 w AND 0xFF = drop_bit 24 w" for w :: u32
proof -
  have "drop_bit 24 w AND mask 8 = drop_bit 24 w"
    by (rule bit_word_eqI) (auto simp: bit_simps dest: bit_imp_le_length)
  then show ?thesis by (simp add: mask_eq_exp_minus_1)
qed

lemma aes_soft_agree:
  assumes "length inp = 4"
  shows "aesenc_1 T inp key = aesenc_2 T inp key" and "aesdec_1 T inp key = aesdec_2 T inp key"
  using vec_bytes_nth [OF assms, of 0] vec_bytes_nth [OF assms, of 1] vec_bytes_nth [OF assms, of 2] vec_bytes_nth [OF assms, of 3]
  by (simp_all add: aesenc_1_def aesenc_2_def aesdec_1_def aesdec_2_def Let_def lut_lut32 drop_24_and xor.assoc flip: numeral_2_eq_2)

text \<open>
  C35: The initialiser of the tables returns, and with its tables a round by lookups (\<open>softAes = 1\<close>)
  is a round of FIPS 197: \<open>aesenc\<close> substitutes by the S-box, shifts the rows, mixes the columns and adds
  the key, \<open>aesdec\<close> does so with the inverse tables.
\<close>

theorem soft_aes_rounds_correct:
  "\<exists>T. SAESInitializer = Some T \<and>
    (\<forall>inp key. length inp = 4 \<and> length key = 4 \<longrightarrow>
      vec_bytes (aesenc_1 T inp key) =
        AddRoundKey (vec_bytes key) (MixColumns [2, 3, 1, 1] (ShiftRows 1 (SubBytes aes_sbox (vec_bytes inp)))) \<and>
      vec_bytes (aesdec_1 T inp key) =
        AddRoundKey (vec_bytes key)
          (MixColumns [0xE, 0xB, 0xD, 0x9] (ShiftRows 3 (SubBytes aes_inv_sbox (vec_bytes inp)))))"
proof -
  obtain S R where SR: "saes_sboxes = Some (S, R)" "\<And>x. S ! unat x = aes_sbox x" "\<And>x. R ! unat x = aes_inv_sbox x"
    by (rule saes_sboxes_tables) blast
  then obtain T where "SAESInitializer = Some T"
    by (cases SAESInitializer) (auto simp: SAESInitializer_def)
  with SR show ?thesis
    using aesenc_1_round aesdec_1_round by blast
qed

theorem soft_aes_rounds_correct_witness:
  "\<exists>T. SAESInitializer = Some T \<and>
    vec_bytes (aesenc_1 T [1, 2, 3, 4] [5, 6, 7, 8]) =
      AddRoundKey (vec_bytes [5, 6, 7, 8])
        (MixColumns [2, 3, 1, 1] (ShiftRows 1 (SubBytes aes_sbox (vec_bytes [1, 2, 3, 4]))))"
proof -
  obtain T where T: "SAESInitializer = Some T"
    and r: "\<And>inp key. length inp = 4 \<Longrightarrow> length key = 4 \<Longrightarrow> vec_bytes (aesenc_1 T inp key) =
      AddRoundKey (vec_bytes key) (MixColumns [2, 3, 1, 1] (ShiftRows 1 (SubBytes aes_sbox (vec_bytes inp))))"
    using soft_aes_rounds_correct by blast
  have "vec_bytes (aesenc_1 T [1, 2, 3, 4] [5, 6, 7, 8]) =
      AddRoundKey (vec_bytes [5, 6, 7, 8])
        (MixColumns [2, 3, 1, 1] (ShiftRows 1 (SubBytes aes_sbox (vec_bytes [1, 2, 3, 4]))))"
    by (rule r) simp_all
  with T show ?thesis by blast
qed

text \<open>
  The two software rounds agree: the lookups by shifts and masks of the lanes (\<open>softAes = 2\<close>) give
  what the lookups byte by byte give (\<open>softAes = 1\<close>), whatever the tables hold.
\<close>

theorem soft_aes_variants_agree:
  assumes "length inp = 4"
  shows "aesenc_2 T inp key = aesenc_1 T inp key \<and> aesdec_2 T inp key = aesdec_1 T inp key"
  using aes_soft_agree [OF assms, of T key] by simp

theorem soft_aes_variants_agree_witness:
  "aesenc_2 \<lparr>lutEnc = [], lutDec = []\<rparr> [1, 2, 3, 4] [5, 6, 7, 8] = aesenc_1 \<lparr>lutEnc = [], lutDec = []\<rparr> [1, 2, 3, 4] [5, 6, 7, 8]"
  using soft_aes_variants_agree [of "[1, 2, 3, 4]" "\<lparr>lutEnc = [], lutDec = []\<rparr>" "[5, 6, 7, 8]"] by simp

end
