(* ===== verification/RxVm.thy ===== *)
theory RxVm
  imports RxBytecode RxAes Blake2b
begin

text \<open>
  The RandomX virtual machine: \<open>randomx/virtual_machine.cpp\<close>, the interpreter
  \<open>randomx/vm_interpreted.cpp\<close> and the hash of \<open>randomx/randomx.cpp\<close> that drives it.

  The machine is one record. What it takes from outside is collected in \<open>rx_env\<close>: the current
  configuration, the floating-point unit, the AES rounds with the variant of the one-pass
  routine, the dataset (which 64-bit words lie at an address, if any) and the two functions
  behind the XLA input hash.
\<close>

section \<open>Initial values\<close>

definition mantissaSize :: nat where "mantissaSize = 52"
definition exponentSize :: nat where "exponentSize = 11"
definition mantissaMask :: u64 where "mantissaMask = push_bit mantissaSize 1 - 1"
definition exponentMask :: u64 where "exponentMask = push_bit exponentSize 1 - 1"
definition exponentBias :: u64 where "exponentBias = 1023"
definition dynamicExponentBits :: nat where "dynamicExponentBits = 4"
definition staticExponentBits :: nat where "staticExponentBits = 4"
definition constExponentBits :: u64 where "constExponentBits = 0x300"

definition getSmallPositiveFloatBits :: "u64 \<Rightarrow> u64" where
  "getSmallPositiveFloatBits entropy =
    (let exponent = drop_bit 59 entropy;
         mantissa = entropy AND mantissaMask;
         exponent = exponent + exponentBias;
         exponent = exponent AND exponentMask;
         exponent = push_bit mantissaSize exponent
     in exponent OR mantissa)"

definition getStaticExponent :: "u64 \<Rightarrow> u64" where
  "getStaticExponent entropy =
    (let exponent = constExponentBits;
         exponent = exponent OR push_bit dynamicExponentBits (drop_bit (64 - staticExponentBits) entropy)
     in push_bit mantissaSize exponent)"

definition getFloatMask :: "u64 \<Rightarrow> u64" where
  "getFloatMask entropy =
    (let mask22bit = push_bit 22 1 - 1
     in (entropy AND mask22bit) OR getStaticExponent entropy)"

section \<open>The machine\<close>

record RegisterFile =
  rf_r :: "u64 list"
  rf_f :: "vec_f128 list"
  rf_e :: "vec_f128 list"
  rf_a :: "vec_f128 list"

record randomx_vm =
  vm_program :: bytes
  vm_bytecode :: "InstructionByteCode list"
  vm_reg :: RegisterFile
  vm_config :: ProgramConfiguration
  vm_mx :: u32
  vm_ma :: u32
  vm_scratchpad :: bytes
  vm_datasetOffset :: u64
  vm_rounding :: nat

record rx_env =
  e_cfg :: RandomX_Configuration
  e_fpu :: fpu
  e_aes :: aes_rounds
  e_soft :: nat
  e_unroll :: nat
  e_dataset :: "u64 \<Rightarrow> u64 list option"
  e_yespower :: "bytes \<Rightarrow> int \<times> bytes"
  e_K12 :: "bytes \<Rightarrow> int \<times> bytes"

text \<open>The program buffer: sixteen words of entropy, then the instructions.\<close>

definition getEntropy :: "bytes \<Rightarrow> nat \<Rightarrow> u64" where
  "getEntropy program i = load64 (sub (8 * i) 8 program)"

definition program_instr :: "bytes \<Rightarrow> nat \<Rightarrow> Instruction" where
  "program_instr program pc =
    (let p = sub (128 + 8 * pc) 8 program
     in \<lparr>i_opcode = p ! 0, i_dst = p ! 1, i_src = p ! 2, i_mod = p ! 3, i_imm32 = load32 (sub 4 4 p)\<rparr>)"

definition program_instrs :: "bytes \<Rightarrow> Instruction list" where
  "program_instrs program = map (program_instr program) [0..<RANDOMX_PROGRAM_MAX_SIZE]"

definition rx_reset_float_state :: "randomx_vm \<Rightarrow> randomx_vm" where
  "rx_reset_float_state vm = vm\<lparr>vm_rounding := 0\<rparr>"

definition randomx_vm_initialize :: "RandomX_Configuration \<Rightarrow> randomx_vm \<Rightarrow> randomx_vm" where
  "randomx_vm_initialize cfg vm =
    (let entropy = getEntropy (vm_program vm);
         small = (\<lambda>i. getSmallPositiveFloatBits (entropy i));
         a = map (\<lambda>i. (small (2 * i), small (2 * i + 1))) [0..<4];
         addressRegisters = entropy 12;
         r0 = unat (addressRegisters AND 1);
         addressRegisters = drop_bit 1 addressRegisters;
         r1 = 2 + unat (addressRegisters AND 1);
         addressRegisters = drop_bit 1 addressRegisters;
         r2 = 4 + unat (addressRegisters AND 1);
         addressRegisters = drop_bit 1 addressRegisters;
         r3 = 6 + unat (addressRegisters AND 1)
     in vm\<lparr>vm_reg := (vm_reg vm)\<lparr>rf_a := a\<rparr>,
           vm_ma := ucast (entropy 8) AND CacheLineAlignMask_Calculated cfg,
           vm_mx := ucast (entropy 10),
           vm_config := \<lparr>eMask = [getFloatMask (entropy 14), getFloatMask (entropy 15)],
             readReg0 = r0, readReg1 = r1, readReg2 = r2, readReg3 = r3\<rparr>,
           vm_datasetOffset := (entropy 13 mod (of_nat DatasetExtraItems_Calculated + 1)) * of_nat CacheLineSize\<rparr>)"

section \<open>The interpreter\<close>

text \<open>Blocks of the scratchpad; outside it there is nothing to read or write.\<close>

definition sp_read :: "rx_state \<Rightarrow> u32 \<Rightarrow> nat \<Rightarrow> bytes option" where
  "sp_read S addr n = (if unat addr + n \<le> length (scratchpad S) then Some (sub (unat addr) n (scratchpad S)) else None)"

definition sp_write :: "rx_state \<Rightarrow> u32 \<Rightarrow> bytes \<Rightarrow> rx_state option" where
  "sp_write S addr b =
    (if unat addr + length b \<le> length (scratchpad S) then Some (S\<lparr>scratchpad := blit (scratchpad S) (unat addr) b\<rparr>)
     else None)"

definition words64 :: "bytes \<Rightarrow> u64 list" where
  "words64 p = map (\<lambda>i. load64 (sub (8 * i) 8 p)) [0..<RegistersCount]"

abbreviation upd_nreg :: "(NativeRegisterFile \<Rightarrow> NativeRegisterFile) \<Rightarrow> rx_state \<Rightarrow> rx_state" where
  "upd_nreg g S \<equiv> S\<lparr>nreg := g (nreg S)\<rparr>"

text \<open>The state of the main loop: registers and scratchpad, \<open>mem.mx\<close>, \<open>mem.ma\<close>, \<open>spAddr0\<close>, \<open>spAddr1\<close>.\<close>

type_synonym exec_state = "rx_state \<times> u32 \<times> u32 \<times> u32 \<times> u32"

text \<open>The registers at the start of an iteration.\<close>

definition load_registers :: "fpu \<Rightarrow> ProgramConfiguration \<Rightarrow> u32 \<Rightarrow> u32 \<Rightarrow> rx_state \<Rightarrow> rx_state option" where
  "load_registers F config spAddr0 spAddr1 S = do {
     p \<leftarrow> sp_read S spAddr0 64;
     q \<leftarrow> sp_read S spAddr1 64;
     let cvt = (\<lambda>i. rx_cvt_packed_int_vec_f128 F (sub (8 * i) 8 q));
     Some (upd_nreg (\<lambda>R. R\<lparr>nr_r := map2 (XOR) (nr_r R) (words64 p),
       nr_f := map cvt [0..<RegisterCountFlt],
       nr_e := map (\<lambda>i. maskRegisterExponentMantissa config (cvt (RegisterCountFlt + i))) [0..<RegisterCountFlt]\<rparr>) S)
   }"

text \<open>The end of an iteration: integer registers, then the mixed float registers, go to the scratchpad.\<close>

definition store_registers :: "u32 \<Rightarrow> u32 \<Rightarrow> rx_state \<Rightarrow> rx_state option" where
  "store_registers spAddr0 spAddr1 S = do {
     S \<leftarrow> sp_write S spAddr1 (concat (map store64 (nr_r (nreg S))));
     let S = upd_nreg (\<lambda>R. R\<lparr>nr_f := map2 rx_xor_vec_f128 (nr_f R) (nr_e R)\<rparr>) S;
     sp_write S spAddr0 (concat (map rx_store_vec_f128 (nr_f (nreg S))))
   }"

definition datasetRead :: "(u64 \<Rightarrow> u64 list option) \<Rightarrow> u64 \<Rightarrow> rx_state \<Rightarrow> rx_state option" where
  "datasetRead dataset address S =
    map_option (\<lambda>line. upd_nreg (\<lambda>R. R\<lparr>nr_r := map2 (XOR) (nr_r R) line\<rparr>) S) (dataset address)"

definition execute_turn :: "rx_env \<Rightarrow> ProgramConfiguration \<Rightarrow> InstructionByteCode list \<Rightarrow> u64 \<Rightarrow> exec_state
    \<Rightarrow> exec_state option" where
  "execute_turn E config bytecode offset = (\<lambda>(S, mx, ma, spAddr0, spAddr1). do {
     let cfg = e_cfg E;
     let r = nr_r (nreg S);
     let spMix = r ! readReg0 config XOR r ! readReg1 config;
     let spAddr0 = (spAddr0 XOR ucast spMix) AND ScratchpadL3Mask64_Calculated cfg;
     let spAddr1 = (spAddr1 XOR ucast (drop_bit 32 spMix)) AND ScratchpadL3Mask64_Calculated cfg;
     S \<leftarrow> load_registers (e_fpu E) config spAddr0 spAddr1 S;
     S \<leftarrow> executeBytecode (e_fpu E) cfg config bytecode S;
     let r = nr_r (nreg S);
     let mx = mx XOR ucast (r ! readReg2 config XOR r ! readReg3 config);
     let mx = mx AND CacheLineAlignMask_Calculated cfg;
     S \<leftarrow> datasetRead (e_dataset E) (offset + ucast ma) S;
     S \<leftarrow> store_registers spAddr0 spAddr1 S;
     Some (S, ma, mx, 0, 0)
   })"

primrec execute_loop :: "rx_env \<Rightarrow> ProgramConfiguration \<Rightarrow> InstructionByteCode list \<Rightarrow> u64 \<Rightarrow> nat \<Rightarrow> exec_state
    \<Rightarrow> exec_state option" where
  "execute_loop E config bytecode offset 0 st = Some st"
| "execute_loop E config bytecode offset (Suc n) st =
    do { st \<leftarrow> execute_turn E config bytecode offset st; execute_loop E config bytecode offset n st }"

text \<open>
  \<open>NativeRegisterFile nreg\<close> starts with zero integer registers; \<open>f\<close> and \<open>e\<close> are not initialised
  (zeros here) and every iteration loads them before it reads them.
\<close>

definition execute_vm :: "rx_env \<Rightarrow> randomx_vm \<Rightarrow> randomx_vm option" where
  "execute_vm E vm = do {
     let cfg = e_cfg E;
     let R = \<lparr>nr_r = replicate RegistersCount 0, nr_f = replicate RegisterCountFlt (0, 0),
       nr_e = replicate RegisterCountFlt (0, 0), nr_a = rf_a (vm_reg vm)\<rparr>;
     bytecode \<leftarrow> compileProgram cfg (program_instrs (vm_program vm)) (vm_bytecode vm);
     let S = \<lparr>nreg = R, scratchpad = vm_scratchpad vm, rounding = vm_rounding vm\<rparr>;
     (S, mx, ma, sp0, sp1) \<leftarrow> execute_loop E (vm_config vm) bytecode (vm_datasetOffset vm) (ProgramIterations cfg)
       (S, vm_mx vm, vm_ma vm, vm_mx vm, vm_ma vm);
     let R = nreg S;
     Some (vm\<lparr>vm_bytecode := bytecode, vm_scratchpad := scratchpad S, vm_rounding := rounding S,
       vm_mx := mx, vm_ma := ma,
       vm_reg := (vm_reg vm)\<lparr>rf_r := nr_r R, rf_f := nr_f R, rf_e := nr_e R\<rparr>\<rparr>)
   }"

definition generateProgram :: "rx_env \<Rightarrow> bytes \<Rightarrow> randomx_vm \<Rightarrow> randomx_vm" where
  "generateProgram E seed vm = vm\<lparr>vm_program := blit (vm_program vm) 0
     (fillAes4Rx4 (e_cfg E) (e_aes E) seed (128 + ProgramSize (e_cfg E) * 8))\<rparr>"

definition run_vm :: "rx_env \<Rightarrow> bytes \<Rightarrow> randomx_vm \<Rightarrow> randomx_vm option" where
  "run_vm E seed vm = execute_vm E (randomx_vm_initialize (e_cfg E) (generateProgram E seed vm))"

section \<open>Results\<close>

text \<open>The 256 bytes of the register file and its last 64, the registers \<open>a\<close>.\<close>

definition register_bytes :: "RegisterFile \<Rightarrow> bytes" where
  "register_bytes R = concat (map store64 (rf_r R)) @ concat (map rx_store_vec_f128 (rf_f R)) @
     concat (map rx_store_vec_f128 (rf_e R)) @ concat (map rx_store_vec_f128 (rf_a R))"

definition put_a :: "bytes \<Rightarrow> RegisterFile \<Rightarrow> RegisterFile" where
  "put_a b R = R\<lparr>rf_a := map (\<lambda>i. rx_load_vec_f128 (sub (16 * i) 16 b)) [0..<RegisterCountFlt]\<rparr>"

definition blake2b_run :: "nat \<Rightarrow> bytes \<Rightarrow> bytes" where
  "blake2b_run outlen inp = the (snd (rx_blake2b (Some (replicate outlen 0)) outlen (Some inp) (length inp)))"

definition RANDOMX_HASH_SIZE :: nat where "RANDOMX_HASH_SIZE = 32"

text \<open>The scratchpad and the fill state are updated in place; the seed is overwritten by the generator.\<close>

definition getFinalResult :: "rx_env \<Rightarrow> randomx_vm \<Rightarrow> bytes \<times> randomx_vm" where
  "getFinalResult E vm =
    (let vm = vm\<lparr>vm_reg := put_a (hashAes1Rx4 (e_aes E) (vm_scratchpad vm)) (vm_reg vm)\<rparr>
     in (blake2b_run RANDOMX_HASH_SIZE (register_bytes (vm_reg vm)), vm))"

definition hashAndFill :: "rx_env \<Rightarrow> bytes \<Rightarrow> randomx_vm \<Rightarrow> bytes \<times> bytes \<times> randomx_vm" where
  "hashAndFill E fill_state vm =
    (let (pad, hash, fill_state) =
           (if e_soft E = 0 then hashAndFillAes1Rx4 0 2 (e_aes E) (vm_scratchpad vm) fill_state
            else hashAndFillAes1Rx4 (e_soft E) (e_unroll E) (e_aes E) (vm_scratchpad vm) fill_state);
         vm = vm\<lparr>vm_scratchpad := pad, vm_reg := put_a hash (vm_reg vm)\<rparr>
     in (blake2b_run RANDOMX_HASH_SIZE (register_bytes (vm_reg vm)), fill_state, vm))"

definition initScratchpad :: "rx_env \<Rightarrow> bytes \<Rightarrow> randomx_vm \<Rightarrow> bytes \<times> randomx_vm" where
  "initScratchpad E seed vm =
    (let (seed, pad) = fillAes1Rx4 (e_aes E) seed (unat (ScratchpadL3_Size (e_cfg E)))
     in (seed, vm\<lparr>vm_scratchpad := blit (vm_scratchpad vm) 0 pad\<rparr>))"

section \<open>The hash\<close>

text \<open>
  The input hash of XLA: the return code and the output. Yespower and KangarooTwelve return their code and the
  digest of 32 bytes they write to the front of the 64-byte output; yespower writes it on an error, too.
\<close>

definition rx_yespower_k12 :: "rx_env \<Rightarrow> nat \<Rightarrow> bytes \<Rightarrow> int \<times> bytes" where
  "rx_yespower_k12 E outlen inp =
    (let out = blake2b_run outlen inp;
         (e, digest) = e_yespower E out;
         out = blit out 0 digest
     in if e \<noteq> 0 then (- 1, out) else let (e, digest) = e_K12 E out in (e, blit out 0 digest))"

text \<open>The seed of a hash. \<open>xla\<close> says that the algorithm is \<open>RX_XLA\<close>; the error code is dropped.\<close>

definition input_hash :: "rx_env \<Rightarrow> bool \<Rightarrow> bytes \<Rightarrow> bytes" where
  "input_hash E xla inp = (if xla then snd (rx_yespower_k12 E 64 inp) else blake2b_run 64 inp)"

text \<open>\<open>for (chain = 0; chain < ProgramCount - 1; ++chain)\<close> on 32-bit counters.\<close>

primrec chain_loop :: "rx_env \<Rightarrow> nat \<Rightarrow> bytes \<Rightarrow> randomx_vm \<Rightarrow> (bytes \<times> randomx_vm) option" where
  "chain_loop E 0 tempHash vm = Some (tempHash, vm)"
| "chain_loop E (Suc n) tempHash vm =
    do { vm \<leftarrow> run_vm E tempHash vm; chain_loop E n (blake2b_run 64 (register_bytes (vm_reg vm))) vm }"

definition chain_length :: "RandomX_Configuration \<Rightarrow> nat" where
  "chain_length cfg = unat (of_nat (ProgramCount cfg) - 1 :: u32)"

definition randomx_calculate_hash :: "rx_env \<Rightarrow> bool \<Rightarrow> bytes \<Rightarrow> randomx_vm \<Rightarrow> (bytes \<times> randomx_vm) option" where
  "randomx_calculate_hash E xla inp vm = do {
     let tempHash = input_hash E xla inp;
     let (tempHash, vm) = initScratchpad E tempHash vm;
     let vm = rx_reset_float_state vm;
     (tempHash, vm) \<leftarrow> chain_loop E (chain_length (e_cfg E)) tempHash vm;
     vm \<leftarrow> run_vm E tempHash vm;
     Some (getFinalResult E vm)
   }"

definition randomx_calculate_hash_first :: "rx_env \<Rightarrow> bool \<Rightarrow> bytes \<Rightarrow> randomx_vm \<Rightarrow> bytes \<times> randomx_vm" where
  "randomx_calculate_hash_first E xla inp vm = initScratchpad E (input_hash E xla inp) vm"

definition randomx_calculate_hash_next :: "rx_env \<Rightarrow> bool \<Rightarrow> bytes \<Rightarrow> bytes \<Rightarrow> randomx_vm
    \<Rightarrow> (bytes \<times> bytes \<times> randomx_vm) option" where
  "randomx_calculate_hash_next E xla tempHash nextInput vm = do {
     let vm = rx_reset_float_state vm;
     (tempHash, vm) \<leftarrow> chain_loop E (chain_length (e_cfg E)) tempHash vm;
     vm \<leftarrow> run_vm E tempHash vm;
     Some (hashAndFill E (input_hash E xla nextInput) vm)
   }"

section \<open>Every run succeeds\<close>

lemma configurations_sizes:
  "cfg \<in> set rx_configurations \<Longrightarrow> 256 dvd unat (ScratchpadL3_Size (Apply_masks cfg)) \<and>
     64 * ((128 + ProgramSize (Apply_masks cfg) * 8 + 63) div 64) \<le> 2176"
  unfolding rx_configurations_def list.set
  by (elim insertE emptyE) (simp_all add: Apply_masks_def configuration_defs)

text \<open>What the environment provides: an applied configuration and a dataset of its size.\<close>

definition env_ok :: "rx_env \<Rightarrow> bool" where
  "env_ok E \<longleftrightarrow> (\<exists>cfg \<in> set rx_configurations. e_cfg E = Apply_masks cfg) \<and>
     (\<forall>a. 64 dvd unat a \<longrightarrow> unat a + 64 \<le> unat (DatasetBaseSize (e_cfg E)) + DatasetExtraSize \<longrightarrow>
        (\<exists>line. e_dataset E a = Some line \<and> length line = 8))"

definition vm_ok :: "rx_env \<Rightarrow> randomx_vm \<Rightarrow> bool" where
  "vm_ok E vm \<longleftrightarrow> length (vm_program vm) = 2176 \<and> length (vm_bytecode vm) = RANDOMX_PROGRAM_MAX_SIZE \<and>
     length (vm_scratchpad vm) = unat (ScratchpadL3_Size (e_cfg E)) \<and>
     length (rf_r (vm_reg vm)) = 8 \<and> length (rf_f (vm_reg vm)) = 4 \<and> length (rf_e (vm_reg vm)) = 4 \<and>
     length (rf_a (vm_reg vm)) = 4"

definition regs_ok :: "ProgramConfiguration \<Rightarrow> bool" where
  "regs_ok config \<longleftrightarrow> readReg0 config < 8 \<and> readReg1 config < 8 \<and> readReg2 config < 8 \<and> readReg3 config < 8"

lemma env_config_ok: "env_ok E \<Longrightarrow> config_ok (e_cfg E)"
  using configurations_ok by (auto simp: env_ok_def)

lemma load_registers_ok:
  assumes "config_ok cfg" and "state_ok cfg S"
    and "unat a \<le> unat (ScratchpadL3Mask64_Calculated cfg)" and "unat b \<le> unat (ScratchpadL3Mask64_Calculated cfg)"
  shows "\<exists>S'. load_registers F config a b S = Some S' \<and> state_ok cfg S'"
  using assms
  by (auto simp: load_registers_def sp_read_def state_ok_def config_ok_def words64_def RegistersCount_def RegisterCountFlt_def)

lemma length_concat_const: "(\<And>x. length (f x) = k) \<Longrightarrow> length (concat (map f xs)) = k * length xs"
  by (induction xs) simp_all

lemma length_rx_store_f128 [simp]: "length (rx_store_vec_f128 v) = 16"
  by (simp add: rx_store_vec_f128_def)

lemma store_registers_ok:
  assumes "config_ok cfg" and "state_ok cfg S"
    and "unat a \<le> unat (ScratchpadL3Mask64_Calculated cfg)" and "unat b \<le> unat (ScratchpadL3Mask64_Calculated cfg)"
  shows "\<exists>S'. store_registers a b S = Some S' \<and> state_ok cfg S'"
  using assms
  by (auto simp: store_registers_def sp_write_def state_ok_def config_ok_def
      length_concat_const [where k = 8] length_concat_const [where k = 16])

lemma dataset_address:
  assumes "env_ok E" and "unat offset \<le> DatasetExtraItems_Calculated * 64"
    and "unat ma \<le> unat (CacheLineAlignMask_Calculated (e_cfg E))"
    and "64 dvd unat offset" and "64 dvd unat ma"
  shows "\<exists>line. e_dataset E (offset + ucast (ma :: u32)) = Some line \<and> length line = 8"
proof -
  have "unat (offset + ucast ma) \<le> unat offset + unat ma"
  proof -
    have "unat (ucast ma :: u64) \<le> unat ma"
      by (simp add: unsigned_ucast_eq)
    moreover have "unat (offset + ucast ma) \<le> unat offset + unat (ucast ma :: u64)"
      by (simp only: unat_word_ariths mod_less_eq_dividend)
    ultimately show ?thesis by simp
  qed
  moreover have "unat (CacheLineAlignMask_Calculated (e_cfg E)) + 64 \<le> unat (DatasetBaseSize (e_cfg E))"
    using env_config_ok [OF assms(1)] by (simp add: config_ok_def)
  ultimately have "unat (offset + ucast ma) + 64 \<le> unat (DatasetBaseSize (e_cfg E)) + DatasetExtraSize"
    using assms(2,3) by (simp add: DatasetExtraItems_Calculated_def DatasetExtraSize_def RANDOMX_DATASET_ITEM_SIZE_def)
  moreover have "64 dvd unat (offset + ucast ma)"
  proof -
    have "64 dvd unat (ucast ma :: u64)"
      using assms(5) by (simp add: unsigned_ucast_eq take_bit_eq_mod dvd_mod)
    then show ?thesis
      using assms(4) by (simp only: unat_word_ariths) (intro dvd_mod dvd_add; simp)
  qed
  ultimately show ?thesis using assms(1) by (simp add: env_ok_def)
qed

text \<open>A masked address is a multiple of the line.\<close>

lemma configurations_align: "cfg \<in> set rx_configurations \<Longrightarrow> CacheLineAlignMask_Calculated (Apply_masks cfg) AND mask 6 = 0"
  unfolding rx_configurations_def list.set
  by (elim insertE emptyE)
    (simp_all add: Apply_masks_def configuration_defs RANDOMX_DATASET_ITEM_SIZE_def mask_eq_exp_minus_1)

lemma aligned_mask:
  assumes "env_ok E"
  shows "64 dvd unat (x AND CacheLineAlignMask_Calculated (e_cfg E))"
proof -
  have "CacheLineAlignMask_Calculated (e_cfg E) AND mask 6 = 0"
    using assms configurations_align by (auto simp: env_ok_def)
  then have "(x AND CacheLineAlignMask_Calculated (e_cfg E)) AND mask 6 = 0" by (simp add: and.assoc)
  then have "take_bit 6 (x AND CacheLineAlignMask_Calculated (e_cfg E)) = 0" by (simp only: take_bit_eq_mask)
  then have "take_bit 6 (unat (x AND CacheLineAlignMask_Calculated (e_cfg E))) = 0"
    by (metis unsigned_0 unsigned_take_bit_eq)
  then show ?thesis by (simp add: take_bit_eq_mod dvd_eq_mod_eq_0)
qed

lemma and_le_mask: "unat (x AND m) \<le> unat (m :: 'a::len word)"
  using word_and_le1 [of x m] by (simp add: word_le_nat_alt)

definition exec_ok :: "rx_env \<Rightarrow> exec_state \<Rightarrow> bool" where
  "exec_ok E = (\<lambda>(S, mx, ma, sp0, sp1). state_ok (e_cfg E) S \<and> unat ma \<le> unat (CacheLineAlignMask_Calculated (e_cfg E)) \<and>
     64 dvd unat ma)"

lemma execute_turn_ok:
  assumes E: "env_ok E" and bc: "bytecode_ok (e_cfg E) bc (ProgramSize (e_cfg E))"
    and offset: "unat offset \<le> DatasetExtraItems_Calculated * 64" "64 dvd unat offset" and st: "exec_ok E st"
  shows "\<exists>st'. execute_turn E config bc offset st = Some st' \<and> exec_ok E st'"
proof -
  obtain S mx ma sp0 sp1 where st_eq: "st = (S, mx, ma, sp0, sp1)" by (metis prod_cases5)
  with st have S: "state_ok (e_cfg E) S" and ma: "unat ma \<le> unat (CacheLineAlignMask_Calculated (e_cfg E))" "64 dvd unat ma"
    by (simp_all add: exec_ok_def)
  note cfg = env_config_ok [OF E]
  let ?mix = "nr_r (nreg S) ! readReg0 config XOR nr_r (nreg S) ! readReg1 config"
  let ?a = "(sp0 XOR ucast ?mix) AND ScratchpadL3Mask64_Calculated (e_cfg E)"
  let ?b = "(sp1 XOR ucast (drop_bit 32 ?mix)) AND ScratchpadL3Mask64_Calculated (e_cfg E)"
  obtain S1 where S1: "load_registers (e_fpu E) config ?a ?b S = Some S1" "state_ok (e_cfg E) S1"
    using load_registers_ok [OF cfg S and_le_mask and_le_mask] by blast
  obtain n S2 where n: "rx_steps (e_fpu E) (e_cfg E) config bc (0, S1) n (int (ProgramSize (e_cfg E)), S2)" "state_ok (e_cfg E) S2"
    using run_reaches [OF bc S1(2) order_refl] by blast
  note S2 = steps_end [OF n(1)]
  obtain line where line: "e_dataset E (offset + ucast ma) = Some line" "length line = 8"
    using dataset_address [OF E offset(1) ma(1) offset(2) ma(2)] by blast
  then obtain S3 where S3: "datasetRead (e_dataset E) (offset + ucast ma) S2 = Some S3" "state_ok (e_cfg E) S3"
    using n(2) by (auto simp: datasetRead_def state_ok_def)
  obtain S4 where S4: "store_registers ?a ?b S3 = Some S4" "state_ok (e_cfg E) S4"
    using store_registers_ok [OF cfg S3(2) and_le_mask and_le_mask] by blast
  show ?thesis
    using S1(1) S2 S3(1) S4 and_le_mask aligned_mask [OF E] by (auto simp: st_eq execute_turn_def exec_ok_def Let_def)
qed

lemma execute_loop_ok:
  assumes "env_ok E" and "bytecode_ok (e_cfg E) bc (ProgramSize (e_cfg E))"
    and "unat offset \<le> DatasetExtraItems_Calculated * 64" and "64 dvd unat offset"
  shows "exec_ok E st \<Longrightarrow> \<exists>st'. execute_loop E config bc offset n st = Some st' \<and> exec_ok E st'"
proof (induction n arbitrary: st)
  case (Suc n)
  obtain st1 where "execute_turn E config bc offset st = Some st1" "exec_ok E st1"
    using execute_turn_ok [OF assms Suc.prems] by blast
  with Suc.IH show ?case by simp
qed simp

definition ready :: "rx_env \<Rightarrow> randomx_vm \<Rightarrow> bool" where
  "ready E vm \<longleftrightarrow> vm_ok E vm \<and> unat (vm_ma vm) \<le> unat (CacheLineAlignMask_Calculated (e_cfg E)) \<and>
     64 dvd unat (vm_ma vm) \<and> unat (vm_datasetOffset vm) \<le> DatasetExtraItems_Calculated * 64 \<and> 64 dvd unat (vm_datasetOffset vm)"

lemma execute_vm_ok:
  assumes "env_ok E" and "ready E vm"
  shows "\<exists>vm'. execute_vm E vm = Some vm' \<and> vm_ok E vm'"
proof -
  have vm: "vm_ok E vm" using assms(2) by (simp add: ready_def)
  obtain bc where bc: "compileProgram (e_cfg E) (program_instrs (vm_program vm)) (vm_bytecode vm) = Some bc"
    "bytecode_ok (e_cfg E) bc (ProgramSize (e_cfg E))" "length bc = RANDOMX_PROGRAM_MAX_SIZE"
    using compileProgram_ok [OF env_config_ok [OF assms(1)], of "vm_bytecode vm"] vm by (auto simp: vm_ok_def)
  let ?S = "\<lparr>nreg = \<lparr>nr_r = replicate RegistersCount 0, nr_f = replicate RegisterCountFlt (0, 0),
       nr_e = replicate RegisterCountFlt (0, 0), nr_a = rf_a (vm_reg vm)\<rparr>,
       scratchpad = vm_scratchpad vm, rounding = vm_rounding vm\<rparr>"
  have "exec_ok E (?S, vm_mx vm, vm_ma vm, vm_mx vm, vm_ma vm)"
    using assms(2) by (simp add: exec_ok_def state_ok_def ready_def vm_ok_def RegistersCount_def RegisterCountFlt_def)
  then obtain S mx ma sp0 sp1 where run:
    "execute_loop E (vm_config vm) bc (vm_datasetOffset vm) (ProgramIterations (e_cfg E))
      (?S, vm_mx vm, vm_ma vm, vm_mx vm, vm_ma vm) = Some (S, mx, ma, sp0, sp1)" and S: "state_ok (e_cfg E) S"
    using execute_loop_ok [OF assms(1) bc(2)] assms(2) unfolding ready_def exec_ok_def by blast
  let ?vm = "vm\<lparr>vm_bytecode := bc, vm_scratchpad := scratchpad S, vm_rounding := rounding S,
       vm_mx := mx, vm_ma := ma,
       vm_reg := (vm_reg vm)\<lparr>rf_r := nr_r (nreg S), rf_f := nr_f (nreg S), rf_e := nr_e (nreg S)\<rparr>\<rparr>"
  have "execute_vm E vm = Some ?vm"
    unfolding execute_vm_def Let_def bc(1) bind.bind_lunit run prod.case ..
  moreover have "vm_ok E ?vm"
    using bc(3) vm S by (simp add: vm_ok_def state_ok_def)
  ultimately show ?thesis by blast
qed

lemma initialize_ready:
  assumes "env_ok E" and "vm_ok E vm"
  shows "ready E (randomx_vm_initialize (e_cfg E) vm)"
proof -
  have "unat ((x mod (of_nat DatasetExtraItems_Calculated + 1)) * of_nat CacheLineSize) \<le> DatasetExtraItems_Calculated * 64" for x :: u64
  proof -
    have k: "DatasetExtraItems_Calculated = 524287" "CacheLineSize = 64"
      by (simp_all add: DatasetExtraItems_Calculated_def DatasetExtraSize_def RANDOMX_DATASET_ITEM_SIZE_def CacheLineSize_def)
    have "unat (x mod 524288) = unat x mod 524288"
      by (simp add: unat_mod)
    then have "unat (x mod 524288) < 524288" by simp
    then have "unat ((x mod 524288) * 64) \<le> 524287 * 64"
      by (subst unat_word_ariths) simp
    then show ?thesis unfolding k by simp
  qed
  moreover have "64 dvd unat (y * of_nat CacheLineSize :: u64)" for y
    unfolding unat_word_ariths by (intro dvd_mod dvd_mult) (simp_all add: CacheLineSize_def RANDOMX_DATASET_ITEM_SIZE_def)
  ultimately show ?thesis
    using assms(2) and_le_mask aligned_mask [OF assms(1)] by (simp add: ready_def vm_ok_def randomx_vm_initialize_def Let_def)
qed

lemma length_fillAes4Rx4: "length (fillAes4Rx4 cfg A seed n) = 64 * ((n + 63) div 64)"
  by (simp add: fillAes4Rx4_def)

lemma run_vm_ok:
  assumes "env_ok E" and "vm_ok E vm"
  shows "\<exists>vm'. run_vm E seed vm = Some vm' \<and> vm_ok E vm'"
proof -
  have "length (fillAes4Rx4 (e_cfg E) (e_aes E) seed (128 + ProgramSize (e_cfg E) * 8)) \<le> 2176"
    using assms(1) configurations_sizes by (fastforce simp: env_ok_def length_fillAes4Rx4)
  then have "vm_ok E (generateProgram E seed vm)"
    using assms(2) by (simp add: vm_ok_def generateProgram_def)
  then show ?thesis
    unfolding run_vm_def by (intro execute_vm_ok [OF assms(1)] initialize_ready [OF assms(1)])
qed

lemma chain_loop_ok:
  assumes "env_ok E"
  shows "vm_ok E vm \<Longrightarrow> \<exists>t vm'. chain_loop E n seed vm = Some (t, vm') \<and> vm_ok E vm'"
proof (induction n arbitrary: seed vm)
  case (Suc n)
  obtain vm1 where "run_vm E seed vm = Some vm1" "vm_ok E vm1"
    using run_vm_ok [OF assms Suc.prems] by blast
  with Suc.IH [of vm1] show ?case by simp
qed simp

lemma length_blake2b_run: "0 < n \<Longrightarrow> n \<le> 64 \<Longrightarrow> length (blake2b_run n inp) = n"
  by (simp add: blake2b_run_def rx_blake2b_ok opt_len_def length_blake2b_spec)

lemma initScratchpad_ok:
  assumes "env_ok E" and "vm_ok E vm" and "initScratchpad E seed vm = (t, vm')"
  shows "vm_ok E vm'"
proof -
  have "64 * ((unat (ScratchpadL3_Size (e_cfg E)) + 63) div 64) = unat (ScratchpadL3_Size (e_cfg E))"
    using assms(1) configurations_sizes unfolding env_ok_def by fastforce
  then show ?thesis
    using assms(2,3)
    by (auto simp: initScratchpad_def fillAes1Rx4_def split_def Let_def vm_ok_def)
qed

lemma getFinalResult_ok:
  "vm_ok E vm \<Longrightarrow> getFinalResult E vm = (out, vm') \<Longrightarrow> length out = RANDOMX_HASH_SIZE \<and> vm_ok E vm'"
  by (auto simp: getFinalResult_def Let_def vm_ok_def put_a_def RegisterCountFlt_def RegistersCount_def RANDOMX_HASH_SIZE_def length_blake2b_run)

lemma reset_ok: "vm_ok E vm \<Longrightarrow> vm_ok E (rx_reset_float_state vm)"
  by (simp add: rx_reset_float_state_def vm_ok_def)

text \<open>The runs between the seed and the final result.\<close>

definition hash_runs :: "rx_env \<Rightarrow> bytes \<Rightarrow> randomx_vm \<Rightarrow> randomx_vm option" where
  "hash_runs E t vm = do {
     (t, vm) \<leftarrow> chain_loop E (chain_length (e_cfg E)) t (rx_reset_float_state vm);
     run_vm E t vm
   }"

lemma hash_runs_ok:
  assumes "env_ok E" and "vm_ok E vm"
  shows "\<exists>vm'. hash_runs E t vm = Some vm' \<and> vm_ok E vm'"
proof -
  obtain t1 vm1 where "chain_loop E (chain_length (e_cfg E)) t (rx_reset_float_state vm) = Some (t1, vm1)" "vm_ok E vm1"
    using chain_loop_ok [OF assms(1) reset_ok [OF assms(2)]] by blast
  with run_vm_ok [OF assms(1)] show ?thesis by (simp add: hash_runs_def)
qed

lemma calculate_hash_runs:
  "randomx_calculate_hash E xla inp vm =
    (case randomx_calculate_hash_first E xla inp vm of (t, vm1) \<Rightarrow>
       map_option (getFinalResult E) (hash_runs E t vm1))"
  by (simp add: randomx_calculate_hash_def randomx_calculate_hash_first_def hash_runs_def Let_def split_def
      map_conv_bind_option comp_def)

lemma calculate_hash_next_runs:
  "randomx_calculate_hash_next E xla t inp vm = map_option (hashAndFill E (input_hash E xla inp)) (hash_runs E t vm)"
  by (simp add: randomx_calculate_hash_next_def hash_runs_def Let_def split_def map_conv_bind_option comp_def)

lemma calculate_hash_ok:
  assumes "env_ok E" and "vm_ok E vm"
  shows "\<exists>out vm'. randomx_calculate_hash E xla inp vm = Some (out, vm') \<and> length out = RANDOMX_HASH_SIZE \<and> vm_ok E vm'"
proof -
  obtain t vm1 where f: "randomx_calculate_hash_first E xla inp vm = (t, vm1)" by fastforce
  then have "vm_ok E vm1"
    using initScratchpad_ok [OF assms] by (simp add: randomx_calculate_hash_first_def)
  then obtain vm2 where vm2: "hash_runs E t vm1 = Some vm2" "vm_ok E vm2"
    using hash_runs_ok [OF assms(1)] by blast
  obtain out vm' where "getFinalResult E vm2 = (out, vm')" by fastforce
  with getFinalResult_ok [OF vm2(2) this] vm2(1) f show ?thesis
    by (simp add: calculate_hash_runs)
qed

lemma hashAndFill_two:
  assumes "env_ok E" and "vm_ok E vm"
  shows "hashAndFill E seed vm =
    (fst (getFinalResult E vm), initScratchpad E seed (snd (getFinalResult E vm)))"
proof -
  have d: "256 dvd length (vm_scratchpad vm)"
    using assms configurations_sizes by (fastforce simp: env_ok_def vm_ok_def)
  have "64 * hf_blocks s u dvd 256" for s u by (simp add: hf_blocks_def)
  with d have "64 * hf_blocks s u dvd length (vm_scratchpad vm)" for s u
    using dvd_trans by blast
  note p = hashAndFill_passes [OF this]
  have "64 * ((unat (ScratchpadL3_Size (e_cfg E)) + 63) div 64) = unat (ScratchpadL3_Size (e_cfg E))"
    using assms(1) configurations_sizes unfolding env_ok_def by fastforce
  then have "blit (vm_scratchpad vm) 0 (snd (fillAes1Rx4 (e_aes E) seed (unat (ScratchpadL3_Size (e_cfg E))))) =
      snd (fillAes1Rx4 (e_aes E) seed (unat (ScratchpadL3_Size (e_cfg E))))"
    using assms(2) by (intro blit_0_full) (simp add: fillAes1Rx4_def split_def vm_ok_def Let_def)
  then show ?thesis
    using assms(2) by (simp add: hashAndFill_def p getFinalResult_def initScratchpad_def split_def Let_def vm_ok_def)
qed

section \<open>Batches\<close>

text \<open>Hashing inputs one after another, and feeding them to the pipeline.\<close>

fun hash_sequence :: "rx_env \<Rightarrow> bool \<Rightarrow> bytes list \<Rightarrow> randomx_vm \<Rightarrow> (bytes list \<times> randomx_vm) option" where
  "hash_sequence E xla [] vm = Some ([], vm)"
| "hash_sequence E xla (inp # inps) vm = do {
     (out, vm) \<leftarrow> randomx_calculate_hash E xla inp vm;
     (outs, vm) \<leftarrow> hash_sequence E xla inps vm;
     Some (out # outs, vm)
   }"

fun hash_pipeline :: "rx_env \<Rightarrow> bool \<Rightarrow> bytes list \<Rightarrow> bytes \<times> randomx_vm \<Rightarrow> (bytes list \<times> bytes \<times> randomx_vm) option" where
  "hash_pipeline E xla [] (t, vm) = Some ([], t, vm)"
| "hash_pipeline E xla (inp # inps) (t, vm) = do {
     (out, st) \<leftarrow> randomx_calculate_hash_next E xla t inp vm;
     (outs, st) \<leftarrow> hash_pipeline E xla inps st;
     Some (out # outs, st)
   }"

lemma pipeline_step:
  assumes "env_ok E" and "vm_ok E vm" and "randomx_calculate_hash_first E xla inp vm = (t, vm1)"
  shows "\<exists>out vm'. randomx_calculate_hash E xla inp vm = Some (out, vm') \<and> vm_ok E vm' \<and>
    randomx_calculate_hash_next E xla t inp' vm1 = Some (out, randomx_calculate_hash_first E xla inp' vm')"
proof -
  have "vm_ok E vm1"
    using initScratchpad_ok [OF assms(1,2)] assms(3) by (simp add: randomx_calculate_hash_first_def)
  then obtain vm2 where vm2: "hash_runs E t vm1 = Some vm2" "vm_ok E vm2"
    using hash_runs_ok [OF assms(1)] by blast
  obtain out vm' where r: "getFinalResult E vm2 = (out, vm')" by fastforce
  have "vm_ok E vm'" using getFinalResult_ok [OF vm2(2) r] by simp
  moreover have "randomx_calculate_hash E xla inp vm = Some (out, vm')"
    unfolding calculate_hash_runs assms(3) by (simp add: vm2(1) r)
  moreover have "randomx_calculate_hash_next E xla t inp' vm1 = Some (out, randomx_calculate_hash_first E xla inp' vm')"
    unfolding calculate_hash_next_runs randomx_calculate_hash_first_def
    by (simp add: vm2(1) hashAndFill_two [OF assms(1) vm2(2)] r)
  ultimately show ?thesis by blast
qed

lemma pipeline_batch:
  assumes "env_ok E"
  shows "vm_ok E vm \<Longrightarrow> \<exists>outs vm'. hash_sequence E xla (butlast (inp # inps)) vm = Some (outs, vm') \<and>
    hash_pipeline E xla inps (randomx_calculate_hash_first E xla inp vm) =
      Some (outs, randomx_calculate_hash_first E xla (last (inp # inps)) vm')"
proof (induction inps arbitrary: inp vm)
  case Nil
  obtain t vm1 where "randomx_calculate_hash_first E xla inp vm = (t, vm1)" by fastforce
  then show ?case by simp
next
  case (Cons inp' inps)
  obtain t vm1 where f: "randomx_calculate_hash_first E xla inp vm = (t, vm1)" by fastforce
  obtain out vm' where s: "randomx_calculate_hash E xla inp vm = Some (out, vm')" "vm_ok E vm'"
    "randomx_calculate_hash_next E xla t inp' vm1 = Some (out, randomx_calculate_hash_first E xla inp' vm')"
    using pipeline_step [OF assms Cons.prems f] by blast
  obtain outs vm2 where "hash_sequence E xla (butlast (inp' # inps)) vm' = Some (outs, vm2)"
    "hash_pipeline E xla inps (randomx_calculate_hash_first E xla inp' vm') =
      Some (outs, randomx_calculate_hash_first E xla (last (inp' # inps)) vm2)"
    using Cons.IH [OF s(2)] by blast
  with s f show ?case by simp
qed

section \<open>Properties\<close>

text \<open>C3: A hash is always computed: under every shipped configuration, for every input, whatever the
  floating-point unit, the AES rounds, the dataset words and the input hash of XLA return, all the
  programs of the chain run to their end, every read and write of the scratchpad and of the dataset
  is inside it, and the result has 32 bytes; the machine is left ready for the next hash.\<close>

theorem randomx_calculate_hash_total:
  assumes "env_ok E" and "vm_ok E vm"
  shows "\<exists>out vm'. randomx_calculate_hash E xla inp vm = Some (out, vm') \<and> length out = 32 \<and> vm_ok E vm'"
  using calculate_hash_ok [OF assms] by (simp add: RANDOMX_HASH_SIZE_def)

text \<open>An environment and a machine for the witnesses.\<close>

definition scala_env :: rx_env where
  "scala_env = \<lparr>e_cfg = Apply_masks RandomX_ConfigurationScala, e_fpu = zero_fpu,
     e_aes = \<lparr>aesenc = rx_xor_vec_i128, aesdec = rx_xor_vec_i128\<rparr>, e_soft = 2, e_unroll = 4,
     e_dataset = (\<lambda>a. Some [a, 0, 0, 0, 0, 0, 0, 1]), e_yespower = (\<lambda>_. (- 1, replicate 32 0xff)), e_K12 = (\<lambda>_. (0, replicate 32 0))\<rparr>"

definition new_vm :: "rx_env \<Rightarrow> randomx_vm" where
  "new_vm E = \<lparr>vm_program = replicate 2176 0, vm_bytecode = blank_bytecode,
     vm_reg = \<lparr>rf_r = replicate 8 0, rf_f = replicate 4 (0, 0), rf_e = replicate 4 (0, 0), rf_a = replicate 4 (0, 0)\<rparr>,
     vm_config = zero_config, vm_mx = 0, vm_ma = 0, vm_scratchpad = replicate (unat (ScratchpadL3_Size (e_cfg E))) 0,
     vm_datasetOffset = 0, vm_rounding = 0\<rparr>"

lemma scala_env_ok: "env_ok scala_env"
  by (auto simp: env_ok_def scala_env_def rx_configurations_def)

lemma new_vm_ok: "vm_ok E (new_vm E)"
  by (simp add: vm_ok_def new_vm_def length_blank_bytecode)

theorem randomx_calculate_hash_total_witness:
  "\<exists>out vm'. randomx_calculate_hash scala_env True [1, 2, 3] (new_vm scala_env) = Some (out, vm') \<and> length out = 32"
  using randomx_calculate_hash_total [OF scala_env_ok new_vm_ok] by blast

text \<open>C4: The pipelined hash is the plain one: \<open>randomx_calculate_hash_first\<close> on the first input and
  \<open>randomx_calculate_hash_next\<close> on each input after it return the digests, and leave the machine in
  the state, of hashing all inputs but the last one by one and starting on the last. Finishing a
  digest while the scratchpad is refilled for the next input changes nothing.\<close>

theorem randomx_pipeline_correct:
  assumes "env_ok E" and "vm_ok E vm"
  shows "\<exists>outs vm'. hash_sequence E xla (butlast (inp # inps)) vm = Some (outs, vm') \<and>
    hash_pipeline E xla inps (randomx_calculate_hash_first E xla inp vm) =
      Some (outs, randomx_calculate_hash_first E xla (last (inp # inps)) vm')"
  by (rule pipeline_batch [OF assms])

theorem randomx_pipeline_correct_witness:
  "\<exists>outs vm'. hash_sequence scala_env False [[1], [2]] (new_vm scala_env) = Some (outs, vm') \<and>
    hash_pipeline scala_env False [[2], [3]] (randomx_calculate_hash_first scala_env False [1] (new_vm scala_env)) =
      Some (outs, randomx_calculate_hash_first scala_env False [3] vm')"
  using randomx_pipeline_correct [OF scala_env_ok new_vm_ok, of False "[1]" "[[2], [3]]"] by simp

section \<open>Ranges of the float registers\<close>

text \<open>Sign and exponent of a double.\<close>

definition sign_exponent :: "u64 \<Rightarrow> nat" where
  "sign_exponent x = unat (drop_bit 52 x)"

lemma masks_as_mask:
  "mantissaMask = mask 52" "exponentMask = mask 11" "dynamicMantissaMask = mask 56"
  by (simp_all add: mantissaMask_def exponentMask_def dynamicMantissaMask_def mantissaSize_def exponentSize_def mask_eq_exp_minus_1)

lemma exponent_field: "drop_bit 52 (push_bit 52 (z AND mask 11) OR (x AND mask 52)) = z AND (mask 11 :: u64)"
  by (rule bit_word_eqI) (auto simp: bit_simps)

lemma small_float_bits: "sign_exponent (getSmallPositiveFloatBits x) = 1023 + unat (drop_bit 59 x)"
proof -
  have lt: "unat (drop_bit 59 x) < 32"
    using unsigned_less [of x, where ?'a = nat] by (simp add: unat_drop_bit div_less_iff_less_mult)
  have "sign_exponent (getSmallPositiveFloatBits x) = unat ((drop_bit 59 x + 1023) AND mask 11)"
    by (simp only: sign_exponent_def getSmallPositiveFloatBits_def Let_def masks_as_mask mantissaSize_def
        exponentBias_def exponent_field)
  also have "\<dots> = (unat (drop_bit 59 x) + 1023) mod 2 ^ 64 mod 2 ^ 11"
    by (simp add: unat_and_mask unat_word_ariths)
  finally show ?thesis using lt by simp
qed

lemma e_mask_field:
  "drop_bit 52 ((x AND dynamicMantissaMask) OR getFloatMask e) =
    (drop_bit 52 x AND mask 4) OR push_bit 4 (drop_bit 60 e) OR (mask 10 AND NOT (mask 8))"
proof -
  have c: "constExponentBits = mask 10 AND NOT (mask 8)" "(push_bit 22 1 - 1 :: u64) = mask 22"
    by (simp_all add: constExponentBits_def mask_eq_exp_minus_1)
  show ?thesis
    unfolding getFloatMask_def getStaticExponent_def Let_def c masks_as_mask mantissaSize_def dynamicExponentBits_def
      staticExponentBits_def
    by (rule bit_word_eqI) (auto simp: bit_simps dest: bit_imp_le_length)
qed

lemma e_mask_bits:
  "768 \<le> sign_exponent ((x AND dynamicMantissaMask) OR getFloatMask e) \<and>
   sign_exponent ((x AND dynamicMantissaMask) OR getFloatMask e) \<le> 1023"
proof -
  define w where "w = (drop_bit 52 x AND mask 4) OR push_bit 4 (drop_bit 60 e) OR (mask 10 AND NOT (mask 8))"
  have "w AND mask 10 = w"
    unfolding w_def by (rule bit_word_eqI) (auto simp: bit_simps dest: bit_imp_le_length)
  then have "unat w = unat w mod 2 ^ 10" by (metis unat_and_mask)
  then have "unat w < 1024" using mod_less_divisor [of "2 ^ 10" "unat w"] by simp
  moreover have "w AND (mask 10 AND NOT (mask 8)) = mask 10 AND NOT (mask 8)"
    unfolding w_def by (rule bit_word_eqI) (auto simp: bit_simps)
  then have "(mask 10 AND NOT (mask 8)) \<le> w" by (metis word_and_le2)
  then have "768 \<le> unat w" by (simp add: word_le_nat_alt mask_eq_exp_minus_1)
  ultimately show ?thesis
    unfolding sign_exponent_def e_mask_field w_def by simp
qed

text \<open>The float registers start in range: after \<open>initialize\<close> each half of a register \<open>a\<close> is positive with
  an exponent from 0 to 31, and under the masks it sets, the registers \<open>e\<close> an iteration loads are
  positive with an exponent from -255 to 0, whatever the scratchpad holds: none is zero, infinite
  or not a number.\<close>

theorem float_registers_in_range:
  assumes "vm' = randomx_vm_initialize cfg vm"
  shows "(\<forall>(lo, hi) \<in> set (rf_a (vm_reg vm')). {sign_exponent lo, sign_exponent hi} \<subseteq> {1023..1054}) \<and>
    (\<forall>x. case maskRegisterExponentMantissa (vm_config vm') x of (lo, hi) \<Rightarrow>
       {sign_exponent lo, sign_exponent hi} \<subseteq> {768..1023})"
proof -
  have "unat (drop_bit 59 x) < 32" for x :: u64
    using unsigned_less [of x, where ?'a = nat] by (simp add: unat_drop_bit div_less_iff_less_mult)
  then have "unat (drop_bit 59 x) \<le> 31" for x :: u64
    by (simp add: less_Suc_eq_le [symmetric])
  then have "\<forall>(lo, hi) \<in> set (rf_a (vm_reg vm')). {sign_exponent lo, sign_exponent hi} \<subseteq> {1023..1054}"
    by (auto simp: assms randomx_vm_initialize_def Let_def small_float_bits)
  moreover have "case maskRegisterExponentMantissa (vm_config vm') x of (lo, hi) \<Rightarrow>
       {sign_exponent lo, sign_exponent hi} \<subseteq> {768..1023}" for x
    using e_mask_bits
    by (auto simp: assms randomx_vm_initialize_def Let_def maskRegisterExponentMantissa_def rx_and_vec_f128_def
        rx_or_vec_f128_def vec_map2_def rx_set_vec_f128_def)
  ultimately show ?thesis by blast
qed

theorem float_registers_in_range_witness:
  "case maskRegisterExponentMantissa (vm_config (randomx_vm_initialize RandomX_ConfigurationBase (new_vm scala_env))) (0, 0) of
    (lo, hi) \<Rightarrow> {sign_exponent lo, sign_exponent hi} \<subseteq> {768..1023}"
  by (rule spec [OF conjunct2 [OF float_registers_in_range [OF refl]]])

end
