(* ===== verification/RxSuperscalar.thy ===== *)
theory RxSuperscalar
  imports RxMachine Blake2b
begin

text \<open>
  The generator of superscalar programs, \<open>randomx/superscalar.{hpp,cpp}\<close>, with its source of random
  bytes \<open>randomx/blake2_generator.cpp\<close>: it imitates the decoder and the execution ports of an x86
  processor to choose instructions that keep the ports busy.

  The hash that refills the byte source is an argument \<open>B\<close> of the operations; the code's is
  \<open>rx_blake2b\<close> on the 64 bytes themselves. \<open>generateSuperscalar\<close> redraws some immediates until they
  are usable; a draw that never ends has no result.
\<close>

section \<open>Random bytes\<close>

record Blake2Generator =
  gen_data :: bytes
  gen_index :: nat

definition maxSeedSize :: nat where "maxSeedSize = 60"

definition new_Blake2Generator :: "bytes \<Rightarrow> u32 \<Rightarrow> Blake2Generator" where
  "new_Blake2Generator seed nonce =
    (let d = replicate 64 0;
         d = blit d 0 (take (if length seed > maxSeedSize then maxSeedSize else length seed) seed);
         d = blit d maxSeedSize (store32 nonce)
     in \<lparr>gen_data = d, gen_index = 64\<rparr>)"

definition checkData :: "(bytes \<Rightarrow> bytes) \<Rightarrow> nat \<Rightarrow> Blake2Generator \<Rightarrow> Blake2Generator" where
  "checkData B bytesNeeded g =
    (if gen_index g + bytesNeeded > 64 then g\<lparr>gen_data := B (gen_data g), gen_index := 0\<rparr> else g)"

definition getByte :: "(bytes \<Rightarrow> bytes) \<Rightarrow> Blake2Generator \<Rightarrow> u8 \<times> Blake2Generator" where
  "getByte B g =
    (let g = checkData B 1 g
     in (gen_data g ! gen_index g, g\<lparr>gen_index := gen_index g + 1\<rparr>))"

definition getUInt32 :: "(bytes \<Rightarrow> bytes) \<Rightarrow> Blake2Generator \<Rightarrow> u32 \<times> Blake2Generator" where
  "getUInt32 B g =
    (let g = checkData B 4 g;
         ret = load32 (sub (gen_index g) 4 (gen_data g))
     in (ret, g\<lparr>gen_index := gen_index g + 4\<rparr>))"

section \<open>Instructions and macro-operations\<close>

datatype ss_type = SS_ISUB_R | SS_IXOR_R | SS_IADD_RS | SS_IMUL_R | SS_IROR_C | SS_IADD_C7 | SS_IXOR_C7
  | SS_IADD_C8 | SS_IXOR_C8 | SS_IADD_C9 | SS_IXOR_C9 | SS_IMULH_R | SS_ISMULH_R | SS_IMUL_RCP | SS_INVALID

definition ss_types :: "ss_type list" where
  "ss_types = [SS_ISUB_R, SS_IXOR_R, SS_IADD_RS, SS_IMUL_R, SS_IROR_C, SS_IADD_C7, SS_IXOR_C7, SS_IADD_C8, SS_IXOR_C8,
     SS_IADD_C9, SS_IXOR_C9, SS_IMULH_R, SS_ISMULH_R, SS_IMUL_RCP]"

fun ss_opcode :: "ss_type \<Rightarrow> int" where
  "ss_opcode SS_ISUB_R = 0" | "ss_opcode SS_IXOR_R = 1" | "ss_opcode SS_IADD_RS = 2" | "ss_opcode SS_IMUL_R = 3"
| "ss_opcode SS_IROR_C = 4" | "ss_opcode SS_IADD_C7 = 5" | "ss_opcode SS_IXOR_C7 = 6" | "ss_opcode SS_IADD_C8 = 7"
| "ss_opcode SS_IXOR_C8 = 8" | "ss_opcode SS_IADD_C9 = 9" | "ss_opcode SS_IXOR_C9 = 10" | "ss_opcode SS_IMULH_R = 11"
| "ss_opcode SS_ISMULH_R = 12" | "ss_opcode SS_IMUL_RCP = 13" | "ss_opcode SS_INVALID = - 1"

definition isMultiplication :: "ss_type \<Rightarrow> bool" where
  "isMultiplication type \<longleftrightarrow> type = SS_IMUL_R \<or> type = SS_IMULH_R \<or> type = SS_ISMULH_R \<or> type = SS_IMUL_RCP"

text \<open>Execution ports are bits of a mask.\<close>

definition P_Null :: nat where "P_Null = 0"
definition P0 :: nat where "P0 = 1"
definition P1 :: nat where "P1 = 2"
definition P5 :: nat where "P5 = 4"
definition P01 :: nat where "P01 = 3"
definition P05 :: nat where "P05 = 5"
definition P015 :: nat where "P015 = 7"

record MacroOp =
  mop_size :: nat
  mop_latency :: nat
  mop_uop1 :: nat
  mop_uop2 :: nat
  mop_dependent :: bool

definition new_MacroOp :: "nat \<Rightarrow> nat \<Rightarrow> nat \<Rightarrow> nat \<Rightarrow> MacroOp" where
  "new_MacroOp sz latency uop1 uop2 =
    \<lparr>mop_size = sz, mop_latency = latency, mop_uop1 = uop1, mop_uop2 = uop2, mop_dependent = False\<rparr>"

definition isSimple :: "MacroOp \<Rightarrow> bool" where
  "isSimple mop \<longleftrightarrow> mop_uop2 mop = P_Null"
definition isEliminated :: "MacroOp \<Rightarrow> bool" where
  "isEliminated mop \<longleftrightarrow> mop_uop1 mop = P_Null"

definition Add_rr :: MacroOp where "Add_rr = new_MacroOp 3 1 P015 P_Null"
definition Sub_rr :: MacroOp where "Sub_rr = new_MacroOp 3 1 P015 P_Null"
definition Xor_rr :: MacroOp where "Xor_rr = new_MacroOp 3 1 P015 P_Null"
definition Imul_r :: MacroOp where "Imul_r = new_MacroOp 3 4 P1 P5"
definition Mul_r :: MacroOp where "Mul_r = new_MacroOp 3 4 P1 P5"
definition Mov_rr :: MacroOp where "Mov_rr = new_MacroOp 3 0 P_Null P_Null"
definition Lea_sib :: MacroOp where "Lea_sib = new_MacroOp 4 1 P01 P_Null"
definition Imul_rr :: MacroOp where "Imul_rr = new_MacroOp 4 3 P1 P_Null"
definition Ror_ri :: MacroOp where "Ror_ri = new_MacroOp 4 1 P05 P_Null"
definition Add_ri :: MacroOp where "Add_ri = new_MacroOp 7 1 P015 P_Null"
definition Xor_ri :: MacroOp where "Xor_ri = new_MacroOp 7 1 P015 P_Null"
definition Mov_ri64 :: MacroOp where "Mov_ri64 = new_MacroOp 10 1 P015 P_Null"

definition IMULH_R_ops_array :: "MacroOp list" where "IMULH_R_ops_array = [Mov_rr, Mul_r, Mov_rr]"
definition ISMULH_R_ops_array :: "MacroOp list" where "ISMULH_R_ops_array = [Mov_rr, Imul_r, Mov_rr]"
definition IMUL_RCP_ops_array :: "MacroOp list" where "IMUL_RCP_ops_array = [Mov_ri64, Imul_rr\<lparr>mop_dependent := True\<rparr>]"

record SuperscalarInstructionInfo =
  info_type :: ss_type
  info_ops :: "MacroOp list"
  info_latency :: nat
  info_resultOp :: int
  info_dstOp :: int
  info_srcOp :: int

definition info_single :: "ss_type \<Rightarrow> MacroOp \<Rightarrow> int \<Rightarrow> SuperscalarInstructionInfo" where
  "info_single type op srcOp = \<lparr>info_type = type, info_ops = [op], info_latency = mop_latency op,
     info_resultOp = 0, info_dstOp = 0, info_srcOp = srcOp\<rparr>"

definition info_array :: "ss_type \<Rightarrow> MacroOp list \<Rightarrow> int \<Rightarrow> int \<Rightarrow> int \<Rightarrow> SuperscalarInstructionInfo" where
  "info_array type arr resultOp dstOp srcOp = \<lparr>info_type = type, info_ops = arr,
     info_latency = sum_list (map mop_latency arr), info_resultOp = resultOp, info_dstOp = dstOp, info_srcOp = srcOp\<rparr>"

fun ss_info :: "ss_type \<Rightarrow> SuperscalarInstructionInfo" where
  "ss_info SS_ISUB_R = info_single SS_ISUB_R Sub_rr 0"
| "ss_info SS_IXOR_R = info_single SS_IXOR_R Xor_rr 0"
| "ss_info SS_IADD_RS = info_single SS_IADD_RS Lea_sib 0"
| "ss_info SS_IMUL_R = info_single SS_IMUL_R Imul_rr 0"
| "ss_info SS_IROR_C = info_single SS_IROR_C Ror_ri (- 1)"
| "ss_info SS_IADD_C7 = info_single SS_IADD_C7 Add_ri (- 1)"
| "ss_info SS_IXOR_C7 = info_single SS_IXOR_C7 Xor_ri (- 1)"
| "ss_info SS_IADD_C8 = info_single SS_IADD_C8 Add_ri (- 1)"
| "ss_info SS_IXOR_C8 = info_single SS_IXOR_C8 Xor_ri (- 1)"
| "ss_info SS_IADD_C9 = info_single SS_IADD_C9 Add_ri (- 1)"
| "ss_info SS_IXOR_C9 = info_single SS_IXOR_C9 Xor_ri (- 1)"
| "ss_info SS_IMULH_R = info_array SS_IMULH_R IMULH_R_ops_array 1 0 1"
| "ss_info SS_ISMULH_R = info_array SS_ISMULH_R ISMULH_R_ops_array 1 0 1"
| "ss_info SS_IMUL_RCP = info_array SS_IMUL_RCP IMUL_RCP_ops_array 1 1 (- 1)"
| "ss_info SS_INVALID = \<lparr>info_type = SS_INVALID, info_ops = [], info_latency = 0,
     info_resultOp = 0, info_dstOp = 0, info_srcOp = 0\<rparr>"

section \<open>Decode buffers\<close>

record DecoderBuffer =
  db_index :: int
  db_counts :: "nat list"

definition decodeBuffer484 :: DecoderBuffer where "decodeBuffer484 = \<lparr>db_index = 0, db_counts = [4, 8, 4]\<rparr>"
definition decodeBuffer7333 :: DecoderBuffer where "decodeBuffer7333 = \<lparr>db_index = 1, db_counts = [7, 3, 3, 3]\<rparr>"
definition decodeBuffer3733 :: DecoderBuffer where "decodeBuffer3733 = \<lparr>db_index = 2, db_counts = [3, 7, 3, 3]\<rparr>"
definition decodeBuffer493 :: DecoderBuffer where "decodeBuffer493 = \<lparr>db_index = 3, db_counts = [4, 9, 3]\<rparr>"
definition decodeBuffer4444 :: DecoderBuffer where "decodeBuffer4444 = \<lparr>db_index = 4, db_counts = [4, 4, 4, 4]\<rparr>"
definition decodeBuffer3310 :: DecoderBuffer where "decodeBuffer3310 = \<lparr>db_index = 5, db_counts = [3, 3, 10]\<rparr>"
definition decodeBuffers :: "DecoderBuffer list" where
  "decodeBuffers = [decodeBuffer484, decodeBuffer7333, decodeBuffer3733, decodeBuffer493]"

definition fetchNextDefault :: "(bytes \<Rightarrow> bytes) \<Rightarrow> Blake2Generator \<Rightarrow> DecoderBuffer \<times> Blake2Generator" where
  "fetchNextDefault B g = (let (b, g) = getByte B g in (decodeBuffers ! unat (b AND 3), g))"

definition fetchNext :: "(bytes \<Rightarrow> bytes) \<Rightarrow> ss_type \<Rightarrow> nat \<Rightarrow> nat \<Rightarrow> Blake2Generator \<Rightarrow> DecoderBuffer \<times> Blake2Generator" where
  "fetchNext B instrType cycle mulCount g =
    (if instrType = SS_IMULH_R \<or> instrType = SS_ISMULH_R then (decodeBuffer3310, g)
     else if mulCount < cycle + 1 then (decodeBuffer4444, g)
     else if instrType = SS_IMUL_RCP then
       let (b, g) = getByte B g in (if b AND 1 \<noteq> 0 then decodeBuffer484 else decodeBuffer493, g)
     else fetchNextDefault B g)"

section \<open>Choosing an instruction\<close>

record SuperscalarInstruction =
  si_info :: SuperscalarInstructionInfo
  si_src :: int
  si_dst :: int
  si_mod :: int
  si_imm32 :: u32
  si_opGroup :: ss_type
  si_opGroupPar :: int
  si_canReuse :: bool
  si_groupParIsSource :: bool

definition ss_Null :: SuperscalarInstruction where
  "ss_Null = \<lparr>si_info = ss_info SS_INVALID, si_src = - 1, si_dst = - 1, si_mod = 0, si_imm32 = 0,
     si_opGroup = SS_INVALID, si_opGroupPar = 0, si_canReuse = False, si_groupParIsSource = False\<rparr>"

text \<open>\<open>do imm32_ = getByte() & 63; while (imm32_ == 0)\<close>, and the like for a divisor.\<close>

partial_function (option) draw_rotation :: "(bytes \<Rightarrow> bytes) \<Rightarrow> Blake2Generator \<Rightarrow> (u32 \<times> Blake2Generator) option" where
  "draw_rotation B g =
    (let (b, g) = getByte B g; imm = ucast b AND 63
     in if imm = 0 then draw_rotation B g else Some (imm, g))"

partial_function (option) draw_divisor :: "(bytes \<Rightarrow> bytes) \<Rightarrow> Blake2Generator \<Rightarrow> (u32 \<times> Blake2Generator) option" where
  "draw_divisor B g =
    (let (imm, g) = getUInt32 B g
     in if isZeroOrPowerOf2 (ucast imm) then draw_divisor B g else Some (imm, g))"

text \<open>\<open>create\<close>, over the previous instruction.\<close>

definition ss_create :: "(bytes \<Rightarrow> bytes) \<Rightarrow> ss_type \<Rightarrow> SuperscalarInstruction \<Rightarrow> Blake2Generator
    \<Rightarrow> (SuperscalarInstruction \<times> Blake2Generator) option" where
  "ss_create B type cur g =
    (let cur = cur\<lparr>si_info := ss_info type, si_src := - 1, si_dst := - 1, si_canReuse := False, si_groupParIsSource := False\<rparr>;
         zero = cur\<lparr>si_mod := 0, si_imm32 := 0\<rparr>
     in case type of
          SS_ISUB_R \<Rightarrow> Some (zero\<lparr>si_opGroup := SS_IADD_RS, si_groupParIsSource := True\<rparr>, g)
        | SS_IXOR_R \<Rightarrow> Some (zero\<lparr>si_opGroup := SS_IXOR_R, si_groupParIsSource := True\<rparr>, g)
        | SS_IADD_RS \<Rightarrow> (let (b, g) = getByte B g
            in Some (zero\<lparr>si_mod := uint b, si_opGroup := SS_IADD_RS, si_groupParIsSource := True\<rparr>, g))
        | SS_IMUL_R \<Rightarrow> Some (zero\<lparr>si_opGroup := SS_IMUL_R, si_groupParIsSource := True\<rparr>, g)
        | SS_IROR_C \<Rightarrow> do {
            (imm, g) \<leftarrow> draw_rotation B g;
            Some (zero\<lparr>si_imm32 := imm, si_opGroup := SS_IROR_C, si_opGroupPar := - 1\<rparr>, g) }
        | SS_IMULH_R \<Rightarrow> (let (w, g) = getUInt32 B g
            in Some (zero\<lparr>si_canReuse := True, si_opGroup := SS_IMULH_R, si_opGroupPar := sint w\<rparr>, g))
        | SS_ISMULH_R \<Rightarrow> (let (w, g) = getUInt32 B g
            in Some (zero\<lparr>si_canReuse := True, si_opGroup := SS_ISMULH_R, si_opGroupPar := sint w\<rparr>, g))
        | SS_IMUL_RCP \<Rightarrow> do {
            (imm, g) \<leftarrow> draw_divisor B g;
            Some (zero\<lparr>si_imm32 := imm, si_opGroup := SS_IMUL_RCP, si_opGroupPar := - 1\<rparr>, g) }
        | SS_INVALID \<Rightarrow> Some (cur, g)
        | _ \<Rightarrow> (let (w, g) = getUInt32 B g
            in Some (zero\<lparr>si_imm32 := w, si_opGroupPar := - 1,
                 si_opGroup := (if type = SS_IADD_C7 \<or> type = SS_IADD_C8 \<or> type = SS_IADD_C9 then SS_IADD_C7 else SS_IXOR_C7)\<rparr>, g)))"

definition slot_3 :: "ss_type list" where "slot_3 = [SS_ISUB_R, SS_IXOR_R]"
definition slot_3L :: "ss_type list" where "slot_3L = [SS_ISUB_R, SS_IXOR_R, SS_IMULH_R, SS_ISMULH_R]"
definition slot_4 :: "ss_type list" where "slot_4 = [SS_IROR_C, SS_IADD_RS]"
definition slot_7 :: "ss_type list" where "slot_7 = [SS_IXOR_C7, SS_IADD_C7]"
definition slot_8 :: "ss_type list" where "slot_8 = [SS_IXOR_C8, SS_IADD_C8]"
definition slot_9 :: "ss_type list" where "slot_9 = [SS_IXOR_C9, SS_IADD_C9]"

text \<open>The type chosen for a slot; \<open>None\<close> is \<open>UNREACHABLE\<close>.\<close>

definition slot_type :: "(bytes \<Rightarrow> bytes) \<Rightarrow> nat \<Rightarrow> int \<Rightarrow> bool \<Rightarrow> Blake2Generator \<Rightarrow> (ss_type \<times> Blake2Generator) option" where
  "slot_type B slotSize fetchType isLast g =
    (let pick = (\<lambda>slots m. let (b, g) = getByte B g in Some (slots ! unat (b AND m), g))
     in if slotSize = 3 then (if isLast then pick slot_3L 3 else pick slot_3 1)
        else if slotSize = 4 then (if fetchType = 4 \<and> \<not> isLast then Some (SS_IMUL_R, g) else pick slot_4 1)
        else if slotSize = 7 then pick slot_7 1
        else if slotSize = 8 then pick slot_8 1
        else if slotSize = 9 then pick slot_9 1
        else if slotSize = 10 then Some (SS_IMUL_RCP, g)
        else None)"

definition createForSlot :: "(bytes \<Rightarrow> bytes) \<Rightarrow> nat \<Rightarrow> int \<Rightarrow> bool \<Rightarrow> SuperscalarInstruction \<Rightarrow> Blake2Generator
    \<Rightarrow> (SuperscalarInstruction \<times> Blake2Generator) option" where
  "createForSlot B slotSize fetchType isLast cur g =
    do { (type, g) \<leftarrow> slot_type B slotSize fetchType isLast g; ss_create B type cur g }"

section \<open>Choosing registers\<close>

record RegisterInfo =
  ri_latency :: nat
  ri_lastOpGroup :: ss_type
  ri_lastOpPar :: int

definition new_RegisterInfo :: RegisterInfo where
  "new_RegisterInfo = \<lparr>ri_latency = 0, ri_lastOpGroup = SS_INVALID, ri_lastOpPar = - 1\<rparr>"

definition selectRegister :: "(bytes \<Rightarrow> bytes) \<Rightarrow> nat list \<Rightarrow> Blake2Generator \<Rightarrow> nat option \<times> Blake2Generator" where
  "selectRegister B available g =
    (if available = [] then (None, g)
     else if length available > 1 then
       let (w, g) = getUInt32 B g in (Some (available ! (unat w mod length available)), g)
     else (Some (available ! 0), g))"

definition dst_available :: "nat \<Rightarrow> bool \<Rightarrow> RegisterInfo list \<Rightarrow> SuperscalarInstruction \<Rightarrow> nat list" where
  "dst_available cycle allowChainedMul registers cur = filter (\<lambda>i.
     ri_latency (registers ! i) \<le> cycle \<and> (si_canReuse cur \<or> int i \<noteq> si_src cur) \<and>
     (allowChainedMul \<or> si_opGroup cur \<noteq> SS_IMUL_R \<or> ri_lastOpGroup (registers ! i) \<noteq> SS_IMUL_R) \<and>
     (ri_lastOpGroup (registers ! i) \<noteq> si_opGroup cur \<or> ri_lastOpPar (registers ! i) \<noteq> si_opGroupPar cur) \<and>
     (info_type (si_info cur) \<noteq> SS_IADD_RS \<or> i \<noteq> RegisterNeedsDisplacement)) [0..<8]"

definition selectDestination :: "(bytes \<Rightarrow> bytes) \<Rightarrow> nat \<Rightarrow> bool \<Rightarrow> RegisterInfo list \<Rightarrow> SuperscalarInstruction \<Rightarrow> Blake2Generator
    \<Rightarrow> bool \<times> SuperscalarInstruction \<times> Blake2Generator" where
  "selectDestination B cycle allowChainedMul registers cur g =
    (case selectRegister B (dst_available cycle allowChainedMul registers cur) g of
       (None, g) \<Rightarrow> (False, cur, g)
     | (Some i, g) \<Rightarrow> (True, cur\<lparr>si_dst := int i\<rparr>, g))"

definition selectSource :: "(bytes \<Rightarrow> bytes) \<Rightarrow> nat \<Rightarrow> RegisterInfo list \<Rightarrow> SuperscalarInstruction \<Rightarrow> Blake2Generator
    \<Rightarrow> bool \<times> SuperscalarInstruction \<times> Blake2Generator" where
  "selectSource B cycle registers cur g =
    (let available = filter (\<lambda>i. ri_latency (registers ! i) \<le> cycle) [0..<8]
     in if length available = 2 \<and> info_type (si_info cur) = SS_IADD_RS \<and>
           (available ! 0 = RegisterNeedsDisplacement \<or> available ! 1 = RegisterNeedsDisplacement) then
          (True, cur\<lparr>si_src := int RegisterNeedsDisplacement, si_opGroupPar := int RegisterNeedsDisplacement\<rparr>, g)
        else case selectRegister B available g of
            (None, g) \<Rightarrow> (False, cur, g)
          | (Some i, g) \<Rightarrow>
              (True, (if si_groupParIsSource cur then cur\<lparr>si_src := int i, si_opGroupPar := int i\<rparr>
                 else cur\<lparr>si_src := int i\<rparr>), g))"

section \<open>Scheduling\<close>

definition RANDOMX_SUPERSCALAR_MAX_LATENCY :: nat where "RANDOMX_SUPERSCALAR_MAX_LATENCY = 256"
definition CYCLE_MAP_SIZE :: nat where "CYCLE_MAP_SIZE = RANDOMX_SUPERSCALAR_MAX_LATENCY + 4"
definition LOOK_FORWARD_CYCLES :: nat where "LOOK_FORWARD_CYCLES = 4"
definition MAX_THROWAWAY_COUNT :: nat where "MAX_THROWAWAY_COUNT = 256"
definition SuperscalarMaxSize :: nat where "SuperscalarMaxSize = 3 * RANDOMX_SUPERSCALAR_MAX_LATENCY + 2"

type_synonym port_map = "nat list list"

text \<open>The port a micro-operation takes in a cycle: 5, then 0, then 1.\<close>

definition free_port :: "nat \<Rightarrow> nat list \<Rightarrow> nat option" where
  "free_port uop row =
    (if uop AND P5 \<noteq> 0 \<and> row ! 2 = 0 then Some 2
     else if uop AND P0 \<noteq> 0 \<and> row ! 0 = 0 then Some 0
     else if uop AND P1 \<noteq> 0 \<and> row ! 1 = 0 then Some 1
     else None)"

function scheduleUop :: "bool \<Rightarrow> nat \<Rightarrow> port_map \<Rightarrow> nat \<Rightarrow> int \<times> port_map" where
  "scheduleUop commit uop portBusy cycle =
    (if cycle < SuperscalarLatency + 4 then
       case free_port uop (portBusy ! cycle) of
         Some p \<Rightarrow> (int cycle, if commit then portBusy[cycle := (portBusy ! cycle)[p := uop]] else portBusy)
       | None \<Rightarrow> scheduleUop commit uop portBusy (cycle + 1)
     else (- 1, portBusy))"
  by pat_completeness auto
termination
  by (relation "measure (\<lambda>(commit, uop, portBusy, cycle). SuperscalarLatency + 4 - cycle)") auto

declare scheduleUop.simps [simp del]

text \<open>Both micro-operations of a macro-operation must find a port in one cycle.\<close>

function scheduleTwo :: "bool \<Rightarrow> MacroOp \<Rightarrow> port_map \<Rightarrow> nat \<Rightarrow> int \<times> port_map" where
  "scheduleTwo commit mop portBusy cycle =
    (if cycle < SuperscalarLatency + 4 then
       let cycle1 = fst (scheduleUop False (mop_uop1 mop) portBusy cycle);
           cycle2 = fst (scheduleUop False (mop_uop2 mop) portBusy cycle)
       in if cycle1 \<ge> 0 \<and> cycle1 = cycle2 then
            (cycle1,
             if commit then
               let portBusy = snd (scheduleUop True (mop_uop1 mop) portBusy (nat cycle1))
               in snd (scheduleUop True (mop_uop2 mop) portBusy (nat cycle2))
             else portBusy)
          else scheduleTwo commit mop portBusy (cycle + 1)
     else (- 1, portBusy))"
  by pat_completeness auto
termination
  by (relation "measure (\<lambda>(commit, mop, portBusy, cycle). SuperscalarLatency + 4 - cycle)") auto

declare scheduleTwo.simps [simp del]

definition scheduleMop :: "bool \<Rightarrow> MacroOp \<Rightarrow> port_map \<Rightarrow> nat \<Rightarrow> nat \<Rightarrow> int \<times> port_map" where
  "scheduleMop commit mop portBusy cycle depCycle =
    (let cycle = (if mop_dependent mop then (if cycle > depCycle then cycle else depCycle) else cycle)
     in if isEliminated mop then (int cycle, portBusy)
        else if isSimple mop then scheduleUop commit (mop_uop1 mop) portBusy cycle
        else scheduleTwo commit mop portBusy cycle)"

section \<open>The generator\<close>

text \<open>The local variables of \<open>generateSuperscalar\<close>; \<open>gs_prog\<close> is the program buffer.\<close>

record gen_state_ss =
  gs_gen :: Blake2Generator
  gs_ports :: port_map
  gs_regs :: "RegisterInfo list"
  gs_cur :: SuperscalarInstruction
  gs_macroOpIndex :: nat
  gs_codeSize :: nat
  gs_macroOpCount :: nat
  gs_cycle :: nat
  gs_depCycle :: nat
  gs_retireCycle :: nat
  gs_saturated :: bool
  gs_programSize :: nat
  gs_mulCount :: nat
  gs_throwAway :: nat
  gs_bufferIndex :: nat
  gs_prog :: "Instruction list"

definition info_size :: "SuperscalarInstruction \<Rightarrow> nat" where
  "info_size cur = length (info_ops (si_info cur))"

definition program_limit :: nat where
  "program_limit = 3 * SuperscalarLatency + 2"

definition toInstr :: "SuperscalarInstruction \<Rightarrow> Instruction" where
  "toInstr cur = \<lparr>i_opcode = of_int (ss_opcode (info_type (si_info cur))), i_dst = of_int (si_dst cur),
     i_src = of_int (if si_src cur \<ge> 0 then si_src cur else si_dst cur), i_mod = of_int (si_mod cur),
     i_imm32 = si_imm32 cur\<rparr>"

text \<open>How a turn of the slot loop ends.\<close>

datatype slot_end = Again | Leave

text \<open>A new instruction when all macro-operations of the current one are issued; \<open>None\<close> in the first
  component leaves the loop.\<close>

definition next_instruction :: "(bytes \<Rightarrow> bytes) \<Rightarrow> DecoderBuffer \<Rightarrow> gen_state_ss \<Rightarrow> (bool \<times> gen_state_ss) option" where
  "next_instruction B db s =
    (if gs_macroOpIndex s \<ge> info_size (gs_cur s) then
       if gs_saturated s \<or> gs_programSize s \<ge> program_limit then Some (False, s)
       else do {
         (cur, g) \<leftarrow> createForSlot B (db_counts db ! gs_bufferIndex s) (db_index db)
           (length (db_counts db) = gs_bufferIndex s + 1) (gs_cur s) (gs_gen s);
         Some (True, s\<lparr>gs_cur := cur, gs_gen := g, gs_macroOpIndex := 0\<rparr>)
       }
     else Some (True, s))"

text \<open>
  \<open>for (forward = 0; forward < LOOK_FORWARD_CYCLES && !select(scheduleCycle, \<dots>); ++forward)\<close>:
  whether a register was found, the schedule cycle and the state.
\<close>

primrec look_forward :: "(nat \<Rightarrow> gen_state_ss \<Rightarrow> bool \<times> SuperscalarInstruction \<times> Blake2Generator) \<Rightarrow> nat
    \<Rightarrow> nat \<Rightarrow> gen_state_ss \<Rightarrow> bool \<times> nat \<times> gen_state_ss" where
  "look_forward select 0 scheduleCycle s = (False, scheduleCycle, s)"
| "look_forward select (Suc n) scheduleCycle s =
    (let (found, cur, g) = select scheduleCycle s;
         s = s\<lparr>gs_cur := cur, gs_gen := g\<rparr>
     in if found then (True, scheduleCycle, s)
        else look_forward select n (scheduleCycle + 1) (s\<lparr>gs_cycle := gs_cycle s + 1\<rparr>))"

definition try_source :: "(bytes \<Rightarrow> bytes) \<Rightarrow> nat \<Rightarrow> gen_state_ss \<Rightarrow> bool \<times> SuperscalarInstruction \<times> Blake2Generator" where
  "try_source B scheduleCycle s = selectSource B scheduleCycle (gs_regs s) (gs_cur s) (gs_gen s)"

definition try_destination :: "(bytes \<Rightarrow> bytes) \<Rightarrow> nat \<Rightarrow> gen_state_ss \<Rightarrow> bool \<times> SuperscalarInstruction \<times> Blake2Generator" where
  "try_destination B scheduleCycle s =
    selectDestination B scheduleCycle (gs_throwAway s > 0) (gs_regs s) (gs_cur s) (gs_gen s)"

text \<open>No register: throw the instruction away and go on, or give up the decode buffer.\<close>

definition throw_away :: "gen_state_ss \<Rightarrow> slot_end \<times> gen_state_ss" where
  "throw_away s =
    (if gs_throwAway s < MAX_THROWAWAY_COUNT then
       (Again, s\<lparr>gs_throwAway := gs_throwAway s + 1, gs_macroOpIndex := info_size (gs_cur s)\<rparr>)
     else (Leave, s\<lparr>gs_cur := ss_Null\<rparr>))"

text \<open>The macro-operation is scheduled, the registers and the program are updated.\<close>

definition issue :: "MacroOp \<Rightarrow> nat \<Rightarrow> nat \<Rightarrow> gen_state_ss \<Rightarrow> slot_end \<times> gen_state_ss" where
  "issue mop topCycle scheduleCycle s =
    (let s = s\<lparr>gs_throwAway := 0\<rparr>;
         (c, ports) = scheduleMop True mop (gs_ports s) scheduleCycle scheduleCycle;
         s = s\<lparr>gs_ports := ports\<rparr>
     in if c < 0 then (Leave, s\<lparr>gs_saturated := True\<rparr>)
        else
          let cur = gs_cur s;
              s = s\<lparr>gs_depCycle := nat c + mop_latency mop\<rparr>;
              s = (if int (gs_macroOpIndex s) = info_resultOp (si_info cur) then
                     s\<lparr>gs_retireCycle := gs_depCycle s,
                       gs_regs := (gs_regs s)[nat (si_dst cur) := \<lparr>ri_latency = gs_depCycle s,
                         ri_lastOpGroup = si_opGroup cur, ri_lastOpPar = si_opGroupPar cur\<rparr>]\<rparr>
                   else s);
              s = s\<lparr>gs_codeSize := gs_codeSize s + mop_size mop, gs_bufferIndex := gs_bufferIndex s + 1,
                    gs_macroOpIndex := gs_macroOpIndex s + 1, gs_macroOpCount := gs_macroOpCount s + 1\<rparr>;
              s = (if nat c \<ge> SuperscalarLatency then s\<lparr>gs_saturated := True\<rparr> else s);
              s = s\<lparr>gs_cycle := topCycle\<rparr>;
              s = (if gs_macroOpIndex s \<ge> info_size cur then
                     s\<lparr>gs_prog := (gs_prog s)[gs_programSize s := toInstr cur], gs_programSize := gs_programSize s + 1,
                       gs_mulCount := gs_mulCount s + (if isMultiplication (info_type (si_info cur)) then 1 else 0)\<rparr>
                   else s)
          in (Again, s))"

definition find_destination :: "(bytes \<Rightarrow> bytes) \<Rightarrow> MacroOp \<Rightarrow> nat \<Rightarrow> nat \<Rightarrow> gen_state_ss \<Rightarrow> slot_end \<times> gen_state_ss" where
  "find_destination B mop topCycle scheduleCycle s =
    (if int (gs_macroOpIndex s) = info_dstOp (si_info (gs_cur s)) then
       let (found, scheduleCycle, s) = look_forward (try_destination B) LOOK_FORWARD_CYCLES scheduleCycle s
       in if found then issue mop topCycle scheduleCycle s else throw_away s
     else issue mop topCycle scheduleCycle s)"

definition find_source :: "(bytes \<Rightarrow> bytes) \<Rightarrow> MacroOp \<Rightarrow> nat \<Rightarrow> nat \<Rightarrow> gen_state_ss \<Rightarrow> slot_end \<times> gen_state_ss" where
  "find_source B mop topCycle scheduleCycle s =
    (if int (gs_macroOpIndex s) = info_srcOp (si_info (gs_cur s)) then
       let (found, scheduleCycle, s) = look_forward (try_source B) LOOK_FORWARD_CYCLES scheduleCycle s
       in if found then find_destination B mop topCycle scheduleCycle s else throw_away s
     else find_destination B mop topCycle scheduleCycle s)"

text \<open>One turn of \<open>while (bufferIndex < decodeBuffer->getSize())\<close>.\<close>

definition slot_turn :: "(bytes \<Rightarrow> bytes) \<Rightarrow> DecoderBuffer \<Rightarrow> gen_state_ss \<Rightarrow> (slot_end \<times> gen_state_ss) option" where
  "slot_turn B db s = do {
     let topCycle = gs_cycle s;
     (go, s) \<leftarrow> next_instruction B db s;
     if \<not> go then Some (Leave, s)
     else do {
       let mop = info_ops (si_info (gs_cur s)) ! gs_macroOpIndex s;
       let scheduleCycle = fst (scheduleMop False mop (gs_ports s) (gs_cycle s) (gs_depCycle s));
       if scheduleCycle < 0 then Some (Leave, s\<lparr>gs_saturated := True\<rparr>)
       else Some (find_source B mop topCycle (nat scheduleCycle) s)
     }
   }"

text \<open>The loop ends because a turn that goes on fills a slot or counts an instruction thrown away.\<close>

definition slot_measure :: "DecoderBuffer \<Rightarrow> gen_state_ss \<Rightarrow> nat" where
  "slot_measure db s = (MAX_THROWAWAY_COUNT + 1) * (length (db_counts db) - gs_bufferIndex s) +
     (MAX_THROWAWAY_COUNT - gs_throwAway s)"

lemma look_forward_frame:
  "look_forward select n c s = (f, c', s') \<Longrightarrow> gs_bufferIndex s' = gs_bufferIndex s \<and> gs_throwAway s' = gs_throwAway s"
  by (induction n arbitrary: c s) (fastforce simp: Let_def split: prod.splits if_splits)+

lemma issue_measure:
  "issue mop t c s = (Again, s') \<Longrightarrow> gs_bufferIndex s' = gs_bufferIndex s + 1"
  by (auto simp: issue_def Let_def split: prod.splits if_splits)

lemma throw_away_measure:
  "throw_away s = (Again, s') \<Longrightarrow> gs_bufferIndex s' = gs_bufferIndex s \<and> gs_throwAway s' = gs_throwAway s + 1 \<and>
    gs_throwAway s < MAX_THROWAWAY_COUNT"
  by (auto simp: throw_away_def split: if_splits)

lemma slot_turn_progress:
  assumes "slot_turn B db s = Some (Again, s')"
  shows "gs_bufferIndex s' = gs_bufferIndex s + 1 \<or>
    gs_bufferIndex s' = gs_bufferIndex s \<and> gs_throwAway s' = gs_throwAway s + 1 \<and> gs_throwAway s < MAX_THROWAWAY_COUNT"
proof -
  have nxt: "gs_bufferIndex u = gs_bufferIndex s \<and> gs_throwAway u = gs_throwAway s"
    if "next_instruction B db s = Some (go, u)" for go u
    using that by (auto simp: next_instruction_def bind_eq_Some_conv split: if_splits)
  have dst: "gs_bufferIndex v = gs_bufferIndex u + 1 \<or>
      gs_bufferIndex v = gs_bufferIndex u \<and> gs_throwAway v = gs_throwAway u + 1 \<and> gs_throwAway u < MAX_THROWAWAY_COUNT"
    if "find_destination B mop t c u = (Again, v)" for mop t c u v
    using that by (auto simp: find_destination_def split: prod.splits if_splits
        dest!: look_forward_frame issue_measure throw_away_measure)
  have src: "gs_bufferIndex v = gs_bufferIndex u + 1 \<or>
      gs_bufferIndex v = gs_bufferIndex u \<and> gs_throwAway v = gs_throwAway u + 1 \<and> gs_throwAway u < MAX_THROWAWAY_COUNT"
    if "find_source B mop t c u = (Again, v)" for mop t c u v
    using that by (auto simp: find_source_def split: prod.splits if_splits
        dest!: look_forward_frame dst throw_away_measure)
  from assms obtain go u where u: "next_instruction B db s = Some (go, u)"
    by (auto simp: slot_turn_def Let_def bind_eq_Some_conv)
  with assms have "\<exists>mop c. find_source B mop (gs_cycle s) c u = (Again, s')"
    by (auto simp: slot_turn_def Let_def split: if_splits)
  with src nxt [OF u] show ?thesis by fastforce
qed

lemma slot_turn_measure:
  assumes "gs_bufferIndex s < length (db_counts db)" and "slot_turn B db s = Some (Again, s')"
  shows "slot_measure db s' < slot_measure db s"
  using slot_turn_progress [OF assms(2)] assms(1)
  by (auto simp: slot_measure_def MAX_THROWAWAY_COUNT_def)

function slot_loop :: "(bytes \<Rightarrow> bytes) \<Rightarrow> DecoderBuffer \<Rightarrow> gen_state_ss \<Rightarrow> gen_state_ss option" where
  "slot_loop B db s =
    (if gs_bufferIndex s < length (db_counts db) then
       case slot_turn B db s of
         None \<Rightarrow> None
       | Some (Again, s) \<Rightarrow> slot_loop B db s
       | Some (Leave, s) \<Rightarrow> Some s
     else Some s)"
  by pat_completeness auto
termination
  by (relation "measure (\<lambda>(B, db, s). slot_measure db s)") (auto simp: slot_turn_measure)

declare slot_loop.simps [simp del]

text \<open>The loop over the decode cycles; it returns the number of cycles as well.\<close>

function decode_loop :: "(bytes \<Rightarrow> bytes) \<Rightarrow> nat \<Rightarrow> gen_state_ss \<Rightarrow> (nat \<times> gen_state_ss) option" where
  "decode_loop B decodeCycle s =
    (if decodeCycle < SuperscalarLatency \<and> \<not> gs_saturated s \<and> gs_programSize s < program_limit then
       let (db, g) = fetchNext B (info_type (si_info (gs_cur s))) decodeCycle (gs_mulCount s) (gs_gen s)
       in case slot_loop B db (s\<lparr>gs_gen := g, gs_bufferIndex := 0\<rparr>) of
            None \<Rightarrow> None
          | Some s \<Rightarrow> decode_loop B (decodeCycle + 1) (s\<lparr>gs_cycle := gs_cycle s + 1\<rparr>)
     else Some (decodeCycle, s))"
  by pat_completeness auto
termination
  by (relation "measure (\<lambda>(B, decodeCycle, s). SuperscalarLatency - decodeCycle)") auto

declare decode_loop.simps [simp del]

section \<open>The program\<close>

text \<open>The floating-point statistic \<open>ipc\<close> is left out.\<close>

record SuperscalarProgram =
  sp_buffer :: "Instruction list"
  sp_size :: nat
  sp_addrReg :: nat
  sp_codeSize :: nat
  sp_macroOps :: nat
  sp_decodeCycles :: nat
  sp_cpuLatency :: nat
  sp_asicLatency :: nat
  sp_mulCount :: nat
  sp_cpuLatencies :: "nat list"
  sp_asicLatencies :: "nat list"

text \<open>Latency with unlimited parallelism, one instruction at a time.\<close>

definition asic_step :: "nat list \<Rightarrow> Instruction \<Rightarrow> nat list" where
  "asic_step lat instr =
    (let d = unat (i_dst instr);
         s = unat (i_src instr);
         latDst = lat ! d + 1;
         latSrc = (if i_dst instr \<noteq> i_src instr then lat ! s + 1 else 0)
     in lat[d := (if latDst > latSrc then latDst else latSrc)])"

text \<open>The register with the highest latency, and that latency.\<close>

definition address_register :: "nat list \<Rightarrow> nat \<times> nat" where
  "address_register lat =
    for_range 0 8 (\<lambda>(mx, reg) i. if lat ! i > mx then (lat ! i, i) else (mx, reg)) (0, 0)"

definition gs_start :: "Blake2Generator \<Rightarrow> Instruction list \<Rightarrow> gen_state_ss" where
  "gs_start g buf = \<lparr>gs_gen = g, gs_ports = replicate CYCLE_MAP_SIZE [0, 0, 0], gs_regs = replicate 8 new_RegisterInfo,
     gs_cur = ss_Null, gs_macroOpIndex = 0, gs_codeSize = 0, gs_macroOpCount = 0, gs_cycle = 0, gs_depCycle = 0,
     gs_retireCycle = 0, gs_saturated = False, gs_programSize = 0, gs_mulCount = 0, gs_throwAway = 0,
     gs_bufferIndex = 0, gs_prog = buf\<rparr>"

definition generateSuperscalar :: "(bytes \<Rightarrow> bytes) \<Rightarrow> SuperscalarProgram \<Rightarrow> Blake2Generator
    \<Rightarrow> (SuperscalarProgram \<times> Blake2Generator) option" where
  "generateSuperscalar B prog g = do {
     (decodeCycle, s) \<leftarrow> decode_loop B 0 (gs_start g (sp_buffer prog));
     let lat = foldl asic_step (replicate 8 0) (take (gs_programSize s) (gs_prog s));
     let (asicLatencyMax, addressReg) = address_register lat;
     Some (\<lparr>sp_buffer = gs_prog s, sp_size = gs_programSize s, sp_addrReg = addressReg, sp_codeSize = gs_codeSize s,
       sp_macroOps = gs_macroOpCount s, sp_decodeCycles = decodeCycle, sp_cpuLatency = gs_retireCycle s,
       sp_asicLatency = asicLatencyMax, sp_mulCount = gs_mulCount s,
       sp_cpuLatencies = map ri_latency (gs_regs s), sp_asicLatencies = lat\<rparr>, gs_gen s)
   }"

section \<open>Execution\<close>

definition ss_of_opcode :: "u8 \<Rightarrow> ss_type" where
  "ss_of_opcode op = (if unat op < length ss_types then ss_types ! unat op else SS_INVALID)"

text \<open>\<open>None\<close>: \<open>UNREACHABLE\<close>, a register out of range, or the assertion of the reciprocal.\<close>

definition ss_exec :: "Instruction \<Rightarrow> u64 list \<Rightarrow> u64 list option" where
  "ss_exec instr r =
    (let d = unat (i_dst instr);
         s = unat (i_src instr);
         imm = signExtend2sCompl (getImm32 instr);
         put = (\<lambda>v. Some (r[d := v]))
     in if d < length r \<and> s < length r then
          case ss_of_opcode (i_opcode instr) of
            SS_ISUB_R \<Rightarrow> put (r ! d - r ! s)
          | SS_IXOR_R \<Rightarrow> put (r ! d XOR r ! s)
          | SS_IADD_RS \<Rightarrow> put (r ! d + push_bit (getModShift instr) (r ! s))
          | SS_IMUL_R \<Rightarrow> put (r ! d * r ! s)
          | SS_IROR_C \<Rightarrow> put (rx_rotr64 (r ! d) (getImm32 instr))
          | SS_IMULH_R \<Rightarrow> put (mulh (r ! d) (r ! s))
          | SS_ISMULH_R \<Rightarrow> put (smulh (r ! d) (r ! s))
          | SS_IMUL_RCP \<Rightarrow> (case randomx_reciprocal (ucast (getImm32 instr)) of
              Inl _ \<Rightarrow> None
            | Inr x \<Rightarrow> put (r ! d * x))
          | SS_INVALID \<Rightarrow> None
          | type \<Rightarrow> put (if type = SS_IADD_C7 \<or> type = SS_IADD_C8 \<or> type = SS_IADD_C9 then r ! d + imm else r ! d XOR imm)
        else None)"

fun ss_run :: "Instruction list \<Rightarrow> u64 list \<Rightarrow> u64 list option" where
  "ss_run [] r = Some r"
| "ss_run (instr # instrs) r = do { r \<leftarrow> ss_exec instr r; ss_run instrs r }"

definition executeSuperscalar :: "SuperscalarProgram \<Rightarrow> u64 list \<Rightarrow> u64 list option" where
  "executeSuperscalar prog r = ss_run (take (sp_size prog) (sp_buffer prog)) r"

end
