(* ===== verification/RxSsCorrect.thy ===== *)
theory RxSsCorrect
  imports RxSuperscalar RxVm
begin

text \<open>
  What the superscalar generator guarantees: whatever the random bytes, every instruction it emits
  is one the executor accepts, and the program fits its buffer.
\<close>

section \<open>The byte source\<close>

definition gen_ok :: "Blake2Generator \<Rightarrow> bool" where
  "gen_ok g \<longleftrightarrow> length (gen_data g) = 64 \<and> gen_index g \<le> 64"

text \<open>What the operations require of an immediate.\<close>

definition imm_ok :: "ss_type \<Rightarrow> u32 \<Rightarrow> bool" where
  "imm_ok t imm \<longleftrightarrow> (t = SS_IROR_C \<longrightarrow> imm \<noteq> 0 \<and> imm AND 63 = imm) \<and>
     (t = SS_IMUL_RCP \<longrightarrow> \<not> isZeroOrPowerOf2 (ucast imm))"

lemma and_less_2: "unat (b AND 1 :: u8) < 2"
  using unat_and_mask [of b 1] by (simp add: mask_eq_exp_minus_1)

lemma and_less_4: "unat (b AND 3 :: u8) < 4"
  using unat_and_mask [of b 2] by (simp add: mask_eq_exp_minus_1)

text \<open>The interface of the hash that refills the 64 bytes.\<close>

locale byte_source =
  fixes B :: "bytes \<Rightarrow> bytes"
  assumes length_refill: "length d = 64 \<Longrightarrow> length (B d) = 64"

context byte_source begin

lemma getByte_ok: "gen_ok g \<Longrightarrow> getByte B g = (b, g') \<Longrightarrow> gen_ok g'"
  by (auto simp: getByte_def checkData_def gen_ok_def length_refill Let_def split: if_splits)

lemma getUInt32_ok: "gen_ok g \<Longrightarrow> getUInt32 B g = (w, g') \<Longrightarrow> gen_ok g'"
  by (auto simp: getUInt32_def checkData_def gen_ok_def length_refill Let_def split: if_splits)

lemma draw_rotation_ok: "draw_rotation B g = Some (imm, g') \<Longrightarrow> gen_ok g \<Longrightarrow> gen_ok g' \<and> imm_ok SS_IROR_C imm"
  using draw_rotation.raw_induct [where P = "\<lambda>B' g r. B' = B \<longrightarrow> gen_ok g \<longrightarrow> gen_ok (snd r) \<and> imm_ok SS_IROR_C (fst r)",
      of B g "(imm, g')"]
  by (fastforce simp: Let_def imm_ok_def and.assoc dest: getByte_ok split: prod.splits if_splits)

lemma draw_divisor_ok: "draw_divisor B g = Some (imm, g') \<Longrightarrow> gen_ok g \<Longrightarrow> gen_ok g' \<and> imm_ok SS_IMUL_RCP imm"
  using draw_divisor.raw_induct [where P = "\<lambda>B' g r. B' = B \<longrightarrow> gen_ok g \<longrightarrow> gen_ok (snd r) \<and> imm_ok SS_IMUL_RCP (fst r)",
      of B g "(imm, g')"]
  by (fastforce simp: imm_ok_def dest: getUInt32_ok split: prod.splits if_splits)

text \<open>A new instruction: its description, its immediate, and no registers yet.\<close>

lemma ss_create_ok:
  assumes "ss_create B t cur g = Some (cur', g')" and "gen_ok g" and "t \<noteq> SS_INVALID"
  shows "gen_ok g' \<and> si_info cur' = ss_info t \<and> imm_ok t (si_imm32 cur') \<and> si_src cur' = - 1 \<and>
    si_canReuse cur' = (t = SS_IMULH_R \<or> t = SS_ISMULH_R)"
  using assms
  by (cases t) (auto simp: ss_create_def Let_def imm_ok_def bind_eq_Some_conv split: prod.splits
      dest: getByte_ok getUInt32_ok draw_rotation_ok draw_divisor_ok)

lemma slot_type_ok:
  assumes "slot_type B n f l g = Some (t, g')" and "gen_ok g"
  shows "gen_ok g' \<and> t \<noteq> SS_INVALID"
proof -
  have two: "xs ! unat (b AND 1) \<in> set xs" if "length xs = 2" for xs :: "ss_type list" and b :: u8
    using and_less_2 [of b] that by (intro nth_mem) simp
  have four: "xs ! unat (b AND 3) \<in> set xs" if "length xs = 4" for xs :: "ss_type list" and b :: u8
    using and_less_4 [of b] that by (intro nth_mem) simp
  note m = two [of slot_3] two [of slot_4] two [of slot_7] two [of slot_8] two [of slot_9] four [of slot_3L]
  have "SS_INVALID \<notin> set slot_3 \<union> set slot_4 \<union> set slot_7 \<union> set slot_8 \<union> set slot_9 \<union> set slot_3L"
    "length slot_3 = 2" "length slot_4 = 2" "length slot_7 = 2" "length slot_8 = 2" "length slot_9 = 2" "length slot_3L = 4"
    by (simp_all add: slot_3_def slot_4_def slot_7_def slot_8_def slot_9_def slot_3L_def)
  with m assms show ?thesis
    by (auto simp: slot_type_def Let_def split: prod.splits if_splits dest: getByte_ok) metis+
qed

lemma createForSlot_ok:
  assumes "createForSlot B n f l cur g = Some (cur', g')" and "gen_ok g"
  shows "gen_ok g' \<and> (\<exists>t. t \<noteq> SS_INVALID \<and> si_info cur' = ss_info t \<and> imm_ok t (si_imm32 cur') \<and> si_src cur' = - 1 \<and>
    si_canReuse cur' = (t = SS_IMULH_R \<or> t = SS_ISMULH_R))"
  using assms slot_type_ok ss_create_ok unfolding createForSlot_def by (fastforce simp: bind_eq_Some_conv)

lemma fetchNext_ok: "fetchNext B t c m g = (db, g') \<Longrightarrow> gen_ok g \<Longrightarrow> gen_ok g'"
  by (auto simp: fetchNext_def fetchNextDefault_def split: prod.splits if_splits dest: getByte_ok)

lemma selectRegister_ok:
  assumes "selectRegister B xs g = (r, g')" and "gen_ok g"
  shows "gen_ok g' \<and> (case r of None \<Rightarrow> xs = [] | Some i \<Rightarrow> i \<in> set xs)"
proof -
  have "xs ! (unat (w :: u32) mod length xs) \<in> set xs" "xs ! 0 \<in> set xs" if "xs \<noteq> []" for w
    using that by (simp_all del: unat_mod)
  with assms show ?thesis
    by (auto simp: selectRegister_def split: prod.splits if_splits dest: getUInt32_ok)
qed

end

section \<open>Invariants\<close>

text \<open>What the executor accepts.\<close>

definition instr_ok :: "Instruction \<Rightarrow> bool" where
  "instr_ok instr \<longleftrightarrow> (let t = ss_of_opcode (i_opcode instr) in
     t \<noteq> SS_INVALID \<and> unat (i_dst instr) < 8 \<and> unat (i_src instr) < 8 \<and> imm_ok t (i_imm32 instr) \<and>
     (t \<in> {SS_ISUB_R, SS_IXOR_R, SS_IADD_RS, SS_IMUL_R} \<longrightarrow> i_src instr \<noteq> i_dst instr) \<and>
     (t = SS_IADD_RS \<longrightarrow> unat (i_dst instr) \<noteq> RegisterNeedsDisplacement))"

definition base_ok :: "SuperscalarInstruction \<Rightarrow> bool" where
  "base_ok cur \<longleftrightarrow> (\<exists>t. t \<noteq> SS_INVALID \<and> si_info cur = ss_info t \<and> imm_ok t (si_imm32 cur) \<and>
     si_canReuse cur = (t = SS_IMULH_R \<or> t = SS_ISMULH_R))"

text \<open>The registers chosen before macro-operation \<open>m\<close>.\<close>

definition src_at :: "SuperscalarInstruction \<Rightarrow> nat \<Rightarrow> bool" where
  "src_at cur m \<longleftrightarrow> (info_srcOp (si_info cur) < 0 \<longrightarrow> si_src cur = - 1) \<and>
     (0 \<le> info_srcOp (si_info cur) \<and> info_srcOp (si_info cur) < int m \<longrightarrow> 0 \<le> si_src cur \<and> si_src cur < 8)"

definition dst_at :: "SuperscalarInstruction \<Rightarrow> nat \<Rightarrow> bool" where
  "dst_at cur m \<longleftrightarrow> (info_dstOp (si_info cur) < int m \<longrightarrow> 0 \<le> si_dst cur \<and> si_dst cur < 8 \<and>
     (si_canReuse cur \<or> si_dst cur \<noteq> si_src cur) \<and>
     (info_type (si_info cur) = SS_IADD_RS \<longrightarrow> si_dst cur \<noteq> int RegisterNeedsDisplacement))"

definition ports_ok :: "port_map \<Rightarrow> bool" where
  "ports_ok ports \<longleftrightarrow> length ports = CYCLE_MAP_SIZE \<and> (\<forall>row \<in> set ports. length row = 3)"

definition common_ok :: "gen_state_ss \<Rightarrow> bool" where
  "common_ok s \<longleftrightarrow> gen_ok (gs_gen s) \<and> length (gs_regs s) = 8 \<and> ports_ok (gs_ports s) \<and>
     length (gs_prog s) = SuperscalarMaxSize \<and>
     gs_programSize s \<le> program_limit \<and> (\<forall>i < gs_programSize s. instr_ok (gs_prog s ! i))"

definition pending :: "nat \<Rightarrow> nat \<Rightarrow> gen_state_ss \<Rightarrow> bool" where
  "pending a b s \<longleftrightarrow> common_ok s \<and> base_ok (gs_cur s) \<and> gs_macroOpIndex s < info_size (gs_cur s) \<and>
     gs_programSize s < program_limit \<and> src_at (gs_cur s) (gs_macroOpIndex s + a) \<and> dst_at (gs_cur s) (gs_macroOpIndex s + b)"

definition gs_inv :: "gen_state_ss \<Rightarrow> bool" where
  "gs_inv s \<longleftrightarrow> common_ok s \<and> (gs_macroOpIndex s < info_size (gs_cur s) \<longrightarrow> pending 0 0 s)"

lemma ports_ok_put:
  "ports_ok ports \<Longrightarrow> c < CYCLE_MAP_SIZE \<Longrightarrow> ports_ok (ports[c := (ports ! c)[p := u]])"
  by (auto simp: ports_ok_def dest!: set_update_subset_insert [THEN subsetD])

lemma scheduleUop_dims:
  "ports_ok ports \<Longrightarrow> ports_ok (snd (scheduleUop commit uop ports c))"
proof (induction commit uop ports c rule: scheduleUop.induct)
  case (1 commit uop ports c)
  have c: "c < SuperscalarLatency + 4 \<Longrightarrow> c < CYCLE_MAP_SIZE"
    by (simp add: CYCLE_MAP_SIZE_def RANDOMX_SUPERSCALAR_MAX_LATENCY_def SuperscalarLatency_def)
  then show ?case
    using 1 ports_ok_put [OF 1(2)]
    by (cases "free_port uop (ports ! c)") (simp_all add: scheduleUop.simps [of commit uop ports c])
qed

lemma scheduleTwo_dims: "ports_ok ports \<Longrightarrow> ports_ok (snd (scheduleTwo commit mop ports c))"
proof (induction commit mop ports c rule: scheduleTwo.induct)
  case (1 commit mop ports c)
  then show ?case
    by (simp add: scheduleTwo.simps [of commit mop ports c] Let_def scheduleUop_dims)
qed

lemma scheduleMop_dims: "ports_ok ports \<Longrightarrow> ports_ok (snd (scheduleMop commit mop ports c d))"
  by (simp add: scheduleMop_def Let_def scheduleUop_dims scheduleTwo_dims)

section \<open>One turn\<close>

lemma toInstr_ok:
  assumes "base_ok cur" and "src_at cur n" and "dst_at cur n" and "length (info_ops (si_info cur)) \<le> n"
  shows "instr_ok (toInstr cur)"
proof -
  obtain t where t: "t \<noteq> SS_INVALID" "si_info cur = ss_info t" "imm_ok t (si_imm32 cur)"
      "si_canReuse cur = (t = SS_IMULH_R \<or> t = SS_ISMULH_R)"
    using assms(1) by (auto simp: base_ok_def)
  have type: "info_type (ss_info t) = t"
    by (cases t) (simp_all add: info_single_def info_array_def)
  have op: "ss_of_opcode (of_int (ss_opcode t)) = t"
    using t(1) by (cases t) (simp_all add: ss_of_opcode_def ss_types_def)
  have last: "info_dstOp (ss_info t) < int n" "info_srcOp (ss_info t) < int n"
    using assms(4) t(1,2) by (cases t; simp add: info_single_def info_array_def IMULH_R_ops_array_def
        ISMULH_R_ops_array_def IMUL_RCP_ops_array_def)+
  have d: "0 \<le> si_dst cur" "si_dst cur < 8" "si_canReuse cur \<or> si_dst cur \<noteq> si_src cur"
      "t = SS_IADD_RS \<Longrightarrow> si_dst cur \<noteq> int RegisterNeedsDisplacement"
    using assms(3) last(1) type by (auto simp: dst_at_def t(2) simp del: ss_info.simps)
  have s: "si_src cur = - 1 \<or> 0 \<le> si_src cur \<and> si_src cur < 8"
    using assms(2) last(2) by (auto simp: src_at_def t(2))
  have nsrc: "0 \<le> si_src cur" if "t \<in> {SS_ISUB_R, SS_IXOR_R, SS_IADD_RS, SS_IMUL_R}"
    using assms(2) last(2) that by (auto simp: src_at_def t(2) info_single_def)
  have u: "unat (of_int i :: u8) = nat i" if "0 \<le> i" "i < 8" for i
    using that by (cases i rule: nonneg_int_cases) (simp_all add: unat_of_nat)
  have inj: "(of_int i :: u8) \<noteq> of_int j" if "0 \<le> i" "i < 8" "0 \<le> j" "j < 8" "i \<noteq> j" for i j
    using u [OF that(1,2)] u [OF that(3,4)] that by (metis eq_nat_nat_iff)
  show ?thesis
    using t(1) d s nsrc t(3,4) u inj by (auto simp: instr_ok_def toInstr_def Let_def t(2) type op nat_less_iff)
qed

lemma common_ok_cur:
  "common_ok s \<Longrightarrow> gen_ok g \<Longrightarrow> common_ok (s\<lparr>gs_cur := cur, gs_gen := g\<rparr>)"
  by (simp add: common_ok_def)

text \<open>Looking forward keeps an assertion, and reaches the next one when a register is found.\<close>

lemma look_forward_rule:
  assumes "\<And>c s f cur g. select c s = (f, cur, g) \<Longrightarrow> Q s \<Longrightarrow>
      (f \<longrightarrow> R (s\<lparr>gs_cur := cur, gs_gen := g\<rparr>)) \<and> (\<not> f \<longrightarrow> Q (s\<lparr>gs_cur := cur, gs_gen := g\<rparr>))"
    and "\<And>s n. Q s \<Longrightarrow> Q (s\<lparr>gs_cycle := n\<rparr>)"
  shows "look_forward select n c s = (f, c', s') \<Longrightarrow> Q s \<Longrightarrow> (f \<longrightarrow> R s') \<and> (\<not> f \<longrightarrow> Q s')"
proof (induction n arbitrary: c s)
  case (Suc n)
  obtain found cur g where sel: "select c s = (found, cur, g)" by (metis prod_cases3)
  from assms(1) [OF this Suc.prems(2)] assms(2) Suc.IH Suc.prems(1) sel show ?case
    by (cases found) auto
qed simp

context byte_source begin

lemma source_step:
  assumes "try_source B c s = (f, cur, g)" and "pending 0 0 s" and "int (gs_macroOpIndex s) = info_srcOp (si_info (gs_cur s))"
  shows "(f \<longrightarrow> pending 1 0 (s\<lparr>gs_cur := cur, gs_gen := g\<rparr>)) \<and> (\<not> f \<longrightarrow> pending 0 0 (s\<lparr>gs_cur := cur, gs_gen := g\<rparr>))"
proof -
  let ?c = "gs_cur s" and ?av = "filter (\<lambda>i. ri_latency (gs_regs s ! i) \<le> c) [0..<8]"
  obtain t where t: "t \<noteq> SS_INVALID" "si_info ?c = ss_info t" "si_canReuse ?c = (t = SS_IMULH_R \<or> t = SS_ISMULH_R)"
    and base: "imm_ok t (si_imm32 ?c)"
    using assms(2) by (auto simp: pending_def base_ok_def)
  have late: "\<not> info_dstOp (ss_info t) < int (gs_macroOpIndex s) \<or> si_canReuse ?c \<and> t \<noteq> SS_IADD_RS"
    using assms(3) t by (cases t) (auto simp: info_single_def info_array_def)
  have upd: "pending 1 0 (s\<lparr>gs_cur := cur', gs_gen := g\<rparr>)"
    if "si_info cur' = si_info ?c" "si_imm32 cur' = si_imm32 ?c" "si_canReuse cur' = si_canReuse ?c" "si_dst cur' = si_dst ?c"
      "0 \<le> si_src cur'" "si_src cur' < 8" "gen_ok g" for cur' g
    using assms(2,3) late t base that
    by (auto simp: pending_def common_ok_def base_ok_def src_at_def dst_at_def info_size_def)
  show ?thesis
  proof (cases "length ?av = 2 \<and> info_type (si_info ?c) = SS_IADD_RS \<and>
      (?av ! 0 = RegisterNeedsDisplacement \<or> ?av ! 1 = RegisterNeedsDisplacement)")
    case True
    then have "f" "cur = ?c\<lparr>si_src := int RegisterNeedsDisplacement, si_opGroupPar := int RegisterNeedsDisplacement\<rparr>" "g = gs_gen s"
      using assms(1) by (simp_all add: try_source_def selectSource_def Let_def)
    with upd [of cur g] assms(2) show ?thesis
      by (simp add: pending_def common_ok_def RegisterNeedsDisplacement_def)
  next
    case False
    obtain r g' where sel: "selectRegister B ?av (gs_gen s) = (r, g')" by fastforce
    have "gen_ok (gs_gen s)" using assms(2) by (simp add: pending_def common_ok_def)
    from selectRegister_ok [OF sel this] have r: "gen_ok g'" "case r of None \<Rightarrow> True | Some i \<Rightarrow> i < 8"
      by (auto split: option.splits)
    show ?thesis
    proof (cases r)
      case None
      with assms(1) False sel have "\<not> f" "cur = ?c" "g = g'"
        by (auto simp: try_source_def selectSource_def Let_def)
      with assms(2) r show ?thesis by (simp add: pending_def common_ok_def)
    next
      case (Some i)
      with assms(1) False sel have "f" "cur = (if si_groupParIsSource ?c then ?c\<lparr>si_src := int i, si_opGroupPar := int i\<rparr>
          else ?c\<lparr>si_src := int i\<rparr>)" "g = g'"
        by (auto simp: try_source_def selectSource_def Let_def)
      with upd [of cur g] r Some show ?thesis by (simp split: if_splits)
    qed
  qed
qed

lemma destination_step:
  assumes "try_destination B c s = (f, cur, g)" and "pending 1 0 s" and "int (gs_macroOpIndex s) = info_dstOp (si_info (gs_cur s))"
  shows "(f \<longrightarrow> pending 1 1 (s\<lparr>gs_cur := cur, gs_gen := g\<rparr>)) \<and> (\<not> f \<longrightarrow> pending 1 0 (s\<lparr>gs_cur := cur, gs_gen := g\<rparr>))"
proof -
  let ?c = "gs_cur s" and ?av = "dst_available c (gs_throwAway s > 0) (gs_regs s) (gs_cur s)"
  obtain r g' where sel: "selectRegister B ?av (gs_gen s) = (r, g')" by fastforce
  have "gen_ok (gs_gen s)" using assms(2) by (simp add: pending_def common_ok_def)
  from selectRegister_ok [OF sel this] have r: "gen_ok g'" "case r of None \<Rightarrow> True | Some i \<Rightarrow> i \<in> set ?av"
    by (auto split: option.splits)
  show ?thesis
  proof (cases r)
    case None
    with assms(1) sel have "\<not> f" "cur = ?c" "g = g'"
      by (auto simp: try_destination_def selectDestination_def)
    with assms(2) r show ?thesis by (simp add: pending_def common_ok_def)
  next
    case (Some i)
    with assms(1) sel have f: "f" "cur = ?c\<lparr>si_dst := int i\<rparr>" "g = g'"
      by (auto simp: try_destination_def selectDestination_def)
    have i: "i < 8" "si_canReuse ?c \<or> int i \<noteq> si_src ?c" "info_type (si_info ?c) = SS_IADD_RS \<longrightarrow> i \<noteq> RegisterNeedsDisplacement"
      using r(2) Some by (auto simp: dst_available_def)
    show ?thesis
      using assms(2,3) f i r(1)
      by (auto simp: pending_def common_ok_def base_ok_def src_at_def dst_at_def info_size_def)
  qed
qed

end

text \<open>Issuing the macro-operation closes the turn.\<close>

lemma issue_ok:
  assumes "pending 1 1 s" and "issue mop topCycle c s = (e, s')"
  shows "gs_inv s'"
proof -
  let ?cur = "gs_cur s" and ?m = "gs_macroOpIndex s"
  have p: "common_ok s" "base_ok ?cur" "?m < info_size ?cur" "gs_programSize s < program_limit"
    "src_at ?cur (?m + 1)" "dst_at ?cur (?m + 1)"
    using assms(1) by (simp_all add: pending_def)
  have prev: "src_at ?cur ?m" "dst_at ?cur ?m"
    using p(5,6) by (auto simp: src_at_def dst_at_def)
  have ports: "ports_ok (snd (scheduleMop True mop (gs_ports s) c c))"
    using p(1) by (simp add: common_ok_def scheduleMop_dims)
  obtain k ports' where k: "scheduleMop True mop (gs_ports s) c c = (k, ports')" by fastforce
  have limit: "program_limit < SuperscalarMaxSize"
    by (simp add: program_limit_def SuperscalarLatency_def SuperscalarMaxSize_def RANDOMX_SUPERSCALAR_MAX_LATENCY_def)
  have emit: "instr_ok (toInstr ?cur)" if "info_size ?cur \<le> ?m + 1"
    using toInstr_ok [OF p(2,5,6)] that by (simp add: info_size_def)
  show ?thesis
  proof (cases "k < 0")
    case True
    with assms(2) k have "s' = s\<lparr>gs_throwAway := 0, gs_ports := ports', gs_saturated := True\<rparr>"
      by (simp add: issue_def Let_def)
    with p prev ports k show ?thesis
      by (simp add: gs_inv_def pending_def common_ok_def)
  next
    case False
    define fin where "fin = (info_size ?cur \<le> ?m + 1)"
    have "s' = snd (issue mop topCycle c s)" using assms(2) by simp
    then have s': "gs_gen s' = gs_gen s" "gs_ports s' = ports'" "length (gs_regs s') = length (gs_regs s)" "gs_cur s' = ?cur"
      "gs_macroOpIndex s' = ?m + 1"
      "gs_prog s' = (if fin then (gs_prog s)[gs_programSize s := toInstr ?cur] else gs_prog s)"
      "gs_programSize s' = (if fin then gs_programSize s + 1 else gs_programSize s)"
      using k False by (cases "int ?m = info_resultOp (si_info ?cur)"; cases "nat k \<ge> SuperscalarLatency"; cases fin;
          simp add: issue_def Let_def fin_def)+
    have "common_ok s'"
      using p(1,4) s' ports k limit emit unfolding common_ok_def
      by (auto simp: fin_def less_Suc_eq nth_list_update split: if_splits)
    moreover have "pending 0 0 s'" if "gs_macroOpIndex s' < info_size (gs_cur s')"
      using calculation p s' that by (simp add: pending_def fin_def)
    ultimately show ?thesis by (simp add: gs_inv_def)
  qed
qed

lemma throw_away_ok: "common_ok s \<Longrightarrow> throw_away s = (e, s') \<Longrightarrow> gs_inv s'"
  by (auto simp: throw_away_def gs_inv_def common_ok_def info_size_def ss_Null_def split: if_splits)

lemma pending_cycle: "pending a b s \<Longrightarrow> pending a b (s\<lparr>gs_cycle := n\<rparr>)"
  by (simp add: pending_def common_ok_def)

lemma pending_common: "pending a b s \<Longrightarrow> common_ok s"
  by (simp add: pending_def)

lemmas turn_ends = issue_ok throw_away_ok [OF pending_common]

text \<open>The descriptions fix where registers are chosen.\<close>

lemma pending_no_src:
  "pending 0 0 s \<Longrightarrow> int (gs_macroOpIndex s) \<noteq> info_srcOp (si_info (gs_cur s)) \<Longrightarrow> pending 1 0 s"
  by (auto simp: pending_def src_at_def)

lemma pending_no_dst:
  "pending 1 0 s \<Longrightarrow> int (gs_macroOpIndex s) \<noteq> info_dstOp (si_info (gs_cur s)) \<Longrightarrow> pending 1 1 s"
  by (auto simp: pending_def dst_at_def)

context byte_source begin

lemma find_destination_ok:
  assumes "find_destination B mop t c s = (e, s')" and "pending 1 0 s"
  shows "gs_inv s'"
proof (cases "int (gs_macroOpIndex s) = info_dstOp (si_info (gs_cur s))")
  case True
  let ?Q = "\<lambda>u. pending 1 0 u \<and> int (gs_macroOpIndex u) = info_dstOp (si_info (gs_cur u))"
  obtain f c' u where lf: "look_forward (try_destination B) LOOK_FORWARD_CYCLES c s = (f, c', u)" by (metis prod_cases3)
  have "(f \<longrightarrow> pending 1 1 u) \<and> (\<not> f \<longrightarrow> ?Q u)"
    using lf
  proof (rule look_forward_rule [rotated 2])
    show "?Q s" using assms(2) True by simp
  next
    fix c s f cur g assume "try_destination B c s = (f, cur, g)" and "?Q s"
    then show "(f \<longrightarrow> pending 1 1 (s\<lparr>gs_cur := cur, gs_gen := g\<rparr>)) \<and> (\<not> f \<longrightarrow> ?Q (s\<lparr>gs_cur := cur, gs_gen := g\<rparr>))"
      using destination_step [of c s f cur g]
      by (auto simp: try_destination_def selectDestination_def split: prod.splits option.splits)
  qed (auto intro: pending_cycle)
  with assms(1) True lf show ?thesis
    by (auto simp: find_destination_def split: if_splits intro: turn_ends)
next
  case False
  then have "issue mop t c s = (e, s')" using assms(1) by (simp add: find_destination_def)
  with pending_no_dst [OF assms(2) False] show ?thesis by (metis issue_ok)
qed

lemma find_source_ok:
  assumes "find_source B mop t c s = (e, s')" and "pending 0 0 s"
  shows "gs_inv s'"
proof (cases "int (gs_macroOpIndex s) = info_srcOp (si_info (gs_cur s))")
  case True
  let ?Q = "\<lambda>u. pending 0 0 u \<and> int (gs_macroOpIndex u) = info_srcOp (si_info (gs_cur u))"
  obtain f c' u where lf: "look_forward (try_source B) LOOK_FORWARD_CYCLES c s = (f, c', u)" by (metis prod_cases3)
  have "(f \<longrightarrow> pending 1 0 u) \<and> (\<not> f \<longrightarrow> ?Q u)"
    using lf
  proof (rule look_forward_rule [rotated 2])
    show "?Q s" using assms(2) True by simp
  next
    fix c s f cur g assume *: "try_source B c s = (f, cur, g)" and "?Q s"
    moreover have "\<not> f \<Longrightarrow> cur = gs_cur s"
      using * by (auto simp: try_source_def selectSource_def Let_def split: prod.splits option.splits if_splits)
    ultimately show "(f \<longrightarrow> pending 1 0 (s\<lparr>gs_cur := cur, gs_gen := g\<rparr>)) \<and> (\<not> f \<longrightarrow> ?Q (s\<lparr>gs_cur := cur, gs_gen := g\<rparr>))"
      using source_step [of c s f cur g] by auto
  qed (auto intro: pending_cycle)
  with assms(1) True lf show ?thesis
    by (auto simp: find_source_def split: if_splits intro: find_destination_ok turn_ends)
next
  case False
  then have "find_destination B mop t c s = (e, s')" using assms(1) by (simp add: find_source_def)
  with pending_no_src [OF assms(2) False] show ?thesis by (metis find_destination_ok)
qed

lemma next_instruction_ok:
  assumes "next_instruction B db s = Some (go, s')" and "gs_inv s"
  shows "gs_inv s' \<and> (go \<longrightarrow> pending 0 0 s')"
proof (cases "gs_macroOpIndex s \<ge> info_size (gs_cur s) \<and> \<not> (gs_saturated s \<or> gs_programSize s \<ge> program_limit)")
  case True
  then obtain cur g where c: "createForSlot B (db_counts db ! gs_bufferIndex s) (db_index db)
      (length (db_counts db) = gs_bufferIndex s + 1) (gs_cur s) (gs_gen s) = Some (cur, g)"
    and s': "go" "s' = s\<lparr>gs_cur := cur, gs_gen := g, gs_macroOpIndex := 0\<rparr>"
    using assms(1) by (auto simp: next_instruction_def bind_eq_Some_conv)
  have common: "common_ok s" using assms(2) by (simp add: gs_inv_def)
  then have "gen_ok (gs_gen s)" by (simp add: common_ok_def)
  from createForSlot_ok [OF c this] obtain t where t: "gen_ok g" "t \<noteq> SS_INVALID" "si_info cur = ss_info t"
    "imm_ok t (si_imm32 cur)" "si_src cur = - 1" "si_canReuse cur = (t = SS_IMULH_R \<or> t = SS_ISMULH_R)"
    by blast
  have "0 < info_size cur" "0 \<le> info_dstOp (ss_info t)"
    using t(2,3) by (cases t; simp add: info_size_def info_single_def info_array_def IMULH_R_ops_array_def
        ISMULH_R_ops_array_def IMUL_RCP_ops_array_def)+
  then have "pending 0 0 s'"
    using True common t by (auto simp: s'(2) pending_def common_ok_def base_ok_def src_at_def dst_at_def)
  then show ?thesis using pending_common by (simp add: gs_inv_def)
next
  case False
  then show ?thesis using assms by (auto simp: next_instruction_def gs_inv_def split: if_splits)
qed

lemma slot_turn_ok:
  assumes "slot_turn B db s = Some (e, s')" and "gs_inv s"
  shows "gs_inv s'"
proof -
  obtain go u where u: "next_instruction B db s = Some (go, u)"
    using assms(1) by (auto simp: slot_turn_def Let_def bind_eq_Some_conv)
  note inv = next_instruction_ok [OF u assms(2)]
  have sat: "gs_inv (u\<lparr>gs_saturated := True\<rparr>)"
    using inv by (simp add: gs_inv_def pending_def common_ok_def)
  show ?thesis
    using assms(1) u inv sat find_source_ok by (auto simp: slot_turn_def Let_def split: if_splits)
qed

lemma slot_loop_ok: "slot_loop B db s = Some s' \<Longrightarrow> gs_inv s \<Longrightarrow> gs_inv s'"
proof (induction "slot_measure db s" arbitrary: s rule: less_induct)
  case less
  show ?case
  proof (cases "gs_bufferIndex s < length (db_counts db)")
    case True
    with less.prems(1) have step: "(case slot_turn B db s of None \<Rightarrow> None | Some (Again, u) \<Rightarrow> slot_loop B db u
        | Some (Leave, u) \<Rightarrow> Some u) = Some s'"
      by (subst (asm) slot_loop.simps) (simp only: if_True)
    then obtain e u where u: "slot_turn B db s = Some (e, u)" by (cases "slot_turn B db s") auto
    have inv: "gs_inv u" using slot_turn_ok [OF u less.prems(2)] .
    show ?thesis
    proof (cases e)
      case Again
      with u have turn: "slot_turn B db s = Some (Again, u)" by simp
      with step have "slot_loop B db u = Some s'" by simp
      then show ?thesis by (rule less.hyps [OF slot_turn_measure [OF True turn] _ inv])
    next
      case Leave
      with u step inv show ?thesis by simp
    qed
  next
    case False
    then show ?thesis using less.prems by (simp add: slot_loop.simps [of B db s])
  qed
qed

lemma decode_loop_ok: "decode_loop B k s = Some (n, s') \<Longrightarrow> gs_inv s \<Longrightarrow> gs_inv s'"
proof (induction "SuperscalarLatency - k" arbitrary: k s rule: less_induct)
  case less
  show ?case
  proof (cases "k < SuperscalarLatency \<and> \<not> gs_saturated s \<and> gs_programSize s < program_limit")
    case True
    obtain db g where f: "fetchNext B (info_type (si_info (gs_cur s))) k (gs_mulCount s) (gs_gen s) = (db, g)" by fastforce
    have "gen_ok g" using fetchNext_ok [OF f] less.prems(2) by (simp add: gs_inv_def common_ok_def)
    then have "gs_inv (s\<lparr>gs_gen := g, gs_bufferIndex := 0\<rparr>)"
      using less.prems(2) by (simp add: gs_inv_def pending_def common_ok_def)
    moreover obtain u where u: "slot_loop B db (s\<lparr>gs_gen := g, gs_bufferIndex := 0\<rparr>) = Some u"
      "decode_loop B (k + 1) (u\<lparr>gs_cycle := gs_cycle u + 1\<rparr>) = Some (n, s')"
      using less.prems(1) f True by (simp add: decode_loop.simps [of B k s] split: option.splits)
    ultimately have "gs_inv u" using slot_loop_ok by blast
    then have "gs_inv (u\<lparr>gs_cycle := gs_cycle u + 1\<rparr>)" by (simp add: gs_inv_def pending_def common_ok_def)
    moreover have "SuperscalarLatency - (k + 1) < SuperscalarLatency - k" using True by linarith
    ultimately show ?thesis using less.hyps [OF _ u(2)] by blast
  next
    case False
    then show ?thesis using less.prems by (auto simp: decode_loop.simps [of B k s])
  qed
qed

end

section \<open>The generated program\<close>

lemma length_asic_step [simp]: "length (asic_step lat instr) = length lat"
  by (simp add: asic_step_def Let_def)

lemma address_register_greatest:
  assumes "address_register lat = (mx, reg)"
  shows "reg < 8 \<and> lat ! reg = mx \<and> (\<forall>i < 8. lat ! i \<le> mx)"
proof -
  define P where "P k p \<longleftrightarrow> (p = (0, 0) \<or> lat ! snd p = fst p \<and> snd p < k) \<and> (\<forall>i < k. lat ! i \<le> fst p)"
    for k and p :: "nat \<times> nat"
  have "P 8 (address_register lat)"
    unfolding address_register_def
    by (rule for_range_invariant) (auto simp: P_def less_Suc_eq split: prod.splits)
  with assms show ?thesis by (auto simp: P_def)
qed

definition program_ok :: "SuperscalarProgram \<Rightarrow> bool" where
  "program_ok p \<longleftrightarrow> length (sp_buffer p) = SuperscalarMaxSize \<and> sp_size p \<le> program_limit \<and> sp_addrReg p < 8 \<and>
     sp_asicLatencies p ! sp_addrReg p = sp_asicLatency p \<and> (\<forall>i < 8. sp_asicLatencies p ! i \<le> sp_asicLatency p) \<and>
     (\<forall>i < sp_size p. instr_ok (sp_buffer p ! i))"

context byte_source begin

lemma start_ok:
  "gen_ok g \<Longrightarrow> length buf = SuperscalarMaxSize \<Longrightarrow> gs_inv (gs_start g buf)"
  by (simp add: gs_start_def gs_inv_def common_ok_def ports_ok_def info_size_def ss_Null_def)

lemma program_ok_generated:
  assumes "generateSuperscalar B p g = Some (p', g')" and "gen_ok g" and "length (sp_buffer p) = SuperscalarMaxSize"
  shows "program_ok p' \<and> gen_ok g'"
proof -
  obtain n s where dl: "decode_loop B 0 (gs_start g (sp_buffer p)) = Some (n, s)"
    using assms(1) by (cases "decode_loop B 0 (gs_start g (sp_buffer p))") (auto simp: generateSuperscalar_def Let_def)
  have "gs_inv s" by (rule decode_loop_ok [OF dl start_ok [OF assms(2,3)]])
  moreover have "sp_buffer p' = gs_prog s" "sp_size p' = gs_programSize s" "g' = gs_gen s"
    "(sp_asicLatency p', sp_addrReg p') = address_register (sp_asicLatencies p')"
    using assms(1) dl by (auto simp: generateSuperscalar_def Let_def split: prod.splits)
  ultimately show ?thesis
    using address_register_greatest [of "sp_asicLatencies p'" "sp_asicLatency p'" "sp_addrReg p'"]
    by (simp add: program_ok_def gs_inv_def common_ok_def)
qed

end

text \<open>The loops that redraw an immediate end as soon as the bytes that follow hold a usable one, which is a statement
  about the byte source alone: \<open>stream_byte B g n\<close> and \<open>stream_word B g n\<close> are what the draw after \<open>n\<close> others returns.\<close>

definition stream_byte :: "(bytes \<Rightarrow> bytes) \<Rightarrow> Blake2Generator \<Rightarrow> nat \<Rightarrow> u8" where
  "stream_byte B g n = fst (getByte B (((\<lambda>g. snd (getByte B g)) ^^ n) g))"

definition stream_word :: "(bytes \<Rightarrow> bytes) \<Rightarrow> Blake2Generator \<Rightarrow> nat \<Rightarrow> u32" where
  "stream_word B g n = fst (getUInt32 B (((\<lambda>g. snd (getUInt32 B g)) ^^ n) g))"

definition rotation_stuck :: "(bytes \<Rightarrow> bytes) \<Rightarrow> Blake2Generator \<Rightarrow> bool" where
  "rotation_stuck B g \<longleftrightarrow> (\<forall>n. (ucast (stream_byte B g n) :: u32) AND 63 = 0)"

definition divisor_stuck :: "(bytes \<Rightarrow> bytes) \<Rightarrow> Blake2Generator \<Rightarrow> bool" where
  "divisor_stuck B g \<longleftrightarrow> (\<forall>n. isZeroOrPowerOf2 (ucast (stream_word B g n)))"

definition draws_end :: "(bytes \<Rightarrow> bytes) \<Rightarrow> bool" where
  "draws_end B \<longleftrightarrow> (\<forall>g. gen_ok g \<longrightarrow> \<not> rotation_stuck B g \<and> \<not> divisor_stuck B g)"

lemma stream_Suc:
  "stream_byte B g (Suc n) = stream_byte B (snd (getByte B g)) n"
  "stream_word B g (Suc n) = stream_word B (snd (getUInt32 B g)) n"
  by (simp_all add: stream_byte_def stream_word_def funpow_Suc_right del: funpow.simps)

lemma draw_rotation_usable: "(ucast (stream_byte B g n) :: u32) AND 63 \<noteq> 0 \<Longrightarrow> draw_rotation B g \<noteq> None"
proof (induction n arbitrary: g)
  case 0
  then show ?case by (subst draw_rotation.simps) (simp add: stream_byte_def split_beta Let_def)
next
  case (Suc n)
  from Suc.IH [OF Suc.prems [unfolded stream_Suc]] show ?case
    by (subst draw_rotation.simps) (simp add: Let_def split_beta)
qed

lemma draw_divisor_usable: "\<not> isZeroOrPowerOf2 (ucast (stream_word B g n)) \<Longrightarrow> draw_divisor B g \<noteq> None"
proof (induction n arbitrary: g)
  case 0
  then show ?case by (subst draw_divisor.simps) (simp add: stream_word_def split_beta)
next
  case (Suc n)
  from Suc.IH [OF Suc.prems [unfolded stream_Suc]] show ?case
    by (subst draw_divisor.simps) (simp add: split_beta)
qed

lemma draw_rotation_unstuck: "draw_rotation B g = Some r \<Longrightarrow> \<not> rotation_stuck B g"
proof (rule draw_rotation.raw_induct [where P = "\<lambda>B g r. \<not> rotation_stuck B g"])
  fix rec and B :: "bytes \<Rightarrow> bytes" and g and r :: "u32 \<times> Blake2Generator"
  assume IH: "\<And>B g r. rec B g = Some r \<Longrightarrow> \<not> rotation_stuck B g"
    and run: "(let (b, g) = getByte B g; imm = ucast b AND 63 in if imm = 0 then rec B g else Some (imm, g)) = Some r"
  show "\<not> rotation_stuck B g"
  proof (cases "(ucast (stream_byte B g 0) :: u32) AND 63 = 0")
    case True
    with run IH have "\<not> rotation_stuck B (snd (getByte B g))"
      by (auto simp: stream_byte_def Let_def split: prod.splits)
    then show ?thesis by (auto simp: rotation_stuck_def stream_Suc(1) [symmetric])
  qed (auto simp: rotation_stuck_def)
qed

lemma draw_divisor_unstuck: "draw_divisor B g = Some r \<Longrightarrow> \<not> divisor_stuck B g"
proof (rule draw_divisor.raw_induct [where P = "\<lambda>B g r. \<not> divisor_stuck B g"])
  fix rec and B :: "bytes \<Rightarrow> bytes" and g and r :: "u32 \<times> Blake2Generator"
  assume IH: "\<And>B g r. rec B g = Some r \<Longrightarrow> \<not> divisor_stuck B g"
    and run: "(let (imm, g) = getUInt32 B g in if isZeroOrPowerOf2 (ucast imm) then rec B g else Some (imm, g)) = Some r"
  show "\<not> divisor_stuck B g"
  proof (cases "isZeroOrPowerOf2 (ucast (stream_word B g 0))")
    case True
    with run IH have "\<not> divisor_stuck B (snd (getUInt32 B g))"
      by (auto simp: stream_word_def split: prod.splits)
    then show ?thesis by (auto simp: divisor_stuck_def stream_Suc(2) [symmetric])
  qed (auto simp: divisor_stuck_def)
qed

lemma draws_end_iff: "draws_end B \<longleftrightarrow> (\<forall>g. gen_ok g \<longrightarrow> draw_rotation B g \<noteq> None \<and> draw_divisor B g \<noteq> None)"
  unfolding draws_end_def rotation_stuck_def divisor_stuck_def
  using draw_rotation_usable draw_divisor_usable draw_rotation_unstuck draw_divisor_unstuck
  by (metis not_None_eq rotation_stuck_def divisor_stuck_def)

definition slots_ok :: "DecoderBuffer \<Rightarrow> bool" where
  "slots_ok db \<longleftrightarrow> set (db_counts db) \<subseteq> {3, 4, 7, 8, 9, 10}"

context byte_source begin

lemma ss_create_ends:
  assumes "draws_end B" and "gen_ok g"
  shows "ss_create B t cur g \<noteq> None"
  using assms by (cases t) (auto simp: ss_create_def draws_end_iff Let_def split: prod.splits)

lemma createForSlot_ends:
  assumes "draws_end B" and "gen_ok g" and "n \<in> {3, 4, 7, 8, 9, 10}"
  shows "createForSlot B n f l cur g \<noteq> None"
proof -
  have "slot_type B n f l g \<noteq> None"
    using assms(3) by (auto simp: slot_type_def Let_def split: prod.splits)
  then obtain t g' where t: "slot_type B n f l g = Some (t, g')" by auto
  with slot_type_ok [OF t assms(2)] ss_create_ends [OF assms(1)] show ?thesis
    by (auto simp: createForSlot_def)
qed

lemma fetchNext_slots: "fetchNext B t c m g = (db, g') \<Longrightarrow> slots_ok db"
proof -
  have "decodeBuffers ! unat (b AND 3) \<in> set decodeBuffers" for b :: u8
    using and_less_4 [of b] by (intro nth_mem) (simp add: decodeBuffers_def)
  moreover have "\<forall>db \<in> set decodeBuffers. slots_ok db"
    by (simp add: slots_ok_def decodeBuffers_def decodeBuffer484_def decodeBuffer7333_def decodeBuffer3733_def decodeBuffer493_def)
  ultimately have "slots_ok (decodeBuffers ! unat (b AND 3))" for b :: u8 by blast
  moreover have "slots_ok decodeBuffer484" "slots_ok decodeBuffer493" "slots_ok decodeBuffer4444" "slots_ok decodeBuffer3310"
    by (simp_all add: slots_ok_def decodeBuffer484_def decodeBuffer493_def decodeBuffer4444_def decodeBuffer3310_def)
  moreover assume "fetchNext B t c m g = (db, g')"
  ultimately show ?thesis
    by (auto simp: fetchNext_def fetchNextDefault_def split: prod.splits if_splits)
qed

lemma slot_turn_ends:
  assumes "draws_end B" and "slots_ok db" and "gs_bufferIndex s < length (db_counts db)" and "gs_inv s"
  shows "slot_turn B db s \<noteq> None"
proof -
  have "db_counts db ! gs_bufferIndex s \<in> {3, 4, 7, 8, 9, 10}"
    using assms(2,3) by (auto simp: slots_ok_def dest: nth_mem)
  moreover have "gen_ok (gs_gen s)" using assms(4) by (simp add: gs_inv_def common_ok_def)
  ultimately obtain cur g where "createForSlot B (db_counts db ! gs_bufferIndex s) (db_index db)
      (length (db_counts db) = gs_bufferIndex s + 1) (gs_cur s) (gs_gen s) = Some (cur, g)"
    using createForSlot_ends [OF assms(1)] by fastforce
  then have "next_instruction B db s \<noteq> None" by (auto simp: next_instruction_def)
  then show ?thesis by (auto simp: slot_turn_def Let_def)
qed

lemma slot_loop_ends:
  assumes "draws_end B" and "slots_ok db"
  shows "gs_inv s \<Longrightarrow> slot_loop B db s \<noteq> None"
proof (induction "slot_measure db s" arbitrary: s rule: less_induct)
  case less
  show ?case
  proof (cases "gs_bufferIndex s < length (db_counts db)")
    case True
    from slot_turn_ends [OF assms True less.prems] obtain e u where u: "slot_turn B db s = Some (e, u)"
      by auto
    have inv: "gs_inv u" using slot_turn_ok [OF u less.prems] .
    show ?thesis
    proof (cases e)
      case Again
      with u have turn: "slot_turn B db s = Some (Again, u)" by simp
      from less.hyps [OF slot_turn_measure [OF True turn] inv] True turn show ?thesis
        by (subst slot_loop.simps) simp
    next
      case Leave
      with u True show ?thesis by (subst slot_loop.simps) simp
    qed
  next
    case False
    then show ?thesis by (subst slot_loop.simps) simp
  qed
qed

lemma decode_loop_ends:
  assumes "draws_end B"
  shows "gs_inv s \<Longrightarrow> decode_loop B k s \<noteq> None"
proof (induction "SuperscalarLatency - k" arbitrary: k s rule: less_induct)
  case less
  show ?case
  proof (cases "k < SuperscalarLatency \<and> \<not> gs_saturated s \<and> gs_programSize s < program_limit")
    case True
    obtain db g where f: "fetchNext B (info_type (si_info (gs_cur s))) k (gs_mulCount s) (gs_gen s) = (db, g)" by fastforce
    let ?s = "s\<lparr>gs_gen := g, gs_bufferIndex := 0\<rparr>"
    have "gen_ok g" using fetchNext_ok [OF f] less.prems by (simp add: gs_inv_def common_ok_def)
    then have inv: "gs_inv ?s" using less.prems by (simp add: gs_inv_def pending_def common_ok_def)
    from slot_loop_ends [OF assms fetchNext_slots [OF f] this] obtain u where u: "slot_loop B db ?s = Some u" by auto
    have "gs_inv u" by (rule slot_loop_ok [OF u inv])
    then have "gs_inv (u\<lparr>gs_cycle := gs_cycle u + 1\<rparr>)" by (simp add: gs_inv_def pending_def common_ok_def)
    moreover have "SuperscalarLatency - (k + 1) < SuperscalarLatency - k" using True by linarith
    ultimately have "decode_loop B (k + 1) (u\<lparr>gs_cycle := gs_cycle u + 1\<rparr>) \<noteq> None" using less.hyps by blast
    then show ?thesis using True f u by (subst decode_loop.simps) simp
  next
    case False
    then show ?thesis by (subst decode_loop.simps) auto
  qed
qed

lemma generator_ends:
  assumes "draws_end B" and "gen_ok g" and "length (sp_buffer p) = SuperscalarMaxSize"
  shows "\<exists>p' g'. generateSuperscalar B p g = Some (p', g')"
  using decode_loop_ends [OF assms(1) start_ok [OF assms(2,3)], of 0]
  by (auto simp: generateSuperscalar_def Let_def split: prod.splits)

end

section \<open>Execution\<close>

lemma ss_exec_total:
  assumes "instr_ok instr" and "length r = 8"
  obtains r' where "ss_exec instr r = Some r'" and "length r' = 8"
proof -
  define t where "t = ss_of_opcode (i_opcode instr)"
  have ok: "t \<noteq> SS_INVALID" "unat (i_dst instr) < length r" "unat (i_src instr) < length r"
    "t = SS_IMUL_RCP \<Longrightarrow> ucast (i_imm32 instr) \<noteq> (0 :: u64)"
    using assms by (auto simp: instr_ok_def t_def Let_def imm_ok_def isZeroOrPowerOf2_def)
  have "\<exists>r'. ss_exec instr r = Some r' \<and> length r' = 8"
    using ok assms(2) unfolding ss_exec_def t_def [symmetric]
    by (cases t) (simp_all add: Let_def randomx_reciprocal_value getImm32_def)
  then show thesis using that by blast
qed

lemma ss_run_total:
  "\<forall>i \<in> set is. instr_ok i \<Longrightarrow> length r = 8 \<Longrightarrow> \<exists>r'. ss_run is r = Some r' \<and> length r' = 8"
proof (induction "is" arbitrary: r)
  case (Cons i "is")
  then obtain u where "ss_exec i r = Some u" "length u = 8" by (auto elim: ss_exec_total [of i r])
  with Cons show ?case by simp
qed simp

lemma program_ok_runs:
  assumes "program_ok p" and "length r = 8"
  shows "\<exists>r'. executeSuperscalar p r = Some r' \<and> length r' = 8"
proof -
  have "program_limit < SuperscalarMaxSize"
    by (simp add: program_limit_def SuperscalarLatency_def SuperscalarMaxSize_def RANDOMX_SUPERSCALAR_MAX_LATENCY_def)
  then have "\<forall>i \<in> set (take (sp_size p) (sp_buffer p)). instr_ok i"
    using assms(1) by (auto simp: program_ok_def in_set_conv_nth)
  with ss_run_total assms(2) show ?thesis by (simp add: executeSuperscalar_def)
qed

text \<open>The hash of the code is such a byte source.\<close>

interpretation blake_bytes: byte_source "blake2b_run 64"
  by unfold_locales (simp add: length_blake2b_run)

lemma new_Blake2Generator_ok: "gen_ok (new_Blake2Generator seed nonce)"
  by (simp add: new_Blake2Generator_def gen_ok_def Let_def maxSeedSize_def)

text \<open>C11: A generated superscalar program is well formed and can always be run: whatever the refill hash, the
  instructions it emits have known opcodes, registers below eight, immediates the executor accepts (no rotation by
  zero, no reciprocal of zero or of a power of two), a source other than the destination where that matters and a
  legal destination for the displacement form; it fits its limit; its address register is one of highest latency;
  and executing it from any eight registers succeeds.\<close>

theorem generateSuperscalar_type_safe:
  assumes "byte_source B" and "gen_ok g" and "length (sp_buffer p) = SuperscalarMaxSize"
    and "generateSuperscalar B p g = Some (p', g')"
  shows "program_ok p' \<and> gen_ok g' \<and> (\<forall>r. length r = 8 \<longrightarrow> (\<exists>r'. executeSuperscalar p' r = Some r' \<and> length r' = 8))"
  using byte_source.program_ok_generated [OF assms(1,4,2,3)] program_ok_runs by blast

text \<open>A byte source for the witnesses.\<close>

definition sevens :: "bytes \<Rightarrow> bytes" where "sevens d = replicate 64 7"

definition blank_program :: SuperscalarProgram where
  "blank_program = \<lparr>sp_buffer = replicate SuperscalarMaxSize \<lparr>i_opcode = 0, i_dst = 0, i_src = 0, i_mod = 0, i_imm32 = 0\<rparr>,
     sp_size = 0, sp_addrReg = 0, sp_codeSize = 0, sp_macroOps = 0, sp_decodeCycles = 0, sp_cpuLatency = 0,
     sp_asicLatency = 0, sp_mulCount = 0, sp_cpuLatencies = replicate 8 0, sp_asicLatencies = replicate 8 0\<rparr>"

interpretation seven_bytes: byte_source sevens
  by unfold_locales (simp add: sevens_def)

lemma sevens_word: "load32 (sub 0 4 (replicate 64 7)) = 0x07070707"
  by (simp add: sub_def load32_def Let_def)

lemma sevens_draws: "gen_ok g \<Longrightarrow> draw_rotation sevens g \<noteq> None \<and> draw_divisor sevens g \<noteq> None"
proof (induction "64 - gen_index g" arbitrary: g rule: less_induct)
  case less
  have next_byte: "draw_rotation sevens (g\<lparr>gen_index := gen_index g + 1\<rparr>) \<noteq> None" if "gen_index g + 1 \<le> 64"
    using less.hyps [of "g\<lparr>gen_index := gen_index g + 1\<rparr>"] less.prems that by (simp add: gen_ok_def)
  have next_word: "draw_divisor sevens (g\<lparr>gen_index := gen_index g + 4\<rparr>) \<noteq> None" if "gen_index g + 4 \<le> 64"
    using less.hyps [of "g\<lparr>gen_index := gen_index g + 4\<rparr>"] less.prems that by (simp add: gen_ok_def)
  have "draw_rotation sevens g \<noteq> None"
  proof (cases "gen_index g + 1 \<le> 64")
    case True
    with next_byte show ?thesis
      by (subst draw_rotation.simps) (simp add: getByte_def checkData_def Let_def)
  next
    case False
    then show ?thesis
      by (subst draw_rotation.simps) (simp add: getByte_def checkData_def Let_def sevens_def)
  qed
  moreover have "draw_divisor sevens g \<noteq> None"
  proof (cases "gen_index g + 4 \<le> 64")
    case True
    with next_word show ?thesis
      by (subst draw_divisor.simps) (simp add: getUInt32_def checkData_def Let_def)
  next
    case False
    then show ?thesis
      by (subst draw_divisor.simps)
        (simp add: getUInt32_def checkData_def Let_def sevens_def sevens_word isZeroOrPowerOf2_def)
  qed
  ultimately show ?case ..
qed

lemma sevens_end: "draws_end sevens"
  using sevens_draws by (simp add: draws_end_iff)

theorem generateSuperscalar_type_safe_witness:
  "\<exists>p' g'. generateSuperscalar sevens blank_program (new_Blake2Generator [1, 2, 3] 0) = Some (p', g') \<and> program_ok p' \<and>
    (\<exists>r'. executeSuperscalar p' [1, 2, 3, 4, 5, 6, 7, 8] = Some r')"
proof -
  note g = new_Blake2Generator_ok [of "[1, 2, 3]" 0]
  have len: "length (sp_buffer blank_program) = SuperscalarMaxSize" by (simp add: blank_program_def)
  obtain p' g' where run: "generateSuperscalar sevens blank_program (new_Blake2Generator [1, 2, 3] 0) = Some (p', g')"
    using seven_bytes.generator_ends [OF sevens_end g len] by blast
  have eight: "length ([1, 2, 3, 4, 5, 6, 7, 8] :: u64 list) = 8" by simp
  from generateSuperscalar_type_safe [OF seven_bytes.byte_source_axioms g len run] eight run show ?thesis by blast
qed

text \<open>C15: The generation of a superscalar program returns: the decode and slot loops always end, even when every port is
  taken or instruction after instruction is thrown away; only the redrawing of an immediate could go on, and if the
  byte source always yields a usable one there is a program.\<close>

theorem generateSuperscalar_returns:
  assumes "byte_source B" and "draws_end B" and "gen_ok g" and "length (sp_buffer p) = SuperscalarMaxSize"
  shows "\<exists>p' g'. generateSuperscalar B p g = Some (p', g')"
  by (rule byte_source.generator_ends [OF assms])

theorem generateSuperscalar_returns_witness:
  "\<exists>p' g'. generateSuperscalar sevens blank_program (new_Blake2Generator [] 5) = Some (p', g')"
  by (rule generateSuperscalar_returns [OF seven_bytes.byte_source_axioms sevens_end new_Blake2Generator_ok])
    (simp add: blank_program_def)

end
