(* ===== verification/RxDataset.thy ===== *)
theory RxDataset
  imports RxSsCorrect "HOL-Library.Multiset"
begin

text \<open>
  The cache and the dataset: \<open>randomx/dataset.{hpp,cpp}\<close>, the dataset part of \<open>randomx/randomx.cpp\<close>,
  the light machine's \<open>randomx/vm_interpreted_light.cpp\<close> and the initialisation by several threads of
  \<open>rx/RxDataset.cpp\<close>.

  Argon2 (vendored) fills the memory of the cache; it is an argument. An access outside a buffer
  and a failed assertion have no result.
\<close>

section \<open>The cache\<close>

record randomx_cache =
  c_memory :: bytes
  c_programs :: "SuperscalarProgram list"

record argon2_context =
  argon_pwd :: bytes
  argon_salt :: bytes
  argon_t_cost :: nat
  argon_m_cost :: u32
  argon_lanes :: nat

type_synonym argon2 = "argon2_context \<Rightarrow> nat \<Rightarrow> bytes \<Rightarrow> bytes"

definition ArgonBlockSize :: u32 where "ArgonBlockSize = 1024"
definition RANDOMX_CACHE_MAX_ACCESSES :: nat where "RANDOMX_CACHE_MAX_ACCESSES = 16"

definition isInitialized :: "randomx_cache \<Rightarrow> bool" where
  "isInitialized cache \<longleftrightarrow> sp_size (c_programs cache ! 0) \<noteq> 0"

text \<open>\<open>for (i = 0; i < CacheAccesses; ++i) generateSuperscalar(cache->programs[i], gen)\<close>.\<close>

primrec generate_programs :: "(bytes \<Rightarrow> bytes) \<Rightarrow> nat \<Rightarrow> SuperscalarProgram list \<Rightarrow> Blake2Generator
    \<Rightarrow> (SuperscalarProgram list \<times> Blake2Generator) option" where
  "generate_programs B 0 programs g = Some (programs, g)"
| "generate_programs B (Suc i) programs g = do {
     (programs, g) \<leftarrow> generate_programs B i programs g;
     (p, g) \<leftarrow> generateSuperscalar B (programs ! i) g;
     Some (programs[i := p], g)
   }"

definition initCache :: "(bytes \<Rightarrow> bytes) \<Rightarrow> argon2 \<Rightarrow> RandomX_Configuration \<Rightarrow> bytes \<Rightarrow> randomx_cache \<Rightarrow> randomx_cache option" where
  "initCache B argon2_ctx_mem cfg key cache = do {
     let context = \<lparr>argon_pwd = key, argon_salt = ArgonSalt cfg, argon_t_cost = ArgonIterations cfg,
       argon_m_cost = ArgonMemory cfg, argon_lanes = ArgonLanes cfg\<rparr>;
     let memory = argon2_ctx_mem context (unat (ArgonMemory cfg * 1024)) (c_memory cache);
     let gen = new_Blake2Generator key 0;
     (programs, gen) \<leftarrow> generate_programs B (CacheAccesses cfg) (c_programs cache) gen;
     Some (cache\<lparr>c_memory := memory, c_programs := programs\<rparr>)
   }"

section \<open>Dataset items\<close>

definition superscalarMul0 :: u64 where "superscalarMul0 = 6364136223846793005"
definition superscalarAdd1 :: u64 where "superscalarAdd1 = 9298411001130361340"
definition superscalarAdd2 :: u64 where "superscalarAdd2 = 12065312585734608966"
definition superscalarAdd3 :: u64 where "superscalarAdd3 = 9306329213124626780"
definition superscalarAdd4 :: u64 where "superscalarAdd4 = 5281919268842080866"
definition superscalarAdd5 :: u64 where "superscalarAdd5 = 10536153434571861004"
definition superscalarAdd6 :: u64 where "superscalarAdd6 = 3398623926847679864"
definition superscalarAdd7 :: u64 where "superscalarAdd7 = 9549104520008361294"

text \<open>The offset of the mix block in the memory of the cache.\<close>

definition getMixBlock :: "RandomX_Configuration \<Rightarrow> u64 \<Rightarrow> nat" where
  "getMixBlock cfg registerValue =
    (let mask = ucast (ucast (ArgonMemory cfg * ArgonBlockSize) div of_nat CacheLineSize - 1 :: u64) :: u32
     in unat (registerValue AND ucast mask) * CacheLineSize)"

definition item_start :: "u64 \<Rightarrow> u64 list" where
  "item_start itemNumber =
    (let r0 = (itemNumber + 1) * superscalarMul0
     in [r0, r0 XOR superscalarAdd1, r0 XOR superscalarAdd2, r0 XOR superscalarAdd3, r0 XOR superscalarAdd4,
         r0 XOR superscalarAdd5, r0 XOR superscalarAdd6, r0 XOR superscalarAdd7])"

definition item_step :: "RandomX_Configuration \<Rightarrow> randomx_cache \<Rightarrow> nat \<Rightarrow> u64 list \<times> u64 \<Rightarrow> (u64 list \<times> u64) option" where
  "item_step cfg cache i = (\<lambda>(rl, registerValue).
    let mix = getMixBlock cfg registerValue;
        prog = c_programs cache ! i
    in do {
      rl \<leftarrow> executeSuperscalar prog rl;
      if mix + 64 \<le> length (c_memory cache) then
        let rl = map2 (XOR) rl (words64 (sub mix 64 (c_memory cache)))
        in Some (rl, rl ! sp_addrReg prog)
      else None
    })"

primrec item_loop :: "RandomX_Configuration \<Rightarrow> randomx_cache \<Rightarrow> nat \<Rightarrow> u64 list \<times> u64 \<Rightarrow> (u64 list \<times> u64) option" where
  "item_loop cfg cache 0 st = Some st"
| "item_loop cfg cache (Suc i) st = do { st \<leftarrow> item_loop cfg cache i st; item_step cfg cache i st }"

definition initDatasetItem :: "RandomX_Configuration \<Rightarrow> randomx_cache \<Rightarrow> u64 \<Rightarrow> u64 list option" where
  "initDatasetItem cfg cache itemNumber = do {
     (rl, registerValue) \<leftarrow> item_loop cfg cache (CacheAccesses cfg) (item_start itemNumber, itemNumber);
     Some rl
   }"

text \<open>A 64-byte item is written at \<open>pos\<close>.\<close>

definition write_item :: "RandomX_Configuration \<Rightarrow> randomx_cache \<Rightarrow> nat \<Rightarrow> nat \<Rightarrow> bytes \<Rightarrow> bytes option" where
  "write_item cfg cache itemNumber pos dataset =
    (if pos + CacheLineSize \<le> length dataset then do {
       rl \<leftarrow> initDatasetItem cfg cache (of_nat itemNumber);
       Some (blit dataset pos (concat (map store64 rl)))
     } else None)"

text \<open>\<open>for (itemNumber = startItem; itemNumber < endItem; ++itemNumber, dataset += CacheLineSize)\<close>.\<close>

function initDataset :: "RandomX_Configuration \<Rightarrow> randomx_cache \<Rightarrow> nat \<Rightarrow> nat \<Rightarrow> nat \<Rightarrow> bytes \<Rightarrow> bytes option" where
  "initDataset cfg cache pos itemNumber endItem dataset =
    (if itemNumber < endItem then do {
       dataset \<leftarrow> write_item cfg cache itemNumber pos dataset;
       initDataset cfg cache (pos + CacheLineSize) (itemNumber + 1) endItem dataset
     } else Some dataset)"
  by pat_completeness auto
termination
  by (relation "measure (\<lambda>(cfg, cache, pos, itemNumber, endItem, dataset). endItem - itemNumber)") auto

declare initDataset.simps [simp del]

definition DatasetItemCount :: "RandomX_Configuration \<Rightarrow> nat" where
  "DatasetItemCount cfg = unat (DatasetBaseSize cfg + of_nat DatasetExtraSize) div RANDOMX_DATASET_ITEM_SIZE"

definition randomx_init_dataset :: "RandomX_Configuration \<Rightarrow> randomx_cache \<Rightarrow> nat \<Rightarrow> nat \<Rightarrow> bytes \<Rightarrow> bytes option" where
  "randomx_init_dataset cfg cache startItem itemCount dataset =
    (if startItem < DatasetItemCount cfg \<and> itemCount \<le> DatasetItemCount cfg \<and> startItem + itemCount \<le> DatasetItemCount cfg
     then initDataset cfg cache (startItem * CacheLineSize) startItem (startItem + itemCount) dataset
     else None)"

section \<open>Threads\<close>

text \<open>The ranges \<open>(startItem, itemCount)\<close> initialised by one thread, in its order.\<close>

definition init_dataset_wrapper :: "bool \<Rightarrow> nat \<Rightarrow> nat \<Rightarrow> (nat \<times> nat) list" where
  "init_dataset_wrapper hasAVX2 startItem itemCount =
    (if hasAVX2 \<and> itemCount mod 5 \<noteq> 0 then
       [(startItem, itemCount - itemCount mod 5), (startItem + itemCount - 5, 5)]
     else [(startItem, itemCount)])"

text \<open>The threads of \<open>RxDataset::init\<close>.\<close>

definition dataset_threads :: "bool \<Rightarrow> nat \<Rightarrow> nat \<Rightarrow> (nat \<times> nat) list list" where
  "dataset_threads hasAVX2 datasetItemCount numThreads =
    (if numThreads > 1 then
       map (\<lambda>i. let a = datasetItemCount * i div numThreads;
                    b = datasetItemCount * (i + 1) div numThreads
                in init_dataset_wrapper hasAVX2 a (b - a)) [0..<numThreads]
     else [init_dataset_wrapper hasAVX2 0 datasetItemCount])"

section \<open>Reading the dataset\<close>

text \<open>\<open>InterpretedVm::datasetRead\<close> and \<open>InterpretedLightVm::datasetRead\<close>: the line at an address.\<close>

definition full_line :: "bytes \<Rightarrow> u64 \<Rightarrow> u64 list option" where
  "full_line dataset address =
    (if unat address + 64 \<le> length dataset then Some (words64 (sub (unat address) 64 dataset)) else None)"

definition light_line :: "RandomX_Configuration \<Rightarrow> randomx_cache \<Rightarrow> u64 \<Rightarrow> u64 list option" where
  "light_line cfg cache address =
    (let itemNumber = ucast (address div of_nat CacheLineSize) :: u32
     in initDatasetItem cfg cache (ucast itemNumber))"

section \<open>Items\<close>

definition cache_ok :: "RandomX_Configuration \<Rightarrow> randomx_cache \<Rightarrow> bool" where
  "cache_ok cfg cache \<longleftrightarrow> unat (ArgonMemory cfg * ArgonBlockSize) \<le> length (c_memory cache) \<and>
     CacheAccesses cfg \<le> length (c_programs cache) \<and> (\<forall>i < CacheAccesses cfg. program_ok (c_programs cache ! i))"

text \<open>The configurations' caches are a positive number of lines.\<close>

definition lines_ok :: "RandomX_Configuration \<Rightarrow> bool" where
  "lines_ok cfg \<longleftrightarrow> 64 \<le> unat (ArgonMemory cfg * ArgonBlockSize) \<and> 64 dvd unat (ArgonMemory cfg * ArgonBlockSize)"

lemma configurations_lines: "cfg \<in> set rx_configurations \<Longrightarrow> lines_ok (Apply_masks cfg)"
  unfolding rx_configurations_def list.set
  by (elim insertE emptyE) (simp_all add: lines_ok_def Apply_masks_def configuration_defs ArgonBlockSize_def)

lemma getMixBlock_less:
  assumes "lines_ok cfg"
  shows "getMixBlock cfg v + 64 \<le> unat (ArgonMemory cfg * ArgonBlockSize)"
proof -
  let ?n = "ArgonMemory cfg * ArgonBlockSize"
  obtain k where k: "unat ?n = 64 * k" "0 < k" using assms by (auto simp: lines_ok_def)
  have small: "unat ?n < 2 ^ 32" using unsigned_less [of ?n, where ?'a = nat] by simp
  have "take_bit 64 (64 * k) = 64 * k"
    using small k by (intro take_bit_nat_eq_self) simp
  then have "unat (ucast ?n div of_nat CacheLineSize :: u64) = k"
    using k by (simp add: unat_div CacheLineSize_def RANDOMX_DATASET_ITEM_SIZE_def unsigned_ucast_eq)
  then have m: "unat (ucast ?n div of_nat CacheLineSize - 1 :: u64) = k - 1"
    using k by (simp add: unat_sub word_le_nat_alt)
  then have "unat (ucast (ucast ?n div of_nat CacheLineSize - 1 :: u64) :: u32) = k - 1"
    using small k take_bit_nat_eq_self [of "k - 1" 32] by (simp add: unsigned_ucast_eq)
  then have "unat (ucast (ucast (ucast ?n div of_nat CacheLineSize - 1 :: u64) :: u32) :: u64) = k - 1"
    by (simp add: unsigned_ucast_eq unsigned_take_bit_eq)
  then have "unat (v AND ucast (ucast (ucast ?n div of_nat CacheLineSize - 1 :: u64) :: u32)) \<le> k - 1"
    using and_le_mask [of v] by metis
  then show ?thesis
    using k by (simp add: getMixBlock_def Let_def CacheLineSize_def RANDOMX_DATASET_ITEM_SIZE_def)
qed

lemma length_words64 [simp]: "length (words64 p) = 8"
  by (simp add: words64_def RegistersCount_def)

lemma item_loop_total:
  assumes "lines_ok cfg" and "cache_ok cfg cache" and "length (fst st) = 8"
  shows "n \<le> CacheAccesses cfg \<Longrightarrow> \<exists>st'. item_loop cfg cache n st = Some st' \<and> length (fst st') = 8"
proof (induction n)
  case (Suc n)
  then obtain rl v where st: "item_loop cfg cache n st = Some (rl, v)" "length rl = 8" by fastforce
  have "program_ok (c_programs cache ! n)" using assms(2) Suc.prems by (simp add: cache_ok_def)
  from program_ok_runs [OF this st(2)] obtain rl' where "executeSuperscalar (c_programs cache ! n) rl = Some rl'" "length rl' = 8"
    by blast
  with st(1) getMixBlock_less [OF assms(1), of v] assms(2) show ?case
    by (simp add: item_step_def Let_def cache_ok_def)
qed (simp add: assms)

lemma initDatasetItem_total:
  assumes "lines_ok cfg" and "cache_ok cfg cache"
  shows "\<exists>rl. initDatasetItem cfg cache k = Some rl \<and> length rl = 8"
  using item_loop_total [OF assms, of "(item_start k, k)" "CacheAccesses cfg"]
  by (fastforce simp: initDatasetItem_def item_start_def Let_def)

section \<open>Items in a store\<close>

text \<open>The interface: cells that a write fills with a content of their own.\<close>

locale item_store =
  fixes inv :: "'s \<Rightarrow> bool" and get :: "'s \<Rightarrow> nat \<Rightarrow> 'v" and put :: "nat \<Rightarrow> 's \<Rightarrow> 's" and item :: "nat \<Rightarrow> 'v" and N :: nat
  assumes inv_put: "inv s \<Longrightarrow> k < N \<Longrightarrow> inv (put k s)"
    and get_put: "inv s \<Longrightarrow> k < N \<Longrightarrow> j < N \<Longrightarrow> get (put k s) j = (if j = k then item k else get s j)"
    and ext: "inv s \<Longrightarrow> inv t \<Longrightarrow> (\<And>j. j < N \<Longrightarrow> get s j = get t j) \<Longrightarrow> s = t"

context item_store begin

lemma inv_fold: "inv s \<Longrightarrow> set xs \<subseteq> {..<N} \<Longrightarrow> inv (fold put xs s)"
  by (induction xs arbitrary: s) (auto intro: inv_put)

lemma get_fold:
  "inv s \<Longrightarrow> set xs \<subseteq> {..<N} \<Longrightarrow> j < N \<Longrightarrow> get (fold put xs s) j = (if j \<in> set xs then item j else get s j)"
  by (induction xs arbitrary: s) (auto simp: get_put inv_put)

text \<open>Writes that reach every cell give one store, in any order and from any start.\<close>

lemma fold_any_order:
  assumes "inv s" and "inv t" and "set xs = {..<N}" and "set ys = {..<N}"
  shows "fold put xs s = fold put ys t"
  using assms by (intro ext) (simp_all add: inv_fold get_fold)

end

definition item_bytes :: "RandomX_Configuration \<Rightarrow> randomx_cache \<Rightarrow> nat \<Rightarrow> bytes" where
  "item_bytes cfg cache k =
    (case initDatasetItem cfg cache (of_nat k) of Some rl \<Rightarrow> concat (map store64 rl) | None \<Rightarrow> replicate 64 0)"

lemma length_ss_exec: "ss_exec instr r = Some r' \<Longrightarrow> length r' = length r"
  by (auto simp: ss_exec_def Let_def split: if_splits ss_type.splits sum.splits)

lemma length_ss_run: "ss_run is r = Some r' \<Longrightarrow> length r' = length r"
  by (induction "is" arbitrary: r) (auto simp: bind_eq_Some_conv length_ss_exec)

lemma length_item_loop: "item_loop cfg cache n st = Some st' \<Longrightarrow> length (fst st) = 8 \<Longrightarrow> length (fst st') = 8"
  by (induction n arbitrary: st')
    (auto simp: bind_eq_Some_conv item_step_def Let_def executeSuperscalar_def length_ss_run split: if_splits prod.splits)

lemma length_initDatasetItem: "initDatasetItem cfg cache k = Some rl \<Longrightarrow> length rl = 8"
  by (auto simp: initDatasetItem_def bind_eq_Some_conv item_start_def Let_def dest: length_item_loop)

lemma length_item_bytes [simp]: "length (item_bytes cfg cache k) = 64"
  by (auto simp: item_bytes_def length_initDatasetItem length_concat_const [where k = 8] split: option.splits)

lemma words64_store: "length rl = 8 \<Longrightarrow> words64 (concat (map store64 rl)) = rl"
  by (rule nth_equalityI) (simp_all add: words64_def RegistersCount_def le_load64.sub_enc_vect le_load64.dec_enc)

lemma sub_blit_item:
  assumes "length mem = 64 * N" and "k < N" and "j < N" and "length b = 64"
  shows "sub (64 * j) 64 (blit mem (64 * k) b) = (if j = k then b else sub (64 * j) 64 mem)"
proof (rule nth_equalityI)
  show "length (sub (64 * j) 64 (blit mem (64 * k) b)) = length (if j = k then b else sub (64 * j) 64 mem)"
    using assms by simp
next
  fix i assume "i < length (sub (64 * j) 64 (blit mem (64 * k) b))"
  then have i: "i < 64" using assms by simp
  have cell: "64 * k \<le> 64 * j + i \<and> 64 * j + i < 64 * k + 64 \<longleftrightarrow> j = k" using i by auto
  show "sub (64 * j) 64 (blit mem (64 * k) b) ! i = (if j = k then b else sub (64 * j) 64 mem) ! i"
    using assms i cell by (simp add: sub_def nth_blit)
qed

lemma cells_ext:
  assumes "length s = 64 * N" and "length t = 64 * N" and "\<And>j. j < N \<Longrightarrow> sub (64 * j) 64 s = sub (64 * j) 64 t"
  shows "s = (t :: bytes)"
proof (rule nth_equalityI)
  fix i assume i: "i < length s"
  then have j: "i div 64 < N" using assms(1) by auto
  have "sub (64 * (i div 64)) 64 u ! (i mod 64) = u ! i" if "length u = 64 * N" for u :: bytes
    using that j by (simp add: sub_def)
  from this [OF assms(1)] this [OF assms(2)] assms(3) [OF j] show "s ! i = t ! i" by simp
qed (simp add: assms)

interpretation dataset: item_store "\<lambda>mem. length mem = 64 * N" "\<lambda>mem k. sub (64 * k) 64 mem"
    "\<lambda>k mem. blit mem (64 * k) (item_bytes cfg cache k)" "item_bytes cfg cache" N
  for cfg cache N
  by unfold_locales (auto simp: sub_blit_item intro: cells_ext)

section \<open>Initialisation\<close>

text \<open>The single steps of a sequence of item writes.\<close>

primrec write_items :: "RandomX_Configuration \<Rightarrow> randomx_cache \<Rightarrow> nat list \<Rightarrow> bytes \<Rightarrow> bytes option" where
  "write_items cfg cache [] mem = Some mem"
| "write_items cfg cache (k # ks) mem =
    do { mem \<leftarrow> write_item cfg cache k (k * CacheLineSize) mem; write_items cfg cache ks mem }"

abbreviation put_item :: "RandomX_Configuration \<Rightarrow> randomx_cache \<Rightarrow> nat \<Rightarrow> bytes \<Rightarrow> bytes" where
  "put_item cfg cache k mem \<equiv> blit mem (64 * k) (item_bytes cfg cache k)"

lemma line_size: "CacheLineSize = 64"
  by (simp add: CacheLineSize_def RANDOMX_DATASET_ITEM_SIZE_def)

lemma write_item_put:
  assumes "lines_ok cfg" and "cache_ok cfg cache" and "length mem = 64 * N" and "k < N"
  shows "write_item cfg cache k (k * CacheLineSize) mem = Some (put_item cfg cache k mem)"
proof -
  have "k * 64 + 64 \<le> length mem" using assms(3,4) by simp
  with initDatasetItem_total [OF assms(1,2), of "of_nat k"] show ?thesis
    by (auto simp: write_item_def item_bytes_def line_size mult.commute)
qed

lemma write_items_fold:
  assumes "lines_ok cfg" and "cache_ok cfg cache"
  shows "length mem = 64 * N \<Longrightarrow> set ks \<subseteq> {..<N} \<Longrightarrow> write_items cfg cache ks mem = Some (fold (put_item cfg cache) ks mem)"
proof (induction ks arbitrary: mem)
  case (Cons k ks)
  then show ?case
    using write_item_put [OF assms, of mem N k] Cons.IH [OF dataset.inv_put [of mem N k]] by simp
qed simp

lemma initDataset_items: "initDataset cfg cache (k * CacheLineSize) k n mem = write_items cfg cache [k..<n] mem"
proof (induction "n - k" arbitrary: k mem)
  case 0
  then show ?case by (simp add: initDataset.simps)
next
  case (Suc m)
  then have "k < n" "m = n - (k + 1)" by simp_all
  with Suc.hyps(1) [of "k + 1"]
  have "initDataset cfg cache (CacheLineSize + CacheLineSize * k) (Suc k) n = write_items cfg cache [Suc k..<n]"
    by (intro ext) (simp add: algebra_simps)
  with \<open>k < n\<close> show ?case
    by (simp add: initDataset.simps [of _ _ _ k] upt_conv_Cons algebra_simps)
qed

lemma init_dataset_items:
  assumes "s < DatasetItemCount cfg" and "s + n \<le> DatasetItemCount cfg"
  shows "randomx_init_dataset cfg cache s n mem = write_items cfg cache [s..<s + n] mem"
  using assms by (simp add: randomx_init_dataset_def initDataset_items)

lemma configurations_items:
  assumes "cfg \<in> set rx_configurations"
  shows "unat (DatasetBaseSize (Apply_masks cfg)) + DatasetExtraSize = 64 * DatasetItemCount (Apply_masks cfg)"
    and "DatasetItemCount (Apply_masks cfg) \<le> 2 ^ 32"
    and "0 < DatasetItemCount (Apply_masks cfg)"
  using assms unfolding rx_configurations_def list.set
  by (elim insertE emptyE; simp add: DatasetItemCount_def Apply_masks_def configuration_defs DatasetExtraSize_def
      RANDOMX_DATASET_ITEM_SIZE_def)+

text \<open>The items of a list of ranges.\<close>

definition range_items :: "(nat \<times> nat) list \<Rightarrow> nat list" where
  "range_items rs = concat (map (\<lambda>(s, n). [s..<s + n]) rs)"

lemma wrapper_items:
  assumes "5 \<le> n \<or> \<not> hasAVX2"
  shows "set (range_items (init_dataset_wrapper hasAVX2 s n)) = {s..<s + n}"
proof (cases "hasAVX2 \<and> n mod 5 \<noteq> 0")
  case True
  have "n mod 5 < 5" by simp
  with True assms show ?thesis
    by (auto simp: init_dataset_wrapper_def range_items_def)
next
  case False
  then show ?thesis by (auto simp: init_dataset_wrapper_def range_items_def)
qed

lemma chunk_lower: "0 < t \<Longrightarrow> n * t \<le> N \<Longrightarrow> n \<le> N * (i + 1) div t - N * i div (t :: nat)"
proof -
  assume "0 < t" "n * t \<le> N"
  then have "N * i div t + n = (N * i + n * t) div t" by simp
  also have "\<dots> \<le> N * (i + 1) div t" using \<open>n * t \<le> N\<close> by (intro div_le_mono) simp
  finally show ?thesis by simp
qed

lemma chunks_cover:
  fixes f :: "nat \<Rightarrow> nat"
  assumes "\<And>i. f i \<le> f (Suc i)"
  shows "(\<Union>i<t. {f i..<f (Suc i)}) = {f 0..<f t}"
proof (induction t)
  case (Suc t)
  have "f 0 \<le> f t" using assms by (rule lift_Suc_mono_le) simp
  with Suc assms [of t] show ?case by (simp add: lessThan_Suc ivl_disj_un_two(3) Un_commute)
qed simp

lemma threads_items:
  assumes "0 < t" and "5 * t \<le> N \<or> \<not> hasAVX2"
  shows "set (concat (map range_items (dataset_threads hasAVX2 N t))) = {..<N}"
proof (cases "1 < t")
  case True
  let ?a = "\<lambda>i. N * i div t"
  have mono: "?a i \<le> ?a (Suc i)" for i by (intro div_le_mono) simp
  have "set (range_items (init_dataset_wrapper hasAVX2 (?a i) (?a (Suc i) - ?a i))) = {?a i..<?a (Suc i)}" for i
    using wrapper_items [of "?a (Suc i) - ?a i" hasAVX2 "?a i"] chunk_lower [OF assms(1), of 5 N i] assms(2) mono [of i] by auto
  then have "set (concat (map range_items (dataset_threads hasAVX2 N t))) = (\<Union>i<t. {?a i..<?a (Suc i)})"
    using True by (simp add: dataset_threads_def Let_def atLeast0LessThan)
  also have "\<dots> = {..<N}" using chunks_cover [of ?a, OF mono] assms(1) by (simp add: atLeast0LessThan)
  finally show ?thesis .
next
  case False
  then have "t = 1" using assms(1) by simp
  with assms wrapper_items [of N hasAVX2 0] show ?thesis
    by (simp add: dataset_threads_def atLeast0LessThan)
qed

section \<open>Light and full mode\<close>

lemma full_light_line:
  assumes "lines_ok cfg" and "cache_ok cfg cache" and "length mem = 64 * N" and "N \<le> 2 ^ 32"
    and "\<And>k. k < N \<Longrightarrow> sub (64 * k) 64 mem = item_bytes cfg cache k"
    and "64 dvd unat a" and "unat a + 64 \<le> 64 * N"
  shows "full_line mem a = light_line cfg cache a"
proof -
  obtain k where k: "unat a = 64 * k" using assms(6) by (auto simp: dvd_def)
  then have kN: "k < N" using assms(7) by simp
  have "unat (a div of_nat CacheLineSize) = k"
    using k by (simp add: unat_div line_size)
  moreover have "take_bit 32 k = k" using kN assms(4) by (intro take_bit_nat_eq_self) simp
  ultimately have "unat (ucast (ucast (a div of_nat CacheLineSize) :: u32) :: u64) = k"
    by (simp add: unsigned_ucast_eq unsigned_take_bit_eq)
  moreover have "x = of_nat (unat x)" for x :: u64 by simp
  ultimately have item: "(ucast (ucast (a div of_nat CacheLineSize) :: u32) :: u64) = of_nat k"
    by metis
  obtain rl where rl: "initDatasetItem cfg cache (of_nat k) = Some rl" "length rl = 8"
    using initDatasetItem_total [OF assms(1,2)] by blast
  then have "words64 (sub (64 * k) 64 mem) = rl"
    using assms(5) [OF kN] words64_store [OF rl(2)] by (simp add: item_bytes_def)
  with rl assms(3,7) k item show ?thesis
    by (simp add: full_line_def light_line_def Let_def)
qed

text \<open>A machine whose dataset knows more lines computes the same.\<close>

definition more_lines :: "rx_env \<Rightarrow> rx_env \<Rightarrow> bool" where
  "more_lines E E' \<longleftrightarrow> (\<exists>d. E' = E\<lparr>e_dataset := d\<rparr> \<and> (\<forall>a line. e_dataset E a = Some line \<longrightarrow> d a = Some line))"

lemma execute_turn_more:
  "more_lines E E' \<Longrightarrow> execute_turn E config bc offset st = Some st' \<Longrightarrow> execute_turn E' config bc offset st = Some st'"
  by (fastforce simp: more_lines_def execute_turn_def Let_def bind_eq_Some_conv datasetRead_def split: prod.splits)

lemma execute_loop_more:
  "more_lines E E' \<Longrightarrow> execute_loop E config bc offset n st = Some st' \<Longrightarrow> execute_loop E' config bc offset n st = Some st'"
  by (induction n arbitrary: st) (auto simp: bind_eq_Some_conv dest: execute_turn_more)

lemma more_cfg: "more_lines E E' \<Longrightarrow> e_cfg E' = e_cfg E"
  by (auto simp: more_lines_def)

lemma run_vm_more:
  assumes "more_lines E E'" and "run_vm E seed vm = Some vm'"
  shows "run_vm E' seed vm = Some vm'"
proof -
  have "generateProgram E' seed vm = generateProgram E seed vm"
    using assms(1) by (auto simp: more_lines_def generateProgram_def)
  moreover have "execute_vm E' u = Some u'" if "execute_vm E u = Some u'" for u u'
    using that execute_loop_more [OF assms(1)] more_cfg [OF assms(1)]
    by (fastforce simp: execute_vm_def Let_def bind_eq_Some_conv)
  ultimately show ?thesis
    using assms(2) more_cfg [OF assms(1)] by (simp add: run_vm_def)
qed

lemma chain_loop_more:
  "more_lines E E' \<Longrightarrow> chain_loop E n seed vm = Some r \<Longrightarrow> chain_loop E' n seed vm = Some r"
  by (induction n arbitrary: seed vm) (auto simp: bind_eq_Some_conv dest: run_vm_more)

lemma calculate_hash_more:
  assumes "more_lines E E'" and "randomx_calculate_hash E xla inp vm = Some r"
  shows "randomx_calculate_hash E' xla inp vm = Some r"
proof -
  have "input_hash E' xla inp = input_hash E xla inp" "initScratchpad E' s v = initScratchpad E s v"
    "getFinalResult E' v = getFinalResult E v" "e_cfg E' = e_cfg E" for s v
    using assms(1) by (auto simp: more_lines_def input_hash_def rx_yespower_k12_def initScratchpad_def getFinalResult_def Let_def
        split: prod.splits)
  then show ?thesis
    using assms(2) chain_loop_more [OF assms(1)] run_vm_more [OF assms(1)]
    by (fastforce simp: randomx_calculate_hash_def Let_def bind_eq_Some_conv split: prod.splits)
qed

definition full_env :: "rx_env \<Rightarrow> bytes \<Rightarrow> rx_env" where
  "full_env E dataset = E\<lparr>e_dataset := full_line dataset\<rparr>"

definition light_env :: "rx_env \<Rightarrow> randomx_cache \<Rightarrow> rx_env" where
  "light_env E cache = E\<lparr>e_dataset := light_line (e_cfg E) cache\<rparr>"

lemma light_full_equal:
  assumes cfg: "\<exists>cfg \<in> set rx_configurations. e_cfg E = Apply_masks cfg" and cache: "cache_ok (e_cfg E) cache"
    and mem: "length mem = 64 * DatasetItemCount (e_cfg E)"
      "\<And>k. k < DatasetItemCount (e_cfg E) \<Longrightarrow> sub (64 * k) 64 mem = item_bytes (e_cfg E) cache k"
    and vm: "vm_ok E vm"
  shows "\<exists>r. randomx_calculate_hash (full_env E mem) xla inp vm = Some r \<and>
    randomx_calculate_hash (light_env E cache) xla inp vm = Some r"
proof -
  let ?N = "DatasetItemCount (e_cfg E)"
  define d where "d a = (if 64 dvd unat a \<and> unat a + 64 \<le> 64 * ?N then light_line (e_cfg E) cache a else None)" for a
  let ?E = "E\<lparr>e_dataset := d\<rparr>"
  have lines: "lines_ok (e_cfg E)" using cfg configurations_lines by auto
  have size: "unat (DatasetBaseSize (e_cfg E)) + DatasetExtraSize = 64 * ?N" "?N \<le> 2 ^ 32"
    using cfg configurations_items by auto
  have "env_ok ?E"
    using cfg size initDatasetItem_total [OF lines cache] by (simp add: env_ok_def d_def light_line_def Let_def)
  moreover have "vm_ok ?E vm" using vm by (simp add: vm_ok_def)
  ultimately obtain r where r: "randomx_calculate_hash ?E xla inp vm = Some r"
    using calculate_hash_ok by blast
  have "more_lines ?E (light_env E cache)"
    by (auto simp: more_lines_def light_env_def d_def split: if_splits)
  moreover have "more_lines ?E (full_env E mem)"
    using full_light_line [OF lines cache mem(1) size(2) mem(2)]
    by (auto simp: more_lines_def full_env_def d_def split: if_splits)
  ultimately show ?thesis using r calculate_hash_more by blast
qed

section \<open>The cache\<close>

lemma generate_programs_ok:
  assumes "byte_source B"
  shows "generate_programs B n ps g = Some (ps', g') \<Longrightarrow> gen_ok g \<Longrightarrow> n \<le> length ps \<Longrightarrow>
    \<forall>p \<in> set ps. length (sp_buffer p) = SuperscalarMaxSize \<Longrightarrow>
    gen_ok g' \<and> length ps' = length ps \<and> (\<forall>i < n. program_ok (ps' ! i)) \<and> (\<forall>p \<in> set ps'. length (sp_buffer p) = SuperscalarMaxSize)"
proof (induction n arbitrary: ps' g')
  case (Suc n)
  then obtain qs h p where q: "generate_programs B n ps g = Some (qs, h)" "generateSuperscalar B (qs ! n) h = Some (p, g')"
    "ps' = qs[n := p]"
    by (auto simp: bind_eq_Some_conv)
  note IH = Suc.IH [OF q(1) Suc.prems(2)]
  then have inv: "gen_ok h" "length qs = length ps" "\<forall>i < n. program_ok (qs ! i)"
    "\<forall>p \<in> set qs. length (sp_buffer p) = SuperscalarMaxSize"
    using Suc.prems(3,4) by auto
  then have p: "program_ok p" "gen_ok g'"
    using byte_source.program_ok_generated [OF assms q(2) inv(1)] Suc.prems(3) by auto
  then have "length (sp_buffer p) = SuperscalarMaxSize" by (simp add: program_ok_def)
  then have "\<forall>p \<in> set ps'. length (sp_buffer p) = SuperscalarMaxSize"
    using inv(4) by (auto simp: q(3) dest!: set_update_subset_insert [THEN subsetD])
  with inv p Suc.prems(3) show ?case by (simp add: q(3) nth_list_update less_Suc_eq)
qed simp

text \<open>What the code relies on of Argon2: it fills the first bytes of the memory it is given.\<close>

definition argon2_fills :: "argon2 \<Rightarrow> bool" where
  "argon2_fills A \<longleftrightarrow> (\<forall>context n memory. n \<le> length memory \<longrightarrow> length (A context n memory) = length memory)"

definition cache_buffers :: "RandomX_Configuration \<Rightarrow> randomx_cache \<Rightarrow> bool" where
  "cache_buffers cfg cache \<longleftrightarrow> unat (ArgonMemory cfg * ArgonBlockSize) \<le> length (c_memory cache) \<and>
     length (c_programs cache) = RANDOMX_CACHE_MAX_ACCESSES \<and> CacheAccesses cfg \<le> RANDOMX_CACHE_MAX_ACCESSES \<and>
     (\<forall>p \<in> set (c_programs cache). length (sp_buffer p) = SuperscalarMaxSize)"

lemma initCache_ok:
  assumes "byte_source B" and "argon2_fills A" and "cache_buffers cfg cache" and "initCache B A cfg key cache = Some cache'"
  shows "cache_ok cfg cache' \<and> cache_buffers cfg cache'"
proof -
  obtain ps g where ps: "generate_programs B (CacheAccesses cfg) (c_programs cache) (new_Blake2Generator key 0) = Some (ps, g)"
    and cache': "c_programs cache' = ps" "length (c_memory cache') = length (c_memory cache)"
    using assms(2,3,4) by (auto simp: initCache_def Let_def bind_eq_Some_conv argon2_fills_def cache_buffers_def ArgonBlockSize_def)
  with generate_programs_ok [OF assms(1) ps new_Blake2Generator_ok] assms(3) show ?thesis
    by (simp add: cache_ok_def cache_buffers_def)
qed

lemma generate_programs_ends:
  assumes "byte_source B" and "draws_end B" and "gen_ok g"
  shows "n \<le> length ps \<Longrightarrow> \<forall>p \<in> set ps. length (sp_buffer p) = SuperscalarMaxSize \<Longrightarrow>
    \<exists>ps' g'. generate_programs B n ps g = Some (ps', g')"
proof (induction n)
  case (Suc n)
  then obtain qs h where q: "generate_programs B n ps g = Some (qs, h)" by fastforce
  with generate_programs_ok [OF assms(1) q assms(3)] Suc.prems
  have h: "gen_ok h" "length (sp_buffer (qs ! n)) = SuperscalarMaxSize" by auto
  then show ?case
    using byte_source.generator_ends [OF assms(1,2) h] q by auto
qed simp

lemma initCache_ends:
  assumes "byte_source B" and "draws_end B" and "cache_buffers cfg cache"
  shows "\<exists>cache'. initCache B A cfg key cache = Some cache'"
  using generate_programs_ends [OF assms(1,2) new_Blake2Generator_ok, of "CacheAccesses cfg" "c_programs cache" key 0] assms(3)
  by (auto simp: initCache_def Let_def cache_buffers_def)

section \<open>Properties\<close>

text \<open>C14: What the initialisation of a cache gives, for any refill hash with 64 bytes of output, the BLAKE2b of the code
  included: if it returns, every item of the dataset can be computed from the cache, as eight words, with every mix
  block inside its memory. It returns unless the redrawing of an immediate never ends, that is, unless there is a
  generator state after which every byte is a multiple of 64 or every word zero or a power of two; that BLAKE2b has no
  such state is not proved. Every other loop of the generation ends.\<close>

theorem initCache_items:
  assumes "cfg \<in> set rx_configurations" and "byte_source B" and "argon2_fills A"
    and "cache_buffers (Apply_masks cfg) cache"
  shows "case initCache B A (Apply_masks cfg) key cache of
      Some cache' \<Rightarrow>
        (\<forall>itemNumber. \<exists>rl. initDatasetItem (Apply_masks cfg) cache' itemNumber = Some rl \<and> length rl = 8) \<and>
        (\<forall>v. getMixBlock (Apply_masks cfg) v + 64 \<le> length (c_memory cache'))
    | None \<Rightarrow> \<exists>g. gen_ok g \<and> (rotation_stuck B g \<or> divisor_stuck B g)"
proof (cases "initCache B A (Apply_masks cfg) key cache")
  case None
  have "\<not> draws_end B" using initCache_ends [OF assms(2) _ assms(4), of A key] None by auto
  with None show ?thesis by (auto simp: draws_end_def)
next
  case (Some cache')
  have "cache_ok (Apply_masks cfg) cache'" using initCache_ok [OF assms(2,3,4) Some] ..
  note ok = configurations_lines [OF assms(1)] this
  show ?thesis
    using Some initDatasetItem_total [OF ok] getMixBlock_less [OF ok(1)] ok(2) unfolding cache_ok_def
    by (auto intro: le_trans)
qed

definition blank_cache :: "RandomX_Configuration \<Rightarrow> randomx_cache" where
  "blank_cache cfg = \<lparr>c_memory = replicate (unat (ArgonMemory cfg * ArgonBlockSize)) 0,
     c_programs = replicate RANDOMX_CACHE_MAX_ACCESSES blank_program\<rparr>"

lemma blank_cache_ok: "CacheAccesses cfg \<le> RANDOMX_CACHE_MAX_ACCESSES \<Longrightarrow> cache_ok cfg (blank_cache cfg) \<and> cache_buffers cfg (blank_cache cfg)"
  by (auto simp: cache_ok_def cache_buffers_def blank_cache_def blank_program_def program_ok_def)

lemma scala_accesses: "CacheAccesses (Apply_masks RandomX_ConfigurationScala) \<le> RANDOMX_CACHE_MAX_ACCESSES"
  by (simp add: Apply_masks_def configuration_defs RANDOMX_CACHE_MAX_ACCESSES_def)

lemma scala_configuration: "RandomX_ConfigurationScala \<in> set rx_configurations"
  by (simp add: rx_configurations_def)

theorem initCache_items_witness:
  "(case initCache (blake2b_run 64) (\<lambda>_ _ memory. memory) (Apply_masks RandomX_ConfigurationScala) [1, 2]
        (blank_cache (Apply_masks RandomX_ConfigurationScala)) of
      Some cache' \<Rightarrow> \<exists>rl. initDatasetItem (Apply_masks RandomX_ConfigurationScala) cache' 7 = Some rl
    | None \<Rightarrow> \<exists>g. rotation_stuck (blake2b_run 64) g \<or> divisor_stuck (blake2b_run 64) g) \<and>
   (\<exists>cache'. initCache sevens (\<lambda>_ _ memory. memory) (Apply_masks RandomX_ConfigurationScala) [1, 2]
        (blank_cache (Apply_masks RandomX_ConfigurationScala)) = Some cache' \<and>
      (\<exists>rl. initDatasetItem (Apply_masks RandomX_ConfigurationScala) cache' 7 = Some rl))"
proof -
  have fills: "argon2_fills (\<lambda>_ _ memory. memory)" by (simp add: argon2_fills_def)
  note buffers = conjunct2 [OF blank_cache_ok [OF scala_accesses]]
  note items = initCache_items [OF scala_configuration _ fills buffers, of _ "[1, 2]"]
  show ?thesis
    using items [OF blake_bytes.byte_source_axioms] items [OF seven_bytes.byte_source_axioms] sevens_end
    by (auto simp: draws_end_def split: option.splits)
qed

text \<open>C13: The dataset does not depend on the schedule: in whatever order the items of the threads' ranges are written,
  the result is the dataset a single call initialises, each of its items being the one computed from the cache. This
  holds for every positive number of threads when the ranges are not rounded, and, when they are rounded to groups of
  five (AVX2), as long as there are at least five items for each thread.\<close>

theorem dataset_any_schedule:
  assumes "cfg \<in> set rx_configurations" and "cache_ok (Apply_masks cfg) cache"
    and "N = DatasetItemCount (Apply_masks cfg)" and "length memory = 64 * N"
    and "0 < numThreads" and "5 * numThreads \<le> N \<or> \<not> hasAVX2"
    and "mset writes = mset (concat (map range_items (dataset_threads hasAVX2 N numThreads)))"
  shows "\<exists>ds. randomx_init_dataset (Apply_masks cfg) cache 0 N memory = Some ds \<and>
    write_items (Apply_masks cfg) cache writes memory = Some ds \<and> length ds = 64 * N \<and>
    (\<forall>k < N. sub (64 * k) 64 ds = item_bytes (Apply_masks cfg) cache k)"
proof -
  have set: "set writes = {..<N}"
    using threads_items [OF assms(5,6)] mset_eq_setD [OF assms(7)] by simp
  have all: "set [0..<N] = {..<N}" and sub: "set [0..<N] \<subseteq> {..<N}" by auto
  note lines = configurations_lines [OF assms(1)]
  let ?ds = "fold (put_item (Apply_masks cfg) cache) [0..<N] memory"
  have "write_items (Apply_masks cfg) cache writes memory = Some ?ds"
    using write_items_fold [OF lines assms(2,4), of writes] dataset.fold_any_order [OF assms(4) assms(4) set all] set by simp
  moreover have "randomx_init_dataset (Apply_masks cfg) cache 0 N memory = Some ?ds"
    using init_dataset_items [of 0 "Apply_masks cfg" N cache memory] configurations_items(3) [OF assms(1)] assms(3)
      write_items_fold [OF lines assms(2,4), of "[0..<N]"] all by simp
  moreover have "length ?ds = 64 * N" by (rule dataset.inv_fold [OF assms(4) sub])
  moreover have "\<forall>k < N. sub (64 * k) 64 ?ds = item_bytes (Apply_masks cfg) cache k"
    using dataset.get_fold [OF assms(4) sub] by auto
  ultimately show ?thesis by blast
qed

theorem dataset_any_schedule_witness:
  "\<exists>ds. write_items (Apply_masks RandomX_ConfigurationScala) (blank_cache (Apply_masks RandomX_ConfigurationScala))
      (rev (concat (map range_items (dataset_threads True (DatasetItemCount (Apply_masks RandomX_ConfigurationScala)) 4))))
      (replicate (64 * DatasetItemCount (Apply_masks RandomX_ConfigurationScala)) 0) = Some ds"
proof -
  have "5 * 4 \<le> DatasetItemCount (Apply_masks RandomX_ConfigurationScala)"
    by (simp add: DatasetItemCount_def Apply_masks_def configuration_defs DatasetExtraSize_def RANDOMX_DATASET_ITEM_SIZE_def)
  with dataset_any_schedule [OF scala_configuration conjunct1 [OF blank_cache_ok [OF scala_accesses]] refl length_replicate,
      of 4 True]
  show ?thesis by (metis mset_rev zero_less_numeral)
qed

text \<open>C12: The light machine, which computes each dataset line from the cache when it is read, and the full machine, which
  reads it from the initialised dataset, return the same hash and end in the same state.\<close>

theorem light_full_same_hash:
  assumes "cfg \<in> set rx_configurations" and "e_cfg E = Apply_masks cfg" and "cache_ok (e_cfg E) cache"
    and "length memory = 64 * DatasetItemCount (e_cfg E)" and "vm_ok E vm"
    and "randomx_init_dataset (e_cfg E) cache 0 (DatasetItemCount (e_cfg E)) memory = Some ds"
  shows "\<exists>r. randomx_calculate_hash (full_env E ds) xla inp vm = Some r \<and>
    randomx_calculate_hash (light_env E cache) xla inp vm = Some r"
proof -
  let ?N = "DatasetItemCount (e_cfg E)"
  note lines = configurations_lines [OF assms(1), folded assms(2)]
  have all: "set [0..<?N] \<subseteq> {..<?N}" by auto
  have "Some ds = Some (fold (put_item (e_cfg E) cache) [0..<?N] memory)"
    using init_dataset_items [of 0 "e_cfg E" ?N cache memory] configurations_items(3) [OF assms(1)] assms(2,6)
      write_items_fold [OF lines assms(3,4) all] by simp
  then have ds: "length ds = 64 * ?N" "\<And>k. k < ?N \<Longrightarrow> sub (64 * k) 64 ds = item_bytes (e_cfg E) cache k"
    using dataset.inv_fold [OF assms(4) all] dataset.get_fold [OF assms(4) all] by auto
  show ?thesis using light_full_equal [OF _ assms(3) ds assms(5)] assms(1,2) by blast
qed

theorem light_full_same_hash_witness:
  "\<exists>ds r. randomx_init_dataset (e_cfg scala_env) (blank_cache (e_cfg scala_env)) 0 (DatasetItemCount (e_cfg scala_env))
      (replicate (64 * DatasetItemCount (e_cfg scala_env)) 0) = Some ds \<and>
    randomx_calculate_hash (full_env scala_env ds) True [5] (new_vm scala_env) = Some r \<and>
    randomx_calculate_hash (light_env scala_env (blank_cache (e_cfg scala_env))) True [5] (new_vm scala_env) = Some r"
proof -
  let ?N = "DatasetItemCount (e_cfg scala_env)" and ?cache = "blank_cache (e_cfg scala_env)"
  have cfg: "e_cfg scala_env = Apply_masks RandomX_ConfigurationScala" by (simp add: scala_env_def)
  have cache: "cache_ok (e_cfg scala_env) ?cache" unfolding cfg using blank_cache_ok [OF scala_accesses] ..
  have lines: "lines_ok (e_cfg scala_env)" unfolding cfg by (rule configurations_lines [OF scala_configuration])
  have pos: "0 < ?N" unfolding cfg by (rule configurations_items(3) [OF scala_configuration])
  have len: "length (replicate (64 * ?N) (0 :: u8)) = 64 * ?N" by simp
  have "set [0..<?N] \<subseteq> {..<?N}" by auto
  from write_items_fold [OF lines cache len this] init_dataset_items [OF pos, of ?N ?cache "replicate (64 * ?N) 0"]
  obtain ds where ds: "randomx_init_dataset (e_cfg scala_env) ?cache 0 ?N (replicate (64 * ?N) 0) = Some ds" by fastforce
  from light_full_same_hash [OF scala_configuration cfg cache len new_vm_ok ds] ds show ?thesis by blast
qed

end
