(* ===== verification/Keccak.thy ===== *)
theory Keccak
  imports Endian
begin

text \<open>
  The Keccak-p[1600] permutation, twice: the reference code behind KangarooTwelve
  (\<open>randomx/panthera/KeccakP-1600-reference.c\<close>), loop by loop, and the unrolled
  \<open>base/crypto/keccak.cpp\<close>. The state is a list of 25 lanes; lane \<open>(x, y)\<close> is at \<open>index x y\<close>.
\<close>

section \<open>The reference permutation\<close>

definition maxNrRounds :: nat where "maxNrRounds = 24"

definition index_xy :: "nat \<Rightarrow> nat \<Rightarrow> nat" where
  "index_xy x y = x mod 5 + 5 * (y mod 5)"

definition KeccakRoundConstants :: "u64 list" where
  "KeccakRoundConstants =
    [0x0000000000000001, 0x0000000000008082, 0x800000000000808a, 0x8000000080008000,
     0x000000000000808b, 0x0000000080000001, 0x8000000080008081, 0x8000000000008009,
     0x000000000000008a, 0x0000000000000088, 0x0000000080008009, 0x000000008000000a,
     0x000000008000808b, 0x800000000000008b, 0x8000000000008089, 0x8000000000008003,
     0x8000000000008002, 0x8000000000000080, 0x000000000000800a, 0x800000008000000a,
     0x8000000080008081, 0x8000000000008080, 0x0000000080000001, 0x8000000080008008]"

definition KeccakRhoOffsets :: "nat list" where
  "KeccakRhoOffsets = [0, 1, 62, 28, 27, 36, 44, 6, 55, 20, 3, 10, 43, 25, 39, 41, 45, 15, 21, 8, 18, 2, 61, 56, 14]"

definition ROL64 :: "u64 \<Rightarrow> nat \<Rightarrow> u64" where
  "ROL64 a offset = (if offset \<noteq> 0 then push_bit offset a XOR drop_bit (64 - offset) a else a)"

text \<open>\<open>for (x = 0; x < 5; x++) for (y = 0; y < 5; y++)\<close>.\<close>

definition for_xy :: "('s \<Rightarrow> nat \<Rightarrow> nat \<Rightarrow> 's) \<Rightarrow> 's \<Rightarrow> 's" where
  "for_xy f s = for_range 0 5 (\<lambda>s x. for_range 0 5 (\<lambda>s y. f s x y) s) s"

definition theta :: "u64 list \<Rightarrow> u64 list" where
  "theta A =
    (let C = map (\<lambda>x. for_range 0 5 (\<lambda>c y. c XOR A ! index_xy x y) 0) [0..<5];
         D = map (\<lambda>x. ROL64 (C ! ((x + 1) mod 5)) 1 XOR C ! ((x + 4) mod 5)) [0..<5]
     in for_xy (\<lambda>A x y. A[index_xy x y := A ! index_xy x y XOR D ! x]) A)"

definition rho :: "u64 list \<Rightarrow> u64 list" where
  "rho A = for_xy (\<lambda>A x y. A[index_xy x y := ROL64 (A ! index_xy x y) (KeccakRhoOffsets ! index_xy x y)]) A"

definition pi_lanes :: "u64 list \<Rightarrow> u64 list" where
  "pi_lanes A = for_xy (\<lambda>B x y. B[index_xy (0 * x + 1 * y) (2 * x + 3 * y) := A ! index_xy x y]) A"

definition chi :: "u64 list \<Rightarrow> u64 list" where
  "chi A = for_range 0 5 (\<lambda>A y.
     let C = map (\<lambda>x. A ! index_xy x y XOR (NOT (A ! index_xy (x + 1) y) AND A ! index_xy (x + 2) y)) [0..<5]
     in for_range 0 5 (\<lambda>A x. A[index_xy x y := C ! x]) A) A"

definition iota :: "u64 list \<Rightarrow> nat \<Rightarrow> u64 list" where
  "iota A indexRound = A[index_xy 0 0 := A ! index_xy 0 0 XOR KeccakRoundConstants ! indexRound]"

definition KeccakP1600Round :: "u64 list \<Rightarrow> nat \<Rightarrow> u64 list" where
  "KeccakP1600Round state indexRound = iota (chi (pi_lanes (rho (theta state)))) indexRound"

definition KeccakP1600OnWords :: "u64 list \<Rightarrow> nat \<Rightarrow> u64 list" where
  "KeccakP1600OnWords state nrRounds = for_range (maxNrRounds - nrRounds) maxNrRounds KeccakP1600Round state"

section \<open>The generated constants\<close>

text \<open>With \<open>KeccakReference\<close> the two tables are computed when the program starts.\<close>

definition LFSR86540 :: "u8 \<Rightarrow> bool \<times> u8" where
  "LFSR86540 lfsr = (lfsr AND 1 \<noteq> 0, if lfsr AND 0x80 \<noteq> 0 then push_bit 1 lfsr XOR 0x71 else push_bit 1 lfsr)"

definition InitializeRoundConstants :: "u64 list" where
  "InitializeRoundConstants = fst (for_range 0 maxNrRounds (\<lambda>(rc, lfsr) i.
     let (c, lfsr) = for_range 0 7 (\<lambda>(c, lfsr) j.
           let bitPosition = 2 ^ j - 1; (result, lfsr) = LFSR86540 lfsr
           in (if result then c XOR push_bit bitPosition 1 else c, lfsr)) (0, lfsr)
     in (rc[i := c], lfsr)) (replicate maxNrRounds 0, 1))"

definition InitializeRhoOffsets :: "nat list" where
  "InitializeRhoOffsets = fst (for_range 0 24 (\<lambda>(offsets, x, y) t.
     let newX = (0 * x + 1 * y) mod 5; newY = (2 * x + 3 * y) mod 5
     in (offsets[index_xy x y := ((t + 1) * (t + 2) div 2) mod 64], newX, newY)) ((replicate 25 0)[index_xy 0 0 := 0], 1, 0))"

section \<open>The unrolled permutation\<close>

definition keccakf_rndc :: "u64 list" where
  "keccakf_rndc =
    [0x0000000000000001, 0x0000000000008082, 0x800000000000808a, 0x8000000080008000,
     0x000000000000808b, 0x0000000080000001, 0x8000000080008081, 0x8000000000008009,
     0x000000000000008a, 0x0000000000000088, 0x0000000080008009, 0x000000008000000a,
     0x000000008000808b, 0x800000000000008b, 0x8000000000008089, 0x8000000000008003,
     0x8000000000008002, 0x8000000000000080, 0x000000000000800a, 0x800000008000000a,
     0x8000000080008081, 0x8000000000008080, 0x0000000080000001, 0x8000000080008008]"

definition ROTL64 :: "u64 \<Rightarrow> nat \<Rightarrow> u64" where
  "ROTL64 x y = push_bit y x OR drop_bit (64 - y) x"

definition kf_theta :: "u64 list \<Rightarrow> u64 list" where
  "kf_theta st =
    (let bc = [st ! 0 XOR st ! 5 XOR st ! 10 XOR st ! 15 XOR st ! 20,
               st ! 1 XOR st ! 6 XOR st ! 11 XOR st ! 16 XOR st ! 21,
               st ! 2 XOR st ! 7 XOR st ! 12 XOR st ! 17 XOR st ! 22,
               st ! 3 XOR st ! 8 XOR st ! 13 XOR st ! 18 XOR st ! 23,
               st ! 4 XOR st ! 9 XOR st ! 14 XOR st ! 19 XOR st ! 24]
     in for_range 0 5 (\<lambda>st i.
          let t = bc ! ((i + 4) mod 5) XOR ROTL64 (bc ! ((i + 1) mod 5)) 1;
              st = st[i := st ! i XOR t];
              st = st[i + 5 := st ! (i + 5) XOR t];
              st = st[i + 10 := st ! (i + 10) XOR t];
              st = st[i + 15 := st ! (i + 15) XOR t]
          in st[i + 20 := st ! (i + 20) XOR t]) st)"

text \<open>The assignments \<open>st[i] = ROTL64(st[j], r)\<close>, in order; the last one reads the saved \<open>st[1]\<close>.\<close>

definition rho_pi_moves :: "(nat \<times> nat \<times> nat) list" where
  "rho_pi_moves = [(1, 6, 44), (6, 9, 20), (9, 22, 61), (22, 14, 39), (14, 20, 18), (20, 2, 62), (2, 12, 43), (12, 13, 25),
     (13, 19, 8), (19, 23, 56), (23, 15, 41), (15, 4, 27), (4, 24, 14), (24, 21, 2), (21, 8, 55), (8, 16, 45), (16, 5, 36),
     (5, 3, 28), (3, 18, 21), (18, 17, 15), (17, 11, 10), (11, 7, 6), (7, 10, 3)]"

definition kf_rho_pi :: "u64 list \<Rightarrow> u64 list" where
  "kf_rho_pi st =
    (let t = st ! 1;
         st = foldl (\<lambda>st (i, j, r). st[i := ROTL64 (st ! j) r]) st rho_pi_moves
     in st[10 := ROTL64 t 1])"

definition kf_chi_row :: "u64 list \<Rightarrow> nat \<Rightarrow> u64 list" where
  "kf_chi_row st j =
    (let bc0 = st ! j; bc1 = st ! (j + 1);
         st = st[j := st ! j XOR (NOT (st ! (j + 1)) AND st ! (j + 2))];
         st = st[j + 1 := st ! (j + 1) XOR (NOT (st ! (j + 2)) AND st ! (j + 3))];
         st = st[j + 2 := st ! (j + 2) XOR (NOT (st ! (j + 3)) AND st ! (j + 4))];
         st = st[j + 3 := st ! (j + 3) XOR (NOT (st ! (j + 4)) AND bc0)]
     in st[j + 4 := st ! (j + 4) XOR (NOT bc0 AND bc1)])"

definition kf_chi_last :: "u64 list \<Rightarrow> nat \<Rightarrow> u64 list" where
  "kf_chi_last st j =
    (let bc0 = st ! j; bc1 = st ! (j + 1); bc2 = st ! (j + 2); bc3 = st ! (j + 3); bc4 = st ! (j + 4);
         st = st[j := st ! j XOR (NOT bc1 AND bc2)];
         st = st[j + 1 := st ! (j + 1) XOR (NOT bc2 AND bc3)];
         st = st[j + 2 := st ! (j + 2) XOR (NOT bc3 AND bc4)];
         st = st[j + 3 := st ! (j + 3) XOR (NOT bc4 AND bc0)]
     in st[j + 4 := st ! (j + 4) XOR (NOT bc0 AND bc1)])"

definition kf_chi :: "u64 list \<Rightarrow> u64 list" where
  "kf_chi st = kf_chi_last (kf_chi_row (kf_chi_row (kf_chi_row (kf_chi_row st 0) 5) 10) 15) 20"

definition kf_round :: "u64 list \<Rightarrow> nat \<Rightarrow> u64 list" where
  "kf_round st round =
    (let st = kf_chi (kf_rho_pi (kf_theta st))
     in st[0 := st ! 0 XOR keccakf_rndc ! round])"

definition keccakf :: "u64 list \<Rightarrow> nat \<Rightarrow> u64 list" where
  "keccakf st rounds = for_range 0 rounds kf_round st"

section \<open>The two permutations agree\<close>

lemma upt_5: "[0..<5] = [0, 1, 2, 3, 4 :: nat]"
  by (simp add: upt_rec)

lemma ROL64_ROTL64: "0 < r \<Longrightarrow> r < 64 \<Longrightarrow> ROL64 a r = ROTL64 a r"
  by (rule bit_word_eqI) (auto simp: ROL64_def ROTL64_def bit_simps dest: bit_imp_le_length)

lemma update_numeral: "(x # xs)[numeral k := v] = x # xs[pred_numeral k := v]"
  by (simp add: numeral_eq_Suc)

lemma list_25:
  assumes "length A = 25"
  obtains a0 a1 a2 a3 a4 a5 a6 a7 a8 a9 a10 a11 a12 a13 a14 a15 a16 a17 a18 a19 a20 a21 a22 a23 a24 where "A = [a0, a1, a2, a3, a4, a5, a6, a7, a8, a9, a10, a11, a12, a13, a14, a15, a16, a17, a18, a19, a20, a21, a22, a23, a24]"
  using assms by (auto simp: numeral_eq_Suc length_Suc_conv)

text \<open>Loops are unrolled one iteration at a time, so that the state stays a list of 25 terms.\<close>

lemmas unroll = for_range_def upt_5 update_numeral index_xy_def Let_def

lemma ROL64_0: "ROL64 a 0 = a"
  by (simp add: ROL64_def)

lemma ROL64_swap: "ROL64 a 1 XOR c = c XOR ROTL64 a 1"
  by (simp add: ROL64_ROTL64 xor.commute)

lemma theta_agree: "length A = 25 \<Longrightarrow> theta A = kf_theta A"
  by (elim list_25) (simp add: theta_def kf_theta_def for_xy_def unroll xor.assoc ROL64_swap [unfolded One_nat_def])

lemma rho_pi_agree: "length A = 25 \<Longrightarrow> pi_lanes (rho A) = kf_rho_pi A"
  by (elim list_25) (simp add: rho_def pi_lanes_def kf_rho_pi_def for_xy_def unroll rho_pi_moves_def KeccakRhoOffsets_def
      ROL64_0 ROL64_ROTL64)

lemma chi_agree: "length A = 25 \<Longrightarrow> chi A = kf_chi A"
  by (elim list_25) (simp add: chi_def kf_chi_def kf_chi_row_def kf_chi_last_def unroll)

lemma length_for_range: "(\<And>i s. length (f s i) = length s) \<Longrightarrow> length (for_range a b f s) = length s"
  by (rule for_range_pres [where P = "\<lambda>t. length t = length s"]) auto

lemma length_kf_round [simp]: "length (kf_round A r) = length A"
proof -
  have "length (kf_rho_pi B) = length B" for B
    by (simp add: kf_rho_pi_def rho_pi_moves_def Let_def)
  moreover have "length (kf_theta B) = length B" for B
    unfolding kf_theta_def Let_def by (rule length_for_range) simp
  moreover have "length (kf_chi B) = length B" for B
    by (simp add: kf_chi_def kf_chi_row_def kf_chi_last_def Let_def)
  ultimately show ?thesis by (simp add: kf_round_def Let_def)
qed

lemma round_agree:
  assumes "length A = 25"
  shows "KeccakP1600Round A r = kf_round A r"
proof -
  have "length (theta A) = 25"
    using assms theta_agree [OF assms] by (simp add: kf_theta_def Let_def length_for_range)
  moreover from rho_pi_agree [OF this] have "length (pi_lanes (rho (theta A))) = 25"
    using calculation by (simp add: kf_rho_pi_def rho_pi_moves_def Let_def)
  ultimately have "chi (pi_lanes (rho (theta A))) = kf_chi (kf_rho_pi (kf_theta A))"
    using theta_agree [OF assms] rho_pi_agree chi_agree by metis
  then show ?thesis
    by (simp add: KeccakP1600Round_def kf_round_def iota_def index_xy_def Let_def KeccakRoundConstants_def keccakf_rndc_def)
qed

lemma length_rounds: "length A = n \<Longrightarrow> length (for_range a b kf_round A) = n"
  by (simp add: length_for_range)

lemma permutations_agree:
  assumes "length A = 25"
  shows "KeccakP1600OnWords A nrRounds = for_range (maxNrRounds - nrRounds) maxNrRounds kf_round A"
proof -
  have "for_range a b KeccakP1600Round A = for_range a b kf_round A \<and> length (for_range a b kf_round A) = 25" for a b
  proof (cases "a \<le> b")
    case True
    then show ?thesis
      using assms by (induction b rule: dec_induct) (simp_all add: for_range_Suc round_agree)
  qed (simp add: assms)
  then show ?thesis by (simp add: KeccakP1600OnWords_def)
qed

lemma length_KeccakP1600OnWords: "length A = 25 \<Longrightarrow> length (KeccakP1600OnWords A n) = 25"
  by (simp add: permutations_agree length_rounds)

text \<open>C36: The unrolled permutation of \<open>keccak.cpp\<close>, with its chain of in-place rotations and its special last row, is
  the reference permutation with all its rounds.\<close>

theorem keccakf_is_reference:
  assumes "length st = 25"
  shows "keccakf st 24 = KeccakP1600OnWords st 24"
  by (simp add: permutations_agree [OF assms] keccakf_def maxNrRounds_def)

theorem keccakf_is_reference_witness:
  "keccakf [0, 1, 2, 3, 4, 5, 6, 7, 8, 9, 10, 11, 12, 13, 14, 15, 16, 17, 18, 19, 20, 21, 22, 23, 24] 24 =
    KeccakP1600OnWords [0, 1, 2, 3, 4, 5, 6, 7, 8, 9, 10, 11, 12, 13, 14, 15, 16, 17, 18, 19, 20, 21, 22, 23, 24] 24"
  by (rule keccakf_is_reference) simp

lemma upt_7: "[0..<7] = [0, 1, 2, 3, 4, 5, 6 :: nat]"
  by (simp add: upt_rec)

lemma upt_24: "[0..<24] = [0, 1, 2, 3, 4, 5, 6, 7, 8, 9, 10, 11, 12, 13, 14, 15, 16, 17, 18, 19, 20, 21, 22, 23 :: nat]"
  by (simp add: upt_rec)

lemma rep_25: "replicate 25 (0::nat) = [0,0,0,0,0, 0,0,0,0,0, 0,0,0,0,0, 0,0,0,0,0, 0,0,0,0,0]"
  by (simp add: numeral_eq_Suc)

lemma rep_24: "replicate 24 (0::u64) = [0,0,0,0,0, 0,0,0,0,0, 0,0,0,0,0, 0,0,0,0,0, 0,0,0,0]"
  by (simp add: numeral_eq_Suc)

text \<open>The tables of the permutation are the ones the definition generates: the round constants are the outputs of
  the linear feedback shift register, the rotation offsets are the triangular numbers along the orbit of lane \<open>(1, 0)\<close>.\<close>

theorem keccak_tables_generated:
  "InitializeRoundConstants = KeccakRoundConstants \<and> InitializeRhoOffsets = KeccakRhoOffsets"
proof
  show "InitializeRhoOffsets = KeccakRhoOffsets"
    unfolding InitializeRhoOffsets_def KeccakRhoOffsets_def rep_25
    by (simp add: for_range_def upt_24 Let_def index_xy_def update_numeral)
  show "InitializeRoundConstants = KeccakRoundConstants"
    unfolding InitializeRoundConstants_def KeccakRoundConstants_def rep_24 maxNrRounds_def
    by (simp add: for_range_def upt_24 upt_7 Let_def update_numeral LFSR86540_def)
qed

end
