(* ===== verification/Sponge.thy ===== *)
theory Sponge
  imports Keccak Streaming "HOL-Library.Monad_Syntax"
begin

text \<open>
  The sponge of the reference code: the state of \<open>KeccakP-1600-reference.c\<close> as 200 bytes and the
  sponge instance of \<open>KeccakSponge.inc\<close>, which is compiled once for the permutation of 24 rounds and
  once for 12 (\<open>KeccakSpongeWidth1600.c\<close>); the permutation is the argument \<open>f\<close>.

  Lengths are cut to 32 bits where the code keeps them in an \<open>unsigned int\<close>. \<open>None\<close> stands for an
  access outside the state, a failed assertion, or a loop that makes no progress.
\<close>

section \<open>The state as bytes\<close>

definition bytes_to_words :: "bytes \<Rightarrow> u64 list" where
  "bytes_to_words state = map (\<lambda>i. load64 (sub (8 * i) 8 state)) [0..<25]"

definition words_to_bytes :: "u64 list \<Rightarrow> bytes" where
  "words_to_bytes ws = concat (map store64 ws)"

definition KeccakP1600_Permute_Nrounds :: "bytes \<Rightarrow> nat \<Rightarrow> bytes" where
  "KeccakP1600_Permute_Nrounds state nrounds = words_to_bytes (KeccakP1600OnWords (bytes_to_words state) nrounds)"

definition KeccakP1600_Permute_12rounds :: "bytes \<Rightarrow> bytes" where
  "KeccakP1600_Permute_12rounds state = words_to_bytes (KeccakP1600OnWords (bytes_to_words state) 12)"

definition KeccakP1600_Permute_24rounds :: "bytes \<Rightarrow> bytes" where
  "KeccakP1600_Permute_24rounds state = words_to_bytes (KeccakP1600OnWords (bytes_to_words state) 24)"

definition KeccakP1600_Initialize :: bytes where
  "KeccakP1600_Initialize = replicate 200 0"

definition KeccakP1600_AddByte :: "bytes \<Rightarrow> u8 \<Rightarrow> u32 \<Rightarrow> bytes option" where
  "KeccakP1600_AddByte state byte offset =
    (if offset < 200 then Some (state[unat offset := state ! unat offset XOR byte]) else None)"

text \<open>The assertion is computed in 32 bits; the accesses are not.\<close>

definition in_state :: "bytes \<Rightarrow> u32 \<Rightarrow> u32 \<Rightarrow> bool" where
  "in_state state offset len \<longleftrightarrow> offset < 200 \<and> offset + len \<le> 200 \<and> unat offset + unat len \<le> length state"

definition xor_bytes :: "bytes \<Rightarrow> bytes \<Rightarrow> nat \<Rightarrow> bytes" where
  "xor_bytes state data offset = for_range 0 (length data) (\<lambda>s i. s[offset + i := s ! (offset + i) XOR data ! i]) state"

definition KeccakP1600_AddBytes :: "bytes \<Rightarrow> bytes \<Rightarrow> u32 \<Rightarrow> u32 \<Rightarrow> bytes option" where
  "KeccakP1600_AddBytes state data offset len =
    (if in_state state offset len then Some (xor_bytes state (take (unat len) data) (unat offset)) else None)"

definition KeccakP1600_OverwriteBytes :: "bytes \<Rightarrow> bytes \<Rightarrow> u32 \<Rightarrow> u32 \<Rightarrow> bytes option" where
  "KeccakP1600_OverwriteBytes state data offset len =
    (if in_state state offset len then Some (blit state (unat offset) (take (unat len) data)) else None)"

definition KeccakP1600_OverwriteWithZeroes :: "bytes \<Rightarrow> u32 \<Rightarrow> bytes option" where
  "KeccakP1600_OverwriteWithZeroes state byteCount =
    (if byteCount \<le> 200 then Some (blit state 0 (replicate (unat byteCount) 0)) else None)"

definition KeccakP1600_ExtractBytes :: "bytes \<Rightarrow> u32 \<Rightarrow> u32 \<Rightarrow> bytes option" where
  "KeccakP1600_ExtractBytes state offset len =
    (if in_state state offset len then Some (sub (unat offset) (unat len) state) else None)"

definition KeccakP1600_ExtractAndAddBytes :: "bytes \<Rightarrow> bytes \<Rightarrow> u32 \<Rightarrow> u32 \<Rightarrow> bytes option" where
  "KeccakP1600_ExtractAndAddBytes state inp offset len =
    (if in_state state offset len
     then Some (map (\<lambda>i. inp ! i XOR state ! (unat offset + i)) [0..<unat len]) else None)"

section \<open>The instance\<close>

record SpongeInstance =
  ki_state :: bytes
  ki_rate :: u32
  ki_byteIOIndex :: u32
  ki_squeezing :: bool

definition rateInBytes :: "SpongeInstance \<Rightarrow> u32" where
  "rateInBytes inst = ki_rate inst div 8"

text \<open>The result code and the instance.\<close>

definition SpongeInitialize :: "u32 \<Rightarrow> u32 \<Rightarrow> SpongeInstance \<Rightarrow> int \<times> SpongeInstance" where
  "SpongeInitialize rate capacity inst =
    (if rate + capacity \<noteq> 1600 then (1, inst)
     else if rate \<le> 0 \<or> rate > 1600 \<or> rate mod 8 \<noteq> 0 then (1, inst)
     else (0, \<lparr>ki_state = KeccakP1600_Initialize, ki_rate = rate, ki_byteIOIndex = 0, ki_squeezing = False\<rparr>))"

text \<open>
  The loop of \<open>SpongeAbsorb\<close> over the data that is left: whole blocks when a block starts, the message
  queue otherwise.
\<close>

definition absorb_blocks :: "(bytes \<Rightarrow> bytes) \<Rightarrow> nat \<Rightarrow> bytes \<Rightarrow> bytes \<Rightarrow> bytes \<times> bytes" where
  "absorb_blocks f r state data = absorb r 0 (\<lambda>s b. f (xor_bytes s b 0)) state data"

definition partial_block :: "u32 \<Rightarrow> u32 \<Rightarrow> nat \<Rightarrow> u32" where
  "partial_block r byteIOIndex n =
    (let partialBlock = of_nat n
     in if partialBlock + byteIOIndex > r then r - byteIOIndex else partialBlock)"

function absorb_loop :: "(bytes \<Rightarrow> bytes) \<Rightarrow> u32 \<Rightarrow> bytes \<times> u32 \<Rightarrow> bytes \<Rightarrow> (bytes \<times> u32) option" where
  "absorb_loop f r (state, byteIOIndex) data =
    (if data = [] then Some (state, byteIOIndex)
     else if r = 0 then None
     else if byteIOIndex = 0 \<and> length data \<ge> unat r then
       let (state, rest) = absorb_blocks f (unat r) state data
       in absorb_loop f r (state, byteIOIndex) rest
     else
       let partialBlock = partial_block r byteIOIndex (length data)
       in if partialBlock = 0 then None
          else case KeccakP1600_AddBytes state data byteIOIndex partialBlock of
            None \<Rightarrow> None
          | Some state \<Rightarrow>
              let byteIOIndex = byteIOIndex + partialBlock
              in absorb_loop f r (if byteIOIndex = r then (f state, 0) else (state, byteIOIndex)) (drop (unat partialBlock) data))"
  by pat_completeness auto
termination
proof (relation "measure (\<lambda>(f, r, s, data). length data)", goal_cases)
  case (2 f r state byteIOIndex data x xa y)
  then have rest: "absorb_blocks f (unat r) state data = (xa, y)" by simp
  from 2 have "length (snd (absorb_blocks f (unat r) state data)) < length data"
    by (simp add: absorb_blocks_def absorb_rest_length unat_gt_0)
      (metis length_greater_0_conv mod_less_divisor not_less order_less_le_trans unat_gt_0)
  then have "length y < length data" by (simp only: rest snd_conv)
  then show ?case by simp
qed (auto simp: unat_gt_0)

declare absorb_loop.simps [simp del]

definition SpongeAbsorb :: "(bytes \<Rightarrow> bytes) \<Rightarrow> SpongeInstance \<Rightarrow> bytes \<Rightarrow> (int \<times> SpongeInstance) option" where
  "SpongeAbsorb f inst data =
    (if ki_squeezing inst then Some (1, inst)
     else map_option (\<lambda>(state, i). (0, inst\<lparr>ki_state := state, ki_byteIOIndex := i\<rparr>))
       (absorb_loop f (rateInBytes inst) (ki_state inst, ki_byteIOIndex inst) data))"

definition SpongeAbsorbLastFewBits :: "(bytes \<Rightarrow> bytes) \<Rightarrow> SpongeInstance \<Rightarrow> u8 \<Rightarrow> (int \<times> SpongeInstance) option" where
  "SpongeAbsorbLastFewBits f inst delimitedData =
    (if delimitedData = 0 then Some (1, inst)
     else if ki_squeezing inst then Some (1, inst)
     else do {
       state \<leftarrow> KeccakP1600_AddByte (ki_state inst) delimitedData (ki_byteIOIndex inst);
       let state = (if delimitedData \<ge> 0x80 \<and> ki_byteIOIndex inst = rateInBytes inst - 1 then f state else state);
       state \<leftarrow> KeccakP1600_AddByte state 0x80 (rateInBytes inst - 1);
       Some (0, inst\<lparr>ki_state := f state, ki_byteIOIndex := 0, ki_squeezing := True\<rparr>)
     })"

text \<open>\<open>for (j = n; j >= r; j -= r)\<close>: the whole blocks squeezed, the state, and the bytes still wanted.\<close>

function squeeze_blocks :: "(bytes \<Rightarrow> bytes) \<Rightarrow> nat \<Rightarrow> bytes \<Rightarrow> nat \<Rightarrow> bytes \<times> bytes \<times> nat" where
  "squeeze_blocks f r state j =
    (if r = 0 \<or> j < r then ([], state, j)
     else let state = f state; (out, s, j) = squeeze_blocks f r state (j - r)
          in (take r state @ out, s, j))"
  by pat_completeness auto
termination
  by (relation "measure (\<lambda>(f, r, state, j). j)") auto

declare squeeze_blocks.simps [simp del]

lemma squeeze_blocks_rest: "snd (snd (squeeze_blocks f r state j)) \<le> j"
proof (induction f r state j rule: squeeze_blocks.induct)
  case (1 f r state j)
  show ?case
  proof (cases "r = 0 \<or> j < r")
    case True
    then show ?thesis by (subst squeeze_blocks.simps) simp
  next
    case False
    with 1 [OF False refl] show ?thesis
      by (subst squeeze_blocks.simps) (cases "squeeze_blocks f r (f state) (j - r)"; simp add: Let_def)
  qed
qed

lemma squeeze_blocks_less:
  assumes "0 < r" and "r \<le> j"
  shows "snd (snd (squeeze_blocks f r state j)) < j"
  using squeeze_blocks_rest [of f r "f state" "j - r"] assms
  by (subst squeeze_blocks.simps) (cases "squeeze_blocks f r (f state) (j - r)"; simp add: Let_def)

function squeeze_loop :: "(bytes \<Rightarrow> bytes) \<Rightarrow> u32 \<Rightarrow> bytes \<times> u32 \<Rightarrow> nat \<Rightarrow> (bytes \<times> bytes \<times> u32) option" where
  "squeeze_loop f r (state, byteIOIndex) n =
    (if n = 0 then Some ([], state, byteIOIndex)
     else if r = 0 then None
     else if byteIOIndex = r \<and> n \<ge> unat r then
       let (out, state, n) = squeeze_blocks f (unat r) state n
       in map_option (\<lambda>(out', s). (out @ out', s)) (squeeze_loop f r (state, byteIOIndex) n)
     else
       let (state, byteIOIndex) = (if byteIOIndex = r then (f state, 0) else (state, byteIOIndex));
           partialBlock = partial_block r byteIOIndex n
       in if partialBlock = 0 then None
          else case KeccakP1600_ExtractBytes state byteIOIndex partialBlock of
            None \<Rightarrow> None
          | Some out \<Rightarrow> map_option (\<lambda>(out', s). (out @ out', s))
              (squeeze_loop f r (state, byteIOIndex + partialBlock) (n - unat partialBlock)))"
  by pat_completeness auto
termination
proof (relation "measure (\<lambda>(f, r, s, n). n)", goal_cases)
  case (2 f r state byteIOIndex n x xa y xb ya)
  then have sq: "squeeze_blocks f (unat r) state n = (xa, xb, ya)" by simp
  have "snd (snd (squeeze_blocks f (unat r) state n)) < n"
    using 2 by (intro squeeze_blocks_less) (auto simp: unat_gt_0)
  then have "ya < n" by (simp only: sq snd_conv)
  then show ?case by simp
qed (auto simp: unat_gt_0)

declare squeeze_loop.simps [simp del]

text \<open>The result code, the output and the instance.\<close>

definition SpongeSqueeze :: "(bytes \<Rightarrow> bytes) \<Rightarrow> SpongeInstance \<Rightarrow> nat \<Rightarrow> (int \<times> bytes \<times> SpongeInstance) option" where
  "SpongeSqueeze f inst dataByteLen = do {
     inst \<leftarrow> (if \<not> ki_squeezing inst then map_option snd (SpongeAbsorbLastFewBits f inst 0x01) else Some inst);
     (out, state, i) \<leftarrow> squeeze_loop f (rateInBytes inst) (ki_state inst, ki_byteIOIndex inst) dataByteLen;
     Some (0, out, inst\<lparr>ki_state := state, ki_byteIOIndex := i\<rparr>)
   }"

text \<open>\<open>Sponge\<close>, all at once.\<close>

text \<open>\<open>while (outputByteLen > rateInBytes)\<close> and what remains; the state is permuted after each block.\<close>

function sponge_output :: "(bytes \<Rightarrow> bytes) \<Rightarrow> nat \<Rightarrow> bytes \<Rightarrow> nat \<Rightarrow> bytes" where
  "sponge_output f r state n =
    (if r = 0 \<or> n \<le> r then take n state else take r state @ sponge_output f r (f state) (n - r))"
  by pat_completeness auto
termination
  by (relation "measure (\<lambda>(f, r, state, n). n)") auto

declare sponge_output.simps [simp del]

definition Sponge :: "(bytes \<Rightarrow> bytes) \<Rightarrow> u32 \<Rightarrow> u32 \<Rightarrow> bytes \<Rightarrow> u8 \<Rightarrow> nat \<Rightarrow> (int \<times> bytes) option" where
  "Sponge f rate capacity inp suffix outputByteLen =
    (let r = rate div 8
     in if rate + capacity \<noteq> 1600 then Some (1, [])
        else if rate \<le> 0 \<or> rate > 1600 \<or> rate mod 8 \<noteq> 0 then Some (1, [])
        else if suffix = 0 then Some (1, [])
        else do {
          let (state, rest) = absorb_blocks f (unat r) KeccakP1600_Initialize inp;
          let partialBlock = of_nat (length rest);
          state \<leftarrow> KeccakP1600_AddBytes state rest 0 partialBlock;
          state \<leftarrow> KeccakP1600_AddByte state suffix partialBlock;
          let state = (if suffix \<ge> 0x80 \<and> partialBlock = r - 1 then f state else state);
          state \<leftarrow> KeccakP1600_AddByte state 0x80 (r - 1);
          Some (0, sponge_output f (unat r) (f state) outputByteLen)
        })"

section \<open>Byte by byte\<close>

text \<open>The interface of the permutation.\<close>

locale permutation =
  fixes f :: "bytes \<Rightarrow> bytes"
  assumes length_perm: "length s = 200 \<Longrightarrow> length (f s) = 200"

text \<open>The sponge takes and gives one byte at a time; the index is the next byte of the block.\<close>

definition absorb_byte :: "(bytes \<Rightarrow> bytes) \<Rightarrow> nat \<Rightarrow> bytes \<times> nat \<Rightarrow> u8 \<Rightarrow> bytes \<times> nat" where
  "absorb_byte f r = (\<lambda>(s, i) b. let s = s[i := s ! i XOR b] in if i + 1 = r then (f s, 0) else (s, i + 1))"

abbreviation absorb_bytes :: "(bytes \<Rightarrow> bytes) \<Rightarrow> nat \<Rightarrow> bytes \<times> nat \<Rightarrow> bytes \<Rightarrow> bytes \<times> nat" where
  "absorb_bytes f r \<equiv> foldl (absorb_byte f r)"

definition squeeze_byte :: "(bytes \<Rightarrow> bytes) \<Rightarrow> nat \<Rightarrow> bytes \<times> nat \<Rightarrow> u8 \<times> bytes \<times> nat" where
  "squeeze_byte f r = (\<lambda>(s, i). let (s, i) = (if i = r then (f s, 0) else (s, i)) in (s ! i, s, i + 1))"

primrec squeeze_bytes :: "(bytes \<Rightarrow> bytes) \<Rightarrow> nat \<Rightarrow> bytes \<times> nat \<Rightarrow> nat \<Rightarrow> bytes \<times> bytes \<times> nat" where
  "squeeze_bytes f r st 0 = ([], st)"
| "squeeze_bytes f r st (Suc n) =
    (let (b, st) = squeeze_byte f r st; (bs, st) = squeeze_bytes f r st n in (b # bs, st))"

lemma length_xor_bytes [simp]: "length (xor_bytes s d i) = length s"
  unfolding xor_bytes_def by (rule length_for_range) simp

lemma xor_bytes_Nil [simp]: "xor_bytes s [] i = s"
  by (simp add: xor_bytes_def)

lemma xor_bytes_snoc: "xor_bytes s (d @ [b]) i = (xor_bytes s d i)[i + length d := xor_bytes s d i ! (i + length d) XOR b]"
proof -
  have "for_range 0 (length d) (\<lambda>s k. s[i + k := s ! (i + k) XOR (d @ [b]) ! k]) s = xor_bytes s d i"
    unfolding xor_bytes_def by (rule for_range_cong) (simp_all add: nth_append)
  then show ?thesis by (simp add: xor_bytes_def for_range_Suc)
qed

lemma absorb_bytes_part:
  "i + length d < r \<Longrightarrow> absorb_bytes f r (s, i) d = (xor_bytes s d i, i + length d)"
  by (induction d rule: rev_induct) (simp_all add: absorb_byte_def xor_bytes_snoc Let_def)

lemma absorb_bytes_fill:
  assumes "d \<noteq> []" and "i + length d = r"
  shows "absorb_bytes f r (s, i) d = (f (xor_bytes s d i), 0)"
proof -
  obtain d' b where d: "d = d' @ [b]" using assms(1) by (metis rev_exhaust)
  with assms(2) absorb_bytes_part [of i d' r f s] show ?thesis
    by (simp add: absorb_byte_def xor_bytes_snoc Let_def)
qed

lemma absorb_blocks_bytes:
  assumes "0 < r"
  shows "absorb_blocks f r s d = (s', rest) \<Longrightarrow> absorb_bytes f r (s, 0) d = absorb_bytes f r (s', 0) rest"
proof (induction "length d" arbitrary: s d rule: less_induct)
  case less
  show ?case
  proof (cases "r \<le> length d")
    case True
    let ?b = "take r d"
    have "absorb_blocks f r (f (xor_bytes s ?b 0)) (drop r d) = (s', rest)"
      using less.prems True assms by (simp add: absorb_blocks_def absorb_step [where xs = d])
    moreover have "absorb_bytes f r (s, 0) ?b = (f (xor_bytes s ?b 0), 0)"
      using True assms by (intro absorb_bytes_fill) auto
    moreover have "absorb_bytes f r (s, 0) d = absorb_bytes f r (absorb_bytes f r (s, 0) ?b) (drop r d)"
      by (metis append_take_drop_id foldl_append)
    ultimately show ?thesis using less.hyps [of "drop r d"] True assms by simp
  next
    case False
    with less.prems show ?thesis by (simp add: absorb_blocks_def)
  qed
qed

lemma squeeze_bytes_add:
  "squeeze_bytes f r st (m + n) =
    (let (bs, st) = squeeze_bytes f r st m; (cs, st) = squeeze_bytes f r st n in (bs @ cs, st))"
  by (induction m arbitrary: st) (simp_all add: Let_def split: prod.splits)

lemma length_squeeze_bytes: "length (fst (squeeze_bytes f r st n)) = n"
  by (induction n arbitrary: st) (simp_all add: Let_def split: prod.splits, metis fst_conv)

lemma squeeze_bytes_part:
  "i + n \<le> r \<Longrightarrow> i + n \<le> length s \<Longrightarrow> squeeze_bytes f r (s, i) n = (sub i n s, s, i + n)"
proof (induction n arbitrary: i)
  case (Suc n)
  then show ?case
    using Suc.IH [of "i + 1"] by (simp add: squeeze_byte_def Let_def sub_def drop_Suc [symmetric] Cons_nth_drop_Suc [symmetric])
qed (simp add: sub_def)

text \<open>At the end of a block the permutation comes first.\<close>

lemma squeeze_bytes_end: "0 < r \<Longrightarrow> 0 < n \<Longrightarrow> squeeze_bytes f r (s, r) n = squeeze_bytes f r (f s, 0) n"
  by (cases n) (simp_all add: squeeze_byte_def)

context permutation begin

lemma absorb_bytes_ok:
  "length s = 200 \<Longrightarrow> i < r \<Longrightarrow> absorb_bytes f r (s, i) d = (s', i') \<Longrightarrow> length s' = 200 \<and> i' < r"
proof (induction d arbitrary: s i)
  case (Cons b d)
  obtain s1 i1 where step: "absorb_byte f r (s, i) b = (s1, i1)" by fastforce
  then have "length s1 = 200" "i1 < r"
    using Cons.prems(1,2) by (auto simp: absorb_byte_def Let_def length_perm split: if_splits)
  with Cons.IH [of s1 i1] Cons.prems(3) step show ?case by simp
qed simp

lemma absorb_blocks_ok:
  "length s = 200 \<Longrightarrow> absorb_blocks f r s d = (s', rest) \<Longrightarrow> length s' = 200"
  using absorb_invariant [where P = "\<lambda>s. length s = 200" and s = s and B = r and k = 0 and f = "\<lambda>s b. f (xor_bytes s b 0)" and xs = d]
  by (auto simp: absorb_blocks_def length_perm)

text \<open>The loop absorbs byte by byte, as long as the 32-bit sums do not wrap.\<close>

lemma partial_block_value:
  assumes "unat i < unat r" and "n + unat r < 2 ^ 32"
  shows "unat (partial_block r i n) = (if unat i + n > unat r then unat r - unat i else n)"
proof -
  have n: "unat (of_nat n :: u32) = n" using assms(2) by (simp add: unat_of_nat)
  have "unat (of_nat n + i :: u32) = n + unat i"
    using assms by (simp add: unat_word_ariths n)
  moreover have "unat (r - i) = unat r - unat i"
    using assms(1) by (simp add: unat_sub word_le_nat_alt)
  ultimately show ?thesis using n by (simp add: partial_block_def Let_def word_less_nat_alt add.commute)
qed

lemma absorb_loop_bytes:
  assumes "unat r \<le> 200"
  shows "length s = 200 \<Longrightarrow> unat i < unat r \<Longrightarrow> length d + unat r < 2 ^ 32 \<Longrightarrow>
    absorb_loop f r (s, i) d = Some (map_prod id of_nat (absorb_bytes f (unat r) (s, unat i) d))"
proof (induction "length d" arbitrary: s i d rule: less_induct)
  case less
  have r0: "r \<noteq> 0" "0 < unat r" using less.prems(2) by (auto simp: unat_gt_0)
  show ?case
  proof (cases "d = [] \<or> i = 0 \<and> length d \<ge> unat r")
    case True
    show ?thesis
    proof (cases "d = []")
      case True
      then show ?thesis by (subst absorb_loop.simps) simp
    next
      case False
      with True have i: "i = 0" "length d \<ge> unat r" by auto
      obtain s' rest where b: "absorb_blocks f (unat r) s d = (s', rest)" by fastforce
      then have rest: "length rest = length d mod unat r"
        using absorb_rest_length [OF r0(2), of "\<lambda>s b. f (xor_bytes s b 0)" s d] by (simp add: absorb_blocks_def)
      then have "length rest < unat r" using r0(2) by simp
      then have "length rest < length d" using i(2) by simp
      moreover have "length s' = 200" by (rule absorb_blocks_ok [OF less.prems(1) b])
      ultimately have "absorb_loop f r (s', 0) rest = Some (map_prod id of_nat (absorb_bytes f (unat r) (s', 0) rest))"
        using less.hyps [of rest s' 0] less.prems(3) r0(2) by simp
      then show ?thesis
        using False i r0(1) b absorb_blocks_bytes [OF r0(2) b] by (subst absorb_loop.simps) simp
    qed
  next
    case False
    let ?k = "if unat i + length d > unat r then unat r - unat i else length d"
    have k: "unat (partial_block r i (length d)) = ?k"
      by (rule partial_block_value [OF less.prems(2,3)])
    have pos: "0 < ?k" "?k \<le> length d" "unat i + ?k \<le> unat r"
      using False less.prems(2) by auto
    have "0 < unat (partial_block r i (length d))" unfolding k by (rule pos(1))
    then have p0: "partial_block r i (length d) \<noteq> 0" by (rule contrapos_pn) simp
    have sum: "unat (i + partial_block r i (length d)) = unat i + ?k"
      using k pos assms by (simp add: unat_word_ariths)
    have "in_state s i (partial_block r i (length d))"
      using sum k pos assms less.prems(1,2) by (simp add: in_state_def word_less_nat_alt word_le_nat_alt)
    then have add: "KeccakP1600_AddBytes s d i (partial_block r i (length d)) = Some (xor_bytes s (take ?k d) (unat i))"
      by (simp add: KeccakP1600_AddBytes_def k)
    have split: "absorb_bytes f (unat r) (s, unat i) d = absorb_bytes f (unat r) (absorb_bytes f (unat r) (s, unat i) (take ?k d)) (drop ?k d)"
      by (metis append_take_drop_id foldl_append)
    have unfold: "absorb_loop f r (s, i) d = absorb_loop f r (if i + partial_block r i (length d) = r
        then (f (xor_bytes s (take ?k d) (unat i)), 0) else (xor_bytes s (take ?k d) (unat i), i + partial_block r i (length d)))
        (drop ?k d)"
    proof -
      have "d \<noteq> []" "\<not> (i = 0 \<and> length d \<ge> unat r)" using False by auto
      then show ?thesis
        by (subst absorb_loop.simps) (simp only: r0(1) p0 add if_False option.case Let_def k simp_thms)
    qed
    have full: "i + partial_block r i (length d) = r \<longleftrightarrow> unat i + ?k = unat r"
      using sum by (metis word_unat_eq_iff)
    have shorter: "length (drop ?k d) < length d" using pos(1,2) False by simp
    show ?thesis
    proof (cases "unat i + ?k = unat r")
      case True
      have "absorb_bytes f (unat r) (s, unat i) (take ?k d) = (f (xor_bytes s (take ?k d) (unat i)), 0)"
        using True pos(1,2) by (intro absorb_bytes_fill) auto
      with True full unfold split show ?thesis
        using less.hyps [OF shorter, of "f (xor_bytes s (take ?k d) (unat i))" 0] less.prems r0(2)
        by (simp add: length_perm)
    next
      case False
      have "absorb_bytes f (unat r) (s, unat i) (take ?k d) = (xor_bytes s (take ?k d) (unat i), unat i + ?k)"
        using False pos by (subst absorb_bytes_part) (auto simp: min_def)
      with False full unfold split show ?thesis
        using less.hyps [OF shorter, of "xor_bytes s (take ?k d) (unat i)" "i + partial_block r i (length d)"] less.prems sum pos(3)
        by simp
    qed
  qed
qed

lemma squeeze_blocks_bytes:
  assumes "0 < r" and "r \<le> 200"
  shows "length s = 200 \<Longrightarrow> squeeze_blocks f r s j = (out, s', j') \<Longrightarrow>
    length s' = 200 \<and> j' < r \<and> j' \<le> j \<and> squeeze_bytes f r (s, r) j = (let (o2, st) = squeeze_bytes f r (s', r) j' in (out @ o2, st))"
proof (induction j arbitrary: s out rule: less_induct)
  case (less j)
  show ?case
  proof (cases "j < r")
    case True
    then have "out = []" "s' = s" "j' = j" using less.prems(2) by (simp_all add: squeeze_blocks.simps [of f r s j])
    with True less.prems(1) show ?thesis by (simp add: Let_def split: prod.splits)
  next
    case False
    obtain o1 where o1: "squeeze_blocks f r (f s) (j - r) = (o1, s', j')" and out: "out = take r (f s) @ o1"
      using less.prems(2) False assms(1)
      by (cases "squeeze_blocks f r (f s) (j - r)") (auto simp: squeeze_blocks.simps [of f r s j] Let_def)
    have fs: "length (f s) = 200" by (rule length_perm [OF less.prems(1)])
    have "squeeze_bytes f r (s, r) r = (take r (f s), f s, r)"
      using squeeze_bytes_end [OF assms(1) assms(1), of f s] squeeze_bytes_part [of 0 r r "f s" f] fs assms(2) by (simp add: sub_def)
    then have "squeeze_bytes f r (s, r) (r + (j - r)) = (let (bs, st) = squeeze_bytes f r (f s, r) (j - r) in (take r (f s) @ bs, st))"
      by (simp add: squeeze_bytes_add Let_def split: prod.splits)
    moreover have "r + (j - r) = j" using False by simp
    moreover note less.IH [OF _ fs o1]
    ultimately show ?thesis using False assms(1) out by (auto simp: Let_def split: prod.splits)
  qed
qed

lemma squeeze_loop_bytes:
  assumes "unat r \<le> 200" and "0 < unat r"
  shows "length s = 200 \<Longrightarrow> unat i \<le> unat r \<Longrightarrow> n + unat r < 2 ^ 32 \<Longrightarrow>
    squeeze_loop f r (s, i) n = Some (map_prod id (map_prod id of_nat) (squeeze_bytes f (unat r) (s, unat i) n)) \<and>
    length (fst (snd (squeeze_bytes f (unat r) (s, unat i) n))) = 200 \<and> snd (snd (squeeze_bytes f (unat r) (s, unat i) n)) \<le> unat r"
proof (induction n arbitrary: s i rule: less_induct)
  case (less n)
  have r0: "r \<noteq> 0" using assms(2) by auto
  show ?case
  proof (cases "n = 0 \<or> i = r \<and> n \<ge> unat r")
    case True
    show ?thesis
    proof (cases "n = 0")
      case True
      with less.prems show ?thesis by (subst squeeze_loop.simps) simp
    next
      case False
      with True have i: "i = r" "n \<ge> unat r" by auto
      obtain out s' n' where b: "squeeze_blocks f (unat r) s n = (out, s', n')" by (metis prod_cases3)
      note ok = squeeze_blocks_bytes [OF assms(2,1) less.prems(1) b]
      then have smaller: "n' < n" using i(2) by simp
      then have "n' + unat r < 2 ^ 32" using less.prems(3) by linarith
      from less.IH [OF smaller conjunct1 [OF ok] order_refl this]
      show ?thesis using False i r0 b ok
        by (subst squeeze_loop.simps) (auto simp: Let_def split: prod.splits)
    qed
  next
    case False
    define s1 where "s1 = (if i = r then f s else s)"
    define i1 where "i1 = (if i = r then 0 else i)"
    have s1: "length s1 = 200" using less.prems(1) by (simp add: s1_def length_perm)
    have i1: "unat i1 < unat r" using less.prems(2) assms(2) by (auto simp: i1_def le_less word_unat_eq_iff)
    let ?k = "if unat i1 + n > unat r then unat r - unat i1 else n"
    have k: "unat (partial_block r i1 n) = ?k"
      by (rule partial_block_value [OF i1 less.prems(3)])
    have pos: "0 < ?k" "?k \<le> n" "unat i1 + ?k \<le> unat r"
      using False i1 by auto
    have "0 < unat (partial_block r i1 n)" unfolding k by (rule pos(1))
    then have p0: "partial_block r i1 n \<noteq> 0" by (rule contrapos_pn) simp
    have sum: "unat (i1 + partial_block r i1 n) = unat i1 + ?k"
      using k pos assms by (simp add: unat_word_ariths)
    have "in_state s1 i1 (partial_block r i1 n)"
      using sum k pos assms i1 s1 by (simp add: in_state_def word_less_nat_alt word_le_nat_alt)
    then have ext: "KeccakP1600_ExtractBytes s1 i1 (partial_block r i1 n) = Some (sub (unat i1) ?k s1)"
      by (simp add: KeccakP1600_ExtractBytes_def k)
    have unfold: "squeeze_loop f r (s, i) n = map_option (\<lambda>(out', t). (sub (unat i1) ?k s1 @ out', t))
        (squeeze_loop f r (s1, i1 + partial_block r i1 n) (n - ?k))"
    proof -
      have "n \<noteq> 0" "\<not> (i = r \<and> n \<ge> unat r)" using False by auto
      moreover have "(if i = r then (f s, 0) else (s, i)) = (s1, i1)" by (simp add: s1_def i1_def)
      ultimately show ?thesis
        by (subst squeeze_loop.simps) (simp only: r0 p0 ext if_False option.case Let_def k simp_thms prod.case)
    qed
    have "squeeze_bytes f (unat r) (s, unat i) n = squeeze_bytes f (unat r) (s1, unat i1) n"
      using squeeze_bytes_end [OF assms(2), of n f s] False by (auto simp: s1_def i1_def)
    also have "\<dots> = squeeze_bytes f (unat r) (s1, unat i1) (?k + (n - ?k))" using pos(2) by simp
    also have "\<dots> = (let (cs, st) = squeeze_bytes f (unat r) (s1, unat i1 + ?k) (n - ?k) in (sub (unat i1) ?k s1 @ cs, st))"
      using squeeze_bytes_part [OF pos(3), of s1 f] pos(3) assms(1) s1 by (simp only: squeeze_bytes_add) (simp add: Let_def)
    finally have bytes: "squeeze_bytes f (unat r) (s, unat i) n =
      (let (cs, st) = squeeze_bytes f (unat r) (s1, unat i1 + ?k) (n - ?k) in (sub (unat i1) ?k s1 @ cs, st))" .
    have "n - ?k < n" using pos(1,2) by linarith
    from less.IH [OF this s1, of "i1 + partial_block r i1 n"] less.prems(3) sum pos(3) unfold bytes show ?thesis
      by (auto simp: Let_def split: prod.splits)
  qed
qed

end

section \<open>The instance and the specification\<close>

definition inst_ok :: "SpongeInstance \<Rightarrow> bool" where
  "inst_ok inst \<longleftrightarrow> length (ki_state inst) = 200 \<and> 0 < unat (rateInBytes inst) \<and> unat (rateInBytes inst) \<le> 200 \<and>
     (if ki_squeezing inst then unat (ki_byteIOIndex inst) \<le> unat (rateInBytes inst)
      else unat (ki_byteIOIndex inst) < unat (rateInBytes inst))"

text \<open>The bytes of the padding: the suffix with the first bit of the padding, and the last bit of the block.\<close>

definition pad_state :: "(bytes \<Rightarrow> bytes) \<Rightarrow> nat \<Rightarrow> bytes \<times> nat \<Rightarrow> u8 \<Rightarrow> bytes" where
  "pad_state f r = (\<lambda>(s, i) suffix.
    let s = s[i := s ! i XOR suffix];
        s = (if suffix \<ge> 0x80 \<and> i = r - 1 then f s else s)
    in f (s[r - 1 := s ! (r - 1) XOR 0x80]))"

definition sponge_spec :: "(bytes \<Rightarrow> bytes) \<Rightarrow> nat \<Rightarrow> bytes \<Rightarrow> u8 \<Rightarrow> nat \<Rightarrow> bytes" where
  "sponge_spec f r m suffix n =
    fst (squeeze_bytes f r (pad_state f r (absorb_bytes f r (replicate 200 0, 0) m) suffix, 0) n)"

text \<open>A message in pieces, an output in pieces.\<close>

primrec absorb_pieces :: "(bytes \<Rightarrow> bytes) \<Rightarrow> SpongeInstance \<Rightarrow> bytes list \<Rightarrow> SpongeInstance option" where
  "absorb_pieces f inst [] = Some inst"
| "absorb_pieces f inst (d # ds) =
    do { (e, inst) \<leftarrow> SpongeAbsorb f inst d; if e = 0 then absorb_pieces f inst ds else None }"

primrec squeeze_pieces :: "(bytes \<Rightarrow> bytes) \<Rightarrow> SpongeInstance \<Rightarrow> nat list \<Rightarrow> bytes option" where
  "squeeze_pieces f inst [] = Some []"
| "squeeze_pieces f inst (n # ns) =
    do { (e, out, inst) \<leftarrow> SpongeSqueeze f inst n; outs \<leftarrow> squeeze_pieces f inst ns;
         if e = 0 then Some (out @ outs) else None }"

definition rate_ok :: "u32 \<Rightarrow> bool" where
  "rate_ok rate \<longleftrightarrow> 0 < rate \<and> rate \<le> 1600 \<and> rate mod 8 = 0"

lemma rate_bytes:
  assumes "rate_ok rate"
  shows "0 < unat (rate div 8)" and "unat (rate div 8) \<le> 200"
proof -
  have "unat rate mod 8 = unat (rate mod 8)" by (simp add: unat_mod)
  also have "\<dots> = 0" using assms unfolding rate_ok_def by (elim conjE) (simp only: unsigned_0)
  finally have r: "0 < unat rate" "unat rate \<le> 1600" "unat rate mod 8 = 0"
    using assms by (simp_all add: rate_ok_def word_less_nat_alt word_le_nat_alt)
  then show "0 < unat (rate div 8)" "unat (rate div 8) \<le> 200" by (auto simp: unat_div)
qed

lemma minus_one_nat: "0 < unat r \<Longrightarrow> unat (r - 1 :: u32) = unat r - 1"
  by (simp add: unat_sub word_le_nat_alt)

context permutation begin

lemma SpongeInitialize_ok:
  "rate_ok rate \<Longrightarrow> rate + capacity = 1600 \<Longrightarrow> SpongeInitialize rate capacity inst =
    (0, \<lparr>ki_state = replicate 200 0, ki_rate = rate, ki_byteIOIndex = 0, ki_squeezing = False\<rparr>) \<and>
    inst_ok \<lparr>ki_state = replicate 200 0, ki_rate = rate, ki_byteIOIndex = 0, ki_squeezing = False\<rparr>"
  using rate_bytes [of rate] by (auto simp: SpongeInitialize_def rate_ok_def KeccakP1600_Initialize_def inst_ok_def rateInBytes_def)

lemma SpongeAbsorb_bytes:
  assumes "inst_ok inst" and "\<not> ki_squeezing inst" and "length d + 200 < 2 ^ 32"
    and "absorb_bytes f (unat (rateInBytes inst)) (ki_state inst, unat (ki_byteIOIndex inst)) d = (s, i)"
  shows "SpongeAbsorb f inst d = Some (0, inst\<lparr>ki_state := s, ki_byteIOIndex := of_nat i\<rparr>) \<and>
    inst_ok (inst\<lparr>ki_state := s, ki_byteIOIndex := of_nat i\<rparr>) \<and> unat (of_nat i :: u32) = i"
proof -
  have inst: "length (ki_state inst) = 200" "unat (rateInBytes inst) \<le> 200" "0 < unat (rateInBytes inst)"
    "unat (ki_byteIOIndex inst) < unat (rateInBytes inst)"
    using assms(1,2) by (simp_all add: inst_ok_def)
  have si: "length s = 200" "i < unat (rateInBytes inst)"
    using absorb_bytes_ok [OF inst(1,4) assms(4)] by auto
  then have i: "unat (of_nat i :: u32) = i" using inst(2) by (simp add: unat_of_nat)
  have "length d + unat (rateInBytes inst) < 2 ^ 32" using assms(3) inst(2) by linarith
  from absorb_loop_bytes [OF inst(2,1,4) this] assms(2,4) si i inst(2,3) show ?thesis
    by (simp add: SpongeAbsorb_def inst_ok_def rateInBytes_def)
qed

lemma absorb_pieces_bytes:
  "inst_ok inst \<Longrightarrow> \<not> ki_squeezing inst \<Longrightarrow> \<forall>d \<in> set ds. length d + 200 < 2 ^ 32 \<Longrightarrow>
    absorb_bytes f (unat (rateInBytes inst)) (ki_state inst, unat (ki_byteIOIndex inst)) (concat ds) = (s, i) \<Longrightarrow>
    absorb_pieces f inst ds = Some (inst\<lparr>ki_state := s, ki_byteIOIndex := of_nat i\<rparr>) \<and>
    inst_ok (inst\<lparr>ki_state := s, ki_byteIOIndex := of_nat i\<rparr>) \<and> unat (of_nat i :: u32) = i"
proof (induction ds arbitrary: inst)
  case (Cons d ds)
  obtain s1 i1 where b: "absorb_bytes f (unat (rateInBytes inst)) (ki_state inst, unat (ki_byteIOIndex inst)) d = (s1, i1)"
    by fastforce
  let ?inst = "inst\<lparr>ki_state := s1, ki_byteIOIndex := of_nat i1\<rparr>"
  have step: "SpongeAbsorb f inst d = Some (0, ?inst)" "inst_ok ?inst" "unat (of_nat i1 :: u32) = i1"
    using SpongeAbsorb_bytes [OF Cons.prems(1,2) _ b] Cons.prems(3) by auto
  have "absorb_bytes f (unat (rateInBytes ?inst)) (ki_state ?inst, unat (ki_byteIOIndex ?inst)) (concat ds) = (s, i)"
    using Cons.prems(4) b step(3) by (simp add: rateInBytes_def)
  with Cons.IH [OF step(2) _ _ this] Cons.prems(2,3) step(1) show ?case by simp
next
  case Nil
  then show ?case by auto
qed

lemma length_pad_state: "length s = 200 \<Longrightarrow> length (pad_state f r (s, i) suffix) = 200"
  by (simp add: pad_state_def Let_def length_perm)

lemma SpongeAbsorbLastFewBits_ok:
  assumes "inst_ok inst" and "\<not> ki_squeezing inst" and "suffix \<noteq> 0"
  defines "s \<equiv> pad_state f (unat (rateInBytes inst)) (ki_state inst, unat (ki_byteIOIndex inst)) suffix"
  shows "SpongeAbsorbLastFewBits f inst suffix = Some (0, inst\<lparr>ki_state := s, ki_byteIOIndex := 0, ki_squeezing := True\<rparr>) \<and>
    inst_ok (inst\<lparr>ki_state := s, ki_byteIOIndex := 0, ki_squeezing := True\<rparr>)"
proof -
  let ?r = "rateInBytes inst" and ?i = "ki_byteIOIndex inst"
  have inst: "length (ki_state inst) = 200" "unat ?r \<le> 200" "0 < unat ?r" "unat ?i < unat ?r"
    using assms(1,2) by (simp_all add: inst_ok_def)
  have at: "?i < 200" "?r - 1 < 200" "?i = ?r - 1 \<longleftrightarrow> unat ?i = unat ?r - 1"
    using inst minus_one_nat [of ?r] by (auto simp: word_less_nat_alt word_unat_eq_iff)
  have "SpongeAbsorbLastFewBits f inst suffix = Some (0, inst\<lparr>ki_state := s, ki_byteIOIndex := 0, ki_squeezing := True\<rparr>)"
    using assms(2,3) at minus_one_nat [OF inst(3)]
    by (simp add: SpongeAbsorbLastFewBits_def KeccakP1600_AddByte_def s_def pad_state_def Let_def)
  then show ?thesis
    using inst length_pad_state [OF inst(1)] by (simp add: inst_ok_def rateInBytes_def s_def)
qed

lemma SpongeSqueeze_bytes:
  assumes "inst_ok inst" and "ki_squeezing inst" and "n + 200 < 2 ^ 32"
    and "squeeze_bytes f (unat (rateInBytes inst)) (ki_state inst, unat (ki_byteIOIndex inst)) n = (out, s, i)"
  shows "SpongeSqueeze f inst n = Some (0, out, inst\<lparr>ki_state := s, ki_byteIOIndex := of_nat i\<rparr>) \<and>
    inst_ok (inst\<lparr>ki_state := s, ki_byteIOIndex := of_nat i\<rparr>) \<and> unat (of_nat i :: u32) = i"
proof -
  have inst: "length (ki_state inst) = 200" "unat (rateInBytes inst) \<le> 200" "0 < unat (rateInBytes inst)"
    "unat (ki_byteIOIndex inst) \<le> unat (rateInBytes inst)"
    using assms(1,2) by (simp_all add: inst_ok_def)
  have "n + unat (rateInBytes inst) < 2 ^ 32" using assms(3) inst(2) by linarith
  from squeeze_loop_bytes [OF inst(2,3,1,4) this] assms(4)
  have "squeeze_loop f (rateInBytes inst) (ki_state inst, ki_byteIOIndex inst) n = Some (out, s, of_nat i)"
    "length s = 200" "i \<le> unat (rateInBytes inst)"
    by auto
  moreover from this(3) inst(2) have "unat (of_nat i :: u32) = i" by (simp add: unat_of_nat)
  ultimately show ?thesis
    using assms(2) inst by (simp add: SpongeSqueeze_def inst_ok_def rateInBytes_def)
qed

lemma squeeze_pieces_bytes:
  "inst_ok inst \<Longrightarrow> ki_squeezing inst \<Longrightarrow> \<forall>n \<in> set ns. n + 200 < 2 ^ 32 \<Longrightarrow>
    squeeze_pieces f inst ns =
      Some (fst (squeeze_bytes f (unat (rateInBytes inst)) (ki_state inst, unat (ki_byteIOIndex inst)) (sum_list ns)))"
proof (induction ns arbitrary: inst)
  case (Cons n ns)
  obtain out s i where b: "squeeze_bytes f (unat (rateInBytes inst)) (ki_state inst, unat (ki_byteIOIndex inst)) n = (out, s, i)"
    by (metis prod_cases3)
  let ?inst = "inst\<lparr>ki_state := s, ki_byteIOIndex := of_nat i\<rparr>"
  have step: "SpongeSqueeze f inst n = Some (0, out, ?inst)" "inst_ok ?inst" "unat (of_nat i :: u32) = i"
    using SpongeSqueeze_bytes [OF Cons.prems(1,2) _ b] Cons.prems(3) by auto
  have "squeeze_pieces f ?inst ns = Some (fst (squeeze_bytes f (unat (rateInBytes inst)) (s, i) (sum_list ns)))"
    using Cons.IH [OF step(2)] Cons.prems(2,3) step(3) by (simp add: rateInBytes_def)
  with step(1) b show ?case by (simp add: squeeze_bytes_add Let_def split: prod.splits)
qed simp

lemma sponge_output_bytes:
  assumes "0 < r" and "r \<le> 200"
  shows "length s = 200 \<Longrightarrow> sponge_output f r s n = fst (squeeze_bytes f r (s, 0) n)"
proof (induction n arbitrary: s rule: less_induct)
  case (less n)
  show ?case
  proof (cases "n \<le> r")
    case True
    with less.prems assms show ?thesis
      by (subst sponge_output.simps) (simp add: squeeze_bytes_part sub_def)
  next
    case False
    have "squeeze_bytes f r (s, 0) (r + (n - r)) = (let (cs, st) = squeeze_bytes f r (s, r) (n - r) in (take r s @ cs, st))"
      using squeeze_bytes_part [of 0 r r s f] assms less.prems by (simp add: squeeze_bytes_add Let_def sub_def)
    moreover have "squeeze_bytes f r (s, r) (n - r) = squeeze_bytes f r (f s, 0) (n - r)"
      using False assms(1) by (intro squeeze_bytes_end) auto
    ultimately have "fst (squeeze_bytes f r (s, 0) n) = take r s @ fst (squeeze_bytes f r (f s, 0) (n - r))"
      using False by (simp add: Let_def split: prod.splits)
    then show ?thesis
      using False assms less.IH [of "n - r" "f s"] less.prems by (subst sponge_output.simps) (simp add: length_perm)
  qed
qed

lemma Sponge_bytes:
  assumes "rate_ok rate" and "rate + capacity = 1600" and "suffix \<noteq> 0"
  shows "Sponge f rate capacity m suffix n = Some (0, sponge_spec f (unat (rate div 8)) m suffix n)"
proof -
  let ?r = "rate div 8"
  note r = rate_bytes [OF assms(1)]
  obtain s rest where b: "absorb_blocks f (unat ?r) (replicate 200 0) m = (s, rest)" by fastforce
  then have "length rest = length m mod unat ?r"
    using absorb_rest_length [OF r(1), of "\<lambda>s b. f (xor_bytes s b 0)" "replicate 200 0" m] by (simp add: absorb_blocks_def)
  then have rest: "length rest < unat ?r" using r(1) by simp
  have s: "length s = 200" using absorb_blocks_ok [OF _ b] by simp
  have len: "unat (of_nat (length rest) :: u32) = length rest" using rest r(2) by (simp add: unat_of_nat)
  have "in_state s 0 (of_nat (length rest))"
    using len rest r(2) s by (simp add: in_state_def word_le_nat_alt)
  then have add: "KeccakP1600_AddBytes s rest 0 (of_nat (length rest)) = Some (xor_bytes s rest 0)"
    by (simp add: KeccakP1600_AddBytes_def len)
  have at: "of_nat (length rest) < (200 :: u32)" "?r - 1 < 200" "of_nat (length rest) = ?r - 1 \<longleftrightarrow> length rest = unat ?r - 1"
    using len rest r minus_one_nat [OF r(1)] by (auto simp: word_less_nat_alt word_unat_eq_iff)
  have all: "absorb_bytes f (unat ?r) (replicate 200 0, 0) m = (xor_bytes s rest 0, length rest)"
    using absorb_blocks_bytes [OF r(1) b] absorb_bytes_part [of 0 rest "unat ?r" f s] rest by simp
  define p where "p = pad_state f (unat ?r) (xor_bytes s rest 0, length rest) suffix"
  have p: "length p = 200" unfolding p_def by (rule length_pad_state) (simp add: s)
  have ne: "rate \<noteq> 0" "\<not> 1600 < rate" "rate mod 8 = 0" using assms(1) by (auto simp: rate_ok_def)
  have "Sponge f rate capacity m suffix n = Some (0, sponge_output f (unat ?r) p n)"
    using ne assms(2,3) b add at len minus_one_nat [OF r(1)]
    by (simp add: Sponge_def KeccakP1600_Initialize_def KeccakP1600_AddByte_def p_def pad_state_def Let_def)
  then show ?thesis
    by (simp add: sponge_spec_def all p_def [symmetric] sponge_output_bytes [OF r p])
qed

end

text \<open>Both instantiations of the sponge.\<close>

lemma length_words_to_bytes: "length (words_to_bytes ws) = 8 * length ws"
  by (simp add: words_to_bytes_def le_load64.length_enc_vect)

lemma length_bytes_to_words [simp]: "length (bytes_to_words s) = 25"
  by (simp add: bytes_to_words_def)

interpretation perm12: permutation KeccakP1600_Permute_12rounds
  by unfold_locales (simp add: KeccakP1600_Permute_12rounds_def length_words_to_bytes length_KeccakP1600OnWords)

interpretation perm24: permutation KeccakP1600_Permute_24rounds
  by unfold_locales (simp add: KeccakP1600_Permute_24rounds_def length_words_to_bytes length_KeccakP1600OnWords)

text \<open>C17: The streaming sponge is the one-shot sponge: a message absorbed in any pieces, closed with a suffix and squeezed
  in any pieces gives the output of \<open>Sponge\<close> on the whole message, which is the byte-by-byte sponge; for either
  number of rounds and any rate, as long as no piece comes within 200 bytes of four gigabytes.\<close>

theorem sponge_any_pieces:
  assumes "f \<in> {KeccakP1600_Permute_12rounds, KeccakP1600_Permute_24rounds}"
    and "rate_ok rate" and "rate + capacity = 1600" and "suffix \<noteq> 0"
    and "\<forall>d \<in> set ds. length d + 200 < 2 ^ 32" and "\<forall>n \<in> set ns. n + 200 < 2 ^ 32"
  shows "\<exists>inst inst' inst''. SpongeInitialize rate capacity i0 = (0, inst) \<and> absorb_pieces f inst ds = Some inst' \<and>
    SpongeAbsorbLastFewBits f inst' suffix = Some (0, inst'') \<and>
    squeeze_pieces f inst'' ns = Some (sponge_spec f (unat (rate div 8)) (concat ds) suffix (sum_list ns)) \<and>
    Sponge f rate capacity (concat ds) suffix (sum_list ns) = Some (0, sponge_spec f (unat (rate div 8)) (concat ds) suffix (sum_list ns))"
proof -
  have perm: "permutation f"
    using assms(1) perm12.permutation_axioms perm24.permutation_axioms by auto
  let ?inst = "\<lparr>ki_state = replicate 200 0, ki_rate = rate, ki_byteIOIndex = 0, ki_squeezing = False\<rparr>"
  note init = permutation.SpongeInitialize_ok [OF perm assms(2,3), of i0]
  obtain s i where b: "absorb_bytes f (unat (rate div 8)) (replicate 200 0, 0) (concat ds) = (s, i)" by fastforce
  let ?inst1 = "?inst\<lparr>ki_state := s, ki_byteIOIndex := of_nat i\<rparr>"
  have abs: "absorb_pieces f ?inst ds = Some ?inst1" "inst_ok ?inst1" "unat (of_nat i :: u32) = i"
    using permutation.absorb_pieces_bytes [OF perm conjunct2 [OF init] _ assms(5), of s i] b by (simp_all add: rateInBytes_def)
  have "\<not> ki_squeezing ?inst1" by simp
  note pad = permutation.SpongeAbsorbLastFewBits_ok [OF perm abs(2) this assms(4)]
  note out = permutation.squeeze_pieces_bytes [OF perm conjunct2 [OF pad] _ assms(6)]
  show ?thesis
    using init abs pad out b permutation.Sponge_bytes [OF perm assms(2,3,4)]
    by (simp add: sponge_spec_def rateInBytes_def)
qed

theorem sponge_any_pieces_witness:
  "\<exists>inst inst' inst''. SpongeInitialize 1344 256 undefined = (0, inst) \<and>
    absorb_pieces KeccakP1600_Permute_12rounds inst [[1], [2, 3]] = Some inst' \<and>
    SpongeAbsorbLastFewBits KeccakP1600_Permute_12rounds inst' 6 = Some (0, inst'') \<and>
    squeeze_pieces KeccakP1600_Permute_12rounds inst'' [30, 2] =
      Some (sponge_spec KeccakP1600_Permute_12rounds 168 [1, 2, 3] 6 32)"
proof -
  have "unat (1344 div 8 :: u32) = 168" by simp
  moreover have "rate_ok 1344" by (simp add: rate_ok_def)
  ultimately show ?thesis
    using sponge_any_pieces [of KeccakP1600_Permute_12rounds 1344 256 6 "[[1], [2, 3]]" "[30, 2]" undefined] by auto
qed

text \<open>C18: Without that bound the streaming sponge leaves its state: when a piece and the bytes already in the block add up
  to four gigabytes, the 32-bit sum in \<open>SpongeAbsorb\<close> is zero, the piece is taken to fit the block, the equally
  wrapped assertion of \<open>AddBytes\<close> holds, and the write runs past the 200 bytes; the one-shot \<open>Sponge\<close> hashes the
  same message.\<close>

theorem SpongeAbsorb_overflow:
  assumes "inst_ok inst" and "\<not> ki_squeezing inst" and "0 < unat (ki_byteIOIndex inst)"
    and "unat (ki_byteIOIndex inst) + length data = 2 ^ 32"
  shows "SpongeAbsorb f inst data = None \<and> ki_byteIOIndex inst < 200 \<and>
    ki_byteIOIndex inst + partial_block (rateInBytes inst) (ki_byteIOIndex inst) (length data) = 0 \<and>
    length (ki_state inst) < unat (ki_byteIOIndex inst) + unat (partial_block (rateInBytes inst) (ki_byteIOIndex inst) (length data)) \<and>
    Sponge KeccakP1600_Permute_24rounds 1088 512 data 6 n =
      Some (0, sponge_spec KeccakP1600_Permute_24rounds 136 data 6 n)"
proof -
  let ?i = "ki_byteIOIndex inst" and ?r = "rateInBytes inst"
  have inst: "length (ki_state inst) = 200" "unat ?r \<le> 200" "0 < unat ?r" "unat ?i < unat ?r"
    using assms(1,2) by (simp_all add: inst_ok_def)
  have len: "unat (of_nat (length data) :: u32) = length data"
    using assms(3,4) by (simp add: unat_of_nat)
  have total: "length data + unat ?i = 2 ^ 32" using assms(4) by linarith
  have "unat (of_nat (length data) + ?i) = unat (0 :: u32)"
    unfolding unat_word_ariths len total by simp
  then have sum: "of_nat (length data) + ?i = 0" by (rule word_unat_eq_iff [THEN iffD2])
  then have part: "partial_block ?r ?i (length data) = of_nat (length data)"
    using inst by (simp add: partial_block_def Let_def)
  have big: "\<not> in_state (ki_state inst) ?i (of_nat (length data))"
    using assms(4) inst by (simp add: in_state_def len)
  have "0 < length data" using assms(4) inst by (cases data) simp_all
  then have ne: "data \<noteq> []" "of_nat (length data) \<noteq> (0 :: u32)" "?i \<noteq> 0" "?r \<noteq> 0"
    using len assms(3) inst(3) by auto
  have "SpongeAbsorb f inst data = None"
    using assms(2) ne part big
    by (simp add: SpongeAbsorb_def absorb_loop.simps [of f _ _ _ data] KeccakP1600_AddBytes_def Let_def)
  moreover have "?i < 200" using inst by (simp add: word_less_nat_alt)
  moreover have "Sponge KeccakP1600_Permute_24rounds 1088 512 data 6 n =
      Some (0, sponge_spec KeccakP1600_Permute_24rounds 136 data 6 n)"
  proof -
    have r: "unat (1088 div 8 :: u32) = 136" "rate_ok 1088" "(1088 :: u32) + 512 = 1600" "(6 :: u8) \<noteq> 0"
      by (simp_all add: rate_ok_def)
    show ?thesis by (rule perm24.Sponge_bytes [OF r(2,3,4), unfolded r(1)])
  qed
  ultimately show ?thesis
    using sum part inst assms(4) len by (simp add: add.commute)
qed

definition one_byte_in :: SpongeInstance where
  "one_byte_in = \<lparr>ki_state = replicate 200 0, ki_rate = 1088, ki_byteIOIndex = 1, ki_squeezing = False\<rparr>"

theorem SpongeAbsorb_overflow_witness:
  "SpongeAbsorb KeccakP1600_Permute_24rounds one_byte_in (replicate (2 ^ 32 - 1) 0) = None"
proof -
  have inst: "inst_ok one_byte_in" "\<not> ki_squeezing one_byte_in" and i: "unat (ki_byteIOIndex one_byte_in) = 1"
    by (simp_all add: inst_ok_def one_byte_in_def rateInBytes_def)
  have "0 < unat (ki_byteIOIndex one_byte_in)" unfolding i by (rule zero_less_one)
  moreover have "unat (ki_byteIOIndex one_byte_in) + length (replicate (2 ^ 32 - 1) (0 :: u8)) = 2 ^ 32"
    unfolding length_replicate i by simp
  ultimately show ?thesis by (rule conjunct1 [OF SpongeAbsorb_overflow [OF inst]])
qed

end
