(* ===== verification/K12.thy ===== *)
theory K12
  imports Sponge
begin

text \<open>
  KangarooTwelve (\<open>randomx/panthera/KangarooTwelve.c\<close>), the tree hash over the sponge of 12 rounds that
  ends the seed of an XLA hash: the first chunk of 8192 bytes goes into the final node, every other
  chunk into a leaf whose chaining value follows it. The parallel loops are not compiled.

  \<open>size_t\<close> values are natural numbers except where they are encoded.
\<close>

section \<open>The instance\<close>

datatype KCP_Phases = NOT_INITIALIZED | ABSORBING | FINAL | SQUEEZING

record KangarooTwelve_Instance =
  kt_queueNode :: SpongeInstance
  kt_finalNode :: SpongeInstance
  kt_fixedOutputLength :: nat
  kt_blockNumber :: nat
  kt_queueAbsorbedLen :: nat
  kt_phase :: KCP_Phases

definition chunkSize :: nat where "chunkSize = 8192"
definition suffixLeaf :: u8 where "suffixLeaf = 0x0B"
definition security :: u32 where "security = 128"
definition capacity :: u32 where "capacity = 2 * security"
definition capacityInBytes :: nat where "capacityInBytes = unat (capacity div 8)"
definition k12_rate :: u32 where "k12_rate = 1600 - capacity"

abbreviation P12 :: "bytes \<Rightarrow> bytes" where "P12 \<equiv> KeccakP1600_Permute_12rounds"

text \<open>\<open>for (v = value, n = 0; v && (n < sizeof(size_t)); ++n, v >>= 8)\<close>.\<close>

function encode_size :: "u64 \<Rightarrow> nat \<Rightarrow> nat" where
  "encode_size v n = (if v \<noteq> 0 \<and> n < 8 then encode_size (drop_bit 8 v) (n + 1) else n)"
  by pat_completeness auto
termination
  by (relation "measure (\<lambda>(v, n). 8 - n)") auto

declare encode_size.simps [simp del]

definition right_encode :: "u64 \<Rightarrow> bytes" where
  "right_encode value =
    (let n = encode_size value 0
     in map (\<lambda>i. ucast (drop_bit (8 * (n - i)) value)) [1..<n + 1] @ [of_nat n])"

definition KangarooTwelve_Initialize :: "KangarooTwelve_Instance \<Rightarrow> nat \<Rightarrow> int \<times> KangarooTwelve_Instance" where
  "KangarooTwelve_Initialize kt outputLen =
    (let kt = kt\<lparr>kt_fixedOutputLength := outputLen, kt_queueAbsorbedLen := 0, kt_blockNumber := 0, kt_phase := ABSORBING\<rparr>;
         (e, node) = SpongeInitialize k12_rate capacity (kt_finalNode kt)
     in (e, kt\<lparr>kt_finalNode := node\<rparr>))"

section \<open>Update\<close>

text \<open>Absorb into the final node.\<close>

definition absorb_final :: "KangarooTwelve_Instance \<Rightarrow> bytes \<Rightarrow> (int \<times> KangarooTwelve_Instance) option" where
  "absorb_final kt data =
    map_option (\<lambda>(e, node). (e, kt\<lparr>kt_finalNode := node\<rparr>)) (SpongeAbsorb P12 (kt_finalNode kt) data)"

definition absorb_queue :: "KangarooTwelve_Instance \<Rightarrow> bytes \<Rightarrow> (int \<times> KangarooTwelve_Instance) option" where
  "absorb_queue kt data =
    map_option (\<lambda>(e, node). (e, kt\<lparr>kt_queueNode := node\<rparr>)) (SpongeAbsorb P12 (kt_queueNode kt) data)"

text \<open>The leaf is closed and its chaining value absorbed.\<close>

definition close_leaf :: "KangarooTwelve_Instance \<Rightarrow> (int \<times> KangarooTwelve_Instance) option" where
  "close_leaf kt = do {
     (e, q) \<leftarrow> SpongeAbsorbLastFewBits P12 (kt_queueNode kt) suffixLeaf;
     let kt = kt\<lparr>kt_queueNode := q\<rparr>;
     if e \<noteq> 0 then Some (1, kt) else do {
       (e, intermediate, q) \<leftarrow> SpongeSqueeze P12 (kt_queueNode kt) capacityInBytes;
       let kt = kt\<lparr>kt_queueNode := q\<rparr>;
       if e \<noteq> 0 then Some (1, kt) else do {
         (e, kt) \<leftarrow> absorb_final kt intermediate;
         if e \<noteq> 0 then Some (1, kt) else Some (0, kt)
       }
     }
   }"

definition chunk_room :: "KangarooTwelve_Instance \<Rightarrow> bytes \<Rightarrow> nat" where
  "chunk_room kt inp =
    (if length inp < chunkSize - kt_queueAbsorbedLen kt then length inp else chunkSize - kt_queueAbsorbedLen kt)"

text \<open>\<open>blockNumber == 0\<close>: the first chunk. The input that is left is returned as well.\<close>

definition update_first :: "KangarooTwelve_Instance \<Rightarrow> bytes \<Rightarrow> (int \<times> KangarooTwelve_Instance \<times> bytes) option" where
  "update_first kt inp = do {
     let len = chunk_room kt inp;
     (e, kt) \<leftarrow> absorb_final kt (take len inp);
     if e \<noteq> 0 then Some (1, kt, inp) else do {
       let inp = drop len inp;
       let kt = kt\<lparr>kt_queueAbsorbedLen := kt_queueAbsorbedLen kt + len\<rparr>;
       if kt_queueAbsorbedLen kt = chunkSize \<and> inp \<noteq> [] then do {
         let kt = kt\<lparr>kt_queueAbsorbedLen := 0, kt_blockNumber := 1\<rparr>;
         (e, kt) \<leftarrow> absorb_final kt [0x03];
         if e \<noteq> 0 then Some (1, kt, inp) else do {
           let node = kt_finalNode kt;
           Some (0, kt\<lparr>kt_finalNode := node\<lparr>ki_byteIOIndex := (ki_byteIOIndex node + 7) AND NOT 7\<rparr>\<rparr>, inp)
         }
       } else Some (0, kt, inp)
     }
   }"

text \<open>\<open>queueAbsorbedLen != 0\<close>: the chunk in the queue.\<close>

definition update_queue :: "KangarooTwelve_Instance \<Rightarrow> bytes \<Rightarrow> (int \<times> KangarooTwelve_Instance \<times> bytes) option" where
  "update_queue kt inp = do {
     let len = chunk_room kt inp;
     (e, kt) \<leftarrow> absorb_queue kt (take len inp);
     if e \<noteq> 0 then Some (1, kt, inp) else do {
       let inp = drop len inp;
       let kt = kt\<lparr>kt_queueAbsorbedLen := kt_queueAbsorbedLen kt + len\<rparr>;
       if kt_queueAbsorbedLen kt = chunkSize then do {
         (e, kt) \<leftarrow> close_leaf (kt\<lparr>kt_queueAbsorbedLen := 0, kt_blockNumber := kt_blockNumber kt + 1\<rparr>);
         Some (e, kt, inp)
       } else Some (0, kt, inp)
     }
   }"

text \<open>\<open>while (inLen > 0)\<close>: further chunks.\<close>

function update_chunks :: "KangarooTwelve_Instance \<Rightarrow> bytes \<Rightarrow> (int \<times> KangarooTwelve_Instance) option" where
  "update_chunks kt inp =
    (if inp = [] then Some (0, kt)
     else
       let len = (if length inp < chunkSize then length inp else chunkSize);
           (e, node) = SpongeInitialize k12_rate capacity (kt_queueNode kt);
           kt = kt\<lparr>kt_queueNode := node\<rparr>
       in if e \<noteq> 0 then Some (1, kt)
          else case absorb_queue kt (take len inp) of
            None \<Rightarrow> None
          | Some (e, kt) \<Rightarrow>
              if e \<noteq> 0 then Some (1, kt)
              else if len = chunkSize then
                (case close_leaf (kt\<lparr>kt_blockNumber := kt_blockNumber kt + 1\<rparr>) of
                   None \<Rightarrow> None
                 | Some (e, kt) \<Rightarrow> if e \<noteq> 0 then Some (1, kt) else update_chunks kt (drop len inp))
              else update_chunks (kt\<lparr>kt_queueAbsorbedLen := len\<rparr>) (drop len inp))"
  by pat_completeness auto
termination
  by (relation "measure (\<lambda>(kt, inp). length inp)") (auto simp: chunkSize_def)

declare update_chunks.simps [simp del]

definition KangarooTwelve_Update :: "KangarooTwelve_Instance \<Rightarrow> bytes \<Rightarrow> (int \<times> KangarooTwelve_Instance) option" where
  "KangarooTwelve_Update kt inp =
    (if kt_phase kt \<noteq> ABSORBING then Some (1, kt)
     else do {
       (e, kt, inp) \<leftarrow> (if kt_blockNumber kt = 0 then update_first kt inp
                      else if kt_queueAbsorbedLen kt \<noteq> 0 then update_queue kt inp
                      else Some (0, kt, inp));
       if e \<noteq> 0 then Some (1, kt) else update_chunks kt inp
     })"

section \<open>Final\<close>

text \<open>The chaining hop: the last leaf, the number of leaves, the suffix of the final node.\<close>

definition final_chain :: "KangarooTwelve_Instance \<Rightarrow> (int \<times> KangarooTwelve_Instance) option" where
  "final_chain kt = do {
     (e, kt) \<leftarrow> (if kt_queueAbsorbedLen kt \<noteq> 0 then close_leaf (kt\<lparr>kt_blockNumber := kt_blockNumber kt + 1\<rparr>) else Some (0, kt));
     if e \<noteq> 0 then Some (1, kt) else do {
       let kt = kt\<lparr>kt_blockNumber := kt_blockNumber kt - 1\<rparr>;
       absorb_final kt (right_encode (of_nat (kt_blockNumber kt)) @ [0xFF, 0xFF])
     }
   }"

text \<open>The output is empty when its length is not fixed.\<close>

definition KangarooTwelve_Final :: "KangarooTwelve_Instance \<Rightarrow> bytes \<Rightarrow> (int \<times> bytes \<times> KangarooTwelve_Instance) option" where
  "KangarooTwelve_Final kt customization =
    (if kt_phase kt \<noteq> ABSORBING then Some (1, [], kt)
     else do {
       (e, kt) \<leftarrow> (if customization \<noteq> [] then KangarooTwelve_Update kt customization else Some (0, kt));
       if e \<noteq> 0 then Some (1, [], kt) else do {
         (e, kt) \<leftarrow> KangarooTwelve_Update kt (right_encode (of_nat (length customization)));
         if e \<noteq> 0 then Some (1, [], kt) else do {
           (e, kt, padding) \<leftarrow> (if kt_blockNumber kt = 0 then Some (0, kt, 0x07)
                            else map_option (\<lambda>(e, kt). (e, kt, 0x06)) (final_chain kt));
           if e \<noteq> 0 then Some (1, [], kt) else do {
             (e, node) \<leftarrow> SpongeAbsorbLastFewBits P12 (kt_finalNode kt) padding;
             let kt = kt\<lparr>kt_finalNode := node\<rparr>;
             if e \<noteq> 0 then Some (1, [], kt)
             else if kt_fixedOutputLength kt \<noteq> 0 then do {
               let kt = kt\<lparr>kt_phase := FINAL\<rparr>;
               (e, out, node) \<leftarrow> SpongeSqueeze P12 (kt_finalNode kt) (kt_fixedOutputLength kt);
               Some (e, out, kt\<lparr>kt_finalNode := node\<rparr>)
             } else Some (0, [], kt\<lparr>kt_phase := SQUEEZING\<rparr>)
           }
         }
       }
     })"

definition KangarooTwelve_Squeeze :: "KangarooTwelve_Instance \<Rightarrow> nat \<Rightarrow> (int \<times> bytes \<times> KangarooTwelve_Instance) option" where
  "KangarooTwelve_Squeeze kt outputLen =
    (if kt_phase kt \<noteq> SQUEEZING then Some (1, [], kt)
     else do {
       (e, out, node) \<leftarrow> SpongeSqueeze P12 (kt_finalNode kt) outputLen;
       Some (e, out, kt\<lparr>kt_finalNode := node\<rparr>)
     })"

text \<open>The instance is a local variable; \<open>kt0\<close> is what it holds at first.\<close>

definition KangarooTwelve :: "KangarooTwelve_Instance \<Rightarrow> bytes \<Rightarrow> nat \<Rightarrow> bytes \<Rightarrow> (int \<times> bytes) option" where
  "KangarooTwelve kt0 inp outLen customization =
    (if outLen = 0 then Some (1, [])
     else let (e, kt) = KangarooTwelve_Initialize kt0 outLen
     in if e \<noteq> 0 then Some (1, [])
        else do {
          (e, kt) \<leftarrow> KangarooTwelve_Update kt inp;
          if e \<noteq> 0 then Some (1, []) else do {
            (e, out, kt) \<leftarrow> KangarooTwelve_Final kt customization;
            Some (e, out)
          }
        })"

section \<open>Nodes\<close>

text \<open>A node that has absorbed the bytes \<open>m\<close>.\<close>

definition node_ok :: "SpongeInstance \<Rightarrow> bytes \<Rightarrow> bool" where
  "node_ok inst m \<longleftrightarrow> ki_rate inst = k12_rate \<and> \<not> ki_squeezing inst \<and>
     (ki_state inst, unat (ki_byteIOIndex inst)) = absorb_bytes P12 168 (replicate 200 0, 0) m"

abbreviation sponge12 :: "bytes \<Rightarrow> u8 \<Rightarrow> nat \<Rightarrow> bytes" where
  "sponge12 \<equiv> sponge_spec P12 168"

lemma rate_168: "k12_rate = 1344" "capacity = 256" "capacityInBytes = 32" "unat (k12_rate div 8) = 168"
  by (simp_all add: k12_rate_def capacity_def capacityInBytes_def security_def)

lemma node_rate: "node_ok inst m \<Longrightarrow> unat (rateInBytes inst) = 168"
  by (simp add: node_ok_def rateInBytes_def rate_168)

lemma node_inst:
  assumes "node_ok inst m"
  shows "inst_ok inst" and "\<not> ki_squeezing inst"
proof -
  have "length (ki_state inst) = 200 \<and> unat (ki_byteIOIndex inst) < 168"
    using assms by (intro perm12.absorb_bytes_ok [of "replicate 200 0" 0 168 m]) (simp_all add: node_ok_def)
  then show "inst_ok inst" using assms node_rate [OF assms] by (simp add: inst_ok_def node_ok_def)
qed (use assms in \<open>simp add: node_ok_def\<close>)

lemma node_init: "\<exists>node. SpongeInitialize k12_rate capacity inst = (0, node) \<and> node_ok node []"
  using perm12.SpongeInitialize_ok [of k12_rate capacity inst]
  by (simp add: rate_ok_def rate_168 node_ok_def)

lemma node_absorb:
  assumes "node_ok inst m" and "length d + 200 < 2 ^ 32"
  shows "\<exists>inst'. SpongeAbsorb P12 inst d = Some (0, inst') \<and> node_ok inst' (m @ d)"
proof -
  obtain s i where b: "absorb_bytes P12 168 (ki_state inst, unat (ki_byteIOIndex inst)) d = (s, i)" by fastforce
  with perm12.SpongeAbsorb_bytes [OF node_inst [OF assms(1)] assms(2)] node_rate [OF assms(1)]
  have "SpongeAbsorb P12 inst d = Some (0, inst\<lparr>ki_state := s, ki_byteIOIndex := of_nat i\<rparr>)" "unat (of_nat i :: u32) = i"
    by auto
  moreover from this(2) b assms(1) have "node_ok (inst\<lparr>ki_state := s, ki_byteIOIndex := of_nat i\<rparr>) (m @ d)"
    by (simp add: node_ok_def)
  ultimately show ?thesis by blast
qed

lemma node_finish:
  assumes "node_ok inst m" and "suffix \<noteq> 0" and "n + 200 < 2 ^ 32"
  shows "\<exists>inst' inst''. SpongeAbsorbLastFewBits P12 inst suffix = Some (0, inst') \<and> ki_squeezing inst' \<and>
    SpongeSqueeze P12 inst' n = Some (0, sponge12 m suffix n, inst'')"
proof -
  let ?s = "pad_state P12 168 (ki_state inst, unat (ki_byteIOIndex inst)) suffix"
  let ?inst = "inst\<lparr>ki_state := ?s, ki_byteIOIndex := 0, ki_squeezing := True\<rparr>"
  have pad: "SpongeAbsorbLastFewBits P12 inst suffix = Some (0, ?inst)" "inst_ok ?inst"
    using perm12.SpongeAbsorbLastFewBits_ok [OF node_inst [OF assms(1)] assms(2)] node_rate [OF assms(1)] by auto
  obtain out t j where sq: "squeeze_bytes P12 168 (?s, 0) n = (out, t, j)" by (metis prod_cases3)
  then have "sponge12 m suffix n = out"
    using assms(1) by (simp add: sponge_spec_def node_ok_def)
  moreover have "squeeze_bytes P12 (unat (rateInBytes ?inst)) (ki_state ?inst, unat (ki_byteIOIndex ?inst)) n = (out, t, j)"
    using sq node_rate [OF assms(1)] by (simp add: rateInBytes_def)
  from perm12.SpongeSqueeze_bytes [OF pad(2) _ assms(3) this]
  have "\<exists>inst''. SpongeSqueeze P12 ?inst n = Some (0, out, inst'')" by simp
  ultimately show ?thesis using pad(1) by auto
qed

text \<open>The index in the block, and the zero padding of the first chunk to a lane.\<close>

lemma absorb_bytes_index: "i < r \<Longrightarrow> snd (absorb_bytes f r (s, i) d) = (i + length d) mod r"
proof (induction d arbitrary: s i)
  case (Cons b d)
  obtain s1 i1 where step: "absorb_byte f r (s, i) b = (s1, i1)" by fastforce
  then have "i1 = (i + 1) mod r" "i1 < r"
    using Cons.prems by (auto simp: absorb_byte_def Let_def split: if_splits)
  with Cons.IH [of i1 s1] step show ?case by (simp add: mod_add_left_eq)
qed simp

lemma absorb_zeros:
  "i + n < r \<Longrightarrow> absorb_bytes f r (s, i) (replicate n 0) = (s, i + n)"
proof (induction n arbitrary: i)
  case (Suc n)
  then show ?case using Suc.IH [of "i + 1"] by (simp add: absorb_byte_def Let_def)
qed simp

lemma node_align:
  assumes "node_ok node (c @ [3])" and "length c = 8192"
  shows "node_ok (node\<lparr>ki_byteIOIndex := (ki_byteIOIndex node + 7) AND NOT 7\<rparr>) (c @ 3 # replicate 7 0)"
proof -
  have "unat (ki_byteIOIndex node) = (0 + length (c @ [3])) mod 168"
    using assms(1) absorb_bytes_index [of 0 168 P12 "replicate 200 0" "c @ [3]"] by (simp add: node_ok_def prod_eq_iff)
  then have i: "unat (ki_byteIOIndex node) = 129" using assms(2) by simp
  then have "ki_byteIOIndex node = 129" by (simp add: word_unat_eq_iff)
  then have i': "unat ((ki_byteIOIndex node + 7) AND NOT 7) = 136" by simp
  have e: "absorb_bytes P12 168 (replicate 200 0, 0) (c @ [3]) = (ki_state node, 129)"
    using assms(1) unfolding node_ok_def i by (elim conjE) (rule sym)
  have "absorb_bytes P12 168 (replicate 200 0, 0) ((c @ [3]) @ replicate 7 0) =
      absorb_bytes P12 168 (absorb_bytes P12 168 (replicate 200 0, 0) (c @ [3])) (replicate 7 0)"
    by (simp only: foldl_append)
  also have "\<dots> = absorb_bytes P12 168 (ki_state node, 129) (replicate 7 0)"
    by (simp only: e)
  also have "\<dots> = (ki_state node, 136)"
    using absorb_zeros [of 129 7 168 P12 "ki_state node"] by simp
  finally have "absorb_bytes P12 168 (replicate 200 0, 0) (c @ 3 # replicate 7 0) = (ki_state node, 136)"
    by (simp only: append_assoc append_Cons append_Nil)
  then show ?thesis using assms(1) i' by (simp only: node_ok_def) simp
qed


section \<open>Specification\<close>

text \<open>The message in chunks; every chunk after the first is a leaf and contributes a chaining value.\<close>

function chunks :: "bytes \<Rightarrow> bytes list" where
  "chunks m = (if m = [] then [] else take chunkSize m # chunks (drop chunkSize m))"
  by pat_completeness auto
termination
  by (relation "measure length") (auto simp: chunkSize_def)

declare chunks.simps [simp del]

definition chaining_value :: "bytes \<Rightarrow> bytes" where
  "chaining_value c = sponge12 c suffixLeaf 32"

definition first_chunk :: "bytes \<Rightarrow> bytes" where
  "first_chunk c = c @ 3 # replicate 7 0"

definition k12_spec :: "bytes \<Rightarrow> nat \<Rightarrow> bytes" where
  "k12_spec m n =
    (let leaves = chunks (drop chunkSize m)
     in if leaves = [] then sponge12 m 0x07 n
        else sponge12 (first_chunk (take chunkSize m) @ concat (map chaining_value leaves) @
               right_encode (of_nat (length leaves)) @ [0xFF, 0xFF]) 0x06 n)"

abbreviation leaves_in :: "bytes \<Rightarrow> bytes \<Rightarrow> bytes \<times> bytes" where
  "leaves_in \<equiv> absorb chunkSize 0 (\<lambda>node c. node @ chaining_value c)"

lemma chunkSize_pos [simp]: "0 < chunkSize" "chunkSize \<noteq> 0"
  by (simp_all add: chunkSize_def)

lemma leaves_in_chunks:
  "\<exists>cs rest. leaves_in F xs = (F @ concat (map chaining_value cs), rest) \<and>
     chunks xs = cs @ (if rest = [] then [] else [rest]) \<and> length cs = length xs div chunkSize"
proof (induction "length xs" arbitrary: F xs rule: less_induct)
  case less
  show ?case
  proof (cases "length xs < chunkSize")
    case True
    then show ?thesis
      by (intro exI [of _ "[]"] exI [of _ xs]) (auto simp: chunks.simps [of xs] chunks.simps [of "[]"])
  next
    case False
    then have "xs \<noteq> []" by auto
    then have "length (drop chunkSize xs) < length xs" by (simp add: chunkSize_def)
    then obtain cs rest where "leaves_in (F @ chaining_value (take chunkSize xs)) (drop chunkSize xs) =
          ((F @ chaining_value (take chunkSize xs)) @ concat (map chaining_value cs), rest)"
        "chunks (drop chunkSize xs) = cs @ (if rest = [] then [] else [rest])"
        "length cs = length (drop chunkSize xs) div chunkSize"
      using less.hyps [of "drop chunkSize xs"] by blast
    then show ?thesis using False \<open>xs \<noteq> []\<close>
      by (intro exI [of _ "take chunkSize xs # cs"] exI [of _ rest])
        (simp add: absorb_step chunks.simps [of xs] le_div_geq)
  qed
qed

section \<open>Update keeps the chain\<close>

text \<open>
  \<open>chain_ok kt F b rest\<close>: the final node has absorbed \<open>F\<close>, \<open>b\<close> blocks are counted, \<open>rest\<close> is in the
  queue. \<open>kt_repr kt m\<close>: the instance stands for the message \<open>m\<close> so far.
\<close>

definition chain_ok :: "KangarooTwelve_Instance \<Rightarrow> bytes \<Rightarrow> nat \<Rightarrow> bytes \<Rightarrow> bool" where
  "chain_ok kt F b rest \<longleftrightarrow> kt_phase kt = ABSORBING \<and> kt_blockNumber kt = b \<and> kt_queueAbsorbedLen kt = length rest \<and>
     node_ok (kt_finalNode kt) F \<and> (rest \<noteq> [] \<longrightarrow> node_ok (kt_queueNode kt) rest)"

definition kt_repr :: "KangarooTwelve_Instance \<Rightarrow> bytes \<Rightarrow> bool" where
  "kt_repr kt m \<longleftrightarrow>
    (if length m \<le> chunkSize
     then kt_phase kt = ABSORBING \<and> kt_blockNumber kt = 0 \<and> kt_queueAbsorbedLen kt = length m \<and> node_ok (kt_finalNode kt) m
     else let (F, rest) = leaves_in (first_chunk (take chunkSize m)) (drop chunkSize m)
       in chain_ok kt F (1 + (length m - chunkSize) div chunkSize) rest)"

lemma absorb_final_ok:
  assumes "node_ok (kt_finalNode kt) m" and "length d + 200 < 2 ^ 32"
  shows "\<exists>node. absorb_final kt d = Some (0, kt\<lparr>kt_finalNode := node\<rparr>) \<and> node_ok node (m @ d)"
  using node_absorb [OF assms] by (auto simp: absorb_final_def)

lemma absorb_queue_ok:
  assumes "node_ok (kt_queueNode kt) m" and "length d + 200 < 2 ^ 32"
  shows "\<exists>node. absorb_queue kt d = Some (0, kt\<lparr>kt_queueNode := node\<rparr>) \<and> node_ok node (m @ d)"
  using node_absorb [OF assms] by (auto simp: absorb_queue_def)

lemma length_sponge_spec: "length (sponge_spec f r m suffix n) = n"
  by (simp add: sponge_spec_def length_squeeze_bytes)

lemma length_chaining_value [simp]: "length (chaining_value c) = 32"
  by (simp add: chaining_value_def length_sponge_spec)

lemma close_leaf_ok:
  assumes "node_ok (kt_queueNode kt) c" and "node_ok (kt_finalNode kt) F"
  shows "\<exists>q node. close_leaf kt = Some (0, kt\<lparr>kt_queueNode := q, kt_finalNode := node\<rparr>) \<and> node_ok node (F @ chaining_value c)"
proof -
  obtain q q' where "SpongeAbsorbLastFewBits P12 (kt_queueNode kt) suffixLeaf = Some (0, q)"
      "SpongeSqueeze P12 q capacityInBytes = Some (0, chaining_value c, q')"
    using node_finish [OF assms(1), of suffixLeaf capacityInBytes]
    by (auto simp: suffixLeaf_def chaining_value_def rate_168)
  moreover obtain node where "absorb_final (kt\<lparr>kt_queueNode := q'\<rparr>) (chaining_value c) = Some (0, kt\<lparr>kt_queueNode := q', kt_finalNode := node\<rparr>)"
      "node_ok node (F @ chaining_value c)"
    using absorb_final_ok [of "kt\<lparr>kt_queueNode := q'\<rparr>" F "chaining_value c"] assms(2) by auto
  ultimately show ?thesis by (auto simp: close_leaf_def Let_def)
qed

lemma update_chunks_ok:
  assumes "chain_ok kt F b []"
  shows "\<exists>kt'. update_chunks kt inp = Some (0, kt') \<and> kt_fixedOutputLength kt' = kt_fixedOutputLength kt \<and>
    chain_ok kt' (fst (leaves_in F inp)) (b + length inp div chunkSize) (snd (leaves_in F inp))"
  using assms
proof (induction "length inp" arbitrary: kt F b inp rule: less_induct)
  case less
  show ?case
  proof (cases "inp = []")
    case True
    then show ?thesis using less.prems by (simp add: update_chunks.simps)
  next
    case False
    define len where "len = (if length inp < chunkSize then length inp else chunkSize)"
    then have len: "length (take len inp) + 200 < 2 ^ 32" by (simp add: chunkSize_def)
    obtain q where q: "SpongeInitialize k12_rate capacity (kt_queueNode kt) = (0, q)" "node_ok q []"
      using node_init by blast
    obtain q' where q': "absorb_queue (kt\<lparr>kt_queueNode := q\<rparr>) (take len inp) = Some (0, kt\<lparr>kt_queueNode := q'\<rparr>)"
        "node_ok q' (take len inp)"
      using absorb_queue_ok [of "kt\<lparr>kt_queueNode := q\<rparr>" "[]" "take len inp"] q(2) len by auto
    show ?thesis
    proof (cases "length inp < chunkSize")
      case True
      then have "update_chunks kt inp = Some (0, kt\<lparr>kt_queueNode := q', kt_queueAbsorbedLen := length inp\<rparr>)"
        using False q q' by (simp add: update_chunks.simps [of kt inp] update_chunks.simps [of _ "[]"] len_def)
      then show ?thesis using True less.prems q' by (simp add: chain_ok_def len_def)
    next
      case long: False
      define kt1 where "kt1 = kt\<lparr>kt_queueNode := q', kt_blockNumber := kt_blockNumber kt + 1\<rparr>"
      obtain q2 node where leaf: "close_leaf kt1 = Some (0, kt1\<lparr>kt_queueNode := q2, kt_finalNode := node\<rparr>)"
          "node_ok node (F @ chaining_value (take chunkSize inp))"
        using close_leaf_ok [of kt1 "take chunkSize inp" F] q'(2) less.prems long
        by (auto simp: kt1_def chain_ok_def len_def)
      define kt2 where "kt2 = kt1\<lparr>kt_queueNode := q2, kt_finalNode := node\<rparr>"
      have "update_chunks kt inp = update_chunks kt2 (drop chunkSize inp)"
        using False long q q' leaf by (subst update_chunks.simps) (simp add: len_def kt1_def kt2_def)
      moreover have "chain_ok kt2 (F @ chaining_value (take chunkSize inp)) (b + 1) []"
        using leaf(2) less.prems by (simp add: chain_ok_def kt2_def kt1_def)
      moreover have "length (drop chunkSize inp) < length inp" using False by simp
      ultimately show ?thesis
        using less.hyps [of "drop chunkSize inp" kt2 "F @ chaining_value (take chunkSize inp)" "b + 1"] long
        by (simp add: absorb_step le_div_geq kt2_def kt1_def)
    qed
  qed
qed

lemma update_queue_ok:
  assumes c: "chain_ok kt F b rest" and "rest \<noteq> []" "length rest < chunkSize"
  shows "\<exists>kt' inp'. update_queue kt inp = Some (0, kt', inp') \<and> kt_fixedOutputLength kt' = kt_fixedOutputLength kt \<and>
    (if length rest + length inp < chunkSize then inp' = [] \<and> chain_ok kt' F b (rest @ inp)
     else inp' = drop (chunkSize - length rest) inp \<and>
       chain_ok kt' (F @ chaining_value (rest @ take (chunkSize - length rest) inp)) (b + 1) [])"
proof -
  define len where "len = chunk_room kt inp"
  then have len: "length (take len inp) + 200 < 2 ^ 32" by (auto simp: chunkSize_def chunk_room_def)
  have len_eq: "len = (if length rest + length inp < chunkSize then length inp else chunkSize - length rest)"
    using c assms(3) by (auto simp: len_def chunk_room_def chain_ok_def)
  obtain q where q: "absorb_queue kt (take len inp) = Some (0, kt\<lparr>kt_queueNode := q\<rparr>)" "node_ok q (rest @ take len inp)"
    using absorb_queue_ok [of kt rest "take len inp"] c assms(2) len by (auto simp: chain_ok_def)
  show ?thesis
  proof (cases "length rest + length inp < chunkSize")
    case True
    then have "update_queue kt inp = Some (0, kt\<lparr>kt_queueNode := q, kt_queueAbsorbedLen := length rest + length inp\<rparr>, [])"
      using q c len_eq by (simp add: update_queue_def len_def [symmetric] chain_ok_def Let_def)
    then show ?thesis using True q(2) c len_eq by (simp add: chain_ok_def)
  next
    case False
    define kt1 where "kt1 = kt\<lparr>kt_queueNode := q, kt_queueAbsorbedLen := 0, kt_blockNumber := b + 1\<rparr>"
    obtain q2 node where leaf: "close_leaf kt1 = Some (0, kt1\<lparr>kt_queueNode := q2, kt_finalNode := node\<rparr>)"
        "node_ok node (F @ chaining_value (rest @ take len inp))"
      using close_leaf_ok [of kt1 "rest @ take len inp" F] q(2) c by (auto simp: kt1_def chain_ok_def)
    have "update_queue kt inp = Some (0, kt1\<lparr>kt_queueNode := q2, kt_finalNode := node\<rparr>, drop len inp)"
      using q c len_eq False assms(3) leaf(1)
      by (simp add: update_queue_def len_def [symmetric] chain_ok_def Let_def kt1_def)
    then show ?thesis using False leaf(2) c len_eq by (simp add: chain_ok_def kt1_def)
  qed
qed

lemma update_first_ok:
  assumes r: "kt_repr kt m" and "length m \<le> chunkSize"
  shows "\<exists>kt' inp'. update_first kt inp = Some (0, kt', inp') \<and> kt_fixedOutputLength kt' = kt_fixedOutputLength kt \<and>
    (if length m + length inp \<le> chunkSize then inp' = [] \<and> kt_repr kt' (m @ inp)
     else inp' = drop (chunkSize - length m) inp \<and> chain_ok kt' (first_chunk (take chunkSize (m @ inp))) 1 [])"
proof -
  define len where "len = chunk_room kt inp"
  then have len: "length (take len inp) + 200 < 2 ^ 32" by (auto simp: chunkSize_def chunk_room_def)
  have k: "kt_phase kt = ABSORBING" "kt_blockNumber kt = 0" "kt_queueAbsorbedLen kt = length m" "node_ok (kt_finalNode kt) m"
    using r assms(2) by (simp_all add: kt_repr_def)
  have len_eq: "len = (if length m + length inp \<le> chunkSize then length inp else chunkSize - length m)"
    using k assms(2) by (auto simp: len_def chunk_room_def)
  obtain node where n: "absorb_final kt (take len inp) = Some (0, kt\<lparr>kt_finalNode := node\<rparr>)" "node_ok node (m @ take len inp)"
    using absorb_final_ok [of kt m "take len inp"] k(4) len by auto
  show ?thesis
  proof (cases "length m + length inp \<le> chunkSize")
    case True
    then have "update_first kt inp = Some (0, kt\<lparr>kt_finalNode := node, kt_queueAbsorbedLen := length m + length inp\<rparr>, [])"
      using n k len_eq by (simp add: update_first_def len_def [symmetric] Let_def)
    then show ?thesis using True n(2) k len_eq by (simp add: kt_repr_def)
  next
    case False
    define kt1 where "kt1 = kt\<lparr>kt_finalNode := node, kt_queueAbsorbedLen := 0, kt_blockNumber := 1\<rparr>"
    define c where "c = m @ take len inp"
    have c: "length c = 8192" "c = take chunkSize (m @ inp)"
      using False len_eq assms(2) by (simp_all add: c_def chunkSize_def)
    obtain node2 where n2: "absorb_final kt1 [3] = Some (0, kt1\<lparr>kt_finalNode := node2\<rparr>)" "node_ok node2 (c @ [3])"
      using absorb_final_ok [of kt1 c "[3]"] n(2) by (auto simp: kt1_def c_def)
    define node3 where "node3 = node2\<lparr>ki_byteIOIndex := (ki_byteIOIndex node2 + 7) AND NOT 7\<rparr>"
    have n3: "node_ok node3 (first_chunk c)"
      using node_align [OF n2(2) c(1)] by (simp add: node3_def first_chunk_def)
    have "update_first kt inp = Some (0, kt1\<lparr>kt_finalNode := node3\<rparr>, drop len inp)"
      using n k len_eq False assms(2) n2(1)
      by (simp add: update_first_def len_def [symmetric] Let_def kt1_def node3_def)
    then show ?thesis using False n3 k len_eq c(2) by (simp add: chain_ok_def kt1_def)
  qed
qed

lemma Update_chain:
  assumes c: "chain_ok kt F b rest" and "length rest < chunkSize" and "b \<noteq> 0"
  shows "\<exists>kt'. KangarooTwelve_Update kt inp = Some (0, kt') \<and> kt_fixedOutputLength kt' = kt_fixedOutputLength kt \<and>
    chain_ok kt' (fst (leaves_in F (rest @ inp))) (b + length (rest @ inp) div chunkSize) (snd (leaves_in F (rest @ inp)))"
proof (cases "rest = []")
  case True
  then have "KangarooTwelve_Update kt inp = update_chunks kt inp"
    using c assms(3) by (auto simp: KangarooTwelve_Update_def chain_ok_def)
  then show ?thesis using update_chunks_ok [of kt F b inp] c True by simp
next
  case False
  obtain kt1 inp1 where u: "update_queue kt inp = Some (0, kt1, inp1)" "kt_fixedOutputLength kt1 = kt_fixedOutputLength kt"
    and u1: "if length rest + length inp < chunkSize then inp1 = [] \<and> chain_ok kt1 F b (rest @ inp)
      else inp1 = drop (chunkSize - length rest) inp \<and>
        chain_ok kt1 (F @ chaining_value (rest @ take (chunkSize - length rest) inp)) (b + 1) []"
    using update_queue_ok [OF c False assms(2), of inp] by blast
  have up: "KangarooTwelve_Update kt inp = update_chunks kt1 inp1"
    using c u(1) assms(3) False by (auto simp: KangarooTwelve_Update_def chain_ok_def)
  show ?thesis
  proof (cases "length rest + length inp < chunkSize")
    case True
    then show ?thesis using up u1 u(2) by (simp add: update_chunks.simps)
  next
    case long: False
    let ?c = "take chunkSize (rest @ inp)"
    have "chain_ok kt1 (F @ chaining_value ?c) (b + 1) []" "inp1 = drop chunkSize (rest @ inp)"
      using long u1 assms(2) by simp_all
    moreover have "leaves_in F (rest @ inp) = leaves_in (F @ chaining_value ?c) (drop chunkSize (rest @ inp))"
      using long by (intro absorb_step) simp_all
    moreover have "length (rest @ inp) div chunkSize = 1 + length (drop chunkSize (rest @ inp)) div chunkSize"
      using long assms(2) by (simp add: le_div_geq add.commute)
    ultimately show ?thesis
      using update_chunks_ok [of kt1 "F @ chaining_value ?c" "b + 1" inp1] up u(2) by (simp only:) simp
  qed
qed

lemma div_add_mod:
  fixes c x l :: nat
  assumes "0 < c"
  shows "x div c + (x mod c + l) div c = (x + l) div c"
proof -
  have "(x + l) div c = ((x mod c + l) + x div c * c) div c"
    using div_mult_mod_eq [of x c] by (simp add: ac_simps)
  also have "\<dots> = x div c + (x mod c + l) div c"
    using assms by (intro div_mult_self1) simp
  finally show ?thesis by simp
qed

text \<open>The invariant: after any calls of \<open>Update\<close> the instance stands for what they were given.\<close>

lemma Update_repr:
  assumes r: "kt_repr kt m"
  shows "\<exists>kt'. KangarooTwelve_Update kt inp = Some (0, kt') \<and> kt_fixedOutputLength kt' = kt_fixedOutputLength kt \<and> kt_repr kt' (m @ inp)"
proof (cases "length m \<le> chunkSize")
  case True
  obtain kt1 inp1 where u: "update_first kt inp = Some (0, kt1, inp1)" "kt_fixedOutputLength kt1 = kt_fixedOutputLength kt"
    and u1: "if length m + length inp \<le> chunkSize then inp1 = [] \<and> kt_repr kt1 (m @ inp)
      else inp1 = drop (chunkSize - length m) inp \<and> chain_ok kt1 (first_chunk (take chunkSize (m @ inp))) 1 []"
    using update_first_ok [OF r True, of inp] by blast
  have up: "KangarooTwelve_Update kt inp = update_chunks kt1 inp1"
    using r u(1) True by (simp add: KangarooTwelve_Update_def kt_repr_def)
  show ?thesis
  proof (cases "length m + length inp \<le> chunkSize")
    case True
    then show ?thesis using up u1 u(2) by (simp add: update_chunks.simps)
  next
    case False
    with u1 True have "chain_ok kt1 (first_chunk (take chunkSize (m @ inp))) 1 []" "inp1 = drop chunkSize (m @ inp)"
      by simp_all
    then obtain kt' where "update_chunks kt1 inp1 = Some (0, kt')" "kt_fixedOutputLength kt' = kt_fixedOutputLength kt1"
        "chain_ok kt' (fst (leaves_in (first_chunk (take chunkSize (m @ inp))) (drop chunkSize (m @ inp))))
          (1 + length (drop chunkSize (m @ inp)) div chunkSize)
          (snd (leaves_in (first_chunk (take chunkSize (m @ inp))) (drop chunkSize (m @ inp))))"
      using update_chunks_ok [of kt1 "first_chunk (take chunkSize (m @ inp))" 1 inp1] by blast
    then have "kt_repr kt' (m @ inp)"
      using False unfolding kt_repr_def length_append [symmetric] length_drop split_beta Let_def by (simp only: if_False)
    then show ?thesis using up u(2) \<open>update_chunks kt1 inp1 = Some (0, kt')\<close> \<open>kt_fixedOutputLength kt' = _\<close> by simp
  qed
next
  case False
  define F where "F = first_chunk (take chunkSize m)"
  define G where "G = leaves_in F (drop chunkSize m)"
  define b where "b = 1 + (length m - chunkSize) div chunkSize"
  have "chain_ok kt (fst G) b (snd G)"
    using r False by (simp add: kt_repr_def G_def F_def b_def split_beta)
  moreover have "length (snd G) < chunkSize"
    using absorb_rest_less [of chunkSize 0] by (simp add: G_def)
  ultimately obtain kt' where kt': "KangarooTwelve_Update kt inp = Some (0, kt')" "kt_fixedOutputLength kt' = kt_fixedOutputLength kt"
      "chain_ok kt' (fst (leaves_in (fst G) (snd G @ inp))) (b + length (snd G @ inp) div chunkSize) (snd (leaves_in (fst G) (snd G @ inp)))"
    using Update_chain [of kt "fst G" b "snd G" inp] by (auto simp: b_def)
  have "leaves_in (fst G) (snd G @ inp) = leaves_in F (drop chunkSize (m @ inp))"
    using absorb_append [of chunkSize 0 _ F "drop chunkSize m" inp] False by (simp add: G_def)
  moreover have "b + length (snd G @ inp) div chunkSize = 1 + (length (m @ inp) - chunkSize) div chunkSize"
  proof -
    have "length (snd G) = (length m - chunkSize) mod chunkSize"
      using absorb_rest_length [of chunkSize _ F "drop chunkSize m"] by (simp add: G_def)
    moreover have "length (m @ inp) - chunkSize = (length m - chunkSize) + length inp" using False by simp
    ultimately show ?thesis
      using div_add_mod [of chunkSize "length m - chunkSize" "length inp"] by (simp add: b_def)
  qed
  ultimately show ?thesis using kt' False by (auto simp: kt_repr_def F_def split_beta)
qed

section \<open>Final\<close>

lemma encode_size_le: "n \<le> 8 \<Longrightarrow> encode_size v n \<le> 8"
  by (induction v n rule: encode_size.induct) (subst encode_size.simps, simp)

lemma length_right_encode: "length (right_encode v) \<le> 9"
  using encode_size_le [of 0 v] by (simp add: right_encode_def Let_def)

lemma final_chain_ok:
  assumes r: "kt_repr kt m" and long: "chunkSize < length m"
  shows "\<exists>kt'. final_chain kt = Some (0, kt') \<and> kt_fixedOutputLength kt' = kt_fixedOutputLength kt \<and>
    node_ok (kt_finalNode kt') (first_chunk (take chunkSize m) @ concat (map chaining_value (chunks (drop chunkSize m))) @
      right_encode (of_nat (length (chunks (drop chunkSize m)))) @ [0xFF, 0xFF])"
proof -
  obtain cs rest where l: "leaves_in (first_chunk (take chunkSize m)) (drop chunkSize m) =
        (first_chunk (take chunkSize m) @ concat (map chaining_value cs), rest)"
      "chunks (drop chunkSize m) = cs @ (if rest = [] then [] else [rest])"
      "length cs = (length m - chunkSize) div chunkSize"
    using leaves_in_chunks [of "first_chunk (take chunkSize m)" "drop chunkSize m"] by auto
  define F where "F = first_chunk (take chunkSize m) @ concat (map chaining_value cs)"
  have c: "chain_ok kt F (1 + length cs) rest"
    using r long l(1,3) by (simp add: kt_repr_def F_def)
  define enc where "enc = right_encode (of_nat (length (chunks (drop chunkSize m)))) @ [0xFF, 0xFF :: u8]"
  have enc: "length enc + 200 < 2 ^ 32"
    using length_right_encode [of "of_nat (length (chunks (drop chunkSize m)))"] by (simp add: enc_def)
  obtain kt1 where k1: "(if kt_queueAbsorbedLen kt \<noteq> 0 then close_leaf (kt\<lparr>kt_blockNumber := kt_blockNumber kt + 1\<rparr>) else Some (0, kt)) = Some (0, kt1)"
      "kt_fixedOutputLength kt1 = kt_fixedOutputLength kt" "kt_blockNumber kt1 = 1 + length (chunks (drop chunkSize m))"
      "node_ok (kt_finalNode kt1) (first_chunk (take chunkSize m) @ concat (map chaining_value (chunks (drop chunkSize m))))"
  proof (cases "rest = []")
    case True
    then show ?thesis using that [of kt] c l(2) by (simp add: chain_ok_def F_def)
  next
    case False
    let ?kt = "kt\<lparr>kt_blockNumber := kt_blockNumber kt + 1\<rparr>"
    obtain q node where "close_leaf ?kt = Some (0, ?kt\<lparr>kt_queueNode := q, kt_finalNode := node\<rparr>)" "node_ok node (F @ chaining_value rest)"
      using close_leaf_ok [of ?kt rest F] c False by (auto simp: chain_ok_def)
    then show ?thesis
      using that [of "?kt\<lparr>kt_queueNode := q, kt_finalNode := node\<rparr>"] c l(2) False by (simp add: chain_ok_def F_def)
  qed
  define kt2 where "kt2 = kt1\<lparr>kt_blockNumber := kt_blockNumber kt1 - 1\<rparr>"
  have "node_ok (kt_finalNode kt2) (first_chunk (take chunkSize m) @ concat (map chaining_value (chunks (drop chunkSize m))))"
    using k1(4) by (simp add: kt2_def)
  then obtain node where "absorb_final kt2 enc = Some (0, kt2\<lparr>kt_finalNode := node\<rparr>)"
      "node_ok node ((first_chunk (take chunkSize m) @ concat (map chaining_value (chunks (drop chunkSize m)))) @ enc)"
    using absorb_final_ok [OF _ enc] by blast
  moreover have "final_chain kt = absorb_final kt2 enc"
    unfolding final_chain_def k1(1) using k1(3) by (simp add: kt2_def enc_def)
  ultimately show ?thesis using k1(2) by (simp add: kt2_def enc_def)
qed

text \<open>The customisation string and the encoding of its length follow the message.\<close>

definition k12_input :: "bytes \<Rightarrow> bytes \<Rightarrow> bytes" where
  "k12_input m c = m @ c @ right_encode (of_nat (length c))"

lemma chunks_Nil_iff: "chunks m = [] \<longleftrightarrow> m = []"
  by (subst chunks.simps) simp

lemma Final_spec:
  assumes r: "kt_repr kt m" and n: "kt_fixedOutputLength kt = n" "0 < n" "n + 200 < 2 ^ 32"
  shows "\<exists>kt'. KangarooTwelve_Final kt c = Some (0, k12_spec (k12_input m c) n, kt') \<and> kt_phase kt' = FINAL"
proof -
  define M where "M = k12_input m c"
  have absorbing: "\<And>kt m. kt_repr kt m \<Longrightarrow> kt_phase kt = ABSORBING"
    by (auto simp: kt_repr_def chain_ok_def split: if_splits prod.splits)
  obtain kt1 where k1: "(if c \<noteq> [] then KangarooTwelve_Update kt c else Some (0, kt)) = Some (0, kt1)"
      "kt_fixedOutputLength kt1 = n" "kt_repr kt1 (m @ c)"
    using Update_repr [OF r, of c] r n(1) by (cases "c = []") auto
  obtain kt2 where k2: "KangarooTwelve_Update kt1 (right_encode (of_nat (length c))) = Some (0, kt2)"
      "kt_fixedOutputLength kt2 = n" "kt_repr kt2 M"
    using Update_repr [OF k1(3), of "right_encode (of_nat (length c))"] k1(2) by (auto simp: M_def k12_input_def)
  define leaves where "leaves = chunks (drop chunkSize M)"
  define suffix :: u8 where "suffix = (if leaves = [] then 7 else 6)"
  define node where "node = (if leaves = [] then M else first_chunk (take chunkSize M) @ concat (map chaining_value leaves) @
      right_encode (of_nat (length leaves)) @ [0xFF, 0xFF])"
  have single: "leaves = [] \<longleftrightarrow> length M \<le> chunkSize" by (simp add: leaves_def chunks_Nil_iff)
  obtain kt3 where k3: "(if kt_blockNumber kt2 = 0 then Some (0, kt2, 7) else map_option (\<lambda>(e, kt). (e, kt, 6)) (final_chain kt2)) = Some (0, kt3, suffix)"
      "kt_fixedOutputLength kt3 = n" "node_ok (kt_finalNode kt3) node"
  proof (cases "leaves = []")
    case True
    then show ?thesis using that [of kt2] k2(2,3) single by (simp add: suffix_def node_def kt_repr_def)
  next
    case False
    then have long: "chunkSize < length M" using single by simp
    obtain kt' where "final_chain kt2 = Some (0, kt')" "kt_fixedOutputLength kt' = n" "node_ok (kt_finalNode kt') node"
      using final_chain_ok [OF k2(3) long] k2(2) False by (auto simp: node_def leaves_def)
    moreover have "kt_blockNumber kt2 \<noteq> 0"
      using k2(3) long by (auto simp: kt_repr_def chain_ok_def split: prod.splits)
    ultimately show ?thesis using that [of kt'] False by (simp add: suffix_def)
  qed
  have "suffix \<noteq> 0" by (simp add: suffix_def)
  then obtain f g where fg: "SpongeAbsorbLastFewBits P12 (kt_finalNode kt3) suffix = Some (0, f)"
      "SpongeSqueeze P12 f n = Some (0, sponge12 node suffix n, g)"
    using node_finish [OF k3(3) _ n(3)] by blast
  have "KangarooTwelve_Final kt c = Some (0, sponge12 node suffix n, kt3\<lparr>kt_phase := FINAL, kt_finalNode := g\<rparr>)"
    using absorbing [OF r] n(2) fg k3(2)
    unfolding KangarooTwelve_Final_def Let_def k1(1) k2(1) by (simp add: k2(1) k3(1))
  moreover have "sponge12 node suffix n = k12_spec M n"
    by (simp add: k12_spec_def leaves_def [symmetric] node_def suffix_def Let_def)
  ultimately show ?thesis by (simp add: M_def)
qed

text \<open>A message in pieces.\<close>

primrec update_pieces :: "KangarooTwelve_Instance \<Rightarrow> bytes list \<Rightarrow> KangarooTwelve_Instance option" where
  "update_pieces kt [] = Some kt"
| "update_pieces kt (d # ds) = do { (e, kt) \<leftarrow> KangarooTwelve_Update kt d; if e = 0 then update_pieces kt ds else None }"

lemma update_pieces_repr:
  "kt_repr kt m \<Longrightarrow> \<exists>kt'. update_pieces kt ds = Some kt' \<and> kt_fixedOutputLength kt' = kt_fixedOutputLength kt \<and> kt_repr kt' (m @ concat ds)"
proof (induction ds arbitrary: kt m)
  case (Cons d ds)
  obtain kt1 where "KangarooTwelve_Update kt d = Some (0, kt1)" "kt_fixedOutputLength kt1 = kt_fixedOutputLength kt" "kt_repr kt1 (m @ d)"
    using Update_repr [OF Cons.prems, of d] by blast
  with Cons.IH [of kt1 "m @ d"] show ?case by auto
qed simp

lemma Initialize_repr:
  "\<exists>kt. KangarooTwelve_Initialize kt0 n = (0, kt) \<and> kt_fixedOutputLength kt = n \<and> kt_repr kt []"
proof -
  obtain node where "SpongeInitialize k12_rate capacity (kt_finalNode kt0) = (0, node)" "node_ok node []"
    using node_init by blast
  then show ?thesis by (simp add: KangarooTwelve_Initialize_def kt_repr_def Let_def)
qed

lemma KangarooTwelve_one_shot:
  assumes "0 < n" and "n + 200 < 2 ^ 32"
  shows "KangarooTwelve kt m n c = Some (0, k12_spec (k12_input m c) n)"
proof -
  obtain k where k: "KangarooTwelve_Initialize kt n = (0, k)" "kt_fixedOutputLength k = n" "kt_repr k []"
    using Initialize_repr by blast
  obtain k' where k': "KangarooTwelve_Update k m = Some (0, k')" "kt_fixedOutputLength k' = n" "kt_repr k' m"
    using Update_repr [OF k(3), of m] k(2) by auto
  show ?thesis
    using Final_spec [OF k'(3,2) assms, of c] k k'(1) assms(1) by (auto simp: KangarooTwelve_def)
qed

text \<open>C16: KangarooTwelve is the tree hash: fed in any pieces, and finalised with any customisation string, the streaming
  calls all succeed, give what the one-shot function gives, and both are the definition of the hash over
  chunks, chaining values and the final node. A finalised instance refuses further data.\<close>

theorem KangarooTwelve_is_tree_hash:
  assumes "0 < n" and "n + 200 < 2 ^ 32"
  shows "\<exists>kt kt' kt''. KangarooTwelve_Initialize kt0 n = (0, kt) \<and> update_pieces kt ds = Some kt' \<and>
    KangarooTwelve_Final kt' c = Some (0, k12_spec (k12_input (concat ds) c) n, kt'') \<and>
    KangarooTwelve kt1 (concat ds) n c = Some (0, k12_spec (k12_input (concat ds) c) n) \<and>
    KangarooTwelve_Update kt'' d = Some (1, kt'') \<and> KangarooTwelve_Final kt'' d = Some (1, [], kt'')"
proof -
  obtain kt where kt: "KangarooTwelve_Initialize kt0 n = (0, kt)" "kt_fixedOutputLength kt = n" "kt_repr kt []"
    using Initialize_repr by blast
  obtain kt' where kt': "update_pieces kt ds = Some kt'" "kt_fixedOutputLength kt' = n" "kt_repr kt' (concat ds)"
    using update_pieces_repr [OF kt(3), of ds] kt(2) by auto
  obtain kt'' where kt'': "KangarooTwelve_Final kt' c = Some (0, k12_spec (k12_input (concat ds) c) n, kt'')" "kt_phase kt'' = FINAL"
    using Final_spec [OF kt'(3,2) assms] by blast
  note KangarooTwelve_one_shot [OF assms, of kt1 "concat ds" c]
  moreover have "KangarooTwelve_Update kt'' d = Some (1, kt'')" "KangarooTwelve_Final kt'' d = Some (1, [], kt'')"
    using kt''(2) by (simp_all add: KangarooTwelve_Update_def KangarooTwelve_Final_def)
  ultimately show ?thesis using kt(1) kt'(1) kt''(1) by blast
qed

theorem KangarooTwelve_is_tree_hash_witness:
  "\<exists>kt kt' kt''. KangarooTwelve_Initialize undefined 32 = (0, kt) \<and> update_pieces kt [[1], [2, 3]] = Some kt' \<and>
    KangarooTwelve_Final kt' [] = Some (0, k12_spec [1, 2, 3, 0] 32, kt'')"
proof -
  have "k12_input (concat [[1], [2, 3]]) [] = [1, 2, 3, 0]"
    by (simp add: k12_input_def right_encode_def encode_size.simps [of 0] Let_def)
  then show ?thesis
    using KangarooTwelve_is_tree_hash [of 32 undefined "[[1], [2, 3]]" "[]" undefined "[]"] by auto
qed

end
