(* ===== verification/YespowerRef.thy ===== *)
theory YespowerRef
  imports Salsa20 Pbkdf2
begin

text \<open>
  The reference yespower (\<open>randomx/panthera/yespower-ref.c\<close>): memory-hard mixing of 64-byte blocks with
  the Salsa20 core and the S-box network pwxform. Arrays of \<open>uint32_t\<close> are lists of words, the byte
  buffer \<open>B\<close> a list of bytes; the pointers \<open>S0\<close>, \<open>S1\<close>, \<open>S2\<close> are offsets into \<open>S\<close> in pairs of words.
  Loop counters and sizes, which stay small, are natural numbers.
\<close>

section \<open>Salsa20 and its block mixing\<close>

text \<open>Columns and rows, the statements of the loop body in their order.\<close>

definition ref_double_round :: "u32 list \<Rightarrow> u32 list" where
  "ref_double_round x = salsa_loop_body x"

definition ref_salsa20 :: "u32 list \<Rightarrow> nat \<Rightarrow> u32 list" where
  "ref_salsa20 B rounds =
    (let x = for_range 0 16 (\<lambda>x i. x[i * 5 mod 16 := B ! i]) (replicate 16 0);
         x = for_range 0 ((rounds + 1) div 2) (\<lambda>x _. ref_double_round x) x
     in for_range 0 16 (\<lambda>B i. B[i := B ! i + x ! (i * 5 mod 16)]) B)"

definition blkxor :: "u32 list \<Rightarrow> u32 list \<Rightarrow> u32 list" where
  "blkxor dst src = map2 (XOR) dst src"

definition ref_blockmix_salsa :: "u32 list \<Rightarrow> nat \<Rightarrow> u32 list" where
  "ref_blockmix_salsa B rounds =
    fst (for_range 0 2 (\<lambda>(B, X) i.
      let X = ref_salsa20 (blkxor X (sub (i * 16) 16 B)) rounds
      in (blit B (i * 16) X, X)) (B, sub 16 16 B))"

section \<open>pwxform\<close>

text \<open>The enumeration; the program may pass any other number.\<close>

definition YESPOWER_0_5 :: int where "YESPOWER_0_5 = 5"
definition YESPOWER_1_0 :: int where "YESPOWER_1_0 = 10"

definition Swidth_to_Sbytes1 :: "nat \<Rightarrow> nat" where
  "Swidth_to_Sbytes1 Swidth = 2 ^ Swidth * 2 * 8"

definition Swidth_to_Smask :: "nat \<Rightarrow> u32" where
  "Swidth_to_Smask Swidth = (push_bit Swidth 1 - 1) * 2 * 8"

record ref_ctx =
  rc_version :: int
  rc_salsa20_rounds :: nat
  rc_PWXrounds :: nat
  rc_Swidth :: nat
  rc_Sbytes :: nat
  rc_Smask :: u32
  rc_S :: "u32 list"
  rc_S0 :: nat
  rc_S1 :: nat
  rc_S2 :: nat
  rc_w :: nat

text \<open>\<open>((uint64_t)p[1] << 32) + p[0]\<close> of the pair \<open>p\<close>.\<close>

definition pair64 :: "u32 list \<Rightarrow> nat \<Rightarrow> u64" where
  "pair64 S p = push_bit 32 (ucast (S ! (2 * p + 1))) + ucast (S ! (2 * p))"

text \<open>\<open>X[j][k]\<close> is the pair \<open>2 * j + k\<close> of the block.\<close>

definition ref_pwx_simple :: "u32 list \<Rightarrow> nat \<Rightarrow> nat \<Rightarrow> nat \<Rightarrow> u32 list \<Rightarrow> nat \<Rightarrow> u32 list" where
  "ref_pwx_simple S p0 p1 j X k =
    (let s0 = pair64 S (p0 + k);
         s1 = pair64 S (p1 + k);
         xl = X ! (4 * j + 2 * k);
         xh = X ! (4 * j + 2 * k + 1);
         x = ucast xh * ucast xl;
         x = x + s0;
         x = x XOR s1
     in X[4 * j + 2 * k := ucast x, 4 * j + 2 * k + 1 := ucast (drop_bit 32 x)])"

definition store_pair :: "u32 list \<Rightarrow> nat \<Rightarrow> u32 list \<Rightarrow> nat \<Rightarrow> u32 list" where
  "store_pair S p X q = S[2 * p := X ! (2 * q), 2 * p + 1 := X ! (2 * q + 1)]"

definition ref_pwx_write :: "ref_ctx \<Rightarrow> nat \<Rightarrow> nat \<Rightarrow> u32 list \<Rightarrow> u32 list \<times> nat \<Rightarrow> u32 list \<times> nat" where
  "ref_pwx_write ctx i j X = (\<lambda>(S, w).
    if rc_version ctx \<noteq> YESPOWER_0_5 \<and> (i = 0 \<or> j < 2) then
      if odd j then for_range 0 2 (\<lambda>(S, w) k. (store_pair S (rc_S1 ctx + w) X (2 * j + k), w + 1)) (S, w)
      else (for_range 0 2 (\<lambda>S k. store_pair S (rc_S0 ctx + (w + k)) X (2 * j + k)) S, w)
    else (S, w))"

definition ref_pwx_gather :: "ref_ctx \<Rightarrow> nat \<Rightarrow> u32 list \<times> u32 list \<times> nat \<Rightarrow> nat \<Rightarrow> u32 list \<times> u32 list \<times> nat" where
  "ref_pwx_gather ctx i = (\<lambda>(X, S, w) j.
    let xl = X ! (4 * j);
        xh = X ! (4 * j + 1);
        p0 = rc_S0 ctx + unat (xl AND rc_Smask ctx) div 8;
        p1 = rc_S1 ctx + unat (xh AND rc_Smask ctx) div 8;
        X = for_range 0 2 (ref_pwx_simple S p0 p1 j) X
    in (X, ref_pwx_write ctx i j X (S, w)))"

definition ref_pwxform :: "u32 list \<Rightarrow> ref_ctx \<Rightarrow> u32 list \<times> ref_ctx" where
  "ref_pwxform B ctx =
    (let (X, S, w) = for_range 0 (rc_PWXrounds ctx) (\<lambda>st i. for_range 0 4 (ref_pwx_gather ctx i) st) (B, rc_S ctx, rc_w ctx);
         ctx = ctx\<lparr>rc_S := S\<rparr>
     in (X, if rc_version ctx \<noteq> YESPOWER_0_5
            then ctx\<lparr>rc_S0 := rc_S2 ctx, rc_S1 := rc_S0 ctx, rc_S2 := rc_S1 ctx, rc_w := w AND (2 ^ rc_Swidth ctx * 2 - 1)\<rparr>
            else ctx))"

definition ref_blockmix_turn :: "nat \<Rightarrow> u32 list \<times> u32 list \<times> ref_ctx \<Rightarrow> nat \<Rightarrow> u32 list \<times> u32 list \<times> ref_ctx" where
  "ref_blockmix_turn r1 = (\<lambda>(B, X, ctx) i.
    let X = (if 1 < r1 then blkxor X (sub (i * 16) 16 B) else X);
        (X, ctx) = ref_pwxform X ctx
    in (blit B (i * 16) X, X, ctx))"

definition ref_blockmix_pwxform :: "u32 list \<Rightarrow> ref_ctx \<Rightarrow> nat \<Rightarrow> u32 list \<times> ref_ctx" where
  "ref_blockmix_pwxform B ctx r =
    (let r1 = 128 * r div 64;
         (B, X, ctx) = for_range 0 r1 (ref_blockmix_turn r1) (B, sub ((r1 - 1) * 16) 16 B, ctx);
         i = (r1 - 1) * 64 div 64;
         B = blit B (i * 16) (ref_salsa20 (sub (i * 16) 16 B) (rc_salsa20_rounds ctx));
         B = for_range (i + 1) (2 * r) (\<lambda>B i.
               blit B (i * 16) (ref_salsa20 (blkxor (sub (i * 16) 16 B) (sub ((i - 1) * 16) 16 B)) (rc_salsa20_rounds ctx))) B
     in (B, ctx))"

section \<open>SMix\<close>

definition ref_integerify :: "u32 list \<Rightarrow> nat \<Rightarrow> u32" where
  "ref_integerify B r = B ! ((2 * r - 1) * 16)"

function p2floor :: "u32 \<Rightarrow> u32" where
  "p2floor x = (let y = x AND (x - 1) in if y \<noteq> 0 then p2floor y else x)"
  by pat_completeness auto
termination
proof (relation "measure unat", goal_cases)
  case (2 x y)
  then have "x \<noteq> 0" by auto
  then have "0 < unat x" by (simp add: unat_gt_0)
  moreover have "unat (x AND (x - 1)) \<le> unat (x - 1)"
    using word_and_le1 [of x "x - 1"] by (simp add: word_le_nat_alt)
  moreover have "unat (x - 1) = unat x - 1"
    using \<open>x \<noteq> 0\<close> by (rule unat_minus_one)
  ultimately show ?case using 2 by simp
qed simp

declare p2floor.simps [simp del]

definition wrap :: "u32 \<Rightarrow> u32 \<Rightarrow> u32" where
  "wrap x i = (let n = p2floor i in (x AND (n - 1)) + (i - n))"

text \<open>\<open>X <-- B\<close> and \<open>B' <-- X\<close>, with the words of each block shuffled.\<close>

definition ref_load :: "bytes \<Rightarrow> nat \<Rightarrow> u32 list" where
  "ref_load B r = concat (map (\<lambda>k. map (\<lambda>i. le32dec (sub (4 * (k * 16 + i * 5 mod 16)) 4 B)) [0..<16]) [0..<2 * r])"

definition ref_store :: "u32 list \<Rightarrow> bytes \<Rightarrow> nat \<Rightarrow> bytes" where
  "ref_store X B r = for_range 0 (2 * r) (\<lambda>B k. for_range 0 16 (\<lambda>B i. blit B (4 * (k * 16 + i * 5 mod 16)) (le32enc (X ! (k * 16 + i)))) B) B"

text \<open>One turn of the first loop; \<open>onS\<close> is the test \<open>V == ctx->S\<close>.\<close>

definition ref_smix1_turn :: "bool \<Rightarrow> nat \<Rightarrow> u32 list \<times> u32 list \<times> ref_ctx \<Rightarrow> nat \<Rightarrow> u32 list \<times> u32 list \<times> ref_ctx" where
  "ref_smix1_turn onS r = (\<lambda>(V, X, ctx) i.
    let s = 32 * r;
        V = blit V (i * s) X;
        X = (if 1 < i then blkxor X (sub (unat (wrap (ref_integerify X r) (of_nat i)) * s) s V) else X)
    in if \<not> onS then let (X, ctx) = ref_blockmix_pwxform X ctx r in (V, X, ctx)
       else (V, ref_blockmix_salsa X (rc_salsa20_rounds ctx), ctx))"

text \<open>\<open>for (k = 1; k < r; k++)\<close>: from version 1.0 on only the first block pair of \<open>B\<close> counts.\<close>

definition ref_expand :: "nat \<Rightarrow> u32 list \<times> ref_ctx \<Rightarrow> u32 list \<times> ref_ctx" where
  "ref_expand r = for_range 1 r (\<lambda>(X, ctx) k.
     let (Y, ctx) = ref_blockmix_pwxform (sub ((k - 1) * 32) 32 X) ctx 1 in (blit X (k * 32) Y, ctx))"

definition ref_smix1 :: "bool \<Rightarrow> bytes \<Rightarrow> nat \<Rightarrow> nat \<Rightarrow> u32 list \<Rightarrow> ref_ctx \<Rightarrow> bytes \<times> u32 list \<times> ref_ctx" where
  "ref_smix1 onS B r N V ctx =
    (let X = ref_load B r;
         (X, ctx) = (if rc_version ctx \<noteq> YESPOWER_0_5 then ref_expand r (X, ctx) else (X, ctx));
         (V, X, ctx) = for_range 0 N (ref_smix1_turn onS r) (V, X, ctx)
     in (ref_store X B r, V, ctx))"

definition ref_smix2_turn :: "nat \<Rightarrow> nat \<Rightarrow> nat \<Rightarrow> u32 list \<times> u32 list \<times> ref_ctx \<Rightarrow> nat \<Rightarrow> u32 list \<times> u32 list \<times> ref_ctx" where
  "ref_smix2_turn r N Nloop = (\<lambda>(V, X, ctx) i.
    let s = 32 * r;
        j = unat (ref_integerify X r AND (of_nat N - 1));
        X = blkxor X (sub (j * s) s V);
        V = (if Nloop \<noteq> 2 then blit V (j * s) X else V);
        (X, ctx) = ref_blockmix_pwxform X ctx r
    in (V, X, ctx))"

definition ref_smix2 :: "bytes \<Rightarrow> nat \<Rightarrow> nat \<Rightarrow> nat \<Rightarrow> u32 list \<Rightarrow> ref_ctx \<Rightarrow> bytes \<times> u32 list \<times> ref_ctx" where
  "ref_smix2 B r N Nloop V ctx =
    (let (V, X, ctx) = for_range 0 Nloop (ref_smix2_turn r N Nloop) (V, ref_load B r, ctx)
     in (ref_store X B r, V, ctx))"

text \<open>The numbers of turns of the second loop, with and without writing.\<close>

definition ref_Nloop :: "int \<Rightarrow> u32 \<Rightarrow> u32 \<times> u32" where
  "ref_Nloop version N =
    (let Nloop_all = (N + 2) div 3;
         Nloop_rw = Nloop_all;
         Nloop_all = (Nloop_all + 1) AND NOT 1;
         Nloop_rw = (if version = YESPOWER_0_5 then Nloop_rw AND NOT 1 else (Nloop_rw + 1) AND NOT 1)
     in (Nloop_all, Nloop_rw))"

definition ref_smix :: "bytes \<Rightarrow> nat \<Rightarrow> u32 \<Rightarrow> u32 list \<Rightarrow> ref_ctx \<Rightarrow> bytes" where
  "ref_smix B r N V ctx =
    (let (Nloop_all, Nloop_rw) = ref_Nloop (rc_version ctx) N;
         (B, S, ctx) = ref_smix1 True B 1 (rc_Sbytes ctx div 128) (rc_S ctx) ctx;
         ctx = ctx\<lparr>rc_S := S\<rparr>;
         (B, V, ctx) = ref_smix1 False B r (unat N) V ctx;
         (B, V, ctx) = ref_smix2 B r (unat N) (unat Nloop_rw) V ctx;
         (B, V, ctx) = ref_smix2 B r (unat N) (unat (Nloop_all - Nloop_rw)) V ctx
     in B)"

section \<open>yespower\<close>

record yespower_params_t =
  yp_version :: int
  yp_N :: u32
  yp_r :: u32
  yp_pers :: "bytes option"
  yp_perslen :: nat

text \<open>\<open>pers\<close> is the array a non-null pointer points to; its length is \<open>perslen\<close>.\<close>

definition ref_bad_params :: "yespower_params_t \<Rightarrow> bool" where
  "ref_bad_params p \<longleftrightarrow> (yp_version p \<noteq> YESPOWER_0_5 \<and> yp_version p \<noteq> YESPOWER_1_0) \<or>
     yp_N p < 1024 \<or> yp_N p > 512 * 1024 \<or> yp_r p < 8 \<or> yp_r p > 32 \<or>
     yp_N p AND (yp_N p - 1) \<noteq> 0 \<or> unat (yp_r p) < (64 + 127) div 128 \<or>
     (yp_pers p = None \<and> yp_perslen p \<noteq> 0)"

definition ref_init_ctx :: "int \<Rightarrow> u32 list \<Rightarrow> ref_ctx" where
  "ref_init_ctx version S =
    (let (rounds, PWXrounds, Swidth, boxes) = (if version = YESPOWER_0_5 then (8, 6, 8, 2) else (2, 3, 11, 3))
     in \<lparr>rc_version = version, rc_salsa20_rounds = rounds, rc_PWXrounds = PWXrounds, rc_Swidth = Swidth,
         rc_Sbytes = boxes * Swidth_to_Sbytes1 Swidth, rc_Smask = Swidth_to_Smask Swidth, rc_S = S,
         rc_S0 = 0, rc_S1 = 2 ^ Swidth * 2, rc_S2 = 2 ^ Swidth * 2 + 2 ^ Swidth * 2, rc_w = 0\<rparr>)"

text \<open>PBKDF2 with one iteration into \<open>n\<close> bytes of a buffer; the function does not fail for these lengths.\<close>

definition derive :: "bytes \<Rightarrow> bytes \<Rightarrow> bytes \<Rightarrow> bytes option" where
  "derive passwd salt buf = (case PBKDF2_SHA256 passwd salt 1 buf (length buf) of Some (Inr out) \<Rightarrow> Some out | _ \<Rightarrow> None)"

text \<open>
  What the four calls of \<open>malloc\<close> return: the contents of the fresh memory (those of \<open>X\<close> do not matter), or a
  failure. The result of \<open>yespower\<close> is the return value and \<open>dst\<close>.
\<close>

record ref_heap =
  malloc_V :: "nat \<Rightarrow> u32 list option"
  malloc_B :: "nat \<Rightarrow> bytes option"
  malloc_X :: "nat \<Rightarrow> bool"
  malloc_S :: "nat \<Rightarrow> u32 list option"

definition ref_yespower ::
    "ref_heap \<Rightarrow> bytes \<Rightarrow> yespower_params_t \<Rightarrow> (int \<times> bytes) option" where
  "ref_yespower heap src params =
    (let version = yp_version params; fail = Some (-1, replicate 32 0xff);
         B_size = 128 * unat (yp_r params); V_size = B_size * unat (yp_N params)
     in if ref_bad_params params then fail
        else case malloc_V heap V_size of None \<Rightarrow> fail
        | Some V \<Rightarrow> (case malloc_B heap B_size of None \<Rightarrow> fail
        | Some B \<Rightarrow> if \<not> malloc_X heap B_size then fail else (case malloc_S heap (rc_Sbytes (ref_init_ctx version [])) of None \<Rightarrow> fail
        | Some S \<Rightarrow>
          (let ctx = ref_init_ctx version S;
               sha256 = SHA256_Buf src;
               salt = (if version \<noteq> YESPOWER_0_5 then (case yp_pers params of Some pers \<Rightarrow> pers | None \<Rightarrow> []) else src)
           in case derive sha256 salt B of None \<Rightarrow> None
           | Some B \<Rightarrow>
             (let sha256 = take 32 B;
                  B = ref_smix B (unat (yp_r params)) (yp_N params) V ctx
              in if version = YESPOWER_0_5 then
                   (case derive sha256 B (replicate 32 0xff) of None \<Rightarrow> None
                    | Some dst \<Rightarrow> Some (0, case yp_pers params of
                        Some pers \<Rightarrow> SHA256_Buf (HMAC_SHA256_Buf dst pers) | None \<Rightarrow> dst))
                 else Some (0, HMAC_SHA256_Buf (sub (B_size - 64) 64 B) sha256))))))"

end
