(* ===== verification/YespowerOpt.thy ===== *)
theory YespowerOpt
  imports YespowerRef
begin

text \<open>
  The optimised yespower (\<open>randomx/panthera/yespower-opt.c\<close>, the version that is compiled), in its portable
  form. The file includes itself: pass 1 is version 0.5, pass 2 version 1.0, here the argument \<open>pass\<close>.
  The union \<open>salsa20_blk_t\<close> is the list of its 16 words \<open>w\<close>; its 64-bit words \<open>d\<close> are read and written as
  on a little-endian machine. The S-boxes are the words of the memory from the first S-box on, and \<open>S0\<close>,
  \<open>S1\<close>, \<open>S2\<close> and \<open>w\<close> are offsets in bytes.
\<close>

section \<open>Blocks\<close>

type_synonym salsa20_blk_t = "u32 list"

definition blk_d :: "salsa20_blk_t \<Rightarrow> nat \<Rightarrow> u64" where
  "blk_d B i = ucast (B ! (2 * i)) OR push_bit 32 (ucast (B ! (2 * i + 1)))"

definition set_d :: "salsa20_blk_t \<Rightarrow> nat \<Rightarrow> u64 \<Rightarrow> salsa20_blk_t" where
  "set_d B i v = B[2 * i := ucast v, 2 * i + 1 := ucast (drop_bit 32 v)]"

definition COMBINE :: "salsa20_blk_t \<Rightarrow> salsa20_blk_t \<Rightarrow> nat \<times> nat \<times> nat \<Rightarrow> salsa20_blk_t" where
  "COMBINE Bin Bout = (\<lambda>(out, in1, in2).
     set_d Bout out (ucast (Bin ! (in1 * 2)) OR push_bit 32 (ucast (Bin ! (in2 * 2 + 1)))))"

definition salsa20_simd_shuffle :: "salsa20_blk_t \<Rightarrow> salsa20_blk_t \<Rightarrow> salsa20_blk_t" where
  "salsa20_simd_shuffle Bin Bout = foldl (COMBINE Bin) Bout
     [(0, 0, 2), (1, 5, 7), (2, 2, 4), (3, 7, 1), (4, 4, 6), (5, 1, 3), (6, 6, 0), (7, 3, 5)]"

definition UNCOMBINE :: "salsa20_blk_t \<Rightarrow> salsa20_blk_t \<Rightarrow> nat \<times> nat \<times> nat \<Rightarrow> salsa20_blk_t" where
  "UNCOMBINE Bin Bout = (\<lambda>(out, in1, in2).
     Bout[out * 2 := ucast (blk_d Bin in1), out * 2 + 1 := ucast (drop_bit 32 (blk_d Bin in2))])"

definition salsa20_simd_unshuffle :: "salsa20_blk_t \<Rightarrow> salsa20_blk_t \<Rightarrow> salsa20_blk_t" where
  "salsa20_simd_unshuffle Bin Bout = foldl (UNCOMBINE Bin) Bout
     [(0, 0, 6), (1, 5, 3), (2, 2, 0), (3, 7, 5), (4, 4, 2), (5, 1, 7), (6, 6, 4), (7, 3, 1)]"

definition XOR_blk :: "salsa20_blk_t \<Rightarrow> salsa20_blk_t \<Rightarrow> salsa20_blk_t \<Rightarrow> salsa20_blk_t" where
  "XOR_blk out in1 in2 = for_range 0 8 (\<lambda>out i. set_d out i (blk_d in1 i XOR blk_d in2 i)) out"

section \<open>Salsa20\<close>

text \<open>Columns and rows, the statements of the loop body in their order.\<close>

definition opt_double_round :: "u32 list \<Rightarrow> u32 list" where
  "opt_double_round x = salsa_loop_body x"

text \<open>
  \<open>do ... while (--doublerounds)\<close>, for at least one double round. \<open>Bout\<close> is what the output held; the block
  and the output end up equal.
\<close>

definition opt_salsa20 :: "salsa20_blk_t \<Rightarrow> salsa20_blk_t \<Rightarrow> nat \<Rightarrow> salsa20_blk_t \<times> salsa20_blk_t" where
  "opt_salsa20 B Bout doublerounds =
    (let X = salsa20_simd_unshuffle B (replicate 16 0);
         X = for_range 0 doublerounds (\<lambda>x _. opt_double_round x) X;
         Bout = salsa20_simd_shuffle X Bout
     in for_range 0 16 (\<lambda>(B, Bout) i. let Bout = Bout[i := Bout ! i + B ! i] in (B[i := Bout ! i], Bout)) (B, Bout))"

definition SALSA20 :: "nat \<Rightarrow> salsa20_blk_t \<Rightarrow> salsa20_blk_t \<Rightarrow> salsa20_blk_t \<times> salsa20_blk_t" where
  "SALSA20 pass X out = opt_salsa20 X out (if pass = 1 then 4 else 1)"

definition SALSA20_XOR_MEM :: "nat \<Rightarrow> salsa20_blk_t \<Rightarrow> salsa20_blk_t \<Rightarrow> salsa20_blk_t \<Rightarrow> salsa20_blk_t \<times> salsa20_blk_t" where
  "SALSA20_XOR_MEM pass X inp out = SALSA20 pass (XOR_blk X X inp) out"

definition INTEGERIFY :: "salsa20_blk_t \<Rightarrow> u32" where
  "INTEGERIFY X = ucast (blk_d X 0)"

definition opt_blockmix_salsa :: "nat \<Rightarrow> salsa20_blk_t list \<Rightarrow> salsa20_blk_t list \<Rightarrow> salsa20_blk_t list" where
  "opt_blockmix_salsa pass Bin Bout =
    (let X = Bin ! 1;
         (X, out) = SALSA20_XOR_MEM pass X (Bin ! 0) (Bout ! 0); Bout = Bout[0 := out];
         (X, out) = SALSA20_XOR_MEM pass X (Bin ! 1) (Bout ! 1); Bout = Bout[1 := out]
     in Bout)"

text \<open>The local \<open>X\<close> is not initialised before \<open>XOR_X_2\<close> writes it.\<close>

definition XOR_X_2 :: "salsa20_blk_t \<Rightarrow> salsa20_blk_t \<Rightarrow> salsa20_blk_t" where
  "XOR_X_2 in1 in2 = XOR_blk (replicate 16 0) in1 in2"

definition opt_blockmix_salsa_xor ::
    "nat \<Rightarrow> salsa20_blk_t list \<Rightarrow> salsa20_blk_t list \<Rightarrow> salsa20_blk_t list \<Rightarrow> salsa20_blk_t list \<times> u32" where
  "opt_blockmix_salsa_xor pass Bin1 Bin2 Bout =
    (let X = XOR_X_2 (Bin1 ! 1) (Bin2 ! 1);
         X = XOR_blk X X (Bin1 ! 0);
         (X, out) = SALSA20_XOR_MEM pass X (Bin2 ! 0) (Bout ! 0); Bout = Bout[0 := out];
         X = XOR_blk X X (Bin1 ! 1);
         (X, out) = SALSA20_XOR_MEM pass X (Bin2 ! 1) (Bout ! 1); Bout = Bout[1 := out]
     in (Bout, INTEGERIFY X))"

section \<open>pwxform\<close>

record opt_ctx =
  oc_S :: "u32 list"
  oc_S0 :: nat
  oc_S1 :: nat
  oc_S2 :: nat
  oc_w :: nat
  oc_Sbytes :: nat

definition Smask_to_Smask2 :: "u32 \<Rightarrow> u64" where
  "Smask_to_Smask2 Smask = push_bit 32 (ucast Smask) OR ucast Smask"

definition Smask2 :: "nat \<Rightarrow> u64" where
  "Smask2 pass = Smask_to_Smask2 (Swidth_to_Smask (if pass = 1 then 8 else 11))"

text \<open>The 64-bit word at a byte offset.\<close>

definition S_read :: "u32 list \<Rightarrow> nat \<Rightarrow> u64" where
  "S_read S p = ucast (S ! (p div 4)) OR push_bit 32 (ucast (S ! (p div 4 + 1)))"

definition S_write :: "u32 list \<Rightarrow> nat \<Rightarrow> u64 \<Rightarrow> u32 list" where
  "S_write S p v = S[p div 4 := ucast v, p div 4 + 1 := ucast (drop_bit 32 v)]"

definition low32 :: "u64 \<Rightarrow> u64" where
  "low32 x = ucast (ucast x :: u32)"

definition PWXFORM_SIMD :: "nat \<Rightarrow> opt_ctx \<Rightarrow> u64 \<times> u64 \<Rightarrow> u64 \<times> u64" where
  "PWXFORM_SIMD pass c = (\<lambda>(x0, x1).
    let x = x0 AND Smask2 pass;
        p0 = oc_S0 c + unat (low32 x);
        p1 = oc_S1 c + unat (drop_bit 32 x)
    in ((drop_bit 32 x0 * low32 x0 + S_read (oc_S c) p0) XOR S_read (oc_S c) p1,
        (drop_bit 32 x1 * low32 x1 + S_read (oc_S c) (p0 + 8)) XOR S_read (oc_S c) (p1 + 8)))"

text \<open>The macro on the 64-bit words \<open>2 * j\<close> and \<open>2 * j + 1\<close> of \<open>X\<close>, and its variant that writes an S-box.\<close>

definition pwx_simd :: "nat \<Rightarrow> nat \<Rightarrow> salsa20_blk_t \<times> opt_ctx \<Rightarrow> salsa20_blk_t \<times> opt_ctx" where
  "pwx_simd pass j = (\<lambda>(X, c).
    let (x0, x1) = PWXFORM_SIMD pass c (blk_d X (2 * j), blk_d X (2 * j + 1))
    in (set_d (set_d X (2 * j) x0) (2 * j + 1) x1, c))"

definition pwx_simd_write :: "nat \<Rightarrow> nat \<Rightarrow> (opt_ctx \<Rightarrow> nat) \<Rightarrow> salsa20_blk_t \<times> opt_ctx \<Rightarrow> salsa20_blk_t \<times> opt_ctx" where
  "pwx_simd_write pass j Sw = (\<lambda>(X, c).
    let (X, c) = pwx_simd pass j (X, c);
        S = S_write (oc_S c) (Sw c + oc_w c) (blk_d X (2 * j));
        S = S_write S (Sw c + oc_w c + 8) (blk_d X (2 * j + 1))
    in (X, c\<lparr>oc_S := S\<rparr>))"

definition w_next :: "salsa20_blk_t \<times> opt_ctx \<Rightarrow> salsa20_blk_t \<times> opt_ctx" where
  "w_next = (\<lambda>(X, c). (X, c\<lparr>oc_w := oc_w c + 16\<rparr>))"

definition PWXFORM_ROUND :: "nat \<Rightarrow> salsa20_blk_t \<times> opt_ctx \<Rightarrow> salsa20_blk_t \<times> opt_ctx" where
  "PWXFORM_ROUND pass st = pwx_simd pass 3 (pwx_simd pass 2 (pwx_simd pass 1 (pwx_simd pass 0 st)))"

definition PWXFORM_ROUND_WRITE4 :: "nat \<Rightarrow> salsa20_blk_t \<times> opt_ctx \<Rightarrow> salsa20_blk_t \<times> opt_ctx" where
  "PWXFORM_ROUND_WRITE4 pass st =
    w_next (pwx_simd_write pass 3 oc_S1 (pwx_simd_write pass 2 oc_S0
      (w_next (pwx_simd_write pass 1 oc_S1 (pwx_simd_write pass 0 oc_S0 st)))))"

definition PWXFORM_ROUND_WRITE2 :: "nat \<Rightarrow> salsa20_blk_t \<times> opt_ctx \<Rightarrow> salsa20_blk_t \<times> opt_ctx" where
  "PWXFORM_ROUND_WRITE2 pass st =
    pwx_simd pass 3 (pwx_simd pass 2 (w_next (pwx_simd_write pass 1 oc_S1 (pwx_simd_write pass 0 oc_S0 st))))"

definition PWXFORM :: "nat \<Rightarrow> salsa20_blk_t \<Rightarrow> opt_ctx \<Rightarrow> salsa20_blk_t \<times> opt_ctx" where
  "PWXFORM pass X c =
    (if pass = 1 then for_range 0 6 (\<lambda>st _. PWXFORM_ROUND pass st) (X, c)
     else let (X, c) = PWXFORM_ROUND_WRITE2 pass (PWXFORM_ROUND_WRITE2 pass (PWXFORM_ROUND_WRITE4 pass (X, c)));
              c = c\<lparr>oc_w := unat (of_nat (oc_w c) AND Smask2 pass)\<rparr>
          in (X, c\<lparr>oc_S2 := oc_S1 c, oc_S1 := oc_S0 c, oc_S0 := oc_S2 c\<rparr>))"

section \<open>Block mixing\<close>

text \<open>The \<open>do\<close> loops: index, block, output and context when they break.\<close>

function opt_blockmix_loop ::
    "nat \<Rightarrow> salsa20_blk_t list \<Rightarrow> nat \<Rightarrow> nat \<Rightarrow> salsa20_blk_t \<Rightarrow> salsa20_blk_t list \<Rightarrow> opt_ctx \<Rightarrow> nat \<times> salsa20_blk_t \<times> salsa20_blk_t list \<times> opt_ctx" where
  "opt_blockmix_loop pass Bin r i X Bout c =
    (let (X, c) = PWXFORM pass (XOR_blk X X (Bin ! i)) c
     in if r \<le> i then (i, X, Bout, c) else opt_blockmix_loop pass Bin r (i + 1) X (Bout[i := X]) c)"
  by pat_completeness auto
termination
  by (relation "measure (\<lambda>(pass, Bin, r, i, X, Bout, c). r - i)") auto

declare opt_blockmix_loop.simps [simp del]

text \<open>The context is a null pointer when the S-boxes are filled.\<close>

definition opt_blockmix ::
    "nat \<Rightarrow> salsa20_blk_t list \<Rightarrow> salsa20_blk_t list \<Rightarrow> nat \<Rightarrow> opt_ctx option \<Rightarrow> salsa20_blk_t list \<times> opt_ctx option" where
  "opt_blockmix pass Bin Bout r ctx = (case ctx of
     None \<Rightarrow> (opt_blockmix_salsa pass Bin Bout, None)
   | Some c \<Rightarrow>
       (let r = r * 2 - 1;
            (i, X, Bout, c) = opt_blockmix_loop pass Bin r 0 (Bin ! r) Bout c;
            (X, out) = SALSA20 pass X (Bout ! i)
        in (Bout[i := out], Some c)))"

function opt_blockmix_xor_loop ::
    "nat \<Rightarrow> salsa20_blk_t list \<Rightarrow> salsa20_blk_t list \<Rightarrow> nat \<Rightarrow> nat \<Rightarrow> salsa20_blk_t \<Rightarrow> salsa20_blk_t list \<Rightarrow> opt_ctx \<Rightarrow> nat \<times> salsa20_blk_t \<times> salsa20_blk_t list \<times> opt_ctx" where
  "opt_blockmix_xor_loop pass Bin1 Bin2 r i X Bout c =
    (let X = XOR_blk X X (Bin1 ! i);
         X = XOR_blk X X (Bin2 ! i);
         (X, c) = PWXFORM pass X c;
         Bout = Bout[i := X];
         X = XOR_blk X X (Bin1 ! (i + 1));
         X = XOR_blk X X (Bin2 ! (i + 1));
         (X, c) = PWXFORM pass X c
     in if r \<le> i then (i, X, Bout, c) else opt_blockmix_xor_loop pass Bin1 Bin2 r (i + 2) X (Bout[i + 1 := X]) c)"
  by pat_completeness auto
termination
  by (relation "measure (\<lambda>(pass, Bin1, Bin2, r, i, X, Bout, c). r - i)") auto

declare opt_blockmix_xor_loop.simps [simp del]

definition opt_blockmix_xor ::
    "nat \<Rightarrow> salsa20_blk_t list \<Rightarrow> salsa20_blk_t list \<Rightarrow> salsa20_blk_t list \<Rightarrow> nat \<Rightarrow> opt_ctx option \<Rightarrow> salsa20_blk_t list \<times> u32 \<times> opt_ctx option" where
  "opt_blockmix_xor pass Bin1 Bin2 Bout r ctx = (case ctx of
     None \<Rightarrow> (let (Bout, j) = opt_blockmix_salsa_xor pass Bin1 Bin2 Bout in (Bout, j, None))
   | Some c \<Rightarrow>
       (let r = r * 2 - 1;
            X = XOR_X_2 (Bin1 ! r) (Bin2 ! r);
            (i, X, Bout, c) = opt_blockmix_xor_loop pass Bin1 Bin2 (r - 1) 0 X Bout c;
            i = i + 1;
            (X, out) = SALSA20 pass X (Bout ! i)
        in (Bout[i := out], INTEGERIFY X, Some c)))"

text \<open>\<open>XOR_X_WRITE_XOR_Y_2\<close>: the written block and \<open>X\<close>; the local \<open>Y\<close> need not be initialised.\<close>

definition XOR_X_WRITE_XOR_Y_2 :: "salsa20_blk_t \<Rightarrow> salsa20_blk_t \<Rightarrow> salsa20_blk_t \<Rightarrow> salsa20_blk_t \<times> salsa20_blk_t" where
  "XOR_X_WRITE_XOR_Y_2 X out inp = (let Y = XOR_X_2 out inp in (Y, XOR_blk X X Y))"

function opt_blockmix_save_loop ::
    "nat \<Rightarrow> nat \<Rightarrow> nat \<Rightarrow> salsa20_blk_t \<Rightarrow> salsa20_blk_t list \<Rightarrow> salsa20_blk_t list \<Rightarrow> opt_ctx \<Rightarrow> nat \<times> salsa20_blk_t \<times> salsa20_blk_t list \<times> salsa20_blk_t list \<times> opt_ctx" where
  "opt_blockmix_save_loop pass r i X Bin1out Bin2 c =
    (let (out, X) = XOR_X_WRITE_XOR_Y_2 X (Bin2 ! i) (Bin1out ! i); Bin2 = Bin2[i := out];
         (X, c) = PWXFORM pass X c;
         Bin1out = Bin1out[i := X];
         (out, X) = XOR_X_WRITE_XOR_Y_2 X (Bin2 ! (i + 1)) (Bin1out ! (i + 1)); Bin2 = Bin2[i + 1 := out];
         (X, c) = PWXFORM pass X c
     in if r \<le> i then (i, X, Bin1out, Bin2, c)
        else opt_blockmix_save_loop pass r (i + 2) X (Bin1out[i + 1 := X]) Bin2 c)"
  by pat_completeness auto
termination
  by (relation "measure (\<lambda>(pass, r, i, X, Bin1out, Bin2, c). r - i)") auto

declare opt_blockmix_save_loop.simps [simp del]

definition opt_blockmix_xor_save ::
    "nat \<Rightarrow> salsa20_blk_t list \<Rightarrow> salsa20_blk_t list \<Rightarrow> nat \<Rightarrow> opt_ctx \<Rightarrow> salsa20_blk_t list \<times> salsa20_blk_t list \<times> u32 \<times> opt_ctx" where
  "opt_blockmix_xor_save pass Bin1out Bin2 r c =
    (let r = r * 2 - 1;
         X = XOR_X_2 (Bin1out ! r) (Bin2 ! r);
         (i, X, Bin1out, Bin2, c) = opt_blockmix_save_loop pass (r - 1) 0 X Bin1out Bin2 c;
         i = i + 1;
         (X, out) = SALSA20 pass X (Bin1out ! i)
     in (Bin1out[i := out], Bin2, INTEGERIFY X, c))"

section \<open>SMix\<close>

definition opt_integerify :: "salsa20_blk_t list \<Rightarrow> nat \<Rightarrow> u32" where
  "opt_integerify B r = ucast (blk_d (B ! (2 * r - 1)) 0)"

text \<open>The first \<open>n\<close> blocks of \<open>B\<close>, decoded through \<open>tmp\<close> and shuffled into \<open>X\<close>; and back.\<close>

definition opt_load :: "nat \<Rightarrow> bytes \<Rightarrow> salsa20_blk_t \<times> salsa20_blk_t list \<Rightarrow> salsa20_blk_t \<times> salsa20_blk_t list" where
  "opt_load n B = for_range 0 n (\<lambda>(tmp, X) i.
     let tmp = for_range 0 16 (\<lambda>tmp k. tmp[k := le32dec (sub (i * 64 + 4 * k) 4 B)]) tmp
     in (tmp, X[i := salsa20_simd_shuffle tmp (X ! i)]))"

text \<open>A block in memory as its words, and as words of a block.\<close>

definition words_le :: "bytes \<Rightarrow> u32 list" where
  "words_le m = map (\<lambda>k. word_of_le (sub (4 * k) 4 m)) [0..<16]"

definition le_bytes :: "u32 list \<Rightarrow> bytes" where
  "le_bytes ws = concat (map (le_of_word 4) ws)"

definition opt_store :: "nat \<Rightarrow> salsa20_blk_t list \<Rightarrow> salsa20_blk_t \<Rightarrow> bytes \<Rightarrow> bytes" where
  "opt_store n X tmp B = snd (for_range 0 n (\<lambda>(tmp, B) i.
     let tmp = for_range 0 16 (\<lambda>tmp k. tmp[k := word_of_le (le32enc (X ! i ! k))]) tmp
     in (tmp, blit B (i * 64) (le_bytes (salsa20_simd_unshuffle tmp (words_le (sub (i * 64) 64 B)))))) (tmp, B))"

text \<open>\<open>for (i = 1; i < m; i += 2)\<close>; \<open>X\<close> is the index of the block pointer \<open>X\<close> in \<open>V\<close>.\<close>

function opt_smix1_inner ::
    "nat \<Rightarrow> nat \<Rightarrow> nat \<Rightarrow> nat \<Rightarrow> nat \<Rightarrow> salsa20_blk_t list \<times> nat \<times> u32 \<times> opt_ctx option \<Rightarrow> salsa20_blk_t list \<times> nat \<times> u32 \<times> opt_ctx option" where
  "opt_smix1_inner pass r n m i st =
    (if i < m then
       let (V, X, j, ctx) = st;
           s = 2 * r;
           Y = X + s;
           v = unat (j AND of_nat (n - 1)) + (i - 1);
           (out, j, ctx) = opt_blockmix_xor pass (sub X s V) (sub (v * s) s V) (sub Y s V) r ctx;
           V = blit V Y out;
           v = unat (j AND of_nat (n - 1)) + i;
           X = Y + s;
           (out, j, ctx) = opt_blockmix_xor pass (sub Y s V) (sub (v * s) s V) (sub X s V) r ctx;
           V = blit V X out
       in opt_smix1_inner pass r n m (i + 2) (V, X, j, ctx)
     else st)"
  by pat_completeness auto
termination
  by (relation "measure (\<lambda>(pass, r, n, m, i, st). m - i)") auto

declare opt_smix1_inner.simps [simp del]

text \<open>\<open>for (n = 2; n < N; n <<= 1)\<close>, and \<open>n\<close> after the loop; \<open>n\<close> is never zero.\<close>

function opt_smix1_outer ::
    "nat \<Rightarrow> nat \<Rightarrow> nat \<Rightarrow> nat \<Rightarrow> salsa20_blk_t list \<times> nat \<times> u32 \<times> opt_ctx option \<Rightarrow> nat \<times> salsa20_blk_t list \<times> nat \<times> u32 \<times> opt_ctx option" where
  "opt_smix1_outer pass r N n st =
    (if n < N \<and> n \<noteq> 0 then
       let m = (if n < N div 2 then n else N - 1 - n)
       in opt_smix1_outer pass r N (2 * n) (opt_smix1_inner pass r n m 1 st)
     else (n, st))"
  by pat_completeness auto
termination
  by (relation "measure (\<lambda>(pass, r, N, n, st). N - n)") auto

declare opt_smix1_outer.simps [simp del]

definition opt_expand :: "nat \<Rightarrow> nat \<Rightarrow> salsa20_blk_t list \<times> opt_ctx option \<Rightarrow> salsa20_blk_t list \<times> opt_ctx option" where
  "opt_expand pass r = for_range 1 r (\<lambda>(V, ctx) i.
     let (out, ctx) = opt_blockmix pass (sub ((i - 1) * 2) 2 V) (sub (i * 2) 2 V) 1 ctx in (blit V (i * 2) out, ctx))"

text \<open>\<open>tmp\<close> is first the block \<open>Y[0]\<close> and then the block of \<open>XY\<close> after the result.\<close>

definition opt_smix1 ::
    "nat \<Rightarrow> bytes \<Rightarrow> nat \<Rightarrow> nat \<Rightarrow> salsa20_blk_t list \<Rightarrow> salsa20_blk_t list \<Rightarrow> opt_ctx option \<Rightarrow> bytes \<times> salsa20_blk_t list \<times> salsa20_blk_t list \<times> opt_ctx option" where
  "opt_smix1 pass B r N V XY ctx =
    (let s = 2 * r;
         (tmp, V) = opt_load (if pass = 1 then 2 * r else 2) B (V ! s, V);
         V = V[s := tmp];
         (V, ctx) = (if 1 < pass then opt_expand pass r (V, ctx) else (V, ctx));
         (out, ctx) = opt_blockmix pass (sub 0 s V) (sub s s V) r ctx;
         V = blit V s out;
         X = s + s;
         (out, ctx) = opt_blockmix pass (sub s s V) (sub X s V) r ctx;
         V = blit V X out;
         j = opt_integerify (sub X s V) r;
         (n, V, X, j, ctx) = opt_smix1_outer pass r N 2 (V, X, j, ctx);
         n = n div 2;
         v = unat (j AND of_nat (n - 1)) + (N - 2 - n);
         Y = X + s;
         (out, j, ctx) = opt_blockmix_xor pass (sub X s V) (sub (v * s) s V) (sub Y s V) r ctx;
         V = blit V Y out;
         v = unat (j AND of_nat (n - 1)) + (N - 1 - n);
         (out, j, ctx) = opt_blockmix_xor pass (sub Y s V) (sub (v * s) s V) (sub 0 s XY) r ctx;
         XY = blit XY 0 out
     in (opt_store s XY (XY ! s) B, V, XY, ctx))"

text \<open>\<open>do ... while (Nloop -= 2)\<close> for an even number that is not zero.\<close>

function opt_smix2_loop ::
    "nat \<Rightarrow> nat \<Rightarrow> nat \<Rightarrow> nat \<Rightarrow> nat \<Rightarrow> salsa20_blk_t list \<Rightarrow> salsa20_blk_t list \<Rightarrow> opt_ctx \<Rightarrow> salsa20_blk_t list \<times> salsa20_blk_t list \<times> opt_ctx" where
  "opt_smix2_loop pass r N Nloop j V X c =
    (let s = 2 * r;
         (X, out, k, c) = opt_blockmix_xor_save pass X (sub (j * s) s V) r c;
         V = blit V (j * s) out;
         j = unat (k AND (of_nat N - 1));
         (X, out, k, c) = opt_blockmix_xor_save pass X (sub (j * s) s V) r c;
         V = blit V (j * s) out;
         j = unat (k AND (of_nat N - 1))
     in if Nloop \<le> 2 then (V, X, c) else opt_smix2_loop pass r N (Nloop - 2) j V X c)"
  by pat_completeness auto
termination
  by (relation "measure (\<lambda>(pass, r, N, Nloop, j, V, X, c). Nloop)") auto

declare opt_smix2_loop.simps [simp del]

text \<open>The blocks \<open>X\<close> are the first half of \<open>XY\<close>, \<open>Y\<close> starts after them.\<close>

definition opt_smix2 ::
    "nat \<Rightarrow> bytes \<Rightarrow> nat \<Rightarrow> nat \<Rightarrow> nat \<Rightarrow> salsa20_blk_t list \<Rightarrow> salsa20_blk_t list \<Rightarrow> opt_ctx \<Rightarrow> bytes \<times> salsa20_blk_t list \<times> salsa20_blk_t list \<times> opt_ctx" where
  "opt_smix2 pass B r N Nloop V XY c =
    (let s = 2 * r;
         (tmp, XY) = opt_load s B (XY ! s, XY);
         XY = XY[s := tmp];
         j = unat (opt_integerify XY r AND (of_nat N - 1));
         (V, XY, c) = (if pass = 1 \<and> Nloop \<le> 2 then
            let (out, k, ctx) = opt_blockmix_xor pass (sub 0 s XY) (sub (j * s) s V) (sub s s XY) r (Some c);
                XY = blit XY s out;
                j = unat (k AND (of_nat N - 1));
                (out, k, ctx) = opt_blockmix_xor pass (sub s s XY) (sub (j * s) s V) (sub 0 s XY) r ctx
            in (V, blit XY 0 out, the ctx)
          else let (V, X, c) = opt_smix2_loop pass r N Nloop j V (sub 0 s XY) c in (V, blit XY 0 X, c))
     in (opt_store s XY (XY ! s) B, V, XY, c))"

definition opt_Nloop :: "nat \<Rightarrow> u32 \<Rightarrow> u32 \<times> u32" where
  "opt_Nloop pass N =
    (if pass = 1 then
       let Nloop_all = (N + 2) div 3;
           Nloop_rw = Nloop_all;
           Nloop_all = (Nloop_all + 1) AND NOT 1;
           Nloop_rw = Nloop_rw AND NOT 1
       in (Nloop_all, Nloop_rw)
     else
       let Nloop_rw = (N + 2) div 3;
           Nloop_rw = (Nloop_rw + 1) AND NOT 1
       in (Nloop_rw, Nloop_rw))"

text \<open>The memory from \<open>S0\<close> on as blocks, and back.\<close>

definition as_blocks :: "u32 list \<Rightarrow> salsa20_blk_t list" where
  "as_blocks ws = map (\<lambda>i. sub (16 * i) 16 ws) [0..<length ws div 16]"

definition opt_smix :: "nat \<Rightarrow> bytes \<Rightarrow> nat \<Rightarrow> u32 \<Rightarrow> salsa20_blk_t list \<Rightarrow> salsa20_blk_t list \<Rightarrow> opt_ctx \<Rightarrow> bytes" where
  "opt_smix pass B r N V XY c =
    (let (Nloop_all, Nloop_rw) = opt_Nloop pass N;
         (B, S, XY, _) = opt_smix1 pass B 1 (oc_Sbytes c div 128) (as_blocks (oc_S c)) XY None;
         c = c\<lparr>oc_S := concat S\<rparr>;
         (B, V, XY, ctx) = opt_smix1 pass B r (unat N) V XY (Some c);
         (B, V, XY, c) = opt_smix2 pass B r (unat N) (unat Nloop_rw) V XY (the ctx);
         (B, V, XY, c) = (if pass = 1 \<and> Nloop_all > Nloop_rw then opt_smix2 pass B r (unat N) 2 V XY c else (B, V, XY, c))
     in B)"

section \<open>yespower\<close>

definition opt_bad_params :: "yespower_params_t \<Rightarrow> bool" where
  "opt_bad_params p \<longleftrightarrow> (yp_version p \<noteq> YESPOWER_0_5 \<and> yp_version p \<noteq> YESPOWER_1_0) \<or>
     yp_N p < 1024 \<or> yp_N p > 512 * 1024 \<or> yp_r p < 8 \<or> yp_r p > 32 \<or>
     yp_N p AND (yp_N p - 1) \<noteq> 0 \<or> (yp_pers p = None \<and> yp_perslen p \<noteq> 0)"

text \<open>
  The thread-local region: its size, and what the operating system answers. A region that is large enough
  is kept with what it holds: \<open>mem\<close> gives the contents of the four parts, whatever they are.
\<close>

record yespower_region =
  rg_base_size :: nat
  rg_aligned_size :: nat

record opt_memory =
  om_B :: bytes
  om_V :: "salsa20_blk_t list"
  om_XY :: "salsa20_blk_t list"
  om_S :: "u32 list"
  om_S2 :: nat
  om_w :: nat

record os_answers =
  os_mmap :: "nat \<Rightarrow> bool \<Rightarrow> bool"
  os_munmap :: "nat \<Rightarrow> bool"

definition init_region :: yespower_region where
  "init_region = \<lparr>rg_base_size = 0, rg_aligned_size = 0\<rparr>"

definition free_region :: "os_answers \<Rightarrow> yespower_region \<Rightarrow> int \<times> yespower_region" where
  "free_region os region =
    (if rg_base_size region \<noteq> 0 \<and> \<not> os_munmap os (rg_base_size region) then (-1, region) else (0, init_region))"

text \<open>
  \<open>os_mmap\<close> answers whether a mapping of this size, in huge pages or not, succeeds. A big region is first
  tried in huge pages, with its size rounded up to a multiple of theirs, then without.
\<close>

definition HUGEPAGE_THRESHOLD :: nat where "HUGEPAGE_THRESHOLD = 12 * 1024 * 1024"
definition HUGEPAGE_SIZE :: nat where "HUGEPAGE_SIZE = 2 * 1024 * 1024"

definition alloc_region :: "os_answers \<Rightarrow> nat \<Rightarrow> bool \<times> yespower_region" where
  "alloc_region os n =
    (let huge = HUGEPAGE_THRESHOLD \<le> n;
         new_size = (if huge then (n + (HUGEPAGE_SIZE - 1)) div HUGEPAGE_SIZE * HUGEPAGE_SIZE else n)
     in if os_mmap os new_size huge then (True, \<lparr>rg_base_size = new_size, rg_aligned_size = n\<rparr>)
        else if huge \<and> os_mmap os n False then (True, \<lparr>rg_base_size = n, rg_aligned_size = n\<rparr>)
        else (False, init_region))"

text \<open>Whether the region is usable, and the region.\<close>

definition get_region :: "os_answers \<Rightarrow> yespower_region \<Rightarrow> nat \<Rightarrow> bool \<times> yespower_region" where
  "get_region os local need =
    (if rg_aligned_size local < need then
       let (e, local) = free_region os local
       in if e \<noteq> 0 then (False, local) else alloc_region os need
     else (True, local))"

definition opt_sizes :: "int \<Rightarrow> nat \<Rightarrow> nat \<Rightarrow> nat \<times> nat \<times> nat \<times> nat" where
  "opt_sizes version r N =
    (let B_size = 128 * r; V_size = B_size * N
     in if version = YESPOWER_0_5 then (B_size, V_size, B_size * 2, 2 * Swidth_to_Sbytes1 8)
        else (B_size, V_size, B_size + 64, 3 * Swidth_to_Sbytes1 11))"

definition opt_yespower ::
    "os_answers \<Rightarrow> opt_memory \<Rightarrow> yespower_region \<Rightarrow> bytes \<Rightarrow> yespower_params_t \<Rightarrow> (int \<times> bytes \<times> yespower_region) option" where
  "opt_yespower os mem local src params =
    (let version = yp_version params; r = unat (yp_r params);
         (B_size, V_size, XY_size, Sbytes) = opt_sizes version r (unat (yp_N params));
         (ok, local') = get_region os local (B_size + V_size + XY_size + Sbytes)
     in if opt_bad_params params then Some (-1, replicate 32 0xff, local)
        else if \<not> ok then Some (-1, replicate 32 0xff, local')
        else
          let S1 = Swidth_to_Sbytes1 (if version = YESPOWER_0_5 then 8 else 11);
              ctx = \<lparr>oc_S = om_S mem, oc_S0 = 0, oc_S1 = S1, oc_S2 = om_S2 mem, oc_w = om_w mem, oc_Sbytes = Sbytes\<rparr>;
              B = om_B mem;
              sha256 = SHA256_Buf src
          in if version = YESPOWER_0_5 then
               (case derive sha256 src B of None \<Rightarrow> None
                | Some B \<Rightarrow>
                  (let sha256 = take 32 B;
                       B = opt_smix 1 B r (yp_N params) (om_V mem) (om_XY mem) ctx
                   in case derive sha256 B (replicate 32 0) of None \<Rightarrow> None
                      | Some dst \<Rightarrow> Some (0, case yp_pers params of
                          Some pers \<Rightarrow> SHA256_Buf (HMAC_SHA256_Buf dst pers) | None \<Rightarrow> dst, local')))
             else
               (let ctx = ctx\<lparr>oc_S2 := 2 * S1, oc_w := 0\<rparr>;
                    salt = (case yp_pers params of Some pers \<Rightarrow> pers | None \<Rightarrow> [])
                in case derive sha256 salt (take 128 B) of None \<Rightarrow> None
                   | Some out \<Rightarrow>
                     (let B = blit B 0 out;
                          sha256 = take 32 B;
                          B = opt_smix 2 B r (yp_N params) (om_V mem) (om_XY mem) ctx
                      in Some (0, HMAC_SHA256_Buf (sub (B_size - 64) 64 B) sha256, local'))))"

text \<open>The thread-local variant: \<open>None\<close> is the region before the first call.\<close>

definition yespower_tls ::
    "os_answers \<Rightarrow> opt_memory \<Rightarrow> yespower_region option \<Rightarrow> bytes \<Rightarrow> yespower_params_t \<Rightarrow> (int \<times> bytes \<times> yespower_region) option" where
  "yespower_tls os mem local src params =
    opt_yespower os mem (case local of None \<Rightarrow> init_region | Some l \<Rightarrow> l) src params"

end
