(* ===== verification/YespowerPwx.thy ===== *)
theory YespowerPwx
  imports YespowerOpt
begin

text \<open>
  The steps on one block are the same in both versions of yespower: the Salsa20 core with its two ways of
  shuffling, and pwxform, on word pairs by index in the reference and on 64-bit words by byte offset in the
  optimised code. \<open>ctx_rel\<close> relates the two contexts.
\<close>

section \<open>Words and blocks\<close>

abbreviation join64 :: "u32 \<Rightarrow> u32 \<Rightarrow> u64" where
  "join64 l h \<equiv> ucast l OR push_bit 32 (ucast h)"

lemma join64_halves:
  "ucast (join64 l h) = l" "ucast (drop_bit 32 (join64 l h)) = h"
  by (rule bit_word_eqI; auto simp: bit_simps dest: bit_imp_le_length)+

lemma blk_d_halves: "ucast (blk_d B i) = B ! (2 * i)" "ucast (drop_bit 32 (blk_d B i)) = B ! (2 * i + 1)"
  by (simp_all only: blk_d_def join64_halves)

lemma halves_xor: "ucast (a XOR b :: u64) = (ucast a XOR ucast b :: u32)"
  "ucast (drop_bit 32 (a XOR b) :: u64) = (ucast (drop_bit 32 a) XOR ucast (drop_bit 32 b) :: u32)"
  by (rule bit_word_eqI; simp add: bit_simps)+

lemma upd_numeral: "(x # xs)[numeral k := v] = x # xs[pred_numeral k := v]"
  by (simp add: numeral_eq_Suc)

lemma for_range_words: "for_range 0 16 f s = foldl f s [0, 1, 2, 3, 4, 5, 6, 7, 8, 9, 10, 11, 12, 13, 14, 15]"
  by (simp only: for_range_def upt_16)

lemma upt_to_8: "[0..<8] = [0, 1, 2, 3, 4, 5, 6, 7 :: nat]"
  by (simp add: upt_conv_Cons)

lemma simd_shuffle_eq:
  "length t = 16 \<Longrightarrow> length out = 16 \<Longrightarrow> salsa20_simd_shuffle t out = map (\<lambda>i. t ! (i * 5 mod 16)) [0..<16]"
  by (elim list_16) (simp add: salsa20_simd_shuffle_def COMBINE_def set_d_def upt_16 upd_numeral join64_halves del: drop_bit_or)

lemma simd_unshuffle_eq:
  "length t = 16 \<Longrightarrow> length out = 16 \<Longrightarrow> salsa20_simd_unshuffle t out = map (\<lambda>i. t ! (i * 13 mod 16)) [0..<16]"
  by (elim list_16) (simp add: salsa20_simd_unshuffle_def UNCOMBINE_def blk_d_halves upt_16 upd_numeral)

lemma XOR_blk_eq:
  "length out = 16 \<Longrightarrow> length a = 16 \<Longrightarrow> length b = 16 \<Longrightarrow> XOR_blk out a b = blkxor a b"
  by (elim list_16) (simp add: XOR_blk_def blkxor_def set_d_def halves_xor blk_d_halves for_range_def upt_to_8 upd_numeral del: drop_bit_xor)

lemma length_blkxor [simp]: "length (blkxor a b) = min (length a) (length b)"
  by (simp add: blkxor_def)

lemma INTEGERIFY_eq: "INTEGERIFY X = X ! 0"
  by (simp add: INTEGERIFY_def blk_d_halves)

lemma opt_integerify_eq: "opt_integerify B r = B ! (2 * r - 1) ! 0"
  by (simp add: opt_integerify_def blk_d_halves)

lemma length_double [simp]: "length (salsa_loop_body x) = length x"
  unfolding salsa_loop_body_def by (rule length_foldl_salsa)

lemma length_doubles: "length x = 16 \<Longrightarrow> length (for_range 0 n (\<lambda>x _. salsa_loop_body x) x) = 16"
  by (rule for_range_pres) simp_all

text \<open>The core both versions share: unshuffle, double rounds, shuffle and add.\<close>

definition salsa_core :: "nat \<Rightarrow> u32 list \<Rightarrow> u32 list" where
  "salsa_core n B =
    (let x = for_range 0 n (\<lambda>x _. salsa_loop_body x) (map (\<lambda>i. B ! (i * 13 mod 16)) [0..<16])
     in map (\<lambda>i. B ! i + x ! (i * 5 mod 16)) [0..<16])"

lemma length_salsa_core [simp]: "length (salsa_core n B) = 16"
  by (simp add: salsa_core_def Let_def)

lemma add_shuffled:
  "length B = 16 \<Longrightarrow> length x = 16 \<Longrightarrow> for_range 0 16 (\<lambda>B i. B[i := B ! i + x ! (i * 5 mod 16)]) B =
     map (\<lambda>i. B ! i + x ! (i * 5 mod 16)) [0..<16]"
  by (elim list_16) (simp add: for_range_words upt_16 upd_numeral)

lemma zeros_16: "replicate 16 (0 :: u32) = [0, 0, 0, 0, 0, 0, 0, 0, 0, 0, 0, 0, 0, 0, 0, 0]"
  by (simp add: numeral_eq_Suc)

lemma scatter_words:
  "length B = 16 \<Longrightarrow> for_range 0 16 (\<lambda>x i. x[i * 5 mod 16 := B ! i]) (replicate 16 (0 :: u32)) = map (\<lambda>i. B ! (i * 13 mod 16)) [0..<16]"
  unfolding zeros_16 by (elim list_16) (simp add: for_range_words upt_16 upd_numeral)

lemma ref_salsa20_core:
  assumes "length B = 16"
  shows "ref_salsa20 B (2 * n) = salsa_core n B"
  using assms unfolding ref_salsa20_def Let_def scatter_words [OF assms] ref_double_round_def
  by (subst add_shuffled) (simp_all add: salsa_core_def length_doubles)

lemma add_words:
  "length B = 16 \<Longrightarrow> length out = 16 \<Longrightarrow>
     for_range 0 16 (\<lambda>(B, Bout) i. let Bout = Bout[i := Bout ! i + B ! i] in (B[i := Bout ! i], Bout)) (B, out) =
     (map (\<lambda>i. out ! i + B ! i) [0..<16], map (\<lambda>i. out ! i + B ! i) [0..<16])"
  by (elim list_16) (simp add: for_range_words upt_16 upd_numeral Let_def)

lemma opt_salsa20_core:
  assumes "length B = 16" and "length out = 16"
  shows "opt_salsa20 B out n = (salsa_core n B, salsa_core n B)"
proof -
  let ?x = "for_range 0 n (\<lambda>x _. salsa_loop_body x) (map (\<lambda>i. B ! (i * 13 mod 16)) [0..<16])"
  have x: "length ?x = 16" by (rule length_doubles) simp
  have "opt_salsa20 B out n = for_range 0 16 (\<lambda>(B, Bout) i. let Bout = Bout[i := Bout ! i + B ! i] in (B[i := Bout ! i], Bout))
      (B, map (\<lambda>i. ?x ! (i * 5 mod 16)) [0..<16])"
    using assms x by (simp add: opt_salsa20_def simd_unshuffle_eq simd_shuffle_eq opt_double_round_def)
  also have "\<dots> = (salsa_core n B, salsa_core n B)"
    using assms x by (subst add_words) (simp_all add: salsa_core_def add.commute)
  finally show ?thesis .
qed

text \<open>The mixing of two blocks.\<close>

definition salsa_turns :: "nat \<Rightarrow> nat" where
  "salsa_turns pass = (if pass = 1 then 4 else 1)"

lemma SALSA20_core: "length X = 16 \<Longrightarrow> length out = 16 \<Longrightarrow> SALSA20 pass X out = (salsa_core (salsa_turns pass) X, salsa_core (salsa_turns pass) X)"
  by (simp add: SALSA20_def opt_salsa20_core salsa_turns_def)

section \<open>pwxform\<close>

lemma join64_parts: "drop_bit 32 (join64 l h) = ucast h" "low32 (join64 l h) = ucast l"
  by (rule bit_word_eqI; auto simp: low32_def bit_simps dest: bit_imp_le_length)+

lemma blk_d_parts: "drop_bit 32 (blk_d B i) = ucast (B ! (2 * i + 1))" "low32 (blk_d B i) = ucast (B ! (2 * i))"
  by (simp_all only: blk_d_def join64_parts)

lemma pair64_join: "pair64 S p = join64 (S ! (2 * p)) (S ! (2 * p + 1))"
proof -
  have "push_bit 32 (ucast h) + ucast l = (join64 l h)" for l h :: u32
    by (subst add.commute, rule disjunctive_add) (auto simp: bit_simps dest: bit_imp_le_length)
  then show ?thesis by (simp add: pair64_def)
qed

lemma S_read_pair: "S_read S (8 * p) = pair64 S p"
proof -
  have "8 * p div 4 = 2 * p" by simp
  then show ?thesis by (simp only: S_read_def pair64_join)
qed

lemma S_write_pair: "S_write S (8 * p) (blk_d X q) = store_pair S p X q"
proof -
  have "8 * p div 4 = 2 * p" by simp
  then show ?thesis by (simp only: S_write_def store_pair_def blk_d_halves)
qed

lemma unat_u32_u64: "unat (ucast (y :: u32) :: u64) = unat y"
  using unsigned_less [of y, where ?'a = nat] by (simp add: unsigned_ucast_eq take_bit_nat_eq_self)

definition pass_Smask :: "nat \<Rightarrow> u32" where
  "pass_Smask pass = Swidth_to_Smask (if pass = 1 then 8 else 11)"

lemma Smask2_parts:
  "low32 (x AND Smask2 pass) = ucast ((ucast x :: u32) AND pass_Smask pass)"
  "drop_bit 32 (x AND Smask2 pass) = ucast ((ucast (drop_bit 32 x) :: u32) AND pass_Smask pass)"
  by (rule bit_word_eqI; auto simp: low32_def Smask2_def Smask_to_Smask2_def pass_Smask_def bit_simps dest: bit_imp_le_length)+

lemma Smask_value: "pass_Smask pass = (if pass = 1 then 0xFF0 else 0x7FF0)"
  by (simp add: pass_Smask_def Swidth_to_Smask_def)

lemma Smask_multiple: "unat (x AND pass_Smask pass) = 8 * (unat (x AND pass_Smask pass) div 8)"
proof -
  have "pass_Smask pass AND mask 3 = 0" by (simp add: Smask_value mask_eq_exp_minus_1)
  then have "(x AND pass_Smask pass) AND mask 3 = 0" by (simp add: and.assoc)
  then have "unat (x AND pass_Smask pass) mod 2 ^ 3 = 0" by (metis unat_and_mask unat_0)
  then show ?thesis by auto
qed

text \<open>How the two contexts correspond; the context of pass 1 has no third S-box and no write position.\<close>

definition ctx_rel :: "nat \<Rightarrow> ref_ctx \<Rightarrow> opt_ctx \<Rightarrow> bool" where
  "ctx_rel pass rc oc \<longleftrightarrow>
    rc_version rc = (if pass = 1 then YESPOWER_0_5 else YESPOWER_1_0) \<and>
    rc_salsa20_rounds rc = 2 * salsa_turns pass \<and> rc_PWXrounds rc = (if pass = 1 then 6 else 3) \<and>
    rc_Swidth rc = (if pass = 1 then 8 else 11) \<and> rc_Smask rc = pass_Smask pass \<and>
    rc_Sbytes rc = oc_Sbytes oc \<and>
    oc_S oc = rc_S rc \<and> oc_S0 oc = 8 * rc_S0 rc \<and> oc_S1 oc = 8 * rc_S1 rc \<and>
    (pass \<noteq> 1 \<longrightarrow> oc_S2 oc = 8 * rc_S2 rc \<and> oc_w oc = 8 * rc_w rc \<and> rc_w rc mod 8 = 0 \<and> rc_w rc < 4096)"

definition p0_of :: "ref_ctx \<Rightarrow> u32 list \<Rightarrow> nat \<Rightarrow> nat" where
  "p0_of rc X j = rc_S0 rc + unat (X ! (4 * j) AND rc_Smask rc) div 8"

definition p1_of :: "ref_ctx \<Rightarrow> u32 list \<Rightarrow> nat \<Rightarrow> nat" where
  "p1_of rc X j = rc_S1 rc + unat (X ! (4 * j + 1) AND rc_Smask rc) div 8"

lemma ref_simple_set:
  "ref_pwx_simple S p0 p1 j X k = set_d X (2 * j + k)
     ((drop_bit 32 (blk_d X (2 * j + k)) * low32 (blk_d X (2 * j + k)) + pair64 S (p0 + k)) XOR pair64 S (p1 + k))"
  by (simp add: ref_pwx_simple_def set_d_def blk_d_parts Let_def distrib_left)

lemma blk_d_set_other: "i \<noteq> k \<Longrightarrow> blk_d (set_d X k v) i = blk_d X i"
proof -
  assume "i \<noteq> k"
  then have "2 * k \<noteq> 2 * i" "2 * k \<noteq> 2 * i + 1" "2 * k + 1 \<noteq> 2 * i" "2 * k + 1 \<noteq> 2 * i + 1" by presburger+
  then show ?thesis by (simp only: blk_d_def set_d_def nth_list_update_neq not_False_eq_True)
qed

lemma for_range_2: "for_range 0 2 f s = f (f s 0) 1"
  by (simp add: for_range_def upt_rec)

lemma length_set_d [simp]: "length (set_d X i v) = length X"
  by (simp add: set_d_def)

lemma simd_gather:
  assumes "oc_S0 c = 8 * rc_S0 rc" and "oc_S1 c = 8 * rc_S1 rc" and "rc_Smask rc = pass_Smask pass"
  shows "pwx_simd pass j (X, c) = (for_range 0 2 (ref_pwx_simple (oc_S c) (p0_of rc X j) (p1_of rc X j) j) X, c)"
proof -
  define x0 where "x0 = blk_d X (2 * j)"
  have j: "2 * (2 * j) = 4 * j" by simp
  have "unat (low32 (x0 AND Smask2 pass)) = unat (X ! (4 * j) AND pass_Smask pass)"
    unfolding Smask2_parts x0_def blk_d_halves j by (rule unat_u32_u64)
  then have p0: "oc_S0 c + unat (low32 (x0 AND Smask2 pass)) = 8 * p0_of rc X j"
    using assms Smask_multiple [of "X ! (4 * j)" pass] by (simp add: p0_of_def distrib_left)
  have "unat (drop_bit 32 (x0 AND Smask2 pass)) = unat (X ! (4 * j + 1) AND pass_Smask pass)"
    unfolding Smask2_parts x0_def blk_d_halves j by (rule unat_u32_u64)
  then have p1: "oc_S1 c + unat (drop_bit 32 (x0 AND Smask2 pass)) = 8 * p1_of rc X j"
    using assms Smask_multiple [of "X ! (4 * j + 1)" pass] by (simp add: p1_of_def distrib_left)
  have next_pair: "8 * p + 8 = 8 * (p + 1)" for p :: nat by simp
  show ?thesis
    unfolding pwx_simd_def PWXFORM_SIMD_def Let_def prod.case x0_def [symmetric] p0 p1 next_pair S_read_pair
      for_range_2 ref_simple_set
    by (simp add: blk_d_set_other x0_def)
qed


text \<open>Within pwxform of pass 2: the block, the S-boxes and the write position.\<close>

definition opt_at :: "opt_ctx \<Rightarrow> u32 list \<times> u32 list \<times> nat \<Rightarrow> salsa20_blk_t \<times> opt_ctx" where
  "opt_at oc = (\<lambda>(X, S, w). (X, oc\<lparr>oc_S := S, oc_w := 8 * w\<rparr>))"

lemma ref_gather_eq:
  "ref_pwx_gather rc i (X, S, w) j =
    (let X' = for_range 0 2 (ref_pwx_simple S (p0_of rc X j) (p1_of rc X j) j) X in (X', ref_pwx_write rc i j X' (S, w)))"
  by (simp add: ref_pwx_gather_def p0_of_def p1_of_def Let_def)

lemma gather_plain:
  assumes "ctx_rel pass rc oc" and "pass \<noteq> 1" and "\<not> (i = 0 \<or> j < 2)"
  shows "pwx_simd pass j (opt_at oc st) = opt_at oc (ref_pwx_gather rc i st j)"
proof (cases st)
  case (fields X S w)
  then show ?thesis
    using assms by (simp add: opt_at_def ref_gather_eq ref_pwx_write_def Let_def ctx_rel_def simd_gather [of _ rc])
qed

lemma gather_even:
  assumes "ctx_rel pass rc oc" and "pass \<noteq> 1" and "i = 0 \<or> j < 2" and "even j"
  shows "pwx_simd_write pass j oc_S0 (opt_at oc st) = opt_at oc (ref_pwx_gather rc i st j)"
proof (cases st)
  case (fields X S w)
  let ?c = "oc\<lparr>oc_S := S, oc_w := 8 * w\<rparr>"
  let ?X = "for_range 0 2 (ref_pwx_simple S (p0_of rc X j) (p1_of rc X j) j) X"
  have simd: "pwx_simd pass j (X, ?c) = (?X, ?c)"
    using assms(1,2) by (subst simd_gather [of _ rc]) (simp_all add: ctx_rel_def)
  have addr: "oc_S0 ?c + oc_w ?c = 8 * (rc_S0 rc + w)" "8 * (rc_S0 rc + w) + 8 = 8 * (rc_S0 rc + (w + 1))"
    using assms(1) by (simp_all add: ctx_rel_def)
  have "rc_version rc \<noteq> YESPOWER_0_5"
    using assms(1,2) by (simp add: ctx_rel_def YESPOWER_0_5_def YESPOWER_1_0_def)
  then have "ref_pwx_write rc i j ?X (S, w) =
      (store_pair (store_pair S (rc_S0 rc + w) ?X (2 * j)) (rc_S0 rc + (w + 1)) ?X (2 * j + 1), w)"
    using assms(3,4) by (simp add: ref_pwx_write_def for_range_2)
  moreover have "pwx_simd_write pass j oc_S0 (X, ?c) = (?X, ?c\<lparr>oc_S :=
      store_pair (store_pair S (rc_S0 rc + w) ?X (2 * j)) (rc_S0 rc + (w + 1)) ?X (2 * j + 1)\<rparr>)"
    unfolding pwx_simd_write_def Let_def prod.case simd addr S_write_pair by simp
  ultimately show ?thesis
    by (simp add: fields opt_at_def ref_gather_eq Let_def)
qed

lemma gather_odd:
  assumes "ctx_rel pass rc oc" and "pass \<noteq> 1" and "i = 0 \<or> j < 2" and "odd j"
  shows "w_next (pwx_simd_write pass j oc_S1 (opt_at oc st)) = opt_at oc (ref_pwx_gather rc i st j)"
proof (cases st)
  case (fields X S w)
  let ?c = "oc\<lparr>oc_S := S, oc_w := 8 * w\<rparr>"
  let ?X = "for_range 0 2 (ref_pwx_simple S (p0_of rc X j) (p1_of rc X j) j) X"
  have simd: "pwx_simd pass j (X, ?c) = (?X, ?c)"
    using assms(1,2) by (subst simd_gather [of _ rc]) (simp_all add: ctx_rel_def)
  have addr: "oc_S1 ?c + oc_w ?c = 8 * (rc_S1 rc + w)" "8 * (rc_S1 rc + w) + 8 = 8 * (rc_S1 rc + (w + 1))"
    using assms(1) by (simp_all add: ctx_rel_def)
  have "rc_version rc \<noteq> YESPOWER_0_5"
    using assms(1,2) by (simp add: ctx_rel_def YESPOWER_0_5_def YESPOWER_1_0_def)
  then have "ref_pwx_write rc i j ?X (S, w) =
      (store_pair (store_pair S (rc_S1 rc + w) ?X (2 * j)) (rc_S1 rc + (w + 1)) ?X (2 * j + 1), w + 2)"
    using assms(3,4) by (simp add: ref_pwx_write_def for_range_2)
  moreover have "pwx_simd_write pass j oc_S1 (X, ?c) = (?X, ?c\<lparr>oc_S :=
      store_pair (store_pair S (rc_S1 rc + w) ?X (2 * j)) (rc_S1 rc + (w + 1)) ?X (2 * j + 1)\<rparr>)"
    unfolding pwx_simd_write_def Let_def prod.case simd addr S_write_pair by simp
  ultimately show ?thesis
    by (simp add: fields opt_at_def ref_gather_eq Let_def w_next_def)
qed

lemma for_range_4: "for_range 0 4 f s = f (f (f (f s 0) 1) 2) 3"
proof -
  have "[0..<4] = [0, 1, 2, 3 :: nat]" by (simp add: upt_conv_Cons)
  then show ?thesis by (simp add: for_range_def)
qed

lemma round_write4:
  assumes "ctx_rel pass rc oc" and "pass \<noteq> 1"
  shows "PWXFORM_ROUND_WRITE4 pass (opt_at oc st) = opt_at oc (for_range 0 4 (ref_pwx_gather rc 0) st)"
  using gather_even [OF assms, of 0] gather_odd [OF assms, of 0]
  by (simp add: PWXFORM_ROUND_WRITE4_def for_range_4 del: One_nat_def)

lemma round_write2:
  assumes "ctx_rel pass rc oc" and "pass \<noteq> 1" and "i \<noteq> 0"
  shows "PWXFORM_ROUND_WRITE2 pass (opt_at oc st) = opt_at oc (for_range 0 4 (ref_pwx_gather rc i) st)"
  using gather_even [OF assms(1,2), of i 0] gather_odd [OF assms(1,2), of i 1] gather_plain [OF assms(1,2), of i] assms(3)
  by (simp add: PWXFORM_ROUND_WRITE2_def for_range_4 del: One_nat_def)

text \<open>The write position.\<close>

lemma gather_position:
  assumes "rc_version rc \<noteq> YESPOWER_0_5"
  shows "snd (snd (ref_pwx_gather rc i (X, S, w) j)) = w + (if odd j \<and> (i = 0 \<or> j < 2) then 2 else 0)"
  using assms by (simp add: ref_gather_eq Let_def ref_pwx_write_def for_range_2)

lemma gathers_position:
  assumes "rc_version rc \<noteq> YESPOWER_0_5"
  shows "snd (snd (for_range 0 4 (ref_pwx_gather rc i) st)) = snd (snd st) + (if i = 0 then 4 else 2)"
proof -
  have g: "snd (snd (ref_pwx_gather rc i st j)) = snd (snd st) + (if odd j \<and> (i = 0 \<or> j < 2) then 2 else 0)" for st j
    by (cases st) (simp add: gather_position [OF assms])
  show ?thesis by (simp add: for_range_4 g)
qed

lemma position_wraps:
  assumes "v mod 8 = 0" and "v \<le> 4096"
  shows "unat (of_nat (8 * v) AND Smask2 2) = 8 * (v AND (2 ^ 11 * 2 - 1))" and "(v AND (2 ^ 11 * 2 - 1)) mod 8 = 0"
    and "v AND (2 ^ 11 * 2 - 1) < 4096"
proof -
  have and_v: "v AND (2 ^ 11 * 2 - 1) = v mod 4096"
    using take_bit_eq_mask [of 12 v] by (simp add: mask_eq_exp_minus_1 take_bit_eq_mod)
  have "v < 4096 \<or> v = 4096" using assms(2) by linarith
  then show "(v AND (2 ^ 11 * 2 - 1)) mod 8 = 0" "v AND (2 ^ 11 * 2 - 1) < 4096"
    unfolding and_v using assms(1) by auto
  obtain u where u: "v = 8 * u" using assms(1) by auto
  define U :: u64 where "U = of_nat u"
  have x: "of_nat (8 * v) = push_bit 6 U"
    by (simp add: u U_def push_bit_eq_mult ac_simps)
  have "take_bit 10 U = U"
    using u assms(2) by (simp add: U_def take_bit_of_nat take_bit_nat_eq_self)
  then have U: "bit U n \<Longrightarrow> n < 10" for n by (metis bit_take_bit_iff)
  have M: "Smask2 2 = push_bit 36 (mask 11) OR push_bit 4 (mask 11)"
    by (simp add: Smask2_def Smask_to_Smask2_def Swidth_to_Smask_def mask_eq_exp_minus_1)
  have "push_bit 6 U AND Smask2 2 = push_bit 6 (take_bit 9 U)"
    unfolding M by (rule bit_word_eqI) (auto simp: bit_simps dest: U)
  also have "\<dots> = of_nat (64 * (u mod 512))"
  proof -
    have "take_bit 9 u = u mod 512" by (simp add: take_bit_eq_mod)
    then have "take_bit 9 U = of_nat (u mod 512)" by (simp only: U_def take_bit_of_nat)
    then show ?thesis by (simp only: push_bit_eq_mult of_nat_mult) simp
  qed
  finally have "of_nat (8 * v) AND Smask2 2 = (of_nat (64 * (u mod 512)) :: u64)" by (simp only: x)
  moreover have "unat (of_nat (64 * (u mod 512)) :: u64) = 64 * (u mod 512)"
    unfolding unat_of_nat using mod_less_divisor [of 512 u] by simp
  moreover have "v mod 4096 = 8 * (u mod 512)" by (simp add: u mult_mod_right)
  ultimately show "unat (of_nat (8 * v) AND Smask2 2) = 8 * (v AND (2 ^ 11 * 2 - 1))"
    unfolding and_v by simp
qed


text \<open>pwxform of the two versions.\<close>

lemma length_gather: "length (fst (ref_pwx_gather rc i st j)) = length (fst st)"
  by (cases st) (simp add: ref_gather_eq Let_def for_range_2 ref_simple_set)

lemma length_ref_pwxform [simp]: "length (fst (ref_pwxform X rc)) = length X"
proof -
  have "length (fst (for_range 0 4 (ref_pwx_gather rc i) st)) = length (fst st)" for i st
    by (simp add: for_range_4 length_gather)
  then have "length (fst (for_range 0 n (\<lambda>st i. for_range 0 4 (ref_pwx_gather rc i) st) (X, rc_S rc, rc_w rc))) = length X" for n
    by (induction n) (simp_all add: for_range_Suc)
  then show ?thesis by (simp add: ref_pwxform_def Let_def split_beta)
qed

lemma PWXFORM_rel_2:
  assumes r: "ctx_rel 2 rc oc"
  shows "fst (PWXFORM 2 X oc) = fst (ref_pwxform X rc) \<and> ctx_rel 2 (snd (ref_pwxform X rc)) (snd (PWXFORM 2 X oc))"
proof -
  have v: "rc_version rc \<noteq> YESPOWER_0_5" "rc_PWXrounds rc = 3" "rc_Swidth rc = 11" and oc: "oc = oc\<lparr>oc_S := rc_S rc, oc_w := 8 * rc_w rc\<rparr>"
    using r by (simp_all add: ctx_rel_def YESPOWER_0_5_def YESPOWER_1_0_def)
  define f where "f = (\<lambda>st i. for_range 0 4 (ref_pwx_gather rc i) st)"
  obtain X' S w where st: "for_range 0 3 f (X, rc_S rc, rc_w rc) = (X', S, w)" by (metis prod_cases3)
  have three: "for_range 0 3 f (X, rc_S rc, rc_w rc) = f (f (f (X, rc_S rc, rc_w rc) 0) 1) 2"
    by (simp add: for_range_def upt_rec numeral_eq_Suc)
  have pos: "snd (snd (f st i)) = snd (snd st) + (if i = 0 then 4 else 2)" for st i
    by (simp add: f_def gathers_position [OF v(1)])
  have w: "w = rc_w rc + 8"
    using arg_cong [OF st [unfolded three], of "\<lambda>st. snd (snd st)"] by (simp add: pos)
  have bound: "rc_w rc mod 8 = 0" "rc_w rc < 4096" using r by (simp_all add: ctx_rel_def)
  then have "w mod 8 = 0" "w \<le> 4096" unfolding w by presburger+
  note wrap = position_wraps [OF this]
  have r4: "PWXFORM_ROUND_WRITE4 2 (opt_at oc st) = opt_at oc (f st 0)" for st
    using round_write4 [OF r] by (simp add: f_def)
  have r2: "i \<noteq> 0 \<Longrightarrow> PWXFORM_ROUND_WRITE2 2 (opt_at oc st) = opt_at oc (f st i)" for st i
    using round_write2 [OF r] by (simp add: f_def)
  have "PWXFORM_ROUND_WRITE2 2 (PWXFORM_ROUND_WRITE2 2 (PWXFORM_ROUND_WRITE4 2 (opt_at oc (X, rc_S rc, rc_w rc)))) = opt_at oc (X', S, w)"
    unfolding r4 st [unfolded three, symmetric] by (subst r2 [of 1], simp, subst r2 [of 2], simp_all)
  moreover have "opt_at oc (X, rc_S rc, rc_w rc) = (X, oc)" using oc by (simp add: opt_at_def)
  ultimately have opt: "PWXFORM 2 X oc = (X', (let c = oc\<lparr>oc_S := S, oc_w := unat (of_nat (8 * w) AND Smask2 2)\<rparr>
      in c\<lparr>oc_S2 := oc_S1 c, oc_S1 := oc_S0 c, oc_S0 := oc_S2 c\<rparr>))"
    by (simp add: PWXFORM_def opt_at_def Let_def)
  have ref: "ref_pwxform X rc = (X', rc\<lparr>rc_S := S, rc_S0 := rc_S2 rc, rc_S1 := rc_S0 rc, rc_S2 := rc_S1 rc, rc_w := w AND (2 ^ 11 * 2 - 1)\<rparr>)"
    using v st by (simp add: ref_pwxform_def f_def)
  show ?thesis
    using r wrap unfolding opt ref by (simp add: ctx_rel_def Let_def)
qed

lemma PWXFORM_rel_1:
  assumes r: "ctx_rel 1 rc oc"
  shows "PWXFORM 1 X oc = (fst (ref_pwxform X rc), oc) \<and> snd (ref_pwxform X rc) = rc"
proof -
  have v: "rc_version rc = YESPOWER_0_5" "rc_PWXrounds rc = 6" and S: "oc_S oc = rc_S rc"
    using r by (simp_all add: ctx_rel_def)
  define g where "g = (\<lambda>X j. for_range 0 2 (ref_pwx_simple (rc_S rc) (p0_of rc X j) (p1_of rc X j) j) X)"
  have ref: "ref_pwx_gather rc i (X, rc_S rc, rc_w rc) j = (g X j, rc_S rc, rc_w rc)" for X i j
    using v by (simp add: ref_gather_eq Let_def ref_pwx_write_def g_def)
  have opt: "pwx_simd 1 j (X, oc) = (g X j, oc)" for X j
    using r by (subst simd_gather [of _ rc]) (simp_all add: ctx_rel_def g_def)
  define h where "h = (\<lambda>X. g (g (g (g X 0) 1) 2) 3)"
  have "PWXFORM_ROUND 1 (X, oc) = (h X, oc)" for X
    unfolding PWXFORM_ROUND_def opt h_def ..
  then have "for_range 0 n (\<lambda>st _. PWXFORM_ROUND 1 st) (X, oc) = (for_range 0 n (\<lambda>X _. h X) X, oc)" for n
    by (induction n) (simp_all add: for_range_Suc del: One_nat_def)
  moreover have "for_range 0 n (\<lambda>st i. for_range 0 4 (ref_pwx_gather rc i) st) (X, rc_S rc, rc_w rc) = (for_range 0 n (\<lambda>X _. h X) X, rc_S rc, rc_w rc)" for n
    by (induction n) (simp_all add: for_range_Suc for_range_4 ref h_def)
  ultimately show ?thesis
    using v by (simp add: PWXFORM_def ref_pwxform_def)
qed

text \<open>One step of either version: the same block, and contexts that still correspond.\<close>

lemma PWXFORM_rel:
  assumes "ctx_rel pass rc oc" and "pass = 1 \<or> pass = 2" and "ref_pwxform X rc = (X', rc')"
  shows "\<exists>oc'. PWXFORM pass X oc = (X', oc') \<and> ctx_rel pass rc' oc'"
proof (cases "pass = 1")
  case True
  then show ?thesis using PWXFORM_rel_1 [of rc oc X] assms by auto
next
  case False
  then have "pass = 2" using assms(2) by simp
  with PWXFORM_rel_2 [of rc oc X] assms(1,3) show ?thesis by (cases "PWXFORM 2 X oc") auto
qed

end
