(* ===== verification/YespowerMix.thy ===== *)
theory YespowerMix
  imports YespowerPwx
begin

text \<open>
  The mixing of the blocks of an array is one chain of steps (\<open>mix_chain\<close>) in the reference, over a flat array
  of words, and in the three loops of the optimised code, which take one or two blocks per turn and may add
  a second input on the way.
\<close>

section \<open>Flat arrays and arrays of blocks\<close>

definition blocks :: "u32 list list \<Rightarrow> bool" where
  "blocks Bs \<longleftrightarrow> (\<forall>b \<in> set Bs. length b = 16)"

lemma blocks_simps [simp]:
  "blocks []" "blocks (b # Bs) \<longleftrightarrow> length b = 16 \<and> blocks Bs" "blocks (Bs @ Cs) \<longleftrightarrow> blocks Bs \<and> blocks Cs"
  by (auto simp: blocks_def)

lemma blocks_part [simp, intro]: "blocks Bs \<Longrightarrow> blocks (take n Bs)" "blocks Bs \<Longrightarrow> blocks (drop n Bs)" "blocks Bs \<Longrightarrow> blocks (sub i n Bs)"
  "blocks Bs \<Longrightarrow> blocks (butlast Bs)"
  by (auto simp: blocks_def sub_def dest: in_set_takeD in_set_dropD in_set_butlastD)

lemma blocks_nth: "blocks Bs \<Longrightarrow> i < length Bs \<Longrightarrow> length (Bs ! i) = 16"
  by (simp add: blocks_def)

lemma blocks_last: "blocks Bs \<Longrightarrow> Bs \<noteq> [] \<Longrightarrow> length (last Bs) = 16"
  by (simp add: blocks_def)

lemma last_nth: "length xs = Suc n \<Longrightarrow> last xs = xs ! n"
  by (cases "xs = []") (simp_all add: last_conv_nth)

lemma blocks_update: "blocks Bs \<Longrightarrow> length b = 16 \<Longrightarrow> blocks (Bs[i := b])"
  using set_update_subset_insert [of Bs i b] by (auto simp: blocks_def)

lemma blocks_blit: "blocks Bs \<Longrightarrow> blocks Cs \<Longrightarrow> blocks (blit Bs i Cs)"
  by (simp add: blit_def)

lemma length_concat_blocks [simp]: "blocks Bs \<Longrightarrow> length (concat Bs) = 16 * length Bs"
  by (induction Bs) auto

lemma take_concat_blocks: "blocks Bs \<Longrightarrow> n \<le> length Bs \<Longrightarrow> take (n * 16) (concat Bs) = concat (take n Bs)"
proof (induction Bs arbitrary: n)
  case (Cons b Bs)
  then show ?case by (cases n) auto
qed simp

lemma drop_concat_blocks: "blocks Bs \<Longrightarrow> n \<le> length Bs \<Longrightarrow> drop (n * 16) (concat Bs) = concat (drop n Bs)"
proof (induction Bs arbitrary: n)
  case (Cons b Bs)
  then show ?case by (cases n) auto
qed simp

lemma sub_concat_blocks: "blocks Bs \<Longrightarrow> i + n \<le> length Bs \<Longrightarrow> sub (i * 16) (n * 16) (concat Bs) = concat (sub i n Bs)"
  by (simp add: sub_def drop_concat_blocks take_concat_blocks)

lemma blit_concat_blocks:
  assumes "blocks Bs" and "blocks Cs" and "i + length Cs \<le> length Bs"
  shows "blit (concat Bs) (i * 16) (concat Cs) = concat (blit Bs i Cs)"
proof -
  have "drop ((i + length Cs) * 16) (concat Bs) = concat (drop (i + length Cs) Bs)"
    by (rule drop_concat_blocks) (use assms in auto)
  then show ?thesis
    using assms by (simp add: blit_def take_concat_blocks distrib_right mult.commute [of 16])
qed

lemma sub_one: "i < length xs \<Longrightarrow> sub i 1 xs = [xs ! i]"
  by (simp add: sub_def take_Suc_conv_app_nth hd_drop_conv_nth take_Suc)

lemma blit_one: "i < length xs \<Longrightarrow> blit xs i [x] = xs[i := x]"
  by (simp add: blit_def upd_conv_take_nth_drop)

lemma sub_concat_block: "blocks Bs \<Longrightarrow> i < length Bs \<Longrightarrow> sub (i * 16) 16 (concat Bs) = Bs ! i"
  using sub_concat_blocks [of Bs i 1] by (simp add: sub_one del: One_nat_def)

lemma blit_concat_block: "blocks Bs \<Longrightarrow> length b = 16 \<Longrightarrow> i < length Bs \<Longrightarrow> blit (concat Bs) (i * 16) b = concat (Bs[i := b])"
  using blit_concat_blocks [of Bs "[b]" i] by (simp add: blit_one)

lemma blkxor_append: "length a = length c \<Longrightarrow> blkxor (a @ b) (c @ d) = blkxor a c @ blkxor b d"
  by (simp add: blkxor_def)

lemma blkxor_concat: "blocks Bs \<Longrightarrow> blocks Cs \<Longrightarrow> length Bs = length Cs \<Longrightarrow> blkxor (concat Bs) (concat Cs) = concat (map2 blkxor Bs Cs)"
proof (induction Bs arbitrary: Cs)
  case (Cons b Bs)
  then show ?case by (cases Cs) (auto simp: blkxor_append)
qed (simp add: blkxor_def)

lemma blocks_xor: "blocks Bs \<Longrightarrow> blocks Cs \<Longrightarrow> blocks (map2 blkxor Bs Cs)"
  by (auto simp: blocks_def set_zip)

lemma blkxor_assoc: "blkxor (blkxor a b) c = blkxor a (blkxor b c)"
  by (rule nth_equalityI) (auto simp: blkxor_def xor.assoc)

lemma blkxor_commute: "blkxor a b = blkxor b a"
  by (rule nth_equalityI) (auto simp: blkxor_def xor.commute)

section \<open>Block mixing\<close>

fun mix_chain :: "(u32 list \<Rightarrow> 'c \<Rightarrow> u32 list \<times> 'c) \<Rightarrow> u32 list \<Rightarrow> 'c \<Rightarrow> u32 list list \<Rightarrow> u32 list list \<times> 'c" where
  "mix_chain f X c [] = ([], c)"
| "mix_chain f X c (b # bs) = (let (X, c) = f (blkxor X b) c; (ys, c) = mix_chain f X c bs in (X # ys, c))"

lemma mix_chain_append:
  "mix_chain f X c (as @ bs) = (let (ys, c) = mix_chain f X c as; (zs, c) = mix_chain f (last (X # ys)) c bs in (ys @ zs, c))"
  by (induction as arbitrary: X c) (simp_all add: Let_def split_beta)

lemma length_mix_chain [simp]: "length (fst (mix_chain f X c bs)) = length bs"
  by (induction bs arbitrary: X c) (simp_all add: Let_def split_beta)

definition block_mix :: "nat \<Rightarrow> u32 list list \<Rightarrow> ref_ctx \<Rightarrow> u32 list list \<times> ref_ctx" where
  "block_mix t Bs c = (let (ys, c) = mix_chain ref_pwxform (last Bs) c Bs in (butlast ys @ [salsa_core t (last ys)], c))"

lemma blocks_mix_chain:
  assumes "\<And>X c. length X = 16 \<Longrightarrow> length (fst (f X c)) = 16"
  shows "length X = 16 \<Longrightarrow> blocks bs \<Longrightarrow> blocks (fst (mix_chain f X c bs))"
proof (induction bs arbitrary: X c)
  case (Cons b bs)
  have "length (fst (f (blkxor X b) c)) = 16" using Cons.prems by (intro assms) simp
  with Cons show ?case by (simp add: Let_def split_beta)
qed simp

lemma blocks_block_mix: "blocks Bs \<Longrightarrow> Bs \<noteq> [] \<Longrightarrow> blocks (fst (block_mix t Bs c))"
  and length_block_mix: "Bs \<noteq> [] \<Longrightarrow> length (fst (block_mix t Bs c)) = length Bs"
proof -
  show "length (fst (block_mix t Bs c)) = length Bs" if "Bs \<noteq> []"
    using that by (simp add: block_mix_def Let_def split_beta)
  show "blocks (fst (block_mix t Bs c))" if "blocks Bs" "Bs \<noteq> []"
  proof -
    have "blocks (fst (mix_chain ref_pwxform (last Bs) c Bs))"
      using that by (intro blocks_mix_chain) (simp_all add: blocks_last)
    then show ?thesis by (simp add: block_mix_def Let_def split_beta)
  qed
qed

text \<open>The reference, over the flat array.\<close>

lemma ref_rounds_kept: "rc_salsa20_rounds (snd (ref_pwxform X c)) = rc_salsa20_rounds c"
  by (simp add: ref_pwxform_def Let_def split_beta)

lemma mix_chain_rounds: "rc_salsa20_rounds (snd (mix_chain ref_pwxform X c bs)) = rc_salsa20_rounds c"
  by (induction bs arbitrary: X c) (simp_all add: Let_def split_beta ref_rounds_kept)

lemma ref_blockmix_turns:
  assumes "blocks Bs" and "1 < length Bs" and "length X = 16" and "k \<le> length Bs"
  shows "for_range 0 k (ref_blockmix_turn (length Bs)) (concat Bs, X, c) =
    (let (ys, c) = mix_chain ref_pwxform X c (take k Bs) in (concat (ys @ drop k Bs), last (X # ys), c))"
  using assms(4)
proof (induction k)
  case (Suc k)
  obtain ys c' where ch: "mix_chain ref_pwxform X c (take k Bs) = (ys, c')" by fastforce
  have len: "length ys = k"
    using length_mix_chain [of ref_pwxform X c "take k Bs"] ch Suc.prems by simp
  have ys: "blocks ys"
    using blocks_mix_chain [of ref_pwxform X "take k Bs" c] assms(1,3) ch by simp
  have X': "length (last (X # ys)) = 16"
    using ys assms(3) by (cases "ys = []") (simp_all add: blocks_last)
  obtain y c'' where y: "ref_pwxform (blkxor (last (X # ys)) (Bs ! k)) c' = (y, c'')" by fastforce
  have ly: "length y = 16"
    using length_ref_pwxform [of "blkxor (last (X # ys)) (Bs ! k)" c'] X' blocks_nth [OF assms(1), of k] Suc.prems
    unfolding y by (simp del: last.simps)
  have all: "blocks (ys @ drop k Bs)" using ys assms(1) by auto
  have nth: "(ys @ drop k Bs) ! k = Bs ! k" using len Suc.prems by (simp add: nth_append)
  have upd: "(ys @ drop k Bs)[k := y] = (ys @ [y]) @ drop (Suc k) Bs"
    using len Suc.prems by (simp add: list_update_append Cons_nth_drop_Suc [symmetric])
  have "for_range 0 (Suc k) (ref_blockmix_turn (length Bs)) (concat Bs, X, c) =
      ref_blockmix_turn (length Bs) (concat (ys @ drop k Bs), last (X # ys), c') k"
    using Suc ch by (simp add: for_range_Suc)
  also have "\<dots> = (concat ((ys @ [y]) @ drop (Suc k) Bs), y, c'')"
    using assms(2) Suc.prems len sub_concat_block [OF all, of k] blit_concat_block [OF all ly, of k] y
    by (simp add: ref_blockmix_turn_def nth upd Let_def del: concat_append append_assoc)
  moreover have "mix_chain ref_pwxform X c (take (Suc k) Bs) = (ys @ [y], c'')"
    using Suc.prems ch y by (simp add: take_Suc_conv_app_nth mix_chain_append Let_def)
  ultimately show ?case by simp
qed simp

lemma ref_blockmix_mix:
  assumes "blocks Bs" and "length Bs = 2 * r" and "0 < r" and "rc_salsa20_rounds c = 2 * t"
  shows "ref_blockmix_pwxform (concat Bs) c r = (concat (fst (block_mix t Bs c)), snd (block_mix t Bs c))"
proof -
  define n where "n = 2 * r - 1"
  have r1: "128 * r div 64 = 2 * r" "(2 * r - 1) * 64 div 64 = n" by (simp_all add: n_def)
  have n: "n < length Bs" "Suc n = length Bs" using assms(2,3) by (simp_all add: n_def)
  have lastB: "sub (n * 16) 16 (concat Bs) = last Bs"
  proof -
    have "last Bs = Bs ! n" by (rule last_nth [OF n(2) [symmetric]])
    then show ?thesis using sub_concat_block [OF assms(1) n(1)] by simp
  qed
  obtain ys c' where ch: "mix_chain ref_pwxform (last Bs) c Bs = (ys, c')" by fastforce
  have l16: "length (last Bs) = 16" using assms by (intro blocks_last) auto
  have len: "length ys = length Bs"
    using length_mix_chain [of ref_pwxform "last Bs" c Bs] ch by simp
  have ys: "blocks ys"
    using blocks_mix_chain [of ref_pwxform "last Bs" Bs c] assms(1) l16 ch by simp
  have turns: "for_range 0 (2 * r) (ref_blockmix_turn (2 * r)) (concat Bs, last Bs, c) = (concat ys, last (last Bs # ys), c')"
    using ref_blockmix_turns [OF assms(1) _ l16, of "length Bs" c] ch assms(2,3) by simp
  have ne: "ys \<noteq> []" using len assms by auto
  have lasty: "ys ! n = last ys" using last_nth [of ys n] len n(2) by simp
  have upd: "ys[n := y] = butlast ys @ [y]" for y
    using ne len n(2) by (metis diff_Suc_1 list_update_length append_butlast_last_id length_butlast)
  have "rc_salsa20_rounds c' = 2 * t"
    using mix_chain_rounds [of "last Bs" c Bs] ch assms(4) by simp
  then have core: "ref_salsa20 (last ys) (rc_salsa20_rounds c') = salsa_core t (last ys)"
    using ref_salsa20_core blocks_last [OF ys ne] by simp
  have "blit (concat ys) (n * 16) (salsa_core t (last ys)) = concat (butlast ys @ [salsa_core t (last ys)])"
    using blit_concat_block [OF ys, of "salsa_core t (last ys)" n] len n upd by simp
  moreover have "sub (n * 16) 16 (concat ys) = last ys"
    using sub_concat_block [OF ys, of n] len n lasty by simp
  moreover have "for_range (n + 1) (2 * r) h x = x" for h x
    using n(2) assms(2) by (intro for_range_empty) simp
  ultimately show ?thesis
    unfolding ref_blockmix_pwxform_def r1 Let_def n_def [symmetric] lastB turns prod.case core
    by (simp add: core block_mix_def ch)
qed


text \<open>The unrolled loops of the optimised code are the same chain.\<close>

lemma mix_chain_rel:
  assumes "pass = 1 \<or> pass = 2"
  shows "ctx_rel pass rc oc \<Longrightarrow> mix_chain ref_pwxform X rc bs = (ys, rc') \<Longrightarrow>
    \<exists>oc'. mix_chain (PWXFORM pass) X oc bs = (ys, oc') \<and> ctx_rel pass rc' oc'"
proof (induction bs arbitrary: X rc oc ys rc')
  case (Cons b bs)
  obtain y rc1 where y: "ref_pwxform (blkxor X b) rc = (y, rc1)" by fastforce
  obtain zs where zs: "mix_chain ref_pwxform y rc1 bs = (zs, rc')" "ys = y # zs"
    using Cons.prems(2) y by (auto simp: Let_def split: prod.splits)
  obtain oc1 where oc1: "PWXFORM pass (blkxor X b) oc = (y, oc1)" "ctx_rel pass rc1 oc1"
    using PWXFORM_rel [OF Cons.prems(1) assms y] by blast
  obtain oc' where "mix_chain (PWXFORM pass) y oc1 bs = (zs, oc')" "ctx_rel pass rc' oc'"
    using Cons.IH [OF oc1(2) zs(1)] by blast
  then show ?case using oc1 zs(2) by simp
qed simp

lemma length_PWXFORM:
  assumes "ctx_rel pass rc oc" and "pass = 1 \<or> pass = 2"
  shows "length (fst (PWXFORM pass X oc)) = length X"
  using PWXFORM_rel [OF assms, of X "fst (ref_pwxform X rc)" "snd (ref_pwxform X rc)"] by auto

lemma XOR_X: "length X = 16 \<Longrightarrow> length b = 16 \<Longrightarrow> XOR_blk X X b = blkxor X b"
  by (simp add: XOR_blk_eq)

lemma XOR_X_2_eq: "length a = 16 \<Longrightarrow> length b = 16 \<Longrightarrow> XOR_X_2 a b = blkxor a b"
  by (simp add: XOR_X_2_def XOR_blk_eq)

lemma opt_blockmix_loop_chain:
  assumes "pass = 1 \<or> pass = 2" and "blocks Bin" and "length Bin = r + 1" and "length Bout = r + 1"
  shows "ctx_rel pass rc oc \<Longrightarrow> length X = 16 \<Longrightarrow> i \<le> r \<Longrightarrow> mix_chain ref_pwxform X rc (drop i Bin) = (ys, rc') \<Longrightarrow> length Bout = r + 1 \<Longrightarrow>
    \<exists>oc'. opt_blockmix_loop pass Bin r i X Bout oc = (r, last ys, take i Bout @ butlast ys @ [Bout ! r], oc') \<and> ctx_rel pass rc' oc'"
proof (induction "r - i" arbitrary: i X Bout rc oc ys)
  case 0
  then have i: "i = r" by simp
  then have drop: "drop i Bin = [Bin ! r]" using assms(3) by (simp add: Cons_nth_drop_Suc [symmetric])
  obtain y where y: "ref_pwxform (blkxor X (Bin ! r)) rc = (y, rc')" "ys = [y]"
    using 0 drop by (auto simp: Let_def split: prod.splits)
  obtain oc' where "PWXFORM pass (blkxor X (Bin ! r)) oc = (y, oc')" "ctx_rel pass rc' oc'"
    using PWXFORM_rel [OF 0(2) assms(1) y(1)] by blast
  moreover have "take r Bout @ [Bout ! r] = Bout"
    using 0(6) by (simp add: take_Suc_conv_app_nth [symmetric])
  ultimately show ?case
    using 0 i y assms(2,3) blocks_nth [OF assms(2), of r]
    by (subst opt_blockmix_loop.simps) (simp add: XOR_X Let_def)
next
  case (Suc n)
  then have i: "i < r" by simp
  have drop: "drop i Bin = Bin ! i # drop (i + 1) Bin" using i assms(3) by (simp add: Cons_nth_drop_Suc)
  have b: "length (Bin ! i) = 16" using blocks_nth [OF assms(2)] i assms(3) by simp
  obtain y rc1 where y: "ref_pwxform (blkxor X (Bin ! i)) rc = (y, rc1)" by fastforce
  obtain zs where zs: "mix_chain ref_pwxform y rc1 (drop (i + 1) Bin) = (zs, rc')" "ys = y # zs"
    using Suc.prems(4) drop y by (auto simp: Let_def split: prod.splits)
  obtain oc1 where oc1: "PWXFORM pass (blkxor X (Bin ! i)) oc = (y, oc1)" "ctx_rel pass rc1 oc1"
    using PWXFORM_rel [OF Suc.prems(1) assms(1) y] by blast
  have ly: "length y = 16"
    using length_ref_pwxform [of "blkxor X (Bin ! i)" rc] b Suc.prems(2) unfolding y by simp
  have "length zs = r - i"
    using length_mix_chain [of ref_pwxform y rc1 "drop (i + 1) Bin"] i assms(3) unfolding zs(1) by simp
  then have "zs \<noteq> []" using i by auto
  moreover have "n = r - (i + 1)" using Suc.hyps(2) by simp
  moreover obtain oc' where "opt_blockmix_loop pass Bin r (i + 1) y (Bout[i := y]) oc1 =
      (r, last zs, take (i + 1) (Bout[i := y]) @ butlast zs @ [Bout[i := y] ! r], oc')" "ctx_rel pass rc' oc'"
    using Suc.hyps(1) [OF calculation(2) oc1(2) ly _ zs(1), of "Bout[i := y]"] i Suc.prems(5) by auto
  moreover have "take (i + 1) (Bout[i := y]) = take i Bout @ [y]"
    using i Suc.prems(5) by (simp add: take_Suc_conv_app_nth)
  moreover have "Bout[i := y] ! r = Bout ! r" using i by simp
  ultimately show ?case
    using i oc1(1) zs(2) Suc.prems(2) b by (subst opt_blockmix_loop.simps) (simp add: XOR_X Let_def)
qed

lemma SALSA20_out: "length X = 16 \<Longrightarrow> length b = 16 \<Longrightarrow> SALSA20 pass X b = (salsa_core (salsa_turns pass) X, salsa_core (salsa_turns pass) X)"
  by (rule SALSA20_core)

lemma opt_blockmix_mix:
  assumes "pass = 1 \<or> pass = 2" and "ctx_rel pass rc oc" and "blocks Bin" and "blocks Bout"
    and "length Bin = 2 * r" and "length Bout = 2 * r" and "0 < r" and "block_mix (salsa_turns pass) Bin rc = (out, rc')"
  shows "\<exists>oc'. opt_blockmix pass Bin Bout r (Some oc) = (out, Some oc') \<and> ctx_rel pass rc' oc'"
proof -
  define n where "n = r * 2 - 1"
  have n: "length Bin = n + 1" "length Bout = n + 1" using assms(5-7) by (simp_all add: n_def)
  have n_last: "Bin ! n = last Bin" using last_nth [of Bin n] n(1) by simp
  have l16: "length (last Bin) = 16" using assms by (intro blocks_last) auto
  obtain ys where ys: "mix_chain ref_pwxform (last Bin) rc Bin = (ys, rc')" "out = butlast ys @ [salsa_core (salsa_turns pass) (last ys)]"
    using assms(8) by (auto simp: block_mix_def Let_def split: prod.splits)
  obtain oc' where oc': "opt_blockmix_loop pass Bin n 0 (last Bin) Bout oc = (n, last ys, butlast ys @ [Bout ! n], oc')" "ctx_rel pass rc' oc'"
    using opt_blockmix_loop_chain [OF assms(1,3) n(1,2) assms(2) l16, of 0 ys rc'] ys(1) n(2) by auto
  have len: "length ys = n + 1" using length_mix_chain [of ref_pwxform "last Bin" rc Bin] ys(1) n(1) by simp
  then have "ys \<noteq> []" by auto
  moreover have "blocks ys"
    using blocks_mix_chain [of ref_pwxform "last Bin" Bin rc] assms(3) l16 ys(1) by simp
  ultimately have last16: "length (last ys) = 16" by (intro blocks_last)
  have "length (Bout ! n) = 16" using blocks_nth [OF assms(4)] n(2) by simp
  then show ?thesis
    using oc' last16 len ys(2)
    unfolding opt_blockmix_def option.case n_def [symmetric] n_last Let_def
    by (simp add: nth_append SALSA20_out list_update_append)
qed


text \<open>The loop over two blocks at a time, with the exclusive or of two inputs.\<close>

lemma length_map2 [simp]: "length (map2 f xs ys) = min (length xs) (length ys)"
  by simp

lemma last_of_chain:
  assumes "mix_chain ref_pwxform X rc bs = (ys, rc')" and "length X = 16" and "blocks bs" and "bs \<noteq> []"
  shows "length ys = length bs" and "ys \<noteq> []" and "length (last ys) = 16" and "blocks ys"
proof -
  show len: "length ys = length bs"
    using length_mix_chain [of ref_pwxform X rc bs] unfolding assms(1) by simp
  then show ne: "ys \<noteq> []" using assms(4) by auto
  show "blocks ys"
    using blocks_mix_chain [of ref_pwxform X bs rc] assms(2,3) unfolding assms(1) by simp
  with ne show "length (last ys) = 16" by (intro blocks_last)
qed

lemma chain_two:
  assumes "mix_chain ref_pwxform X rc (a # b # bs) = (ys, rc')" and "length X = 16" and "length a = 16" and "length b = 16"
    and "ctx_rel pass rc oc" and "pass = 1 \<or> pass = 2"
  obtains y z zs rc2 oc1 oc2 where "ys = y # z # zs" and "PWXFORM pass (blkxor X a) oc = (y, oc1)"
    and "PWXFORM pass (blkxor y b) oc1 = (z, oc2)" and "ctx_rel pass rc2 oc2" and "mix_chain ref_pwxform z rc2 bs = (zs, rc')"
    and "length y = 16" and "length z = 16"
proof -
  obtain y rc1 where y: "ref_pwxform (blkxor X a) rc = (y, rc1)" by fastforce
  obtain z rc2 where z: "ref_pwxform (blkxor y b) rc1 = (z, rc2)" by fastforce
  obtain zs where zs: "mix_chain ref_pwxform z rc2 bs = (zs, rc')" "ys = y # z # zs"
    using assms(1) y z by (auto simp: Let_def split: prod.splits)
  obtain oc1 where oc1: "PWXFORM pass (blkxor X a) oc = (y, oc1)" "ctx_rel pass rc1 oc1"
    using PWXFORM_rel [OF assms(5,6) y] by blast
  obtain oc2 where oc2: "PWXFORM pass (blkxor y b) oc1 = (z, oc2)" "ctx_rel pass rc2 oc2"
    using PWXFORM_rel [OF oc1(2) assms(6) z] by blast
  have ly: "length y = 16" using length_ref_pwxform [of "blkxor X a" rc] assms(2,3) unfolding y by simp
  have "length z = 16" using length_ref_pwxform [of "blkxor y b" rc1] assms(4) ly unfolding z by simp
  with that oc1(1) oc2 zs ly show thesis by blast
qed

lemma drop_two: "i + 1 < length xs \<Longrightarrow> drop i xs = xs ! i # xs ! (i + 1) # drop (i + 2) xs"
  by (simp add: Cons_nth_drop_Suc)

lemma take_two: "i + 1 < length xs \<Longrightarrow> take (i + 2) (xs[i := y, i + 1 := z]) = take i xs @ [y, z]"
  by (simp add: take_Suc_conv_app_nth)

lemma opt_blockmix_xor_loop_chain:
  assumes "pass = 1 \<or> pass = 2" and "blocks Bin1" and "blocks Bin2" and "length Bin1 = r + 2" and "length Bin2 = r + 2" and "even r"
  shows "ctx_rel pass rc oc \<Longrightarrow> length X = 16 \<Longrightarrow> i \<le> r \<Longrightarrow> even i \<Longrightarrow> length Bout = r + 2 \<Longrightarrow>
    mix_chain ref_pwxform X rc (drop i (map2 blkxor Bin1 Bin2)) = (ys, rc') \<Longrightarrow>
    \<exists>oc'. opt_blockmix_xor_loop pass Bin1 Bin2 r i X Bout oc = (r, last ys, take i Bout @ butlast ys @ [Bout ! (r + 1)], oc') \<and> ctx_rel pass rc' oc'"
proof (induction "r - i" arbitrary: i X Bout rc oc ys rule: less_induct)
  case less
  let ?Bs = "map2 blkxor Bin1 Bin2"
  have b: "length (Bin1 ! i) = 16" "length (Bin1 ! (i + 1)) = 16" "length (Bin2 ! i) = 16" "length (Bin2 ! (i + 1)) = 16"
    using less.prems(3) assms(4,5) blocks_nth [OF assms(2)] blocks_nth [OF assms(3)] by simp_all
  have two: "drop i ?Bs = blkxor (Bin1 ! i) (Bin2 ! i) # blkxor (Bin1 ! (i + 1)) (Bin2 ! (i + 1)) # drop (i + 2) ?Bs"
    using less.prems(3) assms(4,5) by (subst drop_two) simp_all
  have ab: "length (blkxor (Bin1 ! i) (Bin2 ! i)) = 16" "length (blkxor (Bin1 ! (i + 1)) (Bin2 ! (i + 1))) = 16"
    using b by simp_all
  obtain y z zs rc2 oc1 oc2 where s0: "ys = y # z # zs" "PWXFORM pass (blkxor X (blkxor (Bin1 ! i) (Bin2 ! i))) oc = (y, oc1)"
      "PWXFORM pass (blkxor y (blkxor (Bin1 ! (i + 1)) (Bin2 ! (i + 1)))) oc1 = (z, oc2)" "ctx_rel pass rc2 oc2"
      "mix_chain ref_pwxform z rc2 (drop (i + 2) ?Bs) = (zs, rc')" "length y = 16" "length z = 16"
    by (rule chain_two [OF less.prems(6) [unfolded two] less.prems(2) ab less.prems(1) assms(1)])
  note s = s0 [unfolded blkxor_assoc [symmetric]]
  show ?case
  proof (cases "i = r")
    case True
    then have "zs = []" using s(5) assms(4,5) by simp
    moreover have "rc2 = rc'" using s(5) True assms(4,5) by simp
    moreover have "Bout[r := y] = take r Bout @ [y, Bout ! (r + 1)]"
      using less.prems(5) by (simp add: upd_conv_take_nth_drop Cons_nth_drop_Suc [symmetric])
    ultimately show ?thesis
      using s b True less.prems(2) by (subst opt_blockmix_xor_loop.simps) (simp add: XOR_X Let_def)
  next
    case False
    then have i: "i + 2 \<le> r" using less.prems(3,4) assms(6) by presburger
    have "length zs = r - i"
      using length_mix_chain [of ref_pwxform z rc2 "drop (i + 2) ?Bs"] i assms(4,5) unfolding s(5) by simp
    then have ne: "zs \<noteq> []" using i by auto
    have "\<exists>oc'. opt_blockmix_xor_loop pass Bin1 Bin2 r (i + 2) z (Bout[i := y, i + 1 := z]) oc2 =
        (r, last zs, take (i + 2) (Bout[i := y, i + 1 := z]) @ butlast zs @ [Bout[i := y, i + 1 := z] ! (r + 1)], oc') \<and> ctx_rel pass rc' oc'"
      using i less.prems(4,5) s(4-7) by (intro less.hyps) auto
    moreover have "take (i + 2) (Bout[i := y, i + 1 := z]) = take i Bout @ [y, z]"
      using i less.prems(5) by (intro take_two) simp
    moreover have "Bout[i := y, i + 1 := z] ! (r + 1) = Bout ! (r + 1)" using i by simp
    ultimately show ?thesis
      using s(1-3,6) b i less.prems(2) ne by (subst opt_blockmix_xor_loop.simps) (simp add: XOR_X Let_def)
  qed
qed

lemma block_mix_out:
  assumes "block_mix t Bs rc = (out, rc')" and "blocks Bs" and "length Bs = n + 1"
  obtains ys where "mix_chain ref_pwxform (last Bs) rc Bs = (ys, rc')" and "out = butlast ys @ [salsa_core t (last ys)]"
    and "length ys = n + 1" and "length (last ys) = 16" and "last Bs = Bs ! n" and "length (last Bs) = 16" and "blocks ys"
    and "last out = salsa_core t (last ys)"
proof -
  obtain ys where ys: "mix_chain ref_pwxform (last Bs) rc Bs = (ys, rc')" "out = butlast ys @ [salsa_core t (last ys)]"
    using assms(1) by (auto simp: block_mix_def Let_def split: prod.splits)
  have ne: "Bs \<noteq> []" using assms(3) by auto
  have l16: "length (last Bs) = 16" using blocks_last [OF assms(2) ne] .
  show thesis
    using that ys l16 last_of_chain [OF ys(1) l16 assms(2) ne] last_nth [of Bs n] assms(3) by simp
qed

lemma opt_blockmix_xor_mix:
  assumes "pass = 1 \<or> pass = 2" and "ctx_rel pass rc oc" and "blocks Bin1" and "blocks Bin2" and "blocks Bout"
    and "length Bin1 = 2 * r" and "length Bin2 = 2 * r" and "length Bout = 2 * r" and "0 < r"
    and "block_mix (salsa_turns pass) (map2 blkxor Bin1 Bin2) rc = (out, rc')"
  shows "\<exists>oc'. opt_blockmix_xor pass Bin1 Bin2 Bout r (Some oc) = (out, last out ! 0, Some oc') \<and> ctx_rel pass rc' oc'"
proof -
  define m where "m = r * 2 - 1 - 1"
  have m: "r * 2 - 1 = m + 1" "even m" "length Bin1 = m + 2" "length Bin2 = m + 2" "length Bout = m + 2"
    using assms(6-9) by (auto simp: m_def)
  let ?Bs = "map2 blkxor Bin1 Bin2"
  have Bs: "blocks ?Bs" "length ?Bs = m + 1 + 1" using blocks_xor [OF assms(3,4)] m by simp_all
  obtain ys where ys: "mix_chain ref_pwxform (last ?Bs) rc ?Bs = (ys, rc')" "out = butlast ys @ [salsa_core (salsa_turns pass) (last ys)]"
      "length ys = m + 1 + 1" "length (last ys) = 16" "last ?Bs = ?Bs ! (m + 1)" "length (last ?Bs) = 16"
      "last out = salsa_core (salsa_turns pass) (last ys)"
    by (rule block_mix_out [OF assms(10) Bs])
  have X: "XOR_X_2 (Bin1 ! (m + 1)) (Bin2 ! (m + 1)) = last ?Bs"
    using m ys(5) blocks_nth [OF assms(3)] blocks_nth [OF assms(4)] by (simp add: XOR_X_2_eq)
  obtain oc' where oc': "opt_blockmix_xor_loop pass Bin1 Bin2 m 0 (last ?Bs) Bout oc = (m, last ys, butlast ys @ [Bout ! (m + 1)], oc')" "ctx_rel pass rc' oc'"
    using opt_blockmix_xor_loop_chain [OF assms(1,3,4) m(3,4,2) assms(2) ys(6), of 0 Bout ys rc'] ys(1) m(5) by auto
  have "length (Bout ! (m + 1)) = 16" using blocks_nth [OF assms(5)] m(5) by simp
  then show ?thesis
    using oc' ys(2-4,7) unfolding opt_blockmix_xor_def option.case m(1) Let_def X
    by (simp add: nth_append SALSA20_out list_update_append INTEGERIFY_eq)
qed

lemma update_two: "length xs = r + 2 \<Longrightarrow> xs[r := y, r + 1 := z] = take r xs @ [y, z]"
  by (simp add: upd_conv_take_nth_drop)

lemma opt_blockmix_save_loop_chain:
  assumes "pass = 1 \<or> pass = 2" and "even r"
  shows "ctx_rel pass rc oc \<Longrightarrow> length X = 16 \<Longrightarrow> i \<le> r \<Longrightarrow> even i \<Longrightarrow> length A = r + 2 \<Longrightarrow> length B = r + 2 \<Longrightarrow>
    blocks A \<Longrightarrow> blocks B \<Longrightarrow> mix_chain ref_pwxform X rc (drop i (map2 blkxor A B)) = (ys, rc') \<Longrightarrow>
    \<exists>oc'. opt_blockmix_save_loop pass r i X A B oc =
      (r, last ys, take i A @ butlast ys @ [A ! (r + 1)], take i B @ drop i (map2 blkxor A B), oc') \<and> ctx_rel pass rc' oc'"
proof (induction "r - i" arbitrary: i X A B rc oc ys rule: less_induct)
  case less
  let ?Bs = "map2 blkxor A B"
  have b: "length (A ! i) = 16" "length (A ! (i + 1)) = 16" "length (B ! i) = 16" "length (B ! (i + 1)) = 16"
    using less.prems(3,5,6) blocks_nth [OF less.prems(7)] blocks_nth [OF less.prems(8)] by simp_all
  define a where "a = blkxor (A ! i) (B ! i)"
  define a' where "a' = blkxor (A ! (i + 1)) (B ! (i + 1))"
  have two: "drop i ?Bs = a # a' # drop (i + 2) ?Bs"
    using less.prems(3,5,6) by (subst drop_two) (simp_all add: a_def a'_def)
  have ab: "length a = 16" "length a' = 16" using b by (simp_all add: a_def a'_def)
  obtain y z zs rc2 oc1 oc2 where s: "ys = y # z # zs" "PWXFORM pass (blkxor X a) oc = (y, oc1)"
      "PWXFORM pass (blkxor y a') oc1 = (z, oc2)" "ctx_rel pass rc2 oc2"
      "mix_chain ref_pwxform z rc2 (drop (i + 2) ?Bs) = (zs, rc')" "length y = 16" "length z = 16"
    by (rule chain_two [OF less.prems(9) [unfolded two] less.prems(2) ab less.prems(1) assms(1)])
  have w: "XOR_X_WRITE_XOR_Y_2 X (B ! i) (A ! i) = (a, blkxor X a)" "XOR_X_WRITE_XOR_Y_2 y (B ! (i + 1)) (A ! (i + 1)) = (a', blkxor y a')"
    using b ab less.prems(2) s(6)
    by (simp_all add: XOR_X_WRITE_XOR_Y_2_def XOR_X_2_eq blkxor_commute [of "B ! i"] blkxor_commute [of "B ! (i + 1)"]
        blkxor_commute [of "B ! Suc i"] a_def [symmetric] a'_def [symmetric, simplified] XOR_X)
  let ?A = "A[i := y, i + 1 := z]" and ?B = "B[i := a, i + 1 := a']"
  have step: "opt_blockmix_save_loop pass r i X A B oc =
      (if r \<le> i then (i, z, A[i := y], ?B, oc2) else opt_blockmix_save_loop pass r (i + 2) z ?A ?B oc2)"
    unfolding opt_blockmix_save_loop.simps [of pass r i] w(1) Let_def prod.case s(2)
    using w(2) s(3) by simp
  show ?case
  proof (cases "i = r")
    case True
    then have "zs = []" "rc2 = rc'" using s(5) less.prems(5,6) by simp_all
    moreover have "A[r := y] = take r A @ [y, A ! (r + 1)]"
      using less.prems(5) by (simp add: upd_conv_take_nth_drop Cons_nth_drop_Suc [symmetric])
    moreover have "?B = take i B @ drop i ?Bs"
      using less.prems(5,6) update_two [OF less.prems(6), of a a'] True unfolding two by simp
    ultimately show ?thesis using step s(1,4) True by simp
  next
    case False
    then have i: "i + 2 \<le> r" using less.prems(3,4) assms(2) by presburger
    have "length zs = r - i"
      using length_mix_chain [of ref_pwxform z rc2 "drop (i + 2) ?Bs"] i less.prems(5,6) unfolding s(5) by simp
    then have ne: "zs \<noteq> []" using i by auto
    have rest: "drop (i + 2) (map2 blkxor ?A ?B) = drop (i + 2) ?Bs"
      by (simp add: drop_map drop_zip)
    have "\<exists>oc'. opt_blockmix_save_loop pass r (i + 2) z ?A ?B oc2 =
        (r, last zs, take (i + 2) ?A @ butlast zs @ [?A ! (r + 1)], take (i + 2) ?B @ drop (i + 2) (map2 blkxor ?A ?B), oc') \<and> ctx_rel pass rc' oc'"
      using i less.prems(4-8) s(4-7) ab by (intro less.hyps) (auto simp only: rest intro!: blocks_update, simp_all)
    moreover have "take (i + 2) ?A = take i A @ [y, z]" "take (i + 2) ?B = take i B @ [a, a']"
      using i less.prems(5,6) by (intro take_two; simp)+
    moreover have "?A ! (r + 1) = A ! (r + 1)" using i by simp
    ultimately show ?thesis
      unfolding step two rest using s(1) i ne by auto
  qed
qed

lemma opt_blockmix_save_mix:
  assumes "pass = 1 \<or> pass = 2" and "ctx_rel pass rc oc" and "blocks A" and "blocks B"
    and "length A = 2 * r" and "length B = 2 * r" and "0 < r"
    and "block_mix (salsa_turns pass) (map2 blkxor A B) rc = (out, rc')"
  shows "\<exists>oc'. opt_blockmix_xor_save pass A B r oc = (out, map2 blkxor A B, last out ! 0, oc') \<and> ctx_rel pass rc' oc'"
proof -
  define m where "m = r * 2 - 1 - 1"
  have m: "r * 2 - 1 = m + 1" "even m" "length A = m + 2" "length B = m + 2"
    using assms(5-7) by (auto simp: m_def)
  let ?Bs = "map2 blkxor A B"
  have Bs: "blocks ?Bs" "length ?Bs = m + 1 + 1" using blocks_xor [OF assms(3,4)] m by simp_all
  obtain ys where ys: "mix_chain ref_pwxform (last ?Bs) rc ?Bs = (ys, rc')" "out = butlast ys @ [salsa_core (salsa_turns pass) (last ys)]"
      "length ys = m + 1 + 1" "length (last ys) = 16" "last ?Bs = ?Bs ! (m + 1)" "length (last ?Bs) = 16"
      "last out = salsa_core (salsa_turns pass) (last ys)"
    by (rule block_mix_out [OF assms(8) Bs])
  have X: "XOR_X_2 (A ! (m + 1)) (B ! (m + 1)) = last ?Bs"
    using m ys(5) blocks_nth [OF assms(3)] blocks_nth [OF assms(4)] by (simp add: XOR_X_2_eq)
  obtain oc' where oc': "opt_blockmix_save_loop pass m 0 (last ?Bs) A B oc = (m, last ys, butlast ys @ [A ! (m + 1)], ?Bs, oc')" "ctx_rel pass rc' oc'"
    using opt_blockmix_save_loop_chain [OF assms(1) m(2) assms(2) ys(6), of 0 A B ys rc'] ys(1) m(3,4) assms(3,4) by auto
  have "length (A ! (m + 1)) = 16" using blocks_nth [OF assms(3)] m(3) by simp
  then show ?thesis
    using oc' ys(2-4,7) unfolding opt_blockmix_xor_save_def m(1) Let_def X
    by (simp add: nth_append SALSA20_out list_update_append INTEGERIFY_eq)
qed

end
