(* ===== verification/YespowerMemory.thy ===== *)
theory YespowerMemory
  imports YespowerMix
begin

text \<open>
  The mixing of the S-boxes, both mixers under one name (\<open>mixer\<close>), and how blocks are loaded from and stored
  to the byte buffer: the reference shuffles the words while it copies them, the optimised code block-wise.
\<close>

section \<open>The mixing of the S-boxes, and both mixers together\<close>

definition salsa_mix :: "nat \<Rightarrow> u32 list list \<Rightarrow> u32 list list" where
  "salsa_mix t Bs = (let y = salsa_core t (blkxor (Bs ! 1) (Bs ! 0)) in [y, salsa_core t (blkxor y (Bs ! 1))])"

lemma two_blocks:
  assumes "length Bs = 2"
  obtains a b where "Bs = [a, b]"
  using assms by (auto simp: numeral_2_eq_2 length_Suc_conv)

lemma ref_blockmix_salsa_mix:
  assumes "blocks Bs" and "length Bs = 2"
  shows "ref_blockmix_salsa (concat Bs) (2 * t) = concat (salsa_mix t Bs)"
proof -
  obtain a b where Bs: "Bs = [a, b]" using two_blocks [OF assms(2)] .
  have "length a = 16" "length b = 16" using assms(1) Bs by simp_all
  then show ?thesis
    by (simp add: Bs ref_blockmix_salsa_def for_range_2 salsa_mix_def Let_def sub_def blit_def ref_salsa20_core)
qed

lemma opt_blockmix_salsa_mix:
  assumes "blocks Bs" and "length Bs = 2" and "blocks Bout" and "length Bout = 2"
  shows "opt_blockmix_salsa pass Bs Bout = salsa_mix (salsa_turns pass) Bs"
proof -
  obtain a b where Bs: "Bs = [a, b]" using two_blocks [OF assms(2)] .
  obtain c d where Bout: "Bout = [c, d]" using two_blocks [OF assms(4)] .
  have "length a = 16" "length b = 16" "length c = 16" "length d = 16" using assms(1,3) Bs Bout by simp_all
  then show ?thesis
    by (simp add: Bs Bout opt_blockmix_salsa_def salsa_mix_def Let_def SALSA20_XOR_MEM_def XOR_X SALSA20_out)
qed

lemma opt_blockmix_salsa_xor_mix:
  assumes "blocks Bs" and "length Bs = 2" and "blocks Cs" and "length Cs = 2" and "blocks Bout" and "length Bout = 2"
  shows "opt_blockmix_salsa_xor pass Bs Cs Bout =
    (salsa_mix (salsa_turns pass) (map2 blkxor Bs Cs), last (salsa_mix (salsa_turns pass) (map2 blkxor Bs Cs)) ! 0)"
proof -
  obtain a b where Bs: "Bs = [a, b]" using two_blocks [OF assms(2)] .
  obtain c d where Cs: "Cs = [c, d]" using two_blocks [OF assms(4)] .
  obtain e f where Bout: "Bout = [e, f]" using two_blocks [OF assms(6)] .
  have "length a = 16" "length b = 16" "length c = 16" "length d = 16" "length e = 16" "length f = 16"
    using assms(1,3,5) Bs Cs Bout by simp_all
  then show ?thesis
    by (simp add: Bs Cs Bout opt_blockmix_salsa_xor_def salsa_mix_def Let_def SALSA20_XOR_MEM_def XOR_X XOR_X_2_eq SALSA20_out
        INTEGERIFY_eq blkxor_assoc)
qed

text \<open>\<open>onS\<close>: the S-boxes are being filled.\<close>

definition mixer :: "nat \<Rightarrow> bool \<Rightarrow> u32 list list \<Rightarrow> ref_ctx \<Rightarrow> u32 list list \<times> ref_ctx" where
  "mixer t onS Bs c = (if onS then (salsa_mix t Bs, c) else block_mix t Bs c)"

definition octx_rel :: "nat \<Rightarrow> bool \<Rightarrow> ref_ctx \<Rightarrow> opt_ctx option \<Rightarrow> bool" where
  "octx_rel pass onS rc octxt \<longleftrightarrow> rc_salsa20_rounds rc = 2 * salsa_turns pass \<and>
     (if onS then octxt = None else \<exists>oc. octxt = Some oc \<and> ctx_rel pass rc oc)"

definition ref_next :: "bool \<Rightarrow> nat \<Rightarrow> u32 list \<Rightarrow> ref_ctx \<Rightarrow> u32 list \<times> ref_ctx" where
  "ref_next onS r X c = (if \<not> onS then ref_blockmix_pwxform X c r else (ref_blockmix_salsa X (rc_salsa20_rounds c), c))"

definition mix_ok :: "bool \<Rightarrow> nat \<Rightarrow> u32 list list \<Rightarrow> bool" where
  "mix_ok onS r Bs \<longleftrightarrow> blocks Bs \<and> length Bs = 2 * r \<and> 0 < r \<and> (onS \<longrightarrow> r = 1)"

lemma ref_next_mixer:
  assumes "mix_ok onS r Bs" and "rc_salsa20_rounds rc = 2 * t"
  shows "ref_next onS r (concat Bs) rc = (concat (fst (mixer t onS Bs rc)), snd (mixer t onS Bs rc))"
  using assms ref_blockmix_mix [of Bs r rc t] ref_blockmix_salsa_mix [of Bs t]
  by (auto simp: mix_ok_def ref_next_def mixer_def)

lemma mixer_ok: "mix_ok onS r Bs \<Longrightarrow> mix_ok onS r (fst (mixer t onS Bs rc))"
proof -
  assume ok: "mix_ok onS r Bs"
  then have "Bs \<noteq> []" by (auto simp: mix_ok_def)
  then show ?thesis
    using ok blocks_block_mix [of Bs t rc] length_block_mix [of Bs t rc]
    by (simp add: mix_ok_def mixer_def salsa_mix_def Let_def)
qed

lemma mix_ok_xor: "mix_ok onS r Bs \<Longrightarrow> mix_ok onS r Cs \<Longrightarrow> mix_ok onS r (map2 blkxor Bs Cs)"
  by (simp add: mix_ok_def blocks_xor)

lemma block_mix_rounds: "rc_salsa20_rounds (snd (block_mix t Bs c)) = rc_salsa20_rounds c"
  using mix_chain_rounds [of "last Bs" c Bs] by (simp add: block_mix_def Let_def split_beta)

lemma opt_mixer:
  assumes "pass = 1 \<or> pass = 2" and "octx_rel pass onS rc octxt" and "mix_ok onS r Bs" and "mix_ok onS r Bout"
    and "mixer (salsa_turns pass) onS Bs rc = (out, rc')"
  shows "\<exists>octxt'. opt_blockmix pass Bs Bout r octxt = (out, octxt') \<and> octx_rel pass onS rc' octxt'"
proof (cases onS)
  case True
  then show ?thesis
    using assms by (auto simp: octx_rel_def mixer_def mix_ok_def opt_blockmix_def opt_blockmix_salsa_mix)
next
  case False
  then obtain oc where oc: "octxt = Some oc" "ctx_rel pass rc oc" using assms(2) by (auto simp: octx_rel_def)
  have "rc_salsa20_rounds rc' = 2 * salsa_turns pass"
    using block_mix_rounds [of "salsa_turns pass" Bs rc] assms(2,5) False by (simp add: octx_rel_def mixer_def)
  then show ?thesis
    using opt_blockmix_mix [OF assms(1) oc(2), of Bs Bout r out rc'] assms(3-5) False oc(1)
    by (auto simp: octx_rel_def mixer_def mix_ok_def)
qed

lemma opt_mixer_xor:
  assumes "pass = 1 \<or> pass = 2" and "octx_rel pass onS rc octxt" and "mix_ok onS r Bs" and "mix_ok onS r Cs" and "mix_ok onS r Bout"
    and "mixer (salsa_turns pass) onS (map2 blkxor Bs Cs) rc = (out, rc')"
  shows "\<exists>octxt'. opt_blockmix_xor pass Bs Cs Bout r octxt = (out, last out ! 0, octxt') \<and> octx_rel pass onS rc' octxt'"
proof (cases onS)
  case True
  then show ?thesis
    using assms by (auto simp: octx_rel_def mixer_def mix_ok_def opt_blockmix_xor_def opt_blockmix_salsa_xor_mix)
next
  case False
  then obtain oc where oc: "octxt = Some oc" "ctx_rel pass rc oc" using assms(2) by (auto simp: octx_rel_def)
  have "rc_salsa20_rounds rc' = 2 * salsa_turns pass"
    using block_mix_rounds [of "salsa_turns pass" "map2 blkxor Bs Cs" rc] assms(2,6) False by (simp add: octx_rel_def mixer_def)
  then show ?thesis
    using opt_blockmix_xor_mix [OF assms(1) oc(2), of Bs Cs Bout r out rc'] assms(3-6) False oc(1)
    by (auto simp: octx_rel_def mixer_def mix_ok_def)
qed

section \<open>Loading and storing\<close>

definition load_block :: "bytes \<Rightarrow> nat \<Rightarrow> u32 list" where
  "load_block B k = map (\<lambda>i. le32dec (sub (4 * (k * 16 + i * 5 mod 16)) 4 B)) [0..<16]"

lemma ref_load_blocks: "ref_load B r = concat (map (load_block B) [0..<2 * r])"
  by (simp add: ref_load_def load_block_def [abs_def])

lemma blocks_load [simp]: "blocks (map (load_block B) ks)"
  by (simp add: blocks_def load_block_def)

lemma for_range_fill: "length xs = n \<Longrightarrow> for_range 0 n (\<lambda>xs k. xs[k := f k]) xs = map f [0..<n]"
proof -
  have "k \<le> length xs \<Longrightarrow> for_range 0 k (\<lambda>xs k. xs[k := f k]) xs = map f [0..<k] @ drop k xs" for k xs
    by (induction k) (simp_all add: for_range_Suc list_update_append Cons_nth_drop_Suc [symmetric])
  from this [of n xs] show "length xs = n \<Longrightarrow> ?thesis" by simp
qed

lemma opt_load_blocks:
  assumes "length tmp = 16" and "blocks X" and "n \<le> length X"
  shows "\<exists>tmp'. opt_load n B (tmp, X) = (tmp', map (load_block B) [0..<n] @ drop n X) \<and> length tmp' = 16"
  using assms(3) unfolding opt_load_def
proof (induction n)
  case (Suc n)
  then obtain tmp' where IH: "for_range 0 n (\<lambda>(tmp, X) i. let tmp = for_range 0 16 (\<lambda>tmp k. tmp[k := le32dec (sub (i * 64 + 4 * k) 4 B)]) tmp
       in (tmp, X[i := salsa20_simd_shuffle tmp (X ! i)])) (tmp, X) = (tmp', map (load_block B) [0..<n] @ drop n X)" "length tmp' = 16"
    by auto
  have nth: "(map (load_block B) [0..<n] @ drop n X) ! n = X ! n" using Suc.prems by (simp add: nth_append)
  have xn: "length (X ! n) = 16" using blocks_nth [OF assms(2)] Suc.prems by simp
  define tmp2 where "tmp2 = map (\<lambda>k. le32dec (sub (n * 64 + 4 * k) 4 B)) [0..<16]"
  have tmp2: "for_range 0 16 (\<lambda>tmp k. tmp[k := le32dec (sub (n * 64 + 4 * k) 4 B)]) tmp' = tmp2"
    using IH(2) by (simp add: for_range_fill tmp2_def)
  have "salsa20_simd_shuffle tmp2 (X ! n) = load_block B n"
    using xn by (subst simd_shuffle_eq) (simp_all add: tmp2_def load_block_def algebra_simps)
  moreover have "(map (load_block B) [0..<n] @ drop n X)[n := y] = map (load_block B) [0..<Suc n] @ drop (Suc n) X" if "y = load_block B n" for y
    using Suc.prems that by (simp add: list_update_append Cons_nth_drop_Suc [symmetric])
  moreover have "length tmp2 = 16" by (simp add: tmp2_def)
  ultimately show ?case
    unfolding for_range_Suc [OF le0] unfolding IH(1) unfolding prod.case Let_def tmp2 nth by simp
qed (use assms(1) in simp)

definition store_block :: "u32 list \<Rightarrow> bytes" where
  "store_block x = concat (map (\<lambda>i. le_of_word 4 (x ! (i * 13 mod 16))) [0..<16])"

definition store_blocks :: "u32 list list \<Rightarrow> bytes \<Rightarrow> bytes" where
  "store_blocks Xs B = concat (map store_block Xs) @ drop (64 * length Xs) B"

lemma length_store_block [simp]: "length (store_block x) = 64"
  by (simp add: store_block_def length_concat comp_def sum_list_triv)

lemma length_stored [simp]: "length (concat (map store_block Xs)) = 64 * length Xs"
  by (simp add: length_concat comp_def sum_list_triv)

lemma blit_blocks:
  assumes "64 * n \<le> length B" and "n \<le> length Xs"
  shows "for_range 0 n (\<lambda>B k. blit B (k * 64) (store_block (Xs ! k))) B = concat (map store_block (take n Xs)) @ drop (64 * n) B"
  using assms
proof (induction n)
  case (Suc n)
  have "blit (concat (map store_block (take n Xs)) @ drop (64 * n) B) (n * 64) (store_block (Xs ! n)) =
      concat (map store_block (take (Suc n) Xs)) @ drop (64 * Suc n) B"
    using Suc.prems by (simp add: blit_def take_Suc_conv_app_nth)
  then show ?case using Suc by (simp add: for_range_Suc)
qed simp

lemma opt_store_blocks:
  assumes "length tmp = 16" and "blocks X" and "n \<le> length X" and "64 * n \<le> length B"
  shows "opt_store n X tmp B = store_blocks (take n X) B"
proof -
  have "\<exists>tmp'. for_range 0 n (\<lambda>(tmp, B) i. let tmp = for_range 0 16 (\<lambda>tmp k. tmp[k := word_of_le (le32enc (X ! i ! k))]) tmp
     in (tmp, blit B (i * 64) (le_bytes (salsa20_simd_unshuffle tmp (words_le (sub (i * 64) 64 B)))))) (tmp, B) =
     (tmp', for_range 0 n (\<lambda>B k. blit B (k * 64) (store_block (X ! k))) B) \<and> length tmp' = 16"
    using assms(3)
  proof (induction n)
    case (Suc n)
    have x: "length (X ! n) = 16" using blocks_nth [OF assms(2)] Suc.prems by simp
    have "for_range 0 16 (\<lambda>tmp k. tmp[k := word_of_le (le32enc (X ! n ! k))]) tmp' = X ! n" if "length tmp' = 16" for tmp'
      using that x by (simp add: for_range_fill le32enc_eq) (metis map_nth)
    moreover have "le_bytes (salsa20_simd_unshuffle (X ! n) (words_le m)) = store_block (X ! n)" for m
      using x by (subst simd_unshuffle_eq) (simp_all add: words_le_def le_bytes_def store_block_def comp_def)
    ultimately show ?case
      using Suc.IH Suc.prems x by (auto simp: for_range_Suc Let_def simp del: for_range_empty)
  qed (use assms(1) in simp)
  then show ?thesis
    using assms by (auto simp: opt_store_def blit_blocks store_blocks_def)
qed


text \<open>The reference writes the words of a block one by one.\<close>

definition quads :: "bytes list \<Rightarrow> bool" where
  "quads Ws \<longleftrightarrow> (\<forall>w \<in> set Ws. length w = 4)"

lemma split_quads: "length B = 4 * n \<Longrightarrow> \<exists>Ws. B = concat Ws \<and> length Ws = n \<and> quads Ws"
proof (induction n arbitrary: B)
  case (Suc n)
  have "length (drop 4 B) = 4 * n" using Suc.prems by simp
  from Suc.IH [OF this] obtain Ws where "drop 4 B = concat Ws" "length Ws = n" "quads Ws" by blast
  then show ?case
    using Suc.prems append_take_drop_id [of 4 B] by (intro exI [of _ "take 4 B # Ws"]) (auto simp: quads_def)
qed (simp add: quads_def)

lemma quads_parts:
  "quads Ws \<Longrightarrow> p \<le> length Ws \<Longrightarrow> take (4 * p) (concat Ws) = concat (take p Ws) \<and> drop (4 * p) (concat Ws) = concat (drop p Ws)"
proof (induction Ws arbitrary: p)
  case (Cons w Ws)
  then show ?case by (cases p) (auto simp: quads_def)
qed simp

lemma quads_blit:
  assumes "quads Ws" and "length w = 4" and "p < length Ws"
  shows "blit (concat Ws) (4 * p) w = concat (Ws[p := w])" and "quads (Ws[p := w])"
proof -
  have "drop (4 * p + 4) (concat Ws) = concat (drop (Suc p) Ws)"
    using quads_parts [of Ws "Suc p"] assms by (simp add: add.commute)
  then show "blit (concat Ws) (4 * p) w = concat (Ws[p := w])"
    using quads_parts [of Ws p] assms by (simp add: blit_def upd_conv_take_nth_drop)
  show "quads (Ws[p := w])"
    using assms set_update_subset_insert [of Ws p w] by (auto simp: quads_def)
qed

lemma permuted_update:
  assumes "length Ws = k + 16 + m"
  shows "for_range 0 16 (\<lambda>Ws i. Ws[k + i * 5 mod 16 := f i]) Ws = take k Ws @ map (\<lambda>i. f (i * 13 mod 16)) [0..<16] @ drop (k + 16) Ws"
proof -
  obtain P Q R where W: "Ws = P @ Q @ R" "length P = k" "length Q = 16"
  proof (rule that)
    have "drop (k + 16) Ws = drop 16 (drop k Ws)" by (simp add: add.commute)
    then show "Ws = take k Ws @ take 16 (drop k Ws) @ drop (k + 16) Ws" by (simp only: append_take_drop_id)
  qed (use assms in simp_all)
  have mid: "(P @ V @ R)[k + j := v] = P @ V[j := v] @ R" if "length V = 16" "j < 16" for V j v
    using that W(2) by (simp add: list_update_append)
  have "n \<le> 16 \<Longrightarrow> for_range 0 n (\<lambda>Ws i. Ws[k + i * 5 mod 16 := f i]) (P @ Q @ R) = P @ for_range 0 n (\<lambda>V i. V[i * 5 mod 16 := f i]) Q @ R
      \<and> length (for_range 0 n (\<lambda>V i. V[i * 5 mod 16 := f i]) Q) = 16" for n
    by (induction n) (simp_all add: for_range_Suc mid W(3))
  then have "for_range 0 16 (\<lambda>Ws i. Ws[k + i * 5 mod 16 := f i]) Ws = P @ for_range 0 16 (\<lambda>V i. V[i * 5 mod 16 := f i]) Q @ R"
    by (simp add: W(1))
  also have "for_range 0 16 (\<lambda>V i. V[i * 5 mod 16 := f i]) Q = map (\<lambda>i. f (i * 13 mod 16)) [0..<16]"
    using W(3) by (elim list_16) (simp add: for_range_words upt_16 upd_numeral)
  finally show ?thesis using W by simp
qed

lemma ref_store_inner:
  assumes "length B = 64 * (k + 1 + m)" and "length Y = 16"
  shows "for_range 0 16 (\<lambda>B i. blit B (4 * (k * 16 + i * 5 mod 16)) (le32enc (Y ! i))) B = blit B (k * 64) (store_block Y)"
proof -
  obtain Ws where Ws: "B = concat Ws" "length Ws = k * 16 + 16 + m * 16" "quads Ws"
    using split_quads [of B "k * 16 + 16 + m * 16"] assms(1) by auto
  have "n \<le> 16 \<Longrightarrow> for_range 0 n (\<lambda>B i. blit B (4 * (k * 16 + i * 5 mod 16)) (le32enc (Y ! i))) (concat Ws) =
      concat (for_range 0 n (\<lambda>Ws i. Ws[k * 16 + i * 5 mod 16 := le32enc (Y ! i)]) Ws) \<and>
      quads (for_range 0 n (\<lambda>Ws i. Ws[k * 16 + i * 5 mod 16 := le32enc (Y ! i)]) Ws) \<and>
      length (for_range 0 n (\<lambda>Ws i. Ws[k * 16 + i * 5 mod 16 := le32enc (Y ! i)]) Ws) = length Ws" for n
  proof (induction n)
    case (Suc n)
    have "k * 16 + n * 5 mod 16 < length Ws" using Ws(2) mod_less_divisor [of 16 "n * 5"] by linarith
    moreover have "length (le32enc (Y ! n)) = 4" by (simp add: le32enc_eq)
    ultimately show ?case using Suc by (simp add: for_range_Suc quads_blit del: distrib_left_numeral)
  qed (use Ws in simp)
  from this [of 16] have "for_range 0 16 (\<lambda>B i. blit B (4 * (k * 16 + i * 5 mod 16)) (le32enc (Y ! i))) B =
      concat (take (k * 16) Ws @ map (\<lambda>i. le32enc (Y ! (i * 13 mod 16))) [0..<16] @ drop (k * 16 + 16) Ws)"
    unfolding Ws(1) by (subst permuted_update [OF Ws(2), symmetric]) simp
  also have "\<dots> = blit B (k * 64) (store_block Y)"
  proof -
    have "concat (take (k * 16) Ws) = take (k * 64) B" "concat (drop (k * 16 + 16) Ws) = drop (k * 64 + 64) B"
      using quads_parts [OF Ws(3), of "k * 16"] quads_parts [OF Ws(3), of "k * 16 + 16"] Ws(1,2) by (simp_all add: mult.commute [of k])
    then show ?thesis unfolding blit_def length_store_block by (simp add: store_block_def le32enc_eq comp_def)
  qed
  finally show ?thesis .
qed

lemma ref_store_blocks:
  assumes "blocks Xs" and "length Xs = 2 * r" and "length B = 64 * n" and "2 * r \<le> n"
  shows "ref_store (concat Xs) B r = store_blocks Xs B"
proof -
  have nth: "concat Xs ! (k * 16 + i) = Xs ! k ! i" if "k < 2 * r" "i < 16" for k i
  proof -
    have "sub (k * 16) 16 (concat Xs) = Xs ! k" using that assms by (intro sub_concat_block) simp_all
    then have "Xs ! k ! i = sub (k * 16) 16 (concat Xs) ! i" by simp
    also have "\<dots> = concat Xs ! (k * 16 + i)" using that assms by (intro nth_sub) simp_all
    finally show ?thesis by simp
  qed
  have "m \<le> 2 * r \<Longrightarrow> for_range 0 m (\<lambda>B k. for_range 0 16 (\<lambda>B i. blit B (4 * (k * 16 + i * 5 mod 16)) (le32enc (concat Xs ! (k * 16 + i)))) B) B =
      for_range 0 m (\<lambda>B k. blit B (k * 64) (store_block (Xs ! k))) B \<and>
      length (for_range 0 m (\<lambda>B k. blit B (k * 64) (store_block (Xs ! k))) B) = 64 * n" for m
  proof (induction m)
    case (Suc m)
    let ?B = "for_range 0 m (\<lambda>B k. blit B (k * 64) (store_block (Xs ! k))) B"
    have "for_range 0 16 (\<lambda>B i. blit B (4 * (m * 16 + i * 5 mod 16)) (le32enc (concat Xs ! (m * 16 + i)))) ?B =
        for_range 0 16 (\<lambda>B i. blit B (4 * (m * 16 + i * 5 mod 16)) (le32enc (Xs ! m ! i))) ?B"
      using Suc.prems by (intro for_range_cong) (simp_all add: nth)
    also have "\<dots> = blit ?B (m * 64) (store_block (Xs ! m))"
      using Suc assms(2,4) blocks_nth [OF assms(1), of m] by (intro ref_store_inner [of _ _ "n - m - 1"]) simp_all
    finally show ?case using Suc assms(4) by (simp add: for_range_Suc)
  qed (use assms in simp)
  from this [of "2 * r"] show ?thesis
    using assms blit_blocks [of "2 * r" B Xs] by (simp add: ref_store_def store_blocks_def)
qed

lemma length_store_blocks: "64 * length Xs \<le> length B \<Longrightarrow> length (store_blocks Xs B) = length B"
  by (simp add: store_blocks_def)

text \<open>Storing what was loaded changes nothing.\<close>

lemma store_load:
  assumes "length B = 64 * n"
  shows "store_blocks (map (load_block B) [0..<n]) B = B"
proof -
  obtain Ws where Ws: "B = concat Ws" "length Ws = n * 16" "quads Ws"
    using split_quads [of B "n * 16"] assms by auto
  have parts: "quads Ws \<Longrightarrow> p + q \<le> length Ws \<Longrightarrow> sub (4 * p) (4 * q) (concat Ws) = concat (sub p q Ws)" for Ws p q
  proof (induction Ws arbitrary: p q)
    case Nil
    then show ?case by (simp add: sub_def)
  next
    case (Cons w Ws)
    have w: "length w = 4" "quads Ws" using Cons.prems(1) by (simp_all add: quads_def)
    show ?case
    proof (cases p)
      case 0
      then show ?thesis using Cons.IH [OF w(2), of 0 "q - 1"] Cons.prems(2) w(1) by (cases q) (simp_all add: sub_def)
    next
      case (Suc p')
      then show ?thesis using Cons.IH [OF w(2), of p' q] Cons.prems(2) w(1) by (simp add: sub_def)
    qed
  qed
  have word: "le_of_word 4 (le32dec (sub (4 * p) 4 B)) = sub (4 * p) 4 B" if "p < n * 16" for p
  proof -
    have "length (sub (4 * p) 4 B) = 4" using that assms by (intro length_sub) simp
    then obtain a b c d where s: "sub (4 * p) 4 B = [a, b, c, d]"
      by (auto simp: numeral_eq_Suc length_Suc_conv)
    then have "le32dec (sub (4 * p) 4 B) = word_of_le [a, b, c, d]"
      by (simp add: le32dec_eq del: word_of_le.simps)
    then show ?thesis unfolding s by (simp only:) (rule le_of_word_of_le, simp_all)
  qed
  have blk: "store_block (load_block B k) = sub (64 * k) 64 B" if "k < n" for k
  proof -
    have "store_block (load_block B k) = concat (map (\<lambda>i. sub (4 * (k * 16 + i)) 4 B) [0..<16])"
    proof -
      have "map (\<lambda>i. le_of_word 4 (load_block B k ! (i * 13 mod 16))) [0..<16] = map (\<lambda>i. sub (4 * (k * 16 + i)) 4 B) [0..<16]"
      proof (rule map_cong [OF refl])
        fix i assume "i \<in> set [0..<16]"
        then have i: "i < 16" by simp
        have "\<forall>i \<in> set [0..<16]. i * 13 mod 16 * 5 mod 16 = i" by (simp add: upt_16)
        then have "i * 13 mod 16 * 5 mod 16 = i" using i by simp
        then have "load_block B k ! (i * 13 mod 16) = le32dec (sub (4 * (k * 16 + i)) 4 B)"
          by (simp add: load_block_def)
        then show "le_of_word 4 (load_block B k ! (i * 13 mod 16)) = sub (4 * (k * 16 + i)) 4 B"
          using i that word [of "k * 16 + i"] by simp
      qed
      then show ?thesis by (simp only: store_block_def)
    qed
    also have "\<dots> = concat (map (\<lambda>i. Ws ! (k * 16 + i)) [0..<16])"
    proof -
      have "sub (4 * (k * 16 + i)) 4 B = Ws ! (k * 16 + i)" if "i < 16" for i
        using parts [OF Ws(3), of "k * 16 + i" 1] Ws \<open>k < n\<close> that by (simp add: sub_one del: One_nat_def)
      then show ?thesis by (intro arg_cong [where f = concat] map_cong) simp_all
    qed
    also have "map (\<lambda>i. Ws ! (k * 16 + i)) [0..<16] = sub (k * 16) 16 Ws"
      using that Ws(2) by (intro nth_equalityI) simp_all
    also have "concat (sub (k * 16) 16 Ws) = sub (64 * k) 64 B"
      using parts [OF Ws(3), of "k * 16" 16] Ws that by simp
    finally show ?thesis .
  qed
  have "concat (map (\<lambda>k. sub (64 * k) 64 B) [0..<m]) = take (64 * m) B" if "m \<le> n" for m
    using that
  proof (induction m)
    case (Suc m)
    then show ?case by (simp add: sub_def take_add [symmetric] add.commute [of _ 64])
  qed simp
  moreover have "concat (map store_block (map (load_block B) [0..<n])) = concat (map (\<lambda>k. sub (64 * k) 64 B) [0..<n])"
    unfolding map_map by (intro arg_cong [where f = concat] map_cong) (simp_all add: blk)
  ultimately show ?thesis using assms by (simp add: store_blocks_def)
qed

end
