(* ===== verification/YespowerSmix.thy ===== *)
theory YespowerSmix
  imports YespowerMemory
begin

text \<open>
  The first loop of SMix: the reference stores its block at position \<open>i\<close> and mixes one earlier block in at each
  turn; the optimised loop is unrolled by the powers of two below \<open>N\<close>, so that it needs no search for the
  power of two below \<open>i\<close>. Both fill the same array and leave the same blocks (\<open>smix1_agree\<close>).
\<close>

section \<open>The power of two below a number\<close>

lemma bit_top_nat: "2 ^ e \<le> n \<Longrightarrow> n < 2 ^ Suc e \<Longrightarrow> bit (n :: nat) e"
proof -
  assume n: "2 ^ e \<le> n" "n < 2 ^ Suc e"
  then have "n div 2 ^ e = 1" by (intro div_nat_eqI) simp_all
  then show "bit n e" by (simp add: bit_iff_odd)
qed

lemma bit_nat_ge: "bit (n :: nat) e \<Longrightarrow> 2 ^ e \<le> n"
  by (rule ccontr) (simp add: bit_iff_odd)

lemma bit_top_word: "2 ^ e \<le> unat (x :: u32) \<Longrightarrow> unat x < 2 ^ Suc e \<Longrightarrow> bit x e"
  using bit_top_nat [of e "unat x"] by (simp add: bit_unsigned_iff)

lemma p2floor_power:
  "2 ^ e \<le> unat x \<Longrightarrow> unat x < 2 ^ Suc e \<Longrightarrow> unat (p2floor x) = 2 ^ e"
proof (induction x rule: p2floor.induct)
  case (1 x)
  let ?y = "x AND (x - 1)"
  have x0: "x \<noteq> 0" using "1.prems"(1) by auto
  have m: "unat (x - 1) = unat x - 1" using x0 by (rule unat_minus_one)
  have le: "unat ?y \<le> unat (x - 1)" using word_and_le1 [of x "x - 1"] by (simp add: word_le_nat_alt)
  show ?case
  proof (cases "unat x = 2 ^ e")
    case True
    have "?y = 0"
    proof (rule ccontr)
      assume "?y \<noteq> 0"
      then obtain k where k: "bit x k" "bit (x - 1) k" by (auto simp: bit_eq_iff bit_simps)
      have "bit (2 ^ e :: nat) k" using k(1) unfolding True [symmetric] by (simp add: bit_unsigned_iff)
      then have "k = e" by (simp add: bit_simps)
      moreover have "bit (unat (x - 1)) k" using k(2) by (simp add: bit_unsigned_iff)
      ultimately have "2 ^ e \<le> unat (x - 1)" using bit_nat_ge by blast
      moreover have "0 < (2 :: nat) ^ e" by simp
      ultimately show False using m True by linarith
    qed
    then show ?thesis using True by (subst p2floor.simps) simp
  next
    case False
    then have "2 ^ e \<le> unat (x - 1)" "unat (x - 1) < 2 ^ Suc e" using "1.prems" m by simp_all
    then have "bit (x - 1) e" by (rule bit_top_word)
    moreover have "bit x e" using "1.prems" by (rule bit_top_word)
    ultimately have b: "bit ?y e" by (simp add: bit_and_iff)
    then have ne: "?y \<noteq> 0" by auto
    have "bit (unat ?y) e" using b by (simp add: bit_unsigned_iff)
    then have "2 ^ e \<le> unat ?y" by (rule bit_nat_ge)
    moreover have "unat ?y < 2 ^ Suc e" using le \<open>unat (x - 1) < 2 ^ Suc e\<close> by simp
    ultimately have "unat (p2floor ?y) = 2 ^ e" using "1.IH" [OF refl ne] by simp
    then show ?thesis using ne by (subst p2floor.simps) (simp only: Let_def if_True simp_thms)
  qed
qed

lemma and_below: "n = 2 ^ e \<Longrightarrow> e < 32 \<Longrightarrow> unat (x AND of_nat (n - 1) :: u32) = unat x mod n"
proof -
  assume n: "n = 2 ^ e" "e < 32"
  have "(of_nat (n - 1) :: u32) = mask e" using n by (simp add: mask_eq_exp_minus_1 of_nat_diff)
  then show ?thesis using unat_and_mask [of x e] n by simp
qed

lemma wrap_value:
  assumes "n = 2 ^ e" and "n \<le> i" and "i < 2 * n" and "i < 2 ^ 31"
  shows "unat (wrap x (of_nat i)) = unat (x AND of_nat (n - 1)) + (i - n)" and "unat (x AND of_nat (n - 1)) + (i - n) < i"
proof -
  have e: "e < 31"
  proof (rule ccontr)
    assume "\<not> e < 31"
    then have "(2 :: nat) ^ 31 \<le> 2 ^ e" by (intro power_increasing) simp_all
    then show False using assms by simp
  qed
  have i: "unat (of_nat i :: u32) = i" using assms(4) by (simp add: unat_of_nat)
  have n32: "n < 2 ^ 32" using assms by simp
  have nw: "unat (of_nat n :: u32) = n" using n32 by (simp add: unat_of_nat)
  have p: "p2floor (of_nat i) = of_nat n"
    using p2floor_power [of e "of_nat i"] assms i nw by (simp add: word_unat_eq_iff)
  have n1: "(of_nat n - 1 :: u32) = of_nat (n - 1)" using assms(1) by (simp add: of_nat_diff)
  have lt: "unat (x AND of_nat (n - 1)) < n" using and_below [OF assms(1), of x] e assms(1) by simp
  then show less: "unat (x AND of_nat (n - 1)) + (i - n) < i" using assms(2) by linarith
  have "(of_nat i - of_nat n :: u32) = of_nat (i - n)" using assms(2) by (simp add: of_nat_diff)
  moreover have "unat (of_nat (i - n) :: u32) = i - n" using assms(4) by (simp add: unat_of_nat)
  ultimately show "unat (wrap x (of_nat i)) = unat (x AND of_nat (n - 1)) + (i - n)"
  proof -
    define A :: u32 where "A = x AND of_nat (n - 1)"
    assume d: "(of_nat i - of_nat n :: u32) = of_nat (i - n)" "unat (of_nat (i - n) :: u32) = i - n"
    have "unat A + (i - n) < 2 ^ 31" using less assms(4) unfolding A_def by (rule less_trans)
    also have "(2 :: nat) ^ 31 < 2 ^ 32" by simp
    finally have "unat A + (i - n) < 2 ^ 32" .
    then have "unat (A + of_nat (i - n)) = unat A + (i - n)"
      unfolding unat_word_ariths(1) d(2) by simp
    then show ?thesis unfolding wrap_def p Let_def n1 d(1) A_def .
  qed
qed

lemma power_below:
  assumes "1 \<le> i"
  obtains e where "2 ^ e \<le> i" and "i < 2 * (2 ^ e :: nat)"
  using ex_power_ivl1 [of 2 i] assms by auto

lemma wrap_less:
  assumes "1 \<le> i" and "i < 2 ^ 31"
  shows "unat (wrap x (of_nat i)) < i"
proof -
  obtain e where "2 ^ e \<le> i" "i < 2 * 2 ^ e" using power_below [OF assms(1)] .
  with wrap_value [of "2 ^ e" e i x] assms show ?thesis by simp
qed


section \<open>The first loop of SMix\<close>

text \<open>One turn over arrays of blocks.\<close>

definition v_index :: "nat \<Rightarrow> u32 list list \<Rightarrow> nat \<Rightarrow> nat" where
  "v_index r Xs i = unat (wrap (last Xs ! 0) (of_nat i))"

definition smix1_step :: "nat \<Rightarrow> bool \<Rightarrow> nat \<Rightarrow> u32 list list \<times> u32 list list \<times> ref_ctx \<Rightarrow> nat \<Rightarrow> u32 list list \<times> u32 list list \<times> ref_ctx" where
  "smix1_step t onS r = (\<lambda>(Vs, Xs, c) i.
    let s = 2 * r;
        Vs = blit Vs (i * s) Xs;
        (Xs, c) = mixer t onS (if 1 < i then map2 blkxor Xs (sub (v_index r Xs i * s) s Vs) else Xs) c
    in (Vs, Xs, c))"

definition smix1_ok :: "nat \<Rightarrow> bool \<Rightarrow> nat \<Rightarrow> nat \<Rightarrow> u32 list list \<times> u32 list list \<times> ref_ctx \<Rightarrow> bool" where
  "smix1_ok t onS r N = (\<lambda>(Vs, Xs, c). blocks Vs \<and> length Vs = N * (2 * r) \<and> mix_ok onS r Xs \<and> rc_salsa20_rounds c = 2 * t)"

lemma mix_ok_sub: "mix_ok onS r Xs \<Longrightarrow> blocks V \<Longrightarrow> i + 2 * r \<le> length V \<Longrightarrow> mix_ok onS r (sub i (2 * r) V)"
  by (simp add: mix_ok_def)

lemma length_blit_part: "i < N \<Longrightarrow> length V = N * s \<Longrightarrow> length X = s \<Longrightarrow> length (blit V (i * s) X) = N * s"
proof -
  assume a: "i < N" "length V = N * s" "length X = s"
  have "(i + 1) * s \<le> N * s" using a(1) by (intro mult_right_mono) simp_all
  then show ?thesis using a by simp
qed

lemma part_fits: "i < N \<Longrightarrow> i * s + s \<le> N * (s :: nat)"
proof -
  assume "i < N"
  then have "(i + 1) * s \<le> N * s" by (intro mult_right_mono) simp_all
  then show ?thesis by simp
qed

lemma smix1_step_ok:
  assumes "smix1_ok t onS r N st" and "i < N" and "N \<le> 2 ^ 31"
  shows "smix1_ok t onS r N (smix1_step t onS r st i)"
proof (cases st)
  case (fields Vs Xs c)
  have ok: "blocks Vs" "length Vs = N * (2 * r)" "mix_ok onS r Xs" "rc_salsa20_rounds c = 2 * t"
    using assms(1) by (simp_all add: smix1_ok_def fields)
  let ?Vs = "blit Vs (i * (2 * r)) Xs"
  have V: "blocks ?Vs" "length ?Vs = N * (2 * r)"
    using ok assms(2) length_blit_part [of i N Vs "2 * r" Xs] by (simp_all add: blocks_blit mix_ok_def)
  have "mix_ok onS r (if 1 < i then map2 blkxor Xs (sub (v_index r Xs i * (2 * r)) (2 * r) ?Vs) else Xs)" (is "mix_ok _ _ ?In")
  proof (cases "1 < i")
    case True
    have "v_index r Xs i < N"
      using True assms(2,3) wrap_less [of i "last Xs ! 0"] by (simp add: v_index_def)
    then have "mix_ok onS r (sub (v_index r Xs i * (2 * r)) (2 * r) ?Vs)"
      using mix_ok_sub [OF ok(3) V(1)] part_fits [of "v_index r Xs i" N "2 * r"] V(2) by simp
    with True ok(3) show ?thesis by (simp add: mix_ok_xor)
  qed (use ok in simp)
  note out = mixer_ok [OF this, of t c]
  moreover have "rc_salsa20_rounds (snd (mixer t onS In c)) = 2 * t" for In
    using ok(4) block_mix_rounds [of t In c] by (simp add: mixer_def)
  moreover have "smix1_step t onS r st i = (?Vs, fst (mixer t onS ?In c), snd (mixer t onS ?In c))"
    by (simp add: fields smix1_step_def Let_def split_beta)
  ultimately show ?thesis
    using V unfolding smix1_ok_def by (simp only: prod.case simp_thms)
qed

lemma smix1_steps_ok:
  assumes "smix1_ok t onS r N st" and "n \<le> N" and "N \<le> 2 ^ 31"
  shows "smix1_ok t onS r N (for_range 0 n (smix1_step t onS r) st)"
  using assms(2)
proof (induction n)
  case (Suc n)
  then show ?case using smix1_step_ok [of t onS r N _ n] assms(3) by (simp add: for_range_Suc)
qed (use assms(1) in simp)

definition flat :: "u32 list list \<times> u32 list list \<times> ref_ctx \<Rightarrow> u32 list \<times> u32 list \<times> ref_ctx" where
  "flat = (\<lambda>(Vs, Xs, c). (concat Vs, concat Xs, c))"

lemma integerify_last: "mix_ok onS r Xs \<Longrightarrow> ref_integerify (concat Xs) r = last Xs ! 0"
proof -
  assume ok: "mix_ok onS r Xs"
  then have n: "2 * r - 1 < length Xs" "length Xs = Suc (2 * r - 1)" by (auto simp: mix_ok_def)
  have "sub ((2 * r - 1) * 16) 16 (concat Xs) = Xs ! (2 * r - 1)"
    using ok n(1) by (intro sub_concat_block) (simp_all add: mix_ok_def)
  then have "Xs ! (2 * r - 1) ! 0 = sub ((2 * r - 1) * 16) 16 (concat Xs) ! 0" by simp
  also have "\<dots> = concat Xs ! ((2 * r - 1) * 16 + 0)"
    using ok n by (intro nth_sub) (auto simp: mix_ok_def)
  finally show ?thesis using last_nth [OF n(2)] by (simp add: ref_integerify_def)
qed

lemma ref_smix1_turn_step:
  assumes "smix1_ok t onS r N st" and "i < N" and "N \<le> 2 ^ 31"
  shows "ref_smix1_turn onS r (flat st) i = flat (smix1_step t onS r st i)"
proof (cases st)
  case (fields Vs Xs c)
  have ok: "blocks Vs" "length Vs = N * (2 * r)" "mix_ok onS r Xs" "rc_salsa20_rounds c = 2 * t"
    using assms(1) by (simp_all add: smix1_ok_def fields)
  have X: "blocks Xs" "length Xs = 2 * r" using ok(3) by (simp_all add: mix_ok_def)
  let ?Vs = "blit Vs (i * (2 * r)) Xs"
  have V: "blocks ?Vs" "length ?Vs = N * (2 * r)"
    using ok assms(2) length_blit_part [of i N Vs "2 * r" Xs] by (simp_all add: blocks_blit mix_ok_def)
  have idx: "k * (32 * r) = k * (2 * r) * 16" "32 * r = 2 * r * 16" for k by simp_all
  have blt: "blit (concat Vs) (i * (32 * r)) (concat Xs) = concat ?Vs"
    unfolding idx(1) using ok(1,2) X part_fits [OF assms(2), of "2 * r"] by (intro blit_concat_blocks) simp_all
  let ?In = "if 1 < i then map2 blkxor Xs (sub (v_index r Xs i * (2 * r)) (2 * r) ?Vs) else Xs"
  have in_ok: "mix_ok onS r ?In \<and>
      (if 1 < i then blkxor (concat Xs) (sub (unat (wrap (ref_integerify (concat Xs) r) (of_nat i)) * (32 * r)) (32 * r) (concat ?Vs)) else concat Xs) = concat ?In"
  proof (cases "1 < i")
    case True
    have "v_index r Xs i < N"
      using True assms(2,3) wrap_less [of i "last Xs ! 0"] by (simp add: v_index_def)
    then have fit: "v_index r Xs i * (2 * r) + 2 * r \<le> length ?Vs"
      using part_fits [of "v_index r Xs i" N "2 * r"] V(2) by simp
    have sb: "sub (v_index r Xs i * (32 * r)) (32 * r) (concat ?Vs) = concat (sub (v_index r Xs i * (2 * r)) (2 * r) ?Vs)"
      unfolding idx(1) unfolding idx(2) using V(1) fit by (rule sub_concat_blocks)
    have ok2: "mix_ok onS r (sub (v_index r Xs i * (2 * r)) (2 * r) ?Vs)"
      using mix_ok_sub [OF ok(3) V(1) fit] .
    then have bx: "blkxor (concat Xs) (concat (sub (v_index r Xs i * (2 * r)) (2 * r) ?Vs)) = concat (map2 blkxor Xs (sub (v_index r Xs i * (2 * r)) (2 * r) ?Vs))"
      using X by (intro blkxor_concat) (simp_all add: mix_ok_def)
    have wi: "unat (wrap (ref_integerify (concat Xs) r) (of_nat i)) = v_index r Xs i"
      by (simp add: integerify_last [OF ok(3)] v_index_def)
    show ?thesis
      unfolding wi sb bx using True ok2 ok(3) by (simp add: mix_ok_xor)
  qed (use ok in simp)
  note nxt = ref_next_mixer [OF conjunct1 [OF in_ok] ok(4)]
  have "ref_smix1_turn onS r (flat st) i =
      (let (X, c) = ref_next onS r (concat ?In) c in (concat ?Vs, X, c))"
    unfolding fields flat_def prod.case ref_smix1_turn_def Let_def blt conjunct2 [OF in_ok]
    by (simp add: ref_next_def split_beta)
  then show ?thesis
    unfolding nxt by (simp add: fields flat_def smix1_step_def Let_def split_beta)
qed

lemma ref_smix1_turns:
  assumes "smix1_ok t onS r N st" and "N \<le> 2 ^ 31" and "n \<le> N"
  shows "for_range 0 n (ref_smix1_turn onS r) (flat st) = flat (for_range 0 n (smix1_step t onS r) st)"
  using assms(3)
proof (induction n)
  case (Suc n)
  then show ?case
    using ref_smix1_turn_step [OF smix1_steps_ok [OF assms(1) _ assms(2)], of n n] assms(2) by (simp add: for_range_Suc)
qed simp


text \<open>
  The optimised loop is one block ahead: at position \<open>i\<close> its array holds what the reference has stored in
  \<open>i\<close> turns, followed by the blocks the reference still has in \<open>X\<close>.
\<close>

definition opt_at_turn ::
    "nat \<Rightarrow> bool \<Rightarrow> nat \<Rightarrow> nat \<Rightarrow> u32 list list \<times> u32 list list \<times> ref_ctx \<Rightarrow> nat \<Rightarrow> u32 list list \<times> nat \<times> u32 \<times> opt_ctx option \<Rightarrow> bool" where
  "opt_at_turn pass onS r N st0 i = (\<lambda>(V, X, j, octxt).
    let (Vs, Xs, c) = for_range 0 i (smix1_step (salsa_turns pass) onS r) st0
    in X = i * (2 * r) \<and> length V = N * (2 * r) \<and> blocks V \<and> take (i * (2 * r)) V = take (i * (2 * r)) Vs \<and>
       sub (i * (2 * r)) (2 * r) V = Xs \<and> j = last Xs ! 0 \<and> octx_rel pass onS c octxt)"

lemma take_sub: "i + n \<le> length xs \<Longrightarrow> take (i + n) xs = take i xs @ sub i n xs"
  by (simp add: sub_def take_add)

lemma sub_of_take: "v + n \<le> i \<Longrightarrow> sub v n (take i xs) = sub v n xs"
  by (simp add: sub_def drop_take)

lemma turn_at:
  assumes ok: "smix1_ok (salsa_turns pass) onS r N st0" and N: "N \<le> 2 ^ 31" and "i < N"
    and pos: "opt_at_turn pass onS r N st0 i (V, X, j, octxt)" and "pass = 1 \<or> pass = 2"
    and step: "for_range 0 (Suc i) (smix1_step (salsa_turns pass) onS r) st0 = (Vs', Xs', c')"
    and Bout: "mix_ok onS r Bout" and first: "i < 2 \<or> n = 2 ^ e \<and> n \<le> i \<and> i < 2 * n"
  shows "\<exists>octxt'. (if i < 2 then opt_blockmix pass (sub X (2 * r) V) Bout r octxt = (Xs', octxt')
      else opt_blockmix_xor pass (sub X (2 * r) V) (sub ((unat (j AND of_nat (n - 1)) + (i - n)) * (2 * r)) (2 * r) V) Bout r octxt
        = (Xs', last Xs' ! 0, octxt')) \<and> octx_rel pass onS c' octxt' \<and>
    take (Suc i * (2 * r)) V = take (Suc i * (2 * r)) Vs' \<and> mix_ok onS r Xs' \<and> blocks Vs' \<and> length Vs' = N * (2 * r)"
proof -
  let ?s = "2 * r" and ?t = "salsa_turns pass"
  obtain Vs Xs c where st: "for_range 0 i (smix1_step ?t onS r) st0 = (Vs, Xs, c)" by (metis prod_cases3)
  have sok: "blocks Vs" "length Vs = N * ?s" "mix_ok onS r Xs" "rc_salsa20_rounds c = 2 * ?t"
    using smix1_steps_ok [OF ok _ N, of i] \<open>i < N\<close> st by (simp_all add: smix1_ok_def)
  have V: "X = i * ?s" "length V = N * ?s" "blocks V" "take (i * ?s) V = take (i * ?s) Vs" "sub (i * ?s) ?s V = Xs" "j = last Xs ! 0" "octx_rel pass onS c octxt"
    using pos st by (simp_all add: opt_at_turn_def)
  let ?Vs = "blit Vs (i * ?s) Xs"
  note fit = part_fits [OF \<open>i < N\<close>, of ?s]
  have next_s: "Suc i * ?s = i * ?s + ?s" by simp
  have lenX: "length Xs = ?s" using sok(3) by (simp add: mix_ok_def)
  have same: "take (Suc i * ?s) V = take (Suc i * ?s) ?Vs"
    using take_sub [of "i * ?s" ?s V] V fit lenX sok(2) take_blit [of "i * ?s" Xs Vs] unfolding next_s by simp
  let ?In = "if 1 < i then map2 blkxor Xs (sub (v_index r Xs i * ?s) ?s ?Vs) else Xs"
  have "smix1_step ?t onS r (Vs, Xs, c) i = (?Vs, fst (mixer ?t onS ?In c), snd (mixer ?t onS ?In c))"
    by (simp add: smix1_step_def Let_def split_beta)
  then have eqs: "Vs' = ?Vs" "mixer ?t onS ?In c = (Xs', c')"
    using step st by (auto simp: for_range_Suc)
  have "smix1_ok ?t onS r N (Vs', Xs', c')"
    using smix1_steps_ok [OF ok _ N, of "Suc i"] \<open>i < N\<close> step by simp
  then have ok': "mix_ok onS r Xs'" "blocks Vs'" "length Vs' = N * ?s" by (simp_all add: smix1_ok_def)
  show ?thesis
  proof (cases "i < 2")
    case True
    then have In: "?In = Xs" by simp
    show ?thesis
      using opt_mixer [OF \<open>pass = 1 \<or> pass = 2\<close> V(7) sok(3) Bout] eqs(2) True V(1,5) same ok' unfolding In eqs(1) by auto
  next
    case False
    then have n: "n = 2 ^ e" "n \<le> i" "i < 2 * n" using first by auto
    have i31: "i < 2 ^ 31" using \<open>i < N\<close> N by simp
    have v1: "unat (j AND of_nat (n - 1)) + (i - n) = v_index r Xs i"
      using wrap_value(1) [OF n i31, of j] by (simp only: v_index_def V(6))
    note v = v1 wrap_value(2) [OF n i31, of j, unfolded v1]
    have vfit: "v_index r Xs i * ?s + ?s \<le> i * ?s" using v(2) by (rule part_fits)
    have vf: "v_index r Xs i * ?s + ?s \<le> Suc i * ?s" using vfit unfolding next_s by (rule trans_le_add1)
    have "sub (v_index r Xs i * ?s) ?s ?Vs = sub (v_index r Xs i * ?s) ?s V"
      using sub_of_take [OF vf, of ?Vs] sub_of_take [OF vf, of V] unfolding same by (rule trans [OF sym])
    then have In: "?In = map2 blkxor Xs (sub (v_index r Xs i * ?s) ?s V)" using False by simp
    have okv: "mix_ok onS r (sub (v_index r Xs i * ?s) ?s V)"
      using mix_ok_sub [OF sok(3) V(3)] vfit fit V(2) by simp
    show ?thesis
      using opt_mixer_xor [OF \<open>pass = 1 \<or> pass = 2\<close> V(7) sok(3) okv Bout, of Xs' c'] eqs(2) False V(1,5) same ok'
      unfolding v(1) In eqs(1) by auto
  qed
qed

text \<open>A turn that is not the last moves the position on.\<close>

lemma advance:
  assumes ok: "smix1_ok (salsa_turns pass) onS r N st0" and N: "N \<le> 2 ^ 31" and "Suc i < N"
    and pos: "opt_at_turn pass onS r N st0 i (V, X, j, octxt)" and "pass = 1 \<or> pass = 2"
    and first: "i < 2 \<or> n = 2 ^ e \<and> n \<le> i \<and> i < 2 * n"
  shows "\<exists>out octxt'. (if i < 2 then opt_blockmix pass (sub X (2 * r) V) (sub (X + 2 * r) (2 * r) V) r octxt = (out, octxt')
      else opt_blockmix_xor pass (sub X (2 * r) V) (sub ((unat (j AND of_nat (n - 1)) + (i - n)) * (2 * r)) (2 * r) V) (sub (X + 2 * r) (2 * r) V) r octxt
        = (out, last out ! 0, octxt')) \<and>
    sub (X + 2 * r) (2 * r) (blit V (X + 2 * r) out) = out \<and>
    opt_at_turn pass onS r N st0 (Suc i) (blit V (X + 2 * r) out, X + 2 * r, last out ! 0, octxt')"
proof -
  let ?s = "2 * r"
  obtain Vs' Xs' c' where step: "for_range 0 (Suc i) (smix1_step (salsa_turns pass) onS r) st0 = (Vs', Xs', c')" by (metis prod_cases3)
  obtain Vs Xs c where st: "for_range 0 i (smix1_step (salsa_turns pass) onS r) st0 = (Vs, Xs, c)" by (metis prod_cases3)
  have V: "X = i * ?s" "length V = N * ?s" "blocks V"
    using pos st by (simp_all add: opt_at_turn_def)
  have r: "0 < r" "onS \<Longrightarrow> r = 1" using ok by (auto simp: smix1_ok_def mix_ok_def split: prod.splits)
  have fit: "X + ?s + ?s \<le> length V" using part_fits [OF \<open>Suc i < N\<close>, of ?s] V by simp
  have Bout: "mix_ok onS r (sub (X + ?s) ?s V)" using V(3) fit r by (simp add: mix_ok_def)
  have iN: "i < N" using \<open>Suc i < N\<close> by simp
  obtain octxt' where t: "if i < 2 then opt_blockmix pass (sub X ?s V) (sub (X + ?s) ?s V) r octxt = (Xs', octxt')
      else opt_blockmix_xor pass (sub X ?s V) (sub ((unat (j AND of_nat (n - 1)) + (i - n)) * ?s) ?s V) (sub (X + ?s) ?s V) r octxt = (Xs', last Xs' ! 0, octxt')"
      "octx_rel pass onS c' octxt'" "take (Suc i * ?s) V = take (Suc i * ?s) Vs'" "mix_ok onS r Xs'"
    using turn_at [OF ok N iN pos \<open>pass = 1 \<or> pass = 2\<close> step Bout first] by blast
  have X': "length Xs' = ?s" "blocks Xs'" using t(4) by (simp_all add: mix_ok_def)
  have sb: "sub (X + ?s) ?s (blit V (X + ?s) Xs') = Xs'" using sub_blit [of "X + ?s" Xs' V] X' fit by simp
  have pos': "X + ?s = Suc i * ?s" using V(1) by simp
  have "take (Suc i * ?s) (blit V (Suc i * ?s) Xs') = take (Suc i * ?s) V"
    using fit unfolding pos' by (simp add: blit_def)
  moreover have "length (blit V (Suc i * ?s) Xs') = N * ?s" using length_blit_part [OF \<open>Suc i < N\<close> V(2) X'(1)] .
  moreover have "blocks (blit V (Suc i * ?s) Xs')" using V(3) X'(2) by (rule blocks_blit)
  ultimately have "opt_at_turn pass onS r N st0 (Suc i) (blit V (X + ?s) Xs', X + ?s, last Xs' ! 0, octxt')"
    using t(2,3) sb unfolding opt_at_turn_def step prod.case Let_def pos' by simp
  with t(1) sb show ?thesis by blast
qed


lemma inner_turns:
  assumes ok: "smix1_ok (salsa_turns pass) onS r N st0" and N: "N \<le> 2 ^ 31" and pass: "pass = 1 \<or> pass = 2"
    and n: "n = 2 ^ e" "2 \<le> n" "m \<le> n" "n + 2 * (m div 2) < N"
  shows "opt_at_turn pass onS r N st0 (n + 2 * k) st \<Longrightarrow> k \<le> m div 2 \<Longrightarrow>
    opt_at_turn pass onS r N st0 (n + 2 * (m div 2)) (opt_smix1_inner pass r n m (2 * k + 1) st)"
proof (induction "m div 2 - k" arbitrary: k st)
  case 0
  then have "k = m div 2" by simp
  moreover from this have "\<not> 2 * k + 1 < m" by simp
  ultimately show ?case using 0 by (subst opt_smix1_inner.simps) simp
next
  case (Suc d)
  obtain V X j octxt where st: "st = (V, X, j, octxt)" by (metis prod_cases4)
  let ?s = "2 * r" and ?i = "n + 2 * k"
  have k: "k < m div 2" "d = m div 2 - (k + 1)" using Suc.hyps(2) by auto
  then have m: "2 * k + 1 < m" by linarith
  have c1: "Suc ?i < N" "Suc (Suc ?i) < N" "n \<le> ?i" "?i < 2 * n" "n \<le> Suc ?i" "Suc ?i < 2 * n" "\<not> ?i < 2" "\<not> Suc ?i < 2"
    using k(1) m n by linarith+
  have first: "?i < 2 \<or> n = 2 ^ e \<and> n \<le> ?i \<and> ?i < 2 * n" "Suc ?i < 2 \<or> n = 2 ^ e \<and> n \<le> Suc ?i \<and> Suc ?i < 2 * n"
    using c1 n(1) by blast+
  obtain out1 o1 where a1: "opt_blockmix_xor pass (sub X ?s V) (sub ((unat (j AND of_nat (n - 1)) + (?i - n)) * ?s) ?s V) (sub (X + ?s) ?s V) r octxt = (out1, last out1 ! 0, o1)"
      "opt_at_turn pass onS r N st0 (Suc ?i) (blit V (X + ?s) out1, X + ?s, last out1 ! 0, o1)"
    using advance [OF ok N c1(1) Suc.prems(1) [unfolded st] pass first(1)] c1(7) by auto
  define V1 where "V1 = blit V (X + ?s) out1"
  obtain out2 o2 where a2: "opt_blockmix_xor pass (sub (X + ?s) ?s V1) (sub ((unat ((last out1 ! 0) AND of_nat (n - 1)) + (Suc ?i - n)) * ?s) ?s V1) (sub (X + ?s + ?s) ?s V1) r o1 = (out2, last out2 ! 0, o2)"
      "opt_at_turn pass onS r N st0 (Suc (Suc ?i)) (blit V1 (X + ?s + ?s) out2, X + ?s + ?s, last out2 ! 0, o2)"
    using advance [OF ok N c1(2) a1(2) pass first(2)] c1(8) unfolding V1_def [symmetric] by auto
  have b1: "opt_blockmix_xor pass (sub X ?s V) (sub ((unat (j AND of_nat (n - 1)) + (2 * k + 1 - 1)) * ?s) ?s V) (sub (X + ?s) ?s V) r octxt = (out1, last out1 ! 0, o1)"
    using a1(1) by simp
  have b2: "opt_blockmix_xor pass (sub (X + ?s) ?s V1) (sub ((unat ((last out1 ! 0) AND of_nat (n - 1)) + (2 * k + 1)) * ?s) ?s V1) (sub (X + ?s + ?s) ?s V1) r o1 = (out2, last out2 ! 0, o2)"
    using a2(1) by simp
  have "opt_smix1_inner pass r n m (2 * k + 1) st =
      opt_smix1_inner pass r n m (2 * k + 1 + 2) (blit V1 (X + ?s + ?s) out2, X + ?s + ?s, last out2 ! 0, o2)"
    by (subst opt_smix1_inner.simps) (simp only: m if_True Let_def prod.case st b1 V1_def [symmetric] b2)
  moreover have "2 * k + 1 + 2 = 2 * (k + 1) + 1" "Suc (Suc ?i) = n + 2 * (k + 1)" by simp_all
  ultimately show ?case
    using Suc.hyps(1) [OF k(2), of "(blit V1 (X + ?s + ?s) out2, X + ?s + ?s, last out2 ! 0, o2)"] a2(2) k(1) by simp
qed

lemma outer_turns:
  assumes ok: "smix1_ok (salsa_turns pass) onS r N st0" and N: "N \<le> 2 ^ 31" "even N" and pass: "pass = 1 \<or> pass = 2"
  shows "opt_at_turn pass onS r N st0 n st \<Longrightarrow> n = 2 ^ e \<Longrightarrow> 2 \<le> n \<Longrightarrow> n < N \<Longrightarrow>
    \<exists>q E st'. opt_smix1_outer pass r N n st = (2 * q, st') \<and> q = 2 ^ E \<and> q \<le> N - 2 \<and> N \<le> 2 * q \<and> opt_at_turn pass onS r N st0 (N - 2) st'"
proof (induction "N - n" arbitrary: n e st rule: less_induct)
  case less
  have "even n" using less.prems(2,3) by (cases e) auto
  show ?case
  proof (cases "n < N div 2")
    case True
    have half: "2 * (n div 2) = n" using \<open>even n\<close> by simp
    have h: "n + 2 * (n div 2) < N" using True unfolding half by linarith
    have "opt_at_turn pass onS r N st0 (n + 2 * (n div 2)) (opt_smix1_inner pass r n n (2 * 0 + 1) st)"
      using inner_turns [OF ok N(1) pass less.prems(2,3) _ h, of 0] less.prems(1) by simp
    moreover have "n + 2 * (n div 2) = 2 * n" using \<open>even n\<close> by simp
    ultimately have "opt_at_turn pass onS r N st0 (2 * n) (opt_smix1_inner pass r n n 1 st)" by simp
    moreover have "N - 2 * n < N - n" "2 * n = 2 ^ Suc e" "2 \<le> 2 * n" "2 * n < N" using True less.prems by auto
    moreover have "opt_smix1_outer pass r N n st = opt_smix1_outer pass r N (2 * n) (opt_smix1_inner pass r n n 1 st)"
      using True less.prems by (subst opt_smix1_outer.simps) simp
    ultimately show ?thesis using less.hyps by metis
  next
    case False
    let ?m = "N - 1 - n"
    have "Suc n \<noteq> N" using \<open>even n\<close> N(2) by auto
    then have nN: "n + 2 \<le> N" using less.prems(4) by linarith
    have "even (N - 2 - n)" using \<open>even n\<close> N(2) by simp
    moreover have "?m = Suc (N - 2 - n)" using nN by simp
    ultimately have odd: "2 * (?m div 2) = N - 2 - n" by simp
    have h: "?m \<le> n" "n + 2 * (?m div 2) < N" using False N(2) nN odd by linarith+
    have "opt_at_turn pass onS r N st0 (n + 2 * (?m div 2)) (opt_smix1_inner pass r n ?m (2 * 0 + 1) st)"
      using inner_turns [OF ok N(1) pass less.prems(2,3) h, of 0] less.prems(1) by simp
    moreover have "n + 2 * (?m div 2) = N - 2" using odd nN by simp
    ultimately have pos: "opt_at_turn pass onS r N st0 (N - 2) (opt_smix1_inner pass r n ?m 1 st)" by simp
    obtain M where M: "N = 2 * M" using N(2) by auto
    have N2: "N \<le> 2 * n" using False unfolding M by simp
    have "opt_smix1_outer pass r N (2 * n) x = (2 * n, x)" for x
      using N2 by (subst opt_smix1_outer.simps) simp
    then have "opt_smix1_outer pass r N n st = (2 * n, opt_smix1_inner pass r n ?m 1 st)"
      using False less.prems by (subst opt_smix1_outer.simps) (simp add: Let_def)
    with pos N2 nN less.prems(2) show ?thesis by fastforce
  qed
qed


text \<open>The expansion of the first two blocks, in version 1.0.\<close>

lemma sub_take_eq: "take m A = take m B \<Longrightarrow> i + n \<le> m \<Longrightarrow> sub i n A = sub i n B"
  by (metis sub_of_take)

lemma expand_rel:
  assumes pass: "pass = 1 \<or> pass = 2" and rel: "octx_rel pass False c octxt"
    and Xs: "blocks Xs" "length Xs = 2 * r" and V: "blocks V" "2 * r \<le> length V" and two: "take 2 Xs = take 2 V" and "0 < r"
  shows "\<exists>Ys V' c' octxt'. ref_expand r (concat Xs, c) = (concat Ys, c') \<and> opt_expand pass r (V, octxt) = (V', octxt') \<and>
    octx_rel pass False c' octxt' \<and> blocks Ys \<and> length Ys = 2 * r \<and> blocks V' \<and> length V' = length V \<and> take (2 * r) V' = Ys"
proof -
  let ?F = "\<lambda>(X, ctx) k. let (Y, ctx) = ref_blockmix_pwxform (sub ((k - 1) * 32) 32 X) ctx 1 in (blit X (k * 32) Y, ctx)"
  let ?G = "\<lambda>(V, ctx) i. let (out, ctx) = opt_blockmix pass (sub ((i - 1) * 2) 2 V) (sub (i * 2) 2 V) 1 ctx in (blit V (i * 2) out, ctx)"
  have "\<exists>Ys V' c' octxt'. for_range 1 k ?F (concat Xs, c) = (concat Ys, c') \<and> for_range 1 k ?G (V, octxt) = (V', octxt') \<and>
      octx_rel pass False c' octxt' \<and> blocks Ys \<and> length Ys = 2 * r \<and> blocks V' \<and> length V' = length V \<and> take (2 * k) V' = take (2 * k) Ys"
    if "1 \<le> k" "k \<le> r" for k
    using that
  proof (induction k rule: dec_induct)
    case base
    then show ?case using rel Xs V two by auto
  next
    case (step k)
    then obtain Ys V' c' o' where IH: "for_range 1 k ?F (concat Xs, c) = (concat Ys, c')" "for_range 1 k ?G (V, octxt) = (V', o')"
        "octx_rel pass False c' o'" "blocks Ys" "length Ys = 2 * r" "blocks V'" "length V' = length V" "take (2 * k) V' = take (2 * k) Ys"
      by auto
    have k: "(k - 1) * 2 + 2 = 2 * k" "k < r" using step by auto
    define Bs where "Bs = sub ((k - 1) * 2) 2 Ys"
    have "sub ((k - 1) * 2) 2 V' = Bs" unfolding Bs_def using sub_take_eq [OF IH(8)] k(1) by simp
    have "(k - 1) * 2 + 2 \<le> length Ys" using k IH(5) by simp
    then have okB: "mix_ok False 1 Bs" using IH(4) by (simp add: Bs_def mix_ok_def)
    have lV: "k * 2 + 2 \<le> length V'" using k(2) IH(7) V(2) by simp
    then have okO: "mix_ok False 1 (sub (k * 2) 2 V')" using IH(6) by (simp add: mix_ok_def)
    have rounds: "rc_salsa20_rounds c' = 2 * salsa_turns pass" using IH(3) by (simp add: octx_rel_def)
    obtain out c2 where m: "mixer (salsa_turns pass) False Bs c' = (out, c2)" by fastforce
    obtain o2 where o2: "opt_blockmix pass Bs (sub (k * 2) 2 V') 1 o' = (out, o2)" "octx_rel pass False c2 o2"
      using opt_mixer [OF pass IH(3) okB okO m] by blast
    have okout: "blocks out" "length out = 2" using mixer_ok [OF okB, of "salsa_turns pass" c'] m by (simp_all add: mix_ok_def)
    have "sub ((k - 1) * 2 * 16) (2 * 16) (concat Ys) = concat Bs"
      unfolding Bs_def using IH(4,5) k by (intro sub_concat_blocks) simp_all
    moreover have "(k - 1) * 2 * 16 = (k - 1) * 32" "2 * 16 = (32 :: nat)" by simp_all
    ultimately have "sub ((k - 1) * 32) 32 (concat Ys) = concat Bs" by (simp only:)
    moreover have "ref_blockmix_pwxform (concat Bs) c' 1 = (concat out, c2)"
      using ref_next_mixer [OF okB rounds] m by (simp add: ref_next_def)
    moreover have "k * 2 * 16 = k * 32" by simp
    moreover from this have "blit (concat Ys) (k * 32) (concat out) = concat (blit Ys (k * 2) out)"
      using blit_concat_blocks [of Ys out "k * 2"] IH(4,5) okout k(2) by (simp only:)
    ultimately have F: "?F (concat Ys, c') k = (concat (blit Ys (k * 2) out), c2)"
      by (simp only: prod.case Let_def)
    have G: "?G (V', o') k = (blit V' (k * 2) out, o2)"
      unfolding prod.case \<open>sub ((k - 1) * 2) 2 V' = Bs\<close> o2(1) Let_def ..
    have "take (2 * Suc k) (blit V' (k * 2) out) = take (2 * Suc k) (blit Ys (k * 2) out)"
      using IH(5,7,8) okout(2) lV k(2) by (simp add: blit_def mult.commute)
    moreover have "length (blit Ys (k * 2) out) = 2 * r" "length (blit V' (k * 2) out) = length V"
      using IH(5,7) okout(2) lV k(2) by simp_all
    ultimately show ?case
      unfolding for_range_Suc [OF step.hyps(1)] IH(1,2) F G using o2(2) IH(4,6) okout(1) by (auto simp: blocks_blit)
  qed
  from this [of r] \<open>0 < r\<close> show ?thesis by (auto simp: ref_expand_def opt_expand_def)
qed

text \<open>Blocks that lie in a common prefix.\<close>

lemma load_prefix: "take (64 * n) D = take (64 * n) B \<Longrightarrow> map (load_block D) [0..<n] = map (load_block B) [0..<n]"
proof (rule map_cong [OF refl])
  fix k assume eq: "take (64 * n) D = take (64 * n) B" and "k \<in> set [0..<n]"
  then have k: "k < n" by simp
  have fit: "j < 16 \<Longrightarrow> 4 * (k * 16 + j) + 4 \<le> 64 * n" for j using k by simp
  have "sub (4 * (k * 16 + i * 5 mod 16)) 4 D = sub (4 * (k * 16 + i * 5 mod 16)) 4 B" for i
    by (rule sub_take_eq [OF eq fit]) simp
  then show "load_block D k = load_block B k" by (simp only: load_block_def)
qed

text \<open>
  The whole first loop: the arrays and the contexts agree, and the same blocks are stored, even when the byte
  buffers agree in the blocks that count only (the first two, in version 1.0).
\<close>

lemma smix1_agree:
  assumes pass: "pass = 1 \<or> pass = 2" and rel: "octx_rel pass onS c octxt" and version: "rc_version c = (if pass = 1 then YESPOWER_0_5 else YESPOWER_1_0)"
    and N: "N \<le> 2 ^ 31" "even N" "4 \<le> N" and r: "0 < r" "onS \<Longrightarrow> r = 1"
    and V: "blocks V" "length V = N * (2 * r)" and U: "blocks U" "length U = N * (2 * r)"
    and XY: "blocks XY" "2 * r < length XY" and B: "length B = 64 * nb" "2 * r \<le> nb"
    and D: "length D = length B" "take (64 * (if pass = 1 then 2 * r else 2)) D = take (64 * (if pass = 1 then 2 * r else 2)) B"
  shows "\<exists>X V' XY' c' octxt'. ref_smix1 onS B r N (concat U) c = (store_blocks X B, concat V', c') \<and>
    opt_smix1 pass D r N V XY octxt = (store_blocks X D, V', XY', octxt') \<and> octx_rel pass onS c' octxt' \<and> blocks X \<and> length X = 2 * r \<and>
    blocks V' \<and> length V' = N * (2 * r) \<and> blocks XY' \<and> length XY' = length XY"
proof -
  let ?s = "2 * r" and ?t = "salsa_turns pass"
  define L where "L = map (load_block B) [0..<2 * r]"
  have L: "ref_load B r = concat L" "blocks L" "length L = 2 * r" by (simp_all add: L_def ref_load_blocks)
  define n where "n = (if pass = 1 then 2 * r else 2)"
  have "4 * (2 * r) \<le> N * (2 * r)" using N(3) by (intro mult_right_mono) simp_all
  then have lV: "2 * r < length V" "n \<le> 2 * r" using r(1) V(2) by (simp_all add: n_def)
  then have tmp0: "length (V ! ?s) = 16" using blocks_nth [OF V(1)] by simp
  obtain tmp where tmp: "opt_load n D (V ! ?s, V) = (tmp, map (load_block B) [0..<n] @ drop n V)" "length tmp = 16"
    using opt_load_blocks [OF tmp0 V(1), of n D] lV load_prefix [of n D B] D(2) unfolding n_def [symmetric] by auto
  define V1 where "V1 = (map (load_block B) [0..<n] @ drop n V)[?s := tmp]"
  have nV: "n \<le> length V" using lV by linarith
  then have V1: "blocks V1" "length V1 = N * ?s" using V tmp(2) by (simp_all add: V1_def blocks_update)
  have "take n V1 = map (load_block B) [0..<n]" using lV by (simp add: V1_def list_update_append)
  moreover have "take n L = map (load_block B) [0..<n]" using lV by (simp add: L_def take_map)
  ultimately have pre: "take n V1 = take n L" by simp
  obtain Xs V2 c2 o2 where ex: "(if rc_version c \<noteq> YESPOWER_0_5 then ref_expand r (concat L, c) else (concat L, c)) = (concat Xs, c2)"
      "(if 1 < pass then opt_expand pass r (V1, octxt) else (V1, octxt)) = (V2, o2)" "octx_rel pass onS c2 o2"
      "blocks Xs" "length Xs = ?s" "blocks V2" "length V2 = N * ?s" "take ?s V2 = Xs"
  proof (cases "pass = 1 \<or> onS")
    case True
    have "take ?s V1 = L" using True pre r(2) L(3) by (auto simp: n_def)
    moreover have "ref_expand 1 x = x" "opt_expand pass 1 y = y" for x y by (simp_all add: ref_expand_def opt_expand_def)
    ultimately show ?thesis
      using that [of L c V1 octxt] True rel L V1 version r(2) by (auto simp del: One_nat_def)
  next
    case False
    then have p: "pass = 2" "\<not> onS" using pass by auto
    have "take 2 L = take 2 V1" using pre p by (simp add: n_def)
    have "octx_rel pass False c octxt" "?s \<le> length V1" using rel p lV V1(2) V(2) by simp_all
    from expand_rel [OF pass this(1) L(2,3) V1(1) this(2) \<open>take 2 L = take 2 V1\<close> r(1)]
    obtain Ys V' c' o' where e: "ref_expand r (concat L, c) = (concat Ys, c')" "opt_expand pass r (V1, octxt) = (V', o')"
        "octx_rel pass False c' o'" "blocks Ys" "length Ys = ?s" "blocks V'" "length V' = length V1" "take ?s V' = Ys"
      by blast
    moreover have "rc_version c \<noteq> YESPOWER_0_5" using version p by (simp add: YESPOWER_0_5_def YESPOWER_1_0_def)
    ultimately show ?thesis using that [of Ys c' V' o'] p V1(2) by simp
  qed
  have Xs: "mix_ok onS r Xs" using ex(4,5) r by (simp add: mix_ok_def)
  define st0 where "st0 = (U, Xs, c2)"
  have ok: "smix1_ok ?t onS r N st0" using U Xs ex(3) by (simp add: smix1_ok_def st0_def octx_rel_def)
  have pos0: "opt_at_turn pass onS r N st0 0 (V2, 0, last Xs ! 0, o2)"
    using ex by (simp add: opt_at_turn_def st0_def sub_def)
  have lt: "Suc 0 < N" "Suc (Suc 0) < N" using N(3) by simp_all
  have e0: "(0 :: nat) < 2 \<or> (1 :: nat) = 2 ^ 0 \<and> 1 \<le> (0 :: nat) \<and> 0 < 2 * (1 :: nat)" by simp
  obtain out0 o3 where a0: "opt_blockmix pass (sub 0 ?s V2) (sub ?s ?s V2) r o2 = (out0, o3)"
      "opt_at_turn pass onS r N st0 (Suc 0) (blit V2 ?s out0, ?s, last out0 ! 0, o3)"
    using advance [OF ok N(1) lt(1) pos0 pass e0] by auto
  define V3 where "V3 = blit V2 ?s out0"
  have e1: "Suc 0 < 2 \<or> (1 :: nat) = 2 ^ 0 \<and> 1 \<le> Suc 0 \<and> Suc 0 < 2 * (1 :: nat)" by simp
  obtain out1 o4 where a1: "opt_blockmix pass (sub ?s ?s V3) (sub (?s + ?s) ?s V3) r o3 = (out1, o4)"
      "sub (?s + ?s) ?s (blit V3 (?s + ?s) out1) = out1"
      "opt_at_turn pass onS r N st0 (Suc (Suc 0)) (blit V3 (?s + ?s) out1, ?s + ?s, last out1 ! 0, o4)"
    using advance [OF ok N(1) lt(2) a0(2) pass e1] unfolding V3_def [symmetric] by auto
  define V4 where "V4 = blit V3 (?s + ?s) out1"
  obtain Vt Xt ct where t2: "for_range 0 (Suc (Suc 0)) (smix1_step ?t onS r) st0 = (Vt, Xt, ct)" by (metis prod_cases3)
  have "mix_ok onS r Xt" using smix1_steps_ok [OF ok _ N(1), of "Suc (Suc 0)"] lt t2 by (simp add: smix1_ok_def)
  moreover have "Xt = out1"
  proof -
    have pq: "Suc (Suc 0) * ?s = ?s + ?s" by simp
    show ?thesis using a1(3) a1(2) unfolding opt_at_turn_def prod.case t2 Let_def pq by simp
  qed
  ultimately have "length out1 = Suc (2 * r - 1)" using r(1) by (simp add: mix_ok_def)
  then have j: "opt_integerify (sub (?s + ?s) ?s V4) r = last out1 ! 0"
    using a1(2) last_nth [of out1 "2 * r - 1"] by (simp add: opt_integerify_eq V4_def)
  have pos2: "opt_at_turn pass onS r N st0 2 (V4, ?s + ?s, last out1 ! 0, o4)"
    using a1(3) by (simp add: V4_def numeral_2_eq_2)
  obtain q E st5 where outer: "opt_smix1_outer pass r N 2 (V4, ?s + ?s, last out1 ! 0, o4) = (2 * q, st5)" "q = 2 ^ E" "q \<le> N - 2" "N \<le> 2 * q"
      "opt_at_turn pass onS r N st0 (N - 2) st5"
    using outer_turns [OF ok N(1,2) pass pos2, of 1] N(3) by auto
  obtain V5 X5 j5 o5 where st5: "st5 = (V5, X5, j5, o5)" by (metis prod_cases4)
  have i2: "Suc (N - 2) < N" "N - 2 < 2 * q" "\<not> N - 2 < 2" using N(3) outer(4) by simp_all
  have f2: "N - 2 < 2 \<or> q = 2 ^ E \<and> q \<le> N - 2 \<and> N - 2 < 2 * q" using outer i2 by simp
  obtain out5 o6 where a5: "opt_blockmix_xor pass (sub X5 ?s V5) (sub ((unat (j5 AND of_nat (q - 1)) + (N - 2 - q)) * ?s) ?s V5) (sub (X5 + ?s) ?s V5) r o5 = (out5, last out5 ! 0, o6)"
      "opt_at_turn pass onS r N st0 (Suc (N - 2)) (blit V5 (X5 + ?s) out5, X5 + ?s, last out5 ! 0, o6)"
    using advance [OF ok N(1) i2(1) outer(5) [unfolded st5] pass f2] i2(3) by auto
  define V6 where "V6 = blit V5 (X5 + ?s) out5"
  have last_i: "Suc (N - 2) = N - 1" "N - 1 < N" "Suc (N - 1) = N" "\<not> N - 1 < 2" "q \<le> N - 1" "N - 1 < 2 * q" using N(3) outer(3,4) by simp_all
  have f3: "N - 1 < 2 \<or> q = 2 ^ E \<and> q \<le> N - 1 \<and> N - 1 < 2 * q" using outer(2) last_i by simp
  obtain VN XN cN where stN: "for_range 0 (Suc (N - 1)) (smix1_step ?t onS r) st0 = (VN, XN, cN)" by (metis prod_cases3)
  have BoutN: "mix_ok onS r (sub 0 ?s XY)" using XY r by (simp add: mix_ok_def)
  obtain oN where aN: "opt_blockmix_xor pass (sub (X5 + ?s) ?s V6) (sub ((unat ((last out5 ! 0) AND of_nat (q - 1)) + (N - 1 - q)) * ?s) ?s V6) (sub 0 ?s XY) r o6 = (XN, last XN ! 0, oN)"
      "octx_rel pass onS cN oN" "take (Suc (N - 1) * ?s) V6 = take (Suc (N - 1) * ?s) VN" "mix_ok onS r XN" "blocks VN" "length VN = N * ?s"
    using turn_at [OF ok N(1) last_i(2) a5(2) [unfolded last_i(1) V6_def [symmetric]] pass stN BoutN f3] last_i(4) by auto
  have V6: "V6 = VN" using aN(3,6) a5(2) last_i(3) by (simp add: opt_at_turn_def V6_def [symmetric] split: prod.splits)
  define XY' where "XY' = blit XY 0 XN"
  have XN: "blocks XN" "length XN = ?s" using aN(4) by (simp_all add: mix_ok_def)
  have XY': "blocks XY'" "length XY' = length XY" "take ?s XY' = XN" "length (XY' ! ?s) = 16"
    using XY XN blocks_nth [of XY' ?s] by (simp_all add: XY'_def blocks_blit blit_def)
  have "opt_store ?s XY' (XY' ! ?s) D = store_blocks XN D"
    using opt_store_blocks [OF XY'(4,1), of ?s D] XY' XY(2) B D(1) by simp
  then have opt: "opt_smix1 pass D r N V XY octxt = (store_blocks XN D, VN, XY', oN)"
    unfolding opt_smix1_def Let_def n_def [symmetric] tmp(1) prod.case V1_def [symmetric] ex(2) a0(1) V3_def [symmetric] a1(1)
      V4_def [symmetric] j outer(1) st5
    using a5(1) aN(1) by (simp add: V6_def [symmetric] XY'_def [symmetric] V6)
  have "for_range 0 N (ref_smix1_turn onS r) (concat U, concat Xs, c2) = (concat VN, concat XN, cN)"
    using ref_smix1_turns [OF ok N(1), of N] stN last_i(3) by (simp add: st0_def flat_def)
  then have "ref_smix1 onS B r N (concat U) c = (store_blocks XN B, concat VN, cN)"
    unfolding ref_smix1_def L(1) Let_def ex(1) prod.case using ref_store_blocks [OF XN B(1,2)] by simp
  then show ?thesis using opt aN(2,5,6) XY'(1,2) XN by blast
qed

end
