(* ===== verification/YespowerSmix2.thy ===== *)
theory YespowerSmix2
  imports YespowerSmix
begin

text \<open>
  The second loop of SMix, with and without writing: one step over arrays of blocks (\<open>smix2_step\<close>), which the
  reference takes one at a time and the optimised code in pairs; both end alike (\<open>smix2_agree\<close>).
\<close>

section \<open>The second loop of SMix\<close>

definition smix2_step :: "nat \<Rightarrow> nat \<Rightarrow> nat \<Rightarrow> bool \<Rightarrow> u32 list list \<times> u32 list list \<times> ref_ctx \<Rightarrow> u32 list list \<times> u32 list list \<times> ref_ctx" where
  "smix2_step t r N wr = (\<lambda>(Vs, Xs, c).
    let s = 2 * r;
        j = unat (last Xs ! 0 AND (of_nat N - 1));
        Xs = map2 blkxor Xs (sub (j * s) s Vs);
        Vs = (if wr then blit Vs (j * s) Xs else Vs);
        (Xs, c) = mixer t False Xs c
    in (Vs, Xs, c))"

lemma and_less:
  assumes "N = 2 ^ e" and "e < 32"
  shows "unat (x AND (of_nat N - 1) :: u32) < N"
proof -
  have "(of_nat N - 1 :: u32) = of_nat (N - 1)" using assms(1) by (simp add: of_nat_diff)
  then have "unat (x AND (of_nat N - 1) :: u32) = unat x mod N" using and_below [OF assms, of x] by simp
  then show ?thesis using assms(1) by simp
qed

lemma smix2_input:
  assumes "smix1_ok t False r N (Vs, Xs, c)" and "N = 2 ^ e" and "e < 32" and "j = unat (last Xs ! 0 AND (of_nat N - 1))"
  shows "j * (2 * r) + 2 * r \<le> length Vs" and "mix_ok False r (sub (j * (2 * r)) (2 * r) Vs)" and "j < N"
proof -
  show j: "j < N" using and_less [OF assms(2,3)] assms(4) by simp
  show fit: "j * (2 * r) + 2 * r \<le> length Vs"
    using part_fits [OF j, of "2 * r"] assms(1) by (simp add: smix1_ok_def)
  then show "mix_ok False r (sub (j * (2 * r)) (2 * r) Vs)"
    using assms(1) mix_ok_sub [OF _ _ fit, of False Xs] by (simp add: smix1_ok_def)
qed

lemma smix2_step_ok:
  assumes "smix1_ok t False r N st" and "N = 2 ^ e" and "e < 32"
  shows "smix1_ok t False r N (smix2_step t r N wr st)"
proof (cases st)
  case (fields Vs Xs c)
  have ok: "blocks Vs" "length Vs = N * (2 * r)" "mix_ok False r Xs" "rc_salsa20_rounds c = 2 * t"
    using assms(1) by (simp_all add: smix1_ok_def fields)
  define j where "j = unat (last Xs ! 0 AND (of_nat N - 1))"
  note inp = smix2_input [OF assms(1) [unfolded fields] assms(2,3) j_def]
  define In where "In = map2 blkxor Xs (sub (j * (2 * r)) (2 * r) Vs)"
  have okIn: "mix_ok False r In" unfolding In_def using ok(3) inp(2) by (rule mix_ok_xor)
  have st': "smix2_step t r N wr st = (if wr then blit Vs (j * (2 * r)) In else Vs, fst (mixer t False In c), snd (mixer t False In c))"
    unfolding fields smix2_step_def prod.case Let_def j_def [symmetric] In_def [symmetric] by (simp add: split_beta)
  have "length (blit Vs (j * (2 * r)) In) = N * (2 * r)"
    using length_blit_part [OF inp(3) ok(2)] okIn by (simp add: mix_ok_def)
  moreover have "blocks (blit Vs (j * (2 * r)) In)" using ok(1) okIn by (simp add: blocks_blit mix_ok_def)
  moreover have "rc_salsa20_rounds (snd (mixer t False In c)) = 2 * t"
    using ok(4) block_mix_rounds [of t In c] by (simp add: mixer_def)
  ultimately show ?thesis
    unfolding st' using ok(1,2) mixer_ok [OF okIn, of t c] by (simp add: smix1_ok_def split_beta)
qed

lemma smix2_steps_ok:
  assumes "smix1_ok t False r N st" and "N = 2 ^ e" and "e < 32"
  shows "smix1_ok t False r N ((smix2_step t r N wr ^^ n) st)"
  by (induction n) (use assms smix2_step_ok [OF _ assms(2,3)] in auto)

lemma ref_smix2_turn_step:
  assumes "smix1_ok t False r N st" and "N = 2 ^ e" and "e < 32"
  shows "ref_smix2_turn r N Nloop (flat st) i = flat (smix2_step t r N (Nloop \<noteq> 2) st)"
proof (cases st)
  case (fields Vs Xs c)
  have ok: "blocks Vs" "length Vs = N * (2 * r)" "mix_ok False r Xs" "rc_salsa20_rounds c = 2 * t"
    using assms(1) by (simp_all add: smix1_ok_def fields)
  have X: "blocks Xs" "length Xs = 2 * r" using ok(3) by (simp_all add: mix_ok_def)
  define j where "j = unat (last Xs ! 0 AND (of_nat N - 1))"
  note inp = smix2_input [OF assms(1) [unfolded fields] assms(2,3) j_def]
  define In where "In = map2 blkxor Xs (sub (j * (2 * r)) (2 * r) Vs)"
  have okIn: "mix_ok False r In" unfolding In_def using ok(3) inp(2) by (rule mix_ok_xor)
  have idx: "j * (32 * r) = j * (2 * r) * 16" "32 * r = 2 * r * 16" by simp_all
  have jr: "unat (ref_integerify (concat Xs) r AND (of_nat N - 1)) = j"
    by (simp only: integerify_last [OF ok(3)] j_def)
  have sb: "sub (j * (32 * r)) (32 * r) (concat Vs) = concat (sub (j * (2 * r)) (2 * r) Vs)"
    unfolding idx(1) unfolding idx(2) using ok(1) inp(1) by (rule sub_concat_blocks)
  have bx: "blkxor (concat Xs) (concat (sub (j * (2 * r)) (2 * r) Vs)) = concat In"
    unfolding In_def using X inp(2) by (intro blkxor_concat) (simp_all add: mix_ok_def)
  have bl: "blit (concat Vs) (j * (32 * r)) (concat In) = concat (blit Vs (j * (2 * r)) In)"
    unfolding idx(1) using ok(1) okIn inp(1) by (intro blit_concat_blocks) (simp_all add: mix_ok_def)
  have nxt: "ref_blockmix_pwxform (concat In) c r = (concat (fst (mixer t False In c)), snd (mixer t False In c))"
    using ref_next_mixer [OF okIn ok(4)] by (simp add: ref_next_def)
  show ?thesis
    unfolding fields flat_def prod.case ref_smix2_turn_def smix2_step_def Let_def jr sb bx bl nxt j_def [symmetric] In_def [symmetric]
    by (simp add: split_beta)
qed

lemma ref_smix2_turns:
  assumes "smix1_ok t False r N st" and "N = 2 ^ e" and "e < 32"
  shows "for_range 0 n (ref_smix2_turn r N Nloop) (flat st) = flat ((smix2_step t r N (Nloop \<noteq> 2) ^^ n) st)"
proof (induction n)
  case (Suc n)
  then show ?case
    using ref_smix2_turn_step [OF smix2_steps_ok [OF assms] assms(2,3)] by (simp add: for_range_Suc)
qed simp

text \<open>One turn of the optimised loop, which also writes.\<close>

lemma opt_smix2_turn:
  assumes ok: "smix1_ok (salsa_turns pass) False r N (Vs, Xs, c)" and e: "N = 2 ^ e" "e < 32" and pass: "pass = 1 \<or> pass = 2"
    and rel: "ctx_rel pass c oc" and step: "smix2_step (salsa_turns pass) r N True (Vs, Xs, c) = (Vs', Xs', c')"
    and j: "j = unat (last Xs ! 0 AND (of_nat N - 1))"
  shows "\<exists>out oc'. opt_blockmix_xor_save pass Xs (sub (j * (2 * r)) (2 * r) Vs) r oc = (Xs', out, last Xs' ! 0, oc') \<and>
    Vs' = blit Vs (j * (2 * r)) out \<and> ctx_rel pass c' oc'"
proof -
  let ?In = "map2 blkxor Xs (sub (j * (2 * r)) (2 * r) Vs)"
  note inp = smix2_input [OF ok e j]
  have X: "blocks Xs" "length Xs = 2 * r" "0 < r" using ok by (simp_all add: smix1_ok_def mix_ok_def)
  have B: "blocks (sub (j * (2 * r)) (2 * r) Vs)" "length (sub (j * (2 * r)) (2 * r) Vs) = 2 * r"
    using inp(2) unfolding mix_ok_def by blast+
  have eqs: "Vs' = blit Vs (j * (2 * r)) ?In" "block_mix (salsa_turns pass) ?In c = (Xs', c')"
    using step unfolding smix2_step_def prod.case Let_def j [symmetric] mixer_def by (simp_all split: prod.splits)
  show ?thesis
    using opt_blockmix_save_mix [OF pass rel X(1) B(1) X(2) B(2) X(3) eqs(2)] eqs(1) by blast
qed

lemma opt_smix2_pair:
  assumes ok: "smix1_ok (salsa_turns pass) False r N (Vs, Xs, c)" and e: "N = 2 ^ e" "e < 32" and pass: "pass = 1 \<or> pass = 2"
    and rel: "ctx_rel pass c oc" and j: "j = unat (last Xs ! 0 AND (of_nat N - 1))"
    and two: "smix2_step (salsa_turns pass) r N True (smix2_step (salsa_turns pass) r N True (Vs, Xs, c)) = (Vs2, Xs2, c2)"
  shows "\<exists>oc2. opt_smix2_loop pass r N Nloop j Vs Xs oc =
    (if Nloop \<le> 2 then (Vs2, Xs2, oc2) else opt_smix2_loop pass r N (Nloop - 2) (unat (last Xs2 ! 0 AND (of_nat N - 1))) Vs2 Xs2 oc2) \<and>
    ctx_rel pass c2 oc2"
proof -
  obtain Vs1 Xs1 c1 where one: "smix2_step (salsa_turns pass) r N True (Vs, Xs, c) = (Vs1, Xs1, c1)" by (metis prod_cases3)
  obtain out oc1 where a: "opt_blockmix_xor_save pass Xs (sub (j * (2 * r)) (2 * r) Vs) r oc = (Xs1, out, last Xs1 ! 0, oc1)"
      "Vs1 = blit Vs (j * (2 * r)) out" "ctx_rel pass c1 oc1"
    using opt_smix2_turn [OF ok e pass rel one j] by blast
  define j1 where "j1 = unat (last Xs1 ! 0 AND (of_nat N - 1))"
  have ok1: "smix1_ok (salsa_turns pass) False r N (Vs1, Xs1, c1)" using smix2_step_ok [OF ok e] one by metis
  obtain out2 oc2 where b: "opt_blockmix_xor_save pass Xs1 (sub (j1 * (2 * r)) (2 * r) Vs1) r oc1 = (Xs2, out2, last Xs2 ! 0, oc2)"
      "Vs2 = blit Vs1 (j1 * (2 * r)) out2" "ctx_rel pass c2 oc2"
    using opt_smix2_turn [OF ok1 e pass a(3) two [unfolded one] j1_def] by blast
  show ?thesis
    unfolding opt_smix2_loop.simps [of pass r N Nloop] Let_def a(1) prod.case a(2) [symmetric] j1_def [symmetric] b(1) b(2) [symmetric]
    using b(3) by blast
qed

lemma opt_smix2_turns:
  assumes e: "N = 2 ^ e" "e < 32" and pass: "pass = 1 \<or> pass = 2"
  shows "smix1_ok (salsa_turns pass) False r N (Vs, Xs, c) \<Longrightarrow> ctx_rel pass c oc \<Longrightarrow> j = unat (last Xs ! 0 AND (of_nat N - 1)) \<Longrightarrow>
    (smix2_step (salsa_turns pass) r N True ^^ (2 * Suc m)) (Vs, Xs, c) = (Vs', Xs', c') \<Longrightarrow>
    \<exists>oc'. opt_smix2_loop pass r N (2 * Suc m) j Vs Xs oc = (Vs', Xs', oc') \<and> ctx_rel pass c' oc'"
proof (induction m arbitrary: Vs Xs c oc j)
  case 0
  let ?f = "smix2_step (salsa_turns pass) r N True"
  have "?f (?f (Vs, Xs, c)) = (Vs', Xs', c')" using "0.prems"(4) by (simp add: numeral_2_eq_2)
  from opt_smix2_pair [OF "0.prems"(1) e pass "0.prems"(2,3) this, of 2] show ?case by simp
next
  case (Suc m)
  let ?f = "smix2_step (salsa_turns pass) r N True"
  obtain Vs2 Xs2 c2 where two: "?f (?f (Vs, Xs, c)) = (Vs2, Xs2, c2)" by (metis prod_cases3)
  have "(?f ^^ (2 * Suc (Suc m))) (Vs, Xs, c) = (?f ^^ (2 * Suc m)) (?f (?f (Vs, Xs, c)))"
    by (simp add: funpow_swap1)
  then have rest: "(?f ^^ (2 * Suc m)) (Vs2, Xs2, c2) = (Vs', Xs', c')" using Suc.prems(4) two by simp
  have ok2: "smix1_ok (salsa_turns pass) False r N (Vs2, Xs2, c2)"
    using smix2_step_ok [OF smix2_step_ok [OF Suc.prems(1) e] e] two by metis
  obtain oc2 where p: "opt_smix2_loop pass r N (2 * Suc (Suc m)) j Vs Xs oc =
      (if 2 * Suc (Suc m) \<le> 2 then (Vs2, Xs2, oc2) else opt_smix2_loop pass r N (2 * Suc (Suc m) - 2) (unat (last Xs2 ! 0 AND (of_nat N - 1))) Vs2 Xs2 oc2)"
      "ctx_rel pass c2 oc2"
    using opt_smix2_pair [OF Suc.prems(1) e pass Suc.prems(2,3) two] by blast
  have "\<not> 2 * Suc (Suc m) \<le> 2" "2 * Suc (Suc m) - 2 = 2 * Suc m" by simp_all
  then show ?case using p(1) Suc.IH [OF ok2 p(2) refl rest] by simp
qed

text \<open>The whole second loop.\<close>

lemma opt_smix2_readonly:
  assumes ok: "smix1_ok (salsa_turns pass) False r N (Vs, Xs, c)" and e: "N = 2 ^ e" "e < 32" and pass: "pass = 1 \<or> pass = 2"
    and rel: "ctx_rel pass c oc" and step: "smix2_step (salsa_turns pass) r N False (Vs, Xs, c) = (Vs', Xs', c')"
    and j: "j = unat (last Xs ! 0 AND (of_nat N - 1))" and Bout: "mix_ok False r Bout"
  shows "\<exists>oc'. opt_blockmix_xor pass Xs (sub (j * (2 * r)) (2 * r) Vs) Bout r (Some oc) = (Xs', last Xs' ! 0, Some oc') \<and>
    Vs' = Vs \<and> ctx_rel pass c' oc' \<and> mix_ok False r Xs'"
proof -
  let ?In = "map2 blkxor Xs (sub (j * (2 * r)) (2 * r) Vs)"
  note inp = smix2_input [OF ok e j]
  have X: "mix_ok False r Xs" using ok by (simp add: smix1_ok_def)
  have eqs: "Vs' = Vs" "mixer (salsa_turns pass) False ?In c = (Xs', c')"
    using step unfolding smix2_step_def prod.case Let_def j [symmetric] by (auto split: prod.splits)
  have "octx_rel pass False c (Some oc)" using rel by (simp add: octx_rel_def ctx_rel_def)
  from opt_mixer_xor [OF pass this X inp(2) Bout eqs(2)] eqs(1) mixer_ok [OF mix_ok_xor [OF X inp(2)], of "salsa_turns pass" c] eqs(2)
  show ?thesis by (auto simp: octx_rel_def)
qed

lemma smix2_agree:
  assumes pass: "pass = 1 \<or> pass = 2" and rel: "ctx_rel pass c oc" and e: "N = 2 ^ e" "e < 32" and "0 < r"
    and V: "blocks V" "length V = N * (2 * r)"
    and XY: "blocks XY" "2 * r < length XY" "pass = 1 \<longrightarrow> 4 * r \<le> length XY" and B: "length B = 64 * nb" "2 * r \<le> nb"
    and Nloop: "even Nloop" "2 \<le> Nloop" "pass = 1 \<or> 2 < Nloop"
  shows "\<exists>B' V' XY' c' oc'. ref_smix2 B r N Nloop (concat V) c = (B', concat V', c') \<and>
    opt_smix2 pass B r N Nloop V XY oc = (B', V', XY', oc') \<and> ctx_rel pass c' oc' \<and> length B' = length B \<and>
    blocks V' \<and> length V' = N * (2 * r) \<and> blocks XY' \<and> length XY' = length XY"
proof -
  let ?s = "2 * r" and ?t = "salsa_turns pass"
  define L where "L = map (load_block B) [0..<?s]"
  have L: "ref_load B r = concat L" "blocks L" "length L = ?s" "mix_ok False r L" using \<open>0 < r\<close> by (simp_all add: L_def ref_load_blocks mix_ok_def)
  have ok: "smix1_ok ?t False r N (V, L, c)" using V L(4) rel by (simp add: smix1_ok_def ctx_rel_def)
  obtain VN XN cN where N: "(smix2_step ?t r N (Nloop \<noteq> 2) ^^ Nloop) (V, L, c) = (VN, XN, cN)" by (metis prod_cases3)
  have okN: "smix1_ok ?t False r N (VN, XN, cN)" using smix2_steps_ok [OF ok e] N by metis
  then have XN: "blocks XN" "length XN = ?s" "blocks VN" "length VN = N * ?s" by (simp_all add: smix1_ok_def mix_ok_def)
  have "for_range 0 Nloop (ref_smix2_turn r N Nloop) (concat V, concat L, c) = (concat VN, concat XN, cN)"
    using ref_smix2_turns [OF ok e, of Nloop Nloop] N by (simp add: flat_def)
  then have ref: "ref_smix2 B r N Nloop (concat V) c = (store_blocks XN B, concat VN, cN)"
    unfolding ref_smix2_def L(1) Let_def using ref_store_blocks [OF XN(1,2) B] by simp
  have tmp0: "length (XY ! ?s) = 16" using blocks_nth [OF XY(1,2)] .
  obtain tmp where tmp: "opt_load ?s B (XY ! ?s, XY) = (tmp, L @ drop ?s XY)" "length tmp = 16"
    using opt_load_blocks [OF tmp0 XY(1), of ?s B] XY(2) by (auto simp: L_def)
  define XY1 where "XY1 = (L @ drop ?s XY)[?s := tmp]"
  have XY1: "blocks XY1" "length XY1 = length XY" "sub 0 ?s XY1 = L"
    using XY L tmp(2) by (simp_all add: XY1_def blocks_update sub_def)
  have n1: "length L = Suc (?s - 1)" using L(3) \<open>0 < r\<close> by simp
  have "?s - 1 < length L" "?s - 1 \<noteq> ?s" using n1 \<open>0 < r\<close> by simp_all
  then have "XY1 ! (?s - 1) = L ! (?s - 1)" by (simp only: XY1_def nth_list_update_neq nth_append if_True not_sym simp_thms)
  then have jL: "opt_integerify XY1 r = last L ! 0" using last_nth [OF n1] by (simp add: opt_integerify_eq)
  define j where "j = unat (last L ! 0 AND (of_nat N - 1))"
  let ?body = "if pass = 1 \<and> Nloop \<le> 2 then
            let (out, k, ctx) = opt_blockmix_xor pass (sub 0 ?s XY1) (sub (j * ?s) ?s V) (sub ?s ?s XY1) r (Some oc);
                XY = blit XY1 ?s out;
                j = unat (k AND (of_nat N - 1));
                (out, k, ctx) = opt_blockmix_xor pass (sub ?s ?s XY) (sub (j * ?s) ?s V) (sub 0 ?s XY) r ctx
            in (V, blit XY 0 out, the ctx)
          else let (V, X, c) = opt_smix2_loop pass r N Nloop j V (sub 0 ?s XY1) oc in (V, blit XY1 0 X, c)"
  have "\<exists>XY2 oc2. ?body = (VN, blit XY2 0 XN, oc2) \<and> ctx_rel pass cN oc2 \<and> blocks XY2 \<and> length XY2 = length XY"
  proof (cases "pass = 1 \<and> Nloop \<le> 2")
    case True
    then have two: "Nloop = 2" using Nloop(2) by simp
    let ?f = "smix2_step ?t r N False"
    obtain V1 X1 c1 where one: "?f (V, L, c) = (V1, X1, c1)" by (metis prod_cases3)
    have onetwo: "?f (V1, X1, c1) = (VN, XN, cN)" using N one by (simp add: two numeral_2_eq_2)
    have ok1: "smix1_ok ?t False r N (V1, X1, c1)" using smix2_step_ok [OF ok e] one by metis
    have out1: "mix_ok False r (sub ?s ?s XY1)" using XY1 XY(3) True \<open>0 < r\<close> by (simp add: mix_ok_def)
    obtain oc1 where a: "opt_blockmix_xor pass L (sub (j * ?s) ?s V) (sub ?s ?s XY1) r (Some oc) = (X1, last X1 ! 0, Some oc1)"
        "V1 = V" "ctx_rel pass c1 oc1" "mix_ok False r X1"
      using opt_smix2_readonly [OF ok e pass rel one j_def out1] by blast
    define XY2 where "XY2 = blit XY1 ?s X1"
    have XY2: "blocks XY2" "length XY2 = length XY" "sub ?s ?s XY2 = X1"
      using XY1 a(4) XY(3) True sub_blit [of ?s X1 XY1] by (simp_all add: XY2_def blocks_blit mix_ok_def)
    have out2: "mix_ok False r (sub 0 ?s XY2)" using XY2 XY(2) \<open>0 < r\<close> by (simp add: mix_ok_def)
    define j1 where "j1 = unat (last X1 ! 0 AND (of_nat N - 1))"
    obtain oc2 where b: "opt_blockmix_xor pass X1 (sub (j1 * ?s) ?s V) (sub 0 ?s XY2) r (Some oc1) = (XN, last XN ! 0, Some oc2)"
        "VN = V1" "ctx_rel pass cN oc2"
      using opt_smix2_readonly [OF ok1 e pass a(3) onetwo j1_def out2] a(2) by blast
    have "?body = (V, blit XY2 0 XN, oc2)"
      unfolding if_P [OF True] Let_def XY1(3) a(1) prod.case XY2_def [symmetric] XY2(3) j1_def [symmetric] b(1) by simp
    then show ?thesis using a(2) b(2,3) XY2(1,2) by blast
  next
    case False
    then have big: "2 < Nloop" using Nloop(2,3) by auto
    then obtain m where m: "Nloop = 2 * Suc m" using Nloop(1) by (metis evenE not_less_zero nat.exhaust mult_0_right)
    have "(smix2_step ?t r N True ^^ (2 * Suc m)) (V, L, c) = (VN, XN, cN)" using N big m by simp
    from opt_smix2_turns [OF e pass ok rel j_def this] obtain oc2 where
      "opt_smix2_loop pass r N Nloop j V L oc = (VN, XN, oc2)" "ctx_rel pass cN oc2" unfolding m by blast
    then show ?thesis using False XY1 by auto
  qed
  then obtain XY2 oc2 where body: "?body = (VN, blit XY2 0 XN, oc2)" "ctx_rel pass cN oc2" "blocks XY2" "length XY2 = length XY" by blast
  define XY3 where "XY3 = blit XY2 0 XN"
  have XY3: "blocks XY3" "length XY3 = length XY" "take ?s XY3 = XN"
    using body(3,4) XN XY(2) by (simp_all add: XY3_def blocks_blit blit_def)
  have "length (XY3 ! ?s) = 16" using blocks_nth [OF XY3(1)] XY3(2) XY(2) by simp
  from opt_store_blocks [OF this XY3(1), of ?s B] have st: "opt_store ?s XY3 (XY3 ! ?s) B = store_blocks XN B"
    using XY3 XY(2) B by simp
  have "opt_smix2 pass B r N Nloop V XY oc = (store_blocks XN B, VN, XY3, oc2)"
    unfolding opt_smix2_def Let_def tmp(1) prod.case XY1_def [symmetric] jL j_def [symmetric]
    using body(1) st unfolding Let_def XY3_def [symmetric] by simp
  moreover have "length (store_blocks XN B) = length B" using XN(2) B by (simp add: length_store_blocks)
  ultimately show ?thesis using ref body(2) XN(3,4) XY3(1,2) by blast
qed

end
