(* ===== verification/YespowerHash.thy ===== *)
theory YespowerHash
  imports YespowerSmix2
begin

text \<open>
  SMix as a whole, and the two functions \<open>yespower\<close>: the compiled one, in memory of its own that it keeps
  between calls, returns what the reference returns in freshly allocated memory.
\<close>

section \<open>Preparations\<close>

lemma as_blocks_facts:
  assumes "length ws = 16 * k"
  shows "blocks (as_blocks ws)" and "length (as_blocks ws) = k" and "concat (as_blocks ws) = ws"
proof -
  show "blocks (as_blocks ws)"
    using assms by (auto simp: as_blocks_def blocks_def)
  show "length (as_blocks ws) = k" using assms by (simp add: as_blocks_def)
  have "n \<le> k \<Longrightarrow> concat (map (\<lambda>i. sub (16 * i) 16 ws) [0..<n]) = take (16 * n) ws" for n
  proof (induction n)
    case (Suc n)
    then show ?case using assms take_sub [of "16 * n" 16 ws] by (simp add: add.commute)
  qed simp
  from this [of k] show "concat (as_blocks ws) = ws" using assms by (simp add: as_blocks_def)
qed

lemma ref_smix1_onS_ctx: "snd (snd (ref_smix1 True B 1 N V c)) = c"
proof -
  have "snd (snd (for_range 0 n (ref_smix1_turn True 1) st)) = snd (snd st)" for n st
    by (induction n) (simp_all add: for_range_Suc ref_smix1_turn_def Let_def split_beta)
  moreover have "ref_expand 1 x = x" for x by (simp add: ref_expand_def)
  ultimately show ?thesis by (simp add: ref_smix1_def Let_def split_beta del: One_nat_def)
qed

lemma store_blocks_all: "length B = 64 * length X \<Longrightarrow> store_blocks X B = concat (map store_block X)"
  by (simp add: store_blocks_def)

lemma store_blocks_prefix:
  assumes "take m D = take m B"
  shows "take m (store_blocks X D) = take m (store_blocks X B)"
proof -
  have "take (m - k) (drop k D) = take (m - k) (drop k B)" for k
    using arg_cong [OF assms, of "drop k"] by (simp add: drop_take)
  then show ?thesis by (simp add: store_blocks_def)
qed

text \<open>The numbers of turns of the second loop.\<close>

lemma unat_and_not_1: "unat (x AND - 2 :: u32) = unat x - unat x mod 2"
proof -
  have "x = (x AND NOT 1) + (x AND 1)"
    by (subst disjunctive_add) (auto simp: bit_simps bit_eq_iff)
  then have "x AND NOT 1 = x - (x AND 1)" by (metis add_diff_cancel_right')
  moreover have "unat (x AND 1) = unat x mod 2" using unat_and_mask [of x 1] by (simp add: mask_eq_exp_minus_1)
  moreover have "x AND 1 \<le> x" by (rule word_and_le2)
  ultimately have "unat (x AND NOT 1) = unat x - unat x mod 2" by (simp add: unat_sub)
  then show ?thesis by simp
qed

lemma Nloops:
  assumes "1024 \<le> unat N" and "unat N \<le> 2 ^ 19" and "pass = 1 \<or> pass = 2" and "version = (if pass = 1 then YESPOWER_0_5 else YESPOWER_1_0)"
    and "ref_Nloop version N = (all, rw)"
  shows "opt_Nloop pass N = (all, rw)" and "even (unat rw)" and "2 < unat rw"
    and "if pass = 1 \<and> rw < all then unat (all - rw) = 2 else all = rw"
proof -
  define q where "q = (N + 2) div 3"
  have "unat (N + 2) = unat N + 2" using assms(2) by (subst unat_plus_if') simp
  then have q: "unat q = (unat N + 2) div 3" by (simp add: q_def unat_div)
  then have q2: "342 \<le> unat q" "unat q \<le> 2 ^ 18" using assms(1,2) by simp_all
  have q1: "unat (q + 1) = unat q + 1" using q2(2) by (subst unat_plus_if') simp
  have ar: "all = (q + 1) AND NOT 1" "rw = (if pass = 1 then q AND NOT 1 else (q + 1) AND NOT 1)"
    using assms(3-5) by (auto simp: ref_Nloop_def Let_def q_def YESPOWER_0_5_def YESPOWER_1_0_def)
  show "opt_Nloop pass N = (all, rw)" using assms(3) by (auto simp: opt_Nloop_def Let_def ar q_def)
  show "even (unat rw)" using assms(3) by (auto simp: ar(2) unat_and_not_1)
  show "2 < unat rw" using q2 by (simp add: ar(2) unat_and_not_1 q1) linarith
  show "if pass = 1 \<and> rw < all then unat (all - rw) = 2 else all = rw"
  proof (cases "pass = 1")
    case True
    have a: "unat all = unat q + 1 - (unat q + 1) mod 2" "unat rw = unat q - unat q mod 2"
      using True by (simp_all add: ar unat_and_not_1 q1)
    show ?thesis
    proof (cases "even (unat q)")
      case True
      then have "all = rw" using a by (simp add: word_unat_eq_iff even_iff_mod_2_eq_zero mod_Suc)
      then show ?thesis by simp
    next
      case False
      then have "unat all = unat rw + 2" using a q2 by (simp add: odd_iff_mod_2_eq_one mod_Suc)
      moreover from this have "rw < all" by (simp add: word_less_nat_alt)
      ultimately show ?thesis using \<open>pass = 1\<close> by (simp add: unat_sub)
    qed
  qed (use assms(3) in \<open>simp add: ar\<close>)
qed

section \<open>SMix\<close>

text \<open>The contexts before the S-boxes are filled: the memory they occupy may hold anything.\<close>

definition ctx_start :: "nat \<Rightarrow> ref_ctx \<Rightarrow> opt_ctx \<Rightarrow> bool" where
  "ctx_start pass rc oc \<longleftrightarrow> ctx_rel pass (rc\<lparr>rc_S := []\<rparr>) (oc\<lparr>oc_S := []\<rparr>) \<and>
     (\<exists>k. rc_Sbytes rc div 128 = 2 * k \<and> 2 \<le> k \<and> k \<le> 2 ^ 20) \<and>
     length (rc_S rc) = rc_Sbytes rc div 128 * 32 \<and> length (oc_S oc) = rc_Sbytes rc div 128 * 32"

lemma ctx_start_fill: "ctx_start pass rc oc \<Longrightarrow> ctx_rel pass (rc\<lparr>rc_S := S\<rparr>) (oc\<lparr>oc_S := S\<rparr>)"
  by (simp add: ctx_start_def ctx_rel_def)

lemma smix_agree:
  assumes pass: "pass = 1 \<or> pass = 2" and start: "ctx_start pass rc oc" and e: "unat N = 2 ^ e" "10 \<le> e" "e \<le> 19" and "0 < r"
    and U: "length U = unat N * (32 * r)" and V: "blocks V" "length V = unat N * (2 * r)"
    and XY: "blocks XY" "2 * r < length XY" "pass = 1 \<longrightarrow> 4 * r \<le> length XY"
    and B: "length B = 128 * r" "length D = 128 * r" "take (if pass = 1 then 128 * r else 128) D = take (if pass = 1 then 128 * r else 128) B"
  shows "ref_smix B r N U rc = opt_smix pass D r N V XY oc" and "length (ref_smix B r N U rc) = 128 * r"
proof -
  let ?t = "salsa_turns pass"
  define n where "n = rc_Sbytes rc div 128"
  obtain k where k: "n = 2 * k" "2 \<le> k" "k \<le> 2 ^ 20" using start by (auto simp: ctx_start_def n_def)
  have S: "length (rc_S rc) = 16 * (n * 2)" "length (oc_S oc) = 16 * (n * 2)" using start by (simp_all add: ctx_start_def n_def)
  note SR = as_blocks_facts [OF S(1)] and SO = as_blocks_facts [OF S(2)]
  have nb: "oc_Sbytes oc div 128 = n" using start by (simp add: ctx_start_def ctx_rel_def n_def)
  have version: "rc_version rc = (if pass = 1 then YESPOWER_0_5 else YESPOWER_1_0)" and rounds: "rc_salsa20_rounds rc = 2 * ?t"
    using start by (simp_all add: ctx_start_def ctx_rel_def)
  have r64: "length B = 64 * (2 * r)" "length D = length B" using B by simp_all
  have on: "octx_rel pass True rc None" using rounds by (simp add: octx_rel_def)
  have N2: "n \<le> 2 ^ 31" "even n" "4 \<le> n" using k by simp_all
  have pre1: "take (64 * (if pass = 1 then 2 * 1 else 2)) D = take (64 * (if pass = 1 then 2 * 1 else 2)) B"
  proof -
    have "128 \<le> (if pass = 1 then 128 * r else 128)" using \<open>0 < r\<close> by simp
    then have "take 128 D = take 128 B"
      using arg_cong [OF B(3), of "take 128"] by (simp only: take_take min_absorb1)
    then show ?thesis by simp
  qed
  have XY1: "2 * 1 < length XY" using XY(2) \<open>0 < r\<close> by linarith
  have b1: "2 * 1 \<le> 2 * r" using \<open>0 < r\<close> by simp
  have l1: "length (as_blocks (oc_S oc)) = n * (2 * 1)" "length (as_blocks (rc_S rc)) = n * (2 * 1)" using SO SR by simp_all
  obtain X1 S' XY' c' octxt' where s1: "ref_smix1 True B 1 n (rc_S rc) rc = (store_blocks X1 B, concat S', c')"
      "opt_smix1 pass D 1 n (as_blocks (oc_S oc)) XY None = (store_blocks X1 D, S', XY', octxt')" "blocks X1" "length X1 = 2 * 1"
      "blocks XY'" "length XY' = length XY"
    using smix1_agree [OF pass on version N2 zero_less_one refl SO(1) l1(1) SR(1) l1(2) XY(1) XY1 r64(1) b1 r64(2) pre1] unfolding SR(3) by blast
  have c': "c' = rc" using ref_smix1_onS_ctx [of B n "rc_S rc" rc] s1(1) by simp
  define rc1 where "rc1 = rc\<lparr>rc_S := concat S'\<rparr>"
  define oc1 where "oc1 = oc\<lparr>oc_S := concat S'\<rparr>"
  have rel1: "octx_rel pass False rc1 (Some oc1)"
    using ctx_start_fill [OF start] rounds by (simp add: octx_rel_def rc1_def oc1_def)
  have version1: "rc_version rc1 = (if pass = 1 then YESPOWER_0_5 else YESPOWER_1_0)" using version by (simp add: rc1_def)
  define B1 where "B1 = store_blocks X1 B"
  define D1 where "D1 = store_blocks X1 D"
  have SB: "length B1 = length B" "length D1 = length B1" using s1(4) B b1 by (simp_all add: B1_def D1_def length_store_blocks)
  have pre2: "take (64 * (if pass = 1 then 2 * r else 2)) D1 = take (64 * (if pass = 1 then 2 * r else 2)) B1"
    unfolding B1_def D1_def using B(3) by (intro store_blocks_prefix) (cases "pass = 1"; simp)
  have N2': "unat N \<le> 2 ^ 31" "even (unat N)" "4 \<le> unat N"
  proof -
    have "(2 :: nat) ^ 10 \<le> unat N" "unat N \<le> 2 ^ 19" unfolding e(1) using e(2,3) by (intro power_increasing; simp)+
    then show "unat N \<le> 2 ^ 31" "4 \<le> unat N" by simp_all
    show "even (unat N)" using e(1,2) by simp
  qed
  have U2: "length U = 16 * (unat N * (2 * r))" using U by simp
  note UB = as_blocks_facts [OF U2]
  have l2: "2 * r < length XY'" using XY(2) s1(6) by simp
  have b2: "2 * r \<le> 2 * r" "length B1 = 64 * (2 * r)" using SB r64 by simp_all
  obtain X2 V2 XY2 c2 oct2 where s2: "ref_smix1 False B1 r (unat N) U rc1 = (store_blocks X2 B1, concat V2, c2)"
      "opt_smix1 pass D1 r (unat N) V XY' (Some oc1) = (store_blocks X2 D1, V2, XY2, oct2)" "octx_rel pass False c2 oct2"
      "blocks X2" "length X2 = 2 * r" "blocks V2" "length V2 = unat N * (2 * r)" "blocks XY2" "length XY2 = length XY'"
    using smix1_agree [OF pass rel1 version1 N2' \<open>0 < r\<close> _ V UB(1,2) s1(5) l2 b2(2,1) SB(2) pre2] unfolding UB(3) by blast
  define B2 where "B2 = store_blocks X2 B1"
  have D2: "store_blocks X2 D1 = B2" using s2(5) SB b2 by (simp add: B2_def store_blocks_all)
  have B2: "length B2 = 64 * (2 * r)" using s2(5) b2 by (simp add: B2_def length_store_blocks)
  obtain oc2 where oc2: "oct2 = Some oc2" "ctx_rel pass c2 oc2" using s2(3) by (auto simp: octx_rel_def)
  have version2: "rc_version rc = (if pass = 1 then YESPOWER_0_5 else YESPOWER_1_0)" by (rule version)
  obtain all rw where rloops: "ref_Nloop (rc_version rc) N = (all, rw)" by fastforce
  have N10: "1024 \<le> unat N" "unat N \<le> 2 ^ 19"
  proof -
    have "(2 :: nat) ^ 10 \<le> unat N" "unat N \<le> 2 ^ 19" unfolding e(1) using e(2,3) by (intro power_increasing; simp)+
    then show "1024 \<le> unat N" "unat N \<le> 2 ^ 19" by simp_all
  qed
  note loops = Nloops [OF N10 pass version rloops]
  have e32: "e < 32" using e by simp
  have XYl: "2 * r < length XY2" "pass = 1 \<longrightarrow> 4 * r \<le> length XY2" using XY s1(6) s2(9) by simp_all
  have rw: "2 \<le> unat rw" "pass = 1 \<or> 2 < unat rw" using loops(3) by simp_all
  obtain B3 V3 XY3 c3 oc3 where s3: "ref_smix2 B2 r (unat N) (unat rw) (concat V2) c2 = (B3, concat V3, c3)"
      "opt_smix2 pass B2 r (unat N) (unat rw) V2 XY2 oc2 = (B3, V3, XY3, oc3)" "ctx_rel pass c3 oc3" "length B3 = length B2"
      "blocks V3" "length V3 = unat N * (2 * r)" "blocks XY3" "length XY3 = length XY2"
    using smix2_agree [OF pass oc2(2) e(1) e32 \<open>0 < r\<close> s2(6,7,8) XYl B2 b2(1) loops(2) rw] by blast
  have XYl3: "2 * r < length XY3" "pass = 1 \<longrightarrow> 4 * r \<le> length XY3" using XYl s3(8) by simp_all
  have B3: "length B3 = 64 * (2 * r)" using B2 s3(4) by simp
  have ref: "ref_smix B r N U rc = fst (ref_smix2 B3 r (unat N) (unat (all - rw)) (concat V3) c3)"
    unfolding ref_smix_def rloops Let_def prod.case n_def [symmetric] s1(1) c' rc1_def [symmetric] B1_def [symmetric] s2(1) B2_def [symmetric] s3(1)
    by (simp add: split_beta)
  have opt: "opt_smix pass D r N V XY oc =
      fst (if pass = 1 \<and> all > rw then opt_smix2 pass B3 r (unat N) 2 V3 XY3 oc3 else (B3, V3, XY3, oc3))"
    unfolding opt_smix_def loops(1) Let_def prod.case nb s1(2) oc1_def [symmetric] D1_def [symmetric] s2(2) D2 oc2(1) option.sel s3(2)
    by (simp add: split_beta)
  have "fst (ref_smix2 B3 r (unat N) (unat (all - rw)) (concat V3) c3) =
      fst (if pass = 1 \<and> all > rw then opt_smix2 pass B3 r (unat N) 2 V3 XY3 oc3 else (B3, V3, XY3, oc3)) \<and>
    length (fst (ref_smix2 B3 r (unat N) (unat (all - rw)) (concat V3) c3)) = 128 * r"
  proof (cases "pass = 1 \<and> rw < all")
    case True
    then have two: "unat (all - rw) = 2" "pass = 1 \<or> 2 < (2 :: nat)" using loops(4) by simp_all
    obtain B4 V4 XY4 c4 oc4 where "ref_smix2 B3 r (unat N) 2 (concat V3) c3 = (B4, concat V4, c4)"
      "opt_smix2 pass B3 r (unat N) 2 V3 XY3 oc3 = (B4, V4, XY4, oc4)" "length B4 = length B3"
      using smix2_agree [OF pass s3(3) e(1) e32 \<open>0 < r\<close> s3(5,6,7) XYl3 B3 b2(1) _ order_refl two(2)] by auto
    then show ?thesis using True two(1) B3 by simp
  next
    case False
    then have "all = rw" using loops(4) unfolding if_not_P [OF False] by simp
    then have "unat (all - rw) = 0" by simp
    moreover have "ref_store (ref_load B3 r) B3 r = B3"
      using ref_store_blocks [of "map (load_block B3) [0..<2 * r]" r B3 "2 * r"] store_load [OF B3] B3 by (simp add: ref_load_blocks)
    ultimately show ?thesis unfolding if_not_P [OF False] using B3 by (simp add: ref_smix2_def)
  qed
  note res = this
  show "ref_smix B r N U rc = opt_smix pass D r N V XY oc" unfolding ref opt by (rule conjunct1 [OF res])
  show "length (ref_smix B r N U rc) = 128 * r" unfolding ref by (rule conjunct2 [OF res])
qed


section \<open>yespower\<close>

lemma same_params: "ref_bad_params p \<longleftrightarrow> opt_bad_params p"
proof -
  have "\<not> yp_r p < 8 \<Longrightarrow> \<not> unat (yp_r p) < (64 + 127) div 128" by (simp add: word_less_nat_alt)
  then show ?thesis by (auto simp: ref_bad_params_def opt_bad_params_def)
qed

lemma good_params:
  assumes "\<not> opt_bad_params p"
  obtains e where "unat (yp_N p) = 2 ^ e" and "10 \<le> e" and "e \<le> 19" and "8 \<le> unat (yp_r p)" and "unat (yp_r p) \<le> 32"
    and "yp_version p = YESPOWER_0_5 \<or> yp_version p = YESPOWER_1_0"
proof -
  let ?N = "yp_N p"
  have b: "1024 \<le> unat ?N" "unat ?N \<le> 524288" "?N AND (?N - 1) = 0" "8 \<le> unat (yp_r p)" "unat (yp_r p) \<le> 32"
      "yp_version p = YESPOWER_0_5 \<or> yp_version p = YESPOWER_1_0"
    using assms by (simp_all add: opt_bad_params_def not_less word_le_nat_alt)
  have "1 \<le> unat ?N" using b(1) by simp
  then obtain e where e: "2 ^ e \<le> unat ?N" "unat ?N < 2 * 2 ^ e" using power_below by blast
  have "p2floor ?N = ?N" using b(3) by (subst p2floor.simps) (simp add: Let_def)
  then have N: "unat ?N = 2 ^ e" using p2floor_power [of e ?N] e by simp
  have "(2 :: nat) ^ 10 \<le> 2 ^ e" "(2 :: nat) ^ e \<le> 2 ^ 19" using b(1,2) unfolding N by simp_all
  then have "10 \<le> e" "e \<le> 19" by (simp_all only: power_increasing_iff one_less_numeral_iff semiring_norm(76))
  with N b show thesis using that by blast
qed

text \<open>What the two programs are given: memory of the sizes asked for, with any contents.\<close>

definition heap_works :: "ref_heap \<Rightarrow> bool" where
  "heap_works heap \<longleftrightarrow> (\<forall>n. (\<exists>V. malloc_V heap n = Some V \<and> length V = n div 4) \<and> (\<exists>B. malloc_B heap n = Some B \<and> length B = n) \<and>
     malloc_X heap n \<and> (\<exists>S. malloc_S heap n = Some S \<and> length S = n div 4))"

definition memory_fits :: "opt_memory \<Rightarrow> int \<Rightarrow> nat \<Rightarrow> nat \<Rightarrow> bool" where
  "memory_fits mem version r N \<longleftrightarrow>
    (let (B_size, V_size, XY_size, Sbytes) = opt_sizes version r N
     in length (om_B mem) = B_size \<and> blocks (om_V mem) \<and> 64 * length (om_V mem) = V_size \<and>
        blocks (om_XY mem) \<and> 64 * length (om_XY mem) = XY_size \<and> 4 * length (om_S mem) = Sbytes)"

lemma derive_spec: "length buf \<le> 4096 \<Longrightarrow> derive P S buf = Some (pbkdf2_spec P S 1 (length buf))"
  using PBKDF2_SHA256_generic_or_fast [of buf "length buf" 1 P S] by (simp add: derive_def)

lemma pbkdf2_blocks:
  "pbkdf2_spec P S c (32 * n) = concat (map (\<lambda>i. rfc_F (hmac_spec 64 sha256_spec P) S c (i + 1)) [0..<n])"
  and length_pbkdf2_blocks: "length (pbkdf2_spec P S c (32 * n)) = 32 * n"
proof -
  define F where "F = (\<lambda>i. rfc_F (hmac_spec 64 sha256_spec P) S c (i + 1))"
  have "length (F i) = 32" for i unfolding F_def by (intro length_rfc_F length_hmac_sha)
  then have len: "length (concat (map F [0..<k])) = 32 * k" for k by (induction k) simp_all
  have "(32 * n + 31) div 32 = n" by simp
  then have "pbkdf2_spec P S c (32 * n) = take (32 * n) (concat (map F [0..<n]))"
    by (simp only: pbkdf2_spec_def F_def)
  then have "pbkdf2_spec P S c (32 * n) = concat (map F [0..<n])" using len [of n] by simp
  then show "pbkdf2_spec P S c (32 * n) = concat (map (\<lambda>i. rfc_F (hmac_spec 64 sha256_spec P) S c (i + 1)) [0..<n])"
      "length (pbkdf2_spec P S c (32 * n)) = 32 * n"
    using len [of n] by (simp_all only: F_def)
qed

lemma pbkdf2_prefix:
  assumes "m \<le> n"
  shows "take (32 * m) (pbkdf2_spec P S c (32 * n)) = pbkdf2_spec P S c (32 * m)"
proof -
  have "[0..<n] = [0..<m] @ [m..<n]" using upt_add_eq_append [of 0 m "n - m"] assms by simp
  then have "pbkdf2_spec P S c (32 * n) = pbkdf2_spec P S c (32 * m) @ concat (map (\<lambda>i. rfc_F (hmac_spec 64 sha256_spec P) S c (i + 1)) [m..<n])"
    by (simp only: pbkdf2_blocks map_append concat_append)
  then show ?thesis by (simp add: length_pbkdf2_blocks)
qed

lemma start_1:
  assumes "length S = 2048" and "length S' = 2048"
  shows "ctx_start 1 (ref_init_ctx YESPOWER_0_5 S)
    \<lparr>oc_S = S', oc_S0 = 0, oc_S1 = Swidth_to_Sbytes1 8, oc_S2 = s2, oc_w = w, oc_Sbytes = 2 * Swidth_to_Sbytes1 8\<rparr>"
  using assms
  by (simp add: ctx_start_def ctx_rel_def ref_init_ctx_def Swidth_to_Sbytes1_def pass_Smask_def salsa_turns_def)

lemma start_2:
  assumes "length S = 24576" and "length S' = 24576"
  shows "ctx_start 2 (ref_init_ctx YESPOWER_1_0 S)
    \<lparr>oc_S = S', oc_S0 = 0, oc_S1 = Swidth_to_Sbytes1 11, oc_S2 = 2 * Swidth_to_Sbytes1 11, oc_w = 0, oc_Sbytes = 3 * Swidth_to_Sbytes1 11\<rparr>"
  using assms
  by (simp add: ctx_start_def ctx_rel_def ref_init_ctx_def Swidth_to_Sbytes1_def pass_Smask_def salsa_turns_def YESPOWER_0_5_def YESPOWER_1_0_def)


lemma heap_gives:
  assumes "heap_works heap"
  obtains V B S where "malloc_V heap v = Some V" "length V = v div 4" "malloc_B heap b = Some B" "length B = b"
    "malloc_X heap b" "malloc_S heap s = Some S" "length S = s div 4"
  using assms unfolding heap_works_def by metis

lemma yespower_0_5:
  assumes good: "\<not> opt_bad_params p" and version: "yp_version p = YESPOWER_0_5" and heap: "heap_works heap"
    and mem: "memory_fits mem YESPOWER_0_5 (unat (yp_r p)) (unat (yp_N p))"
    and region: "opt_sizes YESPOWER_0_5 (unat (yp_r p)) (unat (yp_N p)) = (b, v, xy, s)" "get_region os local (b + v + xy + s) = (True, local')"
  shows "\<exists>dst. ref_yespower heap src p = Some (0, dst) \<and> opt_yespower os mem local src p = Some (0, dst, local') \<and> length dst = 32"
proof -
  define r where "r = unat (yp_r p)"
  define N where "N = yp_N p"
  obtain e where e: "unat N = 2 ^ e" "10 \<le> e" "e \<le> 19" "8 \<le> r" "r \<le> 32"
    using good_params [OF good] unfolding r_def N_def by blast
  have sz: "b = 128 * r" "v = 128 * r * unat N" "xy = 256 * r" "s = 8192"
  proof -
    have "opt_sizes YESPOWER_0_5 r (unat N) = (128 * r, 128 * r * unat N, 256 * r, 8192)"
      by (simp add: opt_sizes_def Let_def Swidth_to_Sbytes1_def)
    then show "b = 128 * r" "v = 128 * r * unat N" "xy = 256 * r" "s = 8192"
      using region(1) unfolding r_def [symmetric] N_def [symmetric] by simp_all
  qed
  have m: "length (om_B mem) = 128 * r" "blocks (om_V mem)" "length (om_V mem) = unat N * (2 * r)"
      "blocks (om_XY mem)" "length (om_XY mem) = 4 * r" "length (om_S mem) = 2048"
    using mem by (simp_all add: memory_fits_def opt_sizes_def Let_def r_def N_def Swidth_to_Sbytes1_def)
  obtain V B S where h: "malloc_V heap v = Some V" "length V = v div 4" "malloc_B heap b = Some B" "length B = b"
    "malloc_X heap b" "malloc_S heap s = Some S" "length S = s div 4"
    by (rule heap_gives [OF heap])
  define P where "P = SHA256_Buf src"
  define K where "K = pbkdf2_spec P src 1 (128 * r)"
  have K: "length K = 128 * r" using length_pbkdf2_blocks [of P src 1 "4 * r"] by (simp add: K_def)
  have d: "derive P src B = Some K" "derive P src (om_B mem) = Some K"
    using derive_spec [of B P src] derive_spec [of "om_B mem" P src] h(4) sz m(1) e(5) by (simp_all add: K_def)
  define c where "c = ref_init_ctx YESPOWER_0_5 S"
  define oc where "oc = \<lparr>oc_S = om_S mem, oc_S0 = 0, oc_S1 = Swidth_to_Sbytes1 8, oc_S2 = om_S2 mem, oc_w = om_w mem, oc_Sbytes = s\<rparr>"
  have start: "ctx_start 1 c oc"
    using start_1 [of S "om_S mem"] h(7) m(6) by (simp add: c_def oc_def sz Swidth_to_Sbytes1_def)
  have lV: "length V = unat N * (32 * r)" using h(2) sz by simp
  define R where "R = ref_smix K r N V c"
  have "R = opt_smix 1 K r N (om_V mem) (om_XY mem) oc" "length R = 128 * r"
    unfolding R_def
    using smix_agree [OF _ start e(1-3) _ lV m(2,3,4) _ _ K K refl] m(5) e(4) by simp_all
  then have R: "opt_smix 1 K r N (om_V mem) (om_XY mem) oc = R" "length R = 128 * r" by simp_all
  define out where "out = pbkdf2_spec (take 32 K) R 1 32"
  have out: "derive (take 32 K) R (replicate 32 z) = Some out" "length out = 32" for z
    using derive_spec [of "replicate 32 z" "take 32 K" R] length_pbkdf2_blocks [of "take 32 K" R 1 1] by (simp_all add: out_def)
  define dst where "dst = (case yp_pers p of Some pers \<Rightarrow> SHA256_Buf (HMAC_SHA256_Buf out pers) | None \<Rightarrow> out)"
  have Sb: "rc_Sbytes (ref_init_ctx YESPOWER_0_5 []) = s" by (simp add: ref_init_ctx_def sz Swidth_to_Sbytes1_def)
  have vs: "128 * r = b" "b * unat N = v" using sz by simp_all
  have "ref_yespower heap src p = Some (0, dst)"
    unfolding ref_yespower_def version Let_def r_def [symmetric] N_def [symmetric] vs if_not_P [OF good [folded same_params]]
      h(1,3) option.case Sb h(6) P_def [symmetric]
    using h(5) by (simp add: d(1) c_def [symmetric] R_def [symmetric] out(1) dst_def)
  moreover have "opt_yespower os mem local src p = Some (0, dst, local')"
    unfolding opt_yespower_def version Let_def region(1) prod.case region(2) if_not_P [OF good]
    unfolding r_def [symmetric] N_def [symmetric] P_def [symmetric]
    by (simp add: d(2) oc_def [symmetric] R(1) out(1) dst_def del: One_nat_def)
  moreover have "length dst = 32" by (simp add: dst_def out(2) SHA256_Buf_correct split: option.split)
  ultimately show ?thesis by blast
qed

lemma yespower_1_0:
  assumes good: "\<not> opt_bad_params p" and version: "yp_version p = YESPOWER_1_0" and heap: "heap_works heap"
    and mem: "memory_fits mem YESPOWER_1_0 (unat (yp_r p)) (unat (yp_N p))"
    and region: "opt_sizes YESPOWER_1_0 (unat (yp_r p)) (unat (yp_N p)) = (b, v, xy, s)" "get_region os local (b + v + xy + s) = (True, local')"
  shows "\<exists>dst. ref_yespower heap src p = Some (0, dst) \<and> opt_yespower os mem local src p = Some (0, dst, local') \<and> length dst = 32"
proof -
  define r where "r = unat (yp_r p)"
  define N where "N = yp_N p"
  obtain e where e: "unat N = 2 ^ e" "10 \<le> e" "e \<le> 19" "8 \<le> r" "r \<le> 32"
    using good_params [OF good] unfolding r_def N_def by blast
  have ne: "YESPOWER_1_0 \<noteq> YESPOWER_0_5" by (simp add: YESPOWER_0_5_def YESPOWER_1_0_def)
  have sz: "b = 128 * r" "v = 128 * r * unat N" "xy = 128 * r + 64" "s = 98304"
  proof -
    have "opt_sizes YESPOWER_1_0 r (unat N) = (128 * r, 128 * r * unat N, 128 * r + 64, 98304)"
      using ne by (simp add: opt_sizes_def Let_def Swidth_to_Sbytes1_def)
    then show "b = 128 * r" "v = 128 * r * unat N" "xy = 128 * r + 64" "s = 98304"
      using region(1) unfolding r_def [symmetric] N_def [symmetric] by simp_all
  qed
  have m: "length (om_B mem) = 128 * r" "blocks (om_V mem)" "length (om_V mem) = unat N * (2 * r)"
      "blocks (om_XY mem)" "length (om_XY mem) = 2 * r + 1" "length (om_S mem) = 24576"
    using mem ne by (simp_all add: memory_fits_def opt_sizes_def Let_def r_def N_def Swidth_to_Sbytes1_def)
  obtain V B S where h: "malloc_V heap v = Some V" "length V = v div 4" "malloc_B heap b = Some B" "length B = b"
    "malloc_X heap b" "malloc_S heap s = Some S" "length S = s div 4"
    by (rule heap_gives [OF heap])
  define P where "P = SHA256_Buf src"
  define salt where "salt = (case yp_pers p of Some pers \<Rightarrow> pers | None \<Rightarrow> [])"
  define K where "K = pbkdf2_spec P salt 1 (128 * r)"
  define K2 where "K2 = pbkdf2_spec P salt 1 128"
  have K: "length K = 128 * r" using length_pbkdf2_blocks [of P salt 1 "4 * r"] by (simp add: K_def)
  have K2: "K2 = take 128 K" "length K2 = 128"
    using pbkdf2_prefix [of 4 "4 * r" P salt 1] length_pbkdf2_blocks [of P salt 1 4] e(4) by (simp_all add: K_def K2_def)
  define D where "D = blit (om_B mem) 0 K2"
  have D: "length D = 128 * r" "take 128 D = take 128 K" "take 32 D = take 32 K"
  proof -
    show "length D = 128 * r" using K2(2) m(1) e(4) by (simp add: D_def)
    show t: "take 128 D = take 128 K" using K2 by (simp add: D_def blit_def)
    show "take 32 D = take 32 K" using arg_cong [OF t, of "take 32"] by simp
  qed
  have d: "derive P salt B = Some K" "derive P salt (take 128 (om_B mem)) = Some K2"
    using derive_spec [of B P salt] derive_spec [of "take 128 (om_B mem)" P salt] h(4) sz m(1) e(4,5) by (simp_all add: K_def K2_def)
  define c where "c = ref_init_ctx YESPOWER_1_0 S"
  define oc where "oc = \<lparr>oc_S = om_S mem, oc_S0 = 0, oc_S1 = Swidth_to_Sbytes1 11, oc_S2 = 2 * Swidth_to_Sbytes1 11, oc_w = 0, oc_Sbytes = s\<rparr>"
  have start: "ctx_start 2 c oc"
    using start_2 [of S "om_S mem"] h(7) m(6) by (simp add: c_def oc_def sz Swidth_to_Sbytes1_def)
  have lV: "length V = unat N * (32 * r)" using h(2) sz by simp
  define R where "R = ref_smix K r N V c"
  have "R = opt_smix 2 D r N (om_V mem) (om_XY mem) oc" "length R = 128 * r"
    unfolding R_def
    using smix_agree [OF _ start e(1-3) _ lV m(2,3,4) _ _ K D(1)] D(2) m(5) e(4) by simp_all
  then have R: "opt_smix 2 D r N (om_V mem) (om_XY mem) oc = R" "length R = 128 * r" by simp_all
  define dst where "dst = HMAC_SHA256_Buf (sub (b - 64) 64 R) (take 32 K)"
  have Sb: "rc_Sbytes (ref_init_ctx YESPOWER_1_0 []) = s" using ne by (simp add: ref_init_ctx_def sz Swidth_to_Sbytes1_def)
  have vs: "128 * r = b" "b * unat N = v" using sz by simp_all
  have "ref_yespower heap src p = Some (0, dst)"
    unfolding ref_yespower_def version Let_def r_def [symmetric] N_def [symmetric] vs if_not_P [OF good [folded same_params]]
      h(1,3) option.case Sb h(6) P_def [symmetric]
    using h(5) ne by (simp add: salt_def [symmetric] d(1) c_def [symmetric] R_def [symmetric] dst_def)
  moreover have "opt_yespower os mem local src p = Some (0, dst, local')"
    unfolding opt_yespower_def version Let_def region(1) prod.case region(2) if_not_P [OF good]
    unfolding r_def [symmetric] N_def [symmetric] P_def [symmetric]
    using ne by (simp add: salt_def [symmetric] d(2) D_def [symmetric] D(3) oc_def [symmetric] R(1) dst_def)
  moreover have "length dst = 32" by (simp add: dst_def HMAC_SHA256_Buf_correct)
  ultimately show ?thesis by blast
qed

lemma yespower_ok:
  assumes good: "\<not> opt_bad_params p" and heap: "heap_works heap"
    and mem: "memory_fits mem (yp_version p) (unat (yp_r p)) (unat (yp_N p))"
    and region: "opt_sizes (yp_version p) (unat (yp_r p)) (unat (yp_N p)) = (b, v, xy, s)" "get_region os local (b + v + xy + s) = (True, local')"
  shows "\<exists>dst. ref_yespower heap src p = Some (0, dst) \<and> opt_yespower os mem local src p = Some (0, dst, local') \<and> length dst = 32"
proof -
  consider "yp_version p = YESPOWER_0_5" | "yp_version p = YESPOWER_1_0" using good_params [OF good] by metis
  then show ?thesis
  proof cases
    case 1
    show ?thesis using yespower_0_5 [OF good 1 heap mem [unfolded 1] region [unfolded 1]] .
  next
    case 2
    show ?thesis using yespower_1_0 [OF good 2 heap mem [unfolded 2] region [unfolded 2]] .
  qed
qed

section \<open>The region kept between calls\<close>

definition yespower_need :: "yespower_params_t \<Rightarrow> nat" where
  "yespower_need p =
    (let (B_size, V_size, XY_size, Sbytes) = opt_sizes (yp_version p) (unat (yp_r p)) (unat (yp_N p)) in B_size + V_size + XY_size + Sbytes)"

lemma returns_zero:
  assumes "(if a then (case x of None \<Rightarrow> None | Some B \<Rightarrow> (case f B of None \<Rightarrow> None | Some d \<Rightarrow> Some (z, g B d, l)))
     else (case y of None \<Rightarrow> None | Some t \<Rightarrow> Some (z, h t, l))) = Some (rv, dst, l')"
  shows "rv = z" and "l' = l"
  using assms by (auto split: if_splits option.splits)

lemma opt_yespower_region:
  assumes "opt_yespower os mem l src p = Some (rv, dst, l')"
  shows "rv = -1 \<and> l' = l \<or> (\<exists>ok. get_region os l (yespower_need p) = (ok, l') \<and> rv = (if ok then 0 else -1))"
proof -
  obtain b v xy s where sz: "opt_sizes (yp_version p) (unat (yp_r p)) (unat (yp_N p)) = (b, v, xy, s)" by (metis prod_cases4)
  obtain ok l2 where rg: "get_region os l (b + v + xy + s) = (ok, l2)" by fastforce
  have need: "yespower_need p = b + v + xy + s" by (simp add: yespower_need_def sz)
  note yes = assms [unfolded opt_yespower_def Let_def sz prod.case rg]
  show ?thesis
  proof (cases "opt_bad_params p")
    case True
    then show ?thesis using yes by simp
  next
    case False
    show ?thesis
    proof (cases ok)
      case True
      have "\<not> \<not> ok" using True by simp
      from returns_zero [OF yes [unfolded if_not_P [OF False] if_not_P [OF this]]]
      have "l' = l2" "rv = (if ok then 0 else -1)" using True by simp_all
      then show ?thesis using rg need by auto
    next
      case no: False
      have "l' = l2" "rv = (if ok then 0 else -1)" using yes no unfolding if_not_P [OF False] if_P [OF no] by simp_all
      then show ?thesis using rg need by auto
    qed
  qed
qed

definition region_ok :: "yespower_region \<Rightarrow> bool" where
  "region_ok l \<longleftrightarrow> rg_aligned_size l \<le> rg_base_size l"

text \<open>The regions a thread can have after any calls, and calls of \<open>yespower_free_local\<close> on its own regions.\<close>

inductive thread_region :: "yespower_region \<Rightarrow> bool" where
  start: "thread_region init_region"
| call: "thread_region l \<Longrightarrow> yespower_tls os mem (Some l) src p = Some (rv, dst, l') \<Longrightarrow> thread_region l'"
| free: "thread_region l \<Longrightarrow> free_region os l = (e, l') \<Longrightarrow> thread_region l'"

lemma round_up: "n \<le> (n + (HUGEPAGE_SIZE - 1)) div HUGEPAGE_SIZE * HUGEPAGE_SIZE"
proof -
  define x where "x = n + (HUGEPAGE_SIZE - 1)"
  have "0 < HUGEPAGE_SIZE" by (simp add: HUGEPAGE_SIZE_def)
  then have "x mod HUGEPAGE_SIZE \<le> HUGEPAGE_SIZE - 1" using mod_less_divisor [of HUGEPAGE_SIZE x] by linarith
  moreover have "x div HUGEPAGE_SIZE * HUGEPAGE_SIZE + x mod HUGEPAGE_SIZE = x" by simp
  ultimately show ?thesis unfolding x_def by linarith
qed

lemma free_region_ok: "region_ok l \<Longrightarrow> region_ok (snd (free_region os l))"
  by (simp add: free_region_def region_ok_def init_region_def)

lemma alloc_region_ok: "alloc_region os need = (ok, l') \<Longrightarrow> region_ok l' \<and> (ok \<longrightarrow> rg_aligned_size l' = need)"
  using round_up [of need] by (simp add: alloc_region_def region_ok_def init_region_def Let_def split: if_splits) auto

lemma get_region_ok:
  assumes "region_ok l" and "get_region os l need = (ok, l')"
  shows "region_ok l'" and "ok \<Longrightarrow> need \<le> rg_aligned_size l'"
proof -
  have "region_ok l' \<and> (ok \<longrightarrow> need \<le> rg_aligned_size l')"
  proof (cases "rg_aligned_size l < need")
    case True
    then show ?thesis
      using assms free_region_ok [OF assms(1), of os] alloc_region_ok [of os need ok l']
      by (auto simp: get_region_def Let_def split_beta split: if_splits)
  qed (use assms in \<open>simp add: get_region_def\<close>)
  then show "region_ok l'" "ok \<Longrightarrow> need \<le> rg_aligned_size l'" by simp_all
qed

lemma call_region:
  assumes "region_ok l" and "opt_yespower os mem l src p = Some (rv, dst, l')"
  shows "region_ok l'" and "rv = 0 \<Longrightarrow> yespower_need p \<le> rg_aligned_size l'" and "rv = 0 \<or> rv = -1"
  using opt_yespower_region [OF assms(2)] get_region_ok [OF assms(1)] assms(1) by (auto split: if_splits)

lemma thread_region_ok: "thread_region l \<Longrightarrow> region_ok l"
proof (induction rule: thread_region.induct)
  case start
  show ?case by (simp add: region_ok_def init_region_def)
next
  case (call l os mem src p rv dst l')
  then show ?case using call_region(1) by (simp add: yespower_tls_def)
next
  case (free l os e l')
  then show ?case by (auto simp: free_region_def region_ok_def init_region_def split: if_splits)
qed

section \<open>Properties\<close>

text \<open>Memory of the right sizes for the witnesses.\<close>

definition zero_heap :: ref_heap where
  "zero_heap = \<lparr>malloc_V = \<lambda>n. Some (replicate (n div 4) 0), malloc_B = \<lambda>n. Some (replicate n 0), malloc_X = \<lambda>_. True,
     malloc_S = \<lambda>n. Some (replicate (n div 4) 0)\<rparr>"

definition zero_memory :: "int \<Rightarrow> nat \<Rightarrow> nat \<Rightarrow> opt_memory" where
  "zero_memory version r N =
    (let (B_size, V_size, XY_size, Sbytes) = opt_sizes version r N
     in \<lparr>om_B = replicate B_size 0, om_V = replicate (V_size div 64) (replicate 16 0), om_XY = replicate (XY_size div 64) (replicate 16 0),
         om_S = replicate (Sbytes div 4) 0, om_S2 = 0, om_w = 0\<rparr>)"

definition small_pages :: os_answers where
  "small_pages = \<lparr>os_mmap = \<lambda>n huge. \<not> huge, os_munmap = \<lambda>_. True\<rparr>"

definition demo_params :: "int \<Rightarrow> yespower_params_t" where
  "demo_params version = \<lparr>yp_version = version, yp_N = 2048, yp_r = 8, yp_pers = None, yp_perslen = 0\<rparr>"

lemma zero_heap_works: "heap_works zero_heap"
  by (simp add: heap_works_def zero_heap_def)

lemma zero_memory_fits: "memory_fits (zero_memory version 8 2048) version 8 2048"
  by (simp add: memory_fits_def zero_memory_def opt_sizes_def Let_def Swidth_to_Sbytes1_def blocks_def)

lemma demo_params_good: "version = YESPOWER_0_5 \<or> version = YESPOWER_1_0 \<Longrightarrow> \<not> opt_bad_params (demo_params version)"
  by (auto simp: opt_bad_params_def demo_params_def)

lemma demo_region: "\<exists>l. get_region small_pages init_region n = (True, l)"
  by (auto simp: get_region_def free_region_def alloc_region_def small_pages_def init_region_def Let_def)

text \<open>C5: The compiled yespower is the reference yespower: for all valid parameters of both versions, all inputs and all
  personalisations, whatever the fresh or kept memory holds, it returns 0 with the same 32 bytes, although it mixes
  blocks in a shuffled order of words, derives only the first two blocks in version 1.0, unrolls the loops over powers of
  two and keeps its S-boxes in rotated halves.\<close>

theorem yespower_is_reference:
  assumes "\<not> opt_bad_params p" and "heap_works heap" and "memory_fits mem (yp_version p) (unat (yp_r p)) (unat (yp_N p))"
    and "get_region os local (yespower_need p) = (True, local')"
  shows "\<exists>dst. ref_yespower heap src p = Some (0, dst) \<and> opt_yespower os mem local src p = Some (0, dst, local') \<and> length dst = 32"
proof -
  obtain b v xy s where sz: "opt_sizes (yp_version p) (unat (yp_r p)) (unat (yp_N p)) = (b, v, xy, s)" by (metis prod_cases4)
  then have "get_region os local (b + v + xy + s) = (True, local')" using assms(4) by (simp add: yespower_need_def)
  from yespower_ok [OF assms(1-3) sz this] show ?thesis .
qed

theorem yespower_is_reference_witness:
  "\<exists>dst l. ref_yespower zero_heap [1, 2, 3] (demo_params YESPOWER_1_0) = Some (0, dst) \<and>
     opt_yespower small_pages (zero_memory YESPOWER_1_0 8 2048) init_region [1, 2, 3] (demo_params YESPOWER_1_0) = Some (0, dst, l)"
proof -
  obtain l where l: "get_region small_pages init_region (yespower_need (demo_params YESPOWER_1_0)) = (True, l)"
    using demo_region by blast
  have "memory_fits (zero_memory YESPOWER_1_0 8 2048) (yp_version (demo_params YESPOWER_1_0)) (unat (yp_r (demo_params YESPOWER_1_0)))
      (unat (yp_N (demo_params YESPOWER_1_0)))"
    using zero_memory_fits [of YESPOWER_1_0] by (simp add: demo_params_def)
  from yespower_is_reference [OF demo_params_good zero_heap_works this l, of "[1, 2, 3]"] show ?thesis by blast
qed

text \<open>C38: How yespower fails: exactly the parameters outside the documented ranges are refused, by both implementations and before
  the region is touched; without memory the call fails, too. A failed call returns -1 and 32 bytes \<open>0xff\<close>.\<close>

theorem yespower_failures:
  assumes "memory_fits mem (yp_version p) (unat (yp_r p)) (unat (yp_N p))" and "heap_works heap"
    and "get_region os local (yespower_need p) = (ok, local')"
  shows "if opt_bad_params p
    then opt_yespower os mem local src p = Some (-1, replicate 32 0xff, local) \<and> ref_yespower heap src p = Some (-1, replicate 32 0xff)
    else if \<not> ok then opt_yespower os mem local src p = Some (-1, replicate 32 0xff, local')
    else \<exists>dst. opt_yespower os mem local src p = Some (0, dst, local') \<and> ref_yespower heap src p = Some (0, dst)"
  (is "if _ then ?bad else if _ then ?none else ?run")
proof -
  obtain b v xy s where sz: "opt_sizes (yp_version p) (unat (yp_r p)) (unat (yp_N p)) = (b, v, xy, s)" by (metis prod_cases4)
  then have rg: "get_region os local (b + v + xy + s) = (ok, local')" using assms(3) by (simp add: yespower_need_def)
  have "opt_bad_params p \<Longrightarrow> ?bad"
    by (simp add: opt_yespower_def ref_yespower_def same_params Let_def split_beta)
  moreover have "\<not> opt_bad_params p \<Longrightarrow> \<not> ok \<Longrightarrow> ?none"
    by (simp add: opt_yespower_def Let_def sz rg)
  moreover have "\<not> opt_bad_params p \<Longrightarrow> ok \<Longrightarrow> ?run"
    using yespower_ok [OF _ assms(2,1) sz, of os local local' src] rg by auto
  ultimately show ?thesis by simp
qed

theorem yespower_failures_witness:
  "\<exists>dst l. opt_yespower small_pages (zero_memory YESPOWER_0_5 8 2048) init_region [1] (demo_params YESPOWER_0_5) = Some (0, dst, l)"
proof -
  obtain l where l: "get_region small_pages init_region (yespower_need (demo_params YESPOWER_0_5)) = (True, l)"
    using demo_region by blast
  have "memory_fits (zero_memory YESPOWER_0_5 8 2048) (yp_version (demo_params YESPOWER_0_5)) (unat (yp_r (demo_params YESPOWER_0_5)))
      (unat (yp_N (demo_params YESPOWER_0_5)))"
    using zero_memory_fits [of YESPOWER_0_5] by (simp add: demo_params_def)
  from yespower_failures [OF this zero_heap_works l, of "[1]"] demo_params_good [of YESPOWER_0_5] show ?thesis by auto
qed

text \<open>C37: The region a thread keeps is sound after any sequence of calls and releases, failed ones included: its usable part lies
  in the mapping; and after a call that succeeded it is large enough that every later call that needs no more memory takes it as
  it is, whatever the operating system would answer.\<close>

theorem yespower_region_reused:
  assumes "thread_region l" and "yespower_tls os mem (Some l) src p = Some (rv, dst, l')"
  shows "region_ok l' \<and> (rv = 0 \<or> rv = -1) \<and> (rv = 0 \<longrightarrow> (\<forall>os' n. n \<le> yespower_need p \<longrightarrow> get_region os' l' n = (True, l')))"
  using call_region [OF thread_region_ok [OF assms(1)], of os mem src p rv dst l'] assms(2)
  by (auto simp: yespower_tls_def get_region_def)

theorem yespower_region_reused_witness:
  "\<exists>dst l. yespower_tls small_pages (zero_memory YESPOWER_0_5 8 2048) (Some init_region) [1] (demo_params YESPOWER_0_5) = Some (0, dst, l) \<and>
     region_ok l \<and> get_region \<lparr>os_mmap = \<lambda>_ _. False, os_munmap = \<lambda>_. False\<rparr> l 1000 = (True, l)"
proof -
  let ?p = "demo_params YESPOWER_0_5" and ?mem = "zero_memory YESPOWER_0_5 8 2048"
  obtain b v xy s where sz: "opt_sizes (yp_version ?p) (unat (yp_r ?p)) (unat (yp_N ?p)) = (b, v, xy, s)" by (metis prod_cases4)
  obtain l where l: "get_region small_pages init_region (b + v + xy + s) = (True, l)" using demo_region by blast
  have fits: "memory_fits ?mem (yp_version ?p) (unat (yp_r ?p)) (unat (yp_N ?p))"
    using zero_memory_fits [of YESPOWER_0_5] by (simp add: demo_params_def)
  obtain dst where call: "yespower_tls small_pages ?mem (Some init_region) [1] ?p = Some (0, dst, l)"
    using yespower_ok [OF demo_params_good zero_heap_works fits sz l, of "[1]"] by (auto simp: yespower_tls_def)
  have "1000 \<le> yespower_need ?p" by (simp add: yespower_need_def opt_sizes_def demo_params_def Let_def)
  then show ?thesis using yespower_region_reused [OF thread_region.start call] call by auto
qed

end
