(* ===== verification/RxXla.thy ===== *)
theory RxXla
  imports RxVm K12 YespowerHash
begin

text \<open>
  The seed of an XLA hash (\<open>rx_yespower_k12\<close> in \<open>randomx.cpp\<close>) with its parts put together: BLAKE2b, yespower 1.0 and
  KangarooTwelve, as modelled in their theories, in place of the parameters of the machine's environment.
\<close>

section \<open>The environment\<close>

definition xla_params :: yespower_params_t where
  "xla_params = \<lparr>yp_version = YESPOWER_1_0, yp_N = 2048, yp_r = 8, yp_pers = None, yp_perslen = 0\<rparr>"

text \<open>What the call of \<open>yespower_tls\<close> returns and writes, for the thread's region and the memory it gets.\<close>

definition xla_yespower :: "os_answers \<Rightarrow> opt_memory \<Rightarrow> yespower_region option \<Rightarrow> bytes \<Rightarrow> int \<times> bytes" where
  "xla_yespower os mem local out = (case yespower_tls os mem local out xla_params of
     Some (rv, dst, _) \<Rightarrow> (rv, dst) | None \<Rightarrow> (-1, []))"

definition xla_K12 :: "KangarooTwelve_Instance \<Rightarrow> bytes \<Rightarrow> int \<times> bytes" where
  "xla_K12 kt out = (case KangarooTwelve kt out 32 [] of Some r \<Rightarrow> r | None \<Rightarrow> (1, []))"

definition xla_env :: "os_answers \<Rightarrow> opt_memory \<Rightarrow> yespower_region option \<Rightarrow> KangarooTwelve_Instance \<Rightarrow> rx_env \<Rightarrow> rx_env" where
  "xla_env os mem local kt E = E\<lparr>e_yespower := xla_yespower os mem local, e_K12 := xla_K12 kt\<rparr>"

section \<open>The seed\<close>

lemma blake2b_run_spec: "0 < n \<Longrightarrow> n \<le> 64 \<Longrightarrow> blake2b_run n inp = blake2b_spec n [] inp"
  by (simp add: blake2b_run_def rx_blake2b_ok opt_len_def blit_def length_blake2b_spec)

lemma xla_params_good: "\<not> opt_bad_params xla_params"
  by (simp add: opt_bad_params_def xla_params_def)

lemma xla_K12_spec: "xla_K12 kt out = (0, k12_spec (k12_input out []) 32)"
  by (simp add: xla_K12_def KangarooTwelve_one_shot)

lemma length_k12_spec: "length (k12_spec m n) = n"
  by (simp add: k12_spec_def Let_def length_sponge_spec)

lemma blit_front: "length a = n \<Longrightarrow> blit out 0 a = a @ drop n out"
  by (simp add: blit_def)

lemma xla_yespower_cases:
  assumes "heap_works heap" and "memory_fits mem YESPOWER_1_0 8 2048"
    and "get_region os (case local of None \<Rightarrow> init_region | Some l \<Rightarrow> l) (yespower_need xla_params) = (ok, local')"
  shows "if ok then \<exists>d. ref_yespower heap out xla_params = Some (0, d) \<and> xla_yespower os mem local out = (0, d) \<and> length d = 32
    else xla_yespower os mem local out = (-1, replicate 32 0xff)"
proof -
  let ?p = xla_params
  let ?l = "case local of None \<Rightarrow> init_region | Some l \<Rightarrow> l"
  obtain b v xy s where sz: "opt_sizes (yp_version ?p) (unat (yp_r ?p)) (unat (yp_N ?p)) = (b, v, xy, s)" by (metis prod_cases4)
  have fits: "memory_fits mem (yp_version ?p) (unat (yp_r ?p)) (unat (yp_N ?p))" using assms(2) by (simp add: xla_params_def)
  have rg: "get_region os ?l (b + v + xy + s) = (ok, local')" using assms(3) by (simp add: yespower_need_def sz)
  show ?thesis
  proof (cases ok)
    case True
    then show ?thesis
      using yespower_ok [OF xla_params_good assms(1) fits sz, of os ?l local' out] rg by (auto simp: xla_yespower_def yespower_tls_def)
  next
    case False
    then have "opt_yespower os mem ?l out ?p = Some (-1, replicate 32 0xff, local')"
      using xla_params_good rg by (simp add: opt_yespower_def Let_def sz)
    then show ?thesis using False by (simp add: xla_yespower_def yespower_tls_def)
  qed
qed

text \<open>C6: The seed of an XLA hash: BLAKE2b of the input, its first half replaced by the reference yespower (1.0, \<open>N = 2048\<close>,
  \<open>r = 8\<close>) of the whole, and then by KangarooTwelve of the result; the second half stays that of BLAKE2b. When no memory can be
  had for yespower, the function returns -1 and leaves 32 bytes \<open>0xff\<close> before that half, and this is the seed the three
  hash functions go on with, since they drop the code.\<close>

theorem xla_seed:
  assumes "heap_works heap" and "memory_fits mem YESPOWER_1_0 8 2048"
    and "get_region os (case local of None \<Rightarrow> init_region | Some l \<Rightarrow> l) (yespower_need xla_params) = (ok, local')"
    and "h = blake2b_spec 64 [] inp"
  shows "if ok then \<exists>d. ref_yespower heap h xla_params = Some (0, d) \<and>
      rx_yespower_k12 (xla_env os mem local kt E) 64 inp = (0, k12_spec (k12_input (d @ drop 32 h) []) 32 @ drop 32 h)
    else rx_yespower_k12 (xla_env os mem local kt E) 64 inp = (-1, replicate 32 0xff @ drop 32 h) \<and>
      input_hash (xla_env os mem local kt E) True inp = replicate 32 0xff @ drop 32 h"
proof -
  have h: "blake2b_run 64 inp = h" using assms(4) by (simp add: blake2b_run_spec)
  show ?thesis
    using xla_yespower_cases [OF assms(1-3), of h]
    by (auto simp: input_hash_def rx_yespower_k12_def h xla_env_def xla_K12_spec blit_front length_k12_spec Let_def)
qed

text \<open>Both cases occur.\<close>

theorem xla_seed_witness:
  "(\<exists>seed. rx_yespower_k12 (xla_env small_pages (zero_memory YESPOWER_1_0 8 2048) None undefined scala_env) 64 [1] = (0, seed)) \<and>
   rx_yespower_k12 (xla_env \<lparr>os_mmap = \<lambda>_ _. False, os_munmap = \<lambda>_. True\<rparr> (zero_memory YESPOWER_1_0 8 2048) None undefined scala_env) 64 [1] =
     (-1, replicate 32 0xff @ drop 32 (blake2b_spec 64 [] [1]))"
proof -
  obtain l where l: "get_region small_pages (case None of None \<Rightarrow> init_region | Some l \<Rightarrow> l) (yespower_need xla_params) = (True, l)"
    using demo_region by auto
  have "get_region \<lparr>os_mmap = \<lambda>_ _. False, os_munmap = \<lambda>_. True\<rparr> (case None of None \<Rightarrow> init_region | Some l \<Rightarrow> l) (yespower_need xla_params) = (False, init_region)"
    by (simp add: get_region_def free_region_def alloc_region_def init_region_def Let_def yespower_need_def opt_sizes_def xla_params_def split_beta)
  from xla_seed [OF zero_heap_works zero_memory_fits this refl, of "[1]" undefined scala_env]
    xla_seed [OF zero_heap_works zero_memory_fits l refl, of "[1]" undefined scala_env]
  show ?thesis by auto
qed

end
