(* ===== verification/Cvt.thy ===== *)
theory Cvt
  imports C_Prelude
begin

text \<open>
  Hexadecimal text (\<open>base/tools/Cvt.cpp\<close>), the form in which blobs, seeds and targets come from a pool and in which
  nonces and results are sent back. A C string is the list of its characters as bytes.
\<close>

section \<open>The conversions\<close>

definition hex_char :: "u32 \<Rightarrow> u8" where
  "hex_char c = ucast (87 + c + (drop_bit 8 (c - 10) AND NOT 38))"

text \<open>The loop writes two characters per byte; the unsigned \<open>x\<close> holds both.\<close>

primrec bin2hex_loop :: "bytes \<Rightarrow> nat \<Rightarrow> bytes \<Rightarrow> bytes" where
  "bin2hex_loop [] i hex = hex"
| "bin2hex_loop (byte # bin) i hex =
    (let c = ucast byte AND 0xf;
         b = ucast (drop_bit 4 byte);
         x = push_bit 8 (ucast (hex_char c)) OR ucast (hex_char b) :: u32;
         hex = hex[i * 2 := ucast x];
         x = drop_bit 8 x
     in bin2hex_loop bin (i + 1) (hex[i * 2 + 1 := ucast x]))"

definition cvt_bin2hex :: "bytes \<Rightarrow> bytes \<Rightarrow> bytes option" where
  "cvt_bin2hex hex bin =
    (if length bin \<ge> (2 ^ 64 - 1) div 2 \<or> length hex < length bin * 2 then None
     else let hex = bin2hex_loop bin 0 hex
          in Some (if length bin * 2 < length hex then hex[length bin * 2 := 0] else hex))"

text \<open>
  \<open>cvt_hex2bin\<close>: the loop returns the position, the output, how much of it is written, the state and the code.
  \<open>strchr\<close> also finds the terminator of \<open>ignore\<close>.
\<close>

primrec hex2bin_loop :: "bytes option \<Rightarrow> bytes \<Rightarrow> nat \<Rightarrow> bytes \<Rightarrow> nat \<Rightarrow> u8 \<Rightarrow> u8 \<Rightarrow> nat \<times> bytes \<times> nat \<times> u8 \<times> int" where
  "hex2bin_loop ignore [] hex_pos bin bin_pos c_acc state = (hex_pos, bin, bin_pos, state, 0)"
| "hex2bin_loop ignore (c # hex) hex_pos bin bin_pos c_acc state =
    (let c_num = c XOR 48;
         c_num0 = ucast (drop_bit 8 (ucast c_num - 10 :: u32)) :: u8;
         c_alpha = ucast ((ucast c AND NOT 32) - 55 :: u32) :: u8;
         c_alpha0 = ucast (drop_bit 8 ((ucast c_alpha - 10) XOR (ucast c_alpha - 16) :: u32)) :: u8
     in if c_num0 OR c_alpha0 = 0 then
          (if (case ignore of None \<Rightarrow> False | Some cs \<Rightarrow> state = 0 \<and> (c \<in> set cs \<or> c = 0))
           then hex2bin_loop ignore hex (hex_pos + 1) bin bin_pos c_acc state
           else (hex_pos, bin, bin_pos, state, 0))
        else let c_val = (c_num0 AND c_num) OR (c_alpha0 AND c_alpha)
        in if length bin \<le> bin_pos then (hex_pos, bin, bin_pos, state, -1)
        else if state = 0 then hex2bin_loop ignore hex (hex_pos + 1) bin bin_pos (c_val * 16) (NOT state)
        else hex2bin_loop ignore hex (hex_pos + 1) (bin[bin_pos := c_acc OR c_val]) (bin_pos + 1) c_acc (NOT state))"

text \<open>The return code, the output, its length, and the end position; \<open>want_end\<close>: the caller asks for the position.\<close>

definition cvt_hex2bin :: "bytes \<Rightarrow> bytes \<Rightarrow> bytes option \<Rightarrow> bool \<Rightarrow> int \<times> bytes \<times> nat \<times> nat" where
  "cvt_hex2bin bin hex ignore want_end =
    (let (hex_pos, bin, bin_pos, state, ret) = hex2bin_loop ignore hex 0 bin 0 0 0;
         (hex_pos, ret) = (if state \<noteq> 0 then (hex_pos - 1, -1) else (hex_pos, ret));
         bin_pos = (if ret \<noteq> 0 then 0 else bin_pos);
         ret = (if \<not> want_end \<and> hex_pos \<noteq> length hex then -1 else ret)
     in (ret, bin, bin_pos, hex_pos))"

text \<open>The functions over it: into an array of the caller (\<open>fromHex_array\<close>) and into a new buffer (\<open>fromHex\<close>).\<close>

definition fromHex_array :: "bytes \<Rightarrow> bytes \<Rightarrow> bool \<times> bytes" where
  "fromHex_array bin hex =
    (if hex = [] then (False, bin) else let (ret, bin, _) = cvt_hex2bin bin hex None False in (ret = 0, bin))"

text \<open>A text of one character makes an empty buffer, whose \<open>front()\<close> is undefined: \<open>None\<close>.\<close>

definition fromHexImpl :: "bytes \<Rightarrow> (bool \<times> bytes) option" where
  "fromHexImpl hex =
    (if hex = [] then Some (False, [])
     else let buf = replicate (length hex div 2) 0
     in if buf = [] then None
     else let (ret, buf, _) = cvt_hex2bin buf hex None False in Some (ret = 0, buf))"

definition fromHex :: "bytes \<Rightarrow> bytes option" where
  "fromHex hex = (case fromHexImpl hex of None \<Rightarrow> None | Some (ok, buf) \<Rightarrow> Some (if ok then buf else []))"

definition toHex :: "bytes \<Rightarrow> bytes" where
  "toHex bin =
    (if bin = [] then []
     else case cvt_bin2hex (replicate (length bin * 2 + 1) 0) bin of None \<Rightarrow> [] | Some hex \<Rightarrow> takeWhile (\<lambda>c. c \<noteq> 0) hex)"

section \<open>What they compute\<close>

text \<open>The value of a digit of either case.\<close>

definition digit_value :: "u8 \<Rightarrow> u8 option" where
  "digit_value c =
    (if 48 \<le> c \<and> c \<le> 57 then Some (c - 48)
     else if 97 \<le> c \<and> c \<le> 102 then Some (c - 87)
     else if 65 \<le> c \<and> c \<le> 70 then Some (c - 55) else None)"

definition hex_digit :: "u8 \<Rightarrow> u8" where
  "hex_digit n = (if n < 10 then n + 48 else n + 87)"

fun hex_value :: "bytes \<Rightarrow> bytes option" where
  "hex_value [] = Some []"
| "hex_value [_] = None"
| "hex_value (a # b # cs) = (case (digit_value a, digit_value b, hex_value cs) of
     (Some x, Some y, Some bs) \<Rightarrow> Some ((push_bit 4 x OR y) # bs) | _ \<Rightarrow> None)"

definition hex_text :: "bytes \<Rightarrow> bytes" where
  "hex_text bs = concat (map (\<lambda>b. [hex_digit (drop_bit 4 b), hex_digit (b AND 15)]) bs)"

text \<open>All bytes, one by one.\<close>

definition all_bytes :: bytes where
  "all_bytes = [0, 1, 2, 3, 4, 5, 6, 7, 8, 9, 10, 11, 12, 13, 14, 15, 16, 17, 18, 19, 20, 21, 22, 23, 24, 25, 26, 27, 28, 29, 30, 31, 32, 33, 34, 35, 36, 37, 38, 39, 40, 41, 42, 43, 44, 45, 46, 47, 48, 49, 50, 51, 52, 53, 54, 55, 56, 57, 58, 59, 60, 61, 62, 63, 64, 65, 66, 67, 68, 69, 70, 71, 72, 73, 74, 75, 76, 77, 78, 79, 80, 81, 82, 83, 84, 85, 86, 87, 88, 89, 90, 91, 92, 93, 94, 95, 96, 97, 98, 99, 100, 101, 102, 103, 104, 105, 106, 107, 108, 109, 110, 111, 112, 113, 114, 115, 116, 117, 118, 119, 120, 121, 122, 123, 124, 125, 126, 127, 128, 129, 130, 131, 132, 133, 134, 135, 136, 137, 138, 139, 140, 141, 142, 143, 144, 145, 146, 147, 148, 149, 150, 151, 152, 153, 154, 155, 156, 157, 158, 159, 160, 161, 162, 163, 164, 165, 166, 167, 168, 169, 170, 171, 172, 173, 174, 175, 176, 177, 178, 179, 180, 181, 182, 183, 184, 185, 186, 187, 188, 189, 190, 191, 192, 193, 194, 195, 196, 197, 198, 199, 200, 201, 202, 203, 204, 205, 206, 207, 208, 209, 210, 211, 212, 213, 214, 215, 216, 217, 218, 219, 220, 221, 222, 223, 224, 225, 226, 227, 228, 229, 230, 231, 232, 233, 234, 235, 236, 237, 238, 239, 240, 241, 242, 243, 244, 245, 246, 247, 248, 249, 250, 251, 252, 253, 254, 255]"

lemma all_u8: "list_all P all_bytes \<Longrightarrow> P (c :: u8)"
proof -
  have "map of_nat [0..<256] = all_bytes" by (simp add: all_bytes_def upt_rec)
  moreover have "c \<in> set (map of_nat [0..<256])"
  proof -
    have "unat c < 256" using unsigned_less [of c, where ?'a = nat] by simp
    then have "of_nat (unat c) \<in> set (map of_nat [0..<256] :: bytes)" unfolding set_map by (intro imageI) simp
    then show ?thesis by simp
  qed
  ultimately have "c \<in> set all_bytes" by simp
  then show "list_all P all_bytes \<Longrightarrow> P c" by (simp add: list_all_iff del: all_bytes_def)
qed

text \<open>The tricks with the borrow of an unsigned difference.\<close>

lemma borrow: "drop_bit 8 (ucast (a :: u8) - ucast (k :: u8) :: u32) = (if a < k then 0xFFFFFF else 0)"
proof -
  have a: "unat a < 256" "unat k < 256" using unsigned_less [of a, where ?'a = nat] unsigned_less [of k, where ?'a = nat] by simp_all
  have u: "unat (ucast x :: u32) = unat x" for x :: u8
    using unsigned_less [of x, where ?'a = nat] by (simp add: unsigned_ucast_eq take_bit_nat_eq_self)
  show ?thesis
  proof (cases "a < k")
    case True
    then have lt: "unat a < unat k" by (simp add: word_less_nat_alt)
    then have "unat (ucast a - ucast k :: u32) = 2 ^ 32 + unat a - unat k"
      unfolding unat_sub_if' u by simp
    then have "unat (drop_bit 8 (ucast a - ucast k :: u32)) = 0xFFFFFF"
      unfolding unat_drop_bit using lt a by simp
    then show ?thesis using True by (simp add: word_unat_eq_iff)
  next
    case False
    then have ge: "unat k \<le> unat a" by (simp add: word_less_nat_alt)
    then have "unat (ucast a - ucast k :: u32) = unat a - unat k"
      unfolding unat_sub_if' u by simp
    then have "unat (drop_bit 8 (ucast a - ucast k :: u32)) = 0"
      unfolding unat_drop_bit using a by simp
    then show ?thesis using False by (simp add: word_unat_eq_iff)
  qed
qed

definition decode_nibble :: "u8 \<Rightarrow> u8 \<times> bool" where
  "decode_nibble c =
    (let c_num = c XOR 48;
         c_num0 = ucast (drop_bit 8 (ucast c_num - 10 :: u32)) :: u8;
         c_alpha = ucast ((ucast c AND NOT 32) - 55 :: u32) :: u8;
         c_alpha0 = ucast (drop_bit 8 ((ucast c_alpha - 10) XOR (ucast c_alpha - 16) :: u32)) :: u8
     in ((c_num0 AND c_num) OR (c_alpha0 AND c_alpha), c_num0 OR c_alpha0 \<noteq> 0))"

lemma decode_nibble_eq:
  "decode_nibble c =
    (let n = c XOR 48; a = ucast ((ucast c AND NOT 32) - 55 :: u32) :: u8
     in if n < 10 then (if 10 \<le> a \<and> a < 16 then (n OR a, True) else (n, True))
        else if 10 \<le> a \<and> a < 16 then (a, True) else (0, False))"
proof -
  have all: "(16777215 :: u8) = - 1" by simp
  have b: "drop_bit 8 (ucast a - 10 :: u32) = (if a < 10 then 0xFFFFFF else 0)" "drop_bit 8 (ucast a - 16 :: u32) = (if a < 16 then 0xFFFFFF else 0)" for a :: u8
    using borrow [of a 10] borrow [of a 16] by simp_all
  have no: "a < 10 \<Longrightarrow> 16 \<le> a \<Longrightarrow> False" for a :: u8 by (simp add: word_less_nat_alt word_le_nat_alt)
  then show ?thesis
    by (auto simp: decode_nibble_def Let_def b all not_less dest: no)
qed

lemma decode_nibble_table:
  "list_all (\<lambda>c. case digit_value c of None \<Rightarrow> \<not> snd (decode_nibble c)
     | Some v \<Rightarrow> decode_nibble c = (v, True) \<and> v * 16 = push_bit 4 v) all_bytes"
  by (simp add: all_bytes_def digit_value_def decode_nibble_eq Let_def word_le_nat_alt word_less_nat_alt)

lemmas decode_nibble_value = all_u8 [OF decode_nibble_table]

lemma all_nibbles: "list_all P [0, 1, 2, 3, 4, 5, 6, 7, 8, 9, 10, 11, 12, 13, 14, 15] \<Longrightarrow> unat (n :: u8) < 16 \<Longrightarrow> P n"
proof -
  assume "list_all P [0, 1, 2, 3, 4, 5, 6, 7, 8, 9, 10, 11, 12, 13, 14, 15]" and "unat n < 16"
  moreover have "map of_nat [0..<16] = [0, 1, 2, 3, 4, 5, 6, 7, 8, 9, 10, 11, 12, 13, 14, 15 :: u8]" by (simp add: upt_rec)
  ultimately have "list_all P (map of_nat [0..<16])" "unat n < 16" by simp_all
  then have "P (of_nat (unat n))" unfolding list_all_iff by (metis atLeastLessThan_iff image_eqI list.set_map set_upt zero_le)
  then show "P n" by simp
qed

lemma nibble_table:
  "list_all (\<lambda>n. hex_char (ucast n) = hex_digit n \<and> digit_value (hex_digit n) = Some n \<and> hex_digit n \<noteq> 0)
     [0, 1, 2, 3, 4, 5, 6, 7, 8, 9, 10, 11, 12, 13, 14, 15]"
  by (simp add: hex_char_def hex_digit_def digit_value_def word_le_nat_alt word_less_nat_alt mask_eq_exp_minus_1)

lemmas nibble_digit = all_nibbles [OF nibble_table]

lemma bit_15: "bit (15 :: int) n \<longleftrightarrow> n < 4"
proof -
  have "(15 :: int) = mask 4" by (simp add: mask_eq_exp_minus_1)
  then show ?thesis by (simp only: bit_mask_iff) simp
qed

lemma nibbles: "unat (drop_bit 4 (b :: u8)) < 16" "unat (b AND 15) < 16" "push_bit 4 (drop_bit 4 b) OR (b AND 15) = b"
proof -
  have "unat b < 256" using unsigned_less [of b, where ?'a = nat] by simp
  then show "unat (drop_bit 4 b) < 16" by (simp add: unat_drop_bit)
  show "unat (b AND 15) < 16" using unat_and_mask [of b 4] by (simp add: mask_eq_exp_minus_1)
  show "push_bit 4 (drop_bit 4 b) OR (b AND 15) = b"
    by (auto intro!: bit_word_eqI simp: bit_simps bit_15)
qed

lemma two_chars:
  fixes c d :: u8
  shows "ucast (push_bit 8 (ucast c) OR ucast d :: u32) = d" and "ucast (drop_bit 8 (push_bit 8 (ucast c) OR ucast d :: u32)) = c"
proof -
  have "\<not> bit d (8 + n)" for n using bit_imp_le_length [of d "8 + n"] by auto
  then show "ucast (push_bit 8 (ucast c) OR ucast d :: u32) = d" "ucast (drop_bit 8 (push_bit 8 (ucast c) OR ucast d :: u32)) = c"
    by (auto intro!: bit_word_eqI simp: bit_simps)
qed

lemma bin2hex_turn:
  "bin2hex_loop (byte # bin) i hex =
    bin2hex_loop bin (i + 1) (hex[i * 2 := hex_digit (drop_bit 4 byte), i * 2 + 1 := hex_digit (byte AND 15)])"
proof -
  have u: "ucast (byte AND 15) = (ucast byte AND 0xf :: u32)" by (auto intro!: bit_word_eqI simp: bit_simps bit_15)
  have "hex_char (ucast (drop_bit 4 byte)) = hex_digit (drop_bit 4 byte)" "hex_char (ucast byte AND 0xf) = hex_digit (byte AND 15)"
    using nibble_digit [OF nibbles(1), of byte] nibble_digit [OF nibbles(2), of byte] unfolding u by blast+
  then show ?thesis unfolding bin2hex_loop.simps(2) Let_def two_chars by (simp only:)
qed

section \<open>The loops\<close>

lemma hex2bin_digit:
  "hex2bin_loop None (c # hex) p bin q acc state =
    (case digit_value c of None \<Rightarrow> (p, bin, q, state, 0)
     | Some v \<Rightarrow> if length bin \<le> q then (p, bin, q, state, -1)
         else if state = 0 then hex2bin_loop None hex (p + 1) bin q (push_bit 4 v) (NOT state)
         else hex2bin_loop None hex (p + 1) (bin[q := acc OR v]) (q + 1) acc (NOT state))"
  using decode_nibble_value [of c] by (auto simp: decode_nibble_def Let_def split: option.splits)

text \<open>The loop on text that is all digits, and otherwise.\<close>

lemma blit_Cons: "q < length bin \<Longrightarrow> blit (bin[q := v]) (q + 1) vs = blit bin q (v # vs)"
  by (simp add: blit_def take_Suc_conv_app_nth)

lemma hex2bin_loop_value:
  "hex_value hex = Some bs \<Longrightarrow> q + length bs \<le> length bin \<Longrightarrow>
    hex2bin_loop None hex p bin q acc 0 = (p + length hex, blit bin q bs, q + length bs, 0, 0)"
proof (induction hex arbitrary: bs p bin q acc rule: hex_value.induct)
  case (3 a b cs)
  then obtain x y ds where d: "digit_value a = Some x" "digit_value b = Some y" "hex_value cs = Some ds" "bs = (push_bit 4 x OR y) # ds"
    by (auto split: option.splits)
  have q: "q < length bin" "q + 1 + length ds \<le> length (bin[q := push_bit 4 x OR y])" using 3 d by simp_all
  have "hex2bin_loop None (a # b # cs) p bin q acc 0 = hex2bin_loop None cs (p + 2) (bin[q := push_bit 4 x OR y]) (q + 1) (push_bit 4 x) 0"
    using q by (simp add: hex2bin_digit d del: hex2bin_loop.simps)
  also have "\<dots> = (p + 2 + length cs, blit (bin[q := push_bit 4 x OR y]) (q + 1) ds, q + 1 + length ds, 0, 0)"
    using "3.IH" [OF d(3) q(2)] .
  finally show ?case using d(4) blit_Cons [OF q(1)] by simp
qed auto

text \<open>On other text, and on a longer one than there is room for, the loop stops before the end or in the middle of a byte.\<close>

lemma hex2bin_loop_bad:
  "(\<And>bs. hex_value hex = Some bs \<Longrightarrow> length bin < q + length bs) \<Longrightarrow> q \<le> length bin \<Longrightarrow>
    hex2bin_loop None hex p bin q acc 0 = (p', bin', q', state, ret) \<Longrightarrow> p' < p + length hex \<or> state \<noteq> 0"
proof (induction hex arbitrary: p bin q acc rule: hex_value.induct)
  case (2 a)
  then show ?case by (auto simp: hex2bin_digit simp del: hex2bin_loop.simps(2) split: option.splits if_splits)
next
  case (3 a b cs)
  show ?case
  proof (cases "digit_value a = None \<or> digit_value b = None \<or> length bin \<le> q")
    case True
    then show ?thesis using 3 by (auto simp: hex2bin_digit simp del: hex2bin_loop.simps(2) split: option.splits if_splits)
  next
    case False
    then obtain x y where d: "digit_value a = Some x" "digit_value b = Some y" "q < length bin" by auto
    let ?bin = "bin[q := push_bit 4 x OR y]"
    have "hex2bin_loop None (a # b # cs) p bin q acc 0 = hex2bin_loop None cs (p + 2) ?bin (q + 1) (push_bit 4 x) 0"
      using d by (simp add: hex2bin_digit del: hex2bin_loop.simps)
    then have run: "hex2bin_loop None cs (p + 2) ?bin (q + 1) (push_bit 4 x) 0 = (p', bin', q', state, ret)"
      using "3.prems"(3) by simp
    have short: "length ?bin < q + 1 + length ds" if "hex_value cs = Some ds" for ds
      using "3.prems"(1) [of "(push_bit 4 x OR y) # ds"] that d by simp
    from "3.IH" [OF short _ run] d show ?thesis by simp
  qed
qed simp

lemma length_hex_text [simp]: "length (hex_text bs) = 2 * length bs"
  by (induction bs) (simp_all add: hex_text_def)

lemma hex_value_text: "hex_value (hex_text bs) = Some bs"
proof (induction bs)
  case (Cons b bs)
  then show ?case
    using nibble_digit [OF nibbles(1), of b] nibble_digit [OF nibbles(2), of b] nibbles(3) [of b] by (simp add: hex_text_def)
qed (simp add: hex_text_def)

lemma length_hex_value: "hex_value hex = Some bs \<Longrightarrow> length hex = 2 * length bs"
  by (induction hex arbitrary: bs rule: hex_value.induct) (auto split: option.splits)

lemma bin2hex_loop_text:
  "2 * (i + length bin) \<le> length hex \<Longrightarrow> bin2hex_loop bin i hex = blit hex (i * 2) (hex_text bin)"
proof (induction bin arbitrary: i hex)
  case (Cons byte bin)
  have "blit (hex[i * 2 := x, i * 2 + 1 := y]) ((i + 1) * 2) cs = blit hex (i * 2) (x # y # cs)" for x y cs
    using Cons.prems blit_Cons [of "i * 2 + 1" "hex[i * 2 := x]" y cs] blit_Cons [of "i * 2" hex x "y # cs"] by simp
  then show ?case
    using Cons unfolding bin2hex_turn by (simp add: hex_text_def del: bin2hex_loop.simps)
qed (simp add: hex_text_def)

lemma hex_text_nonzero: "0 \<notin> set (hex_text bs)"
  using nibble_digit [OF nibbles(1)] nibble_digit [OF nibbles(2)] by (auto simp: hex_text_def)

lemma toHex_text: "length bin < 2 ^ 62 \<Longrightarrow> toHex bin = hex_text bin"
proof (cases "bin = []")
  case False
  assume len: "length bin < 2 ^ 62"
  let ?n = "2 * length bin"
  have "drop ?n (replicate (?n + 1) (0 :: u8)) = [0]" by (simp only: drop_replicate) simp
  then have "blit (replicate (?n + 1) 0) 0 (hex_text bin) = hex_text bin @ [0]"
    by (simp add: blit_def)
  then have "cvt_bin2hex (replicate (length bin * 2 + 1) 0) bin = Some (hex_text bin @ [0])"
    using len bin2hex_loop_text [of 0 bin "replicate (?n + 1) 0"]
    by (simp add: cvt_bin2hex_def Let_def mult.commute list_update_append)
  moreover have "takeWhile (\<lambda>c. c \<noteq> 0) (hex_text bin @ [0]) = hex_text bin"
    using hex_text_nonzero [of bin] by (subst takeWhile_append2) auto
  ultimately show ?thesis using False by (simp add: toHex_def)
qed (simp add: toHex_def hex_text_def)

lemma cvt_hex2bin_cases:
  assumes "length bin * 2 = length hex \<or> length hex \<le> length bin * 2"
  shows "case hex_value hex of
      Some bs \<Rightarrow> cvt_hex2bin bin hex None False = (0, blit bin 0 bs, length bs, length hex)
    | None \<Rightarrow> fst (cvt_hex2bin bin hex None False) = -1"
proof (cases "hex_value hex")
  case None
  obtain p b q st ret where l: "hex2bin_loop None hex 0 bin 0 0 0 = (p, b, q, st, ret)" by (metis prod_cases5)
  then show ?thesis using None hex2bin_loop_bad [OF _ _ l] by (auto simp: cvt_hex2bin_def Let_def)
next
  case (Some bs)
  then have "length bs \<le> length bin" using assms length_hex_value [OF Some] by linarith
  then have "hex2bin_loop None hex 0 bin 0 0 0 = (length hex, blit bin 0 bs, length bs, 0, 0)"
    using hex2bin_loop_value [OF Some, of 0 bin 0 0] by simp
  then show ?thesis using Some by (simp add: cvt_hex2bin_def Let_def)
qed

lemma fromHex_array_cases:
  assumes "length hex \<le> length bin * 2"
  shows "fromHex_array bin hex = (case hex_value hex of
      Some bs \<Rightarrow> (bs \<noteq> [], blit bin 0 bs) | None \<Rightarrow> (False, snd (fromHex_array bin hex)))"
proof (cases "hex = []")
  case False
  then have "hex_value hex \<noteq> Some []" using length_hex_value by fastforce
  then show ?thesis
    using cvt_hex2bin_cases [of bin hex] assms False by (auto simp: fromHex_array_def split: option.splits prod.splits)
qed (simp add: fromHex_array_def)

lemma fromHex_cases:
  assumes "length hex \<noteq> 1"
  shows "fromHex hex = Some (case hex_value hex of Some bs \<Rightarrow> bs | None \<Rightarrow> [])"
proof (cases "hex = []")
  case True
  then show ?thesis by (simp add: fromHex_def fromHexImpl_def)
next
  case False
  let ?buf = "replicate (length hex div 2) 0 :: bytes"
  have ne: "?buf \<noteq> []" using assms False by (cases hex) (auto simp: div_eq_0_iff)
  show ?thesis
  proof (cases "hex_value hex")
    case (Some bs)
    then have len: "length hex = 2 * length bs" by (rule length_hex_value)
    then have "cvt_hex2bin ?buf hex None False = (0, bs, length bs, length hex)"
      using cvt_hex2bin_cases [of ?buf hex] Some by simp
    then show ?thesis using Some ne False by (simp add: fromHex_def fromHexImpl_def Let_def)
  next
    case None
    obtain p b q st ret where l: "hex2bin_loop None hex 0 ?buf 0 0 0 = (p, b, q, st, ret)" by (metis prod_cases5)
    then have "fst (cvt_hex2bin ?buf hex None False) = -1" using hex2bin_loop_bad [OF _ _ l] None by (auto simp: cvt_hex2bin_def Let_def)
    then show ?thesis using None ne False by (auto simp: fromHex_def fromHexImpl_def Let_def split: prod.splits)
  qed
qed

lemma fromHex_array_iff:
  "fromHex_array bin hex = (True, out) \<longleftrightarrow> hex \<noteq> [] \<and> (\<exists>cs. hex_value hex = Some cs \<and> length cs \<le> length bin \<and> out = blit bin 0 cs)"
proof (cases "\<exists>cs. hex_value hex = Some cs \<and> length cs \<le> length bin")
  case True
  then obtain cs where cs: "hex_value hex = Some cs" "length cs \<le> length bin" by blast
  with length_hex_value [OF cs(1)] have "fromHex_array bin hex = (cs \<noteq> [], blit bin 0 cs)" "cs \<noteq> [] \<longleftrightarrow> hex \<noteq> []"
    using fromHex_array_cases [of hex bin] by auto
  with cs show ?thesis by auto
next
  case False
  then have long: "length bin < 0 + length cs" if "hex_value hex = Some cs" for cs using that by (simp add: not_le)
  obtain p b q st ret where l: "hex2bin_loop None hex 0 bin 0 0 0 = (p, b, q, st, ret)" by (metis prod_cases5)
  with hex2bin_loop_bad [OF long _ l] have "fst (cvt_hex2bin bin hex None False) = -1"
    by (auto simp: cvt_hex2bin_def Let_def)
  with False show ?thesis by (auto simp: fromHex_array_def split: prod.splits)
qed

lemma fromHexImpl_cases:
  "case fromHexImpl hex of
      None \<Rightarrow> length hex = 1
    | Some (ok, buf) \<Rightarrow> length hex \<noteq> 1 \<and> (ok \<longleftrightarrow> hex \<noteq> [] \<and> hex_value hex = Some buf) \<and> (\<not> ok \<longrightarrow> hex = [] \<or> hex_value hex = None)"
proof (cases "length hex div 2 = 0")
  case True
  then show ?thesis by (cases hex) (auto simp: fromHexImpl_def Let_def div_eq_0_iff)
next
  case False
  let ?buf = "replicate (length hex div 2) 0 :: bytes"
  have ne: "hex \<noteq> []" "?buf \<noteq> []" "length hex \<noteq> 1" using False by auto
  have impl: "fromHexImpl hex = Some (fst (cvt_hex2bin ?buf hex None False) = 0, fst (snd (cvt_hex2bin ?buf hex None False)))"
    using ne by (simp add: fromHexImpl_def Let_def split_beta)
  show ?thesis
  proof (cases "hex_value hex")
    case (Some cs)
    then have len: "length hex = 2 * length cs" by (rule length_hex_value)
    with cvt_hex2bin_cases [of ?buf hex] Some have "cvt_hex2bin ?buf hex None False = (0, cs, length cs, length hex)" by simp
    with impl Some ne show ?thesis by simp
  next
    case None
    obtain p b q st ret where l: "hex2bin_loop None hex 0 ?buf 0 0 0 = (p, b, q, st, ret)" by (metis prod_cases5)
    have "fst (cvt_hex2bin ?buf hex None False) = -1" using hex2bin_loop_bad [OF _ _ l] None l by (auto simp: cvt_hex2bin_def Let_def)
    with impl None ne show ?thesis by simp
  qed
qed

section \<open>Properties\<close>

text \<open>C39: Hexadecimal text reads back, and nothing else is read. Decoding what \<open>toHex\<close> writes gives the bytes (fewer than
  \<open>2 ^ 62\<close>), into a new buffer and into an array with room. Into a new buffer, decoding accepts exactly the non-empty texts of pairs of digits,
  in either case, gives their bytes and refuses all other text, except a text of one character, which reads
  \<open>front()\<close> of an empty buffer and has no defined result. Into an array it accepts, for text of any length, exactly the
  same texts as long as their bytes fit.\<close>

theorem hex_roundtrip:
  assumes "length bs < 2 ^ 62"
  shows "fromHex (toHex bs) = Some bs \<and>
    (bs \<noteq> [] \<longrightarrow> length bs \<le> length bin \<longrightarrow> fromHex_array bin (toHex bs) = (True, blit bin 0 bs)) \<and>
    (case fromHexImpl hex of
       None \<Rightarrow> length hex = 1
     | Some (ok, buf) \<Rightarrow> length hex \<noteq> 1 \<and> (ok \<longleftrightarrow> hex \<noteq> [] \<and> hex_value hex \<noteq> None) \<and> (ok \<longrightarrow> hex_value hex = Some buf)) \<and>
    (fromHex_array bin hex = (True, out) \<longleftrightarrow>
       hex \<noteq> [] \<and> (\<exists>cs. hex_value hex = Some cs \<and> length cs \<le> length bin \<and> out = blit bin 0 cs))"
proof -
  have "length (hex_text bs) \<noteq> 1" by simp
  from fromHex_cases [OF this] have "fromHex (toHex bs) = Some bs" by (simp add: toHex_text [OF assms] hex_value_text)
  moreover have "bs \<noteq> [] \<longrightarrow> length bs \<le> length bin \<longrightarrow> fromHex_array bin (toHex bs) = (True, blit bin 0 bs)"
    by (simp add: toHex_text [OF assms] hex_value_text fromHex_array_cases)
  ultimately show ?thesis
    using fromHexImpl_cases [of hex] fromHex_array_iff [of bin hex out] by (auto split: option.splits)
qed

theorem hex_roundtrip_witness:
  "fromHex (toHex [0, 255]) = Some [0, 255] \<and> (\<exists>buf. fromHexImpl [48, 103] = Some (False, buf)) \<and>
    fromHexImpl [65, 102] = Some (True, [175]) \<and> fromHexImpl [65] = None \<and> \<not> fst (fromHex_array [0] [65, 102, 65, 102])"
proof -
  note rt = hex_roundtrip [of "[0, 255]"]
  have v: "hex_value [48, 103] = None" "hex_value [65, 102] = Some [175]" "hex_value [65, 102, 65, 102] = Some [175, 175]"
    by (simp_all add: digit_value_def word_le_nat_alt)
  have "fromHex (toHex [0, 255]) = Some [0, 255]" using rt [of "[]" "[]" "[]"] by simp
  moreover have "\<exists>buf. fromHexImpl [48, 103] = Some (False, buf)"
    using rt [of "[]" "[48, 103]" "[]"] v by (auto split: option.splits)
  moreover have "fromHexImpl [65, 102] = Some (True, [175])"
    using rt [of "[]" "[65, 102]" "[]"] v by (auto split: option.splits)
  moreover have "fromHexImpl [65] = None"
    using rt [of "[]" "[65]" "[]"] by (auto split: option.splits)
  moreover have "\<not> fst (fromHex_array [0] [65, 102, 65, 102])"
  proof
    assume "fst (fromHex_array [0] [65, 102, 65, 102])"
    then have "fromHex_array [0] [65, 102, 65, 102] = (True, snd (fromHex_array [0] [65, 102, 65, 102]))" by (simp add: prod_eq_iff)
    with rt [of "[0]" "[65, 102, 65, 102]" "snd (fromHex_array [0] [65, 102, 65, 102])"] v show False by (simp del: hex_value.simps)
  qed
  ultimately show ?thesis by blast
qed

end
