(* ===== verification/Lines.thy ===== *)
theory Lines
  imports C_Prelude
begin

text \<open>
  The lines of a pool connection (\<open>base/net/tools/LineReader.cpp\<close>): data arrives in pieces of any size, and every complete
  line that is not empty goes to the listener, without its terminator. The calls of the listener are the list of
  lines an operation returns; it is taken not to call the reader back.
\<close>

section \<open>The reader\<close>

definition XMRIG_NET_BUFFER_CHUNK_SIZE :: nat where "XMRIG_NET_BUFFER_CHUNK_SIZE = 64 * 1024"

record LineReader =
  lr_buf :: "bytes option"
  lr_pos :: nat

definition new_LineReader :: LineReader where
  "new_LineReader = \<lparr>lr_buf = None, lr_pos = 0\<rparr>"

definition lr_reset :: "LineReader \<Rightarrow> LineReader" where
  "lr_reset R = (case lr_buf R of None \<Rightarrow> R | Some _ \<Rightarrow> \<lparr>lr_buf = None, lr_pos = 0\<rparr>)"

text \<open>\<open>fresh\<close> is what the buffer that \<open>NetBuffer::allocate\<close> returns holds.\<close>

definition lr_add :: "bytes \<Rightarrow> LineReader \<Rightarrow> bytes \<Rightarrow> LineReader" where
  "lr_add fresh R data =
    (if length data + lr_pos R > XMRIG_NET_BUFFER_CHUNK_SIZE then R
     else let (buf, pos) = (case lr_buf R of None \<Rightarrow> (fresh, 0) | Some buf \<Rightarrow> (buf, lr_pos R))
          in \<lparr>lr_buf = Some (blit buf pos data), lr_pos = pos + length data\<rparr>)"

definition buffered_bytes :: "LineReader \<Rightarrow> nat \<Rightarrow> bytes" where
  "buffered_bytes R n = (case lr_buf R of None \<Rightarrow> [] | Some buf \<Rightarrow> take n buf)"

text \<open>\<open>memchr\<close> finds the first terminator, which a zero replaces; a null buffer is never read.\<close>

function getline_loop :: "bytes \<Rightarrow> LineReader \<Rightarrow> bytes \<Rightarrow> bytes list \<times> LineReader \<times> bytes" where
  "getline_loop fresh R data =
    (if 10 \<in> set data then
       let line = takeWhile (\<lambda>c. c \<noteq> 10) data;
           len = length line + 1;
           rest = drop len data;
           (out, R) = (if lr_pos R \<noteq> 0 then
               let R = lr_add fresh R (line @ [0]) in ([buffered_bytes R (lr_pos R - 1)], R\<lparr>lr_pos := 0\<rparr>)
             else if 1 < len then ([line], R) else ([], R));
           (outs, R, rest) = getline_loop fresh R rest
       in (out @ outs, R, rest)
     else ([], R, data))"
  by pat_completeness auto
termination
proof (relation "measure (\<lambda>(fresh, R, data). length data)", goal_cases)
  case (2 fresh R data line len rest p out R')
  then have "data \<noteq> []" by auto
  then show ?case using 2 by simp
qed simp

declare getline_loop.simps [simp del]

definition getline :: "bytes \<Rightarrow> LineReader \<Rightarrow> bytes \<Rightarrow> bytes list \<times> LineReader" where
  "getline fresh R data =
    (let (outs, R, rest) = getline_loop fresh R data
     in if rest = [] then (outs, lr_reset R) else (outs, lr_add fresh R rest))"

text \<open>\<open>parse\<close> asserts that there is a listener and data; without assertions it returns.\<close>

definition lr_parse :: "bytes \<Rightarrow> bool \<Rightarrow> LineReader \<Rightarrow> bytes \<Rightarrow> bytes list \<times> LineReader" where
  "lr_parse fresh listener R data = (if \<not> listener \<or> data = [] then ([], R) else getline fresh R data)"

primrec parse_pieces :: "bytes \<Rightarrow> LineReader \<Rightarrow> bytes list \<Rightarrow> bytes list \<times> LineReader" where
  "parse_pieces fresh R [] = ([], R)"
| "parse_pieces fresh R (d # ds) =
    (let (outs, R) = lr_parse fresh True R d; (more, R) = parse_pieces fresh R ds in (outs @ more, R))"

section \<open>The lines of a stream\<close>

text \<open>The complete lines that are not empty, and the rest.\<close>

fun split_lines :: "bytes \<Rightarrow> bytes \<Rightarrow> bytes list \<times> bytes" where
  "split_lines acc [] = ([], acc)"
| "split_lines acc (c # cs) =
    (if c = 10 then let (ls, t) = split_lines [] cs in ((if acc = [] then ls else acc # ls), t) else split_lines (acc @ [c]) cs)"

text \<open>Every line, with its terminator, fits the buffer.\<close>

fun short_lines :: "nat \<Rightarrow> bytes \<Rightarrow> bool" where
  "short_lines k [] \<longleftrightarrow> k < XMRIG_NET_BUFFER_CHUNK_SIZE"
| "short_lines k (c # cs) \<longleftrightarrow> k < XMRIG_NET_BUFFER_CHUNK_SIZE \<and> short_lines (if c = 10 then 0 else k + 1) cs"

lemma split_lines_append:
  "split_lines acc (xs @ ys) = (let (l, t) = split_lines acc xs; (m, u) = split_lines t ys in (l @ m, u))"
  by (induction acc xs rule: split_lines.induct) (simp_all add: Let_def split_beta)

lemma split_line: "10 \<notin> set xs \<Longrightarrow> split_lines acc xs = ([], acc @ xs)"
  by (induction xs arbitrary: acc) auto

lemma short_lines_less: "short_lines k xs \<Longrightarrow> k < XMRIG_NET_BUFFER_CHUNK_SIZE"
  by (cases xs) auto

lemma short_lines_append:
  "short_lines k (xs @ ys) \<Longrightarrow> short_lines k xs" "short_lines (length t) (xs @ ys) \<Longrightarrow> short_lines (length (snd (split_lines t xs))) ys"
proof -
  show "short_lines k (xs @ ys) \<Longrightarrow> short_lines k xs"
    by (induction xs arbitrary: k) (auto dest: short_lines_less)
  show "short_lines (length t) (xs @ ys) \<Longrightarrow> short_lines (length (snd (split_lines t xs))) ys"
    by (induction t xs rule: split_lines.induct) (auto simp: Let_def split_beta)
qed

lemma short_line:
  "short_lines k (xs @ 10 # ys) \<Longrightarrow> 10 \<notin> set xs \<Longrightarrow> k + length xs < XMRIG_NET_BUFFER_CHUNK_SIZE \<and> short_lines 0 ys"
proof (induction xs arbitrary: k)
  case (Cons x xs)
  then have "short_lines (k + 1) (xs @ 10 # ys)" by auto
  with Cons.IH [OF this] Cons.prems(2) show ?case by simp
qed simp

section \<open>The reader holds the rest\<close>

definition lr_holds :: "LineReader \<Rightarrow> bytes \<Rightarrow> bool" where
  "lr_holds R t \<longleftrightarrow> lr_pos R = length t \<and>
     (case lr_buf R of None \<Rightarrow> t = [] | Some buf \<Rightarrow> length buf = XMRIG_NET_BUFFER_CHUNK_SIZE \<and> take (length t) buf = t)"

lemma add_holds:
  assumes "lr_holds R t" and "length t + length d \<le> XMRIG_NET_BUFFER_CHUNK_SIZE" and "length fresh = XMRIG_NET_BUFFER_CHUNK_SIZE"
  shows "lr_holds (lr_add fresh R d) (t @ d)"
  using assms by (auto simp: lr_holds_def lr_add_def take_blit_eq split: option.splits)

lemma holds_buffered: "lr_holds R t \<Longrightarrow> n \<le> length t \<Longrightarrow> buffered_bytes R n = take n t"
proof -
  assume h: "lr_holds R t" "n \<le> length t"
  have "take n buf = take n t" if "take (length t) buf = t" for buf
    using arg_cong [OF that, of "take n"] h(2) by (simp add: min_absorb1)
  note same = this
  show ?thesis
  proof (cases "lr_buf R")
    case (Some buf)
    with h have "take (length t) buf = t" by (simp add: lr_holds_def)
    from same [OF this] Some show ?thesis by (simp only: buffered_bytes_def option.case)
  qed (use h in \<open>simp add: lr_holds_def buffered_bytes_def\<close>)
qed

lemma reset_holds: "lr_holds R [] \<Longrightarrow> lr_holds (lr_reset R) []"
  by (auto simp: lr_holds_def lr_reset_def split: option.split)

lemma pos_holds: "lr_holds R t \<Longrightarrow> lr_holds (R\<lparr>lr_pos := 0\<rparr>) []"
  by (auto simp: lr_holds_def split: option.splits)

lemma first_line:
  assumes "10 \<in> set data"
  obtains line rest where "data = line @ 10 # rest" and "10 \<notin> set line" and "takeWhile (\<lambda>c. c \<noteq> 10) data = line"
    and "drop (length line + 1) data = rest"
proof -
  obtain line rest where d: "data = line @ 10 # rest" "10 \<notin> set line" using split_list_first [OF assms] by blast
  then have "takeWhile (\<lambda>c. c \<noteq> 10) data = line" by (subst d(1), subst takeWhile_append2) auto
  with d show thesis using that by simp
qed

lemma getline_loop_lines:
  assumes "length fresh = XMRIG_NET_BUFFER_CHUNK_SIZE"
  shows "lr_holds R t \<Longrightarrow> short_lines (length t) data \<Longrightarrow>
    \<exists>R' t' rest. getline_loop fresh R data = (fst (split_lines t data), R', rest) \<and> lr_holds R' t' \<and>
      t' @ rest = snd (split_lines t data) \<and> (t' = [] \<or> rest = data) \<and> 10 \<notin> set rest \<and> length t' + length rest < XMRIG_NET_BUFFER_CHUNK_SIZE"
proof (induction "length data" arbitrary: data R t rule: less_induct)
  case less
  show ?case
  proof (cases "10 \<in> set data")
    case False
    then have "length t + length data < XMRIG_NET_BUFFER_CHUNK_SIZE"
      using short_lines_append(2) [of t data "[]"] less.prems(2) by (simp add: split_line)
    then show ?thesis using False less.prems by (subst getline_loop.simps) (auto simp: split_line)
  next
    case True
    obtain line rest where d: "data = line @ 10 # rest" "10 \<notin> set line" "takeWhile (\<lambda>c. c \<noteq> 10) data = line" "drop (length line + 1) data = rest"
      by (rule first_line [OF True])
    have fit: "length t + length line < XMRIG_NET_BUFFER_CHUNK_SIZE" "short_lines (length []) rest"
      using short_line [of "length t" line rest] less.prems(2) d by simp_all
    have spl: "split_lines t data = (let (ls, u) = split_lines [] rest in ((if t @ line = [] then ls else (t @ line) # ls), u))"
      unfolding d(1) split_lines_append split_line [OF d(2)] by (simp add: Let_def split_beta)
    define out where "out = (if lr_pos R \<noteq> 0 then
               let R = lr_add fresh R (line @ [0]) in ([buffered_bytes R (lr_pos R - 1)], R\<lparr>lr_pos := 0\<rparr>)
             else if 1 < length line + 1 then ([line], R) else ([], R))"
    have out: "fst out = (if t @ line = [] then [] else [t @ line]) \<and> lr_holds (snd out) []"
    proof (cases "t = []")
      case True
      then show ?thesis using less.prems(1) by (auto simp: out_def lr_holds_def)
    next
      case False
      let ?R = "lr_add fresh R (line @ [0])"
      have h: "lr_holds ?R (t @ line @ [0])" using add_holds [OF less.prems(1) _ assms, of "line @ [0]"] fit by simp
      then have "lr_pos ?R = length (t @ line) + 1" by (simp add: lr_holds_def)
      then have "buffered_bytes ?R (lr_pos ?R - 1) = t @ line" using holds_buffered [OF h, of "length (t @ line)"] by simp
      moreover have "lr_pos R \<noteq> 0" using False less.prems(1) by (simp add: lr_holds_def)
      ultimately show ?thesis using False pos_holds [OF h] by (simp add: out_def Let_def)
    qed
    have "length rest < length data" using d(1) by simp
    from less.hyps [OF this conjunct2 [OF out] fit(2)] obtain R' t' r where
      IH: "getline_loop fresh (snd out) rest = (fst (split_lines [] rest), R', r)" "lr_holds R' t'" "t' @ r = snd (split_lines [] rest)"
        "t' = [] \<or> r = rest" "10 \<notin> set r" "length t' + length r < XMRIG_NET_BUFFER_CHUNK_SIZE" by blast
    have t': "t' = []"
    proof (cases "t' = []")
      case False
      then have "r = rest" using IH(4) by simp
      then have "snd (split_lines [] rest) = rest" using \<open>r = rest\<close> split_line [of rest "[]"] IH(5) by simp
      then show ?thesis using IH(3) \<open>r = rest\<close> by simp
    qed simp
    have "getline_loop fresh R data = (fst out @ fst (split_lines [] rest), R', r)"
      unfolding getline_loop.simps [of fresh R data] if_P [OF True] Let_def d(3,4) out_def [symmetric, unfolded Let_def]
      using IH(1) by (simp add: split_beta)
    then show ?thesis using IH(2,3,5,6) t' out spl by (auto simp: Let_def split_beta)
  qed
qed

lemma lr_parse_lines:
  assumes "length fresh = XMRIG_NET_BUFFER_CHUNK_SIZE" and "lr_holds R t" and "short_lines (length t) data"
  obtains R' where "lr_parse fresh True R data = (fst (split_lines t data), R')" and "lr_holds R' (snd (split_lines t data))"
proof (cases "data = []")
  case True
  with assms that show thesis by (simp add: lr_parse_def)
next
  case False
  obtain R' t' rest where l: "getline_loop fresh R data = (fst (split_lines t data), R', rest)" "lr_holds R' t'"
      "t' @ rest = snd (split_lines t data)" "t' = [] \<or> rest = data" "length t' + length rest < XMRIG_NET_BUFFER_CHUNK_SIZE"
    using getline_loop_lines [OF assms] by blast
  have "lr_holds (if rest = [] then lr_reset R' else lr_add fresh R' rest) (snd (split_lines t data))"
  proof (cases "rest = []")
    case True
    with l False reset_holds [of R'] show ?thesis by auto
  next
    case False
    with add_holds [OF l(2) _ assms(1), of rest] l(3,5) show ?thesis by simp
  qed
  moreover have "lr_parse fresh True R data = (fst (split_lines t data), if rest = [] then lr_reset R' else lr_add fresh R' rest)"
    using False by (simp add: lr_parse_def getline_def l(1))
  ultimately show thesis using that by blast
qed

lemma parse_pieces_lines:
  assumes "length fresh = XMRIG_NET_BUFFER_CHUNK_SIZE"
  shows "lr_holds R t \<Longrightarrow> short_lines (length t) (concat ds) \<Longrightarrow>
    \<exists>R'. parse_pieces fresh R ds = (fst (split_lines t (concat ds)), R') \<and> lr_holds R' (snd (split_lines t (concat ds)))"
proof (induction ds arbitrary: R t)
  case (Cons d ds)
  have c: "short_lines (length t) (d @ concat ds)" using Cons.prems(2) by simp
  obtain R' where R': "lr_parse fresh True R d = (fst (split_lines t d), R')" "lr_holds R' (snd (split_lines t d))"
    by (rule lr_parse_lines [OF assms Cons.prems(1) short_lines_append(1) [OF c]])
  from Cons.IH [OF R'(2) short_lines_append(2) [OF c]] R'(1) show ?case
    by (auto simp: split_lines_append Let_def split_beta)
qed simp

section \<open>Every reader stays inside its buffer\<close>

text \<open>Whatever arrives, long lines included: a buffer of the fixed size, of which no more than the size is used.\<close>

definition lr_in_buffer :: "LineReader \<Rightarrow> bool" where
  "lr_in_buffer R \<longleftrightarrow> lr_pos R \<le> XMRIG_NET_BUFFER_CHUNK_SIZE \<and>
     (case lr_buf R of None \<Rightarrow> lr_pos R = 0 | Some buf \<Rightarrow> length buf = XMRIG_NET_BUFFER_CHUNK_SIZE)"

lemma lr_add_in_buffer:
  "lr_in_buffer R \<Longrightarrow> length fresh = XMRIG_NET_BUFFER_CHUNK_SIZE \<Longrightarrow> lr_in_buffer (lr_add fresh R d)"
  by (auto simp: lr_in_buffer_def lr_add_def split: option.splits)

lemma lr_other_in_buffer:
  "lr_in_buffer R \<Longrightarrow> lr_in_buffer (lr_reset R)" "lr_in_buffer R \<Longrightarrow> lr_in_buffer (R\<lparr>lr_pos := 0\<rparr>)"
  by (auto simp: lr_in_buffer_def lr_reset_def split: option.splits)

lemma getline_loop_in_buffer:
  assumes "length fresh = XMRIG_NET_BUFFER_CHUNK_SIZE"
  shows "lr_in_buffer R \<Longrightarrow> lr_in_buffer (fst (snd (getline_loop fresh R data)))"
proof (induction "length data" arbitrary: data R rule: less_induct)
  case less
  show ?case
  proof (cases "10 \<in> set data")
    case True
    obtain line rest where d: "data = line @ 10 # rest" "10 \<notin> set line" "takeWhile (\<lambda>c. c \<noteq> 10) data = line" "drop (length line + 1) data = rest"
      by (rule first_line [OF True])
    have *: "length rest < length data" using d(1) by simp
    have "lr_in_buffer ((lr_add fresh R (line @ [0]))\<lparr>lr_pos := 0\<rparr>)"
      by (intro lr_other_in_buffer lr_add_in_buffer less.prems assms)
    with less.hyps [OF *] less.prems True show ?thesis
      unfolding getline_loop.simps [of fresh R data] if_P [OF True] Let_def d(3,4) by (simp add: split_beta)
  qed (use less.prems in \<open>simp add: getline_loop.simps\<close>)
qed

lemma parse_in_buffer:
  "length fresh = XMRIG_NET_BUFFER_CHUNK_SIZE \<Longrightarrow> lr_in_buffer R \<Longrightarrow> lr_in_buffer (snd (lr_parse fresh l R data))"
  using getline_loop_in_buffer [of fresh R data] lr_add_in_buffer lr_other_in_buffer(1)
  by (auto simp: lr_parse_def getline_def Let_def split_beta)

text \<open>A line of which a part is held and the end does not fit is delivered without the end, and without the last byte held.\<close>

lemma long_line_truncated:
  assumes "lr_holds R t" and "t \<noteq> []" and "10 \<notin> set line" and "length t + length line \<ge> XMRIG_NET_BUFFER_CHUNK_SIZE"
  shows "fst (lr_parse fresh True R (line @ [10])) = [butlast t]"
proof -
  have "lr_add fresh R (line @ [0]) = R" using assms(1,4) by (simp add: lr_add_def lr_holds_def)
  moreover have "takeWhile (\<lambda>c. c \<noteq> 10) (line @ [10]) = line" using assms(3) by (subst takeWhile_append2) auto
  moreover have "buffered_bytes R (length t - 1) = butlast t"
    using holds_buffered [OF assms(1), of "length t - 1"] by (simp add: butlast_conv_take)
  moreover have "lr_pos R = length t" using assms(1) by (simp add: lr_holds_def)
  ultimately show ?thesis using assms(2)
    by (simp add: lr_parse_def getline_def getline_loop.simps Let_def split_beta)
qed

section \<open>The property\<close>

text \<open>C23: However the stream of a connection is cut into pieces, the listener gets exactly its complete non-empty lines, in
  order, and the reader holds the unfinished one, when every line fits the buffer; and for all data whatsoever the reader
  stays inside its buffer.\<close>

theorem lines_any_pieces:
  assumes "length fresh = XMRIG_NET_BUFFER_CHUNK_SIZE" and "short_lines 0 (concat ds)"
  shows "(let (lines, R) = parse_pieces fresh new_LineReader ds
      in (lines, buffered_bytes R (lr_pos R)) = split_lines [] (concat ds)) \<and>
    lr_in_buffer (snd (parse_pieces fresh new_LineReader es))"
proof
  have "lr_holds new_LineReader []" by (simp add: lr_holds_def new_LineReader_def)
  from parse_pieces_lines [OF assms(1) this, of ds] assms(2) obtain R' where
    R': "parse_pieces fresh new_LineReader ds = (fst (split_lines [] (concat ds)), R')" "lr_holds R' (snd (split_lines [] (concat ds)))" by auto
  then show "let (lines, R) = parse_pieces fresh new_LineReader ds
      in (lines, buffered_bytes R (lr_pos R)) = split_lines [] (concat ds)"
    using holds_buffered [OF R'(2)] by (simp add: lr_holds_def)
  have "lr_in_buffer R \<Longrightarrow> lr_in_buffer (snd (parse_pieces fresh R es))" for R
    by (induction es arbitrary: R) (simp_all add: Let_def split_beta parse_in_buffer [OF assms(1)])
  then show "lr_in_buffer (snd (parse_pieces fresh new_LineReader es))" by (simp add: lr_in_buffer_def new_LineReader_def)
qed

text \<open>Two lines in three pieces, with an empty line between and the start of a third.\<close>

theorem lines_any_pieces_witness:
  "let (lines, R) = parse_pieces (replicate XMRIG_NET_BUFFER_CHUNK_SIZE 0) new_LineReader [[1, 2], [3, 10, 10, 4], [10, 5]]
   in lines = [[1, 2, 3], [4]] \<and> buffered_bytes R (lr_pos R) = [5]"
  using lines_any_pieces [of "replicate XMRIG_NET_BUFFER_CHUNK_SIZE 0" "[[1, 2], [3, 10, 10, 4], [10, 5]]" "[]"]
  by (simp add: XMRIG_NET_BUFFER_CHUNK_SIZE_def)

end
