(* ===== verification/Nonces.thy ===== *)
theory Nonces
  imports C_Prelude
begin

text \<open>
  The nonces of all mining threads (\<open>crypto/common/Nonce.cpp\<close> and \<open>Nonce.h\<close>): a counter per kind of job from which every thread
  takes ranges with an atomic addition, the pause flag, and the sequence numbers that tell a backend of a new job.
\<close>

section \<open>The state and its operations\<close>

record Nonce =
  nc_paused :: bool
  nc_sequence :: "u64 list"
  nc_nonces :: "u64 list"

definition new_Nonce :: Nonce where
  "new_Nonce = \<lparr>nc_paused = True, nc_sequence = [1, 1, 1], nc_nonces = [0, 0]\<rparr>"

definition isOutdated :: "Nonce \<Rightarrow> nat \<Rightarrow> u64 \<Rightarrow> bool" where
  "isOutdated S backend sequence \<longleftrightarrow> nc_sequence S ! backend \<noteq> sequence"

definition nonce_pause :: "bool \<Rightarrow> Nonce \<Rightarrow> Nonce" where
  "nonce_pause paused S = S\<lparr>nc_paused := paused\<rparr>"

definition nonce_reset :: "nat \<Rightarrow> Nonce \<Rightarrow> Nonce" where
  "nonce_reset index S = S\<lparr>nc_nonces := (nc_nonces S)[index := 0]\<rparr>"

definition stop_backend :: "nat \<Rightarrow> Nonce \<Rightarrow> Nonce" where
  "stop_backend backend S = S\<lparr>nc_sequence := (nc_sequence S)[backend := 0]\<rparr>"

definition touch_backend :: "nat \<Rightarrow> Nonce \<Rightarrow> Nonce" where
  "touch_backend backend S = S\<lparr>nc_sequence := (nc_sequence S)[backend := nc_sequence S ! backend + 1]\<rparr>"

definition nonce_stop :: "Nonce \<Rightarrow> Nonce" where
  "nonce_stop S = (nonce_pause False S)\<lparr>nc_sequence := map (\<lambda>i. 0) (nc_sequence S)\<rparr>"

definition nonce_touch :: "Nonce \<Rightarrow> Nonce" where
  "nonce_touch S = S\<lparr>nc_sequence := map (\<lambda>i. i + 1) (nc_sequence S)\<rparr>"

text \<open>\<open>next\<close>: the guard, the addition, one turn of the loop, and the words it writes.\<close>

definition next_refused :: "u32 \<Rightarrow> u64 \<Rightarrow> bool" where
  "next_refused reserveCount nmask \<longleftrightarrow> reserveCount = 0 \<or> nmask < ucast (reserveCount - 1)"

definition fetch_add :: "nat \<Rightarrow> u32 \<Rightarrow> Nonce \<Rightarrow> u64 \<times> Nonce" where
  "fetch_add index reserveCount S =
    (let counter = nc_nonces S ! index in (counter, S\<lparr>nc_nonces := (nc_nonces S)[index := counter + ucast reserveCount]\<rparr>))"

datatype turn = Return bool | Retry

definition next_turn :: "u32 \<Rightarrow> u64 \<Rightarrow> u64 \<Rightarrow> Nonce \<Rightarrow> turn \<times> Nonce" where
  "next_turn reserveCount nmask counter S =
    (if nmask < counter then (Return False, S)
     else if nmask - counter \<le> ucast (reserveCount - 1) then
       let S = nonce_pause True S
       in if nmask - counter < ucast (reserveCount - 1) then (Return False, S) else (Return True, S)
     else if 0xFFFFFFFF - ucast (ucast counter :: u32) < (ucast (reserveCount - 1) :: u64) then (Retry, S)
     else (Return True, S))"

definition write_nonce :: "u64 \<Rightarrow> u64 \<Rightarrow> u32 list \<Rightarrow> u32 list" where
  "write_nonce nmask counter nonce =
    (let nonce = nonce[0 := ucast ((ucast (nonce ! 0) AND NOT nmask) OR counter)]
     in if nmask > 0xFFFFFFFF
        then nonce[1 := ucast ((ucast (nonce ! 1) AND drop_bit 32 (NOT nmask)) OR drop_bit 32 counter)]
        else nonce)"

partial_function (option) next_loop :: "nat \<Rightarrow> u32 \<Rightarrow> u64 \<Rightarrow> u64 \<Rightarrow> Nonce \<Rightarrow> (u64 option \<times> Nonce) option" where
  "next_loop index reserveCount nmask counter S =
    (case next_turn reserveCount nmask counter S of
       (Return ok, S) \<Rightarrow> Some (if ok then Some counter else None, S)
     | (Retry, S) \<Rightarrow> (case fetch_add index reserveCount S of (counter, S) \<Rightarrow> next_loop index reserveCount nmask counter S))"

definition Nonce_next :: "nat \<Rightarrow> u32 list \<Rightarrow> u32 \<Rightarrow> u64 \<Rightarrow> Nonce \<Rightarrow> (bool \<times> u32 list \<times> Nonce) option" where
  "Nonce_next index nonce reserveCount nmask S =
    (let nmask = nmask AND 0x7FFFFFFFFFFFFFFF
     in if next_refused reserveCount nmask then Some (False, nonce, S)
     else case fetch_add index reserveCount S of (counter, S) \<Rightarrow>
       (case next_loop index reserveCount nmask counter S of
          None \<Rightarrow> None
        | Some (None, S) \<Rightarrow> Some (False, nonce, S)
        | Some (Some counter, S) \<Rightarrow> Some (True, write_nonce nmask counter nonce, S)))"

section \<open>Many threads\<close>

text \<open>
  A thread is outside \<open>next\<close>, about to add, or has added and tests what it got. A range it tests or was granted belongs to
  the generation of its counter, which a reset ends. \<open>drawn\<close> is what has been added in a generation, without wrap-around.
\<close>

record reservation =
  rv_index :: nat
  rv_gen :: nat
  rv_start :: u64
  rv_size :: u32
  rv_mask :: u64

datatype call = Outside | Adding nat u32 u64 | Testing reservation

record nonce_system =
  ns_nonce :: Nonce
  ns_calls :: "nat \<Rightarrow> call"
  ns_grants :: "reservation list"
  ns_gen :: "nat \<Rightarrow> nat"
  ns_drawn :: "nat \<Rightarrow> nat \<Rightarrow> nat"

definition new_system :: nonce_system where
  "new_system = \<lparr>ns_nonce = new_Nonce, ns_calls = (\<lambda>t. Outside), ns_grants = [], ns_gen = (\<lambda>i. 0), ns_drawn = (\<lambda>i g. 0)\<rparr>"

inductive nonce_step :: "nonce_system \<Rightarrow> nonce_system \<Rightarrow> bool" where
  nx_call: "ns_calls S t = Outside \<Longrightarrow> index < 2 \<Longrightarrow> \<not> next_refused r (m AND 0x7FFFFFFFFFFFFFFF) \<Longrightarrow>
    nonce_step S (S\<lparr>ns_calls := (ns_calls S)(t := Adding index r (m AND 0x7FFFFFFFFFFFFFFF))\<rparr>)"
| nx_add: "ns_calls S t = Adding index r m \<Longrightarrow> fetch_add index r (ns_nonce S) = (c, N) \<Longrightarrow>
    nonce_step S (S\<lparr>ns_nonce := N,
      ns_calls := (ns_calls S)(t := Testing \<lparr>rv_index = index, rv_gen = ns_gen S index, rv_start = c, rv_size = r, rv_mask = m\<rparr>),
      ns_drawn := (ns_drawn S)(index := (ns_drawn S index)(ns_gen S index := ns_drawn S index (ns_gen S index) + unat r))\<rparr>)"
| nx_return: "ns_calls S t = Testing v \<Longrightarrow> next_turn (rv_size v) (rv_mask v) (rv_start v) (ns_nonce S) = (Return ok, N) \<Longrightarrow>
    nonce_step S (S\<lparr>ns_nonce := N, ns_calls := (ns_calls S)(t := Outside), ns_grants := (if ok then v # ns_grants S else ns_grants S)\<rparr>)"
| nx_retry: "ns_calls S t = Testing v \<Longrightarrow> next_turn (rv_size v) (rv_mask v) (rv_start v) (ns_nonce S) = (Retry, N) \<Longrightarrow>
    nonce_step S (S\<lparr>ns_nonce := N, ns_calls := (ns_calls S)(t := Adding (rv_index v) (rv_size v) (rv_mask v))\<rparr>)"
| nx_reset: "index < 2 \<Longrightarrow>
    nonce_step S (S\<lparr>ns_nonce := nonce_reset index (ns_nonce S), ns_gen := (ns_gen S)(index := ns_gen S index + 1)\<rparr>)"
| nx_pause: "nonce_step S (S\<lparr>ns_nonce := nonce_pause b (ns_nonce S)\<rparr>)"
| nx_stop: "nonce_step S (S\<lparr>ns_nonce := nonce_stop (ns_nonce S)\<rparr>)"
| nx_touch: "nonce_step S (S\<lparr>ns_nonce := nonce_touch (ns_nonce S)\<rparr>)"
| nx_stop_backend: "nonce_step S (S\<lparr>ns_nonce := stop_backend b (ns_nonce S)\<rparr>)"
| nx_touch_backend: "nonce_step S (S\<lparr>ns_nonce := touch_backend b (ns_nonce S)\<rparr>)"

inductive nonce_reachable :: "nonce_system \<Rightarrow> bool" where
  nr_start: "nonce_reachable new_system"
| nr_step: "nonce_reachable S \<Longrightarrow> nonce_step S T \<Longrightarrow> nonce_reachable T"

definition rv_range :: "reservation \<Rightarrow> nat set" where
  "rv_range v = {unat (rv_start v) ..< unat (rv_start v) + unat (rv_size v)}"

section \<open>The invariant\<close>

text \<open>Two ranges of one generation in which the counter has not wrapped are disjoint.\<close>

definition rv_clash :: "(nat \<Rightarrow> nat \<Rightarrow> nat) \<Rightarrow> reservation \<Rightarrow> reservation \<Rightarrow> bool" where
  "rv_clash D v w \<longleftrightarrow> rv_index v = rv_index w \<and> rv_gen v = rv_gen w \<and> D (rv_index v) (rv_gen v) < 2 ^ 64
     \<and> rv_range v \<inter> rv_range w \<noteq> {}"

definition rv_drawn :: "(nat \<Rightarrow> nat) \<Rightarrow> (nat \<Rightarrow> nat \<Rightarrow> nat) \<Rightarrow> reservation \<Rightarrow> bool" where
  "rv_drawn G D v \<longleftrightarrow> rv_index v < 2 \<and> rv_gen v \<le> G (rv_index v) \<and> 0 < rv_size v \<and>
     (D (rv_index v) (rv_gen v) < 2 ^ 64 \<longrightarrow> unat (rv_start v) + unat (rv_size v) \<le> D (rv_index v) (rv_gen v))"

definition rv_fits :: "reservation \<Rightarrow> bool" where
  "rv_fits v \<longleftrightarrow> unat (rv_start v) + unat (rv_size v) \<le> Suc (unat (rv_mask v)) \<and>
     (\<forall>k. rv_mask v = mask k \<longrightarrow> unat (rv_start v) mod 2 ^ 32 + unat (rv_size v) \<le> 2 ^ 32)"

definition nonce_inv :: "nonce_system \<Rightarrow> bool" where
  "nonce_inv S \<longleftrightarrow> length (nc_nonces (ns_nonce S)) = 2 \<and>
     (\<forall>i<2. nc_nonces (ns_nonce S) ! i = of_nat (ns_drawn S i (ns_gen S i))) \<and>
     (\<forall>i g. ns_gen S i < g \<longrightarrow> ns_drawn S i g = 0) \<and>
     (\<forall>t i r m. ns_calls S t = Adding i r m \<longrightarrow> i < 2 \<and> 0 < r) \<and>
     (\<forall>t v. ns_calls S t = Testing v \<longrightarrow> rv_drawn (ns_gen S) (ns_drawn S) v) \<and>
     (\<forall>v \<in> set (ns_grants S). rv_drawn (ns_gen S) (ns_drawn S) v \<and> rv_fits v) \<and>
     (\<forall>t t' v w. ns_calls S t = Testing v \<longrightarrow> ns_calls S t' = Testing w \<longrightarrow> t \<noteq> t' \<longrightarrow> \<not> rv_clash (ns_drawn S) v w) \<and>
     (\<forall>t v. \<forall>w \<in> set (ns_grants S). ns_calls S t = Testing v \<longrightarrow> \<not> rv_clash (ns_drawn S) v w) \<and>
     sorted_wrt (\<lambda>v w. \<not> rv_clash (ns_drawn S) v w) (ns_grants S)"

lemma next_turn_nonces: "next_turn r m c S = (b, N) \<Longrightarrow> nc_nonces N = nc_nonces S"
  by (auto simp: next_turn_def nonce_pause_def Let_def split: if_splits)

lemma unat_ucast_u32: "unat (ucast (r :: u32) :: u64) = unat r"
  using unsigned_less [of r, where ?'a = nat] by (simp add: unsigned_ucast_eq take_bit_nat_eq_self)

lemma unat_pred: "0 < (r :: u32) \<Longrightarrow> unat (r - 1) = unat r - 1"
  by (simp add: unat_sub_if' word_less_nat_alt)

lemma sum_power_32:
  fixes a r :: nat
  assumes "a + r = 2 ^ K" and "0 < r" and "r < 2 ^ 32"
  shows "a mod 2 ^ 32 + r \<le> 2 ^ 32"
proof (cases "K \<le> 32")
  case True
  then have "(2 :: nat) ^ K \<le> 2 ^ 32" by (rule power_increasing) simp
  moreover have "a mod 2 ^ 32 \<le> a" by simp
  ultimately show ?thesis using assms(1) by linarith
next
  case False
  then have "(2 :: nat) ^ 32 dvd a + r" unfolding assms(1) by (intro le_imp_power_dvd) simp
  then have "(2 :: nat) ^ 32 dvd a mod 2 ^ 32 + r" by (simp add: dvd_eq_mod_eq_0 mod_simps)
  then obtain q where q: "a mod 2 ^ 32 + r = 2 ^ 32 * q" ..
  have "a mod 2 ^ 32 < 2 ^ 32" by simp
  with assms(3) q have "2 ^ 32 * q < 2 ^ 32 * (2 :: nat)" by linarith
  then have "q \<le> 1" by simp
  with q show ?thesis by simp
qed

lemma unat_mask_u64: "unat (mask k :: u64) = 2 ^ min 64 k - 1"
proof -
  have "unat (mask k :: u64) = unat (- 1 :: u64) mod 2 ^ k" using unat_and_mask [of "- 1 :: u64" k] by simp
  also have "\<dots> = mask (min 64 k)"
    unfolding unsigned_minus_1_eq_mask take_bit_eq_mod [symmetric] by (simp add: min.commute)
  finally show ?thesis by (simp add: mask_eq_exp_minus_1)
qed

lemma low_room: "unat (0xFFFFFFFF - ucast (ucast (c :: u64) :: u32) :: u64) = 2 ^ 32 - 1 - unat c mod 2 ^ 32"
proof -
  have "ucast (ucast c :: u32) = c AND mask 32" by (rule bit_word_eqI) (auto simp: bit_simps)
  then have "unat (ucast (ucast c :: u32) :: u64) = unat c mod 2 ^ 32" by (simp only: unat_and_mask)
  moreover have "unat c mod 2 ^ 32 \<le> 2 ^ 32 - 1" by (simp add: Suc_leI less_Suc_eq_le [symmetric])
  ultimately show ?thesis by (simp add: unat_sub_if')
qed

lemma next_turn_fits:
  assumes "next_turn r m c S = (Return True, N)" and "0 < r"
  shows "unat c + unat r \<le> Suc (unat m)" and "m = mask k \<Longrightarrow> unat c mod 2 ^ 32 + unat r \<le> 2 ^ 32"
proof -
  have "\<not> m < c" using assms(1) by (auto simp: next_turn_def)
  then have le: "unat c \<le> unat m" by (simp add: word_less_nat_alt)
  have r: "unat (ucast (r - 1) :: u64) = unat r - 1" "0 < unat r" using assms(2) by (simp_all add: unat_ucast_u32 unat_pred word_less_nat_alt)
  have d: "unat (m - c) = unat m - unat c" using le by (simp add: unat_sub_if')
  have r32: "unat r < 2 ^ 32" using unsigned_less [of r, where ?'a = nat] by simp
  show "unat c + unat r \<le> Suc (unat m)"
    using assms(1) le r by (auto simp: next_turn_def Let_def word_le_nat_alt word_less_nat_alt d split: if_splits)
  show "unat c mod 2 ^ 32 + unat r \<le> 2 ^ 32" if "m = mask k"
  proof (cases "m - c \<le> ucast (r - 1)")
    case True
    then have "unat m - unat c = unat r - 1"
      using assms(1) by (auto simp: next_turn_def Let_def word_le_nat_alt word_less_nat_alt d r split: if_splits)
    moreover have "unat m = 2 ^ min 64 k - 1" unfolding that by (rule unat_mask_u64)
    moreover have "(0 :: nat) < 2 ^ min 64 k" by simp
    ultimately have "unat c + unat r = 2 ^ min 64 k" using le r(2) by linarith
    from sum_power_32 [OF this r(2) r32] show ?thesis .
  next
    case False
    then have "unat r - 1 \<le> unat (0xFFFFFFFF - ucast (ucast c :: u32) :: u64)"
      using assms(1) r(1) by (auto simp: next_turn_def Let_def word_less_nat_alt split: if_splits)
    moreover have "unat c mod 2 ^ 32 < 2 ^ 32" by simp
    ultimately show ?thesis unfolding low_room using r(2) by linarith
  qed
qed

lemma granted_fits:
  "next_turn (rv_size v) (rv_mask v) (rv_start v) S = (Return True, N) \<Longrightarrow> 0 < rv_size v \<Longrightarrow> rv_fits v"
  unfolding rv_fits_def using next_turn_fits by blast

text \<open>Adding to what is drawn makes no new clash.\<close>

lemma clash_mono: "rv_clash E v w \<Longrightarrow> (\<And>i g. D i g \<le> E i g) \<Longrightarrow> rv_clash D v w"
  unfolding rv_clash_def by (meson le_less_trans)

lemma clash_sym: "rv_clash D v w \<Longrightarrow> rv_clash D w v"
  by (auto simp: rv_clash_def)

text \<open>A range just drawn starts where those before end.\<close>

lemma drawn_no_clash:
  assumes "rv_drawn G D v" and "rv_index w = i" and "rv_gen w = g" and "rv_start w = of_nat (D i g)"
    and "\<And>j h. D j h \<le> E j h"
  shows "\<not> rv_clash E v w"
proof
  assume c: "rv_clash E v w"
  then have i: "rv_index v = i" "rv_gen v = g" "E i g < 2 ^ 64" using assms(2,3) by (auto simp: rv_clash_def)
  have "D i g < 2 ^ 64" using i(3) assms(5) [of i g] by simp
  then have "unat (rv_start w) = D i g" "unat (rv_start v) + unat (rv_size v) \<le> D i g"
    using assms(1) i(1,2) by (simp_all add: assms(4) unat_of_nat take_bit_nat_eq_self rv_drawn_def)
  then show False using c by (auto simp: rv_clash_def rv_range_def)
qed

section \<open>Every step keeps the invariant\<close>

text \<open>The parts of the invariant, one by one.\<close>

lemma nonce_invI:
  assumes "length (nc_nonces (ns_nonce S)) = 2" and "\<And>i. i < 2 \<Longrightarrow> nc_nonces (ns_nonce S) ! i = of_nat (ns_drawn S i (ns_gen S i))"
    and "\<And>i g. ns_gen S i < g \<Longrightarrow> ns_drawn S i g = 0" and "\<And>t i r m. ns_calls S t = Adding i r m \<Longrightarrow> i < 2 \<and> 0 < r"
    and "\<And>t v. ns_calls S t = Testing v \<Longrightarrow> rv_drawn (ns_gen S) (ns_drawn S) v" and "\<And>v. v \<in> set (ns_grants S) \<Longrightarrow> rv_drawn (ns_gen S) (ns_drawn S) v \<and> rv_fits v"
    and "\<And>t t' v w. ns_calls S t = Testing v \<Longrightarrow> ns_calls S t' = Testing w \<Longrightarrow> t \<noteq> t' \<Longrightarrow> \<not> rv_clash (ns_drawn S) v w"
    and "\<And>t v w. ns_calls S t = Testing v \<Longrightarrow> w \<in> set (ns_grants S) \<Longrightarrow> \<not> rv_clash (ns_drawn S) v w"
    and "sorted_wrt (\<lambda>v w. \<not> rv_clash (ns_drawn S) v w) (ns_grants S)"
  shows "nonce_inv S"
  using assms unfolding nonce_inv_def by blast

lemma nonce_invD:
  assumes "nonce_inv S"
  shows "length (nc_nonces (ns_nonce S)) = 2" and "i < 2 \<Longrightarrow> nc_nonces (ns_nonce S) ! i = of_nat (ns_drawn S i (ns_gen S i))"
    and "ns_gen S i < g \<Longrightarrow> ns_drawn S i g = 0" and "ns_calls S t = Adding i r m \<Longrightarrow> i < 2 \<and> 0 < r"
    and "ns_calls S t = Testing v \<Longrightarrow> rv_drawn (ns_gen S) (ns_drawn S) v" and "v \<in> set (ns_grants S) \<Longrightarrow> rv_drawn (ns_gen S) (ns_drawn S) v \<and> rv_fits v"
    and "ns_calls S t = Testing v \<Longrightarrow> ns_calls S t' = Testing w \<Longrightarrow> t \<noteq> t' \<Longrightarrow> \<not> rv_clash (ns_drawn S) v w"
    and "ns_calls S t = Testing v \<Longrightarrow> w \<in> set (ns_grants S) \<Longrightarrow> \<not> rv_clash (ns_drawn S) v w"
    and "sorted_wrt (\<lambda>v w. \<not> rv_clash (ns_drawn S) v w) (ns_grants S)"
  using assms unfolding nonce_inv_def by blast+

lemma nonce_inv_start: "nonce_inv new_system"
  by (rule nonce_invI) (auto simp: new_system_def new_Nonce_def nth_Cons split: nat.splits)

text \<open>Steps that touch neither counters nor ranges, and the return of a thread.\<close>

lemma nonce_inv_frame:
  assumes "nonce_inv S" and "nc_nonces N = nc_nonces (ns_nonce S)"
  shows "nonce_inv (S\<lparr>ns_nonce := N\<rparr>)"
  by (rule nonce_invI) (use nonce_invD [OF assms(1)] assms(2) in \<open>auto\<close>)

lemma nonce_inv_leave:
  assumes "nonce_inv S" and "case C of Outside \<Rightarrow> True | Adding i r m \<Rightarrow> i < 2 \<and> 0 < r | Testing v \<Rightarrow> False"
  shows "nonce_inv (S\<lparr>ns_calls := (ns_calls S)(t := C)\<rparr>)"
  by (rule nonce_invI) (use nonce_invD [OF assms(1)] assms(2) in \<open>auto split: if_splits call.splits\<close>)

lemma nonce_inv_grant:
  assumes "nonce_inv S" and "ns_calls S t = Testing v" and "rv_fits v"
  shows "nonce_inv (S\<lparr>ns_calls := (ns_calls S)(t := Outside), ns_grants := v # ns_grants S\<rparr>)" (is "nonce_inv ?T")
proof (rule nonce_invI)
  note inv = nonce_invD [OF assms(1)]
  show "\<not> rv_clash (ns_drawn ?T) x y" if "ns_calls ?T t1 = Testing x" "ns_calls ?T t2 = Testing y" "t1 \<noteq> t2" for t1 t2 x y
    using that inv(7) by (simp split: if_splits)
  show "\<not> rv_clash (ns_drawn ?T) x y" if "ns_calls ?T t1 = Testing x" "y \<in> set (ns_grants ?T)" for t1 x y
    using that inv(7) [OF _ assms(2)] inv(8) by (auto split: if_splits)
  show "sorted_wrt (\<lambda>x y. \<not> rv_clash (ns_drawn ?T) x y) (ns_grants ?T)" using inv(9) inv(8) [OF assms(2)] by simp
qed (use nonce_invD [OF assms(1)] assms(2,3) in \<open>auto split: if_splits\<close>)

lemma nonce_inv_reset:
  assumes "nonce_inv S" and "index < 2"
  shows "nonce_inv (S\<lparr>ns_nonce := nonce_reset index (ns_nonce S), ns_gen := (ns_gen S)(index := ns_gen S index + 1)\<rparr>)" (is "nonce_inv ?T")
proof (rule nonce_invI)
  have mono: "rv_drawn (ns_gen S) D v \<Longrightarrow> rv_drawn (ns_gen ?T) D v" for v D by (auto simp: rv_drawn_def)
  note inv = nonce_invD [OF assms(1)]
  show "rv_drawn (ns_gen ?T) (ns_drawn ?T) v" if "ns_calls ?T t = Testing v" for t v using that inv(5) mono by simp
  show "rv_drawn (ns_gen ?T) (ns_drawn ?T) v \<and> rv_fits v" if "v \<in> set (ns_grants ?T)" for v using that inv(6) mono by simp
  show "nc_nonces (ns_nonce ?T) ! i = of_nat (ns_drawn ?T i (ns_gen ?T i))" if "i < 2" for i
    using that inv(1,2) inv(3) [of index "Suc (ns_gen S index)"] by (simp add: nonce_reset_def nth_list_update)
  show "ns_drawn ?T i g = 0" if "ns_gen ?T i < g" for i g using that inv(3) by (simp split: if_splits)
qed (use nonce_invD [OF assms(1)] in \<open>auto simp: nonce_reset_def\<close>)

lemma nonce_inv_add:
  assumes "nonce_inv S" and "ns_calls S t = Adding i r m"
    and v: "v = \<lparr>rv_index = i, rv_gen = ns_gen S i, rv_start = nc_nonces (ns_nonce S) ! i, rv_size = r, rv_mask = m\<rparr>"
  shows "nonce_inv (S\<lparr>ns_nonce := snd (fetch_add i r (ns_nonce S)), ns_calls := (ns_calls S)(t := Testing v),
      ns_drawn := (ns_drawn S)(i := (ns_drawn S i)(ns_gen S i := ns_drawn S i (ns_gen S i) + unat r))\<rparr>)" (is "nonce_inv ?T")
proof -
  note inv = nonce_invD [OF assms(1)]
  have i: "i < 2" "0 < r" using inv(4) [OF assms(2)] by simp_all
  have D: "ns_drawn S j h \<le> ns_drawn ?T j h" for j h by simp
  have clash: "rv_clash (ns_drawn ?T) x y \<Longrightarrow> rv_clash (ns_drawn S) x y" for x y by (rule clash_mono [OF _ D])
  have drawn: "rv_drawn (ns_gen S) (ns_drawn S) x \<Longrightarrow> rv_drawn (ns_gen ?T) (ns_drawn ?T) x" for x by (auto simp: rv_drawn_def)
  have start: "rv_start v = of_nat (ns_drawn S i (ns_gen S i))" using inv(2) [OF i(1)] by (simp add: v)
  have new: "\<not> rv_clash (ns_drawn ?T) x v" if "rv_drawn (ns_gen S) (ns_drawn S) x" for x
    by (rule drawn_no_clash [OF that _ _ start D]) (simp_all add: v)
  have own: "rv_drawn (ns_gen ?T) (ns_drawn ?T) v"
    using i start by (auto simp: v rv_drawn_def unat_of_nat take_bit_nat_eq_self)
  show ?thesis
  proof (rule nonce_invI)
    fix t1 t2 x y assume h: "ns_calls ?T t1 = Testing x" "ns_calls ?T t2 = Testing y" "t1 \<noteq> t2"
    show "\<not> rv_clash (ns_drawn ?T) x y"
    proof (cases "t1 = t")
      case True
      then have "x = v" "rv_drawn (ns_gen S) (ns_drawn S) y" using h inv(5) by auto
      then show ?thesis using new clash_sym by blast
    next
      case False
      show ?thesis
      proof (cases "t2 = t")
        case True
        then have "y = v" "rv_drawn (ns_gen S) (ns_drawn S) x" using h False inv(5) by auto
        then show ?thesis using new by blast
      next
        assume "t2 \<noteq> t"
        then have "\<not> rv_clash (ns_drawn S) x y" using h False inv(7) by auto
        then show ?thesis using clash by blast
      qed
    qed
  next
    fix t1 x y assume h: "ns_calls ?T t1 = Testing x" "y \<in> set (ns_grants ?T)"
    show "\<not> rv_clash (ns_drawn ?T) x y"
    proof (cases "t1 = t")
      case True
      then have "x = v" "rv_drawn (ns_gen S) (ns_drawn S) y" using h inv(6) by auto
      then show ?thesis using new clash_sym by blast
    next
      case False
      then have "\<not> rv_clash (ns_drawn S) x y" using h inv(8) by auto
      then show ?thesis using clash by blast
    qed
  next
    show "sorted_wrt (\<lambda>v w. \<not> rv_clash (ns_drawn ?T) v w) (ns_grants ?T)"
      by (rule sorted_wrt_mono_rel [of "ns_grants ?T"]) (use clash inv(9) in auto)
  next
    show "rv_drawn (ns_gen ?T) (ns_drawn ?T) x" if "ns_calls ?T t' = Testing x" for t' x
      using that inv(5) own drawn by (cases "t' = t") auto
    show "rv_drawn (ns_gen ?T) (ns_drawn ?T) x \<and> rv_fits x" if "x \<in> set (ns_grants ?T)" for x using that inv(6) drawn by simp
    show "nc_nonces (ns_nonce ?T) ! j = of_nat (ns_drawn ?T j (ns_gen ?T j))" if "j < 2" for j
      using that i inv(1,2) by (simp add: fetch_add_def Let_def nth_list_update)
    show "ns_drawn ?T j g = 0" if "ns_gen ?T j < g" for j g using that inv(3) by auto
    show "j < 2 \<and> 0 < q" if "ns_calls ?T t' = Adding j q m'" for t' j q m' using that inv(4) by (auto split: if_splits)
    show "length (nc_nonces (ns_nonce ?T)) = 2" using inv(1) by (simp add: fetch_add_def Let_def)
  qed
qed

lemma nonce_step_inv: "nonce_step S T \<Longrightarrow> nonce_inv S \<Longrightarrow> nonce_inv T"
proof (induction rule: nonce_step.induct)
  case (nx_call S t index r m)
  then show ?case by (intro nonce_inv_leave) (auto simp: next_refused_def word_greater_zero_iff)
next
  case (nx_add S t index r m c N)
  have "c = nc_nonces (ns_nonce S) ! index" "N = snd (fetch_add index r (ns_nonce S))"
    using nx_add(2) by (auto simp: fetch_add_def Let_def)
  then show ?case by (simp only: nonce_inv_add [OF nx_add(3,1) refl])
next
  case (nx_return S t v ok N)
  have f: "nonce_inv (S\<lparr>ns_nonce := N\<rparr>)" by (rule nonce_inv_frame [OF nx_return(3) next_turn_nonces [OF nx_return(2)]])
  show ?case
  proof (cases ok)
    case True
    have "0 < rv_size v" using nonce_invD(5) [OF nx_return(3,1)] by (simp add: rv_drawn_def)
    then have "rv_fits v" using granted_fits [of v] nx_return(2) True by simp
    with nonce_inv_grant [OF f, of t v] nx_return(1) True show ?thesis by simp
  qed (use nonce_inv_leave [OF f, of Outside t] in simp)
next
  case (nx_retry S t v N)
  have f: "nonce_inv (S\<lparr>ns_nonce := N\<rparr>)" by (rule nonce_inv_frame [OF nx_retry(3) next_turn_nonces [OF nx_retry(2)]])
  have "rv_drawn (ns_gen S) (ns_drawn S) v" by (rule nonce_invD(5) [OF nx_retry(3,1)])
  with nonce_inv_leave [OF f, of "Adding (rv_index v) (rv_size v) (rv_mask v)" t] show ?case by (simp add: rv_drawn_def)
next
  case (nx_reset index S)
  then show ?case by (intro nonce_inv_reset)
qed (auto intro!: nonce_inv_frame simp: nonce_pause_def nonce_stop_def nonce_touch_def stop_backend_def touch_backend_def)

lemma nonce_reachable_inv: "nonce_reachable S \<Longrightarrow> nonce_inv S"
  by (induction rule: nonce_reachable.induct) (auto intro: nonce_inv_start nonce_step_inv)

section \<open>One thread\<close>

text \<open>Without other threads in between, \<open>next\<close> returns from every state.\<close>

lemma next_loop_returns:
  assumes "i < length (nc_nonces S)" and "nc_nonces S ! i = c + ucast r" and "0 < r" and "unat m < 2 ^ 63"
  shows "next_loop i r m c S \<noteq> None"
  using assms(1,2)
proof (induction "2 ^ 63 - unat c" arbitrary: c S rule: less_induct)
  case less
  show ?case
  proof (cases "next_turn r m c S")
    case (Pair b N)
    show ?thesis
    proof (cases b)
      case Retry
      then have "\<not> m < c" and N: "N = S" using Pair by (auto simp: next_turn_def Let_def split: if_splits)
      then have lt: "unat c < 2 ^ 63" using assms(4) by (simp add: word_less_nat_alt)
      have r: "unat (ucast r :: u64) = unat r" "0 < unat r" "unat r < 2 ^ 32"
        using unsigned_less [of r, where ?'a = nat] assms(3) by (simp_all add: unat_ucast_u32 word_less_nat_alt)
      have "unat (c + ucast r) = unat c + unat r"
        using lt r by (subst unat_plus_simple [THEN iffD1]) (simp_all add: no_olen_add_nat)
      with lt r have *: "2 ^ 63 - unat (c + ucast r) < 2 ^ 63 - unat c" by simp
      have "next_loop i r m (c + ucast r) (S\<lparr>nc_nonces := (nc_nonces S)[i := c + ucast r + ucast r]\<rparr>) \<noteq> None"
        by (rule less.hyps [OF *]) (use less.prems in simp_all)
      then show ?thesis
        by (subst next_loop.simps) (simp add: Pair Retry N fetch_add_def Let_def less.prems)
    qed (simp add: next_loop.simps [of i r m c S] Pair)
  qed
qed

lemma Nonce_next_returns:
  assumes "index < length (nc_nonces S)"
  shows "Nonce_next index w r m S \<noteq> None"
proof (cases "next_refused r (m AND 0x7FFFFFFFFFFFFFFF)")
  case False
  let ?m = "m AND 0x7FFFFFFFFFFFFFFF"
  have "0x7FFFFFFFFFFFFFFF = (mask 63 :: u64)" by (simp add: mask_eq_exp_minus_1)
  then have m: "unat ?m < 2 ^ 63" using unat_and_mask [of m 63] by simp
  have "0 < r" using False by (simp add: next_refused_def word_greater_zero_iff)
  from next_loop_returns [OF _ _ this m, of index "snd (fetch_add index r S)" "nc_nonces S ! index"] assms
  have "next_loop index r ?m (nc_nonces S ! index) (snd (fetch_add index r S)) \<noteq> None" by (simp add: fetch_add_def Let_def)
  then show ?thesis using False by (auto simp: Nonce_next_def fetch_add_def Let_def split: option.splits)
qed (simp add: Nonce_next_def Let_def)

lemma next_loop_length:
  assumes "next_loop i r m c S = Some p"
  shows "length (nc_nonces (snd p)) = length (nc_nonces S)"
proof (rule next_loop.raw_induct [where P = "\<lambda>i r m c S p. length (nc_nonces (snd p)) = length (nc_nonces S)", OF _ assms], goal_cases)
  case (1 f i r m c S p)
  obtain b N where b: "next_turn r m c S = (b, N)" by fastforce
  with 1 next_turn_nonces [OF b] show ?case
    by (cases b) (auto simp: fetch_add_def Let_def split: if_splits)
qed

lemma Nonce_next_length:
  "Nonce_next i ws r m S = Some (ok, vs, T) \<Longrightarrow> length (nc_nonces T) = length (nc_nonces S)"
  by (auto simp: Nonce_next_def Let_def fetch_add_def split: if_splits option.splits dest!: next_loop_length)

lemma next_turn_sequence: "next_turn r m c S = (x, N) \<Longrightarrow> nc_sequence N = nc_sequence S"
  by (auto simp: next_turn_def Let_def nonce_pause_def split: if_splits)

lemma next_loop_sequence:
  assumes "next_loop i r m c S = Some p"
  shows "nc_sequence (snd p) = nc_sequence S"
proof (rule next_loop.raw_induct [where P = "\<lambda>i r m c S p. nc_sequence (snd p) = nc_sequence S", OF _ assms], goal_cases)
  case (1 f i r m c S p)
  obtain b N where b: "next_turn r m c S = (b, N)" by fastforce
  with 1 next_turn_sequence [OF b] show ?case
    by (cases b) (auto simp: fetch_add_def Let_def split: if_splits)
qed

lemma Nonce_next_sequence:
  "Nonce_next i ws r m S = Some (ok, vs, T) \<Longrightarrow> nc_sequence T = nc_sequence S"
  by (auto simp: Nonce_next_def Let_def fetch_add_def split: if_splits option.splits dest!: next_loop_sequence)

text \<open>Ranges of a power of two, over a space that is one: every call but those after the last gets the next range.\<close>

lemma power_blocks:
  fixes n :: nat
  assumes "j \<le> k"
  shows "n * 2 ^ j < 2 ^ k \<longleftrightarrow> n < 2 ^ (k - j)" and "n < 2 ^ (k - j) \<Longrightarrow> (n + 1) * 2 ^ j \<le> 2 ^ k"
    and "(n + 1) * 2 ^ j = 2 ^ k \<longleftrightarrow> n + 1 = 2 ^ (k - j)"
proof -
  have k: "(2 :: nat) ^ k = 2 ^ (k - j) * 2 ^ j" using assms by (simp add: power_add [symmetric])
  show "n * 2 ^ j < 2 ^ k \<longleftrightarrow> n < 2 ^ (k - j)" unfolding k by simp
  show "(n + 1) * 2 ^ j \<le> 2 ^ k" if "n < 2 ^ (k - j)" unfolding k using that by (intro mult_le_mono1) simp
  show "(n + 1) * 2 ^ j = 2 ^ k \<longleftrightarrow> n + 1 = 2 ^ (k - j)" unfolding k by (subst mult_cancel2) simp
qed

lemma next_turn_aligned:
  assumes "j \<le> k" and "j < 32" and "k \<le> 63" and "n * 2 ^ j < 2 ^ 64"
  shows "next_turn (2 ^ j) (mask k) (of_nat (n * 2 ^ j)) S =
    (if n < 2 ^ (k - j) then (Return True, if n + 1 = 2 ^ (k - j) then nonce_pause True S else S) else (Return False, S))"
proof -
  have m: "unat (mask k :: u64) = 2 ^ k - 1" using assms(3) unat_mask_u64 [of k] by (simp add: min_absorb2)
  have c: "unat (of_nat (n * 2 ^ j) :: u64) = n * 2 ^ j"
    using assms(4) by (simp add: unat_of_nat take_bit_nat_eq_self del: of_nat_mult of_nat_power)
  have j32: "(2 :: nat) ^ j < 2 ^ 32" using assms(2) by (intro power_strict_increasing) simp_all
  have r: "unat (ucast (2 ^ j - 1 :: u32) :: u64) = 2 ^ j - 1"
  proof -
    have "unat (2 ^ j :: u32) = 2 ^ j" using j32 unat_of_nat [of "2 ^ j", where ?'a = 32] by (simp add: take_bit_nat_eq_self)
    then show ?thesis unfolding unat_ucast_u32 by (subst unat_pred) (simp_all add: word_less_nat_alt)
  qed
  let ?c = "of_nat (n * 2 ^ j) :: u64"
  show ?thesis
  proof (cases "n < 2 ^ (k - j)")
    case False
    then have "2 ^ k \<le> n * 2 ^ j" using power_blocks(1) [OF assms(1), of n] by linarith
    moreover have "(0 :: nat) < 2 ^ k" by simp
    ultimately have "mask k < ?c" unfolding word_less_nat_alt m c by linarith
    with False show ?thesis by (simp add: next_turn_def)
  next
    case True
    have "(n + 1) * 2 ^ j \<le> 2 ^ k" by (rule power_blocks(2) [OF assms(1) True])
    then have le: "n * 2 ^ j + 2 ^ j \<le> 2 ^ k" by simp
    have pos: "(0 :: nat) < 2 ^ j" by simp
    have "\<not> mask k < ?c" unfolding word_less_nat_alt m c using le pos by linarith
    moreover have d: "unat (mask k - ?c) = 2 ^ k - 1 - n * 2 ^ j"
      using \<open>\<not> mask k < ?c\<close> m c by (simp add: unat_sub_if' word_less_nat_alt not_less)
    have "\<not> mask k - ?c < ucast (2 ^ j - 1 :: u32)" unfolding word_less_nat_alt d r using le by linarith
    moreover have "mask k - ?c \<le> ucast (2 ^ j - 1 :: u32) \<longleftrightarrow> n + 1 = 2 ^ (k - j)"
    proof -
      have "mask k - ?c \<le> ucast (2 ^ j - 1 :: u32) \<longleftrightarrow> (n + 1) * 2 ^ j = 2 ^ k"
        unfolding word_le_nat_alt d r add_mult_distrib using le pos by linarith
      then show ?thesis by (simp only: power_blocks(3) [OF assms(1)])
    qed
    moreover have "\<not> 0xFFFFFFFF - ucast (ucast ?c :: u32) < (ucast (2 ^ j - 1 :: u32) :: u64)"
    proof -
      have "(2 :: nat) ^ 32 = 2 ^ (32 - j) * 2 ^ j" using assms(2) by (simp add: power_add [symmetric])
      then have "n * 2 ^ j mod 2 ^ 32 = n mod 2 ^ (32 - j) * 2 ^ j" by (simp only: mult_mod_left)
      moreover have "(n mod 2 ^ (32 - j) + 1) * 2 ^ j \<le> (2 :: nat) ^ 32"
        using assms(2) by (intro power_blocks(2)) simp_all
      ultimately have "n * 2 ^ j mod 2 ^ 32 + 2 ^ j \<le> 2 ^ 32" by simp
      then show ?thesis unfolding word_less_nat_alt low_room c r by simp
    qed
    ultimately show ?thesis using True by (simp add: next_turn_def Let_def)
  qed
qed

lemma mask_63: "mask k AND 0x7FFFFFFFFFFFFFFF = (mask (min 63 k) :: u64)"
proof -
  have "0x7FFFFFFFFFFFFFFF = (mask 63 :: u64)" by (simp add: mask_eq_exp_minus_1)
  then show ?thesis by (simp only: take_bit_eq_mask [symmetric] take_bit_of_mask)
qed

lemma next_not_refused: "j \<le> k \<Longrightarrow> j < 32 \<Longrightarrow> k \<le> 63 \<Longrightarrow> \<not> next_refused (2 ^ j) (mask k)"
  using next_turn_aligned [of j k 0 new_Nonce]
  by (auto simp: next_refused_def next_turn_def Let_def power_eq_0_iff split: if_splits)

lemma Nonce_next_blocks:
  assumes "index < length (nc_nonces S)" and "nc_nonces S ! index = of_nat (n * 2 ^ j)"
    and "j \<le> k" and "j < 32" and "k \<le> 63" and "n * 2 ^ j < 2 ^ 64"
  shows "Nonce_next index w (2 ^ j) (mask k) S =
    (let S1 = S\<lparr>nc_nonces := (nc_nonces S)[index := of_nat ((n + 1) * 2 ^ j)]\<rparr>
     in Some (if n < 2 ^ (k - j)
       then (True, write_nonce (mask k) (of_nat (n * 2 ^ j)) w, if n + 1 = 2 ^ (k - j) then nonce_pause True S1 else S1)
       else (False, w, S1)))"
proof -
  define q where "q = (of_nat ((n + 1) * 2 ^ j) :: u64)"
  have "ucast (2 ^ j :: u32) = (2 ^ j :: u64)" using assms(4) by (rule_tac bit_word_eqI) (auto simp: bit_simps)
  then have f: "fetch_add index (2 ^ j) S = (of_nat (n * 2 ^ j), S\<lparr>nc_nonces := (nc_nonces S)[index := q]\<rparr>)"
    using assms(2) by (simp add: fetch_add_def Let_def q_def algebra_simps)
  have m: "mask k AND 0x7FFFFFFFFFFFFFFF = (mask k :: u64)" using assms(5) by (simp add: mask_63 min_absorb2)
  show ?thesis
    unfolding Nonce_next_def m Let_def if_not_P [OF next_not_refused [OF assms(3,4,5)]] f prod.case q_def [symmetric]
    by (subst next_loop.simps) (simp add: Let_def next_turn_aligned [OF assms(3,4,5,6)] del: of_nat_mult of_nat_add of_nat_power)
qed

text \<open>What is written: the bits above the space stay.\<close>

lemma write_nonce_small:
  assumes "k \<le> 32" and "unat c < 2 ^ k"
  shows "\<exists>x. write_nonce (mask k) c [w] = [x] \<and> unat x = unat w div 2 ^ k * 2 ^ k + unat c"
proof -
  let ?x = "ucast ((ucast w AND NOT (mask k)) OR c) :: u32"
  have "(2 :: nat) ^ k \<le> 2 ^ 32" using assms(1) by (intro power_increasing) simp_all
  then have "\<not> mask k > (0xFFFFFFFF :: u64)" using assms(1) unat_mask_u64 [of k] by (simp add: word_less_nat_alt min_absorb2)
  then have "write_nonce (mask k) c [w] = [?x]" by (simp add: write_nonce_def Let_def)
  moreover have "unat ?x = unat w div 2 ^ k * 2 ^ k + unat c"
  proof -
    have c: "c = c AND mask k"
      unfolding word_unat_eq_iff unat_and_mask using assms(2) by simp
    have cb: "bit c i \<Longrightarrow> i < k" for i by (subst (asm) c) (simp add: bit_simps)
    have "?x = push_bit k (drop_bit k w) OR ucast c"
      by (rule bit_word_eqI) (auto simp: bit_simps dest!: cb)
    also have "\<dots> = push_bit k (drop_bit k w) + ucast c"
      by (rule disjunctive_add [symmetric]) (auto simp: bit_simps dest!: cb)
    finally have x: "?x = push_bit k (drop_bit k w) + ucast c" .
    have cu: "unat (ucast c :: u32) = unat c"
      using assms(2) \<open>(2 :: nat) ^ k \<le> 2 ^ 32\<close> by (simp add: unsigned_ucast_eq unsigned_take_bit_eq take_bit_nat_eq_self)
    have "push_bit k (drop_bit k w) = of_nat (unat w div 2 ^ k * 2 ^ k)"
      unfolding push_bit_eq_mult of_nat_mult unat_drop_bit [symmetric] by simp
    moreover have "ucast c = (of_nat (unat c) :: u32)" unfolding cu [symmetric] by simp
    ultimately have v: "?x = of_nat (unat w div 2 ^ k * 2 ^ k + unat c)" unfolding x by (simp only: of_nat_add)
    have "(2 :: nat) ^ 32 = 2 ^ (32 - k) * 2 ^ k" using assms(1) by (simp add: power_add [symmetric])
    then have "unat w div 2 ^ k < 2 ^ (32 - k)"
      using unsigned_less [of w, where ?'a = nat] by (simp add: div_less_iff_less_mult)
    from power_blocks(2) [OF assms(1) this] assms(2) have "unat w div 2 ^ k * 2 ^ k + unat c < 2 ^ 32" by simp
    then show ?thesis unfolding v by (simp add: unat_of_nat take_bit_nat_eq_self del: of_nat_mult of_nat_add of_nat_power)
  qed
  ultimately show ?thesis by blast
qed

lemma Nonce_next_in_order:
  assumes "index < 2" and "length (nc_nonces S) = 2" and "nc_nonces S ! index = of_nat (n * 2 ^ j)"
    and "j \<le> k" and "k \<le> 32" and "j < 32" and "n * 2 ^ j < 2 ^ 64"
  shows "\<exists>ok x T. Nonce_next index [w] (2 ^ j) (mask k) S = Some (ok, [x], T) \<and>
    (ok \<longleftrightarrow> n < 2 ^ (k - j)) \<and> (ok \<longrightarrow> unat x = unat w div 2 ^ k * 2 ^ k + n * 2 ^ j) \<and> (\<not> ok \<longrightarrow> x = w) \<and>
    nc_nonces T ! index = of_nat ((n + 1) * 2 ^ j) \<and> (nc_paused T \<longleftrightarrow> nc_paused S \<or> n + 1 = 2 ^ (k - j))"
proof -
  have *: "index < length (nc_nonces S)" "k \<le> 63" using assms(1,2,5) by simp_all
  note blocks = Nonce_next_blocks [OF *(1) assms(3,4,6) *(2) assms(7), of "[w]"]
  show ?thesis
  proof (cases "n < 2 ^ (k - j)")
    case True
    have "unat (of_nat (n * 2 ^ j) :: u64) = n * 2 ^ j"
      using assms(7) by (simp add: unat_of_nat take_bit_nat_eq_self del: of_nat_mult of_nat_power)
    moreover have "n * 2 ^ j < 2 ^ k" using power_blocks(1) [OF assms(4)] True by simp
    ultimately obtain x where "write_nonce (mask k) (of_nat (n * 2 ^ j)) [w] = [x]" "unat x = unat w div 2 ^ k * 2 ^ k + n * 2 ^ j"
      using write_nonce_small [OF assms(5), of "of_nat (n * 2 ^ j)" w] by metis
    then show ?thesis using True *(1)
      by (intro exI [of _ True] exI [of _ x]) (simp add: blocks Let_def nonce_pause_def del: of_nat_mult of_nat_add of_nat_power)
  qed (use *(1) in \<open>auto simp: blocks Let_def simp del: of_nat_mult of_nat_add of_nat_power\<close>)
qed

section \<open>The properties\<close>

text \<open>C19: However the calls of any number of threads interleave, also inside \<open>next\<close> and with resets, pauses and stops, the
  ranges granted between two resets of a counter are disjoint, as long as the 64-bit counter has not wrapped between them;
  every range lies below the mask, and when the mask is one of low bits no range carries out of the low 32 bits.\<close>

theorem nonce_ranges_disjoint:
  assumes "nonce_reachable S" and "ns_drawn S i g < 2 ^ 64"
  shows "sorted_wrt (\<lambda>v w. rv_range v \<inter> rv_range w = {}) (filter (\<lambda>v. rv_index v = i \<and> rv_gen v = g) (ns_grants S)) \<and>
    (\<forall>v \<in> set (ns_grants S). rv_range v \<subseteq> {0..unat (rv_mask v)} \<and>
       (\<forall>k. rv_mask v = mask k \<longrightarrow> unat (rv_start v) mod 2 ^ 32 + unat (rv_size v) \<le> 2 ^ 32))"
proof
  note inv = nonce_invD [OF nonce_reachable_inv [OF assms(1)]]
  have "sorted_wrt (\<lambda>v w. \<not> rv_clash (ns_drawn S) v w) (filter (\<lambda>v. rv_index v = i \<and> rv_gen v = g) (ns_grants S))"
    by (rule sorted_wrt_filter [OF inv(9)])
  then show "sorted_wrt (\<lambda>v w. rv_range v \<inter> rv_range w = {}) (filter (\<lambda>v. rv_index v = i \<and> rv_gen v = g) (ns_grants S))"
    by (rule sorted_wrt_mono_rel [rotated]) (use assms(2) in \<open>auto simp: rv_clash_def\<close>)
  show "\<forall>v \<in> set (ns_grants S). rv_range v \<subseteq> {0..unat (rv_mask v)} \<and>
       (\<forall>k. rv_mask v = mask k \<longrightarrow> unat (rv_start v) mod 2 ^ 32 + unat (rv_size v) \<le> 2 ^ 32)"
  proof
    fix v assume "v \<in> set (ns_grants S)"
    then have "rv_fits v" using inv(6) by simp
    then show "rv_range v \<subseteq> {0..unat (rv_mask v)} \<and>
       (\<forall>k. rv_mask v = mask k \<longrightarrow> unat (rv_start v) mod 2 ^ 32 + unat (rv_size v) \<le> 2 ^ 32)"
      unfolding rv_fits_def rv_range_def by auto
  qed
qed

text \<open>Two threads that are inside \<open>next\<close> together: the one that adds second returns first.\<close>

definition draw :: "u64 \<Rightarrow> reservation" where
  "draw c = \<lparr>rv_index = 0, rv_gen = 0, rv_start = c, rv_size = 4096, rv_mask = 0xFFFFFFFF\<rparr>"

theorem nonce_ranges_disjoint_witness:
  "\<exists>S. nonce_reachable S \<and> ns_grants S = [draw 0, draw 4096] \<and> sorted_wrt (\<lambda>v w. rv_range v \<inter> rv_range w = {}) [draw 0, draw 4096]"
proof -
  let ?A = "Adding 0 4096 0xFFFFFFFF"
  let ?f = "\<lambda>a b. (\<lambda>t. Outside)(0 := a, 1 := b)"
  let ?N = "\<lambda>c. new_Nonce\<lparr>nc_nonces := [c, 0]\<rparr>"
  let ?D = "\<lambda>n. (\<lambda>i g. 0)(0 := (\<lambda>g. 0)(0 := n))"
  let ?S = "\<lambda>a b c n gs. \<lparr>ns_nonce = ?N c, ns_calls = ?f a b, ns_grants = gs, ns_gen = \<lambda>i. 0, ns_drawn = ?D n\<rparr>"
  have "new_system = ?S Outside Outside 0 0 []" by (simp add: new_system_def new_Nonce_def fun_eq_iff)
  with nr_start have "nonce_reachable (?S Outside Outside 0 0 [])" by (simp only:)
  from nr_step [OF this nx_call [of _ 0 0 4096 "0xFFFFFFFF"]] have "nonce_reachable (?S ?A Outside 0 0 [])"
    by (simp add: next_refused_def fun_upd_twist)
  from nr_step [OF this nx_call [of _ 1 0 4096 "0xFFFFFFFF"]] have "nonce_reachable (?S ?A ?A 0 0 [])"
    by (simp add: next_refused_def)
  from nr_step [OF this nx_add [of _ 1 0 4096 "0xFFFFFFFF" 0 "?N 4096"]] have "nonce_reachable (?S ?A (Testing (draw 0)) 4096 4096 [])"
    by (simp add: fetch_add_def draw_def)
  from nr_step [OF this nx_add [of _ 0 0 4096 "0xFFFFFFFF" 4096 "?N 8192"]]
  have "nonce_reachable (?S (Testing (draw 4096)) (Testing (draw 0)) 8192 8192 [])"
    by (simp add: fetch_add_def draw_def fun_upd_twist)
  from nr_step [OF this nx_return [of _ 0 "draw 4096" True "?N 8192"]]
  have "nonce_reachable (?S Outside (Testing (draw 0)) 8192 8192 [draw 4096])"
    by (simp add: next_turn_def draw_def fun_upd_twist)
  from nr_step [OF this nx_return [of _ 1 "draw 0" True "?N 8192"]]
  have "nonce_reachable (?S Outside Outside 8192 8192 [draw 0, draw 4096])" by (simp add: next_turn_def draw_def)
  moreover from nonce_ranges_disjoint [OF this, of 0 0]
  have "sorted_wrt (\<lambda>v w. rv_range v \<inter> rv_range w = {}) [draw 0, draw 4096]" by (simp add: draw_def)
  ultimately show ?thesis by (intro exI conjI) (assumption | simp)+
qed

text \<open>C20: One thread that takes ranges of \<open>2 ^ j\<close> nonces out of a space of \<open>2 ^ k\<close> gets each range once, in order: \<open>next\<close> always
  returns, the range after \<open>n\<close> ranges is the next one while there is one, the last one pauses the miner, and after it
  \<open>next\<close> refuses; a granted nonce keeps the bits above the space.\<close>

theorem nonce_space_in_order:
  assumes "index < 2" and "length (nc_nonces S) = 2" and "nc_nonces S ! index = of_nat (n * 2 ^ j)"
    and "j \<le> k" and "k \<le> 32" and "j < 32" and "n * 2 ^ j < 2 ^ 64"
  shows "\<exists>ok x T. Nonce_next index [w] (2 ^ j) (mask k) S = Some (ok, [x], T) \<and>
    (ok \<longleftrightarrow> n < 2 ^ (k - j)) \<and> (ok \<longrightarrow> unat x = unat w div 2 ^ k * 2 ^ k + n * 2 ^ j) \<and> (\<not> ok \<longrightarrow> x = w) \<and>
    nc_nonces T ! index = of_nat ((n + 1) * 2 ^ j) \<and> (nc_paused T \<longleftrightarrow> nc_paused S \<or> n + 1 = 2 ^ (k - j))"
  by (rule Nonce_next_in_order [OF assms])

text \<open>The last range of a space of 24 bits: the upper byte stays.\<close>

theorem nonce_space_in_order_witness:
  "\<exists>x T. Nonce_next 0 [0xAB000000] 4096 0xFFFFFF (new_Nonce\<lparr>nc_nonces := [0xFFF000, 0]\<rparr>) = Some (True, [x], T) \<and>
     unat x = 0xABFFF000 \<and> nc_paused T"
  using nonce_space_in_order [of 0 "new_Nonce\<lparr>nc_nonces := [0xFFF000, 0]\<rparr>" 4095 12 24 "0xAB000000"]
  by (auto simp: new_Nonce_def mask_eq_exp_minus_1)

end
