(* ===== verification/Jobs.thy ===== *)
theory Jobs
  imports Endian Cvt
begin

text \<open>
  The jobs a pool sends (\<open>base/net/stratum/Job.h\<close>, \<open>Job.cpp\<close>): the blob to hash, where its nonce lies and which bits of it
  may change, and the target a share must meet. A \<open>String\<close> that holds no text is \<open>None\<close>.
\<close>

section \<open>Algorithms\<close>

datatype Id = INVALID | CN_0 | CN_1 | CN_2 | CN_R | CN_FAST | CN_HALF | CN_XAO | CN_RTO | CN_RWZ | CN_ZLS | CN_DOUBLE
  | CN_LITE_0 | CN_LITE_1 | CN_HEAVY_0 | CN_HEAVY_TUBE | CN_HEAVY_XHV | CN_PICO_0 | CN_PICO_TLO | CN_CCX
  | RX_0 | RX_WOW | RX_ARQ | RX_SFX | RX_KEVA | RX_XLA | AR2_CHUKWA | AR2_CHUKWA_V2 | AR2_WRKZ | ASTROBWT_DERO | KAWPOW_RVN

datatype Family = UNKNOWN | CN | CN_LITE | CN_HEAVY | CN_PICO | RANDOM_X | ARGON2 | ASTROBWT | KAWPOW

text \<open>With every algorithm compiled in.\<close>

definition family :: "Id \<Rightarrow> Family" where
  "family i =
    (if i \<in> {CN_0, CN_1, CN_2, CN_R, CN_FAST, CN_HALF, CN_XAO, CN_RTO, CN_RWZ, CN_ZLS, CN_DOUBLE, CN_CCX} then CN
     else if i \<in> {CN_LITE_0, CN_LITE_1} then CN_LITE
     else if i \<in> {CN_HEAVY_0, CN_HEAVY_TUBE, CN_HEAVY_XHV} then CN_HEAVY
     else if i \<in> {CN_PICO_0, CN_PICO_TLO} then CN_PICO
     else if i \<in> {RX_0, RX_WOW, RX_ARQ, RX_SFX, RX_KEVA, RX_XLA} then RANDOM_X
     else if i \<in> {AR2_CHUKWA, AR2_CHUKWA_V2, AR2_WRKZ} then ARGON2
     else if i = ASTROBWT_DERO then ASTROBWT
     else if i = KAWPOW_RVN then KAWPOW
     else UNKNOWN)"

section \<open>The job\<close>

definition kMaxBlobSize :: nat where "kMaxBlobSize = 408"

definition kMaxSeedSize :: nat where "kMaxSeedSize = 32"

record Job =
  jb_algorithm :: Id
  jb_nicehash :: bool
  jb_seed :: bytes
  jb_size :: nat
  jb_clientId :: "bytes option"
  jb_extraNonce :: "bytes option"
  jb_id :: "bytes option"
  jb_poolWallet :: "bytes option"
  jb_backend :: u32
  jb_diff :: u64
  jb_height :: u64
  jb_target :: u64
  jb_blob :: bytes
  jb_index :: nat

definition new_Job :: "bool \<Rightarrow> Id \<Rightarrow> bytes option \<Rightarrow> Job" where
  "new_Job nicehash algorithm clientId =
    \<lparr>jb_algorithm = algorithm, jb_nicehash = nicehash, jb_seed = [], jb_size = 0, jb_clientId = clientId, jb_extraNonce = None,
     jb_id = None, jb_poolWallet = None, jb_backend = 0, jb_diff = 0, jb_height = 0, jb_target = 0,
     jb_blob = replicate kMaxBlobSize 0, jb_index = 0\<rparr>"

definition job_isEqual :: "Job \<Rightarrow> Job \<Rightarrow> bool" where
  "job_isEqual J other \<longleftrightarrow> jb_id J = jb_id other \<and> jb_clientId J = jb_clientId other \<and> jb_blob J = jb_blob other"

definition nonceOffset :: "Job \<Rightarrow> nat" where
  "nonceOffset J = (if family (jb_algorithm J) = KAWPOW then 32 else 39)"

definition nonceSize :: "Job \<Rightarrow> nat" where
  "nonceSize J = (if family (jb_algorithm J) = KAWPOW then 8 else 4)"

definition job_nonce :: "Job \<Rightarrow> u32" where
  "job_nonce J = load32 (sub (nonceOffset J) 4 (jb_blob J))"

text \<open>The shift by four bits per character of the extra nonce is undefined from 64 on.\<close>

definition nonceMask :: "Job \<Rightarrow> u64 option" where
  "nonceMask J =
    (if jb_nicehash J then Some 0xFFFFFF
     else if nonceSize J = 8 then
       let n = (case jb_extraNonce J of None \<Rightarrow> 0 | Some s \<Rightarrow> length s) in if n * 4 < 64 then Some (drop_bit (n * 4) (- 1)) else None
     else Some 0xFFFFFFFF)"

definition job_isValid :: "Job \<Rightarrow> bool" where
  "job_isValid J \<longleftrightarrow> (0 < jb_size J \<and> 0 < jb_diff J) \<or> (case jb_poolWallet J of None \<Rightarrow> False | Some s \<Rightarrow> s \<noteq> [])"

definition toDiff :: "u64 \<Rightarrow> u64" where
  "toDiff target = (if target \<noteq> 0 then 0xFFFFFFFFFFFFFFFF div target else 0)"

definition setBlob :: "bytes option \<Rightarrow> Job \<Rightarrow> bool \<times> Job" where
  "setBlob blob J =
    (case blob of None \<Rightarrow> (False, J) | Some text \<Rightarrow>
     let J = J\<lparr>jb_size := length text\<rparr>
     in if jb_size J mod 2 \<noteq> 0 then (False, J)
     else let J = J\<lparr>jb_size := jb_size J div 2\<rparr>; minSize = nonceOffset J + nonceSize J
     in if jb_size J < minSize \<or> jb_size J \<ge> kMaxBlobSize then (False, J)
     else let (ok, bin) = fromHex_array (jb_blob J) text; J = J\<lparr>jb_blob := bin\<rparr>
     in if \<not> ok then (False, J)
     else (True, if job_nonce J \<noteq> 0 \<and> \<not> jb_nicehash J then J\<lparr>jb_nicehash := True\<rparr> else J))"

definition setSeedHash :: "bytes option \<Rightarrow> Job \<Rightarrow> (bool \<times> Job) option" where
  "setSeedHash hash J =
    (case hash of None \<Rightarrow> Some (False, J) | Some text \<Rightarrow>
     if length text \<noteq> kMaxSeedSize * 2 then Some (False, J)
     else case fromHex text of None \<Rightarrow> None | Some seed \<Rightarrow> Some (seed \<noteq> [], J\<lparr>jb_seed := seed\<rparr>))"

text \<open>A division by zero is undefined.\<close>

definition setTarget :: "bytes option \<Rightarrow> Job \<Rightarrow> (bool \<times> Job) option" where
  "setTarget target J =
    (case target of None \<Rightarrow> Some (False, J) | Some text \<Rightarrow>
     case fromHex text of None \<Rightarrow> None | Some raw \<Rightarrow>
     let size = length raw
     in if size = 4 then
          let v = ucast (load32 raw)
          in if v = 0 then None
          else let J = J\<lparr>jb_target := 0xFFFFFFFFFFFFFFFF div (0xFFFFFFFF div v)\<rparr>
          in Some (True, J\<lparr>jb_diff := toDiff (jb_target J)\<rparr>)
        else if size = 8 then
          let J = J\<lparr>jb_target := load64 raw\<rparr> in Some (True, J\<lparr>jb_diff := toDiff (jb_target J)\<rparr>)
        else Some (False, J))"

definition setDiff :: "u64 \<Rightarrow> Job \<Rightarrow> Job" where
  "setDiff diff J = J\<lparr>jb_diff := diff, jb_target := toDiff diff\<rparr>"

section \<open>Blobs\<close>

lemma nonce_place_size [simp]:
  "nonceOffset (J\<lparr>jb_size := n\<rparr>) = nonceOffset J" "nonceSize (J\<lparr>jb_size := n\<rparr>) = nonceSize J"
  "nonceOffset (J\<lparr>jb_blob := b\<rparr>) = nonceOffset J" "nonceSize (J\<lparr>jb_blob := b\<rparr>) = nonceSize J"
  by (simp_all add: nonceOffset_def nonceSize_def)

lemma setBlob_cases:
  assumes "length (jb_blob J) = kMaxBlobSize"
  shows "setBlob (Some text) J =
    (case hex_value text of
       Some bs \<Rightarrow> (if nonceOffset J + nonceSize J \<le> length bs \<and> length bs < kMaxBlobSize
         then let J' = J\<lparr>jb_size := length bs, jb_blob := blit (jb_blob J) 0 bs\<rparr>
              in (True, J'\<lparr>jb_nicehash := jb_nicehash J \<or> job_nonce J' \<noteq> 0\<rparr>)
         else (False, J\<lparr>jb_size := length bs\<rparr>))
     | None \<Rightarrow> (False, snd (setBlob (Some text) J)))"
proof (cases "hex_value text")
  case (Some bs)
  then have l: "length text = 2 * length bs" by (rule length_hex_value)
  have pos: "0 < nonceOffset J" by (simp add: nonceOffset_def)
  show ?thesis
  proof (cases "nonceOffset J + nonceSize J \<le> length bs \<and> length bs < kMaxBlobSize")
    case True
    then have "bs \<noteq> []" "length text \<le> length (jb_blob J) * 2" using pos l assms by auto
    then have "fromHex_array (jb_blob J) text = (True, blit (jb_blob J) 0 bs)"
      using fromHex_array_cases [of "text" "jb_blob J"] Some by simp
    then show ?thesis using True Some l by (simp add: setBlob_def Let_def job_nonce_def)
  qed (use Some l in \<open>auto simp: setBlob_def Let_def\<close>)
next
  case None
  show ?thesis
  proof (cases "length text mod 2 = 0 \<and> length text div 2 < kMaxBlobSize")
    case True
    then have "length text = 2 * (length text div 2)" using div_mult_mod_eq [of "length text" 2] by linarith
    then have "length text \<le> length (jb_blob J) * 2" using assms True by linarith
    obtain ok bin where f: "fromHex_array (jb_blob J) text = (ok, bin)" by fastforce
    have "\<not> ok" using fromHex_array_cases [OF \<open>length text \<le> length (jb_blob J) * 2\<close>] None f by simp
    then show ?thesis using None f by (simp add: setBlob_def Let_def)
  qed (use None in \<open>auto simp: setBlob_def Let_def\<close>)
qed

section \<open>Targets\<close>

text \<open>The difficulty of a quotient of at most the square root is the divisor again.\<close>

lemma div_div_exact:
  fixes n d :: nat
  assumes "0 < d" and "d * d \<le> n"
  shows "n div (n div d) = d"
proof -
  have q: "d \<le> n div d" using assms by (simp add: less_eq_div_iff_mult_less_eq)
  have n: "n = d * (n div d) + n mod d" by simp
  have r: "n mod d < n div d" using q mod_less_divisor [OF assms(1), of n] by linarith
  show ?thesis
  proof (rule div_nat_eqI)
    show "n div d * d \<le> n" by simp
    have "n div d * Suc d = d * (n div d) + n div d" by simp
    then show "n < n div d * Suc d" using n r by linarith
  qed
qed

lemma compact_target:
  fixes v :: u32
  assumes "v \<noteq> 0" and "t = 0xFFFFFFFFFFFFFFFF div (0xFFFFFFFF div ucast v)"
  shows "unat (toDiff t) = (2 ^ 32 - 1) div unat v" and "unat v * (2 ^ 32 + 1) \<le> unat t"
proof -
  have v: "0 < unat v" "unat v < 2 ^ 32" using assms(1) unsigned_less [of v, where ?'a = nat] by (simp_all add: unat_gt_0)
  let ?d = "(2 ^ 32 - 1) div unat v"
  have u: "unat (ucast v :: u64) = unat v" using v(2) by (simp add: unsigned_ucast_eq unsigned_take_bit_eq take_bit_nat_eq_self)
  have d: "0 < ?d" using v by (simp add: div_greater_zero_iff)
  have dle: "?d \<le> 2 ^ 32 - 1" by (rule div_le_dividend)
  have t: "unat t = (2 ^ 64 - 1) div ?d" unfolding assms(2) unat_div u by simp
  have sq: "?d * ?d \<le> 2 ^ 64 - 1"
  proof -
    have "?d * ?d \<le> (2 ^ 32 - 1) * (2 ^ 32 - 1)" using dle by (intro mult_le_mono)
    then show ?thesis by simp
  qed
  have "?d \<le> 2 ^ 64 - 1" by (rule order_trans [OF dle]) simp
  then have "0 < unat t" unfolding t using d by (simp only: div_greater_zero_iff)
  then have "t \<noteq> 0" by auto
  then have "unat (toDiff t) = (2 ^ 64 - 1) div ((2 ^ 64 - 1) div ?d)" by (simp add: toDiff_def unat_div t)
  then show "unat (toDiff t) = ?d" using div_div_exact [OF d sq] by simp
  have "unat v * ?d \<le> 2 ^ 32 - 1" by (rule times_div_less_eq_dividend)
  then have "unat v * ?d * (2 ^ 32 + 1) \<le> (2 ^ 32 - 1) * (2 ^ 32 + 1)" by (rule mult_le_mono1)
  then have "unat v * (2 ^ 32 + 1) * ?d \<le> 2 ^ 64 - 1" by (simp add: algebra_simps)
  then show "unat v * (2 ^ 32 + 1) \<le> unat t" unfolding t using d by (simp add: less_eq_div_iff_mult_less_eq)
qed

section \<open>The properties\<close>

lemma nonceMask_nicehash: "jb_nicehash J \<Longrightarrow> nonceMask J = Some 0xFFFFFF"
  by (simp add: nonceMask_def)

lemma nonceMask_cong:
  "jb_nicehash J = jb_nicehash K \<Longrightarrow> jb_algorithm J = jb_algorithm K \<Longrightarrow> jb_extraNonce J = jb_extraNonce K \<Longrightarrow> nonceMask J = nonceMask K"
  by (simp only: nonceMask_def nonceSize_def)

text \<open>C22: \<open>setBlob\<close> accepts exactly the hexadecimal texts of blobs that hold the nonce and are shorter than the array; it then
  stores the blob and its size, and a blob that comes with a nonce makes the job one whose upper nonce byte is the pool's.\<close>

theorem setBlob_correct:
  assumes "length (jb_blob J) = kMaxBlobSize"
  shows "case hex_value text of
      Some bs \<Rightarrow> (if nonceOffset J + nonceSize J \<le> length bs \<and> length bs < kMaxBlobSize
        then \<exists>J'. setBlob (Some text) J = (True, J') \<and> jb_size J' = length bs \<and> take (jb_size J') (jb_blob J') = bs \<and>
          length (jb_blob J') = kMaxBlobSize \<and>
          nonceMask J' = (if job_nonce J' \<noteq> 0 then Some 0xFFFFFF else nonceMask J)
        else \<not> fst (setBlob (Some text) J))
    | None \<Rightarrow> \<not> fst (setBlob (Some text) J)"
proof (cases "hex_value text")
  case (Some bs)
  show ?thesis
  proof (cases "nonceOffset J + nonceSize J \<le> length bs \<and> length bs < kMaxBlobSize")
    case True
    let ?K = "J\<lparr>jb_size := length bs, jb_blob := blit (jb_blob J) 0 bs\<rparr>"
    let ?J = "?K\<lparr>jb_nicehash := jb_nicehash J \<or> job_nonce ?K \<noteq> 0\<rparr>"
    have "setBlob (Some text) J = (True, ?J)" using True Some setBlob_cases [OF assms, of "text"] by (simp add: Let_def)
    moreover have "length bs \<le> length (jb_blob J)" using True assms by simp
    then have "take (jb_size ?J) (jb_blob ?J) = bs" "length (jb_blob ?J) = kMaxBlobSize" using assms by (simp_all add: blit_def)
    ultimately have stored: "\<exists>J'. J' = ?J \<and> setBlob (Some text) J = (True, J') \<and> jb_size J' = length bs \<and> take (jb_size J') (jb_blob J') = bs
        \<and> length (jb_blob J') = kMaxBlobSize" by simp
    have "job_nonce ?J = job_nonce ?K" by (simp add: job_nonce_def nonceOffset_def)
    moreover have "nonceMask ?J = Some 0xFFFFFF" if "job_nonce ?K \<noteq> 0" by (rule nonceMask_nicehash) (use that in simp)
    moreover have "nonceMask ?J = nonceMask J" if "job_nonce ?K = 0" by (rule nonceMask_cong) (use that in simp_all)
    ultimately have "nonceMask ?J = (if job_nonce ?J \<noteq> 0 then Some 0xFFFFFF else nonceMask J)" by metis
    with stored show ?thesis unfolding Some option.case if_P [OF True] by blast
  next
    case False
    have "setBlob (Some text) J = (False, J\<lparr>jb_size := length bs\<rparr>)"
      using setBlob_cases [OF assms, of "text"] unfolding Some option.case if_not_P [OF False] .
    then show ?thesis unfolding Some option.case if_not_P [OF False] by simp
  qed
next
  case None
  have "setBlob (Some text) J = (False, snd (setBlob (Some text) J))"
    using setBlob_cases [OF assms, of "text"] unfolding None option.case .
  from arg_cong [OF this, of fst, unfolded fst_conv] show ?thesis unfolding None option.case by simp
qed

text \<open>A pool with its own nonce byte.\<close>

theorem setBlob_correct_witness:
  "\<exists>J. setBlob (Some (hex_text (replicate 42 1 @ [7]))) (new_Job False RX_XLA None) = (True, J) \<and> nonceMask J = Some 0xFFFFFF"
proof -
  have "length (jb_blob (new_Job False RX_XLA None)) = kMaxBlobSize" by (simp add: new_Job_def)
  from setBlob_correct [OF this, of "hex_text (replicate 42 1 @ [7])"] obtain J where
    J: "setBlob (Some (hex_text (replicate 42 1 @ [7]))) (new_Job False RX_XLA None) = (True, J)" "jb_size J = 43"
      "take (jb_size J) (jb_blob J) = replicate 42 1 @ [7]" "nonceMask J = (if job_nonce J \<noteq> 0 then Some 0xFFFFFF else Some 0xFFFFFFFF)"
    by (auto simp: hex_value_text nonceOffset_def nonceSize_def new_Job_def family_def kMaxBlobSize_def nonceMask_def)
  have "job_nonce J = load32 (sub 39 4 (jb_blob J))"
    using J(1) by (auto simp: setBlob_def Let_def job_nonce_def nonceOffset_def new_Job_def family_def split: if_splits prod.splits)
  moreover have "sub 39 4 (jb_blob J) = sub 39 4 (take 43 (jb_blob J))" by (simp add: sub_def drop_take)
  then have "sub 39 4 (jb_blob J) = [1, 1, 1, 7]" using J(2,3) by (simp add: sub_def numeral_eq_Suc)
  ultimately have "job_nonce J \<noteq> 0" by (simp add: load32_def)
  with J show ?thesis by auto
qed

text \<open>C21: A target is accepted when its hexadecimal text has four or eight bytes. Eight bytes are the target itself; from four
  bytes \<open>v\<close> comes a target no harder than \<open>v\<close> in the upper half, whose difficulty is exactly \<open>(2^32 - 1) / v\<close>. Only a single
  character and four zero bytes are undefined behaviour.\<close>

theorem setTarget_correct:
  "let raw = (case hex_value text of Some bs \<Rightarrow> bs | None \<Rightarrow> [])
   in case setTarget (Some text) J of
        None \<Rightarrow> length text = 1 \<or> length raw = 4 \<and> load32 raw = 0
      | Some (ok, J') \<Rightarrow> length text \<noteq> 1 \<and> (ok \<longleftrightarrow> length raw \<in> {4, 8}) \<and> (\<not> ok \<longrightarrow> J' = J) \<and>
          (length raw = 8 \<longrightarrow> J' = J\<lparr>jb_target := load64 raw, jb_diff := toDiff (load64 raw)\<rparr>) \<and>
          (length raw = 4 \<longrightarrow> unat (jb_diff J') = (2 ^ 32 - 1) div unat (load32 raw) \<and>
             unat (load32 raw) * (2 ^ 32 + 1) \<le> unat (jb_target J'))"
proof (cases "length text = 1")
  case True
  then show ?thesis by (simp add: setTarget_def fromHex_def fromHexImpl_def)
next
  case False
  obtain raw where raw: "fromHex text = Some raw" "raw = (case hex_value text of Some bs \<Rightarrow> bs | None \<Rightarrow> [])"
    using fromHex_cases [OF False] by blast
  have z: "(ucast (load32 raw) :: u64) = 0 \<longleftrightarrow> load32 raw = 0"
    by (simp add: word_unat_eq_iff unsigned_ucast_eq unsigned_take_bit_eq take_bit_nat_eq_self order_less_trans [OF unsigned_less])
  show ?thesis
    unfolding Let_def raw(2) [symmetric] using False compact_target [of "load32 raw", OF _ refl] z
    by (auto simp: setTarget_def raw(1) Let_def)
qed

text \<open>The compact target 1, the hardest.\<close>

theorem setTarget_correct_witness:
  "\<exists>J. setTarget (Some (hex_text [1, 0, 0, 0])) (new_Job False RX_XLA None) = Some (True, J) \<and> unat (jb_diff J) = 0xFFFFFFFF"
proof (cases "setTarget (Some (hex_text [1, 0, 0, 0])) (new_Job False RX_XLA None)")
  case None
  then show ?thesis
    using setTarget_correct [of "hex_text [1, 0, 0, 0]" "new_Job False RX_XLA None"]
    by (simp add: hex_value_text load32_def)
next
  case (Some p)
  then show ?thesis
    using setTarget_correct [of "hex_text [1, 0, 0, 0]" "new_Job False RX_XLA None"]
    by (cases p) (simp add: hex_value_text load32_def)
qed

end
