(* ===== verification/Worker.thy ===== *)
theory Worker
  imports RxVm Jobs Nonces
begin

text \<open>
  A mining thread: the job it works on with its nonces (\<open>backend/common/WorkerJob.h\<close>), and the thread that hashes with RandomX
  and submits shares (\<open>backend/cpu/CpuWorker.cpp\<close>, for RandomX, in which a worker has one lane; benchmarks are left out),
  alone and as one of a team.
\<close>

section \<open>Memory and configuration of an algorithm\<close>

definition l3 :: "Id \<Rightarrow> nat" where
  "l3 i =
    (let oneMiB = 0x100000; f = family i
     in if f = CN then oneMiB * 2 else if f = CN_LITE then oneMiB else if f = CN_HEAVY then oneMiB * 4 else if f = CN_PICO then oneMiB div 4
     else if f = RANDOM_X then
       (if i \<in> {RX_0, RX_SFX} then oneMiB * 2 else if i \<in> {RX_WOW, RX_KEVA} then oneMiB
        else if i \<in> {RX_ARQ, RX_XLA} then oneMiB div 4 else 0)
     else if f = ARGON2 then
       (if i = AR2_CHUKWA then oneMiB div 2 else if i = AR2_CHUKWA_V2 then oneMiB else if i = AR2_WRKZ then oneMiB div 4 else 0)
     else if f = ASTROBWT then (if i = ASTROBWT_DERO then oneMiB * 20 else 0)
     else if f = KAWPOW then (if i = KAWPOW_RVN then 32768 else 0)
     else 0)"

definition RxAlgo_base :: "Id \<Rightarrow> RandomX_Configuration" where
  "RxAlgo_base i = (case i of
     RX_WOW \<Rightarrow> RandomX_ConfigurationWownero | RX_ARQ \<Rightarrow> RandomX_ConfigurationArqma | RX_SFX \<Rightarrow> RandomX_ConfigurationSafex
   | RX_KEVA \<Rightarrow> RandomX_ConfigurationKeva | RX_XLA \<Rightarrow> RandomX_ConfigurationScala | _ \<Rightarrow> RandomX_ConfigurationMonero)"

text \<open>The memory a worker has is the scratchpad its machine uses.\<close>

lemma l3_is_scratchpad: "family i = RANDOM_X \<Longrightarrow> l3 i = unat (ScratchpadL3_Size (RxAlgo_base i)) \<and> RxAlgo_base i \<in> set rx_configurations"
  by (cases i) (simp_all add: family_def l3_def RxAlgo_base_def rx_configurations_def configuration_defs)

section \<open>The job of a worker\<close>

text \<open>Two slots, for the jobs of the user and of the donation; every lane has a copy of the blob with its own nonce.\<close>

record WorkerJob =
  wj_blobs :: "bytes list"
  wj_jobs :: "Job list"
  wj_rounds :: "u32 list"
  wj_nonce_mask :: "u64 list"
  wj_sequence :: u64
  wj_index :: nat

definition new_WorkerJob :: "nat \<Rightarrow> WorkerJob" where
  "new_WorkerJob N =
    \<lparr>wj_blobs = replicate 2 (replicate (kMaxBlobSize * N) 0), wj_jobs = replicate 2 (new_Job False INVALID None),
     wj_rounds = [0, 0], wj_nonce_mask = [0, 0], wj_sequence = 0, wj_index = 0\<rparr>"

definition currentJob :: "WorkerJob \<Rightarrow> Job" where "currentJob W = wj_jobs W ! wj_index W"

definition wj_blob :: "WorkerJob \<Rightarrow> bytes" where "wj_blob W = wj_blobs W ! wj_index W"

definition set_blob :: "bytes \<Rightarrow> WorkerJob \<Rightarrow> WorkerJob" where
  "set_blob b W = W\<lparr>wj_blobs := (wj_blobs W)[wj_index W := b]\<rparr>"

text \<open>The words that the pointer \<open>nonce(i)\<close> addresses.\<close>

definition nonce_at :: "WorkerJob \<Rightarrow> nat \<Rightarrow> nat" where
  "nonce_at W i = i * jb_size (currentJob W) + nonceOffset (currentJob W)"

definition nonce_words :: "WorkerJob \<Rightarrow> nat \<Rightarrow> u32 list" where
  "nonce_words W i = map (\<lambda>k. load32 (sub (nonce_at W i + 4 * k) 4 (wj_blob W))) [0..<nonceSize (currentJob W) div 4]"

definition set_nonce_words :: "nat \<Rightarrow> u32 list \<Rightarrow> WorkerJob \<Rightarrow> WorkerJob" where
  "set_nonce_words i ws W = set_blob (blit (wj_blob W) (nonce_at W i) (concat (map store32 ws))) W"

definition wj_nonce :: "WorkerJob \<Rightarrow> nat \<Rightarrow> u32" where "wj_nonce W i = nonce_words W i ! 0"

definition lane_next :: "nat \<Rightarrow> u32 \<Rightarrow> WorkerJob \<Rightarrow> Nonce \<Rightarrow> (bool \<times> WorkerJob \<times> Nonce) option" where
  "lane_next i count W S =
    map_option (\<lambda>(ok, ws, S). (ok, set_nonce_words i ws W, S))
      (Nonce_next (wj_index W) (nonce_words W i) count (wj_nonce_mask W ! wj_index W) S)"

primrec lanes_next :: "nat \<Rightarrow> nat \<Rightarrow> u32 \<Rightarrow> WorkerJob \<Rightarrow> Nonce \<Rightarrow> (bool \<times> WorkerJob \<times> Nonce) option" where
  "lanes_next 0 i count W S = Some (True, W, S)"
| "lanes_next (Suc n) i count W S =
    (case lane_next i count W S of
       None \<Rightarrow> None | Some (ok, W, S) \<Rightarrow> if ok then lanes_next n (i + 1) count W S else Some (False, W, S))"

definition add_to_nonce :: "u32 \<Rightarrow> WorkerJob \<Rightarrow> nat \<Rightarrow> WorkerJob" where
  "add_to_nonce roundSize W i = set_nonce_words i ((nonce_words W i)[0 := wj_nonce W i + roundSize]) W"

text \<open>The specialisation for one lane differs in keeping the upper word of a long nonce in the job.\<close>

definition keep_upper_word :: "WorkerJob \<Rightarrow> WorkerJob" where
  "keep_upper_word W =
    (let J = currentJob W
     in if nonceSize J = 8
        then W\<lparr>wj_jobs := (wj_jobs W)[wj_index W := J\<lparr>jb_blob := blit (jb_blob J) (nonceOffset J + 4) (store32 (nonce_words W 0 ! 1))\<rparr>]\<rparr>
        else W)"

definition wj_nextRound :: "nat \<Rightarrow> u32 \<Rightarrow> u32 \<Rightarrow> WorkerJob \<Rightarrow> Nonce \<Rightarrow> (bool \<times> WorkerJob \<times> Nonce) option" where
  "wj_nextRound N rounds roundSize W S =
    (let W = W\<lparr>wj_rounds := (wj_rounds W)[wj_index W := wj_rounds W ! wj_index W + 1]\<rparr>
     in if wj_rounds W ! wj_index W AND (rounds - 1) = 0
        then map_option (\<lambda>(ok, W, S). (ok, if ok \<and> N = 1 then keep_upper_word W else W, S)) (lanes_next N 0 (rounds * roundSize) W S)
        else Some (True, fold (\<lambda>i W. add_to_nonce roundSize W i) [0..<N] W, S))"

text \<open>\<open>save\<close> drops the answers of \<open>Nonce::next\<close>.\<close>

primrec save_lanes :: "nat \<Rightarrow> nat \<Rightarrow> u32 \<Rightarrow> Job \<Rightarrow> WorkerJob \<Rightarrow> Nonce \<Rightarrow> (WorkerJob \<times> Nonce) option" where
  "save_lanes 0 i count J W S = Some (W, S)"
| "save_lanes (Suc n) i count J W S =
    (let W = set_blob (blit (wj_blob W) (i * jb_size J) (take (jb_size J) (jb_blob J))) W
     in case lane_next i count W S of None \<Rightarrow> None | Some (_, W, S) \<Rightarrow> save_lanes n (i + 1) count J W S)"

definition wj_save :: "nat \<Rightarrow> Job \<Rightarrow> u32 \<Rightarrow> nat \<Rightarrow> WorkerJob \<Rightarrow> Nonce \<Rightarrow> (WorkerJob \<times> Nonce) option" where
  "wj_save N J reserveCount backend W S =
    (case nonceMask J of None \<Rightarrow> None | Some m \<Rightarrow>
     let W = W\<lparr>wj_index := jb_index J\<rparr>;
         W = W\<lparr>wj_jobs := (wj_jobs W)[wj_index W := J\<lparr>jb_backend := of_nat backend\<rparr>],
               wj_rounds := (wj_rounds W)[wj_index W := 0],
               wj_nonce_mask := (wj_nonce_mask W)[wj_index W := m]\<rparr>
     in save_lanes N 0 reserveCount J W S)"


section \<open>The loop of the worker\<close>

definition kReserveCount :: u32 where "kReserveCount = 32768"

record CpuWorker =
  cw_algorithm :: Id
  cw_job :: WorkerJob
  cw_vm :: randomx_vm
  cw_temp :: bytes
  cw_first :: bool
  cw_count :: u64

text \<open>What is submitted: the job, the nonce and the hash. A turn also says whether the worker goes on with the job.\<close>

type_synonym share = "Job \<times> u32 \<times> bytes"

definition job_input :: "WorkerJob \<Rightarrow> bytes" where
  "job_input W = take (jb_size (currentJob W)) (wj_blob W)"

definition rx_turn :: "rx_env \<Rightarrow> CpuWorker \<Rightarrow> Nonce \<Rightarrow> (bool \<times> share list \<times> CpuWorker \<times> Nonce) option" where
  "rx_turn E C S =
    (let J = currentJob (cw_job C); xla = (jb_algorithm J = RX_XLA)
     in if l3 (jb_algorithm J) \<noteq> l3 (cw_algorithm C) then Some (False, [], C, S)
     else let current = wj_nonce (cw_job C) 0;
       C = (if cw_first C then
              case randomx_calculate_hash_first E xla (job_input (cw_job C)) (cw_vm C) of
                (temp, vm) \<Rightarrow> C\<lparr>cw_first := False, cw_temp := temp, cw_vm := vm\<rparr>
            else C)
     in case wj_nextRound 1 kReserveCount 1 (cw_job C) S of
       None \<Rightarrow> None
     | Some (ok, W, S) \<Rightarrow>
         let C = C\<lparr>cw_job := W\<rparr>
         in if \<not> ok then Some (False, [], C, S)
         else case randomx_calculate_hash_next E xla (cw_temp C) (job_input W) (cw_vm C) of
           None \<Rightarrow> None
         | Some (hash, temp, vm) \<Rightarrow>
             let value = load64 (sub 24 8 hash);
                 shares = (if value < jb_target (currentJob W) then [(currentJob W, current, hash)] else [])
             in Some (True, shares, C\<lparr>cw_temp := temp, cw_vm := vm, cw_count := cw_count C + 1\<rparr>, S))"

text \<open>Before each turn other threads may have acted; the loop also ends when the job is outdated (the backend is \<open>CPU\<close>, 0).\<close>

primrec rx_turns :: "rx_env \<Rightarrow> (Nonce \<Rightarrow> Nonce) list \<Rightarrow> CpuWorker \<Rightarrow> Nonce \<Rightarrow> (share list \<times> CpuWorker \<times> Nonce) option" where
  "rx_turns E [] C S = Some ([], C, S)"
| "rx_turns E (other # others) C S =
    (let S = other S
     in if isOutdated S 0 (wj_sequence (cw_job C)) then Some ([], C, S)
     else case rx_turn E C S of
       None \<Rightarrow> None
     | Some (go, shares, C, S) \<Rightarrow>
         if go then map_option (\<lambda>(more, C, S). (shares @ more, C, S)) (rx_turns E others C S) else Some (shares, C, S))"

section \<open>A worker with one lane\<close>

text \<open>The slots exist; a lane's input is the blob of the job with the lane's nonce in it.\<close>

definition job_slots_ok :: "WorkerJob \<Rightarrow> bool" where
  "job_slots_ok W \<longleftrightarrow> length (wj_blobs W) = 2 \<and> (\<forall>b \<in> set (wj_blobs W). length b = kMaxBlobSize) \<and> length (wj_jobs W) = 2 \<and>
     length (wj_rounds W) = 2 \<and> length (wj_nonce_mask W) = 2"

definition rx_job :: "Job \<Rightarrow> bool" where
  "rx_job J \<longleftrightarrow> family (jb_algorithm J) = RANDOM_X \<and> 43 \<le> jb_size J \<and> jb_size J < kMaxBlobSize \<and>
     length (jb_blob J) = kMaxBlobSize \<and> jb_index J < 2"

definition with_nonce :: "Job \<Rightarrow> u32 \<Rightarrow> bytes" where
  "with_nonce J n = blit (take (jb_size J) (jb_blob J)) (nonceOffset J) (store32 n)"

definition works_on :: "Job \<Rightarrow> WorkerJob \<Rightarrow> bool" where
  "works_on J W \<longleftrightarrow> job_slots_ok W \<and> rx_job J \<and> wj_index W = jb_index J \<and> currentJob W = J \<and> job_input W = with_nonce J (wj_nonce W 0)"

lemma rx_place: "rx_job J \<Longrightarrow> nonceOffset J = 39" "rx_job J \<Longrightarrow> nonceSize J = 4"
  by (simp_all add: rx_job_def nonceOffset_def nonceSize_def)

lemma load_store32 [simp]: "load32 (store32 x) = x"
  by (rule le_load32.dec_enc)

lemma take_blit_inside: "off + length src \<le> n \<Longrightarrow> n \<le> length dst \<Longrightarrow> take n (blit dst off src) = blit (take n dst) off src"
  by (cases "n = off") (auto simp: blit_def min_def drop_take)

lemma blit_blit_same: "off + length src \<le> length dst \<Longrightarrow> length src = length new \<Longrightarrow> blit (blit dst off src) off new = blit dst off new"
  by (simp add: blit_def)

lemma blob_length: "job_slots_ok W \<Longrightarrow> wj_index W < 2 \<Longrightarrow> length (wj_blob W) = kMaxBlobSize"
  by (simp add: job_slots_ok_def wj_blob_def)

lemma set_blob_simps [simp]:
  "job_slots_ok W \<Longrightarrow> wj_index W < 2 \<Longrightarrow> wj_blob (set_blob b W) = b"
  "currentJob (set_blob b W) = currentJob W" "wj_index (set_blob b W) = wj_index W" "wj_rounds (set_blob b W) = wj_rounds W"
  "wj_nonce_mask (set_blob b W) = wj_nonce_mask W" "wj_jobs (set_blob b W) = wj_jobs W" "wj_sequence (set_blob b W) = wj_sequence W"
  by (simp_all add: set_blob_def wj_blob_def currentJob_def job_slots_ok_def)

lemma set_blob_slots: "job_slots_ok W \<Longrightarrow> length b = kMaxBlobSize \<Longrightarrow> job_slots_ok (set_blob b W)"
  using set_update_subset_insert [of "wj_blobs W" "wj_index W" b] by (auto simp: job_slots_ok_def set_blob_def)

text \<open>The nonce of the lane, when the blob is at least that of the job.\<close>

lemma lane_words:
  assumes "job_slots_ok W" and "rx_job (currentJob W)"
  shows "nonce_words W 0 = [wj_nonce W 0]" and "nonce_at W 0 = 39"
  using rx_place [OF assms(2)] by (simp_all add: wj_nonce_def nonce_words_def nonce_at_def)

lemma set_lane:
  assumes "job_slots_ok W" and "rx_job (currentJob W)" and "wj_index W = jb_index (currentJob W)"
    and "take (jb_size (currentJob W)) (wj_blob W) = with_nonce (currentJob W) y \<or>
         take (jb_size (currentJob W)) (wj_blob W) = take (jb_size (currentJob W)) (jb_blob (currentJob W))"
  shows "works_on (currentJob W) (set_nonce_words 0 [x] W)" and "wj_nonce (set_nonce_words 0 [x] W) 0 = x"
proof -
  let ?J = "currentJob W"
  have i: "wj_index W < 2" using assms(2,3) by (simp add: rx_job_def)
  have l: "length (wj_blob W) = kMaxBlobSize" by (rule blob_length [OF assms(1) i])
  have s: "43 \<le> jb_size ?J" "jb_size ?J < kMaxBlobSize" using assms(2) by (simp_all add: rx_job_def)
  let ?b = "blit (wj_blob W) 39 (store32 x)"
  have W: "set_nonce_words 0 [x] W = set_blob ?b W" using lane_words [OF assms(1,2)] by (simp add: set_nonce_words_def)
  have lb: "length ?b = kMaxBlobSize" using l s by simp
  have "sub 39 4 ?b = store32 x" using sub_blit [of 39 "store32 x" "wj_blob W"] l s by simp
  then show n: "wj_nonce (set_nonce_words 0 [x] W) 0 = x"
    using i assms(1) rx_place [OF assms(2)] by (simp add: W wj_nonce_def nonce_words_def nonce_at_def)
  have "take (jb_size ?J) ?b = with_nonce ?J x"
    using assms(4) take_blit_inside [of 39 "store32 x" "jb_size ?J" "wj_blob W"] s l assms(2) rx_place(1) [OF assms(2)]
    by (auto simp: with_nonce_def rx_job_def blit_blit_same)
  then show "works_on ?J (set_nonce_words 0 [x] W)"
    using n assms i lb by (simp add: works_on_def W set_blob_slots job_input_def)
qed

lemma set_nonce_frame [simp]:
  "currentJob (set_nonce_words i ws W) = currentJob W" "wj_index (set_nonce_words i ws W) = wj_index W"
  "wj_rounds (set_nonce_words i ws W) = wj_rounds W" "wj_nonce_mask (set_nonce_words i ws W) = wj_nonce_mask W"
  "wj_sequence (set_nonce_words i ws W) = wj_sequence W"
  by (simp_all add: set_nonce_words_def)

lemma length_write_nonce [simp]: "length (write_nonce m c ws) = length ws"
  by (simp add: write_nonce_def Let_def)

lemma next_one_word:
  assumes "Nonce_next i [w] r m S = Some (ok, ws, T)"
  obtains x where "ws = [x]"
proof -
  have "length ws = 1" using assms by (auto simp: Nonce_next_def Let_def split: if_splits prod.splits option.splits)
  then show thesis using that by (cases ws) auto
qed

text \<open>Whatever the nonce counter answers, the lane has some nonce in the blob of its job.\<close>

lemma lane_next_works:
  assumes "job_slots_ok W" and "rx_job (currentJob W)" and "wj_index W = jb_index (currentJob W)" and "length (nc_nonces S) = 2"
    and "take (jb_size (currentJob W)) (wj_blob W) = with_nonce (currentJob W) y \<or>
         take (jb_size (currentJob W)) (wj_blob W) = take (jb_size (currentJob W)) (jb_blob (currentJob W))"
  obtains ok x T where "Nonce_next (wj_index W) [wj_nonce W 0] count (wj_nonce_mask W ! wj_index W) S = Some (ok, [x], T)"
    and "lane_next 0 count W S = Some (ok, set_nonce_words 0 [x] W, T)" and "works_on (currentJob W) (set_nonce_words 0 [x] W)"
    and "wj_nonce (set_nonce_words 0 [x] W) 0 = x" and "length (nc_nonces T) = 2"
proof -
  have "wj_index W < length (nc_nonces S)" using assms(2-4) by (simp add: rx_job_def)
  from Nonce_next_returns [OF this] obtain ok ws T where
    n: "Nonce_next (wj_index W) [wj_nonce W 0] count (wj_nonce_mask W ! wj_index W) S = Some (ok, ws, T)" by (metis not_None_eq prod_cases3)
  obtain x where x: "ws = [x]" by (rule next_one_word [OF n])
  have "length (nc_nonces T) = 2" using Nonce_next_length [OF n] assms(4) by simp
  moreover have "lane_next 0 count W S = Some (ok, set_nonce_words 0 [x] W, T)"
    using n x by (simp add: lane_next_def lane_words(1) [OF assms(1,2)])
  ultimately show thesis using that n x set_lane [OF assms(1,2,3,5)] by blast
qed

lemma works_take: "works_on J W \<Longrightarrow> take (jb_size J) (wj_blob W) = with_nonce J (wj_nonce W 0)"
  by (auto simp: works_on_def job_input_def)

lemma rx_job_backend [simp]: "rx_job (J\<lparr>jb_backend := b\<rparr>) \<longleftrightarrow> rx_job J" "with_nonce (J\<lparr>jb_backend := b\<rparr>) = with_nonce J"
  by (simp_all add: rx_job_def with_nonce_def nonceOffset_def fun_eq_iff)

text \<open>The next round, in both branches.\<close>

lemma nextRound_cases:
  fixes r s :: u32
  assumes "works_on J W" and "length (nc_nonces S) = 2"
  defines "W1 \<equiv> W\<lparr>wj_rounds := (wj_rounds W)[wj_index W := wj_rounds W ! wj_index W + 1]\<rparr>"
  obtains (reserve) ok x T where "(wj_rounds W ! wj_index W + 1) AND (r - 1) = 0"
      and "Nonce_next (jb_index J) [wj_nonce W 0] (r * s) (wj_nonce_mask W ! wj_index W) S = Some (ok, [x], T)"
      and "wj_nextRound 1 r s W S = Some (ok, set_nonce_words 0 [x] W1, T)" and "works_on J (set_nonce_words 0 [x] W1)"
      and "wj_nonce (set_nonce_words 0 [x] W1) 0 = x" and "length (nc_nonces T) = 2"
  | (step) "(wj_rounds W ! wj_index W + 1) AND (r - 1) \<noteq> 0"
      and "wj_nextRound 1 r s W S = Some (True, set_nonce_words 0 [wj_nonce W 0 + s] W1, S)"
      and "works_on J (set_nonce_words 0 [wj_nonce W 0 + s] W1)"
      and "wj_nonce (set_nonce_words 0 [wj_nonce W 0 + s] W1) 0 = wj_nonce W 0 + s"
proof -
  have w: "job_slots_ok W" "rx_job J" "wj_index W = jb_index J" "currentJob W = J" using assms(1) by (simp_all add: works_on_def)
  have same: "currentJob W1 = J" "wj_blob W1 = wj_blob W" "wj_index W1 = wj_index W" "wj_nonce_mask W1 = wj_nonce_mask W"
    using w(4) by (simp_all add: W1_def currentJob_def wj_blob_def)
  have n: "nonce_words W1 0 = nonce_words W 0" "wj_nonce W1 0 = wj_nonce W 0"
    by (simp_all add: nonce_words_def wj_nonce_def nonce_at_def same w(4))
  have w1: "job_slots_ok W1" "rx_job (currentJob W1)" "wj_index W1 = jb_index (currentJob W1)"
    using w by (simp_all add: same job_slots_ok_def) (simp_all add: W1_def)
  have t: "take (jb_size (currentJob W1)) (wj_blob W1) = with_nonce (currentJob W1) (wj_nonce W 0) \<or>
      take (jb_size (currentJob W1)) (wj_blob W1) = take (jb_size (currentJob W1)) (jb_blob (currentJob W1))"
    using works_take [OF assms(1)] by (simp add: same)
  have r1: "wj_rounds W1 ! wj_index W1 = wj_rounds W ! wj_index W + 1"
    using w by (simp add: W1_def job_slots_ok_def rx_job_def)
  show thesis
  proof (cases "(wj_rounds W ! wj_index W + 1) AND (r - 1) = 0")
    case True
    obtain ok x T where l: "Nonce_next (wj_index W1) [wj_nonce W1 0] (r * s) (wj_nonce_mask W1 ! wj_index W1) S = Some (ok, [x], T)"
      "lane_next 0 (r * s) W1 S = Some (ok, set_nonce_words 0 [x] W1, T)" "works_on (currentJob W1) (set_nonce_words 0 [x] W1)"
      "wj_nonce (set_nonce_words 0 [x] W1) 0 = x" "length (nc_nonces T) = 2"
      by (rule lane_next_works [OF w1 assms(2) t])
    have "nonceSize J = 4" by (rule rx_place(2) [OF w(2)])
    then have "keep_upper_word (set_nonce_words 0 [x] W1) = set_nonce_words 0 [x] W1"
      by (simp add: keep_upper_word_def Let_def same)
    then have "wj_nextRound 1 r s W S = Some (ok, set_nonce_words 0 [x] W1, T)"
      using True l(2) unfolding wj_nextRound_def W1_def [symmetric] Let_def r1 by (simp add: One_nat_def)
    then show thesis using reserve True l by (simp add: n same w(3))
  next
    case False
    have "add_to_nonce s W1 0 = set_nonce_words 0 [wj_nonce W 0 + s] W1"
      using lane_words(1) [OF w1(1,2)] n by (simp add: add_to_nonce_def)
    then have "wj_nextRound 1 r s W S = Some (True, set_nonce_words 0 [wj_nonce W 0 + s] W1, S)"
      using False unfolding wj_nextRound_def W1_def [symmetric] Let_def r1 by simp
    then show thesis using step False set_lane [OF w1 t] by (simp add: same)
  qed
qed

text \<open>Taking a job: the lane asks for a range from the nonce the pool sent.\<close>

lemma save_cases:
  assumes "job_slots_ok W" and "rx_job J" and "length (nc_nonces S) = 2"
  obtains m ok x T V where "nonceMask J = Some m" and "Nonce_next (jb_index J) [job_nonce J] count m S = Some (ok, [x], T)"
    and "wj_save 1 J count b W S = Some (V, T)" and "works_on (J\<lparr>jb_backend := of_nat b\<rparr>) V" and "wj_nonce V 0 = x"
    and "length (nc_nonces T) = 2" and "wj_rounds V ! wj_index V = 0" and "wj_nonce_mask V ! wj_index V = m"
    and "wj_sequence V = wj_sequence W"
proof -
  let ?J = "J\<lparr>jb_backend := of_nat b\<rparr>"
  have J: "nonceOffset J = 39" "nonceSize J = 4" using rx_place [OF assms(2)] by simp_all
  have j: "jb_index J < 2" "jb_size J < kMaxBlobSize" "43 \<le> jb_size J" "length (jb_blob J) = kMaxBlobSize"
    using assms(2) by (simp_all add: rx_job_def)
  obtain m where m: "nonceMask J = Some m" using J(2) by (cases "jb_nicehash J") (simp_all add: nonceMask_def)
  define W1 where "W1 = W\<lparr>wj_index := jb_index J, wj_jobs := (wj_jobs W)[jb_index J := ?J],
    wj_rounds := (wj_rounds W)[jb_index J := 0], wj_nonce_mask := (wj_nonce_mask W)[jb_index J := m]\<rparr>"
  have s1: "job_slots_ok W1" "wj_index W1 = jb_index J" using assms(1) by (simp_all add: W1_def job_slots_ok_def)
  have c1: "currentJob W1 = ?J" using assms(1) j(1) by (simp add: W1_def currentJob_def job_slots_ok_def)
  define W2 where "W2 = set_blob (blit (wj_blob W1) 0 (take (jb_size J) (jb_blob J))) W1"
  have l1: "length (wj_blob W1) = kMaxBlobSize" using blob_length [OF s1(1)] s1(2) j(1) by simp
  have w2: "job_slots_ok W2" "rx_job (currentJob W2)" "wj_index W2 = jb_index (currentJob W2)"
    using set_blob_slots [OF s1(1)] s1 c1 l1 j assms(2) by (simp_all add: W2_def)
  have "wj_blob W2 = blit (wj_blob W1) 0 (take (jb_size J) (jb_blob J))" using s1 j(1) by (simp add: W2_def)
  then have t: "take (jb_size J) (wj_blob W2) = take (jb_size J) (jb_blob J)" using j l1 by (simp add: blit_def)
  have c2: "currentJob W2 = ?J" by (simp add: W2_def c1)
  have "sub 39 4 (wj_blob W2) = sub 39 4 (take (jb_size J) (wj_blob W2))" using j(3) by (simp add: sub_def drop_take)
  also have "\<dots> = sub 39 4 (jb_blob J)" unfolding t using j(3) by (simp add: sub_def drop_take)
  finally have n2: "wj_nonce W2 0 = job_nonce J"
    by (simp add: wj_nonce_def nonce_words_def nonce_at_def job_nonce_def c2 J) (simp add: nonceOffset_def nonceSize_def assms(2) [unfolded rx_job_def])
  obtain ok x T where l: "Nonce_next (wj_index W2) [wj_nonce W2 0] count (wj_nonce_mask W2 ! wj_index W2) S = Some (ok, [x], T)"
    "lane_next 0 count W2 S = Some (ok, set_nonce_words 0 [x] W2, T)" "works_on (currentJob W2) (set_nonce_words 0 [x] W2)"
    "wj_nonce (set_nonce_words 0 [x] W2) 0 = x" "length (nc_nonces T) = 2"
    by (rule lane_next_works [OF w2 assms(3), of 0]) (use t in \<open>auto simp: c2\<close>)
  have mask2: "wj_nonce_mask W2 ! wj_index W2 = m" "wj_rounds W2 ! wj_index W2 = 0" "wj_index W2 = jb_index J" "wj_sequence W2 = wj_sequence W"
    using assms(1) j(1) by (simp_all add: W2_def W1_def job_slots_ok_def)
  have "wj_save 1 J count b W S = Some (set_nonce_words 0 [x] W2, T)"
    using l(2) by (simp add: wj_save_def m Let_def W1_def [symmetric] W2_def [symmetric])
  then show thesis using that [OF m, of ok x T] l mask2 n2 by (simp add: c2)
qed

section \<open>Turns\<close>

text \<open>Between turns the machine has started on the input of the lane.\<close>

definition cw_ok :: "rx_env \<Rightarrow> Job \<Rightarrow> CpuWorker \<Rightarrow> bool" where
  "cw_ok E J C \<longleftrightarrow> works_on J (cw_job C) \<and>
     (if cw_first C then vm_ok E (cw_vm C)
      else \<exists>vm. vm_ok E vm \<and> (cw_temp C, cw_vm C) =
        randomx_calculate_hash_first E (jb_algorithm J = RX_XLA) (with_nonce J (wj_nonce (cw_job C) 0)) vm)"

definition valid_share :: "rx_env \<Rightarrow> Job \<Rightarrow> share \<Rightarrow> bool" where
  "valid_share E J s = (case s of (J', n, h) \<Rightarrow> J' = J \<and> load64 (sub 24 8 h) < jb_target J \<and>
     (\<exists>vm vm'. vm_ok E vm \<and> randomx_calculate_hash E (jb_algorithm J = RX_XLA) (with_nonce J n) vm = Some (h, vm')))"

lemma rx_turn_cases:
  assumes "env_ok E" and "cw_ok E J C" and "length (nc_nonces S) = 2"
  obtains (leave) C' T where "rx_turn E C S = Some (False, [], C', T)"
      and "C' = C \<and> T = S \<or> wj_nextRound 1 kReserveCount 1 (cw_job C) S = Some (False, cw_job C', T) \<and> works_on J (cw_job C')"
  | (go) shares C' T where "wj_nextRound 1 kReserveCount 1 (cw_job C) S = Some (True, cw_job C', T)"
      and "rx_turn E C S = Some (True, shares, C', T)" and "cw_ok E J C'" and "length shares \<le> 1"
      and "\<And>s. s \<in> set shares \<Longrightarrow> valid_share E J s \<and> fst (snd s) = wj_nonce (cw_job C) 0"
proof (cases "l3 (jb_algorithm (currentJob (cw_job C))) = l3 (cw_algorithm C)")
  case False
  then show thesis using leave by (simp add: rx_turn_def)
next
  case l3: True
  let ?xla = "jb_algorithm J = RX_XLA"
  let ?n = "wj_nonce (cw_job C) 0"
  have w: "works_on J (cw_job C)" using assms(2) by (simp add: cw_ok_def)
  then have cj: "currentJob (cw_job C) = J" "job_input (cw_job C) = with_nonce J ?n" by (simp_all add: works_on_def)
  define C1 where "C1 = (if cw_first C then case randomx_calculate_hash_first E ?xla (with_nonce J ?n) (cw_vm C) of
      (temp, vm) \<Rightarrow> C\<lparr>cw_first := False, cw_temp := temp, cw_vm := vm\<rparr> else C)"
  obtain vm0 where vm0: "vm_ok E vm0" "(cw_temp C1, cw_vm C1) = randomx_calculate_hash_first E ?xla (with_nonce J ?n) vm0"
    and first: "\<not> cw_first C1"
    using assms(2) by (cases "cw_first C") (auto simp: cw_ok_def C1_def split: prod.splits)
  have job1: "cw_job C1 = cw_job C" by (simp add: C1_def split: prod.split)
  obtain ok W T where nr: "wj_nextRound 1 kReserveCount 1 (cw_job C) S = Some (ok, W, T)" "works_on J W"
    by (rule nextRound_cases [OF w assms(3), of kReserveCount 1]) blast+
  have turn: "rx_turn E C S = (if \<not> ok then Some (False, [], C1\<lparr>cw_job := W\<rparr>, T)
      else case randomx_calculate_hash_next E ?xla (cw_temp C1) (job_input W) (cw_vm C1) of None \<Rightarrow> None
        | Some (hash, temp, vm) \<Rightarrow> Some (True, if load64 (sub 24 8 hash) < jb_target J then [(J, ?n, hash)] else [],
            C1\<lparr>cw_job := W, cw_temp := temp, cw_vm := vm, cw_count := cw_count C1 + 1\<rparr>, T))"
    unfolding rx_turn_def Let_def
    unfolding cj
    unfolding C1_def [symmetric] job1 nr(1)
    using l3 nr(2) cj(1) by (simp add: works_on_def split: option.split prod.split)
  show thesis
  proof (cases ok)
    case False
    then show thesis using leave [of "C1\<lparr>cw_job := W\<rparr>" T] turn nr by simp
  next
    case True
    let ?m = "wj_nonce W 0"
    obtain out vm' where h: "randomx_calculate_hash E ?xla (with_nonce J ?n) vm0 = Some (out, vm')" "vm_ok E vm'"
      "randomx_calculate_hash_next E ?xla (cw_temp C1) (with_nonce J ?m) (cw_vm C1) =
         Some (out, randomx_calculate_hash_first E ?xla (with_nonce J ?m) vm')"
      using pipeline_step [OF assms(1) vm0(1) vm0(2) [symmetric]] by blast
    obtain temp vm where f: "randomx_calculate_hash_first E ?xla (with_nonce J ?m) vm' = (temp, vm)" by fastforce
    have i: "job_input W = with_nonce J ?m" using nr(2) by (simp add: works_on_def)
    define C2 where "C2 = C1\<lparr>cw_job := W, cw_temp := temp, cw_vm := vm, cw_count := cw_count C1 + 1\<rparr>"
    have "cw_ok E J C2" using nr(2) f h(2) first by (auto simp: cw_ok_def C2_def intro!: exI [of _ vm'])
    moreover have "rx_turn E C S = Some (True, if load64 (sub 24 8 out) < jb_target J then [(J, ?n, out)] else [], C2, T)"
      unfolding turn i h(3) f using True by (simp add: C2_def)
    moreover have "wj_nextRound 1 kReserveCount 1 (cw_job C) S = Some (True, cw_job C2, T)" using nr(1) True by (simp add: C2_def)
    moreover have "valid_share E J (J, ?n, out)" if "load64 (sub 24 8 out) < jb_target J"
      using that h(1) vm0(1) by (auto simp: valid_share_def)
    ultimately show thesis using go by (auto split: if_splits)
  qed
qed

lemma nextRound_length:
  "works_on J W \<Longrightarrow> length (nc_nonces S) = 2 \<Longrightarrow> wj_nextRound 1 r s W S = Some (ok, W', T) \<Longrightarrow> length (nc_nonces T) = 2"
  by (erule (1) nextRound_cases [of _ _ _ r s]) auto

lemma rx_turns_valid:
  assumes "env_ok E" and "\<And>f S. f \<in> set others \<Longrightarrow> length (nc_nonces S) = 2 \<Longrightarrow> length (nc_nonces (f S)) = 2"
  shows "cw_ok E J C \<Longrightarrow> length (nc_nonces S) = 2 \<Longrightarrow>
    \<exists>shares C' T. rx_turns E others C S = Some (shares, C', T) \<and> (\<forall>s \<in> set shares. valid_share E J s)"
  using assms(2)
proof (induction others arbitrary: C S)
  case (Cons f others)
  have l: "length (nc_nonces (f S)) = 2" using Cons.prems(2,3) by simp
  show ?case
  proof (cases "isOutdated (f S) 0 (wj_sequence (cw_job C))")
    case False
    show ?thesis
    proof (rule rx_turn_cases [OF assms(1) Cons.prems(1) l])
      fix C' T assume "rx_turn E C (f S) = Some (False, [], C', T)"
      then show ?thesis using False by simp
    next
      fix shares C' T assume t: "wj_nextRound 1 kReserveCount 1 (cw_job C) (f S) = Some (True, cw_job C', T)"
        "rx_turn E C (f S) = Some (True, shares, C', T)" "cw_ok E J C'"
        "\<And>s. s \<in> set shares \<Longrightarrow> valid_share E J s \<and> fst (snd s) = wj_nonce (cw_job C) 0"
      have "length (nc_nonces T) = 2" using nextRound_length [OF _ l t(1)] Cons.prems(1) by (auto simp: cw_ok_def)
      from Cons.IH [OF t(3) this] Cons.prems(3) obtain more C'' T' where
        "rx_turns E others C' T = Some (more, C'', T')" "\<forall>s \<in> set more. valid_share E J s" by auto
      then show ?thesis using False t(2,4) by auto
    qed
  qed simp
qed simp

section \<open>The thread of a worker\<close>





section \<open>A team of workers\<close>








section \<open>No nonce twice\<close>

text \<open>The space of a job has \<open>k\<close> bits; a nonce of it is in a block of \<open>2 ^ 15\<close>, at an offset.\<close>

definition space :: "Job \<Rightarrow> nat" where "space J = (if jb_nicehash J then 24 else 32)"




lemma nonceMask_space: "rx_job J \<Longrightarrow> nonceMask J = Some (mask (space J))"
  by (simp add: nonceMask_def rx_place space_def mask_eq_exp_minus_1)




lemma round_low_bits: "unat (((r :: u32) + 1) AND 32767) = (unat r mod 2 ^ 15 + 1) mod 2 ^ 15"
proof -
  have "(r + 1) AND 32767 = (r + 1) AND mask 15" by (simp add: mask_eq_exp_minus_1)
  then have "unat ((r + 1) AND 32767) = unat (r + 1) mod 2 ^ 15" by (simp only: unat_and_mask)
  also have "\<dots> = (unat r + 1) mod 2 ^ 15" using unat_add_of_nat [of r 1] by (simp add: mod_mod_cancel)
  finally show ?thesis by (simp add: mod_simps)
qed








section \<open>The concrete team\<close>



















lemma works_on_rounds:
  assumes "works_on J W" and "length rs = 2"
  shows "works_on J (W\<lparr>wj_rounds := rs\<rparr>)"
proof -
  let ?W = "W\<lparr>wj_rounds := rs\<rparr>"
  have same: "currentJob ?W = currentJob W" "wj_blob ?W = wj_blob W" by (simp_all add: currentJob_def wj_blob_def)
  then have "wj_nonce ?W 0 = wj_nonce W 0" by (simp add: wj_nonce_def nonce_words_def nonce_at_def)
  then show ?thesis using assms same works_take [OF assms(1)] by (simp add: works_on_def job_slots_ok_def job_input_def)
qed

lemma next_refused_keeps: "Nonce_next i ws r m S = Some (False, vs, T) \<Longrightarrow> vs = ws"
  by (auto simp: Nonce_next_def Let_def split: if_splits option.splits prod.splits)





section \<open>The properties\<close>

text \<open>C8: A worker that takes a job and hashes while other threads act on the nonce counters never fails, and every share it
  submits is one: the hash is the RandomX hash of the job's blob with the submitted nonce in it, and is below the target.
  The worker already has the next nonce in its blob when the hash of the one before is finished.\<close>

theorem worker_shares_valid:
  assumes "env_ok E" and "rx_job J" and "job_slots_ok (cw_job C)" and "vm_ok E (cw_vm C)" and "length (nc_nonces S) = 2"
    and "\<And>f S. f \<in> set others \<Longrightarrow> length (nc_nonces S) = 2 \<Longrightarrow> length (nc_nonces (f S)) = 2"
  shows "\<exists>W S1 shares C' T. wj_save 1 J kReserveCount 0 (cw_job C) S = Some (W, S1) \<and>
    rx_turns E others (C\<lparr>cw_job := W, cw_first := True\<rparr>) S1 = Some (shares, C', T) \<and>
    (\<forall>s \<in> set shares. valid_share E (J\<lparr>jb_backend := 0\<rparr>) s)"
proof (rule save_cases [OF assms(3,2,5), of kReserveCount 0])
  fix V T
  assume V: "wj_save 1 J kReserveCount 0 (cw_job C) S = Some (V, T)" "works_on (J\<lparr>jb_backend := of_nat 0\<rparr>) V" "length (nc_nonces T) = 2"
  then have cw: "cw_ok E (J\<lparr>jb_backend := 0\<rparr>) (C\<lparr>cw_job := V, cw_first := True\<rparr>)" using assms(4) by (simp add: cw_ok_def)
  have "\<exists>shares C' T'. rx_turns E others (C\<lparr>cw_job := V, cw_first := True\<rparr>) T = Some (shares, C', T') \<and>
      (\<forall>s \<in> set shares. valid_share E (J\<lparr>jb_backend := 0\<rparr>) s)"
    by (rule rx_turns_valid [OF assms(1) _ cw V(3)]) (rule assms(6); assumption)
  then show ?thesis using V(1) by blast
qed


text \<open>Two threads of the Scala configuration.\<close>

definition scala_job :: Job where
  "scala_job = (new_Job False RX_XLA None)\<lparr>jb_size := 76\<rparr>"

definition scala_worker :: CpuWorker where
  "scala_worker = \<lparr>cw_algorithm = RX_XLA, cw_job = new_WorkerJob 1, cw_vm = new_vm scala_env, cw_temp = [], cw_first = True, cw_count = 0\<rparr>"

lemma scala_ok:
  "rx_job scala_job" "job_slots_ok (cw_job scala_worker)" "vm_ok scala_env (cw_vm scala_worker)" "space scala_job = 32" "jb_index scala_job = 0"
  using new_vm_ok scala_env_ok
  by (simp_all add: scala_job_def scala_worker_def rx_job_def new_Job_def family_def kMaxBlobSize_def job_slots_ok_def new_WorkerJob_def space_def)

theorem worker_shares_valid_witness:
  "\<exists>W S1 shares C' T. wj_save 1 scala_job kReserveCount 0 (cw_job scala_worker) new_Nonce = Some (W, S1) \<and>
    rx_turns scala_env [nonce_pause False] (scala_worker\<lparr>cw_job := W, cw_first := True\<rparr>) S1 = Some (shares, C', T)"
  using worker_shares_valid [OF scala_env_ok scala_ok(1-3), of new_Nonce "[nonce_pause False]"]
  by (auto simp: new_Nonce_def nonce_pause_def)



text \<open>C40: A worker whose range is used up counts the round before it asks for a new range. When it is refused and the miner
  then goes on with the same job, as after a pause, the next round does not ask again: the worker walks on from its old
  range, into one that another worker may have been granted.\<close>

theorem refused_worker_goes_on:
  assumes "works_on J W" and "length (nc_nonces S) = 2" and "length (nc_nonces S') = 2"
    and "wj_nextRound 1 kReserveCount 1 W S = Some (False, V, T)"
  shows "\<exists>U. wj_nextRound 1 kReserveCount 1 V S' = Some (True, U, S') \<and> wj_nonce U 0 = wj_nonce W 0 + 1"
proof (cases rule: nextRound_cases [OF assms(1,2), of kReserveCount 1, case_names reserve step])
  case (reserve ok x T')
  let ?W = "W\<lparr>wj_rounds := (wj_rounds W)[wj_index W := wj_rounds W ! wj_index W + 1]\<rparr>"
  have V: "V = set_nonce_words 0 [x] ?W" "ok = False" using reserve(3) assms(4) by simp_all
  have x: "x = wj_nonce W 0" using next_refused_keeps [OF reserve(2) [unfolded V(2)]] by simp
  have i: "wj_index W < length (wj_rounds W)" using assms(1) by (simp add: works_on_def rx_job_def job_slots_ok_def)
  have r: "wj_rounds V ! wj_index V = wj_rounds W ! wj_index W + 1" using i by (simp add: V(1))
  have low: "(wj_rounds W ! wj_index W + 1) AND 32767 = 0" using reserve(1) by (simp add: kReserveCount_def)
  have asks: "(wj_rounds V ! wj_index V + 1) AND (kReserveCount - 1) \<noteq> 0"
  proof -
    have "unat (wj_rounds W ! wj_index W + 1) mod 2 ^ 15 = 0"
      using low unat_and_mask [of "wj_rounds W ! wj_index W + 1" 15] by (simp add: mask_eq_exp_minus_1)
    then have "unat ((wj_rounds V ! wj_index V + 1) AND 32767) = 1" unfolding r round_low_bits by simp
    then show ?thesis by (auto simp: kReserveCount_def)
  qed
  show ?thesis
    by (rule nextRound_cases [OF reserve(4) [folded V(1)] assms(3), of kReserveCount 1])
      (use asks reserve(5) x V in \<open>auto simp: V(1) [symmetric]\<close>)
qed (use assms(4) in simp)

text \<open>The nonces of a job are used up, and the round is at the end of a range.\<close>

theorem refused_worker_goes_on_witness:
  "\<exists>W S V T U. wj_nextRound 1 kReserveCount 1 W S = Some (False, V, T) \<and>
    wj_nextRound 1 kReserveCount 1 V S = Some (True, U, S) \<and> wj_nonce U 0 = wj_nonce W 0 + 1"
proof (rule save_cases [OF scala_ok(2,1), of new_Nonce kReserveCount 0])
  show "length (nc_nonces new_Nonce) = 2" by (simp add: new_Nonce_def)
next
  fix m ok x T V
  assume V: "nonceMask scala_job = Some m" "works_on (scala_job\<lparr>jb_backend := of_nat 0\<rparr>) V" "wj_nonce_mask V ! wj_index V = m"
  let ?J = "scala_job\<lparr>jb_backend := 0\<rparr>"
  let ?W = "V\<lparr>wj_rounds := [32767, 0]\<rparr>" and ?S = "new_Nonce\<lparr>nc_nonces := [of_nat (2 ^ 17 * 2 ^ 15), 0]\<rparr>"
  have i: "wj_index V = 0" using V(2) scala_ok(5) by (simp add: works_on_def)
  have W: "works_on ?J ?W"
    using works_on_rounds [OF V(2), of "[32767, 0]"] by simp
  have m: "m = mask 32" using V(1) nonceMask_space [OF scala_ok(1)] scala_ok(4) by simp
  have S: "length (nc_nonces ?S) = 2" "nc_nonces ?S ! 0 = of_nat (2 ^ 17 * 2 ^ 15)" by simp_all
  obtain ok2 x2 T2 where n: "Nonce_next 0 [wj_nonce ?W 0] (2 ^ 15) (mask 32) ?S = Some (ok2, [x2], T2)" "\<not> ok2"
    using Nonce_next_in_order [OF _ S, of 32 "wj_nonce ?W 0"] by auto
  obtain U' T' where r: "wj_nextRound 1 kReserveCount 1 ?W ?S = Some (False, U', T')"
  proof (rule nextRound_cases [OF W S(1), of kReserveCount 1])
    fix ok3 x3 T3
    assume "Nonce_next (jb_index ?J) [wj_nonce ?W 0] (kReserveCount * 1) (wj_nonce_mask ?W ! wj_index ?W) ?S = Some (ok3, [x3], T3)"
      and r: "wj_nextRound 1 kReserveCount 1 ?W ?S = Some (ok3, set_nonce_words 0 [x3]
        (?W\<lparr>wj_rounds := (wj_rounds ?W)[wj_index ?W := wj_rounds ?W ! wj_index ?W + 1]\<rparr>), T3)"
    then have "ok3 = ok2" using n(1) V(3) m scala_ok(5) by (simp add: kReserveCount_def)
    then show thesis using that r n(2) by simp
  next
    assume "(wj_rounds ?W ! wj_index ?W + 1) AND (kReserveCount - 1) \<noteq> 0"
    then show thesis by (simp add: i kReserveCount_def)
  qed
  from refused_worker_goes_on [OF W S(1) S(1) r] r show ?thesis by blast
qed

end
