(* ===== verification/Spec2Isabelle.thy ===== *)
theory Spec2Isabelle
  imports C_Prelude Streaming Endian Sha256 Pbkdf2 Blake2b Blake256 Reciprocal Salsa20
    RxConfig RxArith RxMachine RxBytecode RxAes RxAesTables RxVm RxSuperscalar RxSsCorrect RxDataset Keccak Sponge K12
    YespowerRef YespowerOpt YespowerPwx YespowerMix YespowerMemory
    YespowerSmix YespowerSmix2 YespowerHash RxXla
    Cvt Lines Nonces Jobs Worker
begin

text \<open>
  The hash functions of XLArig, a miner for the RandomX family whose own coin, Scala (XLA), hashes the block
  header with BLAKE2b, yespower and KangarooTwelve to a seed, and the seed with RandomX. This library models the
  portable C and C++ of those functions under \<open>src/src/crypto\<close> and \<open>src/src/base/crypto\<close> as functional programs
  and proves them correct, and with them the parts of the miner that decide what is hashed: how lines and jobs arrive from
  a pool, and how the threads divide the nonces. Paths below are relative to \<open>src/src\<close>; \<open>panthera/\<close> is
  \<open>crypto/randomx/panthera/\<close>, \<open>randomx/\<close> is \<open>crypto/randomx/\<close>.

  \<^bold>\<open>How the parts interact.\<close> \<open>randomx_calculate_hash\<close> (\<open>randomx/randomx.cpp\<close>) turns the input into a seed of 64
  bytes: BLAKE2b, or for XLA \<open>rx_yespower_k12\<close>. The seed fills the scratchpad and, in a chain of programs, the
  generator \<open>fillAes4Rx4\<close> draws each program; \<open>compileProgram\<close> turns it into bytecode, and the interpreter runs it
  over the registers, the scratchpad and a line of the dataset per iteration. The registers are hashed to the next
  seed, and at the end together with the AES hash of the scratchpad to the result. The dataset is computed from a
  cache, which Argon2 fills from the key, with one generated superscalar program per access to it. Every hash that takes data in
  pieces (SHA-256, BLAKE2b, BLAKE-256, the sponge, KangarooTwelve) is also proved for all ways of cutting it.

  \<^bold>\<open>Theories, in the order they build on each other.\<close>

  \<^item> \<open>C_Prelude\<close>: machine integers as words, arrays as lists, \<open>memcpy\<close> as \<open>blit\<close>, counted loops as \<open>for_range\<close>, and
    the facts the components share. \<open>Streaming\<close>: the interface of incremental routines as locales (\<open>incremental\<close>,
    \<open>buffered\<close>, \<open>counted_buffer\<close>, \<open>stream_hash\<close>, \<open>keyed_hash\<close>), whose laws the update functions of the hashes
    discharge and whose facts the theorems on pieces rest on.
  \<^item> \<open>Endian\<close>: \<open>panthera/sysendian.h\<close>, \<open>randomx/blake2/endian.h\<close> and the other codecs, with the locale \<open>codec\<close>.
  \<^item> \<open>Sha256\<close>, \<open>Pbkdf2\<close>: \<open>panthera/sha256.c\<close>. The context is a record, the transform with its rotating array
    positions refines the block function of FIPS 180-4; HMAC, both paths of PBKDF2, and when PBKDF2 fails to return.
  \<^item> \<open>Blake2b\<close> (\<open>randomx/blake2/blake2b.c\<close>), \<open>Blake256\<close> (\<open>crypto/cn/c_blake256.c\<close>), \<open>Salsa20\<close>
    (\<open>crypto/astrobwt/salsa20_ref\<close>), \<open>Reciprocal\<close> (\<open>randomx/reciprocal.c\<close>): each against its published
    definition, with the error codes and, for BLAKE-256, the pieces for which the code loses data.
  \<^item> \<open>Keccak\<close>, \<open>Sponge\<close>, \<open>K12\<close>: \<open>base/crypto/keccak.cpp\<close> and \<open>panthera/Keccak*\<close>, \<open>panthera/KangarooTwelve.c\<close>.
    The unrolled permutation equals the reference one; the streaming sponge (locale \<open>permutation\<close>, interpreted with 12 and
    24 rounds) is the one-shot sponge; KangarooTwelve is the tree hash \<open>k12_spec\<close>.
  \<^item> \<open>YespowerRef\<close>, \<open>YespowerOpt\<close>: \<open>panthera/yespower-ref.c\<close>, and \<open>panthera/yespower-opt.c\<close> with
    \<open>yespower-platform.c\<close>. The optimised file includes itself; the two passes are one set of definitions with an argument
    \<open>pass\<close>. \<open>YespowerPwx\<close> relates one block and the contexts (\<open>ctx_rel\<close>), \<open>YespowerMix\<close> an array of blocks
    (\<open>mix_chain\<close>, \<open>block_mix\<close>), \<open>YespowerMemory\<close> both mixers and the byte buffer, \<open>YespowerSmix\<close> and
    \<open>YespowerSmix2\<close> the two loops of SMix, \<open>YespowerHash\<close> the whole function, its failures and the memory region a
    thread keeps between calls (\<open>thread_region\<close>, an inductive set of reachable regions).
  \<^item> \<open>RxConfig\<close>: \<open>randomx/randomx.{h,cpp}\<close>, the shipped configurations and the masks and opcode table \<open>Apply\<close> derives. The
    order of the instructions is in the source twice and so it is here: \<open>handle_order\<close> is that of the table in \<open>Apply\<close>,
    \<open>compile_order\<close> that of the comparisons in \<open>randomx/bytecode_machine.cpp\<close>.
    \<open>RxArith\<close>: \<open>randomx/instructions_portable.cpp\<close>.
  \<^item> \<open>RxMachine\<close>, \<open>RxBytecode\<close>: \<open>randomx/bytecode_machine.{hpp,cpp}\<close>. Pointers into registers, scratchpad and
    constants are a datatype, so that an access to the wrong kind or outside its memory is the error \<open>None\<close>. What the compiler
    emits never errs, a branch goes back to just after the last instruction that changed its register or was a branch
    (\<open>uses\<close>, \<open>branch_ok\<close>), and it is taken at most twice in a row, so that execution ends.
  \<^item> \<open>RxAes\<close>, \<open>RxAesTables\<close>: \<open>randomx/soft_aes.*\<close> and \<open>randomx/aes_hash.cpp\<close>; the lookups against FIPS 197.
  \<^item> \<open>RxVm\<close>: \<open>randomx/virtual_machine.cpp\<close>, \<open>vm_interpreted.cpp\<close> and the hash functions of \<open>randomx.cpp\<close>, plain and
    pipelined. \<open>RxSuperscalar\<close>, \<open>RxSsCorrect\<close>: \<open>randomx/superscalar.cpp\<close>, the simulated scheduling of ports and
    registers, typed output and termination (locale \<open>byte_source\<close>). The loops that redraw an immediate end if the
    bytes of the source do not stay unusable for ever (\<open>rotation_stuck\<close>, \<open>divisor_stuck\<close>), which is not proved of BLAKE2b. \<open>RxDataset\<close>: \<open>randomx/dataset.cpp\<close> and the split of the
    work over threads in \<open>crypto/rx/RxDataset.cpp\<close> (locale \<open>item_store\<close>).
  \<^item> \<open>RxXla\<close>: \<open>rx_yespower_k12\<close> with yespower and KangarooTwelve in their places.
  \<^item> \<open>Lines\<close> (\<open>base/net/tools/LineReader.cpp\<close>): the lines of a connection, for every way of cutting the stream. \<open>Cvt\<close>
    (\<open>base/tools/Cvt.cpp\<close>): hexadecimal text. \<open>Jobs\<close> (\<open>base/net/stratum/Job.cpp\<close>): blobs, targets, and the bits of
    the nonce a job leaves free.
  \<^item> \<open>Nonces\<close> (\<open>crypto/common/Nonce.cpp\<close>): the counters the threads share. \<open>nonce_step\<close> is the step relation of any
    number of threads, with the addition and the test of \<open>next\<close> as separate steps; \<open>nonce_inv\<close> is its invariant, in which
    the range a thread has drawn but not yet tested is already its own.
  \<^item> \<open>Worker\<close>: \<open>backend/common/WorkerJob.h\<close> and the thread of \<open>backend/cpu/CpuWorker.cpp\<close> for RandomX, which
    uses the pipelined hash of \<open>RxVm\<close>: what a worker submits is a share (\<open>valid_share\<close>). \<open>rx_turns\<close> is the inner loop among
    other threads; \<open>start_step\<close> is one step of \<open>start\<close>, with its outer loop, \<open>consumeJob\<close> and the wait of a paused miner.
    \<open>team_run\<close> runs the threads of the miner over one counter in any order, while the miner pauses and resumes
    (\<open>core/Miner.cpp\<close>); \<open>abs_inv\<close> is the abstract state of the team, a block of nonces and an offset per worker, from which
    it follows that no nonce is used twice. The runs are those that do not resume the miner on a job whose ranges are used
    up (\<open>resumed_in_time\<close>); what the code does then is \<open>refused_worker_goes_on\<close>.

  \<^bold>\<open>Conventions.\<close> Integers keep their width where they can wrap (\<open>u8\<close>, \<open>u32\<close>, \<open>u64\<close>); sizes and loop counters that the
  code keeps far from the limit are natural numbers. An uninitialised local or the contents of fresh memory is an
  argument, and the theorems hold for all its values. Errors are the codes of the C functions, \<open>None\<close> is undefined
  behaviour or a loop that does not return. No definition uses fuel: loops are structural or have a measure; the
  interpreter of the bytecode, the loop that fills the S-box, the draw loops of the superscalar generator and the inner
  loop of PBKDF2, whose end is not plain to see, are \<open>partial_function (option)\<close>, and that they return (or when they do
  not) is a theorem.

  \<^bold>\<open>Parameters.\<close> Code outside the repository or outside C is a field of the environment \<open>rx_env\<close> or an argument: the
  floating-point unit (\<open>fpu\<close>: IEEE arithmetic under the rounding mode), the AES rounds of the processor (\<open>aes_rounds\<close>), the
  vendored Argon2, and the answers of \<open>malloc\<close>, \<open>mmap\<close> and \<open>munmap\<close> (\<open>ref_heap\<close>, \<open>os_answers\<close>). No law of them is
  assumed except sizes of results, as hypotheses of the theorems that need them. The word source of the dataset is a
  parameter of the machine (\<open>e_dataset\<close>), which \<open>RxDataset\<close> fills with the full and the light reader; the fields
  \<open>e_yespower\<close> and \<open>e_K12\<close> are filled in \<open>RxXla\<close>.

  \<^bold>\<open>Not modelled.\<close> The just-in-time compilers and assembly emit or are machine code, whose meaning the sources
  do not define; the SSE2, AVX and NEON branches and the main loops of CryptoNight and AstroBWT are written in
  intrinsics. Argon2, rapidjson, fmt, hwloc, libethash and the HTTP parser are vendored. Huge pages and the start of threads,
  the traffic of the stratum clients, configuration files, logging and the command line are input and output around these
  parts, over libuv and the operating system. Alignment, \<open>errno\<close> and the wiping of stack memory have no
  counterpart in the model.
\<close>

end
